(* ===== verification/Prelude.thy ===== *)
theory Prelude
  imports Main
begin

text \<open>
  Shared ground of the development: the effect type in which the service code is
  written (explicit state passing, with an error as a value), its combinators, a
  weakest-precondition calculus for them, and the generic facts on lists of rows
  that the table operations use.

  A Go function that reads and writes the database and returns \<open>(T, error)\<close> is a
  value of \<open>('e, 's, 'a) eff\<close>: it maps the tables to the result or the error, and to
  the tables at the moment it returned. The tables at an error are kept, since a
  caller inside the same transaction may catch the error and go on.
\<close>

named_theorems wp_simps \<open>weakest preconditions of the combinators and of the operations\<close>
named_theorems eff_simps \<open>running the combinators on a given state\<close>
named_theorems row_simps \<open>facts on lists of table rows\<close>

section \<open>Effects\<close>

type_synonym ('e, 's, 'a) eff = "'s \<Rightarrow> ('e + 'a) \<times> 's"

definition ret :: "'a \<Rightarrow> ('e, 's, 'a) eff" where
  "ret a = (\<lambda>s. (Inr a, s))"

definition fail :: "'e \<Rightarrow> ('e, 's, 'a) eff" where
  "fail e = (\<lambda>s. (Inl e, s))"

definition bnd :: "('e, 's, 'a) eff \<Rightarrow> ('a \<Rightarrow> ('e, 's, 'b) eff) \<Rightarrow> ('e, 's, 'b) eff" where
  "bnd m k = (\<lambda>s. case m s of (Inl e, s') \<Rightarrow> (Inl e, s') | (Inr a, s') \<Rightarrow> k a s')"

definition gets :: "('s \<Rightarrow> 'a) \<Rightarrow> ('e, 's, 'a) eff" where
  "gets f = (\<lambda>s. (Inr (f s), s))"

definition modify :: "('s \<Rightarrow> 's) \<Rightarrow> ('e, 's, unit) eff" where
  "modify f = (\<lambda>s. (Inr (), f s))"

text \<open>\<open>if !b { return e }\<close> before the rest of a function.\<close>

definition require :: "bool \<Rightarrow> 'e \<Rightarrow> ('e, 's, unit) eff" where
  "require b e = (if b then ret () else fail e)"

text \<open>A value computed by pure code that may return an error.\<close>

definition lift_sum :: "('e + 'a) \<Rightarrow> ('e, 's, 'a) eff" where
  "lift_sum r = (\<lambda>s. (r, s))"

text \<open>\<open>if err != nil { return h(err) }\<close>: the handler decides what to do with the error.\<close>

definition handle :: "('e, 's, 'a) eff \<Rightarrow> ('e \<Rightarrow> ('e, 's, 'a) eff) \<Rightarrow> ('e, 's, 'a) eff" where
  "handle m h = (\<lambda>s. case m s of (Inl e, s') \<Rightarrow> h e s' | (Inr a, s') \<Rightarrow> (Inr a, s'))"

text \<open>Running an operation of another module on its part of the state.\<close>

definition zoom :: "('s \<Rightarrow> 't) \<Rightarrow> ('t \<Rightarrow> 's \<Rightarrow> 's) \<Rightarrow> ('e, 't, 'a) eff \<Rightarrow> ('e, 's, 'a) eff" where
  "zoom get put m = (\<lambda>s. case m (get s) of (r, t) \<Rightarrow> (r, put t s))"

text \<open>One SQL statement: if it fails, it has changed nothing.\<close>

definition atomic :: "('e, 's, 'a) eff \<Rightarrow> ('e, 's, 'a) eff" where
  "atomic m = (\<lambda>s. case m s of (Inl e, _) \<Rightarrow> (Inl e, s) | (Inr a, s') \<Rightarrow> (Inr a, s'))"

text \<open>A \<open>for\<close> loop whose body may return an error.\<close>

primrec for_each :: "'x list \<Rightarrow> ('x \<Rightarrow> ('e, 's, unit) eff) \<Rightarrow> ('e, 's, unit) eff" where
  "for_each [] f = ret ()"
| "for_each (x # xs) f = bnd (f x) (\<lambda>_. for_each xs f)"

lemma ret_apply [eff_simps]: "ret a s = (Inr a, s)"
  by (simp add: ret_def)

lemma fail_apply [eff_simps]: "fail e s = (Inl e, s)"
  by (simp add: fail_def)

lemma gets_apply [eff_simps]: "gets f s = (Inr (f s), s)"
  by (simp add: gets_def)

lemma modify_apply [eff_simps]: "modify f s = (Inr (), f s)"
  by (simp add: modify_def)

lemma lift_sum_apply [eff_simps]: "lift_sum r s = (r, s)"
  by (simp add: lift_sum_def)

lemma bnd_apply [eff_simps]:
  "m s = (Inr a, s') \<Longrightarrow> bnd m k s = k a s'"
  "m s = (Inl e, s') \<Longrightarrow> bnd m k s = (Inl e, s')"
  by (simp_all add: bnd_def)

lemma require_apply [eff_simps]: "require b e s = (if b then (Inr (), s) else (Inl e, s))"
  by (simp add: require_def eff_simps)

lemma bnd_assoc: "bnd (bnd m k) l = bnd m (\<lambda>a. bnd (k a) l)"
  by (rule ext) (simp add: bnd_def split: prod.split sum.split)

text \<open>The same for pure code that may return an error.\<close>

definition sum_bind :: "('e + 'a) \<Rightarrow> ('a \<Rightarrow> 'e + 'b) \<Rightarrow> 'e + 'b" where
  "sum_bind r k = (case r of Inl e \<Rightarrow> Inl e | Inr a \<Rightarrow> k a)"

lemma sum_bind_simps [simp]: "sum_bind (Inl e) k = Inl e" "sum_bind (Inr a) k = k a"
  by (simp_all add: sum_bind_def)

lemma sum_bind_Inr: "sum_bind r k = Inr b \<longleftrightarrow> (\<exists>a. r = Inr a \<and> k a = Inr b)"
  by (cases r) auto

section \<open>Weakest preconditions\<close>

text \<open>
  \<open>wp m Q E s\<close>: run from \<open>s\<close>, \<open>m\<close> either returns a value and tables that satisfy \<open>Q\<close>,
  or an error and tables that satisfy \<open>E\<close>. Every effect terminates, so this is total
  correctness.
\<close>

definition wp :: "('e, 's, 'a) eff \<Rightarrow> ('a \<Rightarrow> 's \<Rightarrow> bool) \<Rightarrow> ('e \<Rightarrow> 's \<Rightarrow> bool) \<Rightarrow> 's \<Rightarrow> bool" where
  "wp m Q E s \<longleftrightarrow> (case m s of (Inl e, s') \<Rightarrow> E e s' | (Inr a, s') \<Rightarrow> Q a s')"

lemma wp_ret [wp_simps]: "wp (ret a) Q E = Q a"
  by (rule ext) (simp add: wp_def eff_simps)

lemma wp_fail [wp_simps]: "wp (fail e) Q E = E e"
  by (rule ext) (simp add: wp_def eff_simps)

lemma wp_bnd [wp_simps]: "wp (bnd m k) Q E = wp m (\<lambda>a. wp (k a) Q E) E"
  by (rule ext) (simp add: wp_def bnd_def split: prod.split sum.split)

lemma wp_gets [wp_simps]: "wp (gets f) Q E = (\<lambda>s. Q (f s) s)"
  by (rule ext) (simp add: wp_def eff_simps)

lemma wp_modify [wp_simps]: "wp (modify f) Q E = (\<lambda>s. Q () (f s))"
  by (rule ext) (simp add: wp_def eff_simps)

lemma wp_require [wp_simps]: "wp (require b e) Q E = (if b then Q () else E e)"
  by (rule ext) (simp add: wp_def eff_simps)

lemma wp_lift_sum [wp_simps]:
  "wp (lift_sum r) Q E = (case r of Inl e \<Rightarrow> E e | Inr a \<Rightarrow> Q a)"
  by (rule ext) (simp add: wp_def eff_simps split: sum.split)

lemma wp_handle [wp_simps]: "wp (handle m h) Q E = wp m Q (\<lambda>e. wp (h e) Q E)"
  by (rule ext) (simp add: wp_def handle_def split: prod.split sum.split)

lemma wp_atomic [wp_simps]: "wp (atomic m) Q E = (\<lambda>s. wp m Q (\<lambda>e _. E e s) s)"
  by (rule ext) (simp add: wp_def atomic_def split: prod.split sum.split)

lemma wp_zoom [wp_simps]:
  "wp (zoom get put m) Q E = (\<lambda>s. wp m (\<lambda>a t. Q a (put t s)) (\<lambda>e t. E e (put t s)) (get s))"
  by (rule ext) (simp add: wp_def zoom_def split: prod.split sum.split)

lemma wp_if [wp_simps]: "wp (if b then m else n) Q E = (if b then wp m Q E else wp n Q E)"
  by simp

lemma wp_let [wp_simps]: "wp (Let x m) Q E = wp (m x) Q E"
  by simp

lemma wp_option [wp_simps]:
  "wp (case x of None \<Rightarrow> m | Some y \<Rightarrow> n y) Q E =
     (case x of None \<Rightarrow> wp m Q E | Some y \<Rightarrow> wp (n y) Q E)"
  by (simp split: option.split)

lemma wp_sum [wp_simps]:
  "wp (case x of Inl y \<Rightarrow> m y | Inr z \<Rightarrow> n z) Q E =
     (case x of Inl y \<Rightarrow> wp (m y) Q E | Inr z \<Rightarrow> wp (n z) Q E)"
  by (simp split: sum.split)

lemma wp_prod [wp_simps]:
  "wp (case x of (a, b) \<Rightarrow> m a b) Q E = (case x of (a, b) \<Rightarrow> wp (m a b) Q E)"
  by (simp split: prod.split)

lemma wp_mono:
  assumes "wp m Q E s"
    and "\<And>a s'. Q a s' \<Longrightarrow> Q' a s'"
    and "\<And>e s'. E e s' \<Longrightarrow> E' e s'"
  shows "wp m Q' E' s"
  using assms by (auto simp: wp_def split: prod.splits sum.splits)

lemma wp_conj:
  assumes "wp m Q E s" and "wp m Q' E' s"
  shows "wp m (\<lambda>a t. Q a t \<and> Q' a t) (\<lambda>e t. E e t \<and> E' e t) s"
  using assms by (auto simp: wp_def split: prod.splits sum.splits)

lemma wpI:
  assumes "\<And>a s'. m s = (Inr a, s') \<Longrightarrow> Q a s'" and "\<And>e s'. m s = (Inl e, s') \<Longrightarrow> E e s'"
  shows "wp m Q E s"
  using assms by (auto simp: wp_def split: prod.splits sum.splits)

lemma wp_okD: "wp m Q E s \<Longrightarrow> m s = (Inr a, s') \<Longrightarrow> Q a s'"
  by (simp add: wp_def eff_simps)

lemma wp_errD: "wp m Q E s \<Longrightarrow> m s = (Inl e, s') \<Longrightarrow> E e s'"
  by (simp add: wp_def eff_simps)

text \<open>An effect that cannot fail returns a value.\<close>

lemma wp_succeeds: "wp m Q (\<lambda>_ _. False) s \<Longrightarrow> \<exists>a t. m s = (Inr a, t) \<and> Q a t"
  by (auto simp: wp_def split: prod.splits sum.splits)

lemma wp_for_each:
  assumes "I s" and "\<And>x t. x \<in> set xs \<Longrightarrow> I t \<Longrightarrow> wp (f x) (\<lambda>_. I) E t"
  shows "wp (for_each xs f) (\<lambda>_. I) E s"
  using assms
proof (induction xs arbitrary: s)
  case Nil
  then show ?case by (simp add: wp_simps)
next
  case (Cons x xs)
  have "wp (f x) (\<lambda>_. I) E s"
    using Cons.prems by simp
  then have "wp (f x) (\<lambda>_. wp (for_each xs f) (\<lambda>_. I) E) E s"
    by (rule wp_mono) (use Cons in auto)
  then show ?case by (simp add: wp_simps)
qed

lemma wp_for_each_err:
  assumes "\<And>x t. x \<in> set xs \<Longrightarrow> wp (f x) (\<lambda>_ _. True) E t"
  shows "wp (for_each xs f) (\<lambda>_ _. True) E s"
  by (rule wp_for_each) (simp_all add: assms)

text \<open>A condition on a nullable column, in executable form.\<close>

lemma pred_option_iff: "pred_option P x \<longleftrightarrow> (\<forall>y. x = Some y \<longrightarrow> P y)"
  by (cases x) simp_all

lemma pred_option_code [code]: "pred_option P None \<longleftrightarrow> True" "pred_option P (Some x) \<longleftrightarrow> P x"
  by simp_all

section \<open>Rows\<close>

text \<open>\<open>UPDATE ... SET ... WHERE p\<close> and the number of rows it affects.\<close>

definition update_rows :: "('r \<Rightarrow> bool) \<Rightarrow> ('r \<Rightarrow> 'r) \<Rightarrow> 'r list \<Rightarrow> 'r list" where
  "update_rows p f rs = map (\<lambda>r. if p r then f r else r) rs"

definition rows_affected :: "('r \<Rightarrow> bool) \<Rightarrow> 'r list \<Rightarrow> nat" where
  "rows_affected p rs = length (filter p rs)"

lemma update_rows_Nil [simp]: "update_rows p f [] = []"
  by (simp add: update_rows_def)

lemma update_rows_Cons [simp]:
  "update_rows p f (r # rs) = (if p r then f r else r) # update_rows p f rs"
  by (simp add: update_rows_def)

lemma update_rows_append [simp]: "update_rows p f (xs @ ys) = update_rows p f xs @ update_rows p f ys"
  by (simp add: update_rows_def)

lemma set_update_rows: "set (update_rows p f rs) = (\<lambda>r. if p r then f r else r) ` set rs"
  by (simp add: update_rows_def)

lemma map_update_rows [row_simps]:
  "(\<And>r. g (f r) = g r) \<Longrightarrow> map g (update_rows p f rs) = map g rs"
  by (simp add: update_rows_def)

lemma filter_update_rows [row_simps]:
  "(\<And>r. q (f r) = q r) \<Longrightarrow> filter q (update_rows p f rs) = update_rows p f (filter q rs)"
  by (induction rs) auto

lemma update_rows_id: "(\<And>r. r \<in> set rs \<Longrightarrow> \<not> p r) \<Longrightarrow> update_rows p f rs = rs"
  by (induction rs) auto

lemma length_update_rows [simp]: "length (update_rows p f rs) = length rs"
  by (simp add: update_rows_def)

lemma rows_affected_update: "(\<And>r. q (f r) = q r) \<Longrightarrow> rows_affected q (update_rows p f rs) = rows_affected q rs"
  by (simp add: rows_affected_def filter_update_rows)

lemma rows_affected_pos: "rows_affected p rs \<noteq> 0 \<longleftrightarrow> (\<exists>r \<in> set rs. p r)"
  by (auto simp: rows_affected_def filter_empty_conv)

lemma rows_affected_key:
  assumes "distinct (map k rs)"
  shows "rows_affected (\<lambda>r. k r = x) rs = (if x \<in> k ` set rs then 1 else 0)"
  using assms
proof (induction rs)
  case Nil
  then show ?case by (simp add: rows_affected_def)
next
  case (Cons r rs)
  then show ?case by (auto simp: rows_affected_def)
qed

lemma distinct_map_inj: "distinct (map k rs) \<Longrightarrow> r \<in> set rs \<Longrightarrow> r' \<in> set rs \<Longrightarrow> k r = k r' \<Longrightarrow> r = r'"
  by (auto simp: distinct_map dest: inj_onD)

lemma filter_key_singleton:
  "distinct (map k rs) \<Longrightarrow> r \<in> set rs \<Longrightarrow> filter (\<lambda>x. k x = k r) rs = [r]"
  by (induction rs) (auto simp: filter_empty_conv rev_image_eqI)

lemma find_None: "find p rs = None \<longleftrightarrow> (\<forall>r \<in> set rs. \<not> p r)"
  by (induction rs) auto

lemma find_SomeD: "find p rs = Some r \<Longrightarrow> r \<in> set rs \<and> p r"
  by (induction rs) (auto split: if_splits)

lemma find_key: "distinct (map k rs) \<Longrightarrow> r \<in> set rs \<Longrightarrow> find (\<lambda>x. k x = k r) rs = Some r"
  by (induction rs) (auto simp: rev_image_eqI)

text \<open>A column total after one row has changed.\<close>

lemma sum_update_key:
  fixes g :: "'r \<Rightarrow> 'n::ab_group_add"
  assumes "distinct (map k rs)" and "r \<in> set rs"
  shows "sum_list (map g (update_rows (\<lambda>x. k x = k r) f rs)) =
         sum_list (map g rs) - g r + g (f r)"
  using assms
proof (induction rs)
  case Nil
  then show ?case by simp
next
  case (Cons x rs)
  show ?case
  proof (cases "r = x")
    case True
    have "update_rows (\<lambda>y. k y = k r) f rs = rs"
      using Cons.prems(1) True by (intro update_rows_id) (auto simp: rev_image_eqI)
    with True show ?thesis by simp
  next
    case False
    with Cons.prems have "r \<in> set rs" and "k x \<noteq> k r" by (auto simp: rev_image_eqI)
    with Cons show ?thesis by (simp add: algebra_simps)
  qed
qed

text \<open>A Go map filled by a loop over rows.\<close>

lemma fold_map_upd_other:
  "x \<notin> f ` set rs \<Longrightarrow> fold (\<lambda>r m. m(f r \<mapsto> g r)) rs m x = m x"
  by (induction rs arbitrary: m) auto

lemma fold_map_upd:
  "distinct (map f rs) \<Longrightarrow> r \<in> set rs \<Longrightarrow> fold (\<lambda>r m. m(f r \<mapsto> g r)) rs m (f r) = Some (g r)"
  by (induction rs arbitrary: m) (auto simp: fold_map_upd_other)

text \<open>Exchanging two sums, and a sum in which one row of a key contributes.\<close>

lemma sum_list_swap:
  fixes g :: "'a \<Rightarrow> 'b \<Rightarrow> 'n::comm_monoid_add"
  shows "sum_list (map (\<lambda>a. sum_list (map (g a) bs)) as) = sum_list (map (\<lambda>b. sum_list (map (\<lambda>a. g a b) as)) bs)"
  by (induction as) (simp_all add: sum_list_addf)

lemma sum_list_one_key:
  fixes c :: "'n::comm_monoid_add"
  shows "distinct (map k rs) \<Longrightarrow> sum_list (map (\<lambda>r. if k r = x then c else 0) rs) = (if x \<in> k ` set rs then c else 0)"
  by (induction rs) auto

lemma sum_list_filter:
  fixes f :: "'a \<Rightarrow> 'n::comm_monoid_add"
  shows "sum_list (map f (filter p xs)) = sum_list (map (\<lambda>x. if p x then f x else 0) xs)"
  by (induction xs) simp_all

end
