(* ===== verification/Errs.thy ===== *)
theory Errs
  imports Prelude
begin

text \<open>
  \<open>panel/internal/pkg/errs/errs.go\<close>: the closed table of public error codes, their HTTP
  status, and the error value that carries a code together with an internal cause.

  Go errors are values here: \<open>Error\<close> is \<open>*errs.Error\<close>, \<open>Plain\<close> an error made by
  \<open>errors.New\<close> or by \<open>fmt.Errorf\<close> without \<open>%w\<close>, \<open>Wrapped\<close> one made by \<open>fmt.Errorf\<close> with
  one or more \<open>%w\<close>, \<open>PgError\<close> the driver's \<open>*pgconn.PgError\<close> with its SQLSTATE and the
  name of the constraint. Texts are English glosses of the source's messages; no definition
  computes with them.
\<close>

datatype errcode =
    BadRequest | Unauthorized | Forbidden | ReauthRequired | NotFound | Conflict
  | IdempotencyReuse | QuoteChanged | OrderPending | OrderLapsed | PaymentInProgress
  | BelowMethodMinimum | SubscriptionLimitReached | ValidationFailed | RateLimited
  | Internal | Unavailable | MethodNotAllowed | PayloadTooLarge | Timeout
  | OtherCode string

text \<open>The table \<open>specs\<close>: HTTP status and neutral text of every registered code.\<close>

fun specs :: "errcode \<Rightarrow> (nat \<times> string) option" where
  "specs BadRequest = Some (400, ''malformed request'')"
| "specs Unauthorized = Some (401, ''credentials invalid or expired'')"
| "specs Forbidden = Some (403, ''not allowed'')"
| "specs ReauthRequired = Some (403, ''verify your identity again'')"
| "specs NotFound = Some (404, ''no such resource'')"
| "specs Conflict = Some (409, ''data was changed'')"
| "specs IdempotencyReuse = Some (409, ''idempotency key used for another request'')"
| "specs QuoteChanged = Some (409, ''price was updated'')"
| "specs OrderPending = Some (409, ''an order is waiting for payment'')"
| "specs OrderLapsed = Some (409, ''order is past its payment deadline'')"
| "specs PaymentInProgress = Some (409, ''payment is being started'')"
| "specs BelowMethodMinimum = Some (409, ''below the minimum of this payment method'')"
| "specs SubscriptionLimitReached = Some (409, ''subscription limit reached'')"
| "specs ValidationFailed = Some (422, ''request parameters are not valid'')"
| "specs RateLimited = Some (429, ''too many requests'')"
| "specs Internal = Some (500, ''service unavailable'')"
| "specs Unavailable = Some (503, ''service unavailable'')"
| "specs MethodNotAllowed = Some (405, ''method not allowed'')"
| "specs PayloadTooLarge = Some (413, ''request too large'')"
| "specs Timeout = Some (504, ''request timed out'')"
| "specs (OtherCode c) = None"

datatype err =
    Error (Code: errcode) (Message: string) (Fields: "(string \<times> string) list")
      (RetryAfterSeconds: nat) (cause: "err option")
  | Plain string
  | PgError (pg_code: string) (pg_constraint: string)
  | Wrapped string "err list"

text \<open>\<open>specs[code].message\<close>: an unregistered code has the zero value.\<close>

definition spec_message :: "errcode \<Rightarrow> string" where
  "spec_message c = (case specs c of Some (_, m) \<Rightarrow> m | None \<Rightarrow> '''')"

definition Status :: "err \<Rightarrow> nat" where
  "Status e = (case specs (Code e) of Some (st, _) \<Rightarrow> st | None \<Rightarrow> 500)"

definition New :: "errcode \<Rightarrow> err" where
  "New c = Error c (spec_message c) [] 0 None"

definition Newf :: "errcode \<Rightarrow> string \<Rightarrow> err" where
  "Newf c m = Error c m [] 0 None"

definition Wrap :: "errcode \<Rightarrow> err \<Rightarrow> err" where
  "Wrap c e = Error c (spec_message c) [] 0 (Some e)"

definition Invalid :: "(string \<times> string) list \<Rightarrow> err" where
  "Invalid fs = Error ValidationFailed (spec_message ValidationFailed) fs 0 None"

text \<open>\<open>errors.Is\<close> over the wrap chain, and the search of \<open>errors.As\<close> for an \<open>*errs.Error\<close>.\<close>

fun errors_Is :: "err \<Rightarrow> err \<Rightarrow> bool" where
  "errors_Is (Plain m) t = (Plain m = t)"
| "errors_Is (PgError c n) t = (PgError c n = t)"
| "errors_Is (Error c m fs r None) t = (Error c m fs r None = t)"
| "errors_Is (Error c m fs r (Some e)) t = (Error c m fs r (Some e) = t \<or> errors_Is e t)"
| "errors_Is (Wrapped m es) t = (Wrapped m es = t \<or> list_ex (\<lambda>e. errors_Is e t) es)"

fun find_Error :: "err \<Rightarrow> err option" where
  "find_Error (Error c m fs r ca) = Some (Error c m fs r ca)"
| "find_Error (Plain m) = None"
| "find_Error (PgError c n) = None"
| "find_Error (Wrapped m es) =
     fold (\<lambda>e acc. case acc of Some x \<Rightarrow> Some x | None \<Rightarrow> find_Error e) es None"

text \<open>\<open>errs.As\<close>: any error as a public error; what is not one becomes \<open>internal_error\<close>.\<close>

definition As :: "err \<Rightarrow> err" where
  "As e = (case find_Error e of Some x \<Rightarrow> x | None \<Rightarrow> Wrap Internal e)"

lemma errors_Is_refl [simp]: "errors_Is e e"
  by (cases "(e, e)" rule: errors_Is.cases) auto

lemma fold_first_Some:
  "fold (\<lambda>e acc. case acc of Some x \<Rightarrow> Some x | None \<Rightarrow> f e) es acc = Some x \<Longrightarrow>
     acc = Some x \<or> (\<exists>e \<in> set es. f e = Some x)"
  by (induction es arbitrary: acc) (fastforce split: option.splits)+

lemma find_Error_is_Error:
  "find_Error e = Some x \<Longrightarrow> \<exists>c m fs r ca. x = Error c m fs r ca"
  by (induction e rule: find_Error.induct) (auto dest!: fold_first_Some)

lemma As_is_Error: "\<exists>c m fs r ca. As e = Error c m fs r ca"
  by (auto simp: As_def Wrap_def dest: find_Error_is_Error split: option.split)

lemma As_idem: "As (As e) = As e"
proof -
  obtain c m fs r ca where "As e = Error c m fs r ca"
    using As_is_Error by blast
  then show ?thesis by (simp add: As_def)
qed

end
