(* ===== verification/Go_Strings.thy ===== *)
theory Go_Strings
  imports Prelude
begin

text \<open>
  The parts of Go's standard library that the modelled code calls on strings and
  integers: UTF-8 decoding (\<open>unicode/utf8\<close>), \<open>strings.TrimSpace\<close>, \<open>strings.ContainsRune\<close>
  with the NUL rune, and the truncated division of Go and of \<open>big.Int.Quo\<close>.

  A Go string is a sequence of bytes, so it is a \<^typ>\<open>string\<close> here, each \<^typ>\<open>char\<close> one
  byte; its length is \<open>len(s)\<close>, its runes are what \<open>decode_rune\<close> finds.
\<close>

section \<open>UTF-8\<close>

definition cont :: "nat \<Rightarrow> nat \<Rightarrow> char \<Rightarrow> bool" where
  "cont lo hi c \<longleftrightarrow> lo \<le> of_char c \<and> of_char c \<le> (hi :: nat)"

definition low6 :: "char \<Rightarrow> nat" where
  "low6 c = of_char c mod 64"

text \<open>
  One step of \<open>utf8.DecodeRuneInString\<close>: the rune and its width in bytes; \<open>None\<close> with
  width 1 is \<open>RuneError\<close> for an invalid encoding.
\<close>

fun decode_rune :: "string \<Rightarrow> nat option \<times> nat" where
  "decode_rune [] = (None, 0)"
| "decode_rune (c # cs) =
    (let b = of_char c :: nat;
         lo = (if b = 224 then 160 else if b = 240 then 144 else 128);
         hi = (if b = 237 then 159 else if b = 244 then 143 else 191)
     in if b < 128 then (Some b, 1)
        else if b < 194 \<or> 244 < b then (None, 1)
        else if b < 224 then
          (case cs of
             c1 # _ \<Rightarrow> if cont 128 191 c1 then (Some (b mod 32 * 64 + low6 c1), 2) else (None, 1)
           | _ \<Rightarrow> (None, 1))
        else if b < 240 then
          (case cs of
             c1 # c2 # _ \<Rightarrow>
               if cont lo hi c1 \<and> cont 128 191 c2
               then (Some (b mod 16 * 4096 + low6 c1 * 64 + low6 c2), 3) else (None, 1)
           | _ \<Rightarrow> (None, 1))
        else
          (case cs of
             c1 # c2 # c3 # _ \<Rightarrow>
               if cont lo hi c1 \<and> cont 128 191 c2 \<and> cont 128 191 c3
               then (Some (b mod 8 * 262144 + low6 c1 * 4096 + low6 c2 * 64 + low6 c3), 4)
               else (None, 1)
           | _ \<Rightarrow> (None, 1)))"

text \<open>The runes of a string in order, each with the bytes that encode it.\<close>

function runes :: "string \<Rightarrow> (nat option \<times> string) list" where
  "runes [] = []"
| "runes (c # cs) =
    (case decode_rune (c # cs) of
       (r, n) \<Rightarrow> (r, take n (c # cs)) # runes (drop (n - 1) cs))"
  by pat_completeness auto
termination
  by (relation "measure length") auto

definition rune_count :: "string \<Rightarrow> nat" where
  "rune_count s = length (runes s)"

definition valid_utf8 :: "string \<Rightarrow> bool" where
  "valid_utf8 s \<longleftrightarrow> list_all (\<lambda>(r, _). r \<noteq> None) (runes s)"

text \<open>\<open>strings.ContainsRune(s, 0)\<close>: NUL is encoded as the byte 0 only.\<close>

definition has_nul :: "string \<Rightarrow> bool" where
  "has_nul s \<longleftrightarrow> CHR 0x00 \<in> set s"

text \<open>\<open>unicode.IsSpace\<close>.\<close>

definition is_space :: "nat option \<Rightarrow> bool" where
  "is_space r = (case r of None \<Rightarrow> False | Some n \<Rightarrow>
     9 \<le> n \<and> n \<le> 13 \<or> n = 32 \<or> n = 133 \<or> n = 160 \<or> n = 5760 \<or> 8192 \<le> n \<and> n \<le> 8202 \<or>
     n = 8232 \<or> n = 8233 \<or> n = 8239 \<or> n = 8287 \<or> n = 12288)"

definition trim_runes :: "(nat option \<times> string) list \<Rightarrow> (nat option \<times> string) list" where
  "trim_runes rs = rev (dropWhile (is_space \<circ> fst) (rev (dropWhile (is_space \<circ> fst) rs)))"

definition trim_space :: "string \<Rightarrow> string" where
  "trim_space s = concat (map snd (trim_runes (runes s)))"

lemma decode_rune_width: "snd (decode_rune (c # cs)) \<ge> 1"
  by (auto simp: Let_def split: list.splits)

lemma concat_runes: "concat (map snd (runes s)) = s"
proof (induction s rule: runes.induct)
  case 1
  then show ?case by simp
next
  case (2 c cs)
  obtain r n where rn: "decode_rune (c # cs) = (r, n)"
    by (cases "decode_rune (c # cs)")
  with decode_rune_width [of c cs] obtain m where n: "n = Suc m"
    by (cases n) auto
  from 2 [OF rn [symmetric]] show ?case
    by (simp add: rn n del: decode_rune.simps)
qed

lemma length_trim_space: "length (trim_space s) \<le> length s"
proof -
  have drop: "length (concat (map snd (dropWhile p rs))) \<le> length (concat (map snd rs))"
    for p and rs :: "(nat option \<times> string) list"
    by (induction rs) auto
  have rev_len: "length (concat (map snd (rev rs))) = length (concat (map snd rs))"
    for rs :: "(nat option \<times> string) list"
    by (induction rs) auto
  have "length (trim_space s) \<le> length (concat (map snd (runes s)))"
    unfolding trim_space_def trim_runes_def rev_len
    by (rule order_trans [OF drop]) (simp only: rev_len drop)
  then show ?thesis by (simp add: concat_runes)
qed

text \<open>
  A sequence of whole, valid runes decodes to itself, so trimming a valid string trims its
  list of runes, and PostgreSQL's \<open>btrim\<close>, which removes spaces only, keeps at least as many
  characters as \<open>strings.TrimSpace\<close>.
\<close>

definition rune_ok :: "nat option \<times> string \<Rightarrow> bool" where
  "rune_ok rb \<longleftrightarrow> snd rb \<noteq> [] \<and> (\<forall>t. decode_rune (snd rb @ t) = (fst rb, length (snd rb)))"

definition btrim_runes :: "(nat option \<times> string) list \<Rightarrow> (nat option \<times> string) list" where
  "btrim_runes rs =
     rev (dropWhile (\<lambda>rb. fst rb = Some 32) (rev (dropWhile (\<lambda>rb. fst rb = Some 32) rs)))"

definition btrim :: "string \<Rightarrow> string" where
  "btrim s = concat (map snd (btrim_runes (runes s)))"

lemma runes_concat: "list_all rune_ok rs \<Longrightarrow> runes (concat (map snd rs)) = rs"
proof (induction rs)
  case Nil
  then show ?case by simp
next
  case (Cons rb rs)
  then obtain c cs where bs: "snd rb = c # cs" by (auto simp: rune_ok_def neq_Nil_conv)
  let ?rest = "concat (map snd rs)"
  from Cons.prems bs have d: "decode_rune (c # (cs @ ?rest)) = (fst rb, Suc (length cs))"
    by (metis append_Cons length_Cons list.pred_inject(2) rune_ok_def)
  show ?case
    using Cons d by (simp add: bs del: decode_rune.simps) (simp add: bs [symmetric])
qed

lemma decode_rune_local:
  assumes "decode_rune (c # cs) = (Some r, n)"
  shows "decode_rune (take n (c # cs) @ t) = (Some r, n) \<and> n \<le> length (c # cs)"
  using assms by (auto simp: Let_def split: list.splits if_splits)

lemma runes_ok: "valid_utf8 s \<Longrightarrow> list_all rune_ok (runes s)"
proof (induction s rule: runes.induct)
  case 1
  then show ?case by simp
next
  case (2 c cs)
  obtain r n where rn: "decode_rune (c # cs) = (r, n)"
    by (cases "decode_rune (c # cs)")
  have step: "runes (c # cs) = (r, take n (c # cs)) # runes (drop (n - 1) cs)"
    by (simp add: rn del: decode_rune.simps)
  from 2(2) step obtain k where k: "r = Some k" by (auto simp: valid_utf8_def)
  have "1 \<le> n" using decode_rune_width [of c cs] rn by simp
  have loc: "decode_rune (take n (c # cs) @ t) = (Some k, n)" and len: "n \<le> length (c # cs)" for t
    using decode_rune_local [OF rn [unfolded k]] by blast+
  have "rune_ok (r, take n (c # cs))"
    unfolding rune_ok_def fst_conv snd_conv loc k using \<open>1 \<le> n\<close> len by (simp add: min_def)
  moreover have "valid_utf8 (drop (n - 1) cs)" using 2(2) step by (simp add: valid_utf8_def)
  ultimately show ?case using 2(1) [OF rn [symmetric]] step by simp
qed

lemma list_all_dropWhile: "list_all P xs \<Longrightarrow> list_all P (dropWhile q xs)"
  by (auto simp: list_all_iff dest: set_dropWhileD)

lemma rune_count_trim_space:
  "valid_utf8 s \<Longrightarrow> rune_count (trim_space s) = length (trim_runes (runes s))"
  by (simp add: rune_count_def trim_space_def runes_concat trim_runes_def runes_ok list_all_dropWhile
      del: o_apply)

lemma rune_count_btrim:
  "valid_utf8 s \<Longrightarrow> rune_count (btrim s) = length (btrim_runes (runes s))"
  by (simp add: rune_count_def btrim_def runes_concat btrim_runes_def runes_ok list_all_dropWhile)

lemma length_dropWhile_imp: "(\<And>x. p x \<Longrightarrow> q x) \<Longrightarrow> length (dropWhile q xs) \<le> length (dropWhile p xs)"
  by (induction xs) (auto intro: le_SucI order_trans [OF length_dropWhile_le])

lemma length_dropWhile_append: "length (dropWhile p xs) \<le> length (dropWhile p (xs @ ys))"
  by (induction xs) auto

lemma dropWhile_imp_suffix: "(\<And>x. p x \<Longrightarrow> q x) \<Longrightarrow> \<exists>w. dropWhile p xs = w @ dropWhile q xs"
proof (induction xs)
  case (Cons x xs)
  show ?case
  proof (cases "p x")
    case False
    then have "\<exists>w. x # xs = w @ dropWhile q (x # xs)" by (metis takeWhile_dropWhile_id)
    with False show ?thesis by simp
  qed (use Cons in simp)
qed simp

lemma btrim_keeps: "valid_utf8 s \<Longrightarrow> rune_count (trim_space s) \<le> rune_count (btrim s)"
proof -
  let ?p = "\<lambda>rb :: nat option \<times> string. fst rb = Some 32" and ?q = "is_space \<circ> fst :: nat option \<times> string \<Rightarrow> bool"
  have pq: "?p x \<Longrightarrow> ?q x" for x by (simp add: is_space_def)
  obtain w where w: "dropWhile ?p (runes s) = w @ dropWhile ?q (runes s)"
    using dropWhile_imp_suffix [of ?p ?q, OF pq] by blast
  have "length (trim_runes (runes s)) \<le> length (dropWhile ?p (rev (dropWhile ?q (runes s))))"
    unfolding trim_runes_def length_rev by (rule length_dropWhile_imp) (rule pq)
  also have "\<dots> \<le> length (btrim_runes (runes s))"
    unfolding btrim_runes_def length_rev w rev_append by (rule length_dropWhile_append)
  finally show "valid_utf8 s \<Longrightarrow> ?thesis" by (simp add: rune_count_trim_space rune_count_btrim)
qed

section \<open>Integers\<close>

text \<open>Go's integer division, and \<open>big.Int.Quo\<close>: the quotient is truncated towards zero.\<close>

definition quo :: "int \<Rightarrow> int \<Rightarrow> int" where
  "quo a b = sgn a * sgn b * (\<bar>a\<bar> div \<bar>b\<bar>)"

definition max_int64 :: int where
  "max_int64 = 2 ^ 63 - 1"

definition min_int64 :: int where
  "min_int64 = - (2 ^ 63)"

definition in_int64 :: "int \<Rightarrow> bool" where
  "in_int64 n \<longleftrightarrow> min_int64 \<le> n \<and> n \<le> max_int64"

text \<open>What an int64 expression leaves of an exact result: its value modulo 2^64, as two's complement.\<close>

definition wrap64 :: "int \<Rightarrow> int" where
  "wrap64 n = (n + 2 ^ 63) mod 2 ^ 64 - 2 ^ 63"

lemma wrap64_id: "in_int64 n \<Longrightarrow> wrap64 n = n"
  by (simp add: in_int64_def wrap64_def min_int64_def max_int64_def)

lemma wrap64_in: "in_int64 (wrap64 n)"
proof -
  have "0 \<le> (n + 2 ^ 63) mod 2 ^ 64" and "(n + 2 ^ 63) mod (2 ^ 64 :: int) < 2 ^ 64"
    by simp_all
  then show ?thesis by (simp add: in_int64_def wrap64_def min_int64_def max_int64_def)
qed

lemma quo_nonneg: "0 \<le> a \<Longrightarrow> 0 < b \<Longrightarrow> quo a b = a div b"
  by (cases "a = 0") (simp_all add: quo_def sgn_if)

lemma quo_le: "0 \<le> a \<Longrightarrow> 0 < b \<Longrightarrow> quo a b * b \<le> a"
  by (simp add: quo_nonneg minus_mod_eq_div_mult [symmetric])

lemma quo_minus_left: "quo (- a) b = - quo a b"
  by (simp add: quo_def)

end
