(* ===== verification/Tx.thy ===== *)
theory Tx
  imports Errs Go_Strings
begin

text \<open>
  Transactions and constraint errors: \<open>panel/internal/pkg/tx/tx.go\<close>, the transaction state
  of \<open>panel/internal/pkg/db/db.go\<close>, \<open>panel/internal/pkg/db/constraint.go\<close> and the request
  principal of \<open>panel/internal/pkg/authn/authn.go\<close>.

  A UUID is a natural number, its byte order the order of the number and \<open>uuid.Nil\<close> zero.
  The context carries the principal and whether a transaction is open. \<open>Do\<close> joins an open
  transaction; otherwise it opens one, rolls the tables back on an error, and commits. The
  deferred constraint triggers run at the commit and are an argument of \<open>Do\<close>.
\<close>

type_synonym uuid = nat

abbreviation uuid_Nil :: uuid where
  "uuid_Nil \<equiv> 0"

datatype audience = AudiencePublic | AudienceAdmin

record principal =
  UserID :: uuid
  Audience :: audience

record ctx =
  ctx_principal :: "principal option"
  ctx_in_tx :: bool

section \<open>Constraint violations\<close>

abbreviation CodeUnique :: string where "CodeUnique \<equiv> ''23505''"
abbreviation CodeForeignKey :: string where "CodeForeignKey \<equiv> ''23503''"
abbreviation CodeCheck :: string where "CodeCheck \<equiv> ''23514''"

text \<open>\<open>NUMERIC\<close> overflow, raised by a value of more than 18 integer digits in a \<open>numeric(20,2)\<close> column.\<close>

abbreviation CodeNumeric :: string where "CodeNumeric \<equiv> ''22003''"

text \<open>A text parameter that PostgreSQL refuses: not UTF-8, or with a NUL.\<close>

definition text_param :: "string \<Rightarrow> bool" where
  "text_param s \<longleftrightarrow> valid_utf8 s \<and> \<not> has_nul s"

abbreviation CodeText :: string where "CodeText \<equiv> ''22021''"

fun find_PgError :: "err \<Rightarrow> (string \<times> string) option" where
  "find_PgError (PgError c n) = Some (c, n)"
| "find_PgError (Plain m) = None"
| "find_PgError (Error c m fs r None) = None"
| "find_PgError (Error c m fs r (Some e)) = find_PgError e"
| "find_PgError (Wrapped m es) =
     fold (\<lambda>e acc. case acc of Some x \<Rightarrow> Some x | None \<Rightarrow> find_PgError e) es None"

definition AsViolation :: "err \<Rightarrow> (string \<times> string) option" where
  "AsViolation e = (case find_PgError e of
     None \<Rightarrow> None
   | Some (c, n) \<Rightarrow> if take 2 c = ''23'' then Some (c, n) else None)"

record constraint_errors =
  ByCode :: "string \<Rightarrow> err option"
  ByName :: "string \<Rightarrow> err option"

text \<open>The fallback of \<open>violationOf\<close> on GORM's own errors is left out: the code notes that with this driver they always wrap
  the error of PostgreSQL, which is found first.\<close>

definition ConstraintErrors_Map :: "constraint_errors \<Rightarrow> err \<Rightarrow> err" where
  "ConstraintErrors_Map m e = (case AsViolation e of
     None \<Rightarrow> e
   | Some (c, n) \<Rightarrow>
       (case (if n \<noteq> '''' then ByName m n else None) of
          Some t \<Rightarrow> Wrapped ''constraint'' [t, e]
        | None \<Rightarrow> (case ByCode m c of Some t \<Rightarrow> Wrapped ''constraint'' [t, e] | None \<Rightarrow> e)))"

section \<open>Transactions\<close>

definition Do :: "('s \<Rightarrow> err option) \<Rightarrow> ctx \<Rightarrow> (ctx \<Rightarrow> (err, 's, 'a) eff) \<Rightarrow> (err, 's, 'a) eff" where
  "Do commit c fn = (\<lambda>s.
     if ctx_in_tx c then fn c s
     else case fn (c\<lparr>ctx_in_tx := True\<rparr>) s of
            (Inl e, _) \<Rightarrow> (Inl e, s)
          | (Inr a, s') \<Rightarrow> (case commit s' of Some e \<Rightarrow> (Inl e, s) | None \<Rightarrow> (Inr a, s')))"

lemma wp_Do [wp_simps]:
  "wp (Do commit c fn) Q E =
     (if ctx_in_tx c then wp (fn c) Q E
      else (\<lambda>s. wp (fn (c\<lparr>ctx_in_tx := True\<rparr>))
             (\<lambda>a t. case commit t of None \<Rightarrow> Q a t | Some e \<Rightarrow> E e s) (\<lambda>e _. E e s) s))"
  by (rule ext) (auto simp: wp_def Do_def split: prod.splits sum.splits option.splits)

lemma Do_in_tx [simp]: "ctx_in_tx c \<Longrightarrow> Do commit c fn = fn c"
  by (rule ext) (simp add: Do_def)

text \<open>An outermost \<open>Do\<close> that returns an error leaves the tables as they were.\<close>

lemma Do_rolls_back:
  "\<not> ctx_in_tx c \<Longrightarrow> Do commit c fn s = (Inl e, s') \<Longrightarrow> s' = s"
  by (auto simp: Do_def split: prod.splits sum.splits option.splits)

text \<open>
  If the body keeps an invariant when it succeeds, and the invariant implies what is checked at
  the commit, then an outermost \<open>Do\<close> keeps it always: an error leaves the tables as they were.
\<close>

lemma Do_outer:
  assumes "\<not> ctx_in_tx c" and "wp (fn (c\<lparr>ctx_in_tx := True\<rparr>)) Q E s"
    and "\<And>a t. Q a t \<Longrightarrow> commit t = None"
  shows "wp (Do commit c fn) Q (\<lambda>e t. t = s \<and> (\<exists>u. E e u)) s"
proof -
  have "wp (fn (c\<lparr>ctx_in_tx := True\<rparr>))
      (\<lambda>a t. case commit t of None \<Rightarrow> Q a t | Some e \<Rightarrow> s = s \<and> (\<exists>u. E e u)) (\<lambda>e _. s = s \<and> (\<exists>u. E e u)) s"
    by (rule wp_mono [OF assms(2)]) (use assms(3) in auto)
  with assms(1) show ?thesis by (simp add: wp_simps)
qed

lemma Do_outer_any:
  assumes "\<not> ctx_in_tx c" and "wp (fn (c\<lparr>ctx_in_tx := True\<rparr>)) Q (\<lambda>_ _. True) s"
    and "\<And>a t. Q a t \<Longrightarrow> commit t = None"
  shows "wp (Do commit c fn) Q (\<lambda>_ t. t = s) s"
  using Do_outer [OF assms(1), of fn Q "\<lambda>_ _. True" s commit] assms(2,3) by simp

lemma Do_ok:
  assumes "\<And>c'. actor c' = actor c \<Longrightarrow> wp (fn c') Q (\<lambda>_ _. False) s" and "\<And>a t. Q a t \<Longrightarrow> commit t = None"
    and "\<And>b. actor (c\<lparr>ctx_in_tx := b\<rparr>) = actor c"
  shows "wp (Do commit c fn) Q (\<lambda>_ _. False) s"
proof (cases "ctx_in_tx c")
  case True
  then show ?thesis using assms(1) [of c] by simp
next
  case False
  have "wp (fn (c\<lparr>ctx_in_tx := True\<rparr>)) (\<lambda>a t. case commit t of None \<Rightarrow> Q a t | Some e \<Rightarrow> False) (\<lambda>e _. False) s"
    by (rule wp_mono [OF assms(1)]) (use assms(2,3) in auto)
  with False show ?thesis by (simp add: wp_simps)
qed

section \<open>Hooks after the commit\<close>

text \<open>
  The transaction state also collects functions to run after the commit, at most one per
  non-empty key. \<open>tx_world\<close> adds to the tables the keys and hooks of the open transaction
  and the hooks already run, in order. A key is a fixed prefix with an identifier; it is a value of
  the caller's own type here, and \<open>None\<close> is the empty key.
\<close>

record ('s, 'k, 'h) tx_world =
  tables :: 's
  tx_keys :: "'k list"
  tx_hooks :: "'h list"
  fired :: "'h list"

definition AddHook :: "'k option \<Rightarrow> 'h \<Rightarrow> ('s, 'k, 'h) tx_world \<Rightarrow> ('s, 'k, 'h) tx_world" where
  "AddHook key h w =
     (case key of
        None \<Rightarrow> w\<lparr>tx_hooks := tx_hooks w @ [h]\<rparr>
      | Some k \<Rightarrow>
          if k \<in> set (tx_keys w) then w
          else w\<lparr>tx_keys := k # tx_keys w, tx_hooks := tx_hooks w @ [h]\<rparr>)"

definition AfterCommit :: "ctx \<Rightarrow> 'k option \<Rightarrow> 'h \<Rightarrow> (err, ('s, 'k, 'h) tx_world, unit) eff" where
  "AfterCommit c key h =
     modify (\<lambda>w. if ctx_in_tx c then AddHook key h w else w\<lparr>fired := fired w @ [h]\<rparr>)"

definition Do_hooks ::
  "('s \<Rightarrow> err option) \<Rightarrow> ctx \<Rightarrow> (ctx \<Rightarrow> (err, ('s, 'k, 'h) tx_world, 'a) eff) \<Rightarrow>
   (err, ('s, 'k, 'h) tx_world, 'a) eff" where
  "Do_hooks commit c fn = (\<lambda>w.
     if ctx_in_tx c then fn c w
     else case fn (c\<lparr>ctx_in_tx := True\<rparr>) (w\<lparr>tx_keys := [], tx_hooks := []\<rparr>) of
            (Inl e, _) \<Rightarrow> (Inl e, w\<lparr>tx_keys := [], tx_hooks := []\<rparr>)
          | (Inr a, w') \<Rightarrow>
              (case commit (tables w') of
                 Some e \<Rightarrow> (Inl e, w\<lparr>tx_keys := [], tx_hooks := []\<rparr>)
               | None \<Rightarrow> (Inr a, w'\<lparr>fired := fired w' @ tx_hooks w', tx_keys := [], tx_hooks := []\<rparr>)))"

text \<open>Without hooks the two are the same: on the tables, \<open>Do_hooks\<close> is \<open>Do\<close>.\<close>

lemma Do_hooks_tables:
  "Do_hooks commit c (\<lambda>d. zoom tables (\<lambda>t w. w\<lparr>tables := t\<rparr>) (fn d)) w = (r, w') \<Longrightarrow>
   Do commit c fn (tables w) = (r, tables w')"
  by (auto simp: Do_hooks_def Do_def zoom_def split: prod.splits sum.splits option.splits if_splits)

text \<open>What an operation guarantees of the tables it guarantees inside \<open>Do_hooks\<close> too; an outermost one
  that returns an error leaves the tables as they were and runs no hook.\<close>

lemma Do_hooks_wp:
  assumes "\<And>c' v. tables v = tables w \<Longrightarrow> wp (fn c') (\<lambda>a u. Q a (tables u)) E v"
  shows "wp (Do_hooks (\<lambda>_. None) c fn) (\<lambda>a u. Q a (tables u))
    (\<lambda>e u. if ctx_in_tx c then E e u else tables u = tables w \<and> fired u = fired w) w"
proof (cases "ctx_in_tx c")
  case True
  then show ?thesis using assms [of w c] by (auto simp: wp_def Do_hooks_def split: prod.splits sum.splits)
next
  case False
  then show ?thesis
    using assms [of "w\<lparr>tx_keys := [], tx_hooks := []\<rparr>" "c\<lparr>ctx_in_tx := True\<rparr>"]
    by (auto simp: wp_def Do_hooks_def split: prod.splits sum.splits)
qed

lemma AddHook_keyed_once: "AddHook (Some k) h' (AddHook (Some k) h w) = AddHook (Some k) h w"
  by (simp add: AddHook_def)

lemma AddHook_tables [simp]: "tables (AddHook k h w) = tables w" "fired (AddHook k h w) = fired w"
  by (simp_all add: AddHook_def split: option.split)

lemma wp_AfterCommit [wp_simps]:
  "wp (AfterCommit c k h) Q E =
     (\<lambda>w. Q () (if ctx_in_tx c then AddHook k h w else w\<lparr>fired := fired w @ [h]\<rparr>))"
  by (simp add: AfterCommit_def wp_simps)

end
