(* ===== verification/Money.thy ===== *)
theory Money
  imports Complex_Main Errs Go_Strings
begin

text \<open>
  \<open>panel/internal/pkg/money/money.go\<close>: amounts with two decimals, their conversion to and
  from integer cents and provider strings, and the one rounding rule of the program
  (towards zero, once, at the end of a formula).

  A \<open>decimal.Decimal\<close> is the rational number it denotes; adding, subtracting, comparing
  and shifting decimals is exact arithmetic on it. The operations of the package
  \<open>shopspring/decimal\<close> that round, print or parse are fields of \<open>decimal_pkg\<close>, a parameter
  of the definitions that call them; \<open>decimal_laws\<close> states what the package documents of
  them.
\<close>

section \<open>The decimal package\<close>

type_synonym decimal = rat

record decimal_pkg =
  Truncate :: "decimal \<Rightarrow> nat \<Rightarrow> decimal"
  BigInt :: "decimal \<Rightarrow> int"
  IntPart :: "decimal \<Rightarrow> int"
  StringFixed :: "decimal \<Rightarrow> nat \<Rightarrow> string"
  NewFromString :: "string \<Rightarrow> decimal option"

definition toward_zero :: "rat \<Rightarrow> int" where
  "toward_zero x = (if 0 \<le> x then \<lfloor>x\<rfloor> else \<lceil>x\<rceil>)"

definition Shift :: "decimal \<Rightarrow> nat \<Rightarrow> decimal" where
  "Shift d n = d * 10 ^ n"

lemma toward_zero_of_int [simp]: "toward_zero (of_int n) = n"
  by (simp add: toward_zero_def)

lemma toward_zero_Ints: "of_int (toward_zero x) = x \<longleftrightarrow> x \<in> \<int>"
proof
  assume "of_int (toward_zero x) = x"
  then show "x \<in> \<int>" by (metis Ints_of_int)
next
  assume "x \<in> \<int>"
  then show "of_int (toward_zero x) = x" by (auto elim: Ints_cases)
qed

lemma toward_zero_minus: "toward_zero (- x) = - toward_zero x"
proof (cases x "0 :: rat" rule: linorder_cases)
  case less
  then show ?thesis by (simp add: toward_zero_def floor_minus)
next
  case greater
  then show ?thesis by (simp add: toward_zero_def ceiling_minus)
qed (simp add: toward_zero_def)

lemma toward_zero_abs_le: "\<bar>of_int (toward_zero x) :: rat\<bar> \<le> \<bar>x\<bar>"
proof (cases "0 \<le> x")
  case True
  then show ?thesis by (simp add: toward_zero_def)
next
  case False
  then have "of_int \<lceil>x\<rceil> \<le> (0 :: rat)" and "x \<le> of_int \<lceil>x\<rceil>" by simp_all
  with False show ?thesis by (simp add: toward_zero_def abs_of_nonpos)
qed

lemma toward_zero_close: "\<bar>x - of_int (toward_zero x)\<bar> < (1 :: rat)"
proof (cases "0 \<le> x")
  case True
  then show ?thesis by (simp add: toward_zero_def abs_if) linarith
next
  case False
  have "x - of_int \<lceil>x\<rceil> \<le> 0" and "of_int \<lceil>x\<rceil> - x < 1" by linarith+
  with False show ?thesis by (simp add: toward_zero_def abs_of_nonpos)
qed

lemma toward_zero_nonneg: "0 \<le> x \<Longrightarrow> 0 \<le> toward_zero x"
  by (simp add: toward_zero_def)

lemma toward_zero_mono:
  assumes "x \<le> y"
  shows "toward_zero x \<le> toward_zero y"
proof -
  consider "0 \<le> x" | "x < 0" "0 \<le> y" | "x < 0" "y < 0" using assms by linarith
  then show ?thesis
  proof cases
    case 2
    then have "\<lceil>x\<rceil> \<le> 0" and "0 \<le> \<lfloor>y\<rfloor>" by simp_all
    then have "\<lceil>x\<rceil> \<le> \<lfloor>y\<rfloor>" by (rule order_trans)
    with 2 show ?thesis by (simp add: toward_zero_def)
  qed (use assms in \<open>auto simp: toward_zero_def floor_mono ceiling_mono\<close>)
qed

text \<open>The quotient of big integers that \<open>MulRatio\<close> ends with is this rounding.\<close>

lemma quo_toward_zero:
  assumes "b \<noteq> 0"
  shows "quo a b = toward_zero (of_int a / of_int b)"
proof -
  have pos: "quo a b = toward_zero (of_int a / of_int b)" if "0 \<le> a" "0 < b" for a b :: int
  proof -
    have "toward_zero (of_int a / of_int b) = \<lfloor>of_int a / of_int b :: rat\<rfloor>"
      using that by (simp add: toward_zero_def)
    then show ?thesis using that by (simp add: quo_nonneg floor_divide_of_int_eq)
  qed
  have posb: "quo a b = toward_zero (of_int a / of_int b)" if "0 < b" for a b :: int
  proof (cases "0 \<le> a")
    case False
    then have "quo (- a) b = toward_zero (of_int (- a) / of_int b)"
      using pos [of "- a" b] that by simp
    then show ?thesis by (simp add: quo_minus_left toward_zero_minus)
  qed (use pos that in blast)
  show ?thesis
  proof (cases "0 < b")
    case False
    with assms have "0 < - b" by simp
    from posb [OF this, of "- a"] show ?thesis by (simp add: quo_def)
  qed (use posb in blast)
qed

locale decimal_laws =
  fixes D :: decimal_pkg
  assumes Truncate_law: "Truncate D d n = of_int (toward_zero (d * 10 ^ n)) / 10 ^ n"
    and BigInt_law: "BigInt D d = toward_zero d"
    and IntPart_law: "in_int64 (toward_zero d) \<Longrightarrow> IntPart D d = toward_zero d"

text \<open>
  The exact reference package: it computes what the laws say. Its printer and parser
  are the trivial ones (nothing is printed, nothing parses).
\<close>

definition exact_decimal :: decimal_pkg where
  "exact_decimal = \<lparr>
     Truncate = (\<lambda>d n. of_int (toward_zero (d * 10 ^ n)) / 10 ^ n),
     BigInt = toward_zero, IntPart = toward_zero,
     StringFixed = (\<lambda>_ _. ''''), NewFromString = (\<lambda>_. None)\<rparr>"

interpretation exact: decimal_laws exact_decimal
  by unfold_locales (simp_all add: exact_decimal_def)

text \<open>The range of \<open>numeric(20,2)\<close>.\<close>

definition numeric_20_2 :: "decimal \<Rightarrow> bool" where
  "numeric_20_2 d \<longleftrightarrow> \<bar>d\<bar> < 10 ^ 18"

section \<open>Package money\<close>

definition Scale :: nat where
  "Scale = 2"

definition ErrPrecision :: err where
  "ErrPrecision = Plain ''more than two decimals''"

definition ErrBadAmount :: err where
  "ErrBadAmount = Plain ''malformed amount''"

definition ErrNegative :: err where
  "ErrNegative = Plain ''negative amount''"

definition Check :: "decimal_pkg \<Rightarrow> decimal \<Rightarrow> err + unit" where
  "Check D d =
     (if d \<noteq> Truncate D d Scale then Inl (Wrapped ''precision'' [ErrPrecision]) else Inr ())"

definition CheckNonNegative :: "decimal_pkg \<Rightarrow> decimal \<Rightarrow> err + unit" where
  "CheckNonNegative D d =
     (if d < 0 then Inl (Wrapped ''negative'' [ErrNegative]) else Check D d)"

definition FromCents :: "int \<Rightarrow> decimal" where
  "FromCents cents = of_int cents / 10 ^ Scale"

definition ToCents :: "decimal_pkg \<Rightarrow> decimal \<Rightarrow> err + int" where
  "ToCents D d =
     (case Check D d of
        Inl e \<Rightarrow> Inl e
      | Inr _ \<Rightarrow>
          (let s = Shift d Scale
           in if \<not> in_int64 (BigInt D s) then Inl (Wrapped ''int64'' [ErrBadAmount])
              else Inr (IntPart D s)))"

text \<open>\<open>MustCents\<close> panics where \<open>ToCents\<close> returns an error: \<open>None\<close> is the panic.\<close>

definition MustCents :: "decimal_pkg \<Rightarrow> decimal \<Rightarrow> int option" where
  "MustCents D d = (case ToCents D d of Inl _ \<Rightarrow> None | Inr n \<Rightarrow> Some n)"

definition ParseProvider :: "decimal_pkg \<Rightarrow> string \<Rightarrow> err + decimal" where
  "ParseProvider D s =
     (let s = trim_space s
      in if s = '''' \<or> CHR ''e'' \<in> set s \<or> CHR ''E'' \<in> set s
         then Inl (Wrapped ''amount'' [ErrBadAmount])
         else case NewFromString D s of
                None \<Rightarrow> Inl (Wrapped ''amount'' [ErrBadAmount])
              | Some d \<Rightarrow> (case CheckNonNegative D d of Inl e \<Rightarrow> Inl e | Inr _ \<Rightarrow> Inr d))"

definition FormatProvider :: "decimal_pkg \<Rightarrow> decimal \<Rightarrow> string" where
  "FormatProvider D d = StringFixed D d Scale"

text \<open>\<open>MulRatio\<close>: \<open>None\<close> is its panic (a denominator that is not positive, or an input of more than
  two decimals). \<open>big.Rat\<close> keeps numerator and denominator in lowest terms, as \<^const>\<open>quotient_of\<close>
  does.\<close>

definition MulRatio :: "decimal_pkg \<Rightarrow> decimal \<Rightarrow> int \<Rightarrow> int \<Rightarrow> decimal option" where
  "MulRatio D d num den =
     (if den \<le> 0 then None
      else
        (let cents = Shift d Scale
         in if cents \<noteq> Truncate D cents 0 then None
            else
              (let r = of_int (BigInt D cents) * (of_int num / of_int den);
                   (n, m) = quotient_of r
               in Some (of_int (quo n m) / 10 ^ Scale))))"

definition BasisPoints :: int where
  "BasisPoints = 10000"

definition ApplyBP :: "decimal_pkg \<Rightarrow> decimal \<Rightarrow> int \<Rightarrow> decimal option" where
  "ApplyBP D d bp = MulRatio D d bp BasisPoints"

text \<open>An amount of at most two decimals, without reference to the package.\<close>

definition two_decimals :: "decimal \<Rightarrow> bool" where
  "two_decimals d \<longleftrightarrow> d * 100 \<in> \<int>"

lemma two_decimals_add [intro]: "two_decimals a \<Longrightarrow> two_decimals b \<Longrightarrow> two_decimals (a + b)"
  by (simp add: two_decimals_def distrib_right)

lemma two_decimals_diff [intro]: "two_decimals a \<Longrightarrow> two_decimals b \<Longrightarrow> two_decimals (a - b)"
  by (simp add: two_decimals_def left_diff_distrib)

lemma two_decimals_minus [simp]: "two_decimals (- a) = two_decimals a"
  by (simp add: two_decimals_def minus_in_Ints_iff)

lemma two_decimals_0 [simp]: "two_decimals 0"
  by (simp add: two_decimals_def)

lemma two_decimals_cents [simp]: "two_decimals (of_int n / 100)"
  by (simp add: two_decimals_def)

lemma two_decimalsE:
  assumes "two_decimals d"
  obtains c where "d = of_int c / 100"
proof -
  from assms obtain c where "d * 100 = of_int c"
    by (auto simp: two_decimals_def elim: Ints_cases)
  then have "d = of_int c / 100" by (simp add: field_simps)
  with that show ?thesis .
qed

lemma two_decimals_code [code]: "two_decimals d \<longleftrightarrow> snd (quotient_of (d * 100)) = 1"
proof
  assume "two_decimals d"
  then show "snd (quotient_of (d * 100)) = 1" by (auto simp: two_decimals_def elim: Ints_cases)
next
  assume "snd (quotient_of (d * 100)) = 1"
  then have "d * 100 = of_int (fst (quotient_of (d * 100))) / of_int 1"
    by (intro quotient_of_div) (simp add: prod_eq_iff)
  then show "two_decimals d" unfolding two_decimals_def by (metis Ints_of_int div_by_1 of_int_1)
qed

lemma two_decimals_FromCents [simp]: "two_decimals (FromCents n)"
  by (simp add: FromCents_def Scale_def)

text \<open>What \<open>MulRatio\<close> is meant to compute, on its own: one rounding, at the cent.\<close>

definition ratio_of :: "decimal \<Rightarrow> int \<Rightarrow> int \<Rightarrow> decimal" where
  "ratio_of d num den = of_int (toward_zero (d * 100 * of_int num / of_int den)) / 100"

context decimal_laws
begin

lemma Check_iff: "Check D d = Inr () \<longleftrightarrow> two_decimals d"
proof -
  have "d = Truncate D d Scale \<longleftrightarrow> of_int (toward_zero (d * 100)) = d * 100"
    by (auto simp: Truncate_law Scale_def nonzero_eq_divide_eq)
  then show ?thesis
    by (simp add: Check_def two_decimals_def toward_zero_Ints)
qed

lemma Check_cases: "Check D d = (if two_decimals d then Inr () else Inl (Wrapped ''precision'' [ErrPrecision]))"
  using Check_iff [of d] by (auto simp: Check_def split: if_splits)

lemma CheckNonNegative_iff: "CheckNonNegative D d = Inr () \<longleftrightarrow> two_decimals d \<and> 0 \<le> d"
  by (auto simp: CheckNonNegative_def Check_iff)

lemma ToCents_cents:
  "ToCents D (of_int c / 100) =
     (if in_int64 c then Inr c else Inl (Wrapped ''int64'' [ErrBadAmount]))"
  by (simp add: ToCents_def Check_cases Shift_def Scale_def BigInt_law IntPart_law)

lemma ToCents_imprecise: "\<not> two_decimals d \<Longrightarrow> ToCents D d = Inl (Wrapped ''precision'' [ErrPrecision])"
  by (simp add: ToCents_def Check_cases)

lemma MulRatio_eq:
  assumes "two_decimals d" and "0 < den"
  shows "MulRatio D d num den = Some (ratio_of d num den)"
proof -
  obtain c where c: "d = of_int c / 100" using assms(1) by (rule two_decimalsE)
  let ?r = "of_int c * of_int num / of_int den :: rat"
  obtain n m where nm: "quotient_of ?r = (n, m)" by (cases "quotient_of ?r")
  then have r: "?r = of_int n / of_int m" by (rule quotient_of_div)
  have "0 < m" using nm by (rule quotient_of_denom_pos)
  then have q: "quo n m = toward_zero ?r" unfolding r by (intro quo_toward_zero) simp
  have "d * 100 * of_int num / of_int den = ?r" by (simp add: c)
  then have ratio: "ratio_of d num den = of_int (quo n m) / 100" by (simp only: ratio_of_def q)
  have cents: "Shift d 2 = of_int c" by (simp add: c Shift_def)
  show ?thesis
    using assms(2) by (simp add: MulRatio_def Let_def Scale_def cents Truncate_law BigInt_law nm ratio)
qed

lemma MulRatio_panics: "den \<le> 0 \<or> \<not> two_decimals d \<Longrightarrow> MulRatio D d num den = None"
proof -
  have "Shift d Scale = Truncate D (Shift d Scale) 0 \<longleftrightarrow> of_int (toward_zero (d * 100)) = d * 100"
    by (auto simp: Shift_def Scale_def Truncate_law)
  then have "Shift d Scale = Truncate D (Shift d Scale) 0 \<longleftrightarrow> two_decimals d"
    by (simp only: toward_zero_Ints two_decimals_def)
  then show "den \<le> 0 \<or> \<not> two_decimals d \<Longrightarrow> MulRatio D d num den = None"
    by (auto simp: MulRatio_def)
qed

end

lemma two_decimals_ratio_of [simp]: "two_decimals (ratio_of d num den)"
  by (simp add: ratio_of_def)

text \<open>The side on which the rounding falls: between zero and the exact product.\<close>

lemma ratio_of_side:
  shows "0 \<le> d * of_int num / of_int den \<Longrightarrow> 0 \<le> ratio_of d num den \<and> ratio_of d num den \<le> d * of_int num / of_int den"
    and "d * of_int num / of_int den \<le> 0 \<Longrightarrow> d * of_int num / of_int den \<le> ratio_of d num den \<and> ratio_of d num den \<le> 0"
proof -
  define e where "e = d * of_int num / of_int den"
  have r: "ratio_of d num den = of_int (toward_zero (e * 100)) / 100" by (simp add: ratio_of_def e_def ac_simps)
  have up: "(0 :: rat) \<le> of_int (toward_zero y) \<and> of_int (toward_zero y) \<le> y" if "0 \<le> y" for y
    using that by (simp add: toward_zero_def)
  have down: "y \<le> of_int (toward_zero y) \<and> of_int (toward_zero y) \<le> (0 :: rat)" if "y \<le> 0" for y
    using that up [of "- y"] by (simp add: toward_zero_minus)
  have "0 \<le> e \<Longrightarrow> 0 \<le> ratio_of d num den \<and> ratio_of d num den \<le> e" using up [of "e * 100"] by (simp add: r)
  then show "0 \<le> d * of_int num / of_int den \<Longrightarrow> 0 \<le> ratio_of d num den \<and> ratio_of d num den \<le> d * of_int num / of_int den"
    by (simp only: e_def)
  have "e \<le> 0 \<Longrightarrow> e \<le> ratio_of d num den \<and> ratio_of d num den \<le> 0" using down [of "e * 100"] by (simp add: r)
  then show "d * of_int num / of_int den \<le> 0 \<Longrightarrow> d * of_int num / of_int den \<le> ratio_of d num den \<and> ratio_of d num den \<le> 0"
    by (simp only: e_def)
qed

lemma ratio_of_error: "\<bar>d * of_int num / of_int den - ratio_of d num den\<bar> < 1 / 100"
proof -
  let ?x = "d * 100 * of_int num / of_int den"
  have "\<bar>?x - of_int (toward_zero ?x)\<bar> < 1" by (rule toward_zero_close)
  then have "\<bar>(?x - of_int (toward_zero ?x)) / 100\<bar> < 1 / 100"
    by (simp only: abs_divide) simp
  moreover have "(?x - of_int (toward_zero ?x)) / 100 = d * of_int num / of_int den - ratio_of d num den"
    by (simp add: ratio_of_def diff_divide_distrib)
  ultimately show ?thesis by (simp only:)
qed

lemma ratio_of_abs_le:
  assumes "\<bar>num\<bar> \<le> den"
  shows "\<bar>ratio_of d num den\<bar> \<le> \<bar>d\<bar>"
proof -
  have "\<bar>of_int num / of_int den\<bar> \<le> (1 :: rat)"
    using assms by (cases "den = 0") (simp_all add: abs_divide flip: of_int_abs)
  then have "\<bar>d\<bar> * \<bar>of_int num / of_int den\<bar> \<le> \<bar>d\<bar> * 1" by (intro mult_left_mono) auto
  then have "\<bar>d * of_int num / of_int den\<bar> \<le> \<bar>d\<bar>" by (simp add: abs_mult)
  with ratio_of_side [of d num den] show ?thesis by linarith
qed

section \<open>Properties of amounts\<close>

text \<open>
  C14. \<open>MulRatio\<close> on an amount of two decimals, of either sign and with a ratio of either sign, returns the exact
  product rounded once, towards zero and to the cent: itself an amount of two decimals, between zero and the exact
  product, less than one cent away from it (which leaves no other value), and in absolute value never above the amount
  when the ratio is between minus one and one. With a denominator that is not positive, or more than two decimals, it
  panics. The one hypothesis is what the decimal package documents of its operations.
\<close>

theorem MulRatio_rounds_once:
  assumes "decimal_laws D"
  shows "if 0 < den \<and> two_decimals d
    then \<exists>x. MulRatio D d num den = Some x \<and> two_decimals x \<and> \<bar>d * of_int num / of_int den - x\<bar> < 1 / 100 \<and>
        (if 0 \<le> d * of_int num / of_int den then 0 \<le> x \<and> x \<le> d * of_int num / of_int den
         else d * of_int num / of_int den \<le> x \<and> x \<le> 0) \<and>
        (\<bar>num\<bar> \<le> den \<longrightarrow> \<bar>x\<bar> \<le> \<bar>d\<bar>)
    else MulRatio D d num den = None"
proof (cases "0 < den \<and> two_decimals d")
  case True
  have "if 0 \<le> d * of_int num / of_int den then 0 \<le> ratio_of d num den \<and> ratio_of d num den \<le> d * of_int num / of_int den
      else d * of_int num / of_int den \<le> ratio_of d num den \<and> ratio_of d num den \<le> 0"
    using ratio_of_side [of d num den] by auto
  moreover have "MulRatio D d num den = Some (ratio_of d num den)"
    using True by (intro decimal_laws.MulRatio_eq [OF assms]) auto
  ultimately show ?thesis using True ratio_of_error [of d num den] ratio_of_abs_le [of num den d] by auto
next
  case False
  then show ?thesis using decimal_laws.MulRatio_panics [OF assms, of den d num] by auto
qed

theorem MulRatio_rounds_once_witness:
  "MulRatio exact_decimal (- 1) 1 3 = Some (- 33 / 100) \<and> MulRatio exact_decimal (999 / 100) 1 3 = Some (333 / 100) \<and>
   (\<exists>x. MulRatio exact_decimal (- 1) 1 3 = Some x \<and> \<bar>- 1 / 3 - x\<bar> < 1 / 100 \<and> - 1 / 3 \<le> x)"
proof -
  have "MulRatio exact_decimal (- 1) 1 3 = Some (- 33 / 100)" and "MulRatio exact_decimal (999 / 100) 1 3 = Some (333 / 100)"
    by code_simp+
  moreover have "two_decimals (- 1)" by code_simp
  ultimately show ?thesis using MulRatio_rounds_once [OF exact.decimal_laws_axioms, of 3 "- 1" 1] by auto
qed

text \<open>
  C15. Cents and amounts convert into each other without loss: \<open>ToCents\<close> returns \<open>n\<close> exactly on the
  amount \<open>FromCents n\<close> of an \<open>int64\<close>, and is an error on every other amount.
\<close>

theorem cents_round_trip:
  assumes "decimal_laws D"
  shows "ToCents D d = Inr n \<longleftrightarrow> in_int64 n \<and> d = FromCents n"
proof (cases "two_decimals d")
  case True
  then obtain c where d: "d = of_int c / 100" by (rule two_decimalsE)
  show ?thesis using decimal_laws.ToCents_cents [OF assms, of c] by (auto simp: d FromCents_def Scale_def)
next
  case False
  then have "d \<noteq> FromCents n" using two_decimals_FromCents [of n] by auto
  then show ?thesis using decimal_laws.ToCents_imprecise [OF assms False] by simp
qed

theorem cents_round_trip_witness: "ToCents exact_decimal (FromCents 1250) = Inr 1250"
  using cents_round_trip [OF exact.decimal_laws_axioms, of "FromCents 1250" 1250] by (simp add: in_int64_def min_int64_def max_int64_def)

end
