(* ===== verification/Ledger_Types.thy ===== *)
theory Ledger_Types
  imports Tx Money
begin

text \<open>
  \<open>panel/internal/module/ledger/service/types.go\<close> and the rows of
  \<open>panel/internal/module/ledger/model/model.go\<close>: account types, transaction kinds, legs and
  postings of the double-entry ledger, its sentinel errors, and the four tables. The Go types
  \<open>AccountType\<close>, \<open>Kind\<close> and \<open>Direction\<close> are strings; a value outside the named constants is
  an \<open>Other\<close> constructor. Timestamps of the rows are left out: no operation reads them.
\<close>

section \<open>Account types\<close>

datatype account_type =
    UserBalance | UserBalanceHold | UserCommissionPending | UserCommissionAvailable
  | ChannelCash | PlatformRevenue | PlatformFeeExpense | PlatformPromoExpense
  | Suspense | LatePaymentSuspense
  | OtherAccountType string

fun account_type_str :: "account_type \<Rightarrow> string" where
  "account_type_str UserBalance = ''user_balance''"
| "account_type_str UserBalanceHold = ''user_balance_hold''"
| "account_type_str UserCommissionPending = ''user_commission_pending''"
| "account_type_str UserCommissionAvailable = ''user_commission_available''"
| "account_type_str ChannelCash = ''channel_cash''"
| "account_type_str PlatformRevenue = ''platform_revenue''"
| "account_type_str PlatformFeeExpense = ''platform_fee_expense''"
| "account_type_str PlatformPromoExpense = ''platform_promo_expense''"
| "account_type_str Suspense = ''suspense''"
| "account_type_str LatePaymentSuspense = ''late_payment_suspense''"
| "account_type_str (OtherAccountType s) = s"

definition AccountType_Valid :: "account_type \<Rightarrow> bool" where
  "AccountType_Valid t = (case t of OtherAccountType _ \<Rightarrow> False | _ \<Rightarrow> True)"

definition UserOwned :: "account_type \<Rightarrow> bool" where
  "UserOwned t = (case t of
     UserBalance \<Rightarrow> True | UserBalanceHold \<Rightarrow> True
   | UserCommissionPending \<Rightarrow> True | UserCommissionAvailable \<Rightarrow> True
   | _ \<Rightarrow> False)"

definition DebitNormal :: "account_type \<Rightarrow> bool" where
  "DebitNormal t = (case t of
     ChannelCash \<Rightarrow> True | PlatformFeeExpense \<Rightarrow> True
   | PlatformPromoExpense \<Rightarrow> True | Suspense \<Rightarrow> True
   | _ \<Rightarrow> False)"

lemma UserOwned_simps [simp]:
  "UserOwned UserBalance" "UserOwned UserBalanceHold"
  "UserOwned UserCommissionPending" "UserOwned UserCommissionAvailable"
  "\<not> UserOwned ChannelCash" "\<not> UserOwned PlatformRevenue" "\<not> UserOwned PlatformFeeExpense"
  "\<not> UserOwned PlatformPromoExpense" "\<not> UserOwned Suspense" "\<not> UserOwned LatePaymentSuspense"
  "\<not> UserOwned (OtherAccountType s)"
  by (simp_all add: UserOwned_def)

lemma DebitNormal_simps [simp]:
  "\<not> DebitNormal UserBalance" "\<not> DebitNormal UserBalanceHold"
  "\<not> DebitNormal UserCommissionPending" "\<not> DebitNormal UserCommissionAvailable"
  "DebitNormal ChannelCash" "\<not> DebitNormal PlatformRevenue" "DebitNormal PlatformFeeExpense"
  "DebitNormal PlatformPromoExpense" "DebitNormal Suspense" "\<not> DebitNormal LatePaymentSuspense"
  "\<not> DebitNormal (OtherAccountType s)"
  by (simp_all add: DebitNormal_def)

lemma AccountType_Valid_simps [simp]:
  "AccountType_Valid UserBalance" "AccountType_Valid UserBalanceHold"
  "AccountType_Valid UserCommissionPending" "AccountType_Valid UserCommissionAvailable"
  "AccountType_Valid ChannelCash" "AccountType_Valid PlatformRevenue"
  "AccountType_Valid PlatformFeeExpense" "AccountType_Valid PlatformPromoExpense"
  "AccountType_Valid Suspense" "AccountType_Valid LatePaymentSuspense"
  "\<not> AccountType_Valid (OtherAccountType s)"
  by (simp_all add: AccountType_Valid_def)

lemma user_owned_valid: "UserOwned t \<Longrightarrow> AccountType_Valid t"
  by (cases t) auto

lemma user_owned_credit_normal: "UserOwned t \<Longrightarrow> \<not> DebitNormal t"
  by (cases t) auto

text \<open>Usual owners of platform accounts.\<close>

abbreviation RefMain :: string where "RefMain \<equiv> ''main''"
abbreviation RefManualAdjust :: string where "RefManualAdjust \<equiv> ''manual_adjust''"
abbreviation RefGift :: string where "RefGift \<equiv> ''gift''"
abbreviation RefPayout :: string where "RefPayout \<equiv> ''payout''"
abbreviation RefSurcharge :: string where "RefSurcharge \<equiv> ''payment_surcharge''"

section \<open>Kinds of transactions\<close>

datatype kind =
    KindBalanceTopup | KindBalanceAdjusted | KindBalanceHold | KindBalanceRelease
  | KindOrderPaid | KindPlanChangeRefund | KindLatePaymentSuspense | KindLatePaymentApplied
  | KindGiftCardBalance | KindCommissionAccrued | KindCommissionSettled | KindCommissionPaid
  | KindCommissionToBalance | KindCommissionVoided
  | OtherKind string

definition Kind_Valid :: "kind \<Rightarrow> bool" where
  "Kind_Valid k = (case k of OtherKind _ \<Rightarrow> False | _ \<Rightarrow> True)"

definition Dedicated :: "kind \<Rightarrow> bool" where
  "Dedicated k = (case k of
     KindBalanceHold \<Rightarrow> True | KindBalanceRelease \<Rightarrow> True
   | KindOrderPaid \<Rightarrow> True | KindBalanceAdjusted \<Rightarrow> True
   | _ \<Rightarrow> False)"

definition OnePerSource :: "kind \<Rightarrow> bool" where
  "OnePerSource k = (case k of
     KindBalanceTopup \<Rightarrow> True | KindBalanceHold \<Rightarrow> True | KindBalanceRelease \<Rightarrow> True
   | KindOrderPaid \<Rightarrow> True | KindLatePaymentSuspense \<Rightarrow> True | KindPlanChangeRefund \<Rightarrow> True
   | KindCommissionSettled \<Rightarrow> True | KindCommissionPaid \<Rightarrow> True | KindGiftCardBalance \<Rightarrow> True
   | KindCommissionVoided \<Rightarrow> True
   | _ \<Rightarrow> False)"

section \<open>Legs and postings\<close>

datatype direction = Debit | Credit | OtherDirection string

record account_ref =
  acc_type :: account_type
  acc_user :: uuid
  acc_ref :: string

definition UserAccount :: "account_type \<Rightarrow> uuid \<Rightarrow> account_ref" where
  "UserAccount t u = \<lparr>acc_type = t, acc_user = u, acc_ref = ''''\<rparr>"

definition PlatformAccount :: "account_type \<Rightarrow> string \<Rightarrow> account_ref" where
  "PlatformAccount t r = \<lparr>acc_type = t, acc_user = uuid_Nil, acc_ref = r\<rparr>"

record leg =
  leg_account :: account_ref
  leg_dir :: direction
  leg_amount :: decimal

record posting =
  p_kind :: kind
  p_source_type :: string
  p_source_id :: uuid
  p_memo :: string
  p_legs :: "leg list"

abbreviation SourceOrder :: string where "SourceOrder \<equiv> ''order''"
abbreviation SourceUser :: string where "SourceUser \<equiv> ''user''"
abbreviation SourcePayment :: string where "SourcePayment \<equiv> ''payment''"
abbreviation SourceGiftCardCode :: string where "SourceGiftCardCode \<equiv> ''gift_card_code''"

datatype hold_status = HoldHeld | HoldCaptured | HoldReleased

lemma UserAccount_sel [simp]:
  "acc_type (UserAccount t u) = t" "acc_user (UserAccount t u) = u" "acc_ref (UserAccount t u) = ''''"
  by (simp_all add: UserAccount_def)

lemma PlatformAccount_sel [simp]:
  "acc_type (PlatformAccount t r) = t" "acc_user (PlatformAccount t r) = uuid_Nil"
  "acc_ref (PlatformAccount t r) = r"
  by (simp_all add: PlatformAccount_def)

lemma account_eq_simps [simp]:
  "UserAccount t u = UserAccount t' u' \<longleftrightarrow> t = t' \<and> u = u'"
  "PlatformAccount t r = PlatformAccount t' r' \<longleftrightarrow> t = t' \<and> r = r'"
  by (auto simp: UserAccount_def PlatformAccount_def)

section \<open>Sentinel errors\<close>

definition ErrInsufficientBalance :: err where
  "ErrInsufficientBalance = Newf Conflict ''insufficient balance''"

definition ErrBalanceConstraint :: err where
  "ErrBalanceConstraint = Plain ''ledger: overdraft constraint, transaction is void''"

definition ErrDuplicatePosting :: err where
  "ErrDuplicatePosting = Newf Conflict ''already posted''"

definition ErrHoldExists :: err where
  "ErrHoldExists = Newf Conflict ''balance already held for this order''"

definition ErrHoldCaptured :: err where
  "ErrHoldCaptured = Newf Conflict ''held balance already captured''"

definition ErrHoldReleased :: err where
  "ErrHoldReleased = Newf Conflict ''held balance already released''"

definition ErrUserNotFound :: err where
  "ErrUserNotFound = New NotFound"

definition ErrInvalidPosting :: err where
  "ErrInvalidPosting = Plain ''ledger: invalid posting''"

section \<open>Tables\<close>

record account_row =
  ar_id :: uuid
  ar_type :: account_type
  ar_owner_user :: "uuid option"
  ar_owner_ref :: string
  ar_balance :: decimal

record transaction_row =
  tr_id :: uuid
  tr_kind :: kind
  tr_source_type :: "string option"
  tr_source_id :: "uuid option"
  tr_memo :: string
  tr_actor_kind :: string
  tr_actor_id :: "uuid option"

record entry_row =
  er_id :: uuid
  er_transaction :: uuid
  er_account :: uuid
  er_dir :: direction
  er_amount :: decimal

record hold_row =
  hr_id :: uuid
  hr_order :: uuid
  hr_user :: uuid
  hr_amount :: decimal
  hr_status :: hold_status
  hr_hold_txn :: uuid
  hr_capture_txn :: "uuid option"
  hr_release_txn :: "uuid option"

text \<open>
  The ledger's tables, the users and orders they refer to, and the number of identifiers the
  database has drawn so far: \<open>uuidv7()\<close> is a parameter that gives the n-th of them.
\<close>

record ledger_db =
  users :: "uuid list"
  order_ids :: "uuid list"
  accounts :: "account_row list"
  transactions :: "transaction_row list"
  entries :: "entry_row list"
  holds :: "hold_row list"
  drawn :: nat

end
