(* ===== verification/Ledger_Posting.thy ===== *)
theory Ledger_Posting
  imports Ledger_Types "HOL-Library.AList" "HOL-Library.Char_ord" "HOL-Library.List_Lexorder"
    "HOL-Library.Product_Lexorder"
begin

text \<open>
  \<open>panel/internal/module/ledger/service/posting.go\<close>: the pure part of posting a
  transaction. Validation of a posting and of its legs, the effect of a leg on its account,
  the new balances of the accounts a posting touches, and the stable order in which accounts
  are locked.
\<close>

record locked_account =
  la_id :: uuid
  la_type :: account_type
  la_balance :: decimal

section \<open>Validation\<close>

text \<open>The pattern \<open>^[a-z_]{1,32}$\<close>.\<close>

definition sourceTypePattern :: "string \<Rightarrow> bool" where
  "sourceTypePattern s \<longleftrightarrow>
     1 \<le> length s \<and> length s \<le> 32 \<and>
     list_all (\<lambda>c. (CHR ''a'' \<le> c \<and> c \<le> CHR ''z'') \<or> c = CHR ''_'') s"

definition validateLeg :: "decimal_pkg \<Rightarrow> leg \<Rightarrow> err + unit" where
  "validateLeg D leg =
     (let ref = leg_account leg in
      if \<not> AccountType_Valid (acc_type ref) then Inl (Plain ''account type'')
      else if UserOwned (acc_type ref) \<and> acc_user ref = uuid_Nil then Inl (Plain ''user account without user'')
      else if UserOwned (acc_type ref) \<and> acc_ref ref \<noteq> '''' then Inl (Plain ''user account with owner_ref'')
      else if \<not> UserOwned (acc_type ref) \<and> acc_user ref \<noteq> uuid_Nil then Inl (Plain ''platform account with user'')
      else if \<not> UserOwned (acc_type ref) \<and> acc_ref ref = '''' then Inl (Plain ''platform account without owner_ref'')
      else if \<not> UserOwned (acc_type ref) \<and> length (acc_ref ref) > 64 then Inl (Plain ''owner_ref too long'')
      else if leg_dir leg \<noteq> Debit \<and> leg_dir leg \<noteq> Credit then Inl (Plain ''direction'')
      else if \<not> leg_amount leg > 0 then Inl (Plain ''amount not positive'')
      else Check D (leg_amount leg))"

definition invalid_posting :: "string \<Rightarrow> err" where
  "invalid_posting m = Wrapped m [ErrInvalidPosting]"

fun check_legs :: "decimal_pkg \<Rightarrow> leg list \<Rightarrow> decimal \<Rightarrow> decimal \<Rightarrow> err + (decimal \<times> decimal)" where
  "check_legs D [] debitSum creditSum = Inr (debitSum, creditSum)"
| "check_legs D (leg # legs) debitSum creditSum =
     (case validateLeg D leg of
        Inl e \<Rightarrow> Inl (invalid_posting ''leg'')
      | Inr _ \<Rightarrow>
          (case leg_dir leg of
             Debit \<Rightarrow> check_legs D legs (debitSum + leg_amount leg) creditSum
           | Credit \<Rightarrow> check_legs D legs debitSum (creditSum + leg_amount leg)
           | OtherDirection _ \<Rightarrow> check_legs D legs debitSum creditSum))"

definition validatePosting :: "decimal_pkg \<Rightarrow> posting \<Rightarrow> err + unit" where
  "validatePosting D p =
     (if \<not> Kind_Valid (p_kind p) then Inl (invalid_posting ''kind'')
      else if (p_source_type p = '''') \<noteq> (p_source_id p = uuid_Nil) then Inl (invalid_posting ''source pair'')
      else if p_source_type p \<noteq> '''' \<and> \<not> sourceTypePattern (p_source_type p) then Inl (invalid_posting ''source type'')
      else if \<not> valid_utf8 (p_memo p) then Inl (invalid_posting ''memo utf8'')
      else if has_nul (p_memo p) then Inl (invalid_posting ''memo nul'')
      else if rune_count (p_memo p) > 500 then Inl (invalid_posting ''memo length'')
      else if p_kind p = KindBalanceAdjusted \<and> rune_count (trim_space (p_memo p)) < 5
      then Inl (invalid_posting ''adjust memo'')
      else if length (p_legs p) < 2 then Inl (invalid_posting ''two legs'')
      else case check_legs D (p_legs p) 0 0 of
             Inl e \<Rightarrow> Inl e
           | Inr (debitSum, creditSum) \<Rightarrow>
               if debitSum \<noteq> creditSum then Inl (invalid_posting ''unbalanced'') else Inr ())"

section \<open>Balances\<close>

definition signedDelta :: "account_type \<Rightarrow> direction \<Rightarrow> decimal \<Rightarrow> decimal" where
  "signedDelta t d amount =
     (if DebitNormal t then (if d = Debit then amount else - amount)
      else if d = Credit then amount else - amount)"

text \<open>The first loop of \<open>nextBalances\<close>: every leg applied to the working balances.\<close>

fun apply_legs ::
  "(account_ref \<rightharpoonup> locked_account) \<Rightarrow> leg list \<Rightarrow> (account_ref \<Rightarrow> decimal) \<Rightarrow>
   err + (account_ref \<Rightarrow> decimal)" where
  "apply_legs accs [] work = Inr work"
| "apply_legs accs (leg # legs) work =
     (case accs (leg_account leg) of
        None \<Rightarrow> Inl (invalid_posting ''account not locked'')
      | Some acc \<Rightarrow>
          apply_legs accs legs
            (work(leg_account leg :=
               work (leg_account leg) + signedDelta (la_type acc) (leg_dir leg) (leg_amount leg))))"

text \<open>The second loop: each touched account once, refusing a user account below zero. A key
  missing from a Go map reads as the zero value.\<close>

definition locked_zero :: locked_account where
  "locked_zero = \<lparr>la_id = uuid_Nil, la_type = OtherAccountType '''', la_balance = 0\<rparr>"

fun collect_balances ::
  "(account_ref \<rightharpoonup> locked_account) \<Rightarrow> (account_ref \<Rightarrow> decimal) \<Rightarrow> leg list \<Rightarrow> account_ref list \<Rightarrow>
   (uuid \<times> decimal) list \<Rightarrow> err + (uuid \<times> decimal) list" where
  "collect_balances accs work [] seen out = Inr out"
| "collect_balances accs work (leg # legs) seen out =
     (let ref = leg_account leg in
      if ref \<in> set seen then collect_balances accs work legs seen out
      else
        (let acc = (case accs ref of Some a \<Rightarrow> a | None \<Rightarrow> locked_zero);
             bal = work ref
         in if UserOwned (la_type acc) \<and> bal < 0 then Inl ErrInsufficientBalance
            else collect_balances accs work legs (ref # seen) (AList.update (la_id acc) bal out)))"

definition nextBalances ::
  "(account_ref \<rightharpoonup> locked_account) \<Rightarrow> leg list \<Rightarrow> err + (uuid \<times> decimal) list" where
  "nextBalances accs legs =
     (case apply_legs accs legs (\<lambda>r. case accs r of Some a \<Rightarrow> la_balance a | None \<Rightarrow> 0) of
        Inl e \<Rightarrow> Inl e
      | Inr work \<Rightarrow> collect_balances accs work legs [] [])"

section \<open>Lock order\<close>

fun dedup :: "'a list \<Rightarrow> 'a list \<Rightarrow> 'a list" where
  "dedup seen [] = []"
| "dedup seen (x # xs) = (if x \<in> set seen then dedup seen xs else x # dedup (x # seen) xs)"

definition ref_key :: "account_ref \<Rightarrow> string \<times> uuid \<times> string" where
  "ref_key r = (account_type_str (acc_type r), acc_user r, acc_ref r)"

definition sortedRefs :: "account_ref list \<Rightarrow> account_ref list" where
  "sortedRefs refs = sort_key ref_key (dedup [] refs)"

definition accountKeys :: "leg list \<Rightarrow> account_ref list" where
  "accountKeys legs = sortedRefs (map leg_account legs)"

section \<open>What validation accepts\<close>

definition ref_ok :: "account_ref \<Rightarrow> bool" where
  "ref_ok r \<longleftrightarrow>
     AccountType_Valid (acc_type r) \<and>
     (if UserOwned (acc_type r) then acc_user r \<noteq> uuid_Nil \<and> acc_ref r = ''''
      else acc_user r = uuid_Nil \<and> acc_ref r \<noteq> '''' \<and> length (acc_ref r) \<le> 64)"

definition leg_ok :: "leg \<Rightarrow> bool" where
  "leg_ok l \<longleftrightarrow>
     ref_ok (leg_account l) \<and> (leg_dir l = Debit \<or> leg_dir l = Credit) \<and>
     0 < leg_amount l \<and> two_decimals (leg_amount l)"

definition total :: "direction \<Rightarrow> leg list \<Rightarrow> decimal" where
  "total d legs = sum_list (map leg_amount (filter (\<lambda>l. leg_dir l = d) legs))"

lemma total_simps [simp]:
  "total d [] = 0"
  "total d (l # legs) = (if leg_dir l = d then leg_amount l else 0) + total d legs"
  by (simp_all add: total_def)

definition legs_ok :: "leg list \<Rightarrow> bool" where
  "legs_ok legs \<longleftrightarrow> 2 \<le> length legs \<and> (\<forall>l \<in> set legs. leg_ok l) \<and> total Debit legs = total Credit legs"

definition header_ok :: "posting \<Rightarrow> bool" where
  "header_ok p \<longleftrightarrow>
     Kind_Valid (p_kind p) \<and> (p_source_type p = '''' \<longleftrightarrow> p_source_id p = uuid_Nil) \<and>
     (p_source_type p = '''' \<or> sourceTypePattern (p_source_type p)) \<and>
     valid_utf8 (p_memo p) \<and> \<not> has_nul (p_memo p) \<and> rune_count (p_memo p) \<le> 500 \<and>
     (p_kind p = KindBalanceAdjusted \<longrightarrow> 5 \<le> rune_count (trim_space (p_memo p)))"

context decimal_laws
begin

lemma validateLeg_iff: "validateLeg D l = Inr () \<longleftrightarrow> leg_ok l"
  by (simp add: validateLeg_def leg_ok_def ref_ok_def Check_iff Let_def)

lemma check_legs_Inr:
  "check_legs D legs d c = Inr r \<longleftrightarrow>
     (\<forall>l \<in> set legs. leg_ok l) \<and> r = (d + total Debit legs, c + total Credit legs)"
proof (induction legs arbitrary: d c)
  case Nil
  then show ?case by auto
next
  case (Cons l legs)
  show ?case
  proof (cases "leg_ok l")
    case True
    then have "validateLeg D l = Inr ()" and "leg_dir l = Debit \<or> leg_dir l = Credit"
      by (simp_all add: validateLeg_iff leg_ok_def)
    with True Cons show ?thesis by (auto simp: add.assoc)
  next
    case False
    then obtain e where "validateLeg D l = Inl e"
      using validateLeg_iff [of l] by (cases "validateLeg D l") auto
    with False show ?thesis by simp
  qed
qed

lemma validatePosting_iff: "validatePosting D p = Inr () \<longleftrightarrow> header_ok p \<and> legs_ok (p_legs p)"
proof (cases "check_legs D (p_legs p) 0 0")
  case (Inl e)
  then have "\<not> (\<forall>l \<in> set (p_legs p). leg_ok l)"
    using check_legs_Inr [of "p_legs p" 0 0] by (metis Inl_Inr_False)
  with Inl show ?thesis
    by (auto simp: validatePosting_def legs_ok_def)
next
  case (Inr r)
  with check_legs_Inr [of "p_legs p" 0 0 r]
  have "\<forall>l \<in> set (p_legs p). leg_ok l" and "r = (total Debit (p_legs p), total Credit (p_legs p))"
    by simp_all
  with Inr show ?thesis
    by (auto simp: validatePosting_def header_ok_def legs_ok_def split: if_splits)
qed

text \<open>Every refusal is an \<open>ErrInvalidPosting\<close>.\<close>

lemma check_legs_msg: "check_legs D legs d c = Inl e \<Longrightarrow> \<exists>m. e = invalid_posting m"
  by (induction legs arbitrary: d c) (auto split: sum.splits direction.splits)

lemma check_legs_Inl: "check_legs D legs d c = Inl e \<Longrightarrow> errors_Is e ErrInvalidPosting"
  by (induction legs arbitrary: d c)
    (auto simp: invalid_posting_def split: sum.splits direction.splits)

lemma validatePosting_Inl: "validatePosting D p = Inl e \<Longrightarrow> errors_Is e ErrInvalidPosting"
  by (auto simp: validatePosting_def invalid_posting_def dest: check_legs_Inl
      split: if_splits sum.splits prod.splits)

end

lemma invalid_posting_Is [simp]: "errors_Is (invalid_posting m) ErrInvalidPosting"
  by (simp add: invalid_posting_def)

section \<open>What a posting does to the balances\<close>

text \<open>The change of the account \<open>r\<close>, of type \<open>t\<close>, by a list of legs.\<close>

definition leg_effect :: "account_type \<Rightarrow> account_ref \<Rightarrow> leg list \<Rightarrow> decimal" where
  "leg_effect t r legs =
     sum_list (map (\<lambda>l. signedDelta t (leg_dir l) (leg_amount l)) (filter (\<lambda>l. leg_account l = r) legs))"

lemma leg_effect_simps [simp]:
  "leg_effect t r [] = 0"
  "leg_effect t r (l # legs) =
     (if leg_account l = r then signedDelta t (leg_dir l) (leg_amount l) else 0) + leg_effect t r legs"
  by (simp_all add: leg_effect_def)

lemma leg_effect_untouched: "r \<notin> leg_account ` set legs \<Longrightarrow> leg_effect t r legs = 0"
  by (induction legs) auto

abbreviation locked_type :: "(account_ref \<rightharpoonup> locked_account) \<Rightarrow> account_ref \<Rightarrow> account_type" where
  "locked_type accs r \<equiv> la_type (the (accs r))"

abbreviation locked_id :: "(account_ref \<rightharpoonup> locked_account) \<Rightarrow> account_ref \<Rightarrow> uuid" where
  "locked_id accs r \<equiv> la_id (the (accs r))"

lemma apply_legs_locked:
  assumes "leg_account ` set legs \<subseteq> dom accs"
  shows "apply_legs accs legs work =
    Inr (\<lambda>r. work r + leg_effect (locked_type accs r) r legs)"
  using assms
proof (induction legs arbitrary: work)
  case Nil
  then show ?case by simp
next
  case (Cons l legs)
  then obtain a where "accs (leg_account l) = Some a" by auto
  with Cons show ?case by (auto simp: fun_eq_iff)
qed

lemma apply_legs_unlocked:
  "\<not> leg_account ` set legs \<subseteq> dom accs \<Longrightarrow> apply_legs accs legs work = Inl (invalid_posting ''account not locked'')"
  by (induction legs arbitrary: work) (auto split: option.splits)

lemma collect_balances_Inr:
  assumes "collect_balances accs work legs seen out = Inr res"
    and "leg_account ` set legs \<subseteq> dom accs"
    and "inj_on (locked_id accs) (leg_account ` set legs)"
  shows "(\<forall>r \<in> leg_account ` set legs - set seen. map_of res (locked_id accs r) = Some (work r)) \<and>
         (\<forall>i. i \<notin> locked_id accs ` (leg_account ` set legs - set seen) \<longrightarrow> map_of res i = map_of out i) \<and>
         (\<forall>r \<in> leg_account ` set legs - set seen. UserOwned (locked_type accs r) \<longrightarrow> 0 \<le> work r)"
  using assms
proof (induction legs arbitrary: seen out)
  case Nil
  then show ?case by simp
next
  case (Cons l legs)
  let ?r = "leg_account l"
  from Cons.prems obtain a where a: "accs ?r = Some a" by auto
  have sub: "leg_account ` set legs \<subseteq> dom accs" and inj: "inj_on (locked_id accs) (leg_account ` set legs)"
    using Cons.prems(2,3) by (auto simp: inj_on_insert)
  show ?case
  proof (cases "?r \<in> set seen")
    case True
    with Cons.prems(1) have "collect_balances accs work legs seen out = Inr res" by simp
    from Cons.IH [OF this sub inj] True show ?thesis by auto
  next
    case False
    with Cons.prems(1) a have ok: "\<not> (UserOwned (la_type a) \<and> work ?r < 0)"
      and rec: "collect_balances accs work legs (?r # seen) (AList.update (la_id a) (work ?r) out) = Inr res"
      by (auto simp: Let_def split: if_splits)
    note IH = Cons.IH [OF rec sub inj]
    have fresh: "la_id a \<notin> locked_id accs ` (leg_account ` set legs - set (?r # seen))"
    proof
      assume "la_id a \<in> locked_id accs ` (leg_account ` set legs - set (?r # seen))"
      then obtain r where eq: "la_id a = locked_id accs r" and r: "r \<in> leg_account ` set legs - set (?r # seen)"
        by (rule imageE)
      have "r \<in> leg_account ` set legs" "r \<noteq> ?r" "locked_id accs r = locked_id accs ?r"
        using r eq a by simp_all
      then show False
        using inj_onD [OF Cons.prems(3), of r ?r] by simp
    qed
    with IH have "map_of res (la_id a) = Some (work ?r)"
      by (simp add: update_conv')
    moreover have "map_of res i = map_of out i"
      if "i \<notin> locked_id accs ` (leg_account ` set (l # legs) - set seen)" for i
    proof -
      have "?r \<in> leg_account ` set (l # legs) - set seen" using False by simp
      with that have "i \<noteq> locked_id accs ?r" by blast
      moreover have "i \<notin> locked_id accs ` (leg_account ` set legs - set (?r # seen))"
        using that by auto
      ultimately show ?thesis using IH a by (simp add: update_conv')
    qed
    ultimately show ?thesis using IH ok a by auto
  qed
qed

lemma collect_balances_distinct:
  "collect_balances accs work legs seen out = Inr res \<Longrightarrow> distinct (map fst out) \<Longrightarrow> distinct (map fst res)"
  by (induction legs arbitrary: seen out) (auto simp: Let_def distinct_update split: if_splits)

lemma collect_balances_ok:
  assumes "leg_account ` set legs \<subseteq> dom accs"
    and "\<forall>r \<in> leg_account ` set legs. UserOwned (locked_type accs r) \<longrightarrow> 0 \<le> work r"
  shows "\<exists>res. collect_balances accs work legs seen out = Inr res"
  using assms by (induction legs arbitrary: seen out) (auto simp: Let_def)

lemma collect_balances_Inl:
  "collect_balances accs work legs seen out = Inl e \<Longrightarrow> e = ErrInsufficientBalance"
  by (induction legs arbitrary: seen out) (auto simp: Let_def split: if_splits)

text \<open>The balance an account has after the posting.\<close>

definition next_balance :: "(account_ref \<rightharpoonup> locked_account) \<Rightarrow> leg list \<Rightarrow> account_ref \<Rightarrow> decimal" where
  "next_balance accs legs r = la_balance (the (accs r)) + leg_effect (locked_type accs r) r legs"

lemma nextBalances_unfold:
  assumes "leg_account ` set legs \<subseteq> dom accs"
  shows "nextBalances accs legs =
    collect_balances accs
      (\<lambda>r. (case accs r of Some a \<Rightarrow> la_balance a | None \<Rightarrow> 0) + leg_effect (locked_type accs r) r legs) legs [] []"
  using assms by (simp add: nextBalances_def apply_legs_locked)

lemma nextBalances_Inr:
  assumes "nextBalances accs legs = Inr res"
    and "leg_account ` set legs \<subseteq> dom accs"
    and "inj_on (locked_id accs) (leg_account ` set legs)"
  shows nextBalances_new: "\<And>r. r \<in> leg_account ` set legs \<Longrightarrow>
           map_of res (locked_id accs r) = Some (next_balance accs legs r)"
    and nextBalances_frame: "\<And>i. i \<notin> locked_id accs ` leg_account ` set legs \<Longrightarrow> map_of res i = None"
    and nextBalances_nonneg: "\<And>r. r \<in> leg_account ` set legs \<Longrightarrow> UserOwned (locked_type accs r) \<Longrightarrow>
           0 \<le> next_balance accs legs r"
    and nextBalances_distinct: "distinct (map fst res)"
proof -
  let ?work = "\<lambda>r. (case accs r of Some a \<Rightarrow> la_balance a | None \<Rightarrow> 0) +
    leg_effect (locked_type accs r) r legs"
  have eq: "?work r = next_balance accs legs r" if "r \<in> leg_account ` set legs" for r
    using assms(2) that by (auto simp: next_balance_def)
  have c: "collect_balances accs ?work legs [] [] = Inr res"
    using assms(1,2) by (simp add: nextBalances_unfold)
  note facts = collect_balances_Inr [OF c assms(2,3)]
  show "map_of res (locked_id accs r) = Some (next_balance accs legs r)"
    if "r \<in> leg_account ` set legs" for r
    using facts that eq [OF that] by auto
  show "map_of res i = None" if "i \<notin> locked_id accs ` leg_account ` set legs" for i
    using facts that by auto
  show "0 \<le> next_balance accs legs r"
    if "r \<in> leg_account ` set legs" and "UserOwned (locked_type accs r)" for r
    using facts that eq [OF that(1)] by auto
  show "distinct (map fst res)" using collect_balances_distinct [OF c] by simp
qed

lemma nextBalances_Inl:
  assumes "nextBalances accs legs = Inl e" and "leg_account ` set legs \<subseteq> dom accs"
  shows "e = ErrInsufficientBalance \<and>
    (\<exists>r \<in> leg_account ` set legs. UserOwned (locked_type accs r) \<and> next_balance accs legs r < 0)"
proof -
  let ?work = "\<lambda>r. (case accs r of Some a \<Rightarrow> la_balance a | None \<Rightarrow> 0) +
    leg_effect (locked_type accs r) r legs"
  have eq: "?work r = next_balance accs legs r" if "r \<in> leg_account ` set legs" for r
    using assms(2) that by (auto simp: next_balance_def)
  have c: "collect_balances accs ?work legs [] [] = Inl e"
    using assms by (simp add: nextBalances_unfold)
  then have e: "e = ErrInsufficientBalance" by (rule collect_balances_Inl)
  have "\<exists>r \<in> leg_account ` set legs. UserOwned (locked_type accs r) \<and> ?work r < 0"
  proof (rule ccontr)
    assume "\<not> ?thesis"
    then have "\<forall>r \<in> leg_account ` set legs. UserOwned (locked_type accs r) \<longrightarrow> 0 \<le> ?work r"
      by (simp add: not_less)
    from collect_balances_ok [OF assms(2) this] obtain res where
      "collect_balances accs ?work legs [] [] = Inr res" by metis
    with c show False by simp
  qed
  with e eq show ?thesis by auto
qed

section \<open>The order of locks\<close>

lemma set_dedup [simp]: "set (dedup seen xs) = set xs - set seen"
  by (induction xs arbitrary: seen) auto

lemma distinct_dedup [simp]: "distinct (dedup seen xs)"
  by (induction xs arbitrary: seen) auto

lemma set_sortedRefs [simp]: "set (sortedRefs refs) = set refs"
  by (simp add: sortedRefs_def)

lemma distinct_sortedRefs [simp]: "distinct (sortedRefs refs)"
  by (simp add: sortedRefs_def)

lemma set_accountKeys [simp]: "set (accountKeys legs) = leg_account ` set legs"
  by (simp add: accountKeys_def)

lemma distinct_accountKeys [simp]: "distinct (accountKeys legs)"
  by (simp add: accountKeys_def)

lemma account_type_str_inj:
  "AccountType_Valid t \<Longrightarrow> AccountType_Valid t' \<Longrightarrow> account_type_str t = account_type_str t' \<Longrightarrow> t = t'"
  by (cases t; cases t') simp_all

lemma ref_key_inj:
  "ref_ok r \<Longrightarrow> ref_ok r' \<Longrightarrow> ref_key r = ref_key r' \<Longrightarrow> r = r'"
  by (simp add: ref_key_def ref_ok_def account_type_str_inj)

lemma sorted_sortedRefs: "sorted (map ref_key (sortedRefs refs))"
  by (simp add: sortedRefs_def)

lemma sortedRefs_unique:
  assumes "set refs = set refs'" and "\<forall>r \<in> set refs. ref_ok r"
  shows "sortedRefs refs = sortedRefs refs'"
proof -
  have inj: "inj_on ref_key (set refs)"
    using assms(2) by (auto intro!: inj_onI ref_key_inj)
  then have "map ref_key (sortedRefs refs) = map ref_key (sortedRefs refs')"
    using assms(1) by (intro sorted_distinct_set_unique)
      (auto simp: sorted_sortedRefs distinct_map)
  then show ?thesis
    using inj assms(1) by (auto intro: map_inj_on [of ref_key])
qed

end
