(* ===== verification/Ledger_Store.thy ===== *)
theory Ledger_Store
  imports Ledger_Posting
begin

text \<open>
  \<open>panel/internal/module/ledger/repo\<close>: the statements of the ledger on its four tables, with
  the constraints of \<open>panel/db/migrations/00009_ledger.sql\<close>, \<open>00016\<close> and \<open>00051\<close> that
  PostgreSQL enforces on them. A violated constraint is a \<open>PgError\<close> with the SQLSTATE and the
  name of the constraint, translated by \<open>mapErr\<close> as in the code; the name is empty where one
  condition stands for several constraints, and no code reads it there. A row lock has no effect on
  one sequence of statements and is left out; the order in which locks are taken is
  \<open>sortedRefs\<close>.

  \<open>gen\<close> is PostgreSQL's \<open>uuidv7()\<close>: the identifier of the n-th call. Nothing is assumed of it
  here, since every insert checks the primary key.
\<close>

section \<open>Errors of the repository\<close>

definition ErrDuplicate :: err where
  "ErrDuplicate = Plain ''ledger: unique violation''"

definition ErrForeignKey :: err where
  "ErrForeignKey = Plain ''ledger: foreign key violation''"

definition ErrCheck :: err where
  "ErrCheck = Plain ''ledger: check violation''"

definition constraintErrs :: constraint_errors where
  "constraintErrs = \<lparr>
     ByCode = [CodeUnique \<mapsto> ErrDuplicate, CodeForeignKey \<mapsto> ErrForeignKey, CodeCheck \<mapsto> ErrCheck],
     ByName = (\<lambda>_. None)\<rparr>"

definition mapErr :: "err \<Rightarrow> err" where
  "mapErr e = ConstraintErrors_Map constraintErrs e"

text \<open>A statement whose error goes through \<open>mapErr\<close>.\<close>

definition mapped :: "(err, 's, 'a) eff \<Rightarrow> (err, 's, 'a) eff" where
  "mapped m = handle (atomic m) (\<lambda>e. fail (mapErr e))"

definition draw_id :: "(nat \<Rightarrow> uuid) \<Rightarrow> (err, ledger_db, uuid) eff" where
  "draw_id gen = (\<lambda>s. (Inr (gen (drawn s)), s\<lparr>drawn := Suc (drawn s)\<rparr>))"

section \<open>Accounts\<close>

record account_key =
  k_type :: account_type
  k_owner_user :: "uuid option"
  k_owner_ref :: string

text \<open>The CHECK constraints on the owner of an account.\<close>

definition owner_shape :: "account_type \<Rightarrow> uuid option \<Rightarrow> string \<Rightarrow> bool" where
  "owner_shape t u r \<longleftrightarrow>
     AccountType_Valid t \<and> (UserOwned t \<longleftrightarrow> u \<noteq> None) \<and> (u = None \<longleftrightarrow> r \<noteq> '''') \<and> rune_count r \<le> 64"

definition owner_key :: "account_row \<Rightarrow> account_type \<times> uuid option \<times> string" where
  "owner_key a = (ar_type a, ar_owner_user a, ar_owner_ref a)"

definition key_owner :: "account_key \<Rightarrow> account_type \<times> uuid option \<times> string" where
  "key_owner k = (k_type k, k_owner_user k, k_owner_ref k)"

text \<open>One row of the \<open>INSERT ... ON CONFLICT ON CONSTRAINT ledger_accounts_owner_key DO NOTHING\<close>.\<close>

definition insert_account :: "(nat \<Rightarrow> uuid) \<Rightarrow> account_key \<Rightarrow> (err, ledger_db, unit) eff" where
  "insert_account gen k =
     bnd (draw_id gen) (\<lambda>i.
     bnd (require (owner_shape (k_type k) (k_owner_user k) (k_owner_ref k))
            (PgError CodeCheck ''ledger_accounts_owner_shape'')) (\<lambda>_.
     bnd (gets accounts) (\<lambda>as.
       if key_owner k \<in> owner_key ` set as then ret ()
       else if i \<in> ar_id ` set as then fail (PgError CodeUnique ''ledger_accounts_pkey'')
       else modify (\<lambda>s. s\<lparr>accounts := as @
              [\<lparr>ar_id = i, ar_type = k_type k, ar_owner_user = k_owner_user k,
                ar_owner_ref = k_owner_ref k, ar_balance = 0\<rparr>]\<rparr>))))"

text \<open>The foreign key to \<open>users\<close>, checked at the end of the statement for the rows it inserted.\<close>

definition owners_known :: "nat \<Rightarrow> ledger_db \<Rightarrow> bool" where
  "owners_known n s \<longleftrightarrow>
     (\<forall>a \<in> set (drop n (accounts s)). pred_option (\<lambda>u. u \<in> set (users s)) (ar_owner_user a))"

definition EnsureAccounts :: "(nat \<Rightarrow> uuid) \<Rightarrow> account_key list \<Rightarrow> (err, ledger_db, unit) eff" where
  "EnsureAccounts gen keys =
     (if keys = [] then ret ()
      else mapped
        (bnd (require (\<forall>k \<in> set keys. text_param (k_owner_ref k)) (PgError CodeText '''')) (\<lambda>_.
         bnd (gets (\<lambda>s. length (accounts s))) (\<lambda>n.
         bnd (for_each keys (insert_account gen)) (\<lambda>_.
         bnd (gets (owners_known n)) (\<lambda>ok.
           require ok (PgError CodeForeignKey ''ledger_accounts_owner_user_id_fkey'')))))))"

definition key_matches :: "account_row \<Rightarrow> account_key \<Rightarrow> bool" where
  "key_matches a k =
     (case k_owner_user k of
        Some u \<Rightarrow> ar_type a = k_type k \<and> ar_owner_user a = Some u \<and> ar_owner_ref a = ''''
      | None \<Rightarrow> ar_type a = k_type k \<and> ar_owner_user a = None \<and> ar_owner_ref a = k_owner_ref k)"

definition LockAccounts :: "account_key list \<Rightarrow> (err, ledger_db, account_row list) eff" where
  "LockAccounts keys =
     (if keys = [] then ret []
      else gets (\<lambda>s. sort_key ar_id (filter (\<lambda>a. list_ex (key_matches a) keys) (accounts s))))"

text \<open>\<open>UPDATE ledger_accounts SET balance = ? WHERE id = ?\<close>, and the number of rows.\<close>

definition update_balance :: "uuid \<Rightarrow> decimal \<Rightarrow> (err, ledger_db, nat) eff" where
  "update_balance i bal =
     bnd (require (numeric_20_2 bal) (PgError CodeNumeric '''')) (\<lambda>_.
     bnd (gets accounts) (\<lambda>as.
     bnd (require (\<forall>a \<in> set as. ar_id a = i \<longrightarrow> ar_owner_user a = None \<or> 0 \<le> bal)
            (PgError CodeCheck ''ledger_accounts_user_nonnegative'')) (\<lambda>_.
     bnd (modify (\<lambda>s. s\<lparr>accounts := update_rows (\<lambda>a. ar_id a = i) (\<lambda>a. a\<lparr>ar_balance := bal\<rparr>) as\<rparr>)) (\<lambda>_.
       ret (rows_affected (\<lambda>a. ar_id a = i) as)))))"

definition SetBalances :: "decimal_pkg \<Rightarrow> (uuid \<times> decimal) list \<Rightarrow> (err, ledger_db, unit) eff" where
  "SetBalances D balances =
     for_each (sort (map fst balances)) (\<lambda>i.
       let bal = the (map_of balances i) in
       bnd (lift_sum (Check D bal)) (\<lambda>_.
       bnd (mapped (update_balance i bal)) (\<lambda>n.
         require (n = 1) (Plain ''ledger: account of a balance does not exist''))))"

definition UserBalances :: "account_type \<Rightarrow> uuid list \<Rightarrow> (err, ledger_db, uuid \<rightharpoonup> decimal) eff" where
  "UserBalances t us =
     (if us = [] then ret Map.empty
      else gets (\<lambda>s. fold (\<lambda>a out. case ar_owner_user a of None \<Rightarrow> out | Some u \<Rightarrow> out(u \<mapsto> ar_balance a))
             (filter (\<lambda>a. ar_type a = t \<and> ar_owner_user a \<in> Some ` set us) (accounts s)) Map.empty))"

section \<open>Transactions and entries\<close>

definition TransactionExists :: "kind \<Rightarrow> string \<Rightarrow> uuid \<Rightarrow> (err, ledger_db, bool) eff" where
  "TransactionExists k st sid =
     gets (\<lambda>s. list_ex (\<lambda>t. tr_kind t = k \<and> tr_source_type t = Some st \<and> tr_source_id t = Some sid)
                 (transactions s))"

text \<open>The CHECK constraints of \<open>ledger_transactions\<close>.\<close>

definition transaction_checks :: "transaction_row \<Rightarrow> bool" where
  "transaction_checks t \<longleftrightarrow>
     Kind_Valid (tr_kind t) \<and>
     pred_option sourceTypePattern (tr_source_type t) \<and>
     rune_count (tr_memo t) \<le> 500 \<and>
     tr_actor_kind t \<in> {''system'', ''user'', ''admin''} \<and>
     (tr_source_type t = None \<longleftrightarrow> tr_source_id t = None) \<and>
     (tr_actor_kind t = ''system'' \<longleftrightarrow> tr_actor_id t = None) \<and>
     (tr_kind t = KindBalanceAdjusted \<longrightarrow> 5 \<le> rune_count (btrim (tr_memo t)))"

text \<open>The key of the partial unique index \<open>ledger_transactions_source_once_key\<close>.\<close>

definition once_key :: "transaction_row \<Rightarrow> (kind \<times> string option \<times> uuid) option" where
  "once_key t =
     (if OnePerSource (tr_kind t)
      then map_option (\<lambda>i. (tr_kind t, tr_source_type t, i)) (tr_source_id t) else None)"

definition insert_transaction :: "(nat \<Rightarrow> uuid) \<Rightarrow> transaction_row \<Rightarrow> (err, ledger_db, uuid) eff" where
  "insert_transaction gen t =
     bnd (draw_id gen) (\<lambda>i.
     bnd (require (text_param (tr_memo t) \<and> pred_option text_param (tr_source_type t))
            (PgError CodeText '''')) (\<lambda>_.
     bnd (require (transaction_checks t) (PgError CodeCheck '''')) (\<lambda>_.
     bnd (gets transactions) (\<lambda>ts.
     bnd (require (i \<notin> tr_id ` set ts) (PgError CodeUnique ''ledger_transactions_pkey'')) (\<lambda>_.
     bnd (require (once_key t = None \<or> once_key t \<notin> once_key ` set ts)
            (PgError CodeUnique ''ledger_transactions_source_once_key'')) (\<lambda>_.
     bnd (modify (\<lambda>s. s\<lparr>transactions := ts @ [t\<lparr>tr_id := i\<rparr>]\<rparr>)) (\<lambda>_. ret i)))))))"

text \<open>One row of the batch insert of entries, with the constraints checked row by row.\<close>

definition insert_entry :: "(nat \<Rightarrow> uuid) \<Rightarrow> entry_row \<Rightarrow> (err, ledger_db, unit) eff" where
  "insert_entry gen e =
     bnd (draw_id gen) (\<lambda>i.
     bnd (require (numeric_20_2 (er_amount e)) (PgError CodeNumeric '''')) (\<lambda>_.
     bnd (require ((er_dir e = Debit \<or> er_dir e = Credit) \<and> 0 < er_amount e)
            (PgError CodeCheck '''')) (\<lambda>_.
     bnd (gets (\<lambda>s. i \<notin> er_id ` set (entries s))) (\<lambda>fresh.
     bnd (require fresh (PgError CodeUnique ''ledger_entries_pkey'')) (\<lambda>_.
     bnd (gets (\<lambda>s. er_transaction e \<in> tr_id ` set (transactions s) \<and>
                    er_account e \<in> ar_id ` set (accounts s))) (\<lambda>fk.
     bnd (require fk (PgError CodeForeignKey '''')) (\<lambda>_.
       modify (\<lambda>s. s\<lparr>entries := entries s @ [e\<lparr>er_id := i\<rparr>]\<rparr>))))))))"

definition InsertTransaction ::
  "decimal_pkg \<Rightarrow> (nat \<Rightarrow> uuid) \<Rightarrow> transaction_row \<Rightarrow> entry_row list \<Rightarrow> (err, ledger_db, uuid) eff" where
  "InsertTransaction D gen t es =
     bnd (require (es \<noteq> []) (Plain ''ledger: transaction without entries'')) (\<lambda>_.
     bnd (for_each es (\<lambda>e. lift_sum (Check D (er_amount e)))) (\<lambda>_.
     bnd (mapped (insert_transaction gen t)) (\<lambda>i.
     bnd (mapped (for_each (map (\<lambda>e. e\<lparr>er_transaction := i\<rparr>) es) (insert_entry gen))) (\<lambda>_.
       ret i))))"

section \<open>The deferred triggers\<close>

text \<open>
  \<open>assert_ledger_balanced\<close>: at the commit, every transaction has at least two entries and as
  much debit as credit. The trigger looks at the transactions of the current database
  transaction; the older ones passed it when they were committed, and transactions and entries
  are append-only, so it is stated for all of them.
\<close>

definition txn_total :: "ledger_db \<Rightarrow> direction \<Rightarrow> uuid \<Rightarrow> decimal" where
  "txn_total s d i =
     sum_list (map er_amount (filter (\<lambda>e. er_transaction e = i \<and> er_dir e = d) (entries s)))"

definition txn_balanced :: "ledger_db \<Rightarrow> uuid \<Rightarrow> bool" where
  "txn_balanced s i \<longleftrightarrow>
     2 \<le> length (filter (\<lambda>e. er_transaction e = i) (entries s)) \<and>
     txn_total s Debit i = txn_total s Credit i"

definition ledger_commit :: "ledger_db \<Rightarrow> err option" where
  "ledger_commit s =
     (if list_all (\<lambda>t. txn_balanced s (tr_id t)) (transactions s) \<and>
         list_all (\<lambda>e. txn_balanced s (er_transaction e)) (entries s)
      then None else Some (PgError CodeCheck ''''))"

section \<open>Translated errors\<close>

lemma mapErr_simps [simp]:
  "mapErr (PgError CodeUnique n) = Wrapped ''constraint'' [ErrDuplicate, PgError CodeUnique n]"
  "mapErr (PgError CodeForeignKey n) = Wrapped ''constraint'' [ErrForeignKey, PgError CodeForeignKey n]"
  "mapErr (PgError CodeCheck n) = Wrapped ''constraint'' [ErrCheck, PgError CodeCheck n]"
  "mapErr (PgError CodeNumeric n) = PgError CodeNumeric n"
  "mapErr (PgError CodeText n) = PgError CodeText n"
  by (simp_all add: mapErr_def ConstraintErrors_Map_def AsViolation_def constraintErrs_def)

lemmas sentinel_defs = ErrDuplicate_def ErrForeignKey_def ErrCheck_def ErrInsufficientBalance_def
  ErrBalanceConstraint_def ErrDuplicatePosting_def ErrUserNotFound_def ErrInvalidPosting_def
  ErrHoldExists_def ErrHoldCaptured_def ErrHoldReleased_def ErrPrecision_def New_def Newf_def spec_message_def

section \<open>What the statements do\<close>

lemma wp_mapped [wp_simps]: "wp (mapped m) Q E = (\<lambda>s. wp m Q (\<lambda>e _. E (mapErr e) s) s)"
  by (simp add: mapped_def wp_simps)

lemma wp_draw_id [wp_simps]:
  "wp (draw_id gen) Q E = (\<lambda>s. Q (gen (drawn s)) (s\<lparr>drawn := Suc (drawn s)\<rparr>))"
  by (rule ext) (simp add: wp_def draw_id_def)

text \<open>Rows of accounts that satisfy the table's own constraints.\<close>

definition shaped :: "account_row \<Rightarrow> bool" where
  "shaped a \<longleftrightarrow> owner_shape (ar_type a) (ar_owner_user a) (ar_owner_ref a)"

definition wf_accounts :: "ledger_db \<Rightarrow> bool" where
  "wf_accounts s \<longleftrightarrow>
     distinct (map ar_id (accounts s)) \<and> distinct (map owner_key (accounts s)) \<and>
     (\<forall>a \<in> set (accounts s). shaped a)"

text \<open>Accounts were opened at balance zero; nothing else has changed.\<close>

definition opened :: "ledger_db \<Rightarrow> ledger_db \<Rightarrow> bool" where
  "opened s t \<longleftrightarrow>
     (\<exists>new. accounts t = accounts s @ new \<and> (\<forall>a \<in> set new. ar_balance a = 0)) \<and>
     transactions t = transactions s \<and> entries t = entries s \<and> holds t = holds s \<and>
     users t = users s \<and> order_ids t = order_ids s \<and> drawn s \<le> drawn t"

lemma opened_refl [simp]: "opened s s"
  by (simp add: opened_def)

lemma opened_trans: "opened s t \<Longrightarrow> opened t u \<Longrightarrow> opened s u"
  by (auto simp: opened_def)

lemma opened_accounts: "opened s t \<Longrightarrow> set (accounts s) \<subseteq> set (accounts t)"
  by (auto simp: opened_def)

lemma opened_owner_key: "opened s t \<Longrightarrow> k \<in> owner_key ` set (accounts s) \<Longrightarrow> k \<in> owner_key ` set (accounts t)"
  using opened_accounts by blast

lemma wf_accounts_drawn [simp]: "wf_accounts (s\<lparr>drawn := n\<rparr>) = wf_accounts s"
  by (simp add: wf_accounts_def)

definition key_row :: "uuid \<Rightarrow> account_key \<Rightarrow> account_row" where
  "key_row i k = \<lparr>ar_id = i, ar_type = k_type k, ar_owner_user = k_owner_user k,
     ar_owner_ref = k_owner_ref k, ar_balance = 0\<rparr>"

lemma key_row_sel [simp]:
  "ar_id (key_row i k) = i" "owner_key (key_row i k) = key_owner k" "ar_balance (key_row i k) = 0"
  "shaped (key_row i k) = owner_shape (k_type k) (k_owner_user k) (k_owner_ref k)"
  by (simp_all add: key_row_def owner_key_def key_owner_def shaped_def)

lemma insert_account_spec:
  assumes "wf_accounts s"
  shows "wp (insert_account gen k)
    (\<lambda>_ t. wf_accounts t \<and> opened s t \<and> key_owner k \<in> owner_key ` set (accounts t))
    (\<lambda>_ _. True) s"
proof -
  let ?t = "s\<lparr>drawn := Suc (drawn s), accounts := accounts s @ [key_row (gen (drawn s)) k]\<rparr>"
  have opened: "opened s ?t" "opened s (s\<lparr>drawn := Suc (drawn s)\<rparr>)" by (simp_all add: opened_def)
  have "wf_accounts ?t" if "owner_shape (k_type k) (k_owner_user k) (k_owner_ref k)"
    "key_owner k \<notin> owner_key ` set (accounts s)" "gen (drawn s) \<notin> ar_id ` set (accounts s)"
    using assms that by (simp add: wf_accounts_def)
  with opened assms show ?thesis
    unfolding insert_account_def key_row_def [symmetric] by (simp add: wp_simps)
qed

lemma insert_accounts_spec:
  assumes "wf_accounts s"
  shows "wp (for_each ks (insert_account gen))
    (\<lambda>_ t. wf_accounts t \<and> opened s t \<and> key_owner ` set ks \<subseteq> owner_key ` set (accounts t))
    (\<lambda>_ _. True) s"
  using assms
proof (induction ks arbitrary: s)
  case Nil
  then show ?case by (simp add: wp_simps)
next
  case (Cons k ks)
  have "wp (insert_account gen k)
      (\<lambda>_. wp (for_each ks (insert_account gen))
        (\<lambda>_ t. wf_accounts t \<and> opened s t \<and> key_owner ` set (k # ks) \<subseteq> owner_key ` set (accounts t))
        (\<lambda>_ _. True)) (\<lambda>_ _. True) s"
  proof (rule wp_mono [OF insert_account_spec [OF Cons.prems]])
    fix t
    assume t: "wf_accounts t \<and> opened s t \<and> key_owner k \<in> owner_key ` set (accounts t)"
    then show "wp (for_each ks (insert_account gen))
        (\<lambda>_ t. wf_accounts t \<and> opened s t \<and> key_owner ` set (k # ks) \<subseteq> owner_key ` set (accounts t))
        (\<lambda>_ _. True) t"
      by (intro wp_mono [OF Cons.IH [of t]]) (auto intro: opened_trans opened_owner_key)
  qed simp
  then show ?case by (simp add: wp_simps)
qed

lemma EnsureAccounts_spec:
  assumes "wf_accounts s"
  shows "wp (EnsureAccounts gen ks)
    (\<lambda>_ t. wf_accounts t \<and> opened s t \<and> key_owner ` set ks \<subseteq> owner_key ` set (accounts t) \<and>
       owners_known (length (accounts s)) t)
    (\<lambda>_ t. t = s) s"
  using assms
  by (auto simp: EnsureAccounts_def wp_simps owners_known_def intro!: wp_mono [OF insert_accounts_spec])

text \<open>Writing balances back.\<close>

definition put_balances :: "uuid set \<Rightarrow> (uuid \<Rightarrow> decimal) \<Rightarrow> account_row list \<Rightarrow> account_row list" where
  "put_balances ids f as = update_rows (\<lambda>a. ar_id a \<in> ids) (\<lambda>a. a\<lparr>ar_balance := f (ar_id a)\<rparr>) as"

definition balance_fits :: "ledger_db \<Rightarrow> uuid \<Rightarrow> decimal \<Rightarrow> bool" where
  "balance_fits s i b \<longleftrightarrow>
     two_decimals b \<and> numeric_20_2 b \<and>
     (\<forall>a \<in> set (accounts s). ar_id a = i \<longrightarrow> ar_owner_user a = None \<or> 0 \<le> b) \<and>
     rows_affected (\<lambda>a. ar_id a = i) (accounts s) = 1"

definition overdrawn :: "ledger_db \<Rightarrow> uuid \<Rightarrow> decimal \<Rightarrow> bool" where
  "overdrawn s i b \<longleftrightarrow> (\<exists>a \<in> set (accounts s). ar_id a = i \<and> ar_owner_user a \<noteq> None \<and> b < 0)"

text \<open>Why writing balances back fails: one does not fit; a CHECK error means an overdraft.\<close>

definition balance_refused :: "ledger_db \<Rightarrow> uuid set \<Rightarrow> (uuid \<Rightarrow> decimal) \<Rightarrow> err \<Rightarrow> bool" where
  "balance_refused s ids f e \<longleftrightarrow>
     (\<exists>i \<in> ids. \<not> balance_fits s i (f i)) \<and>
     (errors_Is e ErrCheck \<longrightarrow> (\<exists>i \<in> ids. overdrawn s i (f i)))"

lemma put_balances_ids [simp]: "map ar_id (put_balances ids f as) = map ar_id as"
  by (simp add: put_balances_def row_simps)

lemma put_balances_owner [simp]: "map owner_key (put_balances ids f as) = map owner_key as"
  by (simp add: put_balances_def row_simps owner_key_def)

lemma set_put_balances:
  "set (put_balances ids f as) = (\<lambda>a. if ar_id a \<in> ids then a\<lparr>ar_balance := f (ar_id a)\<rparr> else a) ` set as"
  by (simp add: put_balances_def set_update_rows)

lemma rows_affected_put [simp]:
  "rows_affected (\<lambda>a. ar_id a = i) (put_balances ids f as) = rows_affected (\<lambda>a. ar_id a = i) as"
  unfolding put_balances_def by (rule rows_affected_update) simp

lemma put_balances_step:
  "put_balances ids f (update_rows (\<lambda>a. ar_id a = i) (\<lambda>a. a\<lparr>ar_balance := f i\<rparr>) as) =
   put_balances (insert i ids) f as"
  by (induction as) (auto simp: put_balances_def)

lemma balance_fits_step:
  "balance_fits (s\<lparr>accounts := update_rows (\<lambda>a. ar_id a = i) (\<lambda>a. a\<lparr>ar_balance := c\<rparr>) (accounts s)\<rparr>) j b =
   balance_fits s j b"
proof -
  let ?upd = "update_rows (\<lambda>a. ar_id a = i) (\<lambda>a. a\<lparr>ar_balance := c\<rparr>) (accounts s)"
  have "rows_affected (\<lambda>a. ar_id a = j) ?upd = rows_affected (\<lambda>a. ar_id a = j) (accounts s)"
    by (rule rows_affected_update) simp
  moreover have "(\<forall>a \<in> set ?upd. ar_id a = j \<longrightarrow> ar_owner_user a = None \<or> 0 \<le> b) \<longleftrightarrow>
      (\<forall>a \<in> set (accounts s). ar_id a = j \<longrightarrow> ar_owner_user a = None \<or> 0 \<le> b)"
    unfolding set_update_rows ball_simps by (rule ball_cong) simp_all
  ultimately show ?thesis by (simp add: balance_fits_def)
qed

lemma overdrawn_step:
  "overdrawn (s\<lparr>accounts := update_rows (\<lambda>a. ar_id a = i) (\<lambda>a. a\<lparr>ar_balance := c\<rparr>) (accounts s)\<rparr>) j b =
   overdrawn s j b"
  by (simp add: overdrawn_def set_update_rows del: if_image_distrib) (auto split: if_splits)

lemma wf_put_balances:
  "wf_accounts s \<Longrightarrow> wf_accounts (s\<lparr>accounts := put_balances ids f (accounts s)\<rparr>)"
  by (auto simp: wf_accounts_def set_put_balances shaped_def)

context decimal_laws
begin

text \<open>Writing balances back succeeds exactly if every one of them fits its account.\<close>

lemma set_one_spec:
  "wp (let bal = f i in
       bnd (lift_sum (Check D bal)) (\<lambda>_.
       bnd (mapped (update_balance i bal)) (\<lambda>n.
         require (n = 1) (Plain ''ledger: account of a balance does not exist''))))
    (\<lambda>_ t. t = s\<lparr>accounts := update_rows (\<lambda>a. ar_id a = i) (\<lambda>a. a\<lparr>ar_balance := f i\<rparr>) (accounts s)\<rparr> \<and>
       balance_fits s i (f i))
    (\<lambda>e _. balance_refused s {i} f e) s"
  by (auto simp: wp_simps Check_cases update_balance_def balance_fits_def balance_refused_def overdrawn_def
      sentinel_defs)

lemma set_each_spec:
  "wp (for_each ids (\<lambda>i. let bal = f i in
       bnd (lift_sum (Check D bal)) (\<lambda>_.
       bnd (mapped (update_balance i bal)) (\<lambda>n.
         require (n = 1) (Plain ''ledger: account of a balance does not exist'')))))
    (\<lambda>_ t. t = s\<lparr>accounts := put_balances (set ids) f (accounts s)\<rparr> \<and> (\<forall>i \<in> set ids. balance_fits s i (f i)))
    (\<lambda>e _. balance_refused s (set ids) f e) s"
proof (induction ids arbitrary: s)
  case Nil
  then show ?case by (simp add: wp_simps put_balances_def update_rows_def)
next
  case (Cons i ids)
  let ?s = "s\<lparr>accounts := update_rows (\<lambda>a. ar_id a = i) (\<lambda>a. a\<lparr>ar_balance := f i\<rparr>) (accounts s)\<rparr>"
  show ?case
    unfolding for_each.simps wp_bnd
  proof (rule wp_mono [OF set_one_spec], elim conjE)
    fix t
    assume t: "t = ?s" and fits: "balance_fits s i (f i)"
    show "wp (for_each ids (\<lambda>i. let bal = f i in
         bnd (lift_sum (Check D bal)) (\<lambda>_.
         bnd (mapped (update_balance i bal)) (\<lambda>n.
           require (n = 1) (Plain ''ledger: account of a balance does not exist'')))))
      (\<lambda>_ u. u = s\<lparr>accounts := put_balances (set (i # ids)) f (accounts s)\<rparr> \<and>
         (\<forall>i \<in> set (i # ids). balance_fits s i (f i)))
      (\<lambda>e _. balance_refused s (set (i # ids)) f e) t"
      unfolding t
      by (rule wp_mono [OF Cons.IH])
        (auto simp: put_balances_step balance_fits_step overdrawn_step fits balance_refused_def)
  qed (auto simp: balance_refused_def)
qed

lemma SetBalances_spec:
  "wp (SetBalances D bs)
    (\<lambda>_ t. t = s\<lparr>accounts := put_balances (fst ` set bs) (\<lambda>i. the (map_of bs i)) (accounts s)\<rparr> \<and>
       (\<forall>i \<in> fst ` set bs. balance_fits s i (the (map_of bs i))))
    (\<lambda>e _. balance_refused s (fst ` set bs) (\<lambda>i. the (map_of bs i)) e) s"
  unfolding SetBalances_def using set_each_spec [of "sort (map fst bs)" "\<lambda>i. the (map_of bs i)" s] by simp

end

text \<open>A transaction and its entries.\<close>

definition entry_core :: "entry_row \<Rightarrow> uuid \<times> uuid \<times> direction \<times> decimal" where
  "entry_core e = (er_transaction e, er_account e, er_dir e, er_amount e)"

definition appended :: "ledger_db \<Rightarrow> entry_row list \<Rightarrow> ledger_db \<Rightarrow> bool" where
  "appended s es t \<longleftrightarrow>
     (\<exists>new. entries t = entries s @ new \<and> map entry_core new = map entry_core es) \<and>
     transactions t = transactions s \<and> accounts t = accounts s \<and> holds t = holds s \<and>
     users t = users s \<and> order_ids t = order_ids s \<and> drawn s \<le> drawn t \<and>
     (distinct (map er_id (entries s)) \<longrightarrow> distinct (map er_id (entries t))) \<and>
     (\<forall>e \<in> set es. 0 < er_amount e \<and> (er_dir e = Debit \<or> er_dir e = Credit) \<and>
        er_transaction e \<in> tr_id ` set (transactions s) \<and> er_account e \<in> ar_id ` set (accounts s))"

lemma appended_trans:
  assumes "appended s es t" and "appended t es' u"
  shows "appended s (es @ es') u"
proof -
  have "distinct (map er_id (entries s)) \<longrightarrow> distinct (map er_id (entries u))"
    using assms by (simp add: appended_def)
  moreover obtain new new' where "entries t = entries s @ new" "entries u = entries t @ new'"
    "map entry_core new = map entry_core es" "map entry_core new' = map entry_core es'"
    using assms by (auto simp: appended_def)
  then have "\<exists>new. entries u = entries s @ new \<and> map entry_core new = map entry_core (es @ es')"
    by (intro exI [of _ "new @ new'"]) simp
  ultimately show ?thesis using assms by (auto simp: appended_def simp del: map_append)
qed

lemma insert_entries_spec:
  "wp (for_each es (insert_entry gen)) (\<lambda>_. appended s es) (\<lambda>_ _. True) s"
proof (induction es arbitrary: s)
  case Nil
  then show ?case by (simp add: wp_simps appended_def)
next
  case (Cons e es)
  have "wp (insert_entry gen e) (\<lambda>_. appended s [e]) (\<lambda>_ _. True) s"
    by (auto simp: insert_entry_def wp_simps appended_def entry_core_def)
  then have "wp (insert_entry gen e) (\<lambda>_. wp (for_each es (insert_entry gen)) (\<lambda>_. appended s (e # es)) (\<lambda>_ _. True))
      (\<lambda>_ _. True) s"
  proof (rule wp_mono)
    fix t
    assume t: "appended s [e] t"
    show "wp (for_each es (insert_entry gen)) (\<lambda>_. appended s (e # es)) (\<lambda>_ _. True) t"
    proof (rule wp_mono [OF Cons.IH])
      fix u
      assume "appended t es u"
      with t show "appended s (e # es) u"
        using appended_trans [of s "[e]" t es u] by simp
    qed simp
  qed simp
  then show ?case by (simp add: wp_simps)
qed

definition recorded :: "ledger_db \<Rightarrow> transaction_row \<Rightarrow> entry_row list \<Rightarrow> uuid \<Rightarrow> ledger_db \<Rightarrow> bool" where
  "recorded s t es i u \<longleftrightarrow>
     i \<notin> tr_id ` set (transactions s) \<and> transaction_checks t \<and>
     (once_key t = None \<or> once_key t \<notin> once_key ` set (transactions s)) \<and>
     transactions u = transactions s @ [t\<lparr>tr_id := i\<rparr>] \<and>
     (\<exists>new. entries u = entries s @ new \<and> map entry_core new = map (\<lambda>e. entry_core (e\<lparr>er_transaction := i\<rparr>)) es) \<and>
     accounts u = accounts s \<and> holds u = holds s \<and> users u = users s \<and> order_ids u = order_ids s \<and>
     drawn s \<le> drawn u \<and>
     (distinct (map er_id (entries s)) \<longrightarrow> distinct (map er_id (entries u))) \<and>
     (\<forall>e \<in> set es. 0 < er_amount e \<and> (er_dir e = Debit \<or> er_dir e = Credit) \<and>
        er_account e \<in> ar_id ` set (accounts s))"

lemma wp_checks: "wp (for_each es (\<lambda>e. lift_sum (c e))) (\<lambda>_ t. t = s) (\<lambda>_ t. t = s) s"
  by (rule wp_for_each [of "\<lambda>t. t = s"]) (auto simp: wp_simps split: sum.split)

lemma InsertTransaction_spec:
  "wp (InsertTransaction D gen t es) (\<lambda>i. recorded s t es i) (\<lambda>_ _. True) s"
proof -
  have ins: "wp (insert_transaction gen t)
      (\<lambda>i u. i \<notin> tr_id ` set (transactions s) \<and> transaction_checks t \<and>
         (once_key t = None \<or> once_key t \<notin> once_key ` set (transactions s)) \<and>
         u = s\<lparr>drawn := Suc (drawn s), transactions := transactions s @ [t\<lparr>tr_id := i\<rparr>]\<rparr>) (\<lambda>_ _. True) s"
    by (auto simp: insert_transaction_def wp_simps)
  have "wp (insert_transaction gen t)
      (\<lambda>i. wp (for_each (map (\<lambda>e. e\<lparr>er_transaction := i\<rparr>) es) (insert_entry gen))
         (\<lambda>_. recorded s t es i) (\<lambda>_ _. True)) (\<lambda>_ _. True) s"
    by (rule wp_mono [OF ins], rule wp_mono [OF insert_entries_spec])
      (auto simp: appended_def recorded_def)
  then have "wp (for_each es (\<lambda>e. lift_sum (Check D (er_amount e))))
      (\<lambda>_. wp (insert_transaction gen t)
        (\<lambda>i. wp (for_each (map (\<lambda>e. e\<lparr>er_transaction := i\<rparr>) es) (insert_entry gen))
           (\<lambda>_. recorded s t es i) (\<lambda>_ _. True)) (\<lambda>_ _. True)) (\<lambda>_ _. True) s"
    by (intro wp_mono [OF wp_checks]) auto
  then show ?thesis by (simp add: InsertTransaction_def wp_simps)
qed

section \<open>Errors of the statements\<close>

text \<open>No statement returns one of the service's own errors.\<close>

definition repo_error :: "err \<Rightarrow> bool" where
  "repo_error e \<longleftrightarrow>
     list_all (\<lambda>t. \<not> errors_Is e t)
       [ErrInsufficientBalance, ErrBalanceConstraint, ErrDuplicatePosting, ErrHoldExists, ErrHoldCaptured,
        ErrHoldReleased, ErrUserNotFound, ErrInvalidPosting]"

lemma repo_error_simps [simp]:
  "repo_error (Plain ''ledger: account of a balance does not exist'')"
  "repo_error (Plain ''ledger: transaction without entries'')"
  "repo_error (Plain ''ledger: accounts not locked'')"
  "repo_error (Wrapped ''precision'' [ErrPrecision])"
  "repo_error (mapErr (PgError CodeUnique n))" "repo_error (mapErr (PgError CodeForeignKey n))"
  "repo_error (mapErr (PgError CodeCheck n))" "repo_error (mapErr (PgError CodeNumeric n))"
  "repo_error (mapErr (PgError CodeText n))"
  by (simp_all add: repo_error_def sentinel_defs)

lemma Check_repo_error: "Check D d = Inl e \<Longrightarrow> repo_error e"
  by (auto simp: Check_def split: if_splits)

lemma SetBalances_error: "wp (SetBalances D bs) (\<lambda>_ _. True) (\<lambda>e _. repo_error e) s"
  unfolding SetBalances_def
  by (rule wp_for_each_err)
    (auto simp: wp_simps update_balance_def simp del: mapErr_simps dest: Check_repo_error split: sum.split)

lemma insert_entries_error:
  "wp (for_each es (insert_entry gen)) (\<lambda>_ _. True) (\<lambda>e _. repo_error (mapErr e)) s"
  by (rule wp_for_each_err) (simp add: insert_entry_def wp_simps del: mapErr_simps)

lemma InsertTransaction_error: "wp (InsertTransaction D gen t es) (\<lambda>_ _. True) (\<lambda>e _. repo_error e) s"
proof -
  have entries: "wp (for_each (map (\<lambda>e. e\<lparr>er_transaction := i\<rparr>) es) (insert_entry gen)) (\<lambda>_ _. True)
      (\<lambda>e _. repo_error (mapErr e)) u" for i u
    by (rule insert_entries_error)
  have checks: "wp (for_each es (\<lambda>e. lift_sum (Check D (er_amount e)))) (\<lambda>_ _. True) (\<lambda>e _. repo_error e) s"
    by (rule wp_for_each_err) (auto simp: wp_simps dest: Check_repo_error split: sum.split)
  have "wp (insert_transaction gen t)
      (\<lambda>i u. wp (for_each (map (\<lambda>e. e\<lparr>er_transaction := i\<rparr>) es) (insert_entry gen)) (\<lambda>_ _. True)
         (\<lambda>e _. repo_error (mapErr e)) u) (\<lambda>e _. repo_error (mapErr e)) v" for v
    using entries by (simp add: insert_transaction_def wp_simps del: mapErr_simps)
  then show ?thesis
    using checks by (auto simp: InsertTransaction_def wp_simps elim!: wp_mono)
qed

lemma EnsureAccounts_error: "wp (EnsureAccounts gen ks) (\<lambda>_ _. True) (\<lambda>e _. repo_error e) s"
proof -
  have "wp (for_each ks (insert_account gen)) (\<lambda>_ _. True) (\<lambda>e _. repo_error (mapErr e)) t" for t
    by (rule wp_for_each_err) (simp add: insert_account_def wp_simps del: mapErr_simps)
  then show ?thesis
    by (auto simp: EnsureAccounts_def wp_simps simp del: mapErr_simps elim!: wp_mono)
qed

section \<open>When the statements succeed\<close>

text \<open>The generator gives identifiers that are not in use and does not repeat itself.\<close>

definition ids_fresh :: "(nat \<Rightarrow> uuid) \<Rightarrow> ledger_db \<Rightarrow> bool" where
  "ids_fresh gen s \<longleftrightarrow>
     inj gen \<and>
     (\<forall>n \<ge> drawn s. gen n \<notin> ar_id ` set (accounts s) \<and> gen n \<notin> tr_id ` set (transactions s) \<and>
        gen n \<notin> er_id ` set (entries s) \<and> gen n \<notin> hr_id ` set (holds s))"

lemma ids_fresh_draw: "ids_fresh gen s \<Longrightarrow> ids_fresh gen (s\<lparr>drawn := Suc (drawn s)\<rparr>)"
  by (simp add: ids_fresh_def)

lemma ids_fresh_next:
  assumes "ids_fresh gen s"
  shows "gen (drawn s) \<notin> ar_id ` set (accounts s)" "gen (drawn s) \<notin> tr_id ` set (transactions s)"
    "gen (drawn s) \<notin> er_id ` set (entries s)" "gen (drawn s) \<notin> hr_id ` set (holds s)"
  using assms by (auto simp: ids_fresh_def)

lemma gen_later: "inj gen \<Longrightarrow> Suc m \<le> n \<Longrightarrow> gen n \<noteq> gen m"
  by (auto dest: injD)

lemma ids_fresh_insert:
  assumes "ids_fresh gen s"
  shows "ar_id a = gen (drawn s) \<Longrightarrow> ids_fresh gen (s\<lparr>drawn := Suc (drawn s), accounts := accounts s @ [a]\<rparr>)"
    and "tr_id t = gen (drawn s) \<Longrightarrow> ids_fresh gen (s\<lparr>drawn := Suc (drawn s), transactions := transactions s @ [t]\<rparr>)"
    and "er_id e = gen (drawn s) \<Longrightarrow> ids_fresh gen (s\<lparr>drawn := Suc (drawn s), entries := entries s @ [e]\<rparr>)"
    and "hr_id h = gen (drawn s) \<Longrightarrow> ids_fresh gen (s\<lparr>drawn := Suc (drawn s), holds := holds s @ [h]\<rparr>)"
  using assms unfolding ids_fresh_def by (auto dest: gen_later)

lemma ids_fresh_accounts:
  "ids_fresh gen s \<Longrightarrow> ar_id ` set as = ar_id ` set (accounts s) \<Longrightarrow> ids_fresh gen (s\<lparr>accounts := as\<rparr>)"
  by (simp add: ids_fresh_def)

definition key_usable :: "ledger_db \<Rightarrow> account_key \<Rightarrow> bool" where
  "key_usable s k \<longleftrightarrow>
     owner_shape (k_type k) (k_owner_user k) (k_owner_ref k) \<and> text_param (k_owner_ref k) \<and>
     pred_option (\<lambda>u. u \<in> set (users s)) (k_owner_user k)"

lemma EnsureAccounts_ok:
  assumes fresh: "ids_fresh gen s" and ok: "\<forall>k \<in> set ks. key_usable s k"
  shows "wp (EnsureAccounts gen ks) (\<lambda>_. ids_fresh gen) (\<lambda>_ _. False) s"
proof -
  let ?n = "length (accounts s)"
  let ?I = "\<lambda>t. ids_fresh gen t \<and> users t = users s \<and> ?n \<le> length (accounts t) \<and> owners_known ?n t"
  have step: "wp (insert_account gen k) (\<lambda>_. ?I) (\<lambda>_ _. False) t" if k: "k \<in> set ks" and t: "?I t" for k t
  proof -
    have shape: "owner_shape (k_type k) (k_owner_user k) (k_owner_ref k)"
      and owner: "pred_option (\<lambda>u. u \<in> set (users s)) (k_owner_user k)"
      using ok k by (auto simp: key_usable_def)
    have "ids_fresh gen (t\<lparr>drawn := Suc (drawn t), accounts := accounts t @ [key_row (gen (drawn t)) k]\<rparr>)"
      using t by (intro ids_fresh_insert) simp_all
    moreover have "owners_known ?n (t\<lparr>drawn := Suc (drawn t), accounts := accounts t @ [key_row (gen (drawn t)) k]\<rparr>)"
      using t owner by (auto simp: owners_known_def key_row_def)
    moreover have "owners_known ?n (t\<lparr>drawn := Suc (drawn t)\<rparr>)" using t by (auto simp: owners_known_def)
    ultimately show ?thesis
      using t shape ids_fresh_draw ids_fresh_next(1) unfolding insert_account_def key_row_def [symmetric]
      by (simp add: wp_simps)
  qed
  have "wp (for_each ks (insert_account gen)) (\<lambda>_. ?I) (\<lambda>_ _. False) s"
    by (rule wp_for_each) (use fresh step in \<open>auto simp: owners_known_def\<close>)
  then have "wp (for_each ks (insert_account gen)) (\<lambda>_ t. ids_fresh gen t \<and> owners_known ?n t) (\<lambda>_ _. False) s"
    by (rule wp_mono) simp_all
  then show ?thesis
    using fresh ok by (auto simp: EnsureAccounts_def wp_simps key_usable_def elim: wp_mono)
qed

lemma insert_entries_ok:
  assumes fresh: "ids_fresh gen s"
    and ok: "\<forall>e \<in> set es. numeric_20_2 (er_amount e) \<and> (er_dir e = Debit \<or> er_dir e = Credit) \<and> 0 < er_amount e \<and>
      er_transaction e \<in> tr_id ` set (transactions s) \<and> er_account e \<in> ar_id ` set (accounts s)"
  shows "wp (for_each es (insert_entry gen)) (\<lambda>_. ids_fresh gen) (\<lambda>_ _. False) s"
proof -
  let ?I = "\<lambda>t. ids_fresh gen t \<and> transactions t = transactions s \<and> accounts t = accounts s"
  have step: "wp (insert_entry gen e) (\<lambda>_. ?I) (\<lambda>_ _. False) t" if e: "e \<in> set es" and t: "?I t" for e t
  proof -
    have "ids_fresh gen (t\<lparr>drawn := Suc (drawn t), entries := entries t @ [e\<lparr>er_id := gen (drawn t)\<rparr>]\<rparr>)"
      using t by (intro ids_fresh_insert) simp_all
    with t ok e ids_fresh_next(3) show ?thesis by (simp add: insert_entry_def wp_simps)
  qed
  have "wp (for_each es (insert_entry gen)) (\<lambda>_. ?I) (\<lambda>_ _. False) s"
    by (rule wp_for_each) (use fresh step in auto)
  then show ?thesis by (rule wp_mono) simp_all
qed

definition row_usable :: "ledger_db \<Rightarrow> transaction_row \<Rightarrow> bool" where
  "row_usable s t \<longleftrightarrow>
     text_param (tr_memo t) \<and> pred_option text_param (tr_source_type t) \<and> transaction_checks t \<and>
     (once_key t = None \<or> once_key t \<notin> once_key ` set (transactions s))"

context decimal_laws
begin

lemma InsertTransaction_ok:
  assumes fresh: "ids_fresh gen s" and row: "row_usable s t" and "es \<noteq> []"
    and ok: "\<forall>e \<in> set es. two_decimals (er_amount e) \<and> numeric_20_2 (er_amount e) \<and>
      (er_dir e = Debit \<or> er_dir e = Credit) \<and> 0 < er_amount e \<and> er_account e \<in> ar_id ` set (accounts s)"
  shows "wp (InsertTransaction D gen t es) (\<lambda>_. ids_fresh gen) (\<lambda>_ _. False) s"
proof -
  let ?i = "gen (drawn s)"
  let ?s = "s\<lparr>drawn := Suc (drawn s), transactions := transactions s @ [t\<lparr>tr_id := ?i\<rparr>]\<rparr>"
  have checks: "wp (for_each es (\<lambda>e. lift_sum (Check D (er_amount e)))) (\<lambda>_ u. u = s) (\<lambda>_ _. False) s"
    by (rule wp_for_each) (use ok in \<open>auto simp: wp_simps Check_cases\<close>)
  have "ids_fresh gen ?s" using fresh by (intro ids_fresh_insert) simp_all
  then have "wp (for_each (map (\<lambda>e. e\<lparr>er_transaction := ?i\<rparr>) es) (insert_entry gen)) (\<lambda>_. ids_fresh gen) (\<lambda>_ _. False) ?s"
    by (rule insert_entries_ok) (use ok in auto)
  then have "wp (insert_transaction gen t)
      (\<lambda>i. wp (for_each (map (\<lambda>e. e\<lparr>er_transaction := i\<rparr>) es) (insert_entry gen)) (\<lambda>_. ids_fresh gen) (\<lambda>_ _. False))
      (\<lambda>_ _. False) s"
    using row ids_fresh_next(2) [OF fresh] by (simp add: insert_transaction_def wp_simps row_usable_def)
  then have "wp (for_each es (\<lambda>e. lift_sum (Check D (er_amount e))))
      (\<lambda>_. wp (insert_transaction gen t)
        (\<lambda>i. wp (for_each (map (\<lambda>e. e\<lparr>er_transaction := i\<rparr>) es) (insert_entry gen)) (\<lambda>_. ids_fresh gen) (\<lambda>_ _. False))
        (\<lambda>_ _. False)) (\<lambda>_ _. False) s"
    by (intro wp_mono [OF checks]) simp_all
  then show ?thesis
    using assms(3) by (simp add: InsertTransaction_def wp_simps)
qed

end

end
