(* ===== verification/Ledger_Post.thy ===== *)
theory Ledger_Post
  imports Ledger_Store
begin

text \<open>
  \<open>panel/internal/module/ledger/service/post.go\<close> and the principal of \<open>service.go\<close>: locking
  the accounts of a posting, checking and writing the new balances, and appending the
  transaction with its entries. The invariant \<open>books\<close> says that the tables are a set of
  double-entry books: every cached balance is the signed sum of the account's entries, no user
  account is negative, every transaction is balanced.
\<close>

section \<open>The principal of a request\<close>

definition principal_of :: "ctx \<Rightarrow> err + principal" where
  "principal_of c =
     (case ctx_principal c of
        None \<Rightarrow> Inl (New Unauthorized)
      | Some p \<Rightarrow> if UserID p = uuid_Nil then Inl (New Unauthorized) else Inr p)"

definition actorOf :: "ctx \<Rightarrow> string \<times> uuid option" where
  "actorOf c =
     (case ctx_principal c of
        None \<Rightarrow> (''system'', None)
      | Some p \<Rightarrow>
          if UserID p = uuid_Nil then (''system'', None)
          else if Audience p = AudienceAdmin then (''admin'', Some (UserID p))
          else (''user'', Some (UserID p)))"

section \<open>Locking accounts\<close>

definition keyOf :: "account_ref \<Rightarrow> account_key" where
  "keyOf ref =
     (if UserOwned (acc_type ref)
      then \<lparr>k_type = acc_type ref, k_owner_user = Some (acc_user ref), k_owner_ref = ''''\<rparr>
      else \<lparr>k_type = acc_type ref, k_owner_user = None, k_owner_ref = acc_ref ref\<rparr>)"

definition refOf :: "account_row \<Rightarrow> account_ref" where
  "refOf a =
     (case ar_owner_user a of
        Some u \<Rightarrow> UserAccount (ar_type a) u
      | None \<Rightarrow> PlatformAccount (ar_type a) (ar_owner_ref a))"

definition locked :: "account_row \<Rightarrow> locked_account" where
  "locked row = \<lparr>la_id = ar_id row, la_type = ar_type row, la_balance = ar_balance row\<rparr>"

definition lockAccounts ::
  "(nat \<Rightarrow> uuid) \<Rightarrow> account_ref list \<Rightarrow> (err, ledger_db, account_ref \<rightharpoonup> locked_account) eff" where
  "lockAccounts gen refs =
     (let keys = map keyOf (sortedRefs refs) in
      bnd (handle (EnsureAccounts gen keys)
             (\<lambda>e. fail (if errors_Is e ErrForeignKey then ErrUserNotFound else e))) (\<lambda>_.
      bnd (LockAccounts keys) (\<lambda>rows.
        if length rows \<noteq> length keys then fail (Plain ''ledger: accounts not locked'')
        else ret (fold (\<lambda>row m. m(refOf row \<mapsto> locked row)) rows Map.empty))))"

section \<open>Posting\<close>

definition setBalancesErr :: "err \<Rightarrow> err" where
  "setBalancesErr e =
     (if errors_Is e ErrCheck
      then Wrapped ''balance'' [ErrBalanceConstraint, ErrInsufficientBalance, e] else e)"

definition transaction_of :: "ctx \<Rightarrow> posting \<Rightarrow> transaction_row" where
  "transaction_of c p =
     \<lparr>tr_id = uuid_Nil, tr_kind = p_kind p,
      tr_source_type = (if p_source_type p \<noteq> '''' then Some (p_source_type p) else None),
      tr_source_id = (if p_source_type p \<noteq> '''' \<and> p_source_id p \<noteq> uuid_Nil then Some (p_source_id p) else None),
      tr_memo = p_memo p, tr_actor_kind = fst (actorOf c), tr_actor_id = snd (actorOf c)\<rparr>"

definition entry_of :: "(account_ref \<rightharpoonup> locked_account) \<Rightarrow> leg \<Rightarrow> entry_row" where
  "entry_of accs leg =
     \<lparr>er_id = uuid_Nil, er_transaction = uuid_Nil,
      er_account = la_id (case accs (leg_account leg) of Some a \<Rightarrow> a | None \<Rightarrow> locked_zero),
      er_dir = leg_dir leg, er_amount = leg_amount leg\<rparr>"

definition post :: "decimal_pkg \<Rightarrow> (nat \<Rightarrow> uuid) \<Rightarrow> ctx \<Rightarrow> posting \<Rightarrow> (err, ledger_db, uuid) eff" where
  "post D gen c p =
     bnd (if OnePerSource (p_kind p) \<and> p_source_id p \<noteq> uuid_Nil
          then TransactionExists (p_kind p) (p_source_type p) (p_source_id p) else ret False) (\<lambda>found.
     if found then fail ErrDuplicatePosting
     else
       bnd (lockAccounts gen (accountKeys (p_legs p))) (\<lambda>accs.
       bnd (lift_sum (nextBalances accs (p_legs p))) (\<lambda>newBal.
       bnd (handle (SetBalances D newBal) (\<lambda>e. fail (setBalancesErr e))) (\<lambda>_.
         handle (InsertTransaction D gen (transaction_of c p) (map (entry_of accs) (p_legs p)))
           (\<lambda>e. fail (if errors_Is e ErrDuplicate then ErrDuplicatePosting else e))))))"

definition postChecked ::
  "decimal_pkg \<Rightarrow> (nat \<Rightarrow> uuid) \<Rightarrow> ctx \<Rightarrow> posting \<Rightarrow> (err, ledger_db, uuid) eff" where
  "postChecked D gen c p = bnd (lift_sum (validatePosting D p)) (\<lambda>_. post D gen c p)"

definition Post ::
  "decimal_pkg \<Rightarrow> (nat \<Rightarrow> uuid) \<Rightarrow> ctx \<Rightarrow> posting \<Rightarrow> (err, ledger_db, uuid) eff" where
  "Post D gen c p =
     (if Dedicated (p_kind p) then fail (invalid_posting ''dedicated kind'')
      else Do ledger_commit c (\<lambda>c. postChecked D gen c p))"

section \<open>The books\<close>

text \<open>The signed sum of the entries of an account, and the balance the table shows.\<close>

definition entry_effect :: "account_type \<Rightarrow> uuid \<Rightarrow> uuid \<times> uuid \<times> direction \<times> decimal \<Rightarrow> decimal" where
  "entry_effect t i = (\<lambda>(_, a, d, m). if a = i then signedDelta t d m else 0)"

definition entries_sum :: "ledger_db \<Rightarrow> account_type \<Rightarrow> uuid \<Rightarrow> decimal" where
  "entries_sum s t i = sum_list (map (entry_effect t i \<circ> entry_core) (entries s))"

definition no_drift :: "ledger_db \<Rightarrow> bool" where
  "no_drift s \<longleftrightarrow> (\<forall>a \<in> set (accounts s). ar_balance a = entries_sum s (ar_type a) (ar_id a))"

definition no_overdraft :: "ledger_db \<Rightarrow> bool" where
  "no_overdraft s \<longleftrightarrow> (\<forall>a \<in> set (accounts s). ar_owner_user a \<noteq> None \<longrightarrow> 0 \<le> ar_balance a)"

definition exact_amounts :: "ledger_db \<Rightarrow> bool" where
  "exact_amounts s \<longleftrightarrow>
     (\<forall>a \<in> set (accounts s). two_decimals (ar_balance a) \<and> numeric_20_2 (ar_balance a)) \<and>
     (\<forall>e \<in> set (entries s). 0 < er_amount e \<and> two_decimals (er_amount e))"

definition owners_exist :: "ledger_db \<Rightarrow> bool" where
  "owners_exist s \<longleftrightarrow> (\<forall>a \<in> set (accounts s). pred_option (\<lambda>u. u \<in> set (users s)) (ar_owner_user a))"

definition entries_linked :: "ledger_db \<Rightarrow> bool" where
  "entries_linked s \<longleftrightarrow>
     distinct (map er_id (entries s)) \<and>
     (\<forall>e \<in> set (entries s). (er_dir e = Debit \<or> er_dir e = Credit) \<and>
        er_account e \<in> ar_id ` set (accounts s) \<and> er_transaction e \<in> tr_id ` set (transactions s))"

definition transactions_ok :: "ledger_db \<Rightarrow> bool" where
  "transactions_ok s \<longleftrightarrow>
     distinct (map tr_id (transactions s)) \<and>
     (\<forall>t \<in> set (transactions s). transaction_checks t \<and> txn_balanced s (tr_id t)) \<and>
     distinct (filter (\<lambda>k. k \<noteq> None) (map once_key (transactions s)))"

definition books :: "ledger_db \<Rightarrow> bool" where
  "books s \<longleftrightarrow>
     wf_accounts s \<and> owners_exist s \<and> no_overdraft s \<and> exact_amounts s \<and> no_drift s \<and>
     entries_linked s \<and> transactions_ok s"

lemmas books_defs = books_def owners_exist_def no_overdraft_def exact_amounts_def no_drift_def
  entries_linked_def transactions_ok_def

text \<open>What a client sees of an account: its row, and its balance, zero before it exists.\<close>

definition account_of :: "ledger_db \<Rightarrow> account_ref \<Rightarrow> account_row option" where
  "account_of s r = find (\<lambda>a. refOf a = r) (accounts s)"

definition balance_of :: "ledger_db \<Rightarrow> account_ref \<Rightarrow> decimal" where
  "balance_of s r = (case account_of s r of None \<Rightarrow> 0 | Some a \<Rightarrow> ar_balance a)"

section \<open>Account references\<close>

lemma refOf_inj: "shaped a \<Longrightarrow> shaped b \<Longrightarrow> refOf a = refOf b \<Longrightarrow> owner_key a = owner_key b"
  by (cases "ar_owner_user a"; cases "ar_owner_user b")
    (auto simp: refOf_def shaped_def owner_shape_def owner_key_def UserAccount_def PlatformAccount_def)

lemma owner_key_refOf: "owner_key a = owner_key b \<Longrightarrow> refOf a = refOf b"
  by (auto simp: refOf_def owner_key_def split: option.split)

lemma key_owner_refOf:
  assumes "shaped a" and "ref_ok r"
  shows "key_owner (keyOf r) = owner_key a \<longleftrightarrow> refOf a = r"
proof (cases r)
  case (fields t u x)
  with assms show ?thesis
    by (cases "ar_owner_user a")
      (auto simp: key_owner_def keyOf_def owner_key_def refOf_def ref_ok_def shaped_def owner_shape_def
        UserAccount_def PlatformAccount_def split: if_splits)
qed

lemma key_matches_refOf:
  assumes "shaped a" and "ref_ok r"
  shows "key_matches a (keyOf r) \<longleftrightarrow> refOf a = r"
proof -
  have "key_matches a (keyOf r) \<longleftrightarrow> key_owner (keyOf r) = owner_key a"
    using assms by (auto simp: key_matches_def keyOf_def key_owner_def owner_key_def split: if_splits)
  then show ?thesis using assms by (simp add: key_owner_refOf)
qed

lemma wf_distinct_refs:
  assumes "wf_accounts s"
  shows "distinct (map refOf (accounts s))"
proof -
  have "inj_on refOf (set (accounts s))"
  proof (rule inj_onI)
    fix a b
    assume "a \<in> set (accounts s)" "b \<in> set (accounts s)" "refOf a = refOf b"
    moreover from this have "owner_key a = owner_key b"
      using assms by (intro refOf_inj) (simp_all add: wf_accounts_def)
    ultimately show "a = b"
      using assms distinct_map_inj [of owner_key "accounts s" a b] by (simp add: wf_accounts_def)
  qed
  then show ?thesis using assms by (simp add: wf_accounts_def distinct_map)
qed

lemma account_of_Some:
  assumes "wf_accounts s"
  shows "account_of s r = Some a \<longleftrightarrow> a \<in> set (accounts s) \<and> refOf a = r"
proof
  assume "account_of s r = Some a"
  then show "a \<in> set (accounts s) \<and> refOf a = r" by (auto simp: account_of_def dest: find_SomeD)
next
  assume "a \<in> set (accounts s) \<and> refOf a = r"
  then show "account_of s r = Some a"
    using find_key [OF wf_distinct_refs [OF assms]] by (auto simp: account_of_def)
qed

lemma account_of_None: "account_of s r = None \<longleftrightarrow> r \<notin> refOf ` set (accounts s)"
  by (auto simp: account_of_def find_None)

section \<open>Locking\<close>

text \<open>The map of locked rows has exactly the references asked for, each with its row.\<close>

definition locked_all :: "ledger_db \<Rightarrow> account_ref set \<Rightarrow> (account_ref \<rightharpoonup> locked_account) \<Rightarrow> bool" where
  "locked_all s refs accs \<longleftrightarrow>
     dom accs = refs \<and> (\<forall>r \<in> refs. \<exists>a \<in> set (accounts s). refOf a = r \<and> accs r = Some (locked a))"

lemma LockAccounts_spec:
  assumes wf: "wf_accounts s" and ok: "\<forall>r \<in> set refs. ref_ok r" and "distinct refs"
    and present: "key_owner ` set (map keyOf refs) \<subseteq> owner_key ` set (accounts s)"
  shows "wp (LockAccounts (map keyOf refs))
    (\<lambda>rows t. t = s \<and> length rows = length refs \<and>
       locked_all s (set refs) (fold (\<lambda>row m. m(refOf row \<mapsto> locked row)) rows Map.empty))
    (\<lambda>_ _. False) s"
proof (cases "refs = []")
  case True
  then show ?thesis by (simp add: LockAccounts_def wp_simps locked_all_def)
next
  case False
  define rows where "rows = sort_key ar_id (filter (\<lambda>a. list_ex (key_matches a) (map keyOf refs)) (accounts s))"
  define accs where "accs = fold (\<lambda>row m. m(refOf row \<mapsto> locked row)) rows Map.empty"
  have shaped: "shaped a" if "a \<in> set (accounts s)" for a
    using wf that by (simp add: wf_accounts_def)
  have rows: "set rows = {a \<in> set (accounts s). refOf a \<in> set refs}"
    using ok shaped by (auto simp: rows_def list_ex_iff key_matches_refOf)
  have "distinct (map refOf (accounts s))" by (rule wf_distinct_refs [OF wf])
  then have "inj_on refOf (set rows)" and "distinct rows"
    unfolding rows by (auto simp: distinct_map rows_def distinct_sort intro: inj_on_subset)
  then have dist: "distinct (map refOf rows)" by (simp add: distinct_map)
  have "r \<in> refOf ` set rows" if r: "r \<in> set refs" for r
  proof -
    from present r obtain a where "a \<in> set (accounts s)" "key_owner (keyOf r) = owner_key a" by auto
    with r ok shaped have "a \<in> set rows" "refOf a = r" by (auto simp: key_owner_refOf rows)
    then show ?thesis by blast
  qed
  then have refs: "refOf ` set rows = set refs" by (auto simp: rows)
  have len: "length rows = length refs"
    using distinct_card [OF dist] distinct_card [OF \<open>distinct refs\<close>] refs by simp
  have upd: "accs (refOf a) = Some (locked a)" if "a \<in> set rows" for a
    unfolding accs_def using fold_map_upd [OF dist that] .
  have other: "accs r = None" if "r \<notin> refOf ` set rows" for r
    unfolding accs_def by (simp add: fold_map_upd_other that)
  have "dom accs = set refs"
    unfolding refs [symmetric] using upd other by (intro set_eqI iffI) (metis domIff, auto)
  moreover have "\<forall>r \<in> set refs. \<exists>a \<in> set (accounts s). refOf a = r \<and> accs r = Some (locked a)"
    unfolding refs [symmetric] using upd rows by auto
  ultimately have "locked_all s (set refs) accs" by (simp add: locked_all_def)
  moreover have "LockAccounts (map keyOf refs) s = (Inr rows, s)"
    using False by (simp add: LockAccounts_def eff_simps rows_def)
  ultimately show ?thesis using len by (simp add: wp_def accs_def)
qed

lemma lockAccounts_spec:
  assumes wf: "wf_accounts s" and ok: "\<forall>r \<in> set refs. ref_ok r"
  shows "wp (lockAccounts gen refs)
    (\<lambda>accs t. wf_accounts t \<and> opened s t \<and> owners_known (length (accounts s)) t \<and> locked_all t (set refs) accs)
    (\<lambda>_ t. t = s) s"
proof -
  let ?keys = "map keyOf (sortedRefs refs)"
  have lock: "wp (LockAccounts ?keys)
      (\<lambda>rows u. (length rows = length (sortedRefs refs) \<longrightarrow>
          wf_accounts u \<and> opened s u \<and> owners_known (length (accounts s)) u \<and>
          locked_all u (set refs) (fold (\<lambda>row m. m(refOf row \<mapsto> locked row)) rows Map.empty)) \<and>
          length rows = length (sortedRefs refs))
      (\<lambda>_ u. u = s) t"
    if t: "wf_accounts t \<and> opened s t \<and> key_owner ` set ?keys \<subseteq> owner_key ` set (accounts t) \<and>
       owners_known (length (accounts s)) t" for t
    by (rule wp_mono [OF LockAccounts_spec [of t "sortedRefs refs"]]) (use t ok in auto)
  have "wp (EnsureAccounts gen ?keys)
      (\<lambda>_. wp (LockAccounts ?keys)
      (\<lambda>rows u. (length rows = length (sortedRefs refs) \<longrightarrow>
          wf_accounts u \<and> opened s u \<and> owners_known (length (accounts s)) u \<and>
          locked_all u (set refs) (fold (\<lambda>row m. m(refOf row \<mapsto> locked row)) rows Map.empty)) \<and>
          length rows = length (sortedRefs refs))
      (\<lambda>_ u. u = s)) (\<lambda>_ t. t = s) s"
    by (rule wp_mono [OF EnsureAccounts_spec [OF wf]]) (use lock in auto)
  then show ?thesis
    by (simp add: lockAccounts_def wp_simps) (erule wp_mono; simp?; erule wp_mono; simp add: wp_simps)
qed

section \<open>Entries and totals\<close>

lemma entries_sum_append:
  "entries u = entries s @ new \<Longrightarrow> map entry_core new = map entry_core es \<Longrightarrow>
   entries_sum u t i = entries_sum s t i + sum_list (map (entry_effect t i \<circ> entry_core) es)"
  unfolding entries_sum_def map_map [symmetric] by simp

lemma txn_total_core:
  "txn_total s d i =
     sum_list (map (\<lambda>(x, _, y, m). if x = i \<and> y = d then m else 0) (map entry_core (entries s)))"
  by (simp add: txn_total_def sum_list_filter entry_core_def o_def)

lemma txn_count_core:
  "length (filter (\<lambda>e. er_transaction e = i) (entries s)) =
   length (filter (\<lambda>(x, _). x = i) (map entry_core (entries s)))"
  by (simp add: filter_map o_def entry_core_def)

lemma txn_balanced_opened: "opened s t \<Longrightarrow> txn_balanced t i = txn_balanced s i"
  by (simp add: txn_balanced_def txn_total_def opened_def)

text \<open>Opening accounts keeps the books.\<close>

lemma entries_sum_none:
  "i \<notin> er_account ` set (entries s) \<Longrightarrow> entries_sum s t i = 0"
proof -
  have "sum_list (map (entry_effect t i \<circ> entry_core) es) = 0" if "i \<notin> er_account ` set es" for es
    using that by (induction es) (auto simp: entry_effect_def entry_core_def)
  then show "i \<notin> er_account ` set (entries s) \<Longrightarrow> ?thesis" by (simp add: entries_sum_def)
qed

lemma books_opened:
  assumes b: "books s" and op: "opened s t" and wf: "wf_accounts t" and known: "owners_known (length (accounts s)) t"
  shows "books t"
proof -
  from op obtain new where acc: "accounts t = accounts s @ new" and zero: "\<forall>a \<in> set new. ar_balance a = 0"
    and same: "entries t = entries s" "transactions t = transactions s" "users t = users s"
    by (auto simp: opened_def)
  have sum: "entries_sum t = entries_sum s" by (simp add: entries_sum_def same fun_eq_iff)
  have new: "entries_sum s ty (ar_id a) = 0" if "a \<in> set new" for a ty
  proof (rule entries_sum_none)
    have "er_account ` set (entries s) \<subseteq> ar_id ` set (accounts s)"
      using b by (auto simp: books_def entries_linked_def)
    moreover have "ar_id a \<notin> ar_id ` set (accounts s)"
      using wf that by (auto simp: wf_accounts_def acc)
    ultimately show "ar_id a \<notin> er_account ` set (entries s)" by blast
  qed
  have "no_drift t" using b zero new by (auto simp: books_def no_drift_def acc sum)
  moreover have "no_overdraft t" and "exact_amounts t"
    using b zero by (auto simp: books_def no_overdraft_def exact_amounts_def acc same numeric_20_2_def)
  moreover have "owners_exist t"
    using b known by (auto simp: books_def owners_exist_def owners_known_def acc same)
  moreover have "entries_linked t"
    using b by (auto simp: books_def entries_linked_def acc same)
  moreover have "transactions_ok t"
    using b by (simp add: books_def transactions_ok_def txn_balanced_opened [OF op] same)
  ultimately show ?thesis using wf by (simp add: books_def)
qed

section \<open>A posting keeps the books\<close>

text \<open>The row of an account after the legs.\<close>

definition bump :: "leg list \<Rightarrow> account_row \<Rightarrow> account_row" where
  "bump legs a = a\<lparr>ar_balance := ar_balance a + leg_effect (ar_type a) (refOf a) legs\<rparr>"

lemma refOf_balance [simp]: "refOf (a\<lparr>ar_balance := b\<rparr>) = refOf a"
  by (simp add: refOf_def cong: option.case_cong)

lemma bump_sel [simp]:
  "ar_id (bump legs a) = ar_id a" "ar_type (bump legs a) = ar_type a"
  "ar_owner_user (bump legs a) = ar_owner_user a" "ar_owner_ref (bump legs a) = ar_owner_ref a"
  "owner_key (bump legs a) = owner_key a" "refOf (bump legs a) = refOf a"
  "ar_balance (bump legs a) = ar_balance a + leg_effect (ar_type a) (refOf a) legs"
  by (simp_all add: bump_def owner_key_def)

lemma locked_allD:
  assumes "wf_accounts s" and "locked_all s refs accs" and "a \<in> set (accounts s)" and "refOf a \<in> refs"
  shows "accs (refOf a) = Some (locked a)"
proof -
  from assms obtain b where "b \<in> set (accounts s)" "refOf b = refOf a" "accs (refOf a) = Some (locked b)"
    by (auto simp: locked_all_def)
  moreover from this have "b = a"
    using distinct_map_inj [OF wf_distinct_refs [OF assms(1)]] assms(3) by blast
  ultimately show ?thesis by simp
qed

lemma locked_id_inj:
  assumes wf: "wf_accounts s" and all: "locked_all s refs accs"
  shows "inj_on (locked_id accs) refs"
proof (rule inj_onI)
  fix r r'
  assume "r \<in> refs" "r' \<in> refs" and eq: "locked_id accs r = locked_id accs r'"
  with all obtain a b where a: "a \<in> set (accounts s)" "refOf a = r" "accs r = Some (locked a)"
    and b: "b \<in> set (accounts s)" "refOf b = r'" "accs r' = Some (locked b)"
    unfolding locked_all_def by blast
  with eq have "ar_id a = ar_id b" by (simp add: locked_def)
  with wf a b have "a = b" by (auto simp: wf_accounts_def dest: distinct_map_inj)
  with a b show "r = r'" by simp
qed

lemma next_accounts:
  assumes wf: "wf_accounts s" and all: "locked_all s (leg_account ` set legs) accs"
    and nb: "nextBalances accs legs = Inr nb"
  shows "put_balances (fst ` set nb) (\<lambda>i. the (map_of nb i)) (accounts s) = map (bump legs) (accounts s)"
    and "a \<in> set (accounts s) \<Longrightarrow> UserOwned (ar_type a) \<Longrightarrow> 0 \<le> ar_balance a \<Longrightarrow> 0 \<le> ar_balance (bump legs a)"
proof -
  let ?refs = "leg_account ` set legs"
  have dom: "?refs \<subseteq> dom accs" using all by (simp add: locked_all_def)
  note nx = nextBalances_Inr [OF nb dom locked_id_inj [OF wf all]]
  have touched: "map_of nb (ar_id a) = Some (ar_balance (bump legs a)) \<and>
      (UserOwned (ar_type a) \<longrightarrow> 0 \<le> ar_balance (bump legs a))"
    if "a \<in> set (accounts s)" "refOf a \<in> ?refs" for a
  proof -
    have "accs (refOf a) = Some (locked a)" by (rule locked_allD [OF wf all that])
    with nx(1) [OF that(2)] nx(3) [OF that(2)] show ?thesis by (simp add: next_balance_def locked_def)
  qed
  have untouched: "map_of nb (ar_id a) = None \<and> bump legs a = a"
    if a: "a \<in> set (accounts s)" "refOf a \<notin> ?refs" for a
  proof -
    have "ar_id a \<notin> locked_id accs ` ?refs"
    proof
      assume "ar_id a \<in> locked_id accs ` ?refs"
      then obtain r where "r \<in> ?refs" "ar_id a = locked_id accs r" by blast
      moreover from this all obtain b where "b \<in> set (accounts s)" "refOf b = r" "accs r = Some (locked b)"
        unfolding locked_all_def by blast
      ultimately have "a = b" using wf a(1) by (auto simp: wf_accounts_def locked_def dest: distinct_map_inj)
      with a(2) \<open>refOf b = r\<close> \<open>r \<in> ?refs\<close> show False by simp
    qed
    with nx(2) a(2) show ?thesis by (simp add: bump_def leg_effect_untouched)
  qed
  have "(if ar_id a \<in> fst ` set nb then a\<lparr>ar_balance := the (map_of nb (ar_id a))\<rparr> else a) = bump legs a"
    if "a \<in> set (accounts s)" for a
  proof (cases "refOf a \<in> ?refs")
    case True
    with touched [OF that True] have "map_of nb (ar_id a) = Some (ar_balance (bump legs a))" by simp
    moreover from this have "ar_id a \<in> fst ` set nb" by (metis domI dom_map_of_conv_image_fst)
    ultimately show ?thesis by (simp add: bump_def)
  next
    case False
    with untouched [OF that False] show ?thesis by (simp add: map_of_eq_None_iff)
  qed
  then show "put_balances (fst ` set nb) (\<lambda>i. the (map_of nb i)) (accounts s) = map (bump legs) (accounts s)"
    unfolding put_balances_def update_rows_def by (intro map_cong) simp_all
  show "a \<in> set (accounts s) \<Longrightarrow> UserOwned (ar_type a) \<Longrightarrow> 0 \<le> ar_balance a \<Longrightarrow> 0 \<le> ar_balance (bump legs a)"
    using touched [of a] untouched [of a] by (cases "refOf a \<in> ?refs") auto
qed

text \<open>The entries of a posting add up, per account, to the effect of its legs, and per
  direction to the totals of its legs.\<close>

lemma entry_of_account:
  assumes wf: "wf_accounts s" and all: "locked_all s (leg_account ` set legs) accs"
    and "l \<in> set legs" and a: "a \<in> set (accounts s)"
  shows "er_account (entry_of accs l) = ar_id a \<longleftrightarrow> leg_account l = refOf a"
proof -
  from all assms(3) obtain b where b: "b \<in> set (accounts s)" "refOf b = leg_account l"
    "accs (leg_account l) = Some (locked b)"
    unfolding locked_all_def by blast
  then have "er_account (entry_of accs l) = ar_id b" by (simp add: entry_of_def locked_def)
  moreover have "ar_id b = ar_id a \<longleftrightarrow> b = a"
    using wf a b(1) by (auto simp: wf_accounts_def dest: distinct_map_inj)
  moreover have "refOf b = refOf a \<longleftrightarrow> b = a"
    using distinct_map_inj [OF wf_distinct_refs [OF wf] b(1) a] by auto
  ultimately show ?thesis using b(2) by auto
qed

lemma entry_effects:
  assumes wf: "wf_accounts s" and all: "locked_all s (leg_account ` set legs) accs" and a: "a \<in> set (accounts s)"
  shows "sum_list (map (entry_effect t (ar_id a) \<circ> entry_core) (map (\<lambda>l. (entry_of accs l)\<lparr>er_transaction := i\<rparr>) legs)) =
    leg_effect t (refOf a) legs"
proof -
  have "sum_list (map (entry_effect t (ar_id a) \<circ> entry_core) (map (\<lambda>l. (entry_of accs l)\<lparr>er_transaction := i\<rparr>) ls)) =
      leg_effect t (refOf a) ls" if "set ls \<subseteq> set legs" for ls
    using that
  proof (induction ls)
    case (Cons l ls)
    with entry_of_account [OF wf all _ a, of l] show ?case
      by (auto simp: entry_effect_def entry_core_def) (simp_all add: entry_of_def)
  qed simp
  then show ?thesis by simp
qed

lemma entry_totals:
  assumes "map entry_core new = map (\<lambda>e. entry_core (e\<lparr>er_transaction := i\<rparr>)) (map (entry_of accs) legs)"
  shows "sum_list (map (\<lambda>(x, _, y, m). if x = i \<and> y = d then m else 0) (map entry_core new)) = total d legs"
    and "filter (\<lambda>(x, _). x = i) (map entry_core new) = map entry_core new"
    and "j \<noteq> i \<Longrightarrow> sum_list (map (\<lambda>(x, _, y, m). if x = j \<and> y = d then m else 0) (map entry_core new)) = 0"
    and "j \<noteq> i \<Longrightarrow> filter (\<lambda>(x, _). x = j) (map entry_core new) = []"
  unfolding assms by (induction legs) (auto simp: entry_core_def entry_of_def)

lemma signedDelta_two_decimals: "two_decimals m \<Longrightarrow> two_decimals (signedDelta t d m)"
  by (simp add: signedDelta_def)

lemma leg_effect_two_decimals: "\<forall>l \<in> set legs. leg_ok l \<Longrightarrow> two_decimals (leg_effect t r legs)"
  by (induction legs) (auto simp: leg_ok_def intro!: two_decimals_add signedDelta_two_decimals)

text \<open>One posting, from books with the accounts of its legs locked: the new balances were
  written and the transaction was appended.\<close>

definition posting_step ::
  "ledger_db \<Rightarrow> leg list \<Rightarrow> (account_ref \<rightharpoonup> locked_account) \<Rightarrow> transaction_row \<Rightarrow> uuid \<Rightarrow> ledger_db \<Rightarrow> bool" where
  "posting_step s legs accs t i u \<longleftrightarrow>
     books s \<and> locked_all s (leg_account ` set legs) accs \<and> legs_ok legs \<and>
     (\<exists>nb. nextBalances accs legs = Inr nb \<and> (\<forall>j \<in> fst ` set nb. balance_fits s j (the (map_of nb j)))) \<and>
     recorded (s\<lparr>accounts := map (bump legs) (accounts s)\<rparr>) t (map (entry_of accs) legs) i u"

lemma step_tables:
  assumes "posting_step s legs accs t i u"
  shows "accounts u = map (bump legs) (accounts s)" "transactions u = transactions s @ [t\<lparr>tr_id := i\<rparr>]"
    "users u = users s" "holds u = holds s" "order_ids u = order_ids s"
    "wf_accounts s" "locked_all s (leg_account ` set legs) accs" "legs_ok legs" "books s"
  using assms by (simp_all add: posting_step_def recorded_def books_def)

lemma step_accountE:
  assumes "posting_step s legs accs t i u" and "a' \<in> set (accounts u)"
  obtains a where "a \<in> set (accounts s)" and "a' = bump legs a"
  using assms by (auto simp: step_tables)

lemma step_entries:
  assumes "posting_step s legs accs t i u"
  obtains new where "entries u = entries s @ new"
    and "map entry_core new = map (\<lambda>e. entry_core (e\<lparr>er_transaction := i\<rparr>)) (map (entry_of accs) legs)"
  using assms by (auto simp: posting_step_def recorded_def)

lemma step_entryE:
  assumes st: "posting_step s legs accs t i u" and e: "e \<in> set (entries u)"
  obtains (old) "e \<in> set (entries s)"
    | (new) l where "l \<in> set legs" and "er_transaction e = i" and "er_dir e = leg_dir l"
        and "er_amount e = leg_amount l" and "er_account e = er_account (entry_of accs l)"
proof -
  from step_entries [OF st] obtain new where new: "entries u = entries s @ new"
    and core: "map entry_core new = map (\<lambda>e. entry_core (e\<lparr>er_transaction := i\<rparr>)) (map (entry_of accs) legs)" .
  show thesis
  proof (cases "e \<in> set (entries s)")
    case False
    with e new have "entry_core e \<in> set (map entry_core new)" by simp
    then obtain l where "l \<in> set legs" "entry_core e = entry_core ((entry_of accs l)\<lparr>er_transaction := i\<rparr>)"
      unfolding core by auto
    with that(2) [of l] show thesis by (simp add: entry_core_def entry_of_def)
  qed (rule that(1))
qed

lemma step_wf:
  assumes "posting_step s legs accs t i u"
  shows "wf_accounts u" and "owners_exist u"
  using step_tables [OF assms] by (auto simp: wf_accounts_def shaped_def books_def owners_exist_def o_def)

lemma step_no_overdraft:
  assumes st: "posting_step s legs accs t i u"
  shows "no_overdraft u"
  unfolding no_overdraft_def
proof (intro ballI impI)
  fix a'
  assume "a' \<in> set (accounts u)" and owner: "ar_owner_user a' \<noteq> None"
  with st obtain a where a: "a \<in> set (accounts s)" "a' = bump legs a" by (auto elim: step_accountE)
  note wf = step_tables(6) [OF st]
  from a owner wf have "UserOwned (ar_type a)" by (auto simp: wf_accounts_def shaped_def owner_shape_def)
  moreover from a owner have "0 \<le> ar_balance a"
    using step_tables(9) [OF st] by (auto simp: books_def no_overdraft_def)
  moreover from st obtain nb where "nextBalances accs legs = Inr nb" by (auto simp: posting_step_def)
  ultimately show "0 \<le> ar_balance a'"
    using next_accounts(2) [OF wf step_tables(7) [OF st], of nb] a by simp
qed

lemma step_exact_amounts:
  assumes st: "posting_step s legs accs t i u"
  shows "exact_amounts u"
  unfolding exact_amounts_def
proof (intro conjI ballI)
  note b = step_tables(9) [OF st] and legs = step_tables(8) [OF st]
  fix a'
  assume a': "a' \<in> set (accounts u)"
  with st obtain a where a: "a \<in> set (accounts s)" "a' = bump legs a" by (auto elim: step_accountE)
  with b legs show "two_decimals (ar_balance a')"
    by (auto simp: books_def exact_amounts_def legs_ok_def intro!: two_decimals_add leg_effect_two_decimals)
  from st obtain nb where nb: "nextBalances accs legs = Inr nb"
    and fits: "\<forall>j \<in> fst ` set nb. balance_fits s j (the (map_of nb j))" by (auto simp: posting_step_def)
  have "a' \<in> set (put_balances (fst ` set nb) (\<lambda>i. the (map_of nb i)) (accounts s))"
    using a' unfolding next_accounts(1) [OF step_tables(6,7) [OF st] nb] step_tables(1) [OF st] .
  with fits b show "numeric_20_2 (ar_balance a')"
    by (auto simp: set_put_balances balance_fits_def books_def exact_amounts_def)
next
  note b = step_tables(9) [OF st] and legs = step_tables(8) [OF st]
  fix e
  assume "e \<in> set (entries u)"
  with st have "0 < er_amount e \<and> two_decimals (er_amount e)"
    using b legs by (cases rule: step_entryE) (auto simp: books_def exact_amounts_def legs_ok_def leg_ok_def)
  then show "0 < er_amount e" "two_decimals (er_amount e)" by simp_all
qed

lemma step_no_drift:
  assumes st: "posting_step s legs accs t i u"
  shows "no_drift u"
  unfolding no_drift_def
proof
  fix a'
  assume "a' \<in> set (accounts u)"
  with st obtain a where a: "a \<in> set (accounts s)" "a' = bump legs a" by (auto elim: step_accountE)
  from step_entries [OF st] obtain new where new: "entries u = entries s @ new"
    and core: "map entry_core new = map entry_core (map (\<lambda>l. (entry_of accs l)\<lparr>er_transaction := i\<rparr>) legs)"
    by (auto simp: o_def)
  have "entries_sum u (ar_type a) (ar_id a) = entries_sum s (ar_type a) (ar_id a) + leg_effect (ar_type a) (refOf a) legs"
    unfolding entries_sum_append [OF new core] entry_effects [OF step_tables(6,7) [OF st] a(1)] ..
  with a step_tables(9) [OF st] show "ar_balance a' = entries_sum u (ar_type a') (ar_id a')"
    by (simp add: books_def no_drift_def)
qed

lemma step_entries_linked:
  assumes st: "posting_step s legs accs t i u"
  shows "entries_linked u"
  unfolding entries_linked_def
proof (intro conjI ballI)
  note b = step_tables(9) [OF st] and legs = step_tables(8) [OF st]
  show "distinct (map er_id (entries u))"
    using st b by (auto simp: posting_step_def recorded_def books_def entries_linked_def)
  fix e
  assume "e \<in> set (entries u)"
  with st have "(er_dir e = Debit \<or> er_dir e = Credit) \<and> er_account e \<in> ar_id ` set (accounts s) \<and>
      er_transaction e \<in> tr_id ` set (transactions u)"
  proof (cases rule: step_entryE)
    case old
    with b show ?thesis by (auto simp: books_def entries_linked_def step_tables [OF st])
  next
    case (new l)
    moreover have "er_account (entry_of accs l) \<in> ar_id ` set (accounts s)"
      using st new(1) by (auto simp: posting_step_def recorded_def image_image)
    ultimately show ?thesis using legs by (auto simp: legs_ok_def leg_ok_def step_tables [OF st])
  qed
  then show "er_dir e = Debit \<or> er_dir e = Credit" "er_account e \<in> ar_id ` set (accounts u)"
    "er_transaction e \<in> tr_id ` set (transactions u)" by (simp_all add: step_tables(1) [OF st] image_image)
qed

lemma step_txn_balanced:
  assumes st: "posting_step s legs accs t i u"
  shows "txn_balanced u i" and "j \<noteq> i \<Longrightarrow> txn_balanced u j = txn_balanced s j"
proof -
  from step_entries [OF st] obtain new where "entries u = entries s @ new"
    and core: "map entry_core new = map (\<lambda>e. entry_core (e\<lparr>er_transaction := i\<rparr>)) (map (entry_of accs) legs)" .
  then have new: "map entry_core (entries u) = map entry_core (entries s) @ map entry_core new" by simp
  note totals = entry_totals [OF core]
  have "i \<notin> tr_id ` set (transactions s)" using st by (simp add: posting_step_def recorded_def)
  then have "er_transaction e \<noteq> i" if "e \<in> set (entries s)" for e
    using that step_tables(9) [OF st] by (auto simp: books_def entries_linked_def)
  then have "txn_total s d i = 0" for d
    unfolding txn_total_def by (subst filter_False) auto
  then have "txn_total u d i = total d legs" for d
    unfolding txn_total_core new map_append sum_list_append totals(1) by simp
  moreover have "2 \<le> length (filter (\<lambda>e. er_transaction e = i) (entries u))"
    unfolding txn_count_core new filter_append totals(2)
    using step_tables(8) [OF st] arg_cong [OF core, of length] by (simp add: legs_ok_def)
  ultimately show "txn_balanced u i"
    using step_tables(8) [OF st] by (simp add: txn_balanced_def legs_ok_def)
  show "txn_balanced u j = txn_balanced s j" if "j \<noteq> i"
    unfolding txn_balanced_def txn_total_core txn_count_core new map_append filter_append sum_list_append
    by (simp only: totals(3) [OF that] totals(4) [OF that] append_Nil2 add_0_right)
qed

lemma step_transactions_ok:
  assumes st: "posting_step s legs accs t i u"
  shows "transactions_ok u"
proof -
  have key: "once_key (t\<lparr>tr_id := i\<rparr>) = once_key t" "transaction_checks (t\<lparr>tr_id := i\<rparr>) = transaction_checks t"
    by (simp_all add: once_key_def transaction_checks_def)
  have i: "i \<notin> tr_id ` set (transactions s)" and chk: "transaction_checks t"
    and once: "once_key t = None \<or> once_key t \<notin> once_key ` set (transactions s)"
    using st by (auto simp: posting_step_def recorded_def)
  have "txn_balanced u (tr_id r)" if "r \<in> set (transactions s)" for r
    using that i step_tables(9) [OF st] step_txn_balanced(2) [OF st, of "tr_id r"]
    by (auto simp: books_def transactions_ok_def)
  with i chk once step_txn_balanced(1) [OF st] step_tables(9) [OF st] show ?thesis
    by (auto simp: transactions_ok_def step_tables(2) [OF st] key books_def)
qed

lemma step_books: "posting_step s legs accs t i u \<Longrightarrow> books u"
  by (simp add: books_def step_wf step_no_overdraft step_exact_amounts step_no_drift step_entries_linked
      step_transactions_ok)

section \<open>Balances as a client sees them\<close>

lemma acc_type_refOf [simp]: "acc_type (refOf a) = ar_type a"
  by (simp add: refOf_def split: option.split)

lemma balance_of_account: "wf_accounts s \<Longrightarrow> a \<in> set (accounts s) \<Longrightarrow> balance_of s (refOf a) = ar_balance a"
  by (simp add: balance_of_def account_of_Some [THEN iffD2])

lemma balance_of_absent: "r \<notin> refOf ` set (accounts s) \<Longrightarrow> balance_of s r = 0"
  by (simp add: balance_of_def account_of_None [THEN iffD2])

lemma balance_of_opened:
  assumes "wf_accounts s" and "opened s t" and "wf_accounts t"
  shows "balance_of t r = balance_of s r"
proof -
  from assms(2) obtain new where acc: "accounts t = accounts s @ new" and zero: "\<forall>a \<in> set new. ar_balance a = 0"
    by (auto simp: opened_def)
  consider a where "a \<in> set (accounts s)" "r = refOf a"
    | a where "r \<notin> refOf ` set (accounts s)" "a \<in> set new" "r = refOf a"
    | "r \<notin> refOf ` set (accounts t)"
    using acc by auto
  then show ?thesis
  proof cases
    case 1
    then show ?thesis
      using balance_of_account [OF assms(1), of a] balance_of_account [OF assms(3), of a] acc by simp
  next
    case 2
    then show ?thesis
      using balance_of_absent [OF 2(1)] balance_of_account [OF assms(3), of a] acc zero by simp
  next
    case 3
    moreover from this have "r \<notin> refOf ` set (accounts s)" using acc by auto
    ultimately show ?thesis by (simp add: balance_of_absent)
  qed
qed

lemma step_balance_of:
  assumes st: "posting_step s legs accs t i u"
  shows "balance_of u r = balance_of s r + leg_effect (acc_type r) r legs"
proof (cases "r \<in> refOf ` set (accounts s)")
  case True
  then obtain a where a: "a \<in> set (accounts s)" "r = refOf a" by auto
  then have "bump legs a \<in> set (accounts u)" by (simp add: step_tables(1) [OF st])
  from balance_of_account [OF step_wf(1) [OF st] this] balance_of_account [OF step_tables(6) [OF st] a(1)]
  show ?thesis by (simp add: a(2))
next
  case False
  then have "r \<notin> refOf ` set (accounts u)" by (simp add: step_tables(1) [OF st] image_image)
  moreover have "r \<notin> leg_account ` set legs"
  proof
    assume "r \<in> leg_account ` set legs"
    with step_tables(7) [OF st] obtain a where "a \<in> set (accounts s)" "refOf a = r"
      unfolding locked_all_def by blast
    with False show False by blast
  qed
  ultimately show ?thesis using False by (simp add: balance_of_absent leg_effect_untouched)
qed

section \<open>What \<open>post\<close> promises\<close>

text \<open>The tables after a successful posting.\<close>

definition posted :: "ledger_db \<Rightarrow> ctx \<Rightarrow> posting \<Rightarrow> uuid \<Rightarrow> ledger_db \<Rightarrow> bool" where
  "posted s c p i u \<longleftrightarrow>
     i \<notin> tr_id ` set (transactions s) \<and>
     transactions u = transactions s @ [(transaction_of c p)\<lparr>tr_id := i\<rparr>] \<and>
     (\<exists>new. entries u = entries s @ new \<and>
        map (\<lambda>e. (er_transaction e, er_dir e, er_amount e)) new =
        map (\<lambda>l. (i, leg_dir l, leg_amount l)) (p_legs p)) \<and>
     (\<forall>r. balance_of u r = balance_of s r + leg_effect (acc_type r) r (p_legs p)) \<and>
     holds u = holds s \<and> users u = users s \<and> order_ids u = order_ids s"

text \<open>
  What an error says of the tables at that moment: the overdraft constraint is never the one
  that fails, and after an insufficient balance or an invalid posting the caller's transaction
  is still good, since nothing but accounts at zero was added.
\<close>

definition refused :: "ledger_db \<Rightarrow> err \<Rightarrow> ledger_db \<Rightarrow> bool" where
  "refused s e t \<longleftrightarrow>
     \<not> errors_Is e ErrBalanceConstraint \<and>
     (errors_Is e ErrInsufficientBalance \<or> errors_Is e ErrInvalidPosting \<longrightarrow> books t \<and> opened s t)"

text \<open>Transactions and entries are append-only.\<close>

definition journal_grows :: "ledger_db \<Rightarrow> ledger_db \<Rightarrow> bool" where
  "journal_grows s t \<longleftrightarrow>
     (\<exists>ts. transactions t = transactions s @ ts) \<and> (\<exists>es. entries t = entries s @ es)"

lemma journal_grows_refl [simp]: "journal_grows s s"
  by (simp add: journal_grows_def)

lemma journal_grows_trans: "journal_grows s t \<Longrightarrow> journal_grows t u \<Longrightarrow> journal_grows s u"
  by (auto simp: journal_grows_def)

lemma posted_journal: "posted s c p i u \<Longrightarrow> journal_grows s u"
  by (auto simp: posted_def journal_grows_def)

lemma opened_journal: "opened s t \<Longrightarrow> journal_grows s t"
  by (simp add: opened_def journal_grows_def)

lemma refused_repo: "repo_error e \<Longrightarrow> refused s e t"
  by (simp add: refused_def repo_error_def)

lemma refused_opened: "books t \<Longrightarrow> opened s t \<Longrightarrow> \<not> errors_Is e ErrBalanceConstraint \<Longrightarrow> refused s e t"
  by (simp add: refused_def)

lemma step_posted:
  assumes op: "opened s t" and wf: "wf_accounts s"
    and st: "posting_step t (p_legs p) accs (transaction_of c p) i u"
  shows "posted s c p i u"
proof -
  have same: "transactions t = transactions s" "entries t = entries s" "holds t = holds s" "users t = users s"
    "order_ids t = order_ids s" using op by (simp_all add: opened_def)
  from step_entries [OF st] obtain new where new: "entries u = entries s @ new"
    and core: "map entry_core new = map (\<lambda>e. entry_core (e\<lparr>er_transaction := i\<rparr>)) (map (entry_of accs) (p_legs p))"
    unfolding same .
  from arg_cong [OF core, of "map (\<lambda>(x, _, d, m). (x, d, m))"]
  have "map (\<lambda>e. (er_transaction e, er_dir e, er_amount e)) new = map (\<lambda>l. (i, leg_dir l, leg_amount l)) (p_legs p)"
    by (simp add: entry_core_def entry_of_def o_def)
  moreover have "i \<notin> tr_id ` set (transactions s)"
    using st same by (simp add: posting_step_def recorded_def)
  ultimately show ?thesis
    using step_balance_of [OF st] balance_of_opened [OF wf op step_tables(6) [OF st]] new
    by (simp add: posted_def step_tables(2-5) [OF st] same)
qed

lemma lockAccounts_error:
  "wp (lockAccounts gen refs) (\<lambda>_ _. True) (\<lambda>e _. e = ErrUserNotFound \<or> repo_error e) s"
  unfolding lockAccounts_def Let_def LockAccounts_def wp_bnd wp_handle
  by (rule wp_mono [OF EnsureAccounts_error]) (simp_all add: wp_simps)

lemma nextBalances_not_overdrawn:
  assumes b: "books s" and all: "locked_all s (leg_account ` set legs) accs"
    and nb: "nextBalances accs legs = Inr nb" and i: "i \<in> fst ` set nb"
  shows "\<not> overdrawn s i (the (map_of nb i))"
proof
  assume "overdrawn s i (the (map_of nb i))"
  then obtain a where a: "a \<in> set (accounts s)" "ar_id a = i" "ar_owner_user a \<noteq> None" "the (map_of nb i) < 0"
    by (auto simp: overdrawn_def)
  have wf: "wf_accounts s" using b by (simp add: books_def)
  have "a\<lparr>ar_balance := the (map_of nb i)\<rparr> = bump legs a"
  proof -
    have "(if ar_id a \<in> fst ` set nb then a\<lparr>ar_balance := the (map_of nb (ar_id a))\<rparr> else a) = bump legs a"
      using next_accounts(1) [OF wf all nb] a(1) by (simp add: put_balances_def update_rows_def)
    then show ?thesis using a(2) i by simp
  qed
  from arg_cong [OF this, of ar_balance] have neg: "ar_balance (bump legs a) < 0" using a(4) by simp
  have "UserOwned (ar_type a)" using wf a by (auto simp: wf_accounts_def shaped_def owner_shape_def)
  moreover have "0 \<le> ar_balance a" using b a by (simp add: books_def no_overdraft_def)
  ultimately show False using next_accounts(2) [OF wf all nb a(1)] neg by simp
qed

context decimal_laws
begin

text \<open>Writing the balances and the transaction, with the accounts locked.\<close>

lemma write_spec:
  assumes b: "books t" and all: "locked_all t (leg_account ` set legs) accs" and legs: "legs_ok legs"
  shows "wp (bnd (lift_sum (nextBalances accs legs)) (\<lambda>newBal.
       bnd (handle (SetBalances D newBal) (\<lambda>e. fail (setBalancesErr e))) (\<lambda>_.
         handle (InsertTransaction D gen row (map (entry_of accs) legs))
           (\<lambda>e. fail (if errors_Is e ErrDuplicate then ErrDuplicatePosting else e)))))
    (\<lambda>i u. posting_step t legs accs row i u)
    (\<lambda>e u. e = ErrInsufficientBalance \<and> u = t \<or> e = ErrDuplicatePosting \<or> repo_error e) t"
    (is "wp _ ?Q ?E t")
proof (cases "nextBalances accs legs")
  case (Inl e)
  moreover have "e = ErrInsufficientBalance"
    using nextBalances_Inl [OF Inl] all by (simp add: locked_all_def)
  ultimately show ?thesis by (simp add: wp_simps)
next
  case (Inr nb)
  have wf: "wf_accounts t" using b by (simp add: books_def)
  let ?t = "t\<lparr>accounts := map (bump legs) (accounts t)\<rparr>"
  let ?ins = "InsertTransaction D gen row (map (entry_of accs) legs)"
  have ins: "wp ?ins ?Q (\<lambda>e. ?E (if errors_Is e ErrDuplicate then ErrDuplicatePosting else e)) ?t"
    if fits: "\<forall>i \<in> fst ` set nb. balance_fits t i (the (map_of nb i))"
    by (rule wp_mono [OF wp_conj [OF InsertTransaction_spec InsertTransaction_error]])
      (use b all legs Inr fits in \<open>auto simp: posting_step_def\<close>)
  have "wp (SetBalances D nb) (\<lambda>_. wp ?ins ?Q (\<lambda>e. ?E (if errors_Is e ErrDuplicate then ErrDuplicatePosting else e)))
      (\<lambda>e. ?E (setBalancesErr e)) t"
  proof (rule wp_mono [OF wp_conj [OF SetBalances_spec SetBalances_error]])
    fix e :: err and u :: ledger_db
    assume "balance_refused t (fst ` set nb) (\<lambda>i. the (map_of nb i)) e \<and> repo_error e"
    moreover from this have "\<not> errors_Is e ErrCheck"
      using nextBalances_not_overdrawn [OF b all Inr] by (auto simp: balance_refused_def)
    ultimately show "?E (setBalancesErr e) u" by (simp add: setBalancesErr_def)
  qed (use ins in \<open>auto simp: next_accounts(1) [OF wf all Inr]\<close>)
  with Inr show ?thesis by (simp add: wp_simps)
qed

lemma post_spec:
  assumes b: "books s" and legs: "legs_ok (p_legs p)"
  shows "wp (post D gen c p) (\<lambda>i u. books u \<and> posted s c p i u) (refused s) s"
    (is "wp _ ?Q _ s")
proof -
  let ?refs = "accountKeys (p_legs p)"
  have wf: "wf_accounts s" using b by (simp add: books_def)
  have ok: "\<forall>r \<in> set ?refs. ref_ok r" using legs by (auto simp: legs_ok_def leg_ok_def)
  have body: "wp (bnd (lift_sum (nextBalances accs (p_legs p))) (\<lambda>newBal.
       bnd (handle (SetBalances D newBal) (\<lambda>e. fail (setBalancesErr e))) (\<lambda>_.
         handle (InsertTransaction D gen (transaction_of c p) (map (entry_of accs) (p_legs p)))
           (\<lambda>e. fail (if errors_Is e ErrDuplicate then ErrDuplicatePosting else e))))) ?Q (refused s) t"
    if t: "wf_accounts t \<and> opened s t \<and> owners_known (length (accounts s)) t \<and> locked_all t (set ?refs) accs"
    for accs t
  proof -
    have bt: "books t" using books_opened [OF b] t by blast
    from t have all: "locked_all t (leg_account ` set (p_legs p)) accs" by simp
    show ?thesis
      by (rule wp_mono [OF write_spec [OF bt all legs]])
        (use t bt wf in \<open>auto simp: refused_def repo_error_def sentinel_defs intro: step_books step_posted\<close>)
  qed
  have "wp (lockAccounts gen ?refs) (\<lambda>accs. wp (bnd (lift_sum (nextBalances accs (p_legs p))) (\<lambda>newBal.
       bnd (handle (SetBalances D newBal) (\<lambda>e. fail (setBalancesErr e))) (\<lambda>_.
         handle (InsertTransaction D gen (transaction_of c p) (map (entry_of accs) (p_legs p)))
           (\<lambda>e. fail (if errors_Is e ErrDuplicate then ErrDuplicatePosting else e))))) ?Q (refused s)) (refused s) s"
    by (rule wp_mono [OF wp_conj [OF lockAccounts_spec [OF wf ok] lockAccounts_error]])
      (use b body in \<open>auto simp: refused_def repo_error_def sentinel_defs\<close>)
  moreover have "refused s ErrDuplicatePosting s" by (simp add: refused_def sentinel_defs)
  ultimately show ?thesis
    unfolding post_def wp_bnd by (simp add: TransactionExists_def wp_simps)
qed

end

section \<open>When a posting succeeds\<close>

definition already_posted :: "ledger_db \<Rightarrow> posting \<Rightarrow> bool" where
  "already_posted s p \<longleftrightarrow>
     OnePerSource (p_kind p) \<and> p_source_id p \<noteq> uuid_Nil \<and>
     list_ex (\<lambda>t. tr_kind t = p_kind p \<and> tr_source_type t = Some (p_source_type p) \<and>
                  tr_source_id t = Some (p_source_id p)) (transactions s)"

text \<open>The balance the posting leaves on an account, and what it needs of it: within the range of
  the column, and not negative on a user's account.\<close>

definition balance_allows :: "ledger_db \<Rightarrow> leg list \<Rightarrow> account_ref \<Rightarrow> bool" where
  "balance_allows s legs r \<longleftrightarrow>
     (let b = balance_of s r + leg_effect (acc_type r) r legs
      in numeric_20_2 b \<and> (UserOwned (acc_type r) \<longrightarrow> 0 \<le> b))"

definition leg_usable :: "ledger_db \<Rightarrow> leg list \<Rightarrow> leg \<Rightarrow> bool" where
  "leg_usable s legs l \<longleftrightarrow>
     numeric_20_2 (leg_amount l) \<and> text_param (acc_ref (leg_account l)) \<and>
     (UserOwned (acc_type (leg_account l)) \<longrightarrow> acc_user (leg_account l) \<in> set (users s)) \<and>
     balance_allows s legs (leg_account l)"

definition can_post :: "ledger_db \<Rightarrow> posting \<Rightarrow> bool" where
  "can_post s p \<longleftrightarrow>
     header_ok p \<and> legs_ok (p_legs p) \<and> (\<forall>l \<in> set (p_legs p). leg_usable s (p_legs p) l) \<and>
     \<not> already_posted s p"

lemma sourceTypePattern_text: "sourceTypePattern st \<Longrightarrow> text_param st"
proof -
  assume p: "sourceTypePattern st"
  have ascii: "of_char c < (128 :: nat) \<and> c \<noteq> CHR 0x00" if "c \<in> set st" for c
  proof -
    from p that have "(CHR ''a'' \<le> c \<and> c \<le> CHR ''z'') \<or> c = CHR ''_''"
      by (simp add: sourceTypePattern_def list_all_iff)
    then show ?thesis by (auto simp: less_eq_char_def)
  qed
  have "list_all (\<lambda>(r, _). r \<noteq> None) (runes s)" if "\<forall>c \<in> set s. of_char c < (128 :: nat)" for s
    using that by (induction s) (simp_all add: Let_def)
  with ascii show "text_param st" by (auto simp: text_param_def valid_utf8_def has_nul_def)
qed

lemma row_usable_posting:
  assumes h: "header_ok p" and new: "\<not> already_posted s p"
  shows "row_usable s (transaction_of c p)"
proof -
  have actor: "fst (actorOf c) \<in> {''system'', ''user'', ''admin''}"
    "fst (actorOf c) = ''system'' \<longleftrightarrow> snd (actorOf c) = None"
    by (auto simp: actorOf_def split: option.split)
  have btrim: "p_kind p = KindBalanceAdjusted \<longrightarrow> 5 \<le> rune_count (btrim (p_memo p))"
    using h btrim_keeps [of "p_memo p"] by (auto simp: header_ok_def)
  have "transaction_checks (transaction_of c p)"
    using h actor btrim by (auto simp: transaction_checks_def transaction_of_def header_ok_def)
  moreover have "once_key (transaction_of c p) = None \<or> once_key (transaction_of c p) \<notin> once_key ` set (transactions s)"
    using new by (auto simp: already_posted_def once_key_def transaction_of_def list_ex_iff
        eq_commute [of "Some _" "map_option _ _"] split: if_splits)
  moreover have "text_param (p_memo p)" "p_source_type p \<noteq> '''' \<longrightarrow> text_param (p_source_type p)"
    using h sourceTypePattern_text by (auto simp: header_ok_def text_param_def)
  ultimately show ?thesis by (simp add: row_usable_def) (simp add: transaction_of_def)
qed

lemma keyOf_usable:
  assumes "ref_ok r" and "text_param (acc_ref r)" and "UserOwned (acc_type r) \<longrightarrow> acc_user r \<in> set (users s)"
  shows "key_usable s (keyOf r)"
proof -
  have "rune_count x \<le> length x" for x
  proof (induction x rule: runes.induct)
    case (2 c cs)
    obtain r n where rn: "decode_rune (c # cs) = (r, n)" by (cases "decode_rune (c # cs)")
    from 2 [OF rn [symmetric]] show ?case
      by (simp add: rune_count_def rn del: decode_rune.simps)
  qed (simp add: rune_count_def)
  then have "length (acc_ref r) \<le> 64 \<Longrightarrow> rune_count (acc_ref r) \<le> 64" by (meson order_trans)
  moreover have "rune_count [] = 0" "text_param []"
    by (simp_all add: rune_count_def text_param_def valid_utf8_def has_nul_def)
  ultimately show ?thesis using assms by (auto simp: key_usable_def keyOf_def owner_shape_def ref_ok_def)
qed

lemma lockAccounts_ok:
  assumes "ids_fresh gen s" and "wf_accounts s"
    and ok: "\<forall>r \<in> set refs. ref_ok r \<and> text_param (acc_ref r) \<and> (UserOwned (acc_type r) \<longrightarrow> acc_user r \<in> set (users s))"
  shows "wp (lockAccounts gen refs) (\<lambda>_. ids_fresh gen) (\<lambda>_ _. False) s"
proof -
  let ?keys = "map keyOf (sortedRefs refs)"
  have lock: "wp (LockAccounts ?keys) (\<lambda>rows u. length rows = length ?keys \<and> ids_fresh gen u) (\<lambda>_ _. False) t"
    if "ids_fresh gen t" "wf_accounts t" "key_owner ` set ?keys \<subseteq> owner_key ` set (accounts t)" for t
    by (rule wp_mono [OF LockAccounts_spec [of t "sortedRefs refs"]]) (use that ok in auto)
  have "wp (EnsureAccounts gen ?keys) (\<lambda>_. ids_fresh gen) (\<lambda>_ _. False) s"
    by (rule EnsureAccounts_ok) (use assms keyOf_usable in auto)
  from wp_conj [OF this EnsureAccounts_spec [OF assms(2)]]
  have "wp (EnsureAccounts gen ?keys) (\<lambda>_. wp (LockAccounts ?keys)
      (\<lambda>rows u. length rows = length ?keys \<and> ids_fresh gen u) (\<lambda>_ _. False)) (\<lambda>_ _. False) s"
    by (rule wp_mono) (use lock in auto)
  then show ?thesis
    unfolding lockAccounts_def Let_def wp_bnd wp_handle
    by (rule wp_mono) (erule wp_mono, auto simp: wp_simps)
qed

context decimal_laws
begin

lemma locked_balance:
  assumes wf: "wf_accounts t" and all: "locked_all t refs accs" and r: "r \<in> refs"
  shows "next_balance accs legs r = balance_of t r + leg_effect (acc_type r) r legs"
    and "locked_type accs r = acc_type r"
    and "\<exists>a \<in> set (accounts t). refOf a = r \<and> locked_id accs r = ar_id a"
proof -
  from all r obtain a where a: "a \<in> set (accounts t)" "refOf a = r" "accs r = Some (locked a)"
    unfolding locked_all_def by blast
  from a show "\<exists>a \<in> set (accounts t). refOf a = r \<and> locked_id accs r = ar_id a" by (auto simp: locked_def)
  from a show "locked_type accs r = acc_type r" by (auto simp: locked_def)
  with a balance_of_account [OF wf a(1)]
  show "next_balance accs legs r = balance_of t r + leg_effect (acc_type r) r legs"
    by (simp add: next_balance_def locked_def)
qed

lemma next_balances_fit:
  assumes b: "books t" and all: "locked_all t (leg_account ` set legs) accs" and legs: "legs_ok legs"
    and nb: "nextBalances accs legs = Inr nb" and fit: "\<forall>l \<in> set legs. balance_allows t legs (leg_account l)"
    and i: "i \<in> fst ` set nb"
  shows "balance_fits t i (the (map_of nb i))"
proof -
  have wf: "wf_accounts t" using b by (simp add: books_def)
  have dom: "leg_account ` set legs \<subseteq> dom accs" using all by (simp add: locked_all_def)
  note nx = nextBalances_Inr [OF nb dom locked_id_inj [OF wf all]]
  from i have "map_of nb i \<noteq> None" by (simp add: map_of_eq_None_iff)
  with nx(2) [of i] have "i \<in> locked_id accs ` leg_account ` set legs" by argo
  then obtain r where r: "r \<in> leg_account ` set legs" "i = locked_id accs r" by (rule imageE)
  from locked_balance(3) [OF wf all r(1)] r(2) obtain a where a: "a \<in> set (accounts t)" "refOf a = r" "ar_id a = i"
    by auto
  have bal: "the (map_of nb i) = balance_of t r + leg_effect (acc_type r) r legs"
    using nx(1) [OF r(1)] r(2) locked_balance(1) [OF wf all r(1)] by simp
  have "two_decimals (balance_of t r)"
    using b a balance_of_account [OF wf a(1)] by (auto simp: books_def exact_amounts_def)
  then have "two_decimals (the (map_of nb i))"
    using legs bal by (auto simp: legs_ok_def intro!: two_decimals_add leg_effect_two_decimals)
  moreover have "rows_affected (\<lambda>a. ar_id a = i) (accounts t) = 1"
    using wf a(1) rows_affected_key [of ar_id "accounts t" i] a(3)
    unfolding wf_accounts_def by (metis imageI)
  moreover have "numeric_20_2 (the (map_of nb i))"
    using fit r(1) bal by (auto simp: balance_allows_def Let_def)
  moreover have "\<not> overdrawn t i (the (map_of nb i))"
    by (rule nextBalances_not_overdrawn [OF b all nb i])
  ultimately show ?thesis by (auto simp: balance_fits_def overdrawn_def not_less)
qed

lemma write_ok:
  assumes b: "books t" and all: "locked_all t (leg_account ` set legs) accs" and legs: "legs_ok legs"
    and fresh: "ids_fresh gen t" and row: "row_usable t row"
    and fit: "\<forall>l \<in> set legs. balance_allows t legs (leg_account l) \<and> numeric_20_2 (leg_amount l)"
  shows "wp (bnd (lift_sum (nextBalances accs legs)) (\<lambda>newBal.
       bnd (handle (SetBalances D newBal) (\<lambda>e. fail (setBalancesErr e))) (\<lambda>_.
         handle (InsertTransaction D gen row (map (entry_of accs) legs))
           (\<lambda>e. fail (if errors_Is e ErrDuplicate then ErrDuplicatePosting else e)))))
    (\<lambda>_. ids_fresh gen) (\<lambda>_ _. False) t"
proof (cases "nextBalances accs legs")
  case (Inl e)
  have wf: "wf_accounts t" using b by (simp add: books_def)
  from nextBalances_Inl [OF Inl] all obtain r where r: "r \<in> leg_account ` set legs"
    "UserOwned (locked_type accs r)" "next_balance accs legs r < 0" by (auto simp: locked_all_def)
  moreover from fit r(1) have "UserOwned (acc_type r) \<longrightarrow> 0 \<le> balance_of t r + leg_effect (acc_type r) r legs"
    by (auto simp: balance_allows_def Let_def)
  ultimately have False using locked_balance(1,2) [OF wf all r(1)] by simp
  then show ?thesis ..
next
  case (Inr nb)
  have wf: "wf_accounts t" using b by (simp add: books_def)
  let ?t = "t\<lparr>accounts := map (bump legs) (accounts t)\<rparr>"
  have fits: "\<forall>i \<in> fst ` set nb. balance_fits t i (the (map_of nb i))"
    using next_balances_fit [OF b all legs Inr] fit by blast
  have "er_account (entry_of accs l) \<in> ar_id ` set (accounts t)" if "l \<in> set legs" for l
    using all that unfolding locked_all_def by (fastforce simp: entry_of_def locked_def)
  moreover have "ids_fresh gen ?t" by (rule ids_fresh_accounts [OF fresh]) (simp add: image_image)
  ultimately have "wp (InsertTransaction D gen row (map (entry_of accs) legs)) (\<lambda>_. ids_fresh gen) (\<lambda>_ _. False) ?t"
    using legs fit row
    by (intro InsertTransaction_ok)
      (auto simp: row_usable_def legs_ok_def leg_ok_def image_image, auto simp: entry_of_def)
  with fits have "wp (SetBalances D nb)
      (\<lambda>_. wp (InsertTransaction D gen row (map (entry_of accs) legs)) (\<lambda>_. ids_fresh gen) (\<lambda>_ _. False)) (\<lambda>_ _. False) t"
    by (intro wp_mono [OF SetBalances_spec]) (auto simp: next_accounts(1) [OF wf all Inr] balance_refused_def)
  with Inr show ?thesis by (simp add: wp_simps)
qed

lemma post_ok:
  assumes b: "books s" and fresh: "ids_fresh gen s" and p: "can_post s p"
  shows "wp (post D gen c p) (\<lambda>_. ids_fresh gen) (\<lambda>_ _. False) s"
proof -
  let ?refs = "accountKeys (p_legs p)"
  have wf: "wf_accounts s" and legs: "legs_ok (p_legs p)" using b p by (simp_all add: books_def can_post_def)
  have usable: "\<forall>l \<in> set (p_legs p). leg_usable s (p_legs p) l" using p by (simp add: can_post_def)
  have refs: "\<forall>r \<in> set ?refs. ref_ok r \<and> text_param (acc_ref r) \<and> (UserOwned (acc_type r) \<longrightarrow> acc_user r \<in> set (users s))"
    using legs usable by (auto simp: legs_ok_def leg_ok_def leg_usable_def)
  have body: "wp (bnd (lift_sum (nextBalances accs (p_legs p))) (\<lambda>newBal.
       bnd (handle (SetBalances D newBal) (\<lambda>e. fail (setBalancesErr e))) (\<lambda>_.
         handle (InsertTransaction D gen (transaction_of c p) (map (entry_of accs) (p_legs p)))
           (\<lambda>e. fail (if errors_Is e ErrDuplicate then ErrDuplicatePosting else e))))) (\<lambda>_. ids_fresh gen) (\<lambda>_ _. False) t"
    if t: "wf_accounts t \<and> opened s t \<and> owners_known (length (accounts s)) t \<and> locked_all t (set ?refs) accs"
      and fr: "ids_fresh gen t" for accs t
  proof (rule write_ok)
    show "books t" using books_opened [OF b] t by blast
    show "locked_all t (leg_account ` set (p_legs p)) accs" using t by simp
    have "transactions t = transactions s" using t by (simp add: opened_def)
    then show "row_usable t (transaction_of c p)"
      using row_usable_posting [of p s c] p by (simp add: can_post_def row_usable_def)
    have "balance_of t r = balance_of s r" for r using balance_of_opened [OF wf] t by blast
    then show "\<forall>l \<in> set (p_legs p). balance_allows t (p_legs p) (leg_account l) \<and> numeric_20_2 (leg_amount l)"
      using usable by (simp add: leg_usable_def balance_allows_def)
  qed (use legs fr in auto)
  have "wp (lockAccounts gen ?refs) (\<lambda>accs. wp (bnd (lift_sum (nextBalances accs (p_legs p))) (\<lambda>newBal.
       bnd (handle (SetBalances D newBal) (\<lambda>e. fail (setBalancesErr e))) (\<lambda>_.
         handle (InsertTransaction D gen (transaction_of c p) (map (entry_of accs) (p_legs p)))
           (\<lambda>e. fail (if errors_Is e ErrDuplicate then ErrDuplicatePosting else e))))) (\<lambda>_. ids_fresh gen) (\<lambda>_ _. False))
      (\<lambda>_ _. False) s"
    by (rule wp_mono [OF wp_conj [OF lockAccounts_spec [OF wf] lockAccounts_ok [OF fresh wf]]])
      (use refs body in auto)
  then show ?thesis
    using p unfolding post_def wp_bnd can_post_def already_posted_def
    by (auto simp: TransactionExists_def wp_simps)
qed

end

section \<open>Committed postings\<close>

lemma commit_books: "books s \<Longrightarrow> ledger_commit s = None"
  by (auto simp: ledger_commit_def books_def transactions_ok_def entries_linked_def list_all_iff)

lemma actorOf_in_tx [simp]: "actorOf (c\<lparr>ctx_in_tx := b\<rparr>) = actorOf c"
  by (simp add: actorOf_def)

lemma posted_in_tx [simp]: "posted s (c\<lparr>ctx_in_tx := b\<rparr>) p = posted s c p"
  by (simp add: posted_def transaction_of_def fun_eq_iff)

lemma opened_same_balances: "books s \<Longrightarrow> books t \<Longrightarrow> opened s t \<Longrightarrow> balance_of t r = balance_of s r"
  by (simp add: balance_of_opened books_def)

context decimal_laws
begin

lemma postChecked_spec:
  assumes "books s"
  shows "wp (postChecked D gen c p)
    (\<lambda>i u. header_ok p \<and> legs_ok (p_legs p) \<and> books u \<and> posted s c p i u) (refused s) s"
proof (cases "validatePosting D p")
  case (Inl e)
  from validatePosting_Inl [OF this] have "\<not> errors_Is e ErrBalanceConstraint"
    using Inl by (auto simp: validatePosting_def invalid_posting_def sentinel_defs dest!: check_legs_msg
        split: if_splits sum.splits prod.splits)
  with Inl assms show ?thesis by (simp add: postChecked_def wp_simps refused_def)
next
  case (Inr r)
  then have ok: "header_ok p" "legs_ok (p_legs p)" using validatePosting_iff [of p] by (cases r; simp)+
  with Inr assms show ?thesis
    by (simp add: postChecked_def wp_simps post_spec)
qed

lemma Post_spec:
  assumes b: "books s"
  shows "wp (Post D gen c p)
    (\<lambda>i u. header_ok p \<and> legs_ok (p_legs p) \<and> books u \<and> posted s c p i u)
    (\<lambda>e t. refused s e t \<and> (ctx_in_tx c \<or> t = s)) s"
proof (cases "Dedicated (p_kind p)")
  case True
  with b show ?thesis by (simp add: Post_def wp_simps refused_def invalid_posting_def sentinel_defs)
next
  case False
  show ?thesis
  proof (cases "ctx_in_tx c")
    case True
    with False postChecked_spec [OF b] show ?thesis by (simp add: Post_def)
  next
    case out: False
    have "wp (Do ledger_commit c (\<lambda>c. postChecked D gen c p))
        (\<lambda>i u. header_ok p \<and> legs_ok (p_legs p) \<and> books u \<and> posted s c p i u)
        (\<lambda>e t. t = s \<and> (\<exists>u. refused s e u)) s"
      by (rule Do_outer [OF out])
        (use postChecked_spec [OF b, of gen "c\<lparr>ctx_in_tx := True\<rparr>" p] commit_books in auto)
    with False show ?thesis
      by (simp add: Post_def) (erule wp_mono; use b in \<open>auto simp: refused_def\<close>)
  qed
qed

lemma postChecked_ok:
  assumes "books s" and "ids_fresh gen s" and "can_post s p"
  shows "wp (postChecked D gen c p) (\<lambda>i u. books u \<and> posted s c p i u \<and> ids_fresh gen u) (\<lambda>_ _. False) s"
proof -
  have "header_ok p" "legs_ok (p_legs p)" using assms(3) by (simp_all add: can_post_def)
  moreover from this have "validatePosting D p = Inr ()" by (simp add: validatePosting_iff)
  ultimately show ?thesis
    using wp_conj [OF post_spec [OF assms(1), of p gen c] post_ok [OF assms, of c]]
    by (simp add: postChecked_def wp_simps)
qed

end

end
