(* ===== verification/Ledger_Holds.thy ===== *)
theory Ledger_Holds
  imports Ledger_Post
begin

text \<open>
  \<open>panel/internal/module/ledger/service/holds.go\<close> and \<open>repo/holds.go\<close>: balance set aside for
  an order. A hold is made by \<open>HoldForOrder\<close>, and ends once, either released to the user or
  captured when the order is settled. The status of a row is one of the three strings the
  table's CHECK admits.
\<close>

section \<open>The table of holds\<close>

text \<open>\<open>INSERT INTO balance_holds\<close>: a new row is \<open>held\<close>, without capture or release.\<close>

definition insert_hold :: "(nat \<Rightarrow> uuid) \<Rightarrow> hold_row \<Rightarrow> (err, ledger_db, hold_row) eff" where
  "insert_hold gen h =
     bnd (draw_id gen) (\<lambda>i.
     bnd (require (numeric_20_2 (hr_amount h)) (PgError CodeNumeric '''')) (\<lambda>_.
     bnd (require (0 < hr_amount h) (PgError CodeCheck ''balance_holds_amount_check'')) (\<lambda>_.
     bnd (require ((hr_status h = HoldCaptured \<longleftrightarrow> hr_capture_txn h \<noteq> None) \<and>
                   (hr_status h = HoldReleased \<longleftrightarrow> hr_release_txn h \<noteq> None))
            (PgError CodeCheck ''balance_holds_state'')) (\<lambda>_.
     bnd (gets holds) (\<lambda>hs.
     bnd (require (i \<notin> hr_id ` set hs) (PgError CodeUnique ''balance_holds_pkey'')) (\<lambda>_.
     bnd (require (hr_order h \<notin> hr_order ` set hs) (PgError CodeUnique ''balance_holds_order_key'')) (\<lambda>_.
     bnd (gets (\<lambda>s. hr_order h \<in> set (order_ids s) \<and> hr_user h \<in> set (users s) \<and>
                    hr_hold_txn h \<in> tr_id ` set (transactions s))) (\<lambda>fk.
     bnd (require fk (PgError CodeForeignKey '''')) (\<lambda>_.
     bnd (modify (\<lambda>s. s\<lparr>holds := hs @ [h\<lparr>hr_id := i\<rparr>]\<rparr>)) (\<lambda>_.
       ret (h\<lparr>hr_id := i\<rparr>)))))))))))"

definition InsertHold :: "decimal_pkg \<Rightarrow> (nat \<Rightarrow> uuid) \<Rightarrow> hold_row \<Rightarrow> (err, ledger_db, hold_row) eff" where
  "InsertHold D gen h = bnd (lift_sum (Check D (hr_amount h))) (\<lambda>_. mapped (insert_hold gen h))"

definition HoldByOrder :: "uuid \<Rightarrow> (err, ledger_db, hold_row option) eff" where
  "HoldByOrder o_id = gets (\<lambda>s. find (\<lambda>h. hr_order h = o_id) (holds s))"

text \<open>The same with a row lock.\<close>

definition LockHoldByOrder :: "uuid \<Rightarrow> (err, ledger_db, hold_row option) eff" where
  "LockHoldByOrder o_id = gets (\<lambda>s. find (\<lambda>h. hr_order h = o_id) (holds s))"

definition mark_hold ::
  "uuid \<Rightarrow> uuid \<Rightarrow> (hold_row \<Rightarrow> hold_row) \<Rightarrow> (err, ledger_db, bool) eff" where
  "mark_hold i txn f =
     mapped
       (bnd (gets holds) (\<lambda>hs.
        bnd (gets (\<lambda>s. txn \<in> tr_id ` set (transactions s))) (\<lambda>fk.
        bnd (require (fk \<or> rows_affected (\<lambda>h. hr_id h = i \<and> hr_status h = HoldHeld) hs = 0)
               (PgError CodeForeignKey '''')) (\<lambda>_.
        bnd (modify (\<lambda>s. s\<lparr>holds := update_rows (\<lambda>h. hr_id h = i \<and> hr_status h = HoldHeld) f hs\<rparr>)) (\<lambda>_.
          ret (rows_affected (\<lambda>h. hr_id h = i \<and> hr_status h = HoldHeld) hs = 1))))))"

definition MarkHoldCaptured :: "uuid \<Rightarrow> uuid \<Rightarrow> (err, ledger_db, bool) eff" where
  "MarkHoldCaptured i txn = mark_hold i txn (\<lambda>h. h\<lparr>hr_status := HoldCaptured, hr_capture_txn := Some txn\<rparr>)"

definition MarkHoldReleased :: "uuid \<Rightarrow> uuid \<Rightarrow> (err, ledger_db, bool) eff" where
  "MarkHoldReleased i txn = mark_hold i txn (\<lambda>h. h\<lparr>hr_status := HoldReleased, hr_release_txn := Some txn\<rparr>)"

section \<open>Setting balance aside\<close>

record hold_input =
  hi_order :: uuid
  hi_user :: uuid
  hi_amount :: decimal

text \<open>The service's own copy of a row.\<close>

record hold =
  h_id :: uuid
  h_order :: uuid
  h_user :: uuid
  h_amount :: decimal
  h_status :: hold_status
  h_hold_txn :: uuid
  h_capture_txn :: "uuid option"
  h_release_txn :: "uuid option"

definition toHold :: "hold_row \<Rightarrow> hold" where
  "toHold m = \<lparr>h_id = hr_id m, h_order = hr_order m, h_user = hr_user m, h_amount = hr_amount m,
     h_status = hr_status m, h_hold_txn = hr_hold_txn m, h_capture_txn = hr_capture_txn m,
     h_release_txn = hr_release_txn m\<rparr>"

definition validateHoldInput :: "decimal_pkg \<Rightarrow> hold_input \<Rightarrow> err + unit" where
  "validateHoldInput D i =
     (if hi_order i = uuid_Nil \<or> hi_user i = uuid_Nil then Inl (invalid_posting ''empty order or user'')
      else if \<not> 0 < hi_amount i then Inl (invalid_posting ''amount not positive'')
      else case Check D (hi_amount i) of
             Inl e \<Rightarrow> Inl (invalid_posting ''amount'')
           | Inr _ \<Rightarrow> Inr ())"

definition hold_posting :: "hold_input \<Rightarrow> posting" where
  "hold_posting i =
     \<lparr>p_kind = KindBalanceHold, p_source_type = SourceOrder, p_source_id = hi_order i, p_memo = '''',
      p_legs =
        [\<lparr>leg_account = UserAccount UserBalance (hi_user i), leg_dir = Debit, leg_amount = hi_amount i\<rparr>,
         \<lparr>leg_account = UserAccount UserBalanceHold (hi_user i), leg_dir = Credit, leg_amount = hi_amount i\<rparr>]\<rparr>"

definition holdForOrder ::
  "decimal_pkg \<Rightarrow> (nat \<Rightarrow> uuid) \<Rightarrow> ctx \<Rightarrow> hold_input \<Rightarrow> (err, ledger_db, hold) eff" where
  "holdForOrder D gen c i =
     bnd (HoldByOrder (hi_order i)) (\<lambda>found.
     if found \<noteq> None then fail ErrHoldExists
     else
       bnd (handle (postChecked D gen c (hold_posting i))
              (\<lambda>e. fail (if errors_Is e ErrDuplicatePosting then ErrHoldExists else e))) (\<lambda>txn.
       bnd (handle (InsertHold D gen
                \<lparr>hr_id = uuid_Nil, hr_order = hi_order i, hr_user = hi_user i, hr_amount = hi_amount i,
                 hr_status = HoldHeld, hr_hold_txn = txn, hr_capture_txn = None, hr_release_txn = None\<rparr>)
              (\<lambda>e. fail (if errors_Is e ErrDuplicate then ErrHoldExists else e))) (\<lambda>h.
         ret (toHold h))))"

definition HoldForOrder ::
  "decimal_pkg \<Rightarrow> (nat \<Rightarrow> uuid) \<Rightarrow> ctx \<Rightarrow> hold_input \<Rightarrow> (err, ledger_db, hold) eff" where
  "HoldForOrder D gen c i =
     bnd (lift_sum (validateHoldInput D i)) (\<lambda>_. Do ledger_commit c (\<lambda>c. holdForOrder D gen c i))"

definition OrderHold :: "uuid \<Rightarrow> (err, ledger_db, hold option) eff" where
  "OrderHold o_id = bnd (HoldByOrder o_id) (\<lambda>h. ret (map_option toHold h))"

section \<open>Releasing\<close>

definition release_posting :: "hold_row \<Rightarrow> uuid \<Rightarrow> string \<Rightarrow> posting" where
  "release_posting h o_id memo =
     \<lparr>p_kind = KindBalanceRelease, p_source_type = SourceOrder, p_source_id = o_id, p_memo = memo,
      p_legs =
        [\<lparr>leg_account = UserAccount UserBalanceHold (hr_user h), leg_dir = Debit, leg_amount = hr_amount h\<rparr>,
         \<lparr>leg_account = UserAccount UserBalance (hr_user h), leg_dir = Credit, leg_amount = hr_amount h\<rparr>]\<rparr>"

definition releaseOrderHold ::
  "decimal_pkg \<Rightarrow> (nat \<Rightarrow> uuid) \<Rightarrow> ctx \<Rightarrow> uuid \<Rightarrow> string \<Rightarrow> (err, ledger_db, bool) eff" where
  "releaseOrderHold D gen c o_id memo =
     bnd (LockHoldByOrder o_id) (\<lambda>found.
     case found of
       None \<Rightarrow> ret False
     | Some h \<Rightarrow>
         if hr_status h = HoldReleased then ret False
         else if hr_status h = HoldCaptured then fail ErrHoldCaptured
         else if hr_status h \<noteq> HoldHeld then ret False
         else
           bnd (postChecked D gen c (release_posting h o_id memo)) (\<lambda>txn.
           bnd (MarkHoldReleased (hr_id h) txn) (\<lambda>ok.
             if \<not> ok then fail (Plain ''ledger: hold changed while releasing'') else ret True)))"

definition ReleaseOrderHold ::
  "decimal_pkg \<Rightarrow> (nat \<Rightarrow> uuid) \<Rightarrow> ctx \<Rightarrow> uuid \<Rightarrow> string \<Rightarrow> (err, ledger_db, bool) eff" where
  "ReleaseOrderHold D gen c o_id memo = Do ledger_commit c (\<lambda>c. releaseOrderHold D gen c o_id memo)"

section \<open>Settling an order\<close>

record order_paid =
  op_order :: uuid
  op_user :: uuid
  op_total :: decimal
  op_paid :: decimal
  op_fee :: decimal
  op_surcharge :: decimal
  op_provider :: string

definition validateOrderPaid :: "decimal_pkg \<Rightarrow> order_paid \<Rightarrow> err + unit" where
  "validateOrderPaid D p =
     (if op_order p = uuid_Nil \<or> op_user p = uuid_Nil then Inl (invalid_posting ''empty order or user'')
      else if list_ex (\<lambda>d. CheckNonNegative D d \<noteq> Inr ()) [op_total p, op_paid p, op_fee p, op_surcharge p]
      then Inl (invalid_posting ''amount'')
      else if op_paid p > op_total p then Inl (invalid_posting ''paid above total'')
      else
        (let channelGross = op_paid p + op_surcharge p in
         if op_fee p > channelGross then Inl (invalid_posting ''fee above gross'')
         else if op_surcharge p > 0 \<and> \<not> op_paid p > 0 then Inl (invalid_posting ''surcharge without payment'')
         else if channelGross > 0 \<and> op_provider p = '''' then Inl (invalid_posting ''provider missing'')
         else if channelGross > 0 \<and> length (op_provider p) > 64 then Inl (invalid_posting ''provider too long'')
         else Inr ()))"

definition orderPaidLegs :: "order_paid \<Rightarrow> decimal \<Rightarrow> leg list" where
  "orderPaidLegs p applied =
     (let channelNet = op_paid p + op_surcharge p - op_fee p in
      (if channelNet > 0
       then [\<lparr>leg_account = PlatformAccount ChannelCash (op_provider p), leg_dir = Debit, leg_amount = channelNet\<rparr>] else []) @
      (if op_fee p > 0
       then [\<lparr>leg_account = PlatformAccount PlatformFeeExpense (op_provider p), leg_dir = Debit, leg_amount = op_fee p\<rparr>] else []) @
      (if applied > 0
       then [\<lparr>leg_account = UserAccount UserBalanceHold (op_user p), leg_dir = Debit, leg_amount = applied\<rparr>] else []) @
      [\<lparr>leg_account = PlatformAccount PlatformRevenue RefMain, leg_dir = Credit, leg_amount = op_total p\<rparr>] @
      (if op_surcharge p > 0
       then [\<lparr>leg_account = PlatformAccount PlatformRevenue RefSurcharge, leg_dir = Credit, leg_amount = op_surcharge p\<rparr>] else []))"

definition order_paid_posting :: "order_paid \<Rightarrow> posting" where
  "order_paid_posting p =
     \<lparr>p_kind = KindOrderPaid, p_source_type = SourceOrder, p_source_id = op_order p, p_memo = '''',
      p_legs = orderPaidLegs p (op_total p - op_paid p)\<rparr>"

text \<open>The checks of \<open>postOrderPaid\<close> on the hold of the order, before it posts.\<close>

definition check_hold :: "order_paid \<Rightarrow> hold_row option \<Rightarrow> err + unit" where
  "check_hold p found =
     (let applied = op_total p - op_paid p in
      if (case found of Some h \<Rightarrow> hr_status h = HoldCaptured | None \<Rightarrow> False) then Inl ErrDuplicatePosting
      else if applied > 0 then
        (case found of
           None \<Rightarrow> Inl (invalid_posting ''no hold for the applied balance'')
         | Some h \<Rightarrow>
             if hr_status h = HoldReleased then Inl ErrHoldReleased
             else if hr_status h \<noteq> HoldHeld then Inl (invalid_posting ''hold not held'')
             else if hr_amount h \<noteq> applied then Inl (invalid_posting ''hold amount differs'')
             else if hr_user h \<noteq> op_user p then Inl (invalid_posting ''hold of another user'')
             else Inr ())
      else if (case found of Some h \<Rightarrow> hr_status h = HoldHeld | None \<Rightarrow> False)
      then Inl (invalid_posting ''held balance not applied'')
      else Inr ())"

definition postOrderPaid ::
  "decimal_pkg \<Rightarrow> (nat \<Rightarrow> uuid) \<Rightarrow> ctx \<Rightarrow> order_paid \<Rightarrow> (err, ledger_db, uuid) eff" where
  "postOrderPaid D gen c p =
     bnd (LockHoldByOrder (op_order p)) (\<lambda>found.
     bnd (lift_sum (check_hold p found)) (\<lambda>_.
     if op_total p = 0 then ret uuid_Nil
     else
       bnd (postChecked D gen c (order_paid_posting p)) (\<lambda>txn.
       if op_total p - op_paid p > 0 then
         bnd (MarkHoldCaptured (hr_id (the found)) txn) (\<lambda>ok.
           if \<not> ok then fail (Plain ''ledger: hold changed while capturing'') else ret txn)
       else ret txn)))"

definition PostOrderPaid ::
  "decimal_pkg \<Rightarrow> (nat \<Rightarrow> uuid) \<Rightarrow> ctx \<Rightarrow> order_paid \<Rightarrow> (err, ledger_db, uuid) eff" where
  "PostOrderPaid D gen c p =
     bnd (lift_sum (validateOrderPaid D p)) (\<lambda>_. Do ledger_commit c (\<lambda>c. postOrderPaid D gen c p))"

definition capture_order :: "hold_input \<Rightarrow> order_paid" where
  "capture_order i =
     \<lparr>op_order = hi_order i, op_user = hi_user i, op_total = hi_amount i, op_paid = 0, op_fee = 0,
      op_surcharge = 0, op_provider = ''''\<rparr>"

definition CaptureFromBalance ::
  "decimal_pkg \<Rightarrow> (nat \<Rightarrow> uuid) \<Rightarrow> ctx \<Rightarrow> hold_input \<Rightarrow> (err, ledger_db, hold \<times> uuid) eff" where
  "CaptureFromBalance D gen c i =
     bnd (lift_sum (validateHoldInput D i)) (\<lambda>_.
     Do ledger_commit c (\<lambda>c.
       bnd (lockAccounts gen
              [UserAccount UserBalance (hi_user i), UserAccount UserBalanceHold (hi_user i),
               PlatformAccount PlatformRevenue RefMain]) (\<lambda>_.
       bnd (holdForOrder D gen c i) (\<lambda>h.
       bnd (postOrderPaid D gen c (capture_order i)) (\<lambda>txn.
         ret (h\<lparr>h_status := HoldCaptured, h_capture_txn := Some txn\<rparr>, txn))))))"

section \<open>The holds agree with the books\<close>

definition held_sum :: "ledger_db \<Rightarrow> uuid \<Rightarrow> decimal" where
  "held_sum s u = sum_list (map hr_amount (filter (\<lambda>h. hr_user h = u \<and> hr_status h = HoldHeld) (holds s)))"

definition hold_row_ok :: "ledger_db \<Rightarrow> hold_row \<Rightarrow> bool" where
  "hold_row_ok s h \<longleftrightarrow>
     0 < hr_amount h \<and> two_decimals (hr_amount h) \<and> numeric_20_2 (hr_amount h) \<and>
     hr_user h \<in> set (users s) \<and> hr_order h \<in> set (order_ids s) \<and> hr_user h \<noteq> uuid_Nil \<and> hr_order h \<noteq> uuid_Nil \<and>
     hr_hold_txn h \<in> tr_id ` set (transactions s) \<and>
     pred_option (\<lambda>t. t \<in> tr_id ` set (transactions s)) (hr_capture_txn h) \<and>
     pred_option (\<lambda>t. t \<in> tr_id ` set (transactions s)) (hr_release_txn h) \<and>
     (hr_status h = HoldCaptured \<longleftrightarrow> hr_capture_txn h \<noteq> None) \<and>
     (hr_status h = HoldReleased \<longleftrightarrow> hr_release_txn h \<noteq> None)"

text \<open>A hold or a release in the journal belongs to a row of the table.\<close>

definition journal_linked :: "ledger_db \<Rightarrow> bool" where
  "journal_linked s \<longleftrightarrow>
     (\<forall>t \<in> set (transactions s).
        (tr_kind t = KindBalanceHold \<longrightarrow> (\<exists>h \<in> set (holds s). tr_source_id t = Some (hr_order h))) \<and>
        (tr_kind t = KindBalanceRelease \<longrightarrow>
           (\<exists>h \<in> set (holds s). tr_source_id t = Some (hr_order h) \<and> hr_status h = HoldReleased)))"

definition holds_ok :: "ledger_db \<Rightarrow> bool" where
  "holds_ok s \<longleftrightarrow>
     distinct (map hr_id (holds s)) \<and> distinct (map hr_order (holds s)) \<and>
     (\<forall>h \<in> set (holds s). hold_row_ok s h) \<and> journal_linked s \<and>
     (\<forall>u. balance_of s (UserAccount UserBalanceHold u) = held_sum s u)"

definition ledger_inv :: "ledger_db \<Rightarrow> bool" where
  "ledger_inv s \<longleftrightarrow> books s \<and> holds_ok s"

section \<open>Frame lemmas\<close>

lemma holds_frame [simp]:
  "balance_of (s\<lparr>holds := hs\<rparr>) r = balance_of s r" "balance_of (s\<lparr>drawn := n\<rparr>) r = balance_of s r"
  "books (s\<lparr>holds := hs\<rparr>) = books s" "books (s\<lparr>drawn := n\<rparr>) = books s"
  by (simp_all add: balance_of_def account_of_def books_defs wf_accounts_def entries_sum_def
      txn_balanced_def txn_total_def)

lemma hold_row_ok_frame [simp]:
  "hold_row_ok (s\<lparr>holds := hs\<rparr>) = hold_row_ok s" "hold_row_ok (s\<lparr>drawn := n\<rparr>) = hold_row_ok s"
  by (simp_all add: hold_row_ok_def fun_eq_iff)

lemma held_sum_alt:
  "held_sum s u = sum_list (map (\<lambda>h. if hr_user h = u \<and> hr_status h = HoldHeld then hr_amount h else 0) (holds s))"
  by (simp add: held_sum_def sum_list_filter)

text \<open>More transactions and unchanged users and orders keep the references of a row.\<close>

lemma hold_row_ok_mono:
  "hold_row_ok s h \<Longrightarrow> tr_id ` set (transactions s) \<subseteq> tr_id ` set (transactions u) \<Longrightarrow> users u = users s \<Longrightarrow>
   order_ids u = order_ids s \<Longrightarrow> hold_row_ok u h"
  by (auto simp: hold_row_ok_def pred_option_iff)

lemma posted_mono:
  assumes "posted s c p i u"
  shows "tr_id ` set (transactions s) \<subseteq> tr_id ` set (transactions u)" "i \<in> tr_id ` set (transactions u)"
    "users u = users s" "order_ids u = order_ids s" "holds u = holds s"
    "balance_of u r = balance_of s r + leg_effect (acc_type r) r (p_legs p)"
  using assms by (auto simp: posted_def)

lemma posted_transactionE:
  assumes "posted s c p i u" and "t \<in> set (transactions u)"
  obtains "t \<in> set (transactions s)" | "t = (transaction_of c p)\<lparr>tr_id := i\<rparr>"
  using assms by (auto simp: posted_def)

lemma holds_ok_opened:
  assumes "books s" and "books t" and "opened s t" and "holds_ok s"
  shows "holds_ok t"
proof -
  have same: "transactions t = transactions s" "holds t = holds s" "users t = users s" "order_ids t = order_ids s"
    using assms(3) by (simp_all add: opened_def)
  have "held_sum t u = held_sum s u" for u by (simp add: held_sum_def same)
  moreover have "hold_row_ok t h = hold_row_ok s h" for h by (simp add: hold_row_ok_def same)
  ultimately show ?thesis
    using assms(4) opened_same_balances [OF assms(1-3)] by (simp add: holds_ok_def journal_linked_def same)
qed

text \<open>A posting that leaves the accounts of held balance alone.\<close>

definition spares_holds :: "posting \<Rightarrow> bool" where
  "spares_holds p \<longleftrightarrow> (\<forall>l \<in> set (p_legs p). acc_type (leg_account l) \<noteq> UserBalanceHold)"

lemma spares_holds_effect: "spares_holds p \<Longrightarrow> leg_effect t (UserAccount UserBalanceHold u) (p_legs p) = 0"
  by (rule leg_effect_untouched) (metis UserAccount_sel(1) imageE spares_holds_def)

lemma posted_keeps_holds:
  assumes inv: "holds_ok s" and p: "posted s c p i u" and "spares_holds p"
    and kind: "p_kind p \<noteq> KindBalanceHold" "p_kind p \<noteq> KindBalanceRelease"
  shows "holds_ok u"
proof -
  note same = posted_mono [OF p]
  have "journal_linked u"
    using inv p kind unfolding posted_def by (simp add: holds_ok_def journal_linked_def transaction_of_def)
  moreover have "\<forall>h \<in> set (holds u). hold_row_ok u h"
    using inv same by (auto simp: holds_ok_def intro: hold_row_ok_mono)
  moreover have "balance_of u (UserAccount UserBalanceHold x) = held_sum u x" for x
    using inv assms(3) by (simp add: same(6) spares_holds_effect holds_ok_def held_sum_def same(5))
  ultimately show ?thesis using inv by (simp add: holds_ok_def same(5))
qed

section \<open>Statements on holds\<close>

lemma InsertHold_spec:
  "wp (InsertHold D gen h)
    (\<lambda>r u. u = s\<lparr>drawn := Suc (drawn s), holds := holds s @ [r]\<rparr> \<and> r = h\<lparr>hr_id := gen (drawn s)\<rparr> \<and>
       hr_id r \<notin> hr_id ` set (holds s) \<and> hr_order h \<notin> hr_order ` set (holds s) \<and>
       0 < hr_amount h \<and> numeric_20_2 (hr_amount h) \<and> Check D (hr_amount h) = Inr () \<and>
       hr_order h \<in> set (order_ids s) \<and> hr_user h \<in> set (users s) \<and> hr_hold_txn h \<in> tr_id ` set (transactions s))
    (\<lambda>e _. repo_error e) s"
  by (auto simp: InsertHold_def insert_hold_def wp_simps simp del: mapErr_simps dest: Check_repo_error split: sum.split)

lemma mark_hold_spec:
  assumes "distinct (map hr_id (holds s))" and "h \<in> set (holds s)" and "hr_status h = HoldHeld"
    and "txn \<in> tr_id ` set (transactions s)"
  shows "wp (mark_hold (hr_id h) txn f)
    (\<lambda>ok u. ok \<and> u = s\<lparr>holds := update_rows (\<lambda>x. hr_id x = hr_id h) f (holds s)\<rparr>) (\<lambda>_ _. False) s"
proof -
  have same: "hr_id x = hr_id h \<and> hr_status x = HoldHeld \<longleftrightarrow> hr_id x = hr_id h" if "x \<in> set (holds s)" for x
    using assms(1-3) that by (auto dest: distinct_map_inj)
  then have "update_rows (\<lambda>x. hr_id x = hr_id h \<and> hr_status x = HoldHeld) f (holds s) =
      update_rows (\<lambda>x. hr_id x = hr_id h) f (holds s)"
    unfolding update_rows_def by (intro map_cong) auto
  moreover have "rows_affected (\<lambda>x. hr_id x = hr_id h \<and> hr_status x = HoldHeld) (holds s) =
      rows_affected (\<lambda>x. hr_id x = hr_id h) (holds s)"
    unfolding rows_affected_def using same by (intro arg_cong [of _ _ length] filter_cong) auto
  moreover have "rows_affected (\<lambda>x. hr_id x = hr_id h) (holds s) = 1"
    using assms(1,2) by (simp add: rows_affected_key)
  ultimately show ?thesis using assms(4) by (simp add: mark_hold_def wp_simps)
qed

text \<open>Ending a hold takes its amount out of the sum of held amounts.\<close>

lemma held_sum_end:
  assumes "distinct (map hr_id (holds s))" and "h \<in> set (holds s)" and "hr_status h = HoldHeld"
    and "hr_status (f h) \<noteq> HoldHeld"
  shows "held_sum (s\<lparr>holds := update_rows (\<lambda>x. hr_id x = hr_id h) f (holds s)\<rparr>) u =
    held_sum s u - (if hr_user h = u then hr_amount h else 0)"
proof -
  let ?g = "\<lambda>x. if hr_user x = u \<and> hr_status x = HoldHeld then hr_amount x else 0"
  have "sum_list (map ?g (update_rows (\<lambda>x. hr_id x = hr_id h) f (holds s))) =
      sum_list (map ?g (holds s)) - ?g h + ?g (f h)"
    by (rule sum_update_key [OF assms(1,2)])
  then show ?thesis using assms(3,4) by (simp add: held_sum_alt)
qed

lemma held_amount_le:
  assumes inv: "holds_ok s" and h: "h \<in> set (holds s)" and "hr_status h = HoldHeld"
  shows "hr_amount h \<le> held_sum s (hr_user h)"
proof -
  let ?g = "\<lambda>x. if hr_user x = hr_user h \<and> hr_status x = HoldHeld then hr_amount x else 0"
  have "?g h \<le> sum_list (map ?g (holds s))"
  proof (rule member_le_sum_list)
    show "?g h \<in> set (map ?g (holds s))" unfolding set_map using h by (rule imageI)
    show "0 \<le> x" if "x \<in> set (map ?g (holds s))" for x
      using that inv by (auto simp: holds_ok_def hold_row_ok_def)
  qed
  then show ?thesis using assms(3) by (simp add: held_sum_alt)
qed

section \<open>Ending a hold\<close>

text \<open>What \<open>MarkHoldCaptured\<close> and \<open>MarkHoldReleased\<close> write.\<close>

definition captured_by :: "uuid \<Rightarrow> hold_row \<Rightarrow> hold_row" where
  "captured_by txn h = h\<lparr>hr_status := HoldCaptured, hr_capture_txn := Some txn\<rparr>"

definition released_by :: "uuid \<Rightarrow> hold_row \<Rightarrow> hold_row" where
  "released_by txn h = h\<lparr>hr_status := HoldReleased, hr_release_txn := Some txn\<rparr>"

definition end_hold :: "hold_row \<Rightarrow> (hold_row \<Rightarrow> hold_row) \<Rightarrow> ledger_db \<Rightarrow> ledger_db" where
  "end_hold h f s = s\<lparr>holds := update_rows (\<lambda>x. hr_id x = hr_id h) f (holds s)\<rparr>"

lemma ended_sel [simp]:
  "hr_id (captured_by t h) = hr_id h" "hr_order (captured_by t h) = hr_order h" "hr_user (captured_by t h) = hr_user h"
  "hr_amount (captured_by t h) = hr_amount h" "hr_status (captured_by t h) = HoldCaptured"
  "hr_id (released_by t h) = hr_id h" "hr_order (released_by t h) = hr_order h" "hr_user (released_by t h) = hr_user h"
  "hr_amount (released_by t h) = hr_amount h" "hr_status (released_by t h) = HoldReleased"
  by (simp_all add: captured_by_def released_by_def)

lemma end_hold_sel [simp]:
  "transactions (end_hold h f s) = transactions s" "users (end_hold h f s) = users s"
  "order_ids (end_hold h f s) = order_ids s" "balance_of (end_hold h f s) r = balance_of s r"
  "books (end_hold h f s) = books s" "entries (end_hold h f s) = entries s" "accounts (end_hold h f s) = accounts s"
  by (simp_all add: end_hold_def)

lemma hold_row_ok_end [simp]: "hold_row_ok (end_hold h f s) x = hold_row_ok s x"
  by (simp add: hold_row_ok_def)

lemma set_end_hold: "set (holds (end_hold h f s)) = (\<lambda>x. if hr_id x = hr_id h then f x else x) ` set (holds s)"
  by (simp add: end_hold_def set_update_rows)

lemma end_hold_other: "x \<in> set (holds s) \<Longrightarrow> hr_id x \<noteq> hr_id h \<Longrightarrow> x \<in> set (holds (end_hold h f s))"
  unfolding set_end_hold by (rule image_eqI [of _ _ x]) simp_all

lemma end_hold_this: "h \<in> set (holds s) \<Longrightarrow> f h \<in> set (holds (end_hold h f s))"
  unfolding set_end_hold by (rule image_eqI [of _ _ h]) simp_all

lemma MarkHold_spec:
  assumes "holds_ok s" and "h \<in> set (holds s)" and "hr_status h = HoldHeld" and "txn \<in> tr_id ` set (transactions u)"
    and "holds u = holds s"
  shows "wp (MarkHoldCaptured (hr_id h) txn) (\<lambda>ok v. ok \<and> v = end_hold h (captured_by txn) u) (\<lambda>_ _. False) u"
    and "wp (MarkHoldReleased (hr_id h) txn) (\<lambda>ok v. ok \<and> v = end_hold h (released_by txn) u) (\<lambda>_ _. False) u"
  unfolding MarkHoldCaptured_def MarkHoldReleased_def end_hold_def captured_by_def [abs_def] released_by_def [abs_def]
  by (rule mark_hold_spec; use assms in \<open>simp add: holds_ok_def\<close>)+

lemma journal_linked_end:
  assumes j: "journal_linked s" and dist: "distinct (map hr_id (holds s))" and h: "h \<in> set (holds s)" "hr_status h = HoldHeld"
    and p: "posted s c p i u" and kind: "p_kind p \<noteq> KindBalanceHold"
    and f: "hr_order (f h) = hr_order h"
    and rel: "p_kind p = KindBalanceRelease \<longrightarrow>
      hr_status (f h) = HoldReleased \<and> p_source_type p \<noteq> '''' \<and> p_source_id p = hr_order h \<and> hr_order h \<noteq> uuid_Nil"
  shows "journal_linked (end_hold h f u)"
  unfolding journal_linked_def
proof (intro ballI conjI impI)
  note same = posted_mono(5) [OF p]
  have fh: "f h \<in> set (holds (end_hold h f u))" using h(1) same by (simp add: end_hold_this)
  have some: "\<exists>y \<in> set (holds (end_hold h f u)). hr_order y = hr_order x" if "x \<in> set (holds s)" for x
  proof (cases "hr_id x = hr_id h")
    case True
    with that h(1) have "x = h" using distinct_map_inj [OF dist] by blast
    with fh f show ?thesis by auto
  next
    case False
    with that same have "x \<in> set (holds (end_hold h f u))" by (simp add: end_hold_other)
    then show ?thesis by auto
  qed
  fix t
  assume t: "t \<in> set (transactions (end_hold h f u))"
  { assume k: "tr_kind t = KindBalanceHold"
    with t p kind have "t \<in> set (transactions s)" by (auto simp: transaction_of_def elim!: posted_transactionE)
    with j k obtain x where "x \<in> set (holds s)" "tr_source_id t = Some (hr_order x)" by (auto simp: journal_linked_def)
    moreover from some [OF this(1)] obtain y where "y \<in> set (holds (end_hold h f u))" "hr_order y = hr_order x" by blast
    ultimately show "\<exists>x \<in> set (holds (end_hold h f u)). tr_source_id t = Some (hr_order x)"
      by (intro bexI [of _ y]) simp_all }
  assume k: "tr_kind t = KindBalanceRelease"
  from t have "t \<in> set (transactions u)" by simp
  with p show "\<exists>x \<in> set (holds (end_hold h f u)). tr_source_id t = Some (hr_order x) \<and> hr_status x = HoldReleased"
  proof (cases rule: posted_transactionE)
    case 1
    with j k obtain x where x: "x \<in> set (holds s)" "tr_source_id t = Some (hr_order x)" "hr_status x = HoldReleased"
      by (auto simp: journal_linked_def)
    then have "hr_id x \<noteq> hr_id h" using distinct_map_inj [OF dist x(1) h(1)] h(2) by auto
    with x same have "x \<in> set (holds (end_hold h f u))" by (simp add: end_hold_other)
    with x show ?thesis by auto
  next
    case 2
    with k have "p_kind p = KindBalanceRelease" by (simp add: transaction_of_def)
    with rel 2 f have "tr_source_id t = Some (hr_order (f h)) \<and> hr_status (f h) = HoldReleased"
      by (simp add: transaction_of_def)
    with fh show ?thesis by blast
  qed
qed

lemma holds_ok_end:
  assumes inv: "holds_ok s" and h: "h \<in> set (holds s)" "hr_status h = HoldHeld"
    and p: "posted s c p i u"
    and f: "\<And>x. hr_id (f x) = hr_id x" "\<And>x. hr_order (f x) = hr_order x" "hr_status (f h) \<noteq> HoldHeld"
    and row: "hold_row_ok u (f h)"
    and j: "journal_linked (end_hold h f u)"
    and legs: "\<And>x. leg_effect UserBalanceHold (UserAccount UserBalanceHold x) (p_legs p) =
      - (if hr_user h = x then hr_amount h else 0)"
  shows "holds_ok (end_hold h f u)"
proof -
  note same = posted_mono [OF p]
  have dist: "distinct (map hr_id (holds u))" "distinct (map hr_order (holds u))"
    using inv by (simp_all add: holds_ok_def same)
  have maps: "map hr_id (holds (end_hold h f u)) = map hr_id (holds u)"
    "map hr_order (holds (end_hold h f u)) = map hr_order (holds u)"
    by (simp_all add: end_hold_def map_update_rows f)
  have "hold_row_ok u x" if "x \<in> set (holds (end_hold h f u))" for x
  proof -
    from that obtain y where y: "y \<in> set (holds u)" "x = (if hr_id y = hr_id h then f y else y)"
      by (auto simp: set_end_hold)
    moreover have "hold_row_ok u y" using inv y(1) same by (auto simp: holds_ok_def intro: hold_row_ok_mono)
    moreover have "hr_id y = hr_id h \<Longrightarrow> y = h" using y(1) h(1) dist same by (auto dest: distinct_map_inj)
    ultimately show ?thesis using row by auto
  qed
  moreover have "held_sum (end_hold h f u) x = held_sum u x - (if hr_user h = x then hr_amount h else 0)" for x
    unfolding end_hold_def by (rule held_sum_end) (use dist h f same in auto)
  then have "balance_of u (UserAccount UserBalanceHold x) = held_sum (end_hold h f u) x" for x
    using inv legs [of x] same(6) [of "UserAccount UserBalanceHold x"]
    by (simp add: holds_ok_def held_sum_def same(5))
  ultimately show ?thesis using dist maps j by (simp add: holds_ok_def)
qed

section \<open>What the operations promise\<close>

definition input_ok :: "hold_input \<Rightarrow> bool" where
  "input_ok i \<longleftrightarrow> hi_order i \<noteq> uuid_Nil \<and> hi_user i \<noteq> uuid_Nil \<and> 0 < hi_amount i \<and> two_decimals (hi_amount i)"

text \<open>The tables after balance was set aside: the row, and the amount moved.\<close>

definition held :: "ledger_db \<Rightarrow> hold_input \<Rightarrow> hold \<Rightarrow> ledger_db \<Rightarrow> bool" where
  "held s i h u \<longleftrightarrow>
     hi_order i \<notin> hr_order ` set (holds s) \<and>
     (\<exists>row. holds u = holds s @ [row] \<and> h = toHold row \<and> hr_order row = hi_order i \<and> hr_user row = hi_user i \<and>
        hr_amount row = hi_amount i \<and> hr_status row = HoldHeld) \<and>
     users u = users s \<and> order_ids u = order_ids s \<and> journal_grows s u \<and>
     (\<forall>r. balance_of u r = balance_of s r + leg_effect (acc_type r) r (p_legs (hold_posting i)))"

lemma posting_sel [simp]:
  "p_kind (hold_posting i) = KindBalanceHold" "p_source_type (hold_posting i) = SourceOrder"
  "p_source_id (hold_posting i) = hi_order i"
  "p_kind (release_posting h o_id m) = KindBalanceRelease" "p_source_type (release_posting h o_id m) = SourceOrder"
  "p_source_id (release_posting h o_id m) = o_id"
  "p_kind (order_paid_posting p) = KindOrderPaid" "p_source_type (order_paid_posting p) = SourceOrder"
  "p_source_id (order_paid_posting p) = op_order p"
  by (simp_all add: hold_posting_def release_posting_def order_paid_posting_def)

lemma hold_effect:
  "leg_effect UserBalanceHold (UserAccount UserBalanceHold x) (p_legs (hold_posting i)) =
     (if hi_user i = x then hi_amount i else 0)"
  by (simp add: hold_posting_def signedDelta_def)

lemma release_effect:
  "leg_effect UserBalanceHold (UserAccount UserBalanceHold x) (p_legs (release_posting h o_id m)) =
     - (if hr_user h = x then hr_amount h else 0)"
  by (simp add: release_posting_def signedDelta_def)

lemma order_paid_effect:
  "leg_effect UserBalanceHold (UserAccount UserBalanceHold x) (p_legs (order_paid_posting p)) =
     - (if op_user p = x \<and> op_total p - op_paid p > 0 then op_total p - op_paid p else 0)"
  by (simp add: order_paid_posting_def orderPaidLegs_def Let_def signedDelta_def UserAccount_def PlatformAccount_def)

lemma holds_ok_hold:
  assumes inv: "holds_ok s" and p: "posted s c (hold_posting i) txn u" and i: "input_ok i"
    and row: "hr_order row = hi_order i" "hr_user row = hi_user i" "hr_amount row = hi_amount i"
      "hr_status row = HoldHeld" "hr_capture_txn row = None" "hr_release_txn row = None" "hr_hold_txn row = txn"
    and new: "hr_id row \<notin> hr_id ` set (holds s)" "hi_order i \<notin> hr_order ` set (holds s)"
    and fk: "hi_order i \<in> set (order_ids s)" "hi_user i \<in> set (users s)" "numeric_20_2 (hi_amount i)"
  shows "holds_ok (u\<lparr>drawn := n, holds := holds u @ [row]\<rparr>)" (is "holds_ok ?v")
proof -
  note same = posted_mono [OF p]
  have "hold_row_ok u x" if "x \<in> set (holds s)" for x
    using inv that same by (auto simp: holds_ok_def intro: hold_row_ok_mono)
  moreover have "hold_row_ok u row"
    using i row fk same by (simp add: hold_row_ok_def input_ok_def)
  moreover have "journal_linked ?v"
  proof -
    have "tr_source_id ((transaction_of c (hold_posting i))\<lparr>tr_id := txn\<rparr>) = Some (hr_order row)"
      "tr_kind ((transaction_of c (hold_posting i))\<lparr>tr_id := txn\<rparr>) = KindBalanceHold"
      using i row(1) by (simp_all add: transaction_of_def hold_posting_def input_ok_def)
    moreover have "transactions u = transactions s @ [(transaction_of c (hold_posting i))\<lparr>tr_id := txn\<rparr>]"
      using p by (simp add: posted_def)
    ultimately show ?thesis using inv by (simp add: holds_ok_def journal_linked_def same(5))
  qed
  moreover have "held_sum ?v x = held_sum s x + (if hi_user i = x then hi_amount i else 0)" for x
    using row by (simp add: held_sum_alt same(5))
  then have "balance_of u (UserAccount UserBalanceHold x) = held_sum ?v x" for x
    using inv same(6) [of "UserAccount UserBalanceHold x"] by (simp add: holds_ok_def hold_effect)
  ultimately show ?thesis using inv new row(1) by (simp add: holds_ok_def same(5))
qed

context decimal_laws
begin

lemma validateHoldInput_iff: "validateHoldInput D i = Inr () \<longleftrightarrow> input_ok i"
  by (auto simp: validateHoldInput_def input_ok_def Check_cases)

lemma holdForOrder_spec:
  assumes inv: "ledger_inv s" and i: "input_ok i"
  shows "wp (holdForOrder D gen c i) (\<lambda>h u. ledger_inv u \<and> held s i h u) (refused s) s"
proof -
  have b: "books s" and ho: "holds_ok s" using inv by (simp_all add: ledger_inv_def)
  have exists: "refused s ErrHoldExists t" for t by (simp add: refused_def sentinel_defs)
  let ?row = "\<lambda>txn. \<lparr>hr_id = uuid_Nil, hr_order = hi_order i, hr_user = hi_user i, hr_amount = hi_amount i,
      hr_status = HoldHeld, hr_hold_txn = txn, hr_capture_txn = None, hr_release_txn = None\<rparr>"
  have insert: "wp (InsertHold D gen (?row txn)) (\<lambda>h v. ledger_inv v \<and> held s i (toHold h) v)
      (\<lambda>e. refused s (if errors_Is e ErrDuplicate then ErrHoldExists else e)) u"
    if u: "books u \<and> posted s c (hold_posting i) txn u" for txn u
  proof (rule wp_mono [OF InsertHold_spec])
    fix r v
    assume r: "v = u\<lparr>drawn := Suc (drawn u), holds := holds u @ [r]\<rparr> \<and> r = (?row txn)\<lparr>hr_id := gen (drawn u)\<rparr> \<and>
       hr_id r \<notin> hr_id ` set (holds u) \<and> hr_order (?row txn) \<notin> hr_order ` set (holds u) \<and>
       0 < hr_amount (?row txn) \<and> numeric_20_2 (hr_amount (?row txn)) \<and> Check D (hr_amount (?row txn)) = Inr () \<and>
       hr_order (?row txn) \<in> set (order_ids u) \<and> hr_user (?row txn) \<in> set (users u) \<and>
       hr_hold_txn (?row txn) \<in> tr_id ` set (transactions u)"
    have p: "posted s c (hold_posting i) txn u" using u by simp
    note same = posted_mono [OF p]
    have sel: "hr_order r = hi_order i" "hr_user r = hi_user i" "hr_amount r = hi_amount i" "hr_status r = HoldHeld"
      "hr_capture_txn r = None" "hr_release_txn r = None" "hr_hold_txn r = txn"
      using r by simp_all
    from r have v: "v = u\<lparr>drawn := Suc (drawn u), holds := holds u @ [r]\<rparr>"
      and new: "hr_id r \<notin> hr_id ` set (holds s)" "hi_order i \<notin> hr_order ` set (holds s)"
      and fk: "hi_order i \<in> set (order_ids s)" "hi_user i \<in> set (users s)" "numeric_20_2 (hi_amount i)"
      by (auto simp: same(3-5))
    have "holds_ok v" unfolding v by (rule holds_ok_hold [OF ho p i sel new fk])
    moreover have "held s i (toHold r) v"
      unfolding held_def v using sel new(2) same posted_journal [OF p]
      by (intro conjI exI [of _ r]) (simp_all add: journal_grows_def)
    ultimately show "ledger_inv v \<and> held s i (toHold r) v" using u r by (simp add: ledger_inv_def)
  qed (auto simp: exists refused_repo)
  have "wp (postChecked D gen c (hold_posting i))
      (\<lambda>txn. wp (InsertHold D gen (?row txn)) (\<lambda>h v. ledger_inv v \<and> held s i (toHold h) v)
         (\<lambda>e. refused s (if errors_Is e ErrDuplicate then ErrHoldExists else e)))
      (\<lambda>e. refused s (if errors_Is e ErrDuplicatePosting then ErrHoldExists else e)) s"
    by (rule wp_mono [OF postChecked_spec [OF b]]) (use insert exists in auto)
  then show ?thesis using exists by (simp add: holdForOrder_def HoldByOrder_def wp_simps)
qed

end

text \<open>A hold was ended by one posting: the posting is in the journal and the row has the new state.\<close>

definition ended ::
  "ledger_db \<Rightarrow> ctx \<Rightarrow> posting \<Rightarrow> hold_row \<Rightarrow> (uuid \<Rightarrow> hold_row \<Rightarrow> hold_row) \<Rightarrow> uuid \<Rightarrow> ledger_db \<Rightarrow> bool" where
  "ended s c p h f txn v \<longleftrightarrow>
     h \<in> set (holds s) \<and> hr_status h = HoldHeld \<and> (\<exists>u. posted s c p txn u \<and> v = end_hold h (f txn) u)"

definition released :: "ledger_db \<Rightarrow> ctx \<Rightarrow> uuid \<Rightarrow> string \<Rightarrow> bool \<Rightarrow> ledger_db \<Rightarrow> bool" where
  "released s c o_id memo b v \<longleftrightarrow>
     (if b then \<exists>h txn. hr_order h = o_id \<and> ended s c (release_posting h o_id memo) h released_by txn v else v = s)"

definition paid_ok :: "order_paid \<Rightarrow> bool" where
  "paid_ok p \<longleftrightarrow>
     op_order p \<noteq> uuid_Nil \<and> op_user p \<noteq> uuid_Nil \<and>
     0 \<le> op_total p \<and> 0 \<le> op_paid p \<and> 0 \<le> op_fee p \<and> 0 \<le> op_surcharge p \<and>
     two_decimals (op_total p) \<and> two_decimals (op_paid p) \<and> two_decimals (op_fee p) \<and> two_decimals (op_surcharge p) \<and>
     op_paid p \<le> op_total p \<and> op_fee p \<le> op_paid p + op_surcharge p \<and>
     (0 < op_surcharge p \<longrightarrow> 0 < op_paid p) \<and>
     (0 < op_paid p + op_surcharge p \<longrightarrow> op_provider p \<noteq> '''' \<and> length (op_provider p) \<le> 64)"

text \<open>The outcome of settling an order: nothing for an order of zero; else the posting, and the
  hold captured if balance was applied.\<close>

definition settled :: "ledger_db \<Rightarrow> ctx \<Rightarrow> order_paid \<Rightarrow> uuid \<Rightarrow> ledger_db \<Rightarrow> bool" where
  "settled s c p txn v \<longleftrightarrow>
     (if op_total p = 0 then txn = uuid_Nil \<and> v = s
      else if op_total p - op_paid p > 0 then
        \<exists>h. hr_order h = op_order p \<and> hr_amount h = op_total p - op_paid p \<and> hr_user h = op_user p \<and>
            ended s c (order_paid_posting p) h captured_by txn v
      else posted s c (order_paid_posting p) txn v)"

lemma hold_row_ok_ended:
  assumes "hold_row_ok u h" and "hr_status h = HoldHeld" and "txn \<in> tr_id ` set (transactions u)"
  shows "hold_row_ok u (captured_by txn h)" and "hold_row_ok u (released_by txn h)"
  using assms by (simp_all add: hold_row_ok_def captured_by_def released_by_def)

lemma ledger_inv_end:
  assumes inv: "holds_ok s" and h: "h \<in> set (holds s)" "hr_status h = HoldHeld"
    and p: "posted s c p txn u" and b: "books u"
    and legs: "\<And>x. leg_effect UserBalanceHold (UserAccount UserBalanceHold x) (p_legs p) =
      - (if hr_user h = x then hr_amount h else 0)"
  shows "p_kind p = KindOrderPaid \<Longrightarrow> ledger_inv (end_hold h (captured_by txn) u)"
    and "p_kind p = KindBalanceRelease \<Longrightarrow> p_source_type p \<noteq> '''' \<Longrightarrow> p_source_id p = hr_order h \<Longrightarrow>
      ledger_inv (end_hold h (released_by txn) u)"
proof -
  note same = posted_mono [OF p]
  have j: "journal_linked s" and dist: "distinct (map hr_id (holds s))" using inv by (simp_all add: holds_ok_def)
  have ok: "hold_row_ok s h" using inv h by (simp add: holds_ok_def)
  then have row: "hold_row_ok u h" using same by (auto intro: hold_row_ok_mono)
  { assume k: "p_kind p = KindOrderPaid"
    have "journal_linked (end_hold h (captured_by txn) u)"
      by (rule journal_linked_end [OF j dist h p]) (simp_all add: k)
    then have "holds_ok (end_hold h (captured_by txn) u)"
      by (intro holds_ok_end [OF inv h p]) (use hold_row_ok_ended(1) [OF row h(2) same(2)] legs in simp_all)
    with b show "ledger_inv (end_hold h (captured_by txn) u)" by (simp add: ledger_inv_def) }
  assume k: "p_kind p = KindBalanceRelease" "p_source_type p \<noteq> ''''" "p_source_id p = hr_order h"
  have "journal_linked (end_hold h (released_by txn) u)"
    by (rule journal_linked_end [OF j dist h p]) (use k ok in \<open>simp_all add: hold_row_ok_def\<close>)
  then have "holds_ok (end_hold h (released_by txn) u)"
    by (intro holds_ok_end [OF inv h p]) (use hold_row_ok_ended(2) [OF row h(2) same(2)] legs in simp_all)
  with b show "ledger_inv (end_hold h (released_by txn) u)" by (simp add: ledger_inv_def)
qed

lemma find_hold: "find (\<lambda>h. hr_order h = o_id) (holds s) = Some h \<Longrightarrow> h \<in> set (holds s) \<and> hr_order h = o_id"
  by (rule find_SomeD)

lemma orderPaidLegs_spares: "\<not> op_total p - op_paid p > 0 \<Longrightarrow> spares_holds (order_paid_posting p)"
  by (auto simp: spares_holds_def order_paid_posting_def orderPaidLegs_def Let_def)

context decimal_laws
begin

lemma validateOrderPaid_iff: "validateOrderPaid D p = Inr () \<longleftrightarrow> paid_ok p"
  by (auto simp: validateOrderPaid_def paid_ok_def CheckNonNegative_iff Let_def)

lemma releaseOrderHold_spec:
  assumes inv: "ledger_inv s"
  shows "wp (releaseOrderHold D gen c o_id memo) (\<lambda>r v. ledger_inv v \<and> released s c o_id memo r v) (refused s) s"
proof (cases "find (\<lambda>h. hr_order h = o_id) (holds s)")
  case None
  with inv show ?thesis by (simp add: releaseOrderHold_def LockHoldByOrder_def wp_simps released_def)
next
  case (Some h)
  note h = find_hold [OF Some]
  have b: "books s" and ho: "holds_ok s" using inv by (simp_all add: ledger_inv_def)
  let ?p = "release_posting h o_id memo"
  show ?thesis
  proof (cases "hr_status h = HoldHeld")
    case True
    have mark: "wp (MarkHoldReleased (hr_id h) txn)
        (\<lambda>ok v. ok \<and> ledger_inv v \<and> released s c o_id memo True v) (refused s) u"
      if u: "header_ok ?p \<and> legs_ok (p_legs ?p) \<and> books u \<and> posted s c ?p txn u" for txn u
    proof (rule wp_mono [OF MarkHold_spec(2) [OF ho _ True]])
      show "h \<in> set (holds s)" "holds u = holds s" "txn \<in> tr_id ` set (transactions u)"
        using h u posted_mono(2,5) [of s c ?p txn u] by simp_all
      fix ok v
      assume "ok \<and> v = end_hold h (released_by txn) u"
      moreover have "ledger_inv (end_hold h (released_by txn) u)"
        by (rule ledger_inv_end(2) [OF ho]) (use h True u in \<open>auto simp: release_effect\<close>)
      ultimately show "ok \<and> ledger_inv v \<and> released s c o_id memo True v"
        using h True u by (auto simp: released_def ended_def)
    qed simp
    have "wp (postChecked D gen c ?p) (\<lambda>txn. wp (MarkHoldReleased (hr_id h) txn)
        (\<lambda>ok v. ok \<and> ledger_inv v \<and> released s c o_id memo True v) (refused s)) (refused s) s"
      by (rule wp_mono [OF postChecked_spec [OF b]]) (use mark in auto)
    with True Some show ?thesis
      unfolding releaseOrderHold_def LockHoldByOrder_def wp_bnd wp_gets by (simp add: wp_simps) (erule wp_mono; simp?; erule wp_mono; simp add: wp_simps)
  next
    case False
    with inv Some show ?thesis
      by (cases "hr_status h")
        (auto simp: releaseOrderHold_def LockHoldByOrder_def wp_simps released_def refused_def sentinel_defs)
  qed
qed

lemma check_hold_Inl: "check_hold p found = Inl e \<Longrightarrow> \<not> errors_Is e ErrBalanceConstraint"
  by (auto simp: check_hold_def Let_def invalid_posting_def sentinel_defs split: if_splits option.splits)

lemma check_hold_applied:
  assumes "check_hold p (find (\<lambda>h. hr_order h = op_order p) (holds s)) = Inr ()" and "op_total p - op_paid p > 0"
  obtains h where "find (\<lambda>h. hr_order h = op_order p) (holds s) = Some h" "h \<in> set (holds s)"
    "hr_order h = op_order p" "hr_status h = HoldHeld" "hr_amount h = op_total p - op_paid p" "hr_user h = op_user p"
  using assms by (auto simp: check_hold_def Let_def split: if_splits option.splits dest!: find_hold)

lemma postOrderPaid_spec:
  assumes inv: "ledger_inv s" and "0 \<le> op_total p"
  shows "wp (postOrderPaid D gen c p) (\<lambda>txn v. ledger_inv v \<and> settled s c p txn v) (refused s) s"
proof (cases "check_hold p (find (\<lambda>h. hr_order h = op_order p) (holds s))")
  case (Inl e)
  with check_hold_Inl [OF Inl] inv show ?thesis
    by (simp add: postOrderPaid_def LockHoldByOrder_def wp_simps refused_def ledger_inv_def)
next
  case (Inr r)
  then have ok: "check_hold p (find (\<lambda>h. hr_order h = op_order p) (holds s)) = Inr ()" by (cases r) simp
  have b: "books s" and ho: "holds_ok s" using inv by (simp_all add: ledger_inv_def)
  let ?p = "order_paid_posting p"
  show ?thesis
  proof (cases "op_total p - op_paid p > 0")
    case True
    from check_hold_applied [OF ok True] obtain h where
      h: "find (\<lambda>h. hr_order h = op_order p) (holds s) = Some h" "h \<in> set (holds s)" "hr_order h = op_order p"
      "hr_status h = HoldHeld" "hr_amount h = op_total p - op_paid p" "hr_user h = op_user p" .
    have mark: "wp (MarkHoldCaptured (hr_id h) txn)
        (\<lambda>good v. good \<and> ledger_inv v \<and> (op_total p \<noteq> 0 \<longrightarrow> settled s c p txn v)) (refused s) u"
      if u: "header_ok ?p \<and> legs_ok (p_legs ?p) \<and> books u \<and> posted s c ?p txn u" for txn u
    proof (rule wp_mono [OF MarkHold_spec(1) [OF ho h(2,4)]])
      show "holds u = holds s" "txn \<in> tr_id ` set (transactions u)"
        using u posted_mono(2,5) [of s c ?p txn u] by simp_all
      fix good v
      assume "good \<and> v = end_hold h (captured_by txn) u"
      moreover have "ledger_inv (end_hold h (captured_by txn) u)"
        by (rule ledger_inv_end(1) [OF ho]) (use h True u in \<open>auto simp: order_paid_effect\<close>)
      ultimately show "good \<and> ledger_inv v \<and> (op_total p \<noteq> 0 \<longrightarrow> settled s c p txn v)"
        using h True u by (auto simp: settled_def ended_def)
    qed simp
    have "wp (postChecked D gen c ?p) (\<lambda>txn. wp (MarkHoldCaptured (hr_id h) txn)
        (\<lambda>good v. good \<and> ledger_inv v \<and> (op_total p \<noteq> 0 \<longrightarrow> settled s c p txn v)) (refused s)) (refused s) s"
      by (rule wp_mono [OF postChecked_spec [OF b]]) (use mark in auto)
    then have "op_total p \<noteq> 0 \<longrightarrow> wp (postChecked D gen c ?p) (\<lambda>txn. wp (MarkHoldCaptured (hr_id h) txn)
        (\<lambda>good v. good \<and> ledger_inv v \<and> settled s c p txn v) (refused s)) (refused s) s" by (intro impI) simp
    with True ok h(1) inv show ?thesis
      unfolding postOrderPaid_def LockHoldByOrder_def wp_bnd wp_gets
      by (simp add: wp_simps settled_def [of s c p uuid_Nil])
        (auto elim!: wp_mono simp: wp_simps)
  next
    case False
    have "wp (postChecked D gen c ?p) (\<lambda>txn v. ledger_inv v \<and> (op_total p \<noteq> 0 \<longrightarrow> settled s c p txn v)) (refused s) s"
      by (rule wp_mono [OF postChecked_spec [OF b]])
        (use False posted_keeps_holds [OF ho _ orderPaidLegs_spares [OF False]] in \<open>auto simp: settled_def ledger_inv_def\<close>)
    with False ok inv show ?thesis
      unfolding postOrderPaid_def LockHoldByOrder_def wp_bnd wp_gets
      by (simp add: wp_simps settled_def [of s c p uuid_Nil]) (auto elim!: wp_mono)
  qed
qed

end

text \<open>Paying an order from the balance: the accounts are opened, the amount is held, the hold is captured.\<close>

definition captured :: "ledger_db \<Rightarrow> ctx \<Rightarrow> hold_input \<Rightarrow> hold \<times> uuid \<Rightarrow> ledger_db \<Rightarrow> bool" where
  "captured s c i r v \<longleftrightarrow>
     (\<exists>t u h. opened s t \<and> ledger_inv t \<and> held t i h u \<and> ledger_inv u \<and> settled u c (capture_order i) (snd r) v \<and>
        fst r = h\<lparr>h_status := HoldCaptured, h_capture_txn := Some (snd r)\<rparr>)"

lemma refused_later:
  assumes "opened s t" and "refused t e u"
  shows "refused s e u"
  using assms by (auto simp: refused_def intro: opened_trans)

lemma paid_ok_capture: "input_ok i \<Longrightarrow> paid_ok (capture_order i)"
  by (simp add: input_ok_def paid_ok_def capture_order_def)

context decimal_laws
begin

text \<open>The body of \<open>CaptureFromBalance\<close>, in a transaction.\<close>

lemma capture_spec:
  assumes inv: "ledger_inv s" and i: "input_ok i"
  shows "wp (bnd (lockAccounts gen
              [UserAccount UserBalance (hi_user i), UserAccount UserBalanceHold (hi_user i),
               PlatformAccount PlatformRevenue RefMain]) (\<lambda>_.
       bnd (holdForOrder D gen c i) (\<lambda>h.
       bnd (postOrderPaid D gen c (capture_order i)) (\<lambda>txn.
         ret (h\<lparr>h_status := HoldCaptured, h_capture_txn := Some txn\<rparr>, txn)))))
    (\<lambda>r v. ledger_inv v \<and> captured s c i r v) (\<lambda>e _. \<not> errors_Is e ErrBalanceConstraint) s"
proof -
  have b: "books s" and ho: "holds_ok s" using inv by (simp_all add: ledger_inv_def)
  let ?Q = "\<lambda>r v. ledger_inv v \<and> captured s c i r v" and ?E = "\<lambda>e (_ :: ledger_db). \<not> errors_Is e ErrBalanceConstraint"
  have paid: "wp (bnd (postOrderPaid D gen c (capture_order i)) (\<lambda>txn.
      ret (h\<lparr>h_status := HoldCaptured, h_capture_txn := Some txn\<rparr>, txn))) ?Q ?E u"
    if t: "opened s t" "ledger_inv t" and u: "ledger_inv u \<and> held t i h u" for h t u
    unfolding wp_bnd wp_ret
    by (rule wp_mono [OF postOrderPaid_spec])
      (use t u i in \<open>auto simp: captured_def refused_def capture_order_def input_ok_def intro!: exI\<close>)
  have hold: "wp (bnd (holdForOrder D gen c i) (\<lambda>h.
      bnd (postOrderPaid D gen c (capture_order i)) (\<lambda>txn.
        ret (h\<lparr>h_status := HoldCaptured, h_capture_txn := Some txn\<rparr>, txn)))) ?Q ?E t"
    if "opened s t" "ledger_inv t" for t
    unfolding wp_bnd [of "holdForOrder D gen c i"]
    by (rule wp_mono [OF holdForOrder_spec [OF that(2) i]]) (use paid that in \<open>auto simp: refused_def\<close>)
  have "\<forall>r \<in> set [UserAccount UserBalance (hi_user i), UserAccount UserBalanceHold (hi_user i),
      PlatformAccount PlatformRevenue RefMain]. ref_ok r"
    using i by (simp add: ref_ok_def input_ok_def)
  moreover have "wf_accounts s" using b by (simp add: books_def)
  ultimately show ?thesis
    unfolding wp_bnd [of "lockAccounts gen _"]
    by (intro wp_mono [OF wp_conj [OF lockAccounts_spec lockAccounts_error]])
      (use hold b ho books_opened holds_ok_opened in \<open>auto simp: ledger_inv_def repo_error_def sentinel_defs\<close>)
qed

end

end
