(* ===== verification/Ledger_Accounts.thy ===== *)
theory Ledger_Accounts
  imports Ledger_Holds "HOL-Library.Multiset"
begin

text \<open>
  The rest of the ledger service: reading balances (\<open>service/balance.go\<close>), the history of a
  user's balance (\<open>repo/history.go\<close>, \<open>service/balance_entries.go\<close>), manual adjustments by an
  administrator (\<open>service/adjust.go\<close>) and the two integrity checks (\<open>service/integrity.go\<close>,
  \<open>repo/integrity.go\<close>, \<open>pkg/integrity\<close>).

  The service reaches two other modules through Go interfaces: \<open>auditWriter\<close> and
  \<open>AccountStates\<close>. They are arguments here, acting on a part of the state that is not the
  ledger's, as the interfaces do.
\<close>

section \<open>Reading balances\<close>

definition Balances :: "uuid list \<Rightarrow> (err, ledger_db, uuid \<rightharpoonup> decimal) eff" where
  "Balances us =
     (if us = [] then ret Map.empty
      else bnd (UserBalances UserBalance us) (\<lambda>got.
        ret (fold (\<lambda>u out. out(u \<mapsto> 0)) us Map.empty ++ got)))"

definition Balance :: "uuid \<Rightarrow> (err, ledger_db, decimal) eff" where
  "Balance u = bnd (Balances [u]) (\<lambda>m. ret (case m u of Some b \<Rightarrow> b | None \<Rightarrow> 0))"

record history_row =
  hi_kind :: kind
  hi_dir :: direction
  hi_entry_amount :: decimal
  hi_memo :: string

text \<open>The entries of an account, newest first: the identifiers are drawn in time order.\<close>

definition account_entries :: "ledger_db \<Rightarrow> account_type \<Rightarrow> uuid \<Rightarrow> entry_row list" where
  "account_entries s t u =
     (case find (\<lambda>a. ar_type a = t \<and> ar_owner_user a = Some u \<and> ar_owner_ref a = '''') (accounts s) of
        None \<Rightarrow> []
      | Some a \<Rightarrow> rev (sort_key er_id (filter (\<lambda>e. er_account e = ar_id a) (entries s))))"

definition history_of :: "ledger_db \<Rightarrow> entry_row list \<Rightarrow> history_row list" where
  "history_of s es =
     concat (map (\<lambda>e. map (\<lambda>t. \<lparr>hi_kind = tr_kind t, hi_dir = er_dir e, hi_entry_amount = er_amount e, hi_memo = tr_memo t\<rparr>)
                    (filter (\<lambda>t. tr_id t = er_transaction e) (transactions s))) es)"

definition History :: "uuid \<Rightarrow> account_type \<Rightarrow> nat \<Rightarrow> (err, ledger_db, history_row list) eff" where
  "History u t limit = gets (\<lambda>s. take limit (history_of s (account_entries s t u)))"

record history_item =
  item_kind :: kind
  item_delta :: decimal
  item_memo :: string

record wallet =
  w_balance :: decimal
  w_history :: "history_item list"

abbreviation WalletHistoryLimit :: nat where "WalletHistoryLimit \<equiv> 100"

definition MyWallet :: "ctx \<Rightarrow> (err, ledger_db, wallet) eff" where
  "MyWallet c =
     bnd (lift_sum (principal_of c)) (\<lambda>p.
     bnd (Balance (UserID p)) (\<lambda>bal.
     bnd (History (UserID p) UserBalance WalletHistoryLimit) (\<lambda>rows.
       ret \<lparr>w_balance = bal,
            w_history = map (\<lambda>r. \<lparr>item_kind = hi_kind r,
                                  item_delta = signedDelta UserBalance (hi_dir r) (hi_entry_amount r),
                                  item_memo = hi_memo r\<rparr>) rows\<rparr>)))"

section \<open>Manual adjustments\<close>

record adjustment =
  adj_user :: uuid
  adj_amount :: decimal
  adj_reason :: string

record adjust_result =
  res_balance :: decimal
  res_txn :: uuid

definition adjustReasonMin :: nat where "adjustReasonMin = 5"
definition adjustReasonMax :: nat where "adjustReasonMax = 500"

definition errAccountDeleted :: err where
  "errAccountDeleted = Newf Conflict ''account was deleted''"

definition errReason :: err where
  "errReason = Invalid [(''reason'', ''give a reason of 5 to 500 characters'')]"

definition normalizeAdjustment :: "decimal_pkg \<Rightarrow> adjustment \<Rightarrow> err + string" where
  "normalizeAdjustment D a =
     (if adj_amount a = 0 then Inl (Newf ValidationFailed ''amount is zero'')
      else if Check D (adj_amount a) \<noteq> Inr () then Inl (Invalid [(''amount'', ''at most two decimals'')])
      else
        (let reason = trim_space (adj_reason a) in
         if \<not> valid_utf8 reason then Inl errReason
         else if has_nul reason then Inl errReason
         else if rune_count reason < adjustReasonMin \<or> rune_count reason > adjustReasonMax then Inl errReason
         else Inr reason))"

datatype audit_value = VText string | VUuid uuid

record audit_event =
  ev_action :: string
  ev_resource_type :: string
  ev_resource_id :: "uuid option"
  ev_data :: "(string \<times> audit_value) list"

text \<open>The state of a transaction that spans modules: the ledger, and what belongs to others.\<close>

type_synonym 'x world = "ledger_db \<times> 'x"

definition on_ledger :: "(err, ledger_db, 'a) eff \<Rightarrow> (err, 'x world, 'a) eff" where
  "on_ledger m = zoom fst (\<lambda>t w. (t, snd w)) m"

definition elsewhere :: "(err, 'x, 'a) eff \<Rightarrow> (err, 'x world, 'a) eff" where
  "elsewhere m = zoom snd (\<lambda>t w. (fst w, t)) m"

definition adjust_posting :: "adjustment \<Rightarrow> string \<Rightarrow> posting" where
  "adjust_posting a reason =
     \<lparr>p_kind = KindBalanceAdjusted, p_source_type = SourceUser, p_source_id = adj_user a, p_memo = reason,
      p_legs =
        (let m = \<bar>adj_amount a\<bar> in
         if adj_amount a > 0
         then [\<lparr>leg_account = PlatformAccount Suspense RefManualAdjust, leg_dir = Debit, leg_amount = m\<rparr>,
               \<lparr>leg_account = UserAccount UserBalance (adj_user a), leg_dir = Credit, leg_amount = m\<rparr>]
         else [\<lparr>leg_account = UserAccount UserBalance (adj_user a), leg_dir = Debit, leg_amount = m\<rparr>,
               \<lparr>leg_account = PlatformAccount Suspense RefManualAdjust, leg_dir = Credit, leg_amount = m\<rparr>])\<rparr>"

definition adjustBalance ::
  "decimal_pkg \<Rightarrow> (nat \<Rightarrow> uuid) \<Rightarrow> (audit_event \<Rightarrow> (err, 'x, unit) eff) \<Rightarrow> ctx \<Rightarrow> adjustment \<Rightarrow> string \<Rightarrow>
   (err, 'x world, adjust_result) eff" where
  "adjustBalance D gen audit c a reason =
     bnd (handle (on_ledger (postChecked D gen c (adjust_posting a reason)))
            (\<lambda>e. fail (if errors_Is e ErrInsufficientBalance
                       then Newf Conflict ''insufficient balance for this deduction'' else e))) (\<lambda>txn.
     bnd (on_ledger (Balance (adj_user a))) (\<lambda>after.
     bnd (elsewhere (audit \<lparr>ev_action = ''balance.adjusted'', ev_resource_type = ''user'',
            ev_resource_id = Some (adj_user a),
            ev_data = [(''amount'', VText (StringFixed D (adj_amount a) 2)), (''reason'', VText reason),
                       (''balance_after'', VText (StringFixed D after 2)), (''ledger_txn'', VUuid txn)]\<rparr>)) (\<lambda>_.
       ret \<lparr>res_balance = after, res_txn = txn\<rparr>)))"

text \<open>\<open>AccountStates\<close> is nil until it is injected: \<open>None\<close>.\<close>

definition AdjustBalance ::
  "decimal_pkg \<Rightarrow> (nat \<Rightarrow> uuid) \<Rightarrow> (audit_event \<Rightarrow> (err, 'x, unit) eff) \<Rightarrow>
   (uuid \<Rightarrow> (err, 'x, bool) eff) option \<Rightarrow> ctx \<Rightarrow> adjustment \<Rightarrow> (err, 'x world, adjust_result) eff" where
  "AdjustBalance D gen audit states c a =
     bnd (lift_sum (principal_of c)) (\<lambda>p.
     bnd (require (Audience p = AudienceAdmin) (New Forbidden)) (\<lambda>_.
     bnd (require (adj_user a \<noteq> uuid_Nil) ErrUserNotFound) (\<lambda>_.
     bnd (lift_sum (normalizeAdjustment D a)) (\<lambda>reason.
     case states of
       None \<Rightarrow> fail (Wrap Internal (Plain ''ledger: AccountStates not wired''))
     | Some IsDeleted \<Rightarrow>
         Do (\<lambda>w. ledger_commit (fst w)) c (\<lambda>c.
           bnd (if adj_amount a > 0 then elsewhere (IsDeleted (adj_user a)) else ret False) (\<lambda>deleted.
           if deleted then fail errAccountDeleted
           else adjustBalance D gen audit c a reason))))))"

section \<open>Integrity checks\<close>

abbreviation SampleLimit :: nat where "SampleLimit \<equiv> 5"

record check_result =
  chk_count :: nat
  chk_sample :: "uuid list"

text \<open>A check's SQL returns at most \<open>SampleLimit\<close> identifiers, each with the number of all of
  them; \<open>FromRows\<close> folds these rows.\<close>

definition sample_rows :: "uuid list \<Rightarrow> (uuid \<times> nat) list" where
  "sample_rows ids = map (\<lambda>i. (i, length ids)) (take SampleLimit (rev (sort ids)))"

definition FromRows :: "(uuid \<times> nat) list \<Rightarrow> check_result" where
  "FromRows rows =
     fold (\<lambda>(i, n) out. out\<lparr>chk_count := n, chk_sample := chk_sample out @ [i]\<rparr>) rows
       \<lparr>chk_count = 0, chk_sample = []\<rparr>"

definition side_sum :: "ledger_db \<Rightarrow> direction \<Rightarrow> uuid \<Rightarrow> decimal" where
  "side_sum s d i = sum_list (map er_amount (filter (\<lambda>e. er_account e = i \<and> er_dir e = d) (entries s)))"

definition DriftRows :: "account_type list \<Rightarrow> (err, ledger_db, (uuid \<times> nat) list) eff" where
  "DriftRows debitNormal =
     gets (\<lambda>s. sample_rows (map ar_id (filter (\<lambda>a.
       ar_balance a \<noteq> (if ar_type a \<in> set debitNormal
                        then side_sum s Debit (ar_id a) - side_sum s Credit (ar_id a)
                        else side_sum s Credit (ar_id a) - side_sum s Debit (ar_id a))) (accounts s))))"

definition HoldMismatchRows :: "(err, ledger_db, (uuid \<times> nat) list) eff" where
  "HoldMismatchRows =
     gets (\<lambda>s. sample_rows (map (\<lambda>a. the (ar_owner_user a)) (filter (\<lambda>a.
       ar_type a = UserBalanceHold \<and> ar_balance a \<noteq> held_sum s (the (ar_owner_user a))) (accounts s))))"

definition CheckDrift :: "(err, ledger_db, check_result) eff" where
  "CheckDrift =
     bnd (DriftRows (filter DebitNormal
            [UserBalance, UserBalanceHold, UserCommissionPending, UserCommissionAvailable, ChannelCash,
             PlatformRevenue, PlatformFeeExpense, PlatformPromoExpense, Suspense, LatePaymentSuspense]))
       (\<lambda>rows. ret (FromRows rows))"

definition CheckHolds :: "(err, ledger_db, check_result) eff" where
  "CheckHolds = bnd HoldMismatchRows (\<lambda>rows. ret (FromRows rows))"

section \<open>Reading\<close>

lemma user_account_row:
  "shaped a \<Longrightarrow> UserOwned t \<Longrightarrow> ar_type a = t \<and> ar_owner_user a = Some u \<longleftrightarrow> refOf a = UserAccount t u"
  by (cases "ar_owner_user a")
    (auto simp: refOf_def shaped_def owner_shape_def UserAccount_def PlatformAccount_def)

lemma filter_user_account:
  assumes wf: "wf_accounts s" and "UserOwned t"
  shows "filter (\<lambda>a. ar_type a = t \<and> ar_owner_user a = Some u) (accounts s) =
    (case account_of s (UserAccount t u) of None \<Rightarrow> [] | Some a \<Rightarrow> [a])"
proof -
  have "filter (\<lambda>a. ar_type a = t \<and> ar_owner_user a = Some u) (accounts s) =
      filter (\<lambda>a. refOf a = UserAccount t u) (accounts s)"
    using assms by (intro filter_cong) (auto simp: wf_accounts_def user_account_row)
  also have "\<dots> = (case account_of s (UserAccount t u) of None \<Rightarrow> [] | Some a \<Rightarrow> [a])"
  proof (cases "account_of s (UserAccount t u)")
    case None
    then have "UserAccount t u \<notin> refOf ` set (accounts s)" by (simp add: account_of_None)
    then have "filter (\<lambda>a. refOf a = UserAccount t u) (accounts s) = []" unfolding filter_empty_conv by (metis imageI)
    with None show ?thesis by simp
  next
    case (Some a)
    then have "a \<in> set (accounts s)" "refOf a = UserAccount t u" using wf by (simp_all add: account_of_Some)
    with Some filter_key_singleton [OF wf_distinct_refs [OF wf]] show ?thesis by fastforce
  qed
  finally show ?thesis .
qed

lemma Balance_run:
  assumes "wf_accounts s"
  shows "Balance u s = (Inr (balance_of s (UserAccount UserBalance u)), s)"
proof -
  have "ar_owner_user a = Some u" if "account_of s (UserAccount UserBalance u) = Some a" for a
    using that assms by (auto simp: account_of_Some wf_accounts_def user_account_row [symmetric])
  then show ?thesis
    by (cases "account_of s (UserAccount UserBalance u)")
      (auto simp: Balance_def Balances_def UserBalances_def bnd_def gets_def ret_def balance_of_def
        filter_user_account [OF assms])
qed

lemma Balance_wp: "wf_accounts s \<Longrightarrow> wp (Balance u) Q E s \<longleftrightarrow> Q (balance_of s (UserAccount UserBalance u)) s"
  by (simp add: wp_def Balance_run)

section \<open>Adjusting\<close>

lemma wp_on_ledger [wp_simps]:
  "wp (on_ledger m) Q E = (\<lambda>w. wp m (\<lambda>a t. Q a (t, snd w)) (\<lambda>e t. E e (t, snd w)) (fst w))"
  by (simp add: on_ledger_def wp_simps)

lemma wp_elsewhere [wp_simps]:
  "wp (elsewhere m) Q E = (\<lambda>w. wp m (\<lambda>a t. Q a (fst w, t)) (\<lambda>e t. E e (fst w, t)) (snd w))"
  by (simp add: elsewhere_def wp_simps)

lemma wp_any: "(\<And>a t. Q a t) \<Longrightarrow> (\<And>e t. E e t) \<Longrightarrow> wp m Q E s"
  by (auto simp: wp_def split: prod.split sum.split)

lemma adjust_spares: "spares_holds (adjust_posting a r)"
  by (simp add: spares_holds_def adjust_posting_def Let_def)

lemma adjust_sel [simp]:
  "p_kind (adjust_posting a r) = KindBalanceAdjusted" "p_memo (adjust_posting a r) = r"
  by (simp_all add: adjust_posting_def)

lemma adjust_effect:
  "leg_effect UserBalance (UserAccount UserBalance (adj_user a)) (p_legs (adjust_posting a r)) = adj_amount a"
  by (simp add: adjust_posting_def Let_def signedDelta_def UserAccount_def PlatformAccount_def)

lemma adjust_suspense:
  "leg_effect Suspense (PlatformAccount Suspense RefManualAdjust) (p_legs (adjust_posting a r)) = adj_amount a"
  by (simp add: adjust_posting_def Let_def signedDelta_def UserAccount_def PlatformAccount_def)

lemma adjust_other:
  "r \<noteq> UserAccount UserBalance (adj_user a) \<Longrightarrow> r \<noteq> PlatformAccount Suspense RefManualAdjust \<Longrightarrow>
   leg_effect t r (p_legs (adjust_posting a m)) = 0"
  by (rule leg_effect_untouched) (auto simp: adjust_posting_def Let_def)

text \<open>What an adjustment does to the ledger: the amount reaches the user's balance against the
  suspense account, and the result reports the new balance.\<close>

definition adjusted :: "ledger_db \<Rightarrow> adjustment \<Rightarrow> adjust_result \<Rightarrow> ledger_db \<Rightarrow> bool" where
  "adjusted s a res u \<longleftrightarrow>
     ledger_inv u \<and> journal_grows s u \<and> holds u = holds s \<and>
     res_balance res = balance_of u (UserAccount UserBalance (adj_user a)) \<and>
     balance_of u (UserAccount UserBalance (adj_user a)) = balance_of s (UserAccount UserBalance (adj_user a)) + adj_amount a \<and>
     balance_of u (PlatformAccount Suspense RefManualAdjust) =
       balance_of s (PlatformAccount Suspense RefManualAdjust) + adj_amount a \<and>
     (\<forall>r. r \<noteq> UserAccount UserBalance (adj_user a) \<and> r \<noteq> PlatformAccount Suspense RefManualAdjust \<longrightarrow>
        balance_of u r = balance_of s r) \<and>
     res_txn res \<in> tr_id ` set (transactions u) - tr_id ` set (transactions s)"

context decimal_laws
begin

lemma adjustBalance_spec:
  assumes inv: "ledger_inv (fst w)"
  shows "wp (adjustBalance D gen audit c a reason) (\<lambda>res v. adjusted (fst w) a res (fst v)) (\<lambda>_ _. True) w"
proof -
  have b: "books (fst w)" and ho: "holds_ok (fst w)" using inv by (simp_all add: ledger_inv_def)
  let ?p = "adjust_posting a reason"
  have "adjusted (fst w) a \<lparr>res_balance = balance_of u (UserAccount UserBalance (adj_user a)), res_txn = txn\<rparr> u"
    if u: "books u" "posted (fst w) c ?p txn u" for txn u
  proof -
    note same = posted_mono [OF u(2)]
    have "holds_ok u" by (rule posted_keeps_holds [OF ho u(2) adjust_spares]) simp_all
    moreover have "txn \<notin> tr_id ` set (transactions (fst w))" using u(2) by (simp add: posted_def)
    ultimately show ?thesis
      using u(1) posted_journal [OF u(2)]
      by (simp add: adjusted_def ledger_inv_def same adjust_effect adjust_suspense adjust_other)
  qed
  then have "wp (postChecked D gen c ?p)
      (\<lambda>txn u. wf_accounts u \<and>
        adjusted (fst w) a \<lparr>res_balance = balance_of u (UserAccount UserBalance (adj_user a)), res_txn = txn\<rparr> u)
      (\<lambda>_ _. True) (fst w)"
    by (intro wp_mono [OF postChecked_spec [OF b]]) (auto simp: books_def)
  then show ?thesis
    unfolding adjustBalance_def by (simp add: wp_simps) (erule wp_mono; simp add: Balance_wp wp_any)
qed

lemma AdjustBalance_spec:
  assumes inv: "ledger_inv (fst w)"
  shows "wp (AdjustBalance D gen audit states c a)
    (\<lambda>res v. adjusted (fst w) a res (fst v) \<and> (\<exists>p. principal_of c = Inr p \<and> Audience p = AudienceAdmin))
    (\<lambda>_ v. \<not> ctx_in_tx c \<longrightarrow> v = w) w"
proof (cases "principal_of c")
  case (Inr p)
  have body: "wp (bnd (if adj_amount a > 0 then elsewhere (IsDeleted (adj_user a)) else ret False) (\<lambda>deleted.
      if deleted then fail errAccountDeleted else adjustBalance D gen audit c' a reason))
      (\<lambda>res v. adjusted (fst w) a res (fst v)) (\<lambda>_ _. True) w" for c' reason IsDeleted
  proof -
    have "wp (adjustBalance D gen audit c' a reason) (\<lambda>res v. adjusted (fst w) a res (fst v)) (\<lambda>_ _. True) (fst w, x)" for x
      using adjustBalance_spec [of "(fst w, x)"] inv by simp
    then show ?thesis using adjustBalance_spec [OF inv] by (auto simp: wp_simps intro!: wp_any)
  qed
  have tx: "wp (Do (\<lambda>w. ledger_commit (fst w)) c (\<lambda>c.
      bnd (if adj_amount a > 0 then elsewhere (IsDeleted (adj_user a)) else ret False) (\<lambda>deleted.
      if deleted then fail errAccountDeleted else adjustBalance D gen audit c a reason)))
      (\<lambda>res v. adjusted (fst w) a res (fst v)) (\<lambda>_ v. \<not> ctx_in_tx c \<longrightarrow> v = w) w" for reason IsDeleted
  proof (cases "ctx_in_tx c")
    case True
    with body show ?thesis by simp
  next
    case False
    show ?thesis
      by (rule wp_mono [OF Do_outer_any [OF False]], rule body)
        (simp_all add: adjusted_def ledger_inv_def commit_books)
  qed
  show ?thesis
  proof (cases "normalizeAdjustment D a")
    case (Inr reason)
    note run = AdjustBalance_def wp_simps \<open>principal_of c = Inr p\<close> Inr
    consider "\<not> (Audience p = AudienceAdmin \<and> adj_user a \<noteq> uuid_Nil)" | "states = None"
      | IsDeleted where "states = Some IsDeleted" "Audience p = AudienceAdmin" "adj_user a \<noteq> uuid_Nil"
      by (cases states) auto
    then show ?thesis
    proof cases
      case 3
      then show ?thesis
        by (simp add: run del: wp_Do split del: if_split) (rule wp_mono [OF tx]; simp)
    qed (auto simp: run)
  qed (auto simp: AdjustBalance_def wp_simps \<open>principal_of c = Inr p\<close>)
qed (simp add: AdjustBalance_def wp_simps)

end

section \<open>The checks see what they are meant to see\<close>

lemma FromRows_sample:
  "FromRows (sample_rows ids) = \<lparr>chk_count = length ids, chk_sample = take SampleLimit (rev (sort ids))\<rparr>"
proof -
  have fold: "fold (\<lambda>(i, n) out. out\<lparr>chk_count := n, chk_sample := chk_sample out @ [i]\<rparr>) (map (\<lambda>i. (i, k)) xs) r =
      (if xs = [] then r else \<lparr>chk_count = k, chk_sample = chk_sample r @ xs\<rparr>)" for xs k and r :: check_result
    by (induction xs arbitrary: r) auto
  show ?thesis
    unfolding FromRows_def sample_rows_def fold by simp (metis length_0_conv length_sort)
qed

lemma signedDelta_sides:
  "d = Debit \<or> d = Credit \<Longrightarrow> signedDelta t d m =
     (if DebitNormal t then (if d = Debit then m else 0) - (if d = Credit then m else 0)
      else (if d = Credit then m else 0) - (if d = Debit then m else 0))"
  by (auto simp: signedDelta_def)

lemma entries_sum_sides:
  assumes "\<forall>e \<in> set (entries s). er_dir e = Debit \<or> er_dir e = Credit"
  shows "entries_sum s t i =
    (if DebitNormal t then side_sum s Debit i - side_sum s Credit i else side_sum s Credit i - side_sum s Debit i)"
proof -
  have "sum_list (map (entry_effect t i \<circ> entry_core) es) =
      (let d = sum_list (map er_amount (filter (\<lambda>e. er_account e = i \<and> er_dir e = Debit) es));
           c = sum_list (map er_amount (filter (\<lambda>e. er_account e = i \<and> er_dir e = Credit) es))
       in if DebitNormal t then d - c else c - d)" if "\<forall>e \<in> set es. er_dir e = Debit \<or> er_dir e = Credit" for es
    using that by (induction es) (auto simp: entry_effect_def entry_core_def signedDelta_def Let_def)
  with assms show ?thesis by (simp add: entries_sum_def side_sum_def Let_def)
qed

lemma debit_normal_types:
  "t \<in> set (filter DebitNormal
     [UserBalance, UserBalanceHold, UserCommissionPending, UserCommissionAvailable, ChannelCash,
      PlatformRevenue, PlatformFeeExpense, PlatformPromoExpense, Suspense, LatePaymentSuspense]) \<longleftrightarrow> DebitNormal t"
  by (cases t) simp_all

definition drifting :: "ledger_db \<Rightarrow> account_row list" where
  "drifting s = filter (\<lambda>a. ar_balance a \<noteq> entries_sum s (ar_type a) (ar_id a)) (accounts s)"

lemma CheckDrift_run:
  assumes "\<forall>e \<in> set (entries s). er_dir e = Debit \<or> er_dir e = Credit"
  shows "CheckDrift s = (Inr (FromRows (sample_rows (map ar_id (drifting s)))), s)"
  unfolding CheckDrift_def DriftRows_def drifting_def entries_sum_sides [OF assms] debit_normal_types
  by (simp add: bnd_def gets_def ret_def)

lemma drifting_none: "drifting s = [] \<longleftrightarrow> no_drift s"
  by (simp add: drifting_def no_drift_def filter_empty_conv)

definition mismatched :: "ledger_db \<Rightarrow> account_row list" where
  "mismatched s =
     filter (\<lambda>a. ar_type a = UserBalanceHold \<and> ar_balance a \<noteq> held_sum s (the (ar_owner_user a))) (accounts s)"

lemma CheckHolds_run:
  "CheckHolds s = (Inr (FromRows (sample_rows (map (\<lambda>a. the (ar_owner_user a)) (mismatched s)))), s)"
  by (simp add: CheckHolds_def HoldMismatchRows_def mismatched_def bnd_def gets_def ret_def)

lemma mismatched_none:
  assumes "ledger_inv s"
  shows "mismatched s = []"
proof -
  have wf: "wf_accounts s" and ho: "holds_ok s" using assms by (simp_all add: ledger_inv_def books_def)
  have "ar_balance a = held_sum s (the (ar_owner_user a))"
    if a: "a \<in> set (accounts s)" "ar_type a = UserBalanceHold" for a
  proof -
    from a wf obtain u where u: "ar_owner_user a = Some u" by (auto simp: wf_accounts_def shaped_def owner_shape_def)
    then have "refOf a = UserAccount UserBalanceHold u" using a(2) by (simp add: refOf_def)
    with balance_of_account [OF wf a(1)] ho u show ?thesis by (simp add: holds_ok_def)
  qed
  then show ?thesis by (auto simp: mismatched_def filter_empty_conv)
qed

section \<open>The wallet\<close>

lemma history_of_linked:
  assumes "distinct (map tr_id (transactions s))" and "\<forall>e \<in> set es. er_transaction e \<in> tr_id ` set (transactions s)"
  shows "map (\<lambda>r. (hi_dir r, hi_entry_amount r)) (history_of s es) = map (\<lambda>e. (er_dir e, er_amount e)) es"
  using assms(2)
proof (induction es)
  case Nil
  then show ?case by (simp add: history_of_def)
next
  case (Cons e es)
  then obtain t where t: "t \<in> set (transactions s)" "er_transaction e = tr_id t" by auto
  with filter_key_singleton [OF assms(1) t(1)] have "filter (\<lambda>x. tr_id x = er_transaction e) (transactions s) = [t]" by simp
  with Cons show ?case by (simp add: history_of_def)
qed

lemma account_entries_sum:
  assumes wf: "wf_accounts s" and "UserOwned t"
  shows "sum_list (map (\<lambda>e. signedDelta t (er_dir e) (er_amount e)) (account_entries s t u)) =
    (case account_of s (UserAccount t u) of None \<Rightarrow> 0 | Some a \<Rightarrow> entries_sum s t (ar_id a))"
proof -
  have "find (\<lambda>a. ar_type a = t \<and> ar_owner_user a = Some u \<and> ar_owner_ref a = '''') (accounts s) = account_of s (UserAccount t u)"
    unfolding account_of_def
  proof (rule find_cong [OF refl])
    fix a
    assume "a \<in> set (accounts s)"
    then have "shaped a" using wf by (simp add: wf_accounts_def)
    then show "(ar_type a = t \<and> ar_owner_user a = Some u \<and> ar_owner_ref a = '''') = (refOf a = UserAccount t u)"
      using user_account_row [OF \<open>shaped a\<close> assms(2), of u] by (auto simp: shaped_def owner_shape_def)
  qed
  moreover have "sum_list (map (\<lambda>e. signedDelta t (er_dir e) (er_amount e))
      (rev (sort_key er_id (filter (\<lambda>e. er_account e = i) es)))) =
      sum_list (map (entry_effect t i \<circ> entry_core) es)" for i es
  proof -
    have "sum_list (map (\<lambda>e. signedDelta t (er_dir e) (er_amount e)) (rev (sort_key er_id (filter (\<lambda>e. er_account e = i) es)))) =
        sum_mset (image_mset (\<lambda>e. signedDelta t (er_dir e) (er_amount e)) (mset (filter (\<lambda>e. er_account e = i) es)))"
      by (simp only: sum_mset_sum_list [symmetric] mset_map mset_rev mset_sort)
    also have "\<dots> = sum_list (map (\<lambda>e. signedDelta t (er_dir e) (er_amount e)) (filter (\<lambda>e. er_account e = i) es))"
      by (simp only: sum_mset_sum_list [symmetric] mset_map)
    also have "\<dots> = sum_list (map (entry_effect t i \<circ> entry_core) es)"
      by (simp add: sum_list_filter entry_effect_def entry_core_def o_def)
    finally show ?thesis .
  qed
  ultimately show ?thesis
    by (simp add: account_entries_def entries_sum_def split: option.split)
qed

lemma account_entries_linked: "e \<in> set (account_entries s t u) \<Longrightarrow> e \<in> set (entries s)"
  by (auto simp: account_entries_def split: option.splits)

end
