(* ===== verification/Machine.thy ===== *)
theory Machine
  imports Main
begin

text \<open>
  The contract of a component that is a state machine: an invariant that every step keeps, and a
  relation between an earlier and a later state that every step respects. What follows for whole
  runs is proved once, here; the components instantiate it with their own step relations.
\<close>

locale machine =
  fixes step :: "'s \<Rightarrow> 's \<Rightarrow> bool" and inv :: "'s \<Rightarrow> bool"
  assumes step_inv: "inv s \<Longrightarrow> step s t \<Longrightarrow> inv t"
begin

lemma run_inv: "step\<^sup>*\<^sup>* s t \<Longrightarrow> inv s \<Longrightarrow> inv t"
  by (induction rule: rtranclp_induct) (auto intro: step_inv)

end

locale monotone_machine = machine +
  fixes later :: "'s \<Rightarrow> 's \<Rightarrow> bool"
  assumes later_refl: "later s s"
    and later_trans: "later s t \<Longrightarrow> later t u \<Longrightarrow> later s u"
    and step_later: "inv s \<Longrightarrow> step s t \<Longrightarrow> later s t"
begin

lemma run_later: "step\<^sup>*\<^sup>* s t \<Longrightarrow> inv s \<Longrightarrow> later s t"
proof (induction rule: rtranclp_induct)
  case base
  show ?case by (rule later_refl)
next
  case (step t u)
  then show ?case using run_inv step_later later_trans by blast
qed

end

end
