(* ===== verification/Ledger.thy ===== *)
theory Ledger
  imports Ledger_Accounts Machine
begin

text \<open>
  The ledger as its clients see it: the operations with their own transactions, the interface
  they rely on, the state machine of all operations, and the properties of the component.
\<close>

section \<open>Operations with their own transaction\<close>

lemma relations_in_tx [simp]:
  "ended s (c\<lparr>ctx_in_tx := b\<rparr>) = ended s c" "settled s (c\<lparr>ctx_in_tx := b\<rparr>) = settled s c"
  "released s (c\<lparr>ctx_in_tx := b\<rparr>) = released s c" "captured s (c\<lparr>ctx_in_tx := b\<rparr>) = captured s c"
  by (simp_all add: ended_def settled_def released_def captured_def fun_eq_iff)

text \<open>An operation on the ledger either succeeds as described and keeps the invariant, or returns
  an error; then the overdraft constraint was not the cause, and outside a transaction of the
  caller nothing has changed.\<close>

definition does :: "(err, ledger_db, 'a) eff \<Rightarrow> ctx \<Rightarrow> (ledger_db \<Rightarrow> 'a \<Rightarrow> ledger_db \<Rightarrow> bool) \<Rightarrow> bool" where
  "does m c R \<longleftrightarrow>
     (\<forall>s. ledger_inv s \<longrightarrow>
        wp m (\<lambda>a t. ledger_inv t \<and> R s a t) (\<lambda>e t. \<not> errors_Is e ErrBalanceConstraint \<and> (\<not> ctx_in_tx c \<longrightarrow> t = s)) s)"

lemma doesD:
  assumes "does m c R" and "ledger_inv s"
  shows "m s = (Inr a, t) \<Longrightarrow> ledger_inv t \<and> R s a t"
    and "m s = (Inl e, t) \<Longrightarrow> \<not> errors_Is e ErrBalanceConstraint \<and> (\<not> ctx_in_tx c \<longrightarrow> t = s)"
  using assms by (auto simp: does_def dest: wp_okD wp_errD)

lemma does_keeps:
  assumes "does m c R" and "\<not> ctx_in_tx c" and "ledger_inv s" and "m s = (r, t)"
  shows "ledger_inv t"
  using doesD [OF assms(1,3)] assms by (cases r) auto

lemma does_Do:
  assumes "\<And>s c'. ledger_inv s \<Longrightarrow> actorOf c' = actorOf c \<Longrightarrow>
      wp (fn c') (\<lambda>a t. ledger_inv t \<and> R s a t) (\<lambda>e _. \<not> errors_Is e ErrBalanceConstraint) s"
  shows "does (Do ledger_commit c fn) c R"
  unfolding does_def
proof (intro allI impI)
  fix s
  assume inv: "ledger_inv s"
  show "wp (Do ledger_commit c fn) (\<lambda>a t. ledger_inv t \<and> R s a t)
    (\<lambda>e t. \<not> errors_Is e ErrBalanceConstraint \<and> (\<not> ctx_in_tx c \<longrightarrow> t = s)) s"
  proof (cases "ctx_in_tx c")
    case True
    with assms [OF inv, of c] show ?thesis by simp
  next
    case False
    have "wp (Do ledger_commit c fn) (\<lambda>a t. ledger_inv t \<and> R s a t)
        (\<lambda>e t. t = s \<and> (\<exists>u :: ledger_db. \<not> errors_Is e ErrBalanceConstraint)) s"
      by (rule Do_outer [OF False]) (rule assms [OF inv], simp, simp add: ledger_inv_def commit_books)
    then show ?thesis by (rule wp_mono) simp_all
  qed
qed

lemma does_validated:
  assumes "\<And>u. r = Inr u \<Longrightarrow> does m c R" and "\<And>e. r = Inl e \<Longrightarrow> \<not> errors_Is e ErrBalanceConstraint"
  shows "does (bnd (lift_sum r) (\<lambda>_. m)) c R"
  using assms by (cases r) (auto simp: does_def wp_simps)

lemma validate_errors:
  "validateHoldInput D i = Inl e \<Longrightarrow> \<not> errors_Is e ErrBalanceConstraint"
  "validateOrderPaid D p = Inl e \<Longrightarrow> \<not> errors_Is e ErrBalanceConstraint"
  by (auto simp: validateHoldInput_def validateOrderPaid_def Let_def invalid_posting_def sentinel_defs
      split: if_splits sum.splits)

lemma actorOf_relations:
  assumes "actorOf c' = actorOf c"
  shows "posted s c' = posted s c" "ended s c' = ended s c" "settled s c' = settled s c"
    "released s c' = released s c" "captured s c' = captured s c"
proof -
  show p: "posted s c' = posted s c" for s by (simp add: posted_def transaction_of_def assms fun_eq_iff)
  show "ended s c' = ended s c" for s by (simp add: ended_def p fun_eq_iff)
  then show "settled s c' = settled s c" "released s c' = released s c" for s
    by (simp_all add: settled_def released_def p fun_eq_iff)
  then show "captured s c' = captured s c" by (simp add: captured_def fun_eq_iff)
qed

context decimal_laws
begin

lemma HoldForOrder_does:
  "does (HoldForOrder D gen c i) c (\<lambda>s h u. input_ok i \<and> held s i h u)"
  unfolding HoldForOrder_def
proof (rule does_validated)
  fix u
  assume "validateHoldInput D i = Inr u"
  then have i: "input_ok i" using validateHoldInput_iff [of i] by simp
  show "does (Do ledger_commit c (\<lambda>c. holdForOrder D gen c i)) c (\<lambda>s h u. input_ok i \<and> held s i h u)"
    by (rule does_Do) (rule wp_mono [OF holdForOrder_spec [OF _ i]], auto simp: i refused_def)
qed (rule validate_errors)

lemma ReleaseOrderHold_does:
  "does (ReleaseOrderHold D gen c o_id memo) c (\<lambda>s b u. released s c o_id memo b u)"
  unfolding ReleaseOrderHold_def
proof (rule does_Do)
  fix s c'
  assume inv: "ledger_inv s" and a: "actorOf c' = actorOf c"
  show "wp (releaseOrderHold D gen c' o_id memo) (\<lambda>b u. ledger_inv u \<and> released s c o_id memo b u)
      (\<lambda>e _. \<not> errors_Is e ErrBalanceConstraint) s"
    using releaseOrderHold_spec [OF inv, of gen c' o_id memo] unfolding actorOf_relations [OF a]
    by (rule wp_mono) (simp_all add: refused_def)
qed

lemma PostOrderPaid_does:
  "does (PostOrderPaid D gen c p) c (\<lambda>s txn u. paid_ok p \<and> settled s c p txn u)"
  unfolding PostOrderPaid_def
proof (rule does_validated)
  fix u
  assume "validateOrderPaid D p = Inr u"
  then have p: "paid_ok p" using validateOrderPaid_iff [of p] by simp
  then have "0 \<le> op_total p" by (simp add: paid_ok_def)
  show "does (Do ledger_commit c (\<lambda>c. postOrderPaid D gen c p)) c (\<lambda>s txn u. paid_ok p \<and> settled s c p txn u)"
  proof (rule does_Do)
    fix s c'
    assume inv: "ledger_inv s" and a: "actorOf c' = actorOf c"
    show "wp (postOrderPaid D gen c' p) (\<lambda>txn u. ledger_inv u \<and> paid_ok p \<and> settled s c p txn u)
        (\<lambda>e _. \<not> errors_Is e ErrBalanceConstraint) s"
      using postOrderPaid_spec [OF inv \<open>0 \<le> op_total p\<close>, of gen c'] unfolding actorOf_relations [OF a]
      by (rule wp_mono) (simp_all add: p refused_def)
  qed
qed (rule validate_errors)

lemma CaptureFromBalance_does:
  "does (CaptureFromBalance D gen c i) c (\<lambda>s r u. input_ok i \<and> captured s c i r u)"
  unfolding CaptureFromBalance_def
proof (rule does_validated)
  fix u
  assume "validateHoldInput D i = Inr u"
  then have i: "input_ok i" using validateHoldInput_iff [of i] by simp
  show "does (Do ledger_commit c (\<lambda>c.
       bnd (lockAccounts gen
              [UserAccount UserBalance (hi_user i), UserAccount UserBalanceHold (hi_user i),
               PlatformAccount PlatformRevenue RefMain]) (\<lambda>_.
       bnd (holdForOrder D gen c i) (\<lambda>h.
       bnd (postOrderPaid D gen c (capture_order i)) (\<lambda>txn.
         ret (h\<lparr>h_status := HoldCaptured, h_capture_txn := Some txn\<rparr>, txn)))))) c
     (\<lambda>s r u. input_ok i \<and> captured s c i r u)"
  proof (rule does_Do)
    fix s c'
    assume inv: "ledger_inv s" and a: "actorOf c' = actorOf c"
    show "wp (bnd (lockAccounts gen
              [UserAccount UserBalance (hi_user i), UserAccount UserBalanceHold (hi_user i),
               PlatformAccount PlatformRevenue RefMain]) (\<lambda>_.
       bnd (holdForOrder D gen c' i) (\<lambda>h.
       bnd (postOrderPaid D gen c' (capture_order i)) (\<lambda>txn.
         ret (h\<lparr>h_status := HoldCaptured, h_capture_txn := Some txn\<rparr>, txn)))))
        (\<lambda>r u. ledger_inv u \<and> input_ok i \<and> captured s c i r u) (\<lambda>e _. \<not> errors_Is e ErrBalanceConstraint) s"
      using capture_spec [OF inv i, of gen c'] unfolding actorOf_relations [OF a]
      by (rule wp_mono) (simp_all add: i)
  qed
qed (rule validate_errors)

lemma Post_does:
  assumes "spares_holds p"
  shows "does (Post D gen c p) c (\<lambda>s i u. legs_ok (p_legs p) \<and> posted s c p i u)"
  unfolding does_def
proof (intro allI impI)
  fix s
  assume inv: "ledger_inv s"
  then have b: "books s" and ho: "holds_ok s" by (simp_all add: ledger_inv_def)
  have kind: "wp (Post D gen c p) (\<lambda>_ _. \<not> Dedicated (p_kind p)) (\<lambda>_ _. True) s"
  proof (cases "Dedicated (p_kind p)")
    case True
    then show ?thesis by (simp add: Post_def wp_simps)
  next
    case False
    then show ?thesis by (intro wp_any) simp_all
  qed
  have keep: "holds_ok u" if "posted s c p i u" "\<not> Dedicated (p_kind p)" for i u
  proof (rule posted_keeps_holds [OF ho that(1) assms])
    show "p_kind p \<noteq> KindBalanceHold" "p_kind p \<noteq> KindBalanceRelease"
      using that(2) by (auto simp: Dedicated_def)
  qed
  show "wp (Post D gen c p) (\<lambda>i u. ledger_inv u \<and> legs_ok (p_legs p) \<and> posted s c p i u)
      (\<lambda>e t. \<not> errors_Is e ErrBalanceConstraint \<and> (\<not> ctx_in_tx c \<longrightarrow> t = s)) s"
    by (rule wp_mono [OF wp_conj [OF Post_spec [OF b] kind]])
      (use keep in \<open>auto simp: ledger_inv_def refused_def\<close>)
qed

end

section \<open>The state machine of the ledger\<close>

text \<open>
  One step is one request outside of any transaction: any operation of the ledger, successful or
  not, on any arguments. A generic posting does not touch the accounts of held balance: no caller
  of \<open>Post\<close> does (\<open>user_balance_hold\<close> occurs in \<open>holds.go\<close> only). Users and orders appear, and
  the part of the database that belongs to other modules changes in any way.
\<close>

inductive ledger_step ::
  "decimal_pkg \<Rightarrow> (nat \<Rightarrow> uuid) \<Rightarrow> (audit_event \<Rightarrow> (err, 'x, unit) eff) \<Rightarrow> (uuid \<Rightarrow> (err, 'x, bool) eff) option \<Rightarrow>
   'x world \<Rightarrow> 'x world \<Rightarrow> bool"
  for D gen audit states where
  step_post: "\<not> ctx_in_tx c \<Longrightarrow> spares_holds p \<Longrightarrow> Post D gen c p s = (r, t) \<Longrightarrow>
     ledger_step D gen audit states (s, x) (t, x)"
| step_hold: "\<not> ctx_in_tx c \<Longrightarrow> HoldForOrder D gen c i s = (r, t) \<Longrightarrow>
     ledger_step D gen audit states (s, x) (t, x)"
| step_release: "\<not> ctx_in_tx c \<Longrightarrow> ReleaseOrderHold D gen c o_id memo s = (r, t) \<Longrightarrow>
     ledger_step D gen audit states (s, x) (t, x)"
| step_paid: "\<not> ctx_in_tx c \<Longrightarrow> PostOrderPaid D gen c p s = (r, t) \<Longrightarrow>
     ledger_step D gen audit states (s, x) (t, x)"
| step_capture: "\<not> ctx_in_tx c \<Longrightarrow> CaptureFromBalance D gen c i s = (r, t) \<Longrightarrow>
     ledger_step D gen audit states (s, x) (t, x)"
| step_adjust: "\<not> ctx_in_tx c \<Longrightarrow> AdjustBalance D gen audit states c a w = (r, v) \<Longrightarrow>
     ledger_step D gen audit states w v"
| step_user: "ledger_step D gen audit states (s, x) (s\<lparr>users := users s @ [u]\<rparr>, x)"
| step_order: "ledger_step D gen audit states (s, x) (s\<lparr>order_ids := order_ids s @ [o_id]\<rparr>, x)"
| step_other: "ledger_step D gen audit states (s, x) (s, y)"

definition hold_later :: "hold_row \<Rightarrow> hold_row \<Rightarrow> bool" where
  "hold_later h h' \<longleftrightarrow>
     hr_id h' = hr_id h \<and> hr_order h' = hr_order h \<and> hr_user h' = hr_user h \<and> hr_amount h' = hr_amount h \<and>
     (hr_status h \<noteq> HoldHeld \<longrightarrow> h' = h)"

definition ledger_later :: "ledger_db \<Rightarrow> ledger_db \<Rightarrow> bool" where
  "ledger_later s t \<longleftrightarrow>
     journal_grows s t \<and> (\<forall>h \<in> set (holds s). \<exists>h' \<in> set (holds t). hold_later h h')"

lemma hold_later_refl [simp]: "hold_later h h"
  by (simp add: hold_later_def)

lemma hold_later_trans: "hold_later h h' \<Longrightarrow> hold_later h' h'' \<Longrightarrow> hold_later h h''"
  by (auto simp: hold_later_def)

lemma ledger_later_refl [simp]: "ledger_later s s"
  by (auto simp: ledger_later_def intro!: bexI)

lemma ledger_later_trans: "ledger_later s t \<Longrightarrow> ledger_later t u \<Longrightarrow> ledger_later s u"
  unfolding ledger_later_def by (meson hold_later_trans journal_grows_trans)

lemma later_same_holds: "journal_grows s t \<Longrightarrow> set (holds s) \<subseteq> set (holds t) \<Longrightarrow> ledger_later s t"
  unfolding ledger_later_def by (meson hold_later_refl subsetD)

lemma posted_later: "posted s c p i u \<Longrightarrow> ledger_later s u"
  by (simp add: later_same_holds posted_journal posted_mono)

lemma held_later: "held s i h u \<Longrightarrow> ledger_later s u"
  by (auto simp: held_def intro!: later_same_holds)

lemma opened_later: "opened s t \<Longrightarrow> ledger_later s t"
  by (rule later_same_holds) (simp_all add: opened_journal opened_def)

lemma ended_later:
  assumes inv: "holds_ok s" and e: "ended s c p h f txn v" and f: "f = captured_by \<or> f = released_by"
  shows "ledger_later s v"
proof -
  from e obtain u where h: "h \<in> set (holds s)" "hr_status h = HoldHeld" and p: "posted s c p txn u"
    and v: "v = end_hold h (f txn) u" by (auto simp: ended_def)
  have hs: "holds u = holds s" using posted_mono(5) [OF p] .
  have dist: "distinct (map hr_id (holds s))" using inv by (simp add: holds_ok_def)
  have "\<exists>x' \<in> set (holds v). hold_later x x'" if x: "x \<in> set (holds s)" for x
  proof (cases "hr_id x = hr_id h")
    case True
    then have "x = h" using distinct_map_inj [OF dist x h(1)] by simp
    moreover have "f txn h \<in> set (holds v)" using h(1) hs by (simp add: v end_hold_this)
    ultimately show ?thesis using h(2) f by (intro bexI [of _ "f txn h"]) (auto simp: hold_later_def)
  next
    case False
    then have "x \<in> set (holds v)" using x hs by (simp add: v end_hold_other)
    then show ?thesis by (intro bexI [of _ x]) simp_all
  qed
  moreover have "journal_grows s v"
    using posted_journal [OF p] by (simp add: v journal_grows_def)
  ultimately show ?thesis by (simp add: ledger_later_def)
qed

lemma settled_later: "holds_ok s \<Longrightarrow> settled s c p txn v \<Longrightarrow> ledger_later s v"
  by (auto simp: settled_def intro: ended_later posted_later split: if_splits)

lemma released_later: "holds_ok s \<Longrightarrow> released s c o_id memo b v \<Longrightarrow> ledger_later s v"
  by (auto simp: released_def intro: ended_later split: if_splits)

lemma captured_later: "captured s c i r v \<Longrightarrow> ledger_later s v"
  unfolding captured_def ledger_inv_def
  by (meson ledger_later_trans opened_later held_later settled_later)

lemma ledger_inv_users: "ledger_inv s \<Longrightarrow> ledger_inv (s\<lparr>users := users s @ [u]\<rparr>)"
  by (auto simp: ledger_inv_def books_defs wf_accounts_def entries_sum_def txn_balanced_def txn_total_def
      holds_ok_def hold_row_ok_def journal_linked_def held_sum_def balance_of_def account_of_def pred_option_iff)

lemma ledger_inv_orders: "ledger_inv s \<Longrightarrow> ledger_inv (s\<lparr>order_ids := order_ids s @ [o_id]\<rparr>)"
  by (auto simp: ledger_inv_def books_defs wf_accounts_def entries_sum_def txn_balanced_def txn_total_def
      holds_ok_def hold_row_ok_def journal_linked_def held_sum_def balance_of_def account_of_def pred_option_iff)

lemma does_step:
  assumes "does m c R" and "\<not> ctx_in_tx c" and "ledger_inv s" and "m s = (r, t)"
    and "\<And>a t. R s a t \<Longrightarrow> ledger_inv t \<Longrightarrow> ledger_later s t"
  shows "ledger_inv t \<and> ledger_later s t"
  using doesD [OF assms(1,3)] assms by (cases r) auto

context decimal_laws
begin

lemma ledger_step_spec:
  assumes "ledger_step D gen audit states w v" and inv: "ledger_inv (fst w)"
  shows "ledger_inv (fst v) \<and> ledger_later (fst w) (fst v)"
  using assms
proof (cases rule: ledger_step.cases)
  case (step_post c p s r t x)
  moreover have "ledger_inv t \<and> ledger_later s t"
    by (rule does_step [OF Post_does [OF step_post(4)]]) (use step_post inv posted_later in auto)
  ultimately show ?thesis by simp
next
  case (step_hold c i s r t x)
  with inv show ?thesis by simp (rule does_step [OF HoldForOrder_does]; auto intro: held_later)
next
  case (step_release c o_id memo s r t x)
  then have ho: "holds_ok s" using inv by (simp add: ledger_inv_def)
  from step_release inv show ?thesis
    by simp (rule does_step [OF ReleaseOrderHold_does]; auto intro: released_later [OF ho])
next
  case (step_paid c p s r t x)
  then have ho: "holds_ok s" using inv by (simp add: ledger_inv_def)
  from step_paid inv show ?thesis
    by simp (rule does_step [OF PostOrderPaid_does]; auto intro: settled_later [OF ho])
next
  case (step_capture c i s r t x)
  with inv show ?thesis by simp (rule does_step [OF CaptureFromBalance_does]; auto intro: captured_later)
next
  case (step_adjust c a r)
  note spec = AdjustBalance_spec [OF inv, of gen audit states c a]
  show ?thesis
  proof (cases r)
    case (Inl e)
    with step_adjust wp_errD [OF spec, of e v] inv show ?thesis by simp
  next
    case (Inr res)
    with step_adjust wp_okD [OF spec, of res v] have "adjusted (fst w) a res (fst v)" by simp
    then show ?thesis by (auto simp: adjusted_def intro: later_same_holds)
  qed
next
  case (step_user s x u)
  with inv show ?thesis by (auto simp: ledger_inv_users journal_grows_def intro: later_same_holds)
next
  case (step_order s x o_id)
  with inv show ?thesis by (auto simp: ledger_inv_orders journal_grows_def intro: later_same_holds)
qed (use inv in simp)

end

sublocale decimal_laws \<subseteq> ledger: monotone_machine "ledger_step D gen audit states" "\<lambda>w. ledger_inv (fst w)"
  "\<lambda>w v. ledger_later (fst w) (fst v)" for gen audit states
  by unfold_locales (blast dest: ledger_step_spec intro: ledger_later_refl ledger_later_trans)+

context decimal_laws
begin

lemma run_ledger_inv:
  "(ledger_step D gen audit states)\<^sup>*\<^sup>* w v \<Longrightarrow> ledger_inv (fst w) \<Longrightarrow> ledger_inv (fst v)"
  by (rule ledger.run_inv)

lemma run_ledger_later:
  "(ledger_step D gen audit states)\<^sup>*\<^sup>* w v \<Longrightarrow> ledger_inv (fst w) \<Longrightarrow> ledger_later (fst w) (fst v)"
  by (rule ledger.run_later)

end

section \<open>The interface of the ledger\<close>

text \<open>
  What a module that posts relies on: a successful posting keeps the books good, moves every
  balance by the legs on that account and by nothing else, is balanced, and no account of a user
  is ever negative.
\<close>

locale ledger_api =
  fixes post :: "ctx \<Rightarrow> posting \<Rightarrow> (err, 's, uuid) eff" and good :: "'s \<Rightarrow> bool"
    and bal :: "'s \<Rightarrow> account_ref \<Rightarrow> decimal"
  assumes post_good: "good s \<Longrightarrow> post c p s = (Inr i, u) \<Longrightarrow> good u"
    and post_bal: "good s \<Longrightarrow> post c p s = (Inr i, u) \<Longrightarrow> bal u r = bal s r + leg_effect (acc_type r) r (p_legs p)"
    and post_balanced: "good s \<Longrightarrow> post c p s = (Inr i, u) \<Longrightarrow> total Debit (p_legs p) = total Credit (p_legs p)"
    and bal_nonneg: "good s \<Longrightarrow> UserOwned (acc_type r) \<Longrightarrow> 0 \<le> bal s r"
begin

text \<open>Several postings in a row add up.\<close>

lemma post_each:
  assumes "good s" and "for_each ps (\<lambda>p. bnd (post c p) (\<lambda>_. ret ())) s = (Inr (), u)"
  shows "good u \<and> bal u r = bal s r + sum_list (map (\<lambda>p. leg_effect (acc_type r) r (p_legs p)) ps)"
  using assms
proof (induction ps arbitrary: s)
  case Nil
  then show ?case by (simp add: ret_def)
next
  case (Cons p ps)
  then obtain i t where t: "post c p s = (Inr i, t)" "for_each ps (\<lambda>p. bnd (post c p) (\<lambda>_. ret ())) t = (Inr (), u)"
    by (auto simp: bnd_def ret_def split: prod.splits sum.splits)
  with Cons.IH [OF post_good [OF Cons.prems(1) t(1)] t(2)] post_bal [OF Cons.prems(1) t(1), of r]
  show ?case by simp
qed

text \<open>A transfer between two accounts of users moves exactly its amount, and the payer had it.\<close>

lemma transfer:
  assumes "good s" and post: "post c p s = (Inr i, u)"
    and legs: "p_legs p = [\<lparr>leg_account = a, leg_dir = Debit, leg_amount = m\<rparr>,
      \<lparr>leg_account = b, leg_dir = Credit, leg_amount = m\<rparr>]"
    and ab: "a \<noteq> b" "UserOwned (acc_type a)" "UserOwned (acc_type b)"
  shows "bal u a = bal s a - m" "bal u b = bal s b + m" "r \<noteq> a \<Longrightarrow> r \<noteq> b \<Longrightarrow> bal u r = bal s r" "m \<le> bal s a"
proof -
  note eff = post_bal [OF assms(1) post]
  have n: "\<not> DebitNormal (acc_type a)" "\<not> DebitNormal (acc_type b)"
    using ab(2,3) by (simp_all add: user_owned_credit_normal)
  show a: "bal u a = bal s a - m" using eff [of a] ab(1) n by (simp add: legs signedDelta_def)
  show "bal u b = bal s b + m" using eff [of b] ab(1) n by (simp add: legs signedDelta_def)
  show "r \<noteq> a \<Longrightarrow> r \<noteq> b \<Longrightarrow> bal u r = bal s r" using eff [of r] by (simp add: legs)
  show "m \<le> bal s a" using bal_nonneg [OF post_good [OF assms(1) post] ab(2)] a by simp
qed

end

lemma books_balance_nonneg:
  assumes "books s" and "UserOwned (acc_type r)"
  shows "0 \<le> balance_of s r"
proof (cases "account_of s r")
  case None
  then show ?thesis by (simp add: balance_of_def)
next
  case (Some a)
  then have a: "a \<in> set (accounts s)" "refOf a = r" using assms(1) by (simp_all add: account_of_Some books_def)
  moreover have "ar_owner_user a \<noteq> None"
    using assms a by (auto simp: books_def wf_accounts_def shaped_def owner_shape_def)
  ultimately show ?thesis using assms(1) Some by (simp add: balance_of_def books_def no_overdraft_def)
qed

sublocale decimal_laws \<subseteq> api: ledger_api "Post D gen" books balance_of for gen
proof unfold_locales
  fix s u :: ledger_db and c p i r
  assume b: "books s"
  { assume run: "Post D gen c p s = (Inr i, u)"
    note ok = wp_okD [OF Post_spec [OF b] run]
    show "books u" using ok by simp
    show "balance_of u r = balance_of s r + leg_effect (acc_type r) r (p_legs p)" using ok by (simp add: posted_def)
    show "total Debit (p_legs p) = total Credit (p_legs p)" using ok by (simp add: legs_ok_def) }
  show "UserOwned (acc_type r) \<Longrightarrow> 0 \<le> balance_of s r" by (rule books_balance_nonneg [OF b])
qed

section \<open>The accounting equation\<close>

definition normal_total :: "bool \<Rightarrow> ledger_db \<Rightarrow> decimal" where
  "normal_total d s = sum_list (map ar_balance (filter (\<lambda>a. DebitNormal (ar_type a) = d) (accounts s)))"

definition side :: "entry_row \<Rightarrow> decimal" where
  "side e = (if er_dir e = Debit then er_amount e else - er_amount e)"

lemma sides_by_transaction:
  assumes "distinct (map tr_id (transactions s))" and "\<forall>e \<in> set (entries s). er_transaction e \<in> tr_id ` set (transactions s)"
  shows "sum_list (map side (entries s)) =
    sum_list (map (\<lambda>t. sum_list (map (\<lambda>e. if tr_id t = er_transaction e then side e else 0) (entries s))) (transactions s))"
proof -
  have "sum_list (map side (entries s)) =
      sum_list (map (\<lambda>e. sum_list (map (\<lambda>t. if tr_id t = er_transaction e then side e else 0) (transactions s))) (entries s))"
    using assms by (intro arg_cong [of _ _ sum_list] map_cong) (simp_all add: sum_list_one_key)
  also have "\<dots> = sum_list (map (\<lambda>t. sum_list (map (\<lambda>e. if tr_id t = er_transaction e then side e else 0) (entries s))) (transactions s))"
    by (rule sum_list_swap)
  finally show ?thesis .
qed

lemma txn_sides:
  assumes "\<forall>e \<in> set (entries s). er_dir e = Debit \<or> er_dir e = Credit"
  shows "sum_list (map (\<lambda>e. if i = er_transaction e then side e else 0) (entries s)) = txn_total s Debit i - txn_total s Credit i"
proof -
  have "sum_list (map (\<lambda>e. if i = er_transaction e then side e else 0) es) =
      sum_list (map er_amount (filter (\<lambda>e. er_transaction e = i \<and> er_dir e = Debit) es)) -
      sum_list (map er_amount (filter (\<lambda>e. er_transaction e = i \<and> er_dir e = Credit) es))"
    if "\<forall>e \<in> set es. er_dir e = Debit \<or> er_dir e = Credit" for es
    using that by (induction es) (auto simp: side_def)
  with assms show ?thesis by (simp add: txn_total_def)
qed

lemma entries_cancel:
  assumes b: "books s"
  shows "sum_list (map side (entries s)) = 0"
proof -
  have dirs: "\<forall>e \<in> set (entries s). er_dir e = Debit \<or> er_dir e = Credit"
    and link: "\<forall>e \<in> set (entries s). er_transaction e \<in> tr_id ` set (transactions s)"
    and dist: "distinct (map tr_id (transactions s))"
    and bal: "\<forall>t \<in> set (transactions s). txn_balanced s (tr_id t)"
    using b by (auto simp: books_def entries_linked_def transactions_ok_def)
  have "map (\<lambda>t. sum_list (map (\<lambda>e. if tr_id t = er_transaction e then side e else 0) (entries s))) (transactions s) =
      map (\<lambda>_. 0) (transactions s)"
    using bal by (intro map_cong) (simp_all add: txn_sides [OF dirs] txn_balanced_def)
  from arg_cong [OF this, of sum_list] show ?thesis unfolding sides_by_transaction [OF dist link] by simp
qed

lemma normal_totals:
  "normal_total True s - normal_total False s =
     sum_list (map (\<lambda>a. if DebitNormal (ar_type a) then ar_balance a else - ar_balance a) (accounts s))"
proof -
  have "sum_list (map ar_balance (filter (\<lambda>a. DebitNormal (ar_type a) = True) as)) -
      sum_list (map ar_balance (filter (\<lambda>a. DebitNormal (ar_type a) = False) as)) =
      sum_list (map (\<lambda>a. if DebitNormal (ar_type a) then ar_balance a else - ar_balance a) as)" for as
    by (induction as) auto
  then show ?thesis by (simp add: normal_total_def)
qed

lemma signed_sides:
  assumes "\<forall>e \<in> set (entries s). er_dir e = Debit \<or> er_dir e = Credit"
  shows "(if DebitNormal t then entries_sum s t i else - entries_sum s t i) =
    sum_list (map (\<lambda>e. if i = er_account e then side e else 0) (entries s))"
proof -
  have "(if DebitNormal t then sum_list (map (entry_effect t i \<circ> entry_core) es)
         else - sum_list (map (entry_effect t i \<circ> entry_core) es)) =
      sum_list (map (\<lambda>e. if i = er_account e then side e else 0) es)"
    if "\<forall>e \<in> set es. er_dir e = Debit \<or> er_dir e = Credit" for es
    using that
  proof (induction es)
    case (Cons e es)
    then have "er_dir e = Debit \<or> er_dir e = Credit" by simp
    with Cons show ?case
      by (cases "DebitNormal t"; cases "er_account e = i")
        (auto simp: entry_effect_def entry_core_def signedDelta_def side_def)
  qed simp
  from this [OF assms] show ?thesis by (simp only: entries_sum_def)
qed

lemma accounting_equation:
  assumes b: "books s"
  shows "normal_total True s = normal_total False s"
proof -
  have dirs: "\<forall>e \<in> set (entries s). er_dir e = Debit \<or> er_dir e = Credit"
    and link: "\<forall>e \<in> set (entries s). er_account e \<in> ar_id ` set (accounts s)"
    and dist: "distinct (map ar_id (accounts s))"
    using b by (auto simp: books_def entries_linked_def wf_accounts_def)
  have "normal_total True s - normal_total False s =
      sum_list (map (\<lambda>a. sum_list (map (\<lambda>e. if ar_id a = er_account e then side e else 0) (entries s))) (accounts s))"
    unfolding normal_totals
  proof (intro arg_cong [of _ _ sum_list] map_cong refl)
    fix a
    assume "a \<in> set (accounts s)"
    then have "ar_balance a = entries_sum s (ar_type a) (ar_id a)" using b by (simp add: books_def no_drift_def)
    with signed_sides [OF dirs, of "ar_type a" "ar_id a"]
    show "(if DebitNormal (ar_type a) then ar_balance a else - ar_balance a) =
        sum_list (map (\<lambda>e. if ar_id a = er_account e then side e else 0) (entries s))" by (simp only:)
  qed
  also have "\<dots> = sum_list (map (\<lambda>e. sum_list (map (\<lambda>a. if ar_id a = er_account e then side e else 0) (accounts s))) (entries s))"
    by (rule sum_list_swap)
  also have "\<dots> = sum_list (map side (entries s))"
    using link dist by (intro arg_cong [of _ _ sum_list] map_cong) (simp_all add: sum_list_one_key)
  finally show ?thesis using entries_cancel [OF b] by simp
qed

section \<open>Settling moves the money of an order\<close>

text \<open>What settling an order adds to each account.\<close>

definition settle_effect :: "order_paid \<Rightarrow> account_ref \<Rightarrow> decimal" where
  "settle_effect p r =
     (if r = PlatformAccount ChannelCash (op_provider p) then op_paid p + op_surcharge p - op_fee p
      else if r = PlatformAccount PlatformFeeExpense (op_provider p) then op_fee p
      else if r = UserAccount UserBalanceHold (op_user p) then - (op_total p - op_paid p)
      else if r = PlatformAccount PlatformRevenue RefMain then op_total p
      else if r = PlatformAccount PlatformRevenue RefSurcharge then op_surcharge p
      else 0)"

lemma account_distinct [simp]:
  "UserAccount t u \<noteq> PlatformAccount t' x" if "UserOwned t" "\<not> UserOwned t'" for t t' u x
  using that by (auto simp: UserAccount_def PlatformAccount_def)

lemma settle_legs_effect:
  assumes "paid_ok p"
  shows "leg_effect (acc_type r) r (p_legs (order_paid_posting p)) = settle_effect p r"
proof -
  have pos: "op_paid p + op_surcharge p - op_fee p \<ge> 0" "op_total p - op_paid p \<ge> 0" "op_fee p \<ge> 0" "op_surcharge p \<ge> 0"
    using assms by (simp_all add: paid_ok_def)
  have single: "leg_effect (acc_type r) r (if 0 < m then [\<lparr>leg_account = a, leg_dir = d, leg_amount = m\<rparr>] else []) =
      (if r = a then signedDelta (acc_type a) d m else 0)" if "0 \<le> m" for a d m
    using that by (auto simp: signedDelta_def)
  have app: "leg_effect t r (xs @ ys) = leg_effect t r xs + leg_effect t r ys" for t xs ys
    by (induction xs) simp_all
  show ?thesis
    unfolding order_paid_posting_def orderPaidLegs_def Let_def posting.select_convs app
      single [OF pos(1)] single [OF pos(2)] single [OF pos(3)] single [OF pos(4)]
    by (auto simp: settle_effect_def signedDelta_def PlatformAccount_def UserAccount_def)
qed

lemma settled_balance:
  assumes "settled s c p txn u" and "paid_ok p" and "op_total p \<noteq> 0"
  shows "balance_of u r = balance_of s r + settle_effect p r"
proof -
  obtain v where "posted s c (order_paid_posting p) txn v" and "balance_of u r = balance_of v r"
    using assms(1,3) by (auto simp: settled_def ended_def split: if_splits)
  then show ?thesis using posted_mono(6) [of s c "order_paid_posting p" txn v r] by (simp add: settle_legs_effect [OF assms(2)])
qed

lemma ended_hold:
  assumes "ended s c p h f txn u"
  shows "h \<in> set (holds s) \<and> hr_status h = HoldHeld \<and> f txn h \<in> set (holds u) \<and>
    balance_of u r = balance_of s r + leg_effect (acc_type r) r (p_legs p)"
proof -
  obtain v where v: "h \<in> set (holds s)" "hr_status h = HoldHeld" "posted s c p txn v" "u = end_hold h (f txn) v"
    using assms by (auto simp: ended_def)
  then show ?thesis using posted_mono(5,6) [OF v(3)] by (simp add: end_hold_this)
qed

lemma settled_hold:
  assumes "settled s c p txn u" and "op_paid p < op_total p" and "op_total p \<noteq> 0"
  shows "\<exists>h \<in> set (holds s). hr_order h = op_order p \<and> hr_user h = op_user p \<and> hr_status h = HoldHeld \<and>
    hr_amount h = op_total p - op_paid p \<and> captured_by txn h \<in> set (holds u)"
  using assms ended_hold [of s c "order_paid_posting p" _ captured_by txn u] by (auto simp: settled_def)

lemma orderPaidLegs_ok:
  assumes p: "paid_ok p" and "op_total p \<noteq> 0"
  shows "legs_ok (p_legs (order_paid_posting p))"
proof -
  have tot: "0 < op_total p" using assms by (simp add: paid_ok_def)
  let ?legs = "p_legs (order_paid_posting p)"
  have sums: "total Debit ?legs = op_total p + op_surcharge p" "total Credit ?legs = op_total p + op_surcharge p"
    using p by (auto simp: order_paid_posting_def orderPaidLegs_def Let_def paid_ok_def)
  have "\<forall>l \<in> set ?legs. leg_ok l"
    using p tot
    by (auto simp: order_paid_posting_def orderPaidLegs_def Let_def leg_ok_def ref_ok_def paid_ok_def
        intro!: two_decimals_diff two_decimals_add)
  moreover have "2 \<le> length ?legs"
  proof (rule ccontr)
    assume "\<not> 2 \<le> length ?legs"
    then have "?legs = [\<lparr>leg_account = PlatformAccount PlatformRevenue RefMain, leg_dir = Credit, leg_amount = op_total p\<rparr>]"
      by (auto simp: order_paid_posting_def orderPaidLegs_def Let_def split: if_splits)
    with sums(1) tot p show False by (simp add: paid_ok_def)
  qed
  ultimately show ?thesis using sums by (simp add: legs_ok_def)
qed

lemma order_header_ok: "op_order p \<noteq> uuid_Nil \<Longrightarrow> header_ok (order_paid_posting p)"
  by (simp add: header_ok_def order_paid_posting_def Kind_Valid_def sourceTypePattern_def valid_utf8_def
      has_nul_def rune_count_def less_eq_char_def)

section \<open>A held balance can be given back\<close>

lemma release_header_ok:
  "o_id \<noteq> uuid_Nil \<Longrightarrow> text_param memo \<Longrightarrow> rune_count memo \<le> 500 \<Longrightarrow> header_ok (release_posting h o_id memo)"
  by (simp add: header_ok_def release_posting_def Kind_Valid_def sourceTypePattern_def text_param_def less_eq_char_def)

lemma can_release:
  assumes inv: "ledger_inv s" and h: "h \<in> set (holds s)" "hr_status h = HoldHeld"
    and memo: "text_param memo" "rune_count memo \<le> 500"
    and fits: "numeric_20_2 (balance_of s (UserAccount UserBalance (hr_user h)) + hr_amount h)"
  shows "can_post s (release_posting h (hr_order h) memo)"
proof -
  let ?p = "release_posting h (hr_order h) memo"
  let ?hold = "UserAccount UserBalanceHold (hr_user h)" and ?bal = "UserAccount UserBalance (hr_user h)"
  have b: "books s" and ho: "holds_ok s" using inv by (simp_all add: ledger_inv_def)
  have row: "hold_row_ok s h" using ho h by (simp add: holds_ok_def)
  have "hr_amount h \<le> balance_of s ?hold"
    using held_amount_le [OF ho h] ho by (simp add: holds_ok_def)
  moreover have "\<bar>balance_of s ?hold\<bar> < 10 ^ 18"
  proof (cases "account_of s ?hold")
    case (Some a)
    then have a: "a \<in> set (accounts s)" "refOf a = ?hold" using b by (simp_all add: account_of_Some books_def)
    then have "balance_of s ?hold = ar_balance a" using balance_of_account [of s a] b by (simp add: books_def)
    then show ?thesis using b a by (simp add: books_def exact_amounts_def numeric_20_2_def)
  qed (simp add: balance_of_def)
  ultimately have hold: "balance_allows s (p_legs ?p) ?hold"
    using row by (auto simp: balance_allows_def release_posting_def signedDelta_def numeric_20_2_def hold_row_ok_def)
  have "0 \<le> balance_of s ?bal" using books_balance_nonneg [OF b] by simp
  then have bal: "balance_allows s (p_legs ?p) ?bal"
    using row fits by (simp add: balance_allows_def release_posting_def signedDelta_def hold_row_ok_def)
  have "text_param []" by (simp add: text_param_def valid_utf8_def has_nul_def)
  then have "\<forall>l \<in> set (p_legs ?p). leg_usable s (p_legs ?p) l"
    using row hold bal by (auto simp: leg_usable_def hold_row_ok_def release_posting_def [of h "hr_order h" memo])
  moreover have "legs_ok (p_legs ?p)"
    using row by (simp add: legs_ok_def leg_ok_def ref_ok_def release_posting_def hold_row_ok_def)
  moreover have "\<not> already_posted s ?p"
  proof
    assume "already_posted s ?p"
    then obtain t where "t \<in> set (transactions s)" "tr_kind t = KindBalanceRelease" "tr_source_id t = Some (hr_order h)"
      by (auto simp: already_posted_def list_ex_iff)
    with ho obtain x where x: "x \<in> set (holds s)" "hr_order x = hr_order h" "hr_status x = HoldReleased"
      by (auto simp: holds_ok_def journal_linked_def)
    have "distinct (map hr_order (holds s))" using ho by (simp add: holds_ok_def)
    from distinct_map_inj [OF this x(1) h(1) x(2)] x(3) h(2) show False by simp
  qed
  ultimately show ?thesis
    using release_header_ok [of "hr_order h" memo h] memo row by (simp add: can_post_def hold_row_ok_def)
qed

context decimal_laws
begin

lemma releaseOrderHold_ok:
  assumes inv: "ledger_inv s" and fresh: "ids_fresh gen s" and h: "h \<in> set (holds s)" "hr_status h = HoldHeld"
    and memo: "text_param memo" "rune_count memo \<le> 500"
    and fits: "numeric_20_2 (balance_of s (UserAccount UserBalance (hr_user h)) + hr_amount h)"
  shows "wp (releaseOrderHold D gen c (hr_order h) memo) (\<lambda>r _. r) (\<lambda>_ _. False) s"
proof -
  have b: "books s" and ho: "holds_ok s" using inv by (simp_all add: ledger_inv_def)
  have "distinct (map hr_order (holds s))" using ho by (simp add: holds_ok_def)
  then have found: "find (\<lambda>x. hr_order x = hr_order h) (holds s) = Some h" using h(1) by (rule find_key)
  have mark: "wp (MarkHoldReleased (hr_id h) txn) (\<lambda>ok _. ok) (\<lambda>_ _. False) u"
    if "books u \<and> posted s c (release_posting h (hr_order h) memo) txn u \<and> ids_fresh gen u" for txn u
    by (rule wp_mono [OF MarkHold_spec(2) [OF ho h]])
      (use that posted_mono(2,5) [of s c "release_posting h (hr_order h) memo" txn u] in auto)
  have "wp (postChecked D gen c (release_posting h (hr_order h) memo))
      (\<lambda>txn. wp (MarkHoldReleased (hr_id h) txn) (\<lambda>ok _. ok) (\<lambda>_ _. False)) (\<lambda>_ _. False) s"
    by (rule wp_mono [OF postChecked_ok [OF b fresh can_release [OF inv h memo fits]]]) (use mark in auto)
  then show ?thesis
    using found h(2) unfolding releaseOrderHold_def LockHoldByOrder_def wp_bnd wp_gets
    by (simp add: wp_simps) (erule wp_mono; simp?; erule wp_mono; simp add: wp_simps)
qed

lemma Post_ok:
  assumes "books s" and "ids_fresh gen s" and "\<not> Dedicated (p_kind p)" and "can_post s p"
  shows "wp (Post D gen c p) (\<lambda>i u. books u \<and> posted s c p i u) (\<lambda>_ _. False) s"
proof -
  have "wp (Do ledger_commit c (\<lambda>c. postChecked D gen c p)) (\<lambda>i u. books u \<and> posted s c p i u) (\<lambda>_ _. False) s"
  proof (rule Do_ok [of actorOf])
    fix c'
    assume a: "actorOf c' = actorOf c"
    show "wp (postChecked D gen c' p) (\<lambda>i u. books u \<and> posted s c p i u) (\<lambda>_ _. False) s"
      by (rule wp_mono [OF postChecked_ok [OF assms(1,2,4)]]) (auto simp: actorOf_relations(1) [OF a])
  qed (simp_all add: commit_books)
  with assms(3) show ?thesis by (simp add: Post_def)
qed

lemma ReleaseOrderHold_ok:
  assumes inv: "ledger_inv s" and "ids_fresh gen s" and "h \<in> set (holds s)" "hr_status h = HoldHeld"
    and "text_param memo" "rune_count memo \<le> 500"
    and "numeric_20_2 (balance_of s (UserAccount UserBalance (hr_user h)) + hr_amount h)"
  shows "wp (ReleaseOrderHold D gen c (hr_order h) memo)
    (\<lambda>b u. b \<and> ledger_inv u \<and> released s c (hr_order h) memo True u) (\<lambda>_ _. False) s"
  unfolding ReleaseOrderHold_def
proof (rule Do_ok [of actorOf])
  fix c'
  assume a: "actorOf c' = actorOf c"
  from wp_conj [OF releaseOrderHold_ok [OF assms] releaseOrderHold_spec [OF inv]]
  show "wp (releaseOrderHold D gen c' (hr_order h) memo)
      (\<lambda>b u. b \<and> ledger_inv u \<and> released s c (hr_order h) memo True u) (\<lambda>_ _. False) s"
    by (rule wp_mono) (auto simp: actorOf_relations(4) [OF a])
qed (auto simp: ledger_inv_def commit_books)

lemma Post_again:
  assumes "already_posted s p" and "\<not> Dedicated (p_kind p)" and "header_ok p" and "legs_ok (p_legs p)"
  shows "Post D gen c p s = (Inl ErrDuplicatePosting, s)"
proof -
  have "validatePosting D p = Inr ()" using assms by (simp add: validatePosting_iff)
  then have "postChecked D gen c' p s = (Inl ErrDuplicatePosting, s)" for c'
    using assms(1) by (simp add: postChecked_def post_def already_posted_def TransactionExists_def bnd_def eff_simps)
  then show ?thesis using assms(2) by (simp add: Post_def Do_def)
qed

lemma Post_not_dedicated: "Post D gen c p s = (Inr i, u) \<Longrightarrow> \<not> Dedicated (p_kind p)"
  by (auto simp: Post_def eff_simps)

end

lemma posted_already:
  assumes "posted s c p i t" and "journal_grows t u" and "OnePerSource (p_kind p)"
    and "p_source_type p \<noteq> ''''" and "p_source_id p \<noteq> uuid_Nil"
    and "p_kind q = p_kind p" "p_source_type q = p_source_type p" "p_source_id q = p_source_id p"
  shows "already_posted u q"
proof -
  have "(transaction_of c p)\<lparr>tr_id := i\<rparr> \<in> set (transactions u)"
    using assms(1,2) by (auto simp: posted_def journal_grows_def)
  then show ?thesis
    using assms(3-) by (auto simp: already_posted_def list_ex_iff transaction_of_def intro!: bexI)
qed

end
