(* ===== verification/Ledger_Theorems.thy ===== *)
theory Ledger_Theorems
  imports Ledger
begin

text \<open>
  The properties of the ledger, each with a witness on a concrete ledger: the books stay sound over
  every run, a posting does what its legs say or nothing, money held for an order is settled or
  given back exactly once, and what the reports and the self-checks compute is what they claim.
\<close>

section \<open>A concrete ledger\<close>

definition empty_ledger :: "uuid list \<Rightarrow> uuid list \<Rightarrow> ledger_db" where
  "empty_ledger us os = \<lparr>users = us, order_ids = os, accounts = [], transactions = [], entries = [], holds = [], drawn = 0\<rparr>"

abbreviation no_ctx :: ctx where
  "no_ctx \<equiv> \<lparr>ctx_principal = None, ctx_in_tx = False\<rparr>"

abbreviation ids_from :: "nat \<Rightarrow> uuid" where
  "ids_from n \<equiv> n + 100"

definition a_topup :: posting where
  "a_topup = \<lparr>p_kind = KindBalanceTopup, p_source_type = ''payment'', p_source_id = 9, p_memo = '''',
     p_legs = [\<lparr>leg_account = PlatformAccount ChannelCash ''epay'', leg_dir = Debit, leg_amount = 25 / 2\<rparr>,
               \<lparr>leg_account = UserAccount UserBalance 7, leg_dir = Credit, leg_amount = 25 / 2\<rparr>]\<rparr>"

definition a_hold :: hold_input where
  "a_hold = \<lparr>hi_order = 20, hi_user = 7, hi_amount = 5\<rparr>"

definition an_order_paid :: order_paid where
  "an_order_paid = \<lparr>op_order = 20, op_user = 7, op_total = 8, op_paid = 3, op_fee = 1 / 10, op_surcharge = 1 / 2,
     op_provider = ''epay''\<rparr>"

text \<open>User 7 tops up 12.50, then 5.00 of it are held for order 20.\<close>

definition a_ledger :: ledger_db where
  "a_ledger = empty_ledger [7] [20, 21]"

definition topped_up :: ledger_db where
  "topped_up = snd (Post exact_decimal ids_from no_ctx a_topup a_ledger)"

definition with_hold :: ledger_db where
  "with_hold = snd (HoldForOrder exact_decimal ids_from no_ctx a_hold topped_up)"

lemma empty_ledger_inv: "ledger_inv (empty_ledger us os)"
  by (simp add: ledger_inv_def books_defs wf_accounts_def empty_ledger_def holds_ok_def journal_linked_def
      held_sum_def balance_of_def account_of_def entries_sum_def)

lemma a_topup_run: "Post exact_decimal ids_from no_ctx a_topup a_ledger = (Inr 102, topped_up)"
proof -
  have "fst (Post exact_decimal ids_from no_ctx a_topup a_ledger) = Inr 102" by code_simp
  then show ?thesis by (simp add: topped_up_def prod_eq_iff)
qed

definition the_hold :: hold where
  "the_hold = \<lparr>h_id = 110, h_order = 20, h_user = 7, h_amount = 5, h_status = HoldHeld, h_hold_txn = 107,
     h_capture_txn = None, h_release_txn = None\<rparr>"

lemma a_hold_run: "HoldForOrder exact_decimal ids_from no_ctx a_hold topped_up = (Inr the_hold, with_hold)"
proof -
  have "fst (HoldForOrder exact_decimal ids_from no_ctx a_hold topped_up) = Inr the_hold" by code_simp
  then show ?thesis by (simp add: with_hold_def prod_eq_iff)
qed

lemma topped_up_inv: "ledger_inv topped_up"
  using doesD(1) [OF exact.Post_does empty_ledger_inv, of a_topup ids_from no_ctx "[7]" "[20, 21]" 102 topped_up]
    a_topup_run by (simp add: a_topup_def spares_holds_def a_ledger_def PlatformAccount_def UserAccount_def)

lemma with_hold_inv: "ledger_inv with_hold"
  using doesD(1) [OF exact.HoldForOrder_does topped_up_inv a_hold_run] by simp

section \<open>Soundness over every run\<close>

text \<open>
  C1. Whatever sequence of ledger requests runs on a new database, successful or refused, every
  stored balance is the sum of its entries, no account of a user is negative, every transaction
  balances, the debit-normal and the credit-normal accounts add up to the same total, and the
  held-balance account of every user is the sum of the holds still open. The postings of a run leave
  the held-balance accounts to the operations on holds (\<open>spares_holds\<close>), as every caller in the
  repository does; \<open>Post\<close> itself does not check it.
\<close>

theorem ledger_sound:
  assumes "decimal_laws D" and "(ledger_step D gen audit states)\<^sup>*\<^sup>* (empty_ledger us os, x) w"
  shows "no_drift (fst w) \<and> no_overdraft (fst w) \<and> transactions_ok (fst w) \<and>
    normal_total True (fst w) = normal_total False (fst w) \<and>
    (\<forall>u. balance_of (fst w) (UserAccount UserBalanceHold u) = held_sum (fst w) u)"
proof -
  have "ledger_inv (fst w)"
    using decimal_laws.run_ledger_inv [OF assms] empty_ledger_inv by simp
  then show ?thesis using accounting_equation [of "fst w"] by (simp add: ledger_inv_def books_def holds_ok_def)
qed

theorem ledger_sound_witness:
  "normal_total True topped_up = normal_total False topped_up \<and> no_overdraft topped_up"
proof -
  have "ledger_step exact_decimal ids_from (\<lambda>_. ret ()) None (empty_ledger [7] [20, 21], ()) (topped_up, ())"
    using a_topup_run
    by (intro step_post [of no_ctx a_topup]) (simp_all add: a_topup_def a_ledger_def spares_holds_def PlatformAccount_def UserAccount_def)
  from ledger_sound [OF exact.decimal_laws_axioms r_into_rtranclp [of "ledger_step exact_decimal ids_from (\<lambda>_. ret ()) None", OF this]]
  show ?thesis by simp
qed

text \<open>
  C2. Over any run the journal only grows at its end, and a hold keeps its order, its user and its
  amount; once it is captured or released it never changes again. As in every run here, the postings
  leave the held-balance accounts to the operations on holds.
\<close>

theorem history_is_final:
  assumes "decimal_laws D" and "ledger_inv (fst w)" and "(ledger_step D gen audit states)\<^sup>*\<^sup>* w v"
  shows "(\<exists>ts. transactions (fst v) = transactions (fst w) @ ts) \<and> (\<exists>es. entries (fst v) = entries (fst w) @ es) \<and>
    (\<forall>h \<in> set (holds (fst w)). \<exists>h' \<in> set (holds (fst v)).
       hr_id h' = hr_id h \<and> hr_order h' = hr_order h \<and> hr_user h' = hr_user h \<and> hr_amount h' = hr_amount h \<and>
       (hr_status h \<noteq> HoldHeld \<longrightarrow> h' = h))"
  using decimal_laws.run_ledger_later [OF assms(1,3,2)]
  by (simp add: ledger_later_def journal_grows_def hold_later_def)

theorem history_is_final_witness:
  "\<exists>ts. transactions with_hold = transactions topped_up @ ts"
proof -
  have "ledger_step exact_decimal ids_from (\<lambda>_. ret ()) None (topped_up, ()) (with_hold, ())"
    by (rule step_hold [OF _ a_hold_run]) simp
  from history_is_final [OF exact.decimal_laws_axioms _ r_into_rtranclp [of "ledger_step exact_decimal ids_from (\<lambda>_. ret ()) None", OF this]]
    topped_up_inv show ?thesis by simp
qed

section \<open>Postings\<close>

text \<open>
  C3. A successful \<open>Post\<close> keeps the books sound, appends one transaction with one entry per leg, and
  changes every balance of the ledger by exactly the signed sum of the legs on that account.
\<close>

theorem Post_effect:
  assumes "decimal_laws D" and "books s" and "Post D gen c p s = (Inr i, u)"
  shows "books u \<and> (\<forall>r. balance_of u r = balance_of s r + leg_effect (acc_type r) r (p_legs p)) \<and>
    total Debit (p_legs p) = total Credit (p_legs p) \<and>
    transactions u = transactions s @ [(transaction_of c p)\<lparr>tr_id := i\<rparr>] \<and> holds u = holds s \<and>
    (\<exists>new. entries u = entries s @ new \<and>
       map (\<lambda>e. (er_transaction e, er_dir e, er_amount e)) new = map (\<lambda>l. (i, leg_dir l, leg_amount l)) (p_legs p))"
  using wp_okD [OF decimal_laws.Post_spec [OF assms(1,2)] assms(3)] by (simp add: posted_def legs_ok_def)

theorem Post_effect_witness:
  "balance_of topped_up (UserAccount UserBalance 7) = balance_of a_ledger (UserAccount UserBalance 7) + 25 / 2"
proof -
  have "books a_ledger" using empty_ledger_inv by (simp add: a_ledger_def ledger_inv_def)
  from Post_effect [OF exact.decimal_laws_axioms this a_topup_run]
  show ?thesis by (simp add: a_topup_def signedDelta_def DebitNormal_def PlatformAccount_def UserAccount_def)
qed

text \<open>
  C4. A \<open>Post\<close> that returns an error outside a transaction has changed nothing, and the error is
  never the overdraft constraint of the table: the service's own check comes first.
\<close>

theorem Post_refused:
  assumes "decimal_laws D" and "books s" and "\<not> ctx_in_tx c" and "Post D gen c p s = (Inl e, u)"
  shows "u = s \<and> \<not> errors_Is e ErrBalanceConstraint"
  using wp_errD [OF decimal_laws.Post_spec [OF assms(1,2)] assms(4)] assms(3) by (simp add: refused_def)

definition a_withdrawal :: posting where
  "a_withdrawal = \<lparr>p_kind = KindPlanChangeRefund, p_source_type = ''order'', p_source_id = 9, p_memo = '''',
     p_legs = [\<lparr>leg_account = UserAccount UserBalance 7, leg_dir = Debit, leg_amount = 20\<rparr>,
               \<lparr>leg_account = PlatformAccount PlatformRevenue RefMain, leg_dir = Credit, leg_amount = 20\<rparr>]\<rparr>"

theorem Post_refused_witness:
  "fst (Post exact_decimal ids_from no_ctx a_withdrawal topped_up) = Inl ErrInsufficientBalance \<and>
   snd (Post exact_decimal ids_from no_ctx a_withdrawal topped_up) = topped_up"
proof -
  have r: "fst (Post exact_decimal ids_from no_ctx a_withdrawal topped_up) = Inl ErrInsufficientBalance" by code_simp
  then have "Post exact_decimal ids_from no_ctx a_withdrawal topped_up =
      (Inl ErrInsufficientBalance, snd (Post exact_decimal ids_from no_ctx a_withdrawal topped_up))"
    by (simp add: prod_eq_iff)
  from Post_refused [OF exact.decimal_laws_axioms _ _ this] r topped_up_inv show ?thesis by (simp add: ledger_inv_def)
qed

text \<open>
  C5. \<open>Post\<close> succeeds whenever the posting is well formed, its users exist, no amount or balance
  overflows the column, no account of a user would become negative, its source was not posted
  before, and the database draws fresh identifiers.
\<close>

theorem Post_succeeds:
  assumes "decimal_laws D" and "books s" and "ids_fresh gen s" and "\<not> Dedicated (p_kind p)" and "can_post s p"
  shows "\<exists>i u. Post D gen c p s = (Inr i, u)"
  using wp_succeeds [OF decimal_laws.Post_ok [OF assms]] by blast

theorem Post_succeeds_witness:
  "\<exists>i u. Post exact_decimal ids_from no_ctx a_topup a_ledger = (Inr i, u)"
proof (rule Post_succeeds [OF exact.decimal_laws_axioms])
  show "books a_ledger" using empty_ledger_inv by (simp add: a_ledger_def ledger_inv_def)
  show "ids_fresh ids_from a_ledger" by (simp add: ids_fresh_def a_ledger_def empty_ledger_def inj_def)
  show "\<not> Dedicated (p_kind a_topup)" by (simp add: a_topup_def Dedicated_def)
  show "can_post a_ledger a_topup" by code_simp
qed

text \<open>
  C6. A posting of a kind that is recorded once per source is never recorded twice: after it has
  succeeded, and after any further run of the ledger, a well-formed \<open>Post\<close> for the same kind and
  source returns \<open>ErrDuplicatePosting\<close> and changes nothing. The first posting and those of the run
  leave the held-balance accounts to the operations on holds; the second one is any.
\<close>

theorem Post_once:
  assumes "decimal_laws D" and "ledger_inv s" and "spares_holds p" and "OnePerSource (p_kind p)"
    and "p_source_type p \<noteq> ''''" and "p_source_id p \<noteq> uuid_Nil"
    and "Post D gen c p s = (Inr i, t)" and "(ledger_step D gen audit states)\<^sup>*\<^sup>* (t, x) w"
    and "p_kind q = p_kind p" and "p_source_type q = p_source_type p" and "p_source_id q = p_source_id p"
    and "header_ok q" and "legs_ok (p_legs q)"
  shows "Post D gen d q (fst w) = (Inl ErrDuplicatePosting, fst w)"
proof -
  have t: "ledger_inv t" "posted s c p i t"
    using doesD(1) [OF decimal_laws.Post_does [OF assms(1,3)] assms(2,7)] by simp_all
  have "journal_grows t (fst w)"
    using decimal_laws.run_ledger_later [OF assms(1,8)] t(1) by (simp add: ledger_later_def)
  then have "already_posted (fst w) q" using posted_already [OF t(2)] assms by simp
  moreover have "\<not> Dedicated (p_kind q)"
    using decimal_laws.Post_not_dedicated [OF assms(1,7)] assms(9) by simp
  ultimately show ?thesis using decimal_laws.Post_again [OF assms(1)] assms by blast
qed

theorem Post_once_witness:
  "Post exact_decimal ids_from no_ctx a_topup with_hold = (Inl ErrDuplicatePosting, with_hold)"
proof -
  have "ledger_step exact_decimal ids_from (\<lambda>_. ret ()) None (topped_up, ()) (with_hold, ())"
    by (rule step_hold [OF _ a_hold_run]) simp
  note run = r_into_rtranclp [of "ledger_step exact_decimal ids_from (\<lambda>_. ret ()) None", OF this]
  have "ledger_inv a_ledger" by (simp add: a_ledger_def empty_ledger_inv)
  moreover have "spares_holds a_topup" "OnePerSource (p_kind a_topup)" "p_source_type a_topup \<noteq> ''''"
    "p_source_id a_topup \<noteq> uuid_Nil" "header_ok a_topup" "legs_ok (p_legs a_topup)"
    by code_simp+
  ultimately show ?thesis
    using Post_once [OF exact.decimal_laws_axioms _ _ _ _ _ a_topup_run run] by simp
qed

text \<open>
  C7. \<open>validatePosting\<close> accepts exactly the well-formed postings: a known kind, source type and
  source id together, a printable memo, at least two legs on properly owned accounts with positive
  amounts of two decimals, and debits equal to credits; everything else is \<open>ErrInvalidPosting\<close>.
\<close>

theorem validatePosting_exact:
  assumes "decimal_laws D"
  shows "(validatePosting D p = Inr () \<longleftrightarrow>
      header_ok p \<and> 2 \<le> length (p_legs p) \<and> total Debit (p_legs p) = total Credit (p_legs p) \<and>
      (\<forall>l \<in> set (p_legs p). ref_ok (leg_account l) \<and> (leg_dir l = Debit \<or> leg_dir l = Credit) \<and>
         0 < leg_amount l \<and> two_decimals (leg_amount l))) \<and>
    (\<forall>e. validatePosting D p = Inl e \<longrightarrow> errors_Is e ErrInvalidPosting)"
  using decimal_laws.validatePosting_iff [OF assms, of p] decimal_laws.validatePosting_Inl [OF assms, of p]
  by (auto simp: legs_ok_def leg_ok_def)

theorem validatePosting_exact_witness:
  "validatePosting exact_decimal a_topup = Inr () \<and> 2 \<le> length (p_legs a_topup)"
proof -
  have "validatePosting exact_decimal a_topup = Inr ()" by code_simp
  with validatePosting_exact [OF exact.decimal_laws_axioms, of a_topup] show ?thesis by simp
qed

section \<open>Balance held for an order\<close>

text \<open>
  C8. A successful \<open>HoldForOrder\<close> is the only hold of its order, moves exactly its amount from the
  user's balance to the user's held balance, and moves nothing else.
\<close>

theorem HoldForOrder_effect:
  assumes "decimal_laws D" and "ledger_inv s" and "HoldForOrder D gen c i s = (Inr h, u)"
  shows "ledger_inv u \<and> hi_order i \<notin> hr_order ` set (holds s) \<and>
    (\<exists>row. holds u = holds s @ [row] \<and> h = toHold row \<and> hr_order row = hi_order i \<and> hr_user row = hi_user i \<and>
       hr_amount row = hi_amount i \<and> hr_status row = HoldHeld) \<and>
    balance_of u (UserAccount UserBalance (hi_user i)) = balance_of s (UserAccount UserBalance (hi_user i)) - hi_amount i \<and>
    balance_of u (UserAccount UserBalanceHold (hi_user i)) =
      balance_of s (UserAccount UserBalanceHold (hi_user i)) + hi_amount i \<and>
    (\<forall>r. r \<noteq> UserAccount UserBalance (hi_user i) \<and> r \<noteq> UserAccount UserBalanceHold (hi_user i) \<longrightarrow>
       balance_of u r = balance_of s r)"
  using doesD(1) [OF decimal_laws.HoldForOrder_does [OF assms(1)] assms(2,3)]
  by (auto simp: held_def hold_posting_def signedDelta_def)

theorem HoldForOrder_effect_witness:
  "balance_of with_hold (UserAccount UserBalance 7) = balance_of topped_up (UserAccount UserBalance 7) - 5"
  using HoldForOrder_effect [OF exact.decimal_laws_axioms topped_up_inv a_hold_run] by (simp add: a_hold_def)

text \<open>
  C9. A successful \<open>PostOrderPaid\<close> with a positive total moves, on every account of the ledger,
  exactly the money of the order: net payment and fee to the channel's accounts, the applied balance
  out of the user's held balance, total and surcharge to revenue. If balance was applied, the hold of
  the order was open for that user and that amount and is captured by this transaction.
\<close>

theorem PostOrderPaid_effect:
  assumes "decimal_laws D" and "ledger_inv s" and "PostOrderPaid D gen c p s = (Inr txn, u)" and "op_total p \<noteq> 0"
  shows "ledger_inv u \<and> (\<forall>r. balance_of u r = balance_of s r + settle_effect p r) \<and>
    (op_paid p < op_total p \<longrightarrow>
       (\<exists>h \<in> set (holds s). hr_order h = op_order p \<and> hr_user h = op_user p \<and> hr_status h = HoldHeld \<and>
          hr_amount h = op_total p - op_paid p \<and>
          h\<lparr>hr_status := HoldCaptured, hr_capture_txn := Some txn\<rparr> \<in> set (holds u)))"
proof -
  have r: "ledger_inv u" "paid_ok p" "settled s c p txn u"
    using doesD(1) [OF decimal_laws.PostOrderPaid_does [OF assms(1)] assms(2,3)] by simp_all
  then show ?thesis
    using settled_balance [OF r(3,2) assms(4)] settled_hold [OF r(3) _ assms(4)] by (simp add: captured_by_def)
qed

theorem PostOrderPaid_effect_witness:
  "balance_of (snd (PostOrderPaid exact_decimal ids_from no_ctx an_order_paid with_hold))
     (PlatformAccount PlatformRevenue RefMain) = balance_of with_hold (PlatformAccount PlatformRevenue RefMain) + 8"
proof -
  have "fst (PostOrderPaid exact_decimal ids_from no_ctx an_order_paid with_hold) = Inr 116" by code_simp
  then have "PostOrderPaid exact_decimal ids_from no_ctx an_order_paid with_hold =
      (Inr 116, snd (PostOrderPaid exact_decimal ids_from no_ctx an_order_paid with_hold))" by (simp add: prod_eq_iff)
  from PostOrderPaid_effect [OF exact.decimal_laws_axioms with_hold_inv this]
  show ?thesis by (simp add: an_order_paid_def settle_effect_def PlatformAccount_def UserAccount_def)
qed

text \<open>
  C10. \<open>CaptureFromBalance\<close> pays an order from the balance in one step: the user's balance falls by
  the amount, revenue rises by it, the held balance and every other account end where they began,
  and the order's hold is captured by the returned transaction.
\<close>

theorem CaptureFromBalance_effect:
  assumes "decimal_laws D" and "ledger_inv s" and "CaptureFromBalance D gen c i s = (Inr (h, txn), u)"
  shows "ledger_inv u \<and> h_status h = HoldCaptured \<and> h_capture_txn h = Some txn \<and> h_amount h = hi_amount i \<and>
    (\<forall>r. balance_of u r = balance_of s r +
       (if r = UserAccount UserBalance (hi_user i) then - hi_amount i
        else if r = PlatformAccount PlatformRevenue RefMain then hi_amount i else 0))"
proof -
  have c: "ledger_inv u" "input_ok i" "captured s c i (h, txn) u"
    using doesD(1) [OF decimal_laws.CaptureFromBalance_does [OF assms(1)] assms(2,3)] by simp_all
  then obtain t v g where t: "opened s t" "ledger_inv t" and v: "held t i g v" "ledger_inv v"
    and u: "settled v c (capture_order i) txn u" and h: "h = g\<lparr>h_status := HoldCaptured, h_capture_txn := Some txn\<rparr>"
    by (auto simp: captured_def)
  have pos: "0 < hi_amount i" using c(2) by (simp add: input_ok_def)
  have bal: "balance_of t r = balance_of s r" for r
    using opened_same_balances [of s t r] assms(2) t by (simp add: ledger_inv_def)
  have "balance_of u r = balance_of v r + settle_effect (capture_order i) r" for r
    using settled_balance [OF u paid_ok_capture [OF c(2)], of r] pos by (simp add: capture_order_def)
  moreover have "h_amount g = hi_amount i" using v(1) by (auto simp: held_def toHold_def)
  ultimately show ?thesis using c(1) v(1) bal
    by (auto simp: h held_def hold_posting_def signedDelta_def settle_effect_def capture_order_def
        UserAccount_def PlatformAccount_def)
qed

theorem CaptureFromBalance_effect_witness:
  "balance_of (snd (CaptureFromBalance exact_decimal ids_from no_ctx a_hold topped_up)) (UserAccount UserBalance 7) =
   balance_of topped_up (UserAccount UserBalance 7) - 5"
proof -
  have "fst (CaptureFromBalance exact_decimal ids_from no_ctx a_hold topped_up) =
      Inr (the_hold\<lparr>h_id := 113, h_hold_txn := 110, h_status := HoldCaptured, h_capture_txn := Some 116\<rparr>, 116)"
    by code_simp
  then have "CaptureFromBalance exact_decimal ids_from no_ctx a_hold topped_up =
      (Inr (the_hold\<lparr>h_id := 113, h_hold_txn := 110, h_status := HoldCaptured, h_capture_txn := Some 116\<rparr>, 116),
       snd (CaptureFromBalance exact_decimal ids_from no_ctx a_hold topped_up))" by (simp add: prod_eq_iff)
  from CaptureFromBalance_effect [OF exact.decimal_laws_axioms topped_up_inv this]
  show ?thesis by (simp add: a_hold_def)
qed

text \<open>
  C11. Balance held for an order can always be given back: releasing an open hold with a printable
  memo succeeds, returns exactly the held amount to the user, moves nothing else and ends the hold
  for good (the credit must fit the column).
\<close>

theorem ReleaseOrderHold_succeeds:
  assumes "decimal_laws D" and "ledger_inv s" and "ids_fresh gen s" and "h \<in> set (holds s)" and "hr_status h = HoldHeld"
    and "text_param memo" and "rune_count memo \<le> 500"
    and "numeric_20_2 (balance_of s (UserAccount UserBalance (hr_user h)) + hr_amount h)"
  shows "\<exists>u txn. ReleaseOrderHold D gen c (hr_order h) memo s = (Inr True, u) \<and> ledger_inv u \<and>
    h\<lparr>hr_status := HoldReleased, hr_release_txn := Some txn\<rparr> \<in> set (holds u) \<and>
    (\<forall>r. balance_of u r = balance_of s r +
       (if r = UserAccount UserBalance (hr_user h) then hr_amount h
        else if r = UserAccount UserBalanceHold (hr_user h) then - hr_amount h else 0))"
proof -
  obtain u where u: "ReleaseOrderHold D gen c (hr_order h) memo s = (Inr True, u)" "ledger_inv u"
      "released s c (hr_order h) memo True u"
    using wp_succeeds [OF decimal_laws.ReleaseOrderHold_ok [OF assms, of c]] by auto
  then obtain h' txn where h': "hr_order h' = hr_order h" "ended s c (release_posting h' (hr_order h) memo) h' released_by txn u"
    by (auto simp: released_def)
  note e = ended_hold [OF h'(2)]
  have "distinct (map hr_order (holds s))" using assms(2) by (simp add: ledger_inv_def holds_ok_def)
  then have same: "h' = h" by (rule distinct_map_inj) (use e h' assms(4) in auto)
  have "released_by txn h \<in> set (holds u)" using e same by simp
  moreover have "balance_of u r = balance_of s r +
      (if r = UserAccount UserBalance (hr_user h) then hr_amount h
       else if r = UserAccount UserBalanceHold (hr_user h) then - hr_amount h else 0)" for r
    using ended_hold [OF h'(2), of r] same by (auto simp: release_posting_def signedDelta_def)
  ultimately show ?thesis using u by (auto simp: released_by_def)
qed

definition the_hold_row :: hold_row where
  "the_hold_row = \<lparr>hr_id = 110, hr_order = 20, hr_user = 7, hr_amount = 5, hr_status = HoldHeld, hr_hold_txn = 107,
     hr_capture_txn = None, hr_release_txn = None\<rparr>"

lemma with_hold_fresh: "ids_fresh ids_from with_hold"
proof -
  have "map ar_id (accounts with_hold) = [100, 101, 106]" "map tr_id (transactions with_hold) = [102, 107]"
    "map er_id (entries with_hold) = [103, 104, 108, 109]" "map hr_id (holds with_hold) = [110]" "drawn with_hold = 11"
    by code_simp+
  then have "ar_id ` set (accounts with_hold) = {100, 101, 106}" "tr_id ` set (transactions with_hold) = {102, 107}"
    "er_id ` set (entries with_hold) = {103, 104, 108, 109}" "hr_id ` set (holds with_hold) = {110}" "drawn with_hold = 11"
    unfolding set_map [symmetric] by simp_all
  then show ?thesis by (simp add: ids_fresh_def inj_def)
qed

theorem ReleaseOrderHold_succeeds_witness:
  "\<exists>u. ReleaseOrderHold exact_decimal ids_from no_ctx 20 ''order canceled'' with_hold = (Inr True, u)"
proof -
  have h: "the_hold_row \<in> set (holds with_hold)" by code_simp
  have "balance_of with_hold (UserAccount UserBalance 7) = 15 / 2" by code_simp
  with ReleaseOrderHold_succeeds [OF exact.decimal_laws_axioms with_hold_inv with_hold_fresh h, of "''order canceled''" no_ctx]
  show ?thesis
    by (simp add: the_hold_row_def text_param_def valid_utf8_def has_nul_def rune_count_def numeric_20_2_def less_eq_char_def) blast
qed

section \<open>Adjustments, reports and self-checks\<close>

text \<open>
  C12. \<open>AdjustBalance\<close> succeeds only for an administrator and then moves exactly the given amount
  between the user's balance and the suspense account, leaves every other account and every hold
  alone, and reports the new balance; an error outside a transaction leaves all tables as they were,
  those of the audit log and of the accounts included.
\<close>

theorem AdjustBalance_effect:
  assumes "decimal_laws D" and "ledger_inv (fst w)"
  shows "case AdjustBalance D gen audit states c a w of
      (Inr res, v) \<Rightarrow> (\<exists>p. principal_of c = Inr p \<and> Audience p = AudienceAdmin) \<and> ledger_inv (fst v) \<and>
        res_balance res = balance_of (fst w) (UserAccount UserBalance (adj_user a)) + adj_amount a \<and>
        (\<forall>r. balance_of (fst v) r = balance_of (fst w) r +
           (if r = UserAccount UserBalance (adj_user a) \<or> r = PlatformAccount Suspense RefManualAdjust
            then adj_amount a else 0))
    | (Inl e, v) \<Rightarrow> ctx_in_tx c \<or> v = w"
proof -
  obtain r v where run: "AdjustBalance D gen audit states c a w = (r, v)" by (rule prod.exhaust)
  note spec = decimal_laws.AdjustBalance_spec [OF assms, of gen audit states c a]
  show ?thesis
  proof (cases r)
    case (Inl e)
    with run wp_errD [OF spec, of e v] show ?thesis by auto
  next
    case (Inr res)
    with run wp_okD [OF spec, of res v] show ?thesis by (auto simp: adjusted_def)
  qed
qed

definition admin_ctx :: ctx where
  "admin_ctx = \<lparr>ctx_principal = Some \<lparr>UserID = 3, Audience = AudienceAdmin\<rparr>, ctx_in_tx = False\<rparr>"

definition a_deduction :: adjustment where
  "a_deduction = \<lparr>adj_user = 7, adj_amount = - (5 / 2), adj_reason = ''wrong credit''\<rparr>"

theorem AdjustBalance_effect_witness:
  "map_sum id res_balance (fst (AdjustBalance exact_decimal ids_from (\<lambda>_. ret ()) (Some (\<lambda>_. ret False)) admin_ctx a_deduction
     (topped_up, ()))) = Inr 10 \<and>
   balance_of topped_up (UserAccount UserBalance 7) = 25 / 2"
proof -
  let ?r = "AdjustBalance exact_decimal ids_from (\<lambda>_. ret ()) (Some (\<lambda>_. ret False)) admin_ctx a_deduction (topped_up, ())"
  have r: "map_sum id res_balance (fst ?r) = Inr 10" by code_simp
  with AdjustBalance_effect [where w = "(topped_up, ())" and gen = ids_from and audit = "\<lambda>_. ret ()" and
      states = "Some (\<lambda>_. ret False)" and c = admin_ctx and a = a_deduction, OF exact.decimal_laws_axioms] topped_up_inv
  show ?thesis by (auto simp: a_deduction_def split: prod.splits sum.splits)
qed

text \<open>
  C13. \<open>CheckDrift\<close> counts exactly the accounts whose stored balance is not the signed sum of their
  entries: it reports zero if and only if there is no drift.
\<close>

theorem CheckDrift_exact:
  assumes "\<forall>e \<in> set (entries s). er_dir e = Debit \<or> er_dir e = Credit"
  shows "\<exists>r. CheckDrift s = (Inr r, s) \<and>
    chk_count r = length (filter (\<lambda>a. ar_balance a \<noteq> entries_sum s (ar_type a) (ar_id a)) (accounts s)) \<and>
    (chk_count r = 0 \<longleftrightarrow> no_drift s)"
proof -
  have "length (drifting s) = 0 \<longleftrightarrow> no_drift s" by (simp add: drifting_none)
  then show ?thesis by (simp add: CheckDrift_run [OF assms] FromRows_sample) (simp add: drifting_def)
qed

definition a_drift :: ledger_db where
  "a_drift = topped_up\<lparr>accounts := update_rows (\<lambda>a. ar_id a = 101) (\<lambda>a. a\<lparr>ar_balance := 99\<rparr>) (accounts topped_up)\<rparr>"

theorem CheckDrift_exact_witness:
  "map_sum id chk_count (fst (CheckDrift a_drift)) = Inr 1 \<and> \<not> no_drift a_drift"
proof -
  have d: "\<forall>e \<in> set (entries a_drift). er_dir e = Debit \<or> er_dir e = Credit" by code_simp
  have r: "map_sum id chk_count (fst (CheckDrift a_drift)) = Inr 1" by code_simp
  with CheckDrift_exact [OF d] show ?thesis by auto
qed

text \<open>
  On a sound ledger the self-check of the holds finds nothing.
\<close>

theorem CheckHolds_clean:
  assumes "ledger_inv s"
  shows "CheckHolds s = (Inr \<lparr>chk_count = 0, chk_sample = []\<rparr>, s)"
  by (simp add: CheckHolds_run mismatched_none [OF assms] FromRows_sample)

theorem CheckHolds_clean_witness: "CheckHolds with_hold = (Inr \<lparr>chk_count = 0, chk_sample = []\<rparr>, with_hold)"
  by (rule CheckHolds_clean [OF with_hold_inv])

text \<open>
  The wallet shows the user's balance, and as long as the account has at most 100 entries its
  history adds up to that balance.
\<close>

theorem MyWallet_adds_up:
  assumes "books s" and "principal_of c = Inr p" and "length (account_entries s UserBalance (UserID p)) \<le> 100"
  shows "\<exists>w. MyWallet c s = (Inr w, s) \<and> w_balance w = balance_of s (UserAccount UserBalance (UserID p)) \<and>
    sum_list (map item_delta (w_history w)) = w_balance w"
proof -
  let ?es = "account_entries s UserBalance (UserID p)"
  have wf: "wf_accounts s" using assms(1) by (simp add: books_def)
  have h: "map (\<lambda>r. (hi_dir r, hi_entry_amount r)) (history_of s ?es) = map (\<lambda>e. (er_dir e, er_amount e)) ?es"
    by (rule history_of_linked)
      (use assms(1) in \<open>auto simp: books_def transactions_ok_def entries_linked_def dest: account_entries_linked\<close>)
  then have len: "length (history_of s ?es) = length ?es" by (metis length_map)
  have "sum_list (map (\<lambda>r. signedDelta UserBalance (hi_dir r) (hi_entry_amount r)) (history_of s ?es)) =
      sum_list (map (\<lambda>e. signedDelta UserBalance (er_dir e) (er_amount e)) ?es)"
    using arg_cong [OF h, of "\<lambda>xs. sum_list (map (\<lambda>(d, m). signedDelta UserBalance d m) xs)"] by (simp add: o_def)
  also have "\<dots> = balance_of s (UserAccount UserBalance (UserID p))"
  proof (cases "account_of s (UserAccount UserBalance (UserID p))")
    case None
    then show ?thesis by (simp add: account_entries_sum [OF wf] balance_of_def)
  next
    case (Some a)
    then have a: "a \<in> set (accounts s)" "refOf a = UserAccount UserBalance (UserID p)" using account_of_Some [OF wf] by simp_all
    then have "ar_type a = UserBalance" using acc_type_refOf [of a] by (simp add: UserAccount_def)
    then show ?thesis using Some a assms(1) by (simp add: account_entries_sum [OF wf] balance_of_def books_def no_drift_def)
  qed
  finally show ?thesis
    using assms len by (simp add: MyWallet_def History_def bnd_def eff_simps Balance_run [OF wf] o_def)
qed

definition user_ctx :: ctx where
  "user_ctx = \<lparr>ctx_principal = Some \<lparr>UserID = 7, Audience = AudiencePublic\<rparr>, ctx_in_tx = False\<rparr>"

theorem MyWallet_adds_up_witness:
  "\<exists>w. MyWallet user_ctx with_hold = (Inr w, with_hold) \<and> sum_list (map item_delta (w_history w)) = w_balance w"
proof -
  have "length (account_entries with_hold UserBalance 7) \<le> 100" by code_simp
  with MyWallet_adds_up [of with_hold user_ctx "\<lparr>UserID = 7, Audience = AudiencePublic\<rparr>"] with_hold_inv
  show ?thesis by (auto simp: ledger_inv_def principal_of_def user_ctx_def)
qed

end
