(* ===== verification/Go_Time.thy ===== *)
theory Go_Time
  imports Go_Strings
begin

text \<open>
  The parts of Go's package \<open>time\<close> that the modelled code calls. An instant is the number of
  nanoseconds since 1970-01-01 00:00 UTC, a duration a number of nanoseconds. Calendar arithmetic
  (\<open>Time.AddDate\<close>) is the proleptic Gregorian calendar in UTC: the service's clock and the database
  session are in UTC. Days are counted from 0000-01-01; months are counted from January of the year 0,
  so that a carry of months into years is one division.
\<close>

type_synonym time = int
type_synonym duration = int

abbreviation day_ns :: int where
  "day_ns \<equiv> 86400000000000"

abbreviation hour_ns :: int where
  "hour_ns \<equiv> 3600000000000"

abbreviation epoch_day :: int where
  "epoch_day \<equiv> 719528"

text \<open>\<open>time.Time{}\<close>, 0001-01-01 00:00 UTC.\<close>

definition zero_time :: time where
  "zero_time = - 62135596800000000000"

section \<open>The calendar\<close>

definition leap :: "int \<Rightarrow> bool" where
  "leap y \<longleftrightarrow> 4 dvd y \<and> \<not> 100 dvd y \<or> 400 dvd y"

definition year_start :: "int \<Rightarrow> int" where
  "year_start y = 365 * y + (y + 3) div 4 - (y + 99) div 100 + (y + 399) div 400"

definition days_before :: "bool \<Rightarrow> nat \<Rightarrow> int" where
  "days_before l m = [0, 31, 59, 90, 120, 151, 181, 212, 243, 273, 304, 334] ! m + (if l \<and> 2 \<le> m then 1 else 0)"

definition month_start :: "int \<Rightarrow> int" where
  "month_start n = year_start (n div 12) + days_before (leap (n div 12)) (nat (n mod 12))"

definition year_of :: "int \<Rightarrow> int" where
  "year_of z =
     (let y = z * 400 div 146097
      in if z < year_start y then y - 1 else if year_start (y + 1) \<le> z then y + 1 else y)"

definition month_of :: "int \<Rightarrow> int" where
  "month_of z =
     (let n = 12 * year_of z + (z - year_start (year_of z)) div 31
      in if month_start (n + 1) \<le> z then n + 1 else n)"

lemma div_bounds:
  fixes a b :: int
  assumes "0 < b"
  shows "b * (a div b) \<le> a" "a < b * (a div b) + b"
  using mult_div_mod_eq [of b a] pos_mod_sign [OF assms, of a] pos_mod_bound [OF assms, of a] by linarith+

lemma ceiling_div_step:
  fixes y k :: int
  assumes k: "1 < k"
  shows "(y + k) div k = (y + (k - 1)) div k + (if k dvd y then 1 else 0)"
proof -
  define r q where "r = y mod k" and "q = y div k"
  have y: "y = k * q + r" and r: "0 \<le> r" "r < k" using k by (simp_all add: r_def q_def)
  have eq: "a div k = n" if "k * n \<le> a" "a < k * n + k" for a n
    using k that int_div_pos_eq [of a k n "a - k * n"] by simp
  have "(y + k) div k = q + 1" using y r by (intro eq) (simp_all add: distrib_left)
  moreover have "(y + (k - 1)) div k = q + (if r = 0 then 0 else 1)"
    using y r by (intro eq) (auto simp: distrib_left)
  moreover have "k dvd y \<longleftrightarrow> r = 0" by (simp add: r_def dvd_eq_mod_eq_0)
  ultimately show ?thesis by simp
qed

lemma year_start_Suc: "year_start (y + 1) = year_start y + (if leap y then 366 else 365)"
proof -
  define a b c where "a = (y + 3) div 4" and "b = (y + 99) div 100" and "c = (y + 399) div 400"
  define p q r where "p \<longleftrightarrow> 4 dvd y" and "q \<longleftrightarrow> 100 dvd y" and "r \<longleftrightarrow> 400 dvd y"
  have "y + 1 + 3 = y + 4" "y + 1 + 99 = y + 100" "y + 1 + 399 = y + 400" by simp_all
  then have "year_start (y + 1) = 365 * (y + 1) + (a + (if p then 1 else 0)) - (b + (if q then 1 else 0)) + (c + (if r then 1 else 0))"
    using ceiling_div_step [of 4 y] ceiling_div_step [of 100 y] ceiling_div_step [of 400 y]
    unfolding year_start_def a_def b_def c_def p_def q_def r_def by (simp only:) simp
  moreover have "r \<longrightarrow> q" "q \<longrightarrow> p"
    using dvd_trans [of 100 400 y] dvd_trans [of 4 100 y] by (simp_all add: p_def q_def r_def)
  moreover have "year_start y = 365 * y + a - b + c" by (simp only: year_start_def a_def b_def c_def)
  moreover have "leap y \<longleftrightarrow> p \<and> \<not> q \<or> r" by (simp only: leap_def p_def q_def r_def)
  ultimately show ?thesis by auto
qed

lemma year_start_bounds: "146097 * y - 396 \<le> 400 * year_start y" "400 * year_start y \<le> 146097 * y + 699"
proof -
  define a b c where "a = (y + 3) div 4" and "b = (y + 99) div 100" and "c = (y + 399) div 400"
  have "4 * a \<le> y + 3" "y + 3 < 4 * a + 4" "100 * b \<le> y + 99" "y + 99 < 100 * b + 100"
    "400 * c \<le> y + 399" "y + 399 < 400 * c + 400"
    unfolding a_def b_def c_def by (rule div_bounds, simp)+
  moreover have "year_start y = 365 * y + a - b + c" by (simp only: year_start_def a_def b_def c_def)
  ultimately show "146097 * y - 396 \<le> 400 * year_start y" "400 * year_start y \<le> 146097 * y + 699"
    by linarith+
qed

lemma year_of: "year_start (year_of z) \<le> z \<and> z < year_start (year_of z + 1)"
proof -
  define y where "y = z * 400 div 146097"
  have z: "146097 * y \<le> z * 400" "z * 400 < 146097 * y + 146097"
    unfolding y_def by (rule div_bounds, simp)+
  then have "year_start (y - 1) \<le> z" using year_start_bounds(2) [of "y - 1"] by simp
  moreover have "z < year_start (y + 2)" using z year_start_bounds(1) [of "y + 2"] by simp
  ultimately show ?thesis by (simp add: year_of_def y_def [symmetric] Let_def add.assoc)
qed

lemma month_start_in_year:
  assumes "0 \<le> m" and "m < 12"
  shows "month_start (12 * y + m) = year_start y + days_before (leap y) (nat m)"
proof -
  have "(12 * y + m) div 12 = y" "(12 * y + m) mod 12 = m" using assms by presburger+
  then show ?thesis by (simp add: month_start_def)
qed

lemma month_start_year: "month_start (12 * y + 12) = year_start (y + 1)"
  using month_start_in_year [of 0 "y + 1"] by (simp add: days_before_def algebra_simps)

lemma months_cases:
  fixes m :: int
  assumes "0 \<le> m" and "m < 12"
  shows "m = 0 \<or> m = 1 \<or> m = 2 \<or> m = 3 \<or> m = 4 \<or> m = 5 \<or> m = 6 \<or> m = 7 \<or> m = 8 \<or> m = 9 \<or> m = 10 \<or> m = 11"
  using assms by arith

lemma month_length: "month_start n + 28 \<le> month_start (n + 1)" "month_start (n + 1) \<le> month_start n + 31"
proof -
  define y m where "y = n div 12" and "m = n mod 12"
  have n: "n = 12 * y + m" and m: "0 \<le> m" "m < 12" by (simp_all add: y_def m_def)
  have "month_start n + 28 \<le> month_start (n + 1) \<and> month_start (n + 1) \<le> month_start n + 31"
  proof (cases "m = 11")
    case True
    then show ?thesis
      using month_start_year [of y] month_start_in_year [OF m, of y] year_start_Suc [of y]
      by (simp add: n days_before_def add.assoc)
  next
    case False
    then have "month_start (n + 1) = year_start y + days_before (leap y) (nat (m + 1))"
      using month_start_in_year [of "m + 1" y] m by (simp add: n add.assoc)
    then show ?thesis
      using months_cases [OF m] False month_start_in_year [OF m, of y] by (auto simp: n days_before_def)
  qed
  then show "month_start n + 28 \<le> month_start (n + 1)" "month_start (n + 1) \<le> month_start n + 31" by simp_all
qed

text \<open>A month shorter than 31 days is followed by one of 31 days.\<close>

lemma short_then_long:
  assumes "month_start (n + 1) < month_start n + 31"
  shows "month_start (n + 2) = month_start (n + 1) + 31"
proof -
  define y m where "y = n div 12" and "m = n mod 12"
  have n: "n = 12 * y + m" and m: "0 \<le> m" "m < 12" by (simp_all add: y_def m_def)
  have s: "month_start (12 * y + m + j) = year_start y + days_before (leap y) (nat (m + j))" if "0 \<le> j" "m + j < 12" for j
    using month_start_in_year [of "m + j" y] that m by (simp add: add.assoc)
  have "m \<noteq> 11"
    using assms month_start_year [of y] month_start_in_year [OF m, of y] year_start_Suc [of y]
    by (auto simp: n days_before_def add.assoc split: if_splits)
  moreover have "month_start (12 * y + 12) = year_start y + (if leap y then 366 else 365)"
    using month_start_year [of y] year_start_Suc [of y] by simp
  ultimately show ?thesis
    using months_cases [OF m] assms s [of 0] s [of 1] s [of 2]
    by (auto simp: n days_before_def add.commute [of _ "12 * y"] split: if_splits)
qed

lemma month_start_less: "m < n \<Longrightarrow> month_start m < month_start n"
proof (induction "nat (n - m)" arbitrary: n)
  case (Suc k)
  have step: "month_start (n - 1) < month_start n" using month_length(1) [of "n - 1"] by simp
  show ?case
  proof (cases "m = n - 1")
    case False
    with Suc have "month_start m < month_start (n - 1)" by simp
    with step show ?thesis by simp
  qed (use step in simp)
qed simp

lemma month_start_mono: "m \<le> n \<Longrightarrow> month_start m \<le> month_start n"
  using month_start_less [of m n] by (cases "m = n") auto

lemma month_of: "month_start (month_of z) \<le> z \<and> z < month_start (month_of z + 1)"
proof -
  define y r where "y = year_of z" and "r = z - year_start y"
  have r: "0 \<le> r" "r < (if leap y then 366 else 365)"
    using year_of [of z] year_start_Suc [of y] by (auto simp: y_def r_def)
  then have m: "0 \<le> r div 31" "r div 31 < 12" by (auto split: if_splits)
  have d: "31 * (r div 31) \<le> r" "r < 31 * (r div 31) + 31" by presburger+
  have start: "month_start (12 * y + r div 31) \<le> z"
    using months_cases [OF m] d r unfolding month_start_in_year [OF m]
    by (auto simp: r_def days_before_def split: if_splits)
  have next2: "z < month_start (12 * y + r div 31 + 2)"
  proof (cases "r div 31 < 10")
    case True
    then have "month_start (12 * y + (r div 31 + 2)) = year_start y + days_before (leap y) (nat (r div 31 + 2))"
      using m by (intro month_start_in_year) simp_all
    then show ?thesis
      using months_cases [OF m] True d by (auto simp: r_def days_before_def add.assoc split: if_splits)
  next
    case False
    then have "month_start (12 * y + 12) \<le> month_start (12 * y + r div 31 + 2)" by (intro month_start_mono) simp
    then show ?thesis using month_start_year [of y] year_of [of z] by (simp add: y_def)
  qed
  show ?thesis
    using start next2 by (auto simp: month_of_def Let_def y_def [symmetric] r_def [symmetric] add.assoc)
qed

lemma month_of_unique: "month_start n \<le> z \<Longrightarrow> z < month_start (n + 1) \<Longrightarrow> month_of z = n"
  using month_of [of z] month_start_mono [of "n + 1" "month_of z"] month_start_mono [of "month_of z + 1" n]
  by (cases n "month_of z" rule: linorder_cases) auto

lemma month_of_mono: "a \<le> b \<Longrightarrow> month_of a \<le> month_of b"
  using month_of [of a] month_of [of b] month_start_mono [of "month_of b + 1" "month_of a"] by linarith

section \<open>Instants\<close>

definition day_of :: "time \<Rightarrow> int" where
  "day_of t = t div day_ns + epoch_day"

definition month_index :: "time \<Rightarrow> int" where
  "month_index t = month_of (day_of t)"

text \<open>
  \<open>t.AddDate(years, months, days)\<close>: the date is taken apart, the three numbers are added, and the
  result is normalised, days beyond the end of a month running over into the next one.
\<close>

definition AddDate :: "int \<Rightarrow> int \<Rightarrow> int \<Rightarrow> time \<Rightarrow> time" where
  "AddDate years months days t =
     (month_start (month_index t + 12 * years + months) + (day_of t - month_start (month_index t)) + days - epoch_day) * day_ns
     + t mod day_ns"

text \<open>\<open>t.Truncate(time.Microsecond)\<close>.\<close>

definition truncate_us :: "time \<Rightarrow> time" where
  "truncate_us t = t - t mod 1000"

text \<open>\<open>t.Sub(u)\<close>: the difference, saturated to a \<open>Duration\<close>.\<close>

definition time_Sub :: "time \<Rightarrow> time \<Rightarrow> duration" where
  "time_Sub t u = max min_int64 (min max_int64 (t - u))"

lemma AddDate_days: "AddDate 0 0 d t = t + d * day_ns"
proof -
  have "t div day_ns * day_ns + t mod day_ns = t" by simp
  then show ?thesis by (simp add: AddDate_def day_of_def algebra_simps)
qed

lemma AddDate_years: "AddDate y m d t = AddDate 0 (12 * y + m) d t"
  by (simp add: AddDate_def add.assoc)

lemma AddDate_months_less:
  assumes "m < n"
  shows "AddDate 0 m d t < AddDate 0 n d t"
  using month_start_less [of "month_index t + m" "month_index t + n"] assms by (simp add: AddDate_def)

lemma AddDate_after: "0 < m \<Longrightarrow> t < AddDate 0 m 0 t"
  using AddDate_months_less [of 0 m 0 t] AddDate_days [of 0 t] by simp

text \<open>Whole days and whole months keep the time of day.\<close>

lemma AddDate_mod_day: "AddDate y m d t mod day_ns = t mod day_ns"
  unfolding AddDate_def by (simp only: mod_mult_self3 mod_mod_trivial)

lemma day_of_AddDate: "day_of (AddDate 0 m d t) = month_start (month_index t + m) + (day_of t - month_start (month_index t)) + d"
proof -
  have *: "(D * day_ns + r) div day_ns = D" if "0 \<le> r" "r < day_ns" for D r :: int
    using that by (simp add: div_mult_self3)
  show ?thesis unfolding AddDate_def day_of_def by (subst *) simp_all
qed

text \<open>One month after \<open>k\<close> months is not before \<open>k + 1\<close> months: days that ran over the end of a short
  month are followed by a long one.\<close>

lemma AddDate_month_again: "AddDate 0 (k + 1) 0 t \<le> AddDate 0 1 0 (AddDate 0 k 0 t)"
proof -
  define n d b where "n = month_index t + k" and "d = day_of t - month_start (month_index t)" and "b = AddDate 0 k 0 t"
  have d: "0 \<le> d" "d \<le> 30"
    using month_of [of "day_of t"] month_length(2) [of "month_index t"] by (simp_all add: d_def month_index_def)
  have day: "day_of b = month_start n + d" by (simp add: b_def day_of_AddDate n_def d_def)
  have "month_start (n + 1) + d \<le> month_start (month_index b + 1) + (day_of b - month_start (month_index b))"
  proof (cases "month_start n + d < month_start (n + 1)")
    case True
    then have "month_index b = n" using d day by (simp add: month_index_def month_of_unique)
    then show ?thesis by (simp add: day)
  next
    case False
    then have long: "month_start (n + 2) = month_start (n + 1) + 31" using d by (intro short_then_long) simp
    have len: "month_start n + 28 \<le> month_start (n + 1)" by (rule month_length)
    have two: "n + 1 + 1 = n + 2" by simp
    have "month_index b = n + 1"
      unfolding month_index_def by (rule month_of_unique, unfold two) (use False d day long len in linarith)+
    then show ?thesis using long False d by (simp add: day add.assoc)
  qed
  moreover have "b mod day_ns = t mod day_ns" by (simp add: b_def AddDate_mod_day)
  ultimately show ?thesis
    unfolding AddDate_def [of 0 "k + 1" 0 t] AddDate_def [of 0 1 0 "AddDate 0 k 0 t"]
    by (simp add: b_def [symmetric] n_def [symmetric] d_def [symmetric] add.assoc [symmetric])
qed

text \<open>The lower bound of \<open>n\<close> months: 28 days each.\<close>

lemma month_start_add: "month_start n + 28 * int k \<le> month_start (n + int k)"
proof (induction k)
  case (Suc k)
  then show ?case using month_length(1) [of "n + int k"] by (simp add: ac_simps)
qed simp

lemma AddDate_months_ge: "0 \<le> m \<Longrightarrow> t + 28 * m * day_ns \<le> AddDate 0 m 0 t"
  using month_start_add [of "month_index t" "nat m"] AddDate_days [of 0 t] by (simp add: AddDate_def algebra_simps)

lemma truncate_us_le: "truncate_us t \<le> t" "t < truncate_us t + 1000"
  by (simp_all add: truncate_us_def)

lemma truncate_us_idem [simp]: "truncate_us (truncate_us t) = truncate_us t"
  by (simp add: truncate_us_def mod_diff_left_eq [symmetric] mod_diff_right_eq)

lemma mod_1000_day: "(t::int) mod day_ns = u mod day_ns \<Longrightarrow> t mod 1000 = u mod 1000"
  using mod_mod_cancel [of 1000 day_ns t] mod_mod_cancel [of 1000 day_ns u] by simp

lemma truncate_us_whole: "t mod 1000 = 0 \<longleftrightarrow> truncate_us t = t"
  by (simp add: truncate_us_def)

lemma truncate_us_AddDate [simp]: "truncate_us t = t \<Longrightarrow> truncate_us (AddDate y m d t) = AddDate y m d t"
  using mod_1000_day [OF AddDate_mod_day, of y m d t] by (simp add: truncate_us_whole [symmetric])

lemma time_Sub_exact: "in_int64 (t - u) \<Longrightarrow> time_Sub t u = t - u"
  by (simp add: time_Sub_def in_int64_def)

end
