(* ===== verification/Sub_Period.thy ===== *)
theory Sub_Period
  imports Go_Time Money Tx
begin

text \<open>
  \<open>panel/internal/module/subscription/service/period.go\<close>, \<open>state.go\<close> and the windows of
  \<open>quota_roll.go\<close>: billing intervals, the end of a period, where a renewal continues, the quota windows,
  and the three states of a subscription. All of it is pure; the instant that \<open>IsPermanent\<close> reads from the
  system clock is an argument.
\<close>

section \<open>Intervals\<close>

record price_snapshot =
  ps_price :: "uuid option"
  ps_amount :: decimal
  ps_interval :: string
  ps_count :: int
  ps_validity :: "int option"

abbreviation PeriodTotal :: string where "PeriodTotal \<equiv> ''total''"
abbreviation PeriodCycle :: string where "PeriodCycle \<equiv> ''cycle''"
abbreviation PeriodDay :: string where "PeriodDay \<equiv> ''day''"
abbreviation PeriodMonth :: string where "PeriodMonth \<equiv> ''month''"

definition ValidInterval :: "string \<Rightarrow> bool" where
  "ValidInterval interval \<longleftrightarrow>
     interval \<in> set [''day'', ''week'', ''month'', ''quarter'', ''year'', ''one_time'']"

text \<open>\<open>7*count\<close> and \<open>3*count\<close> are \<open>int\<close> expressions, 64 bits wide.\<close>

definition AddInterval :: "time \<Rightarrow> string \<Rightarrow> int \<Rightarrow> time" where
  "AddInterval from interval count =
     (let count = (if count \<le> 0 then 1 else count) in
      if interval = ''day'' then AddDate 0 0 count from
      else if interval = ''week'' then AddDate 0 0 (wrap64 (7 * count)) from
      else if interval = ''month'' then AddDate 0 count 0 from
      else if interval = ''quarter'' then AddDate 0 (wrap64 (3 * count)) 0 from
      else if interval = ''year'' then AddDate count 0 0 from
      else if interval = ''one_time'' then AddDate 100 0 0 from
      else AddDate 0 count 0 from)"

abbreviation permanentHorizon :: int where "permanentHorizon \<equiv> 50"

definition IsPermanent :: "time \<Rightarrow> time \<Rightarrow> bool" where
  "IsPermanent wall t_end \<longleftrightarrow> t_end > AddDate permanentHorizon 0 0 wall"

definition PeriodEndFor :: "time \<Rightarrow> price_snapshot \<Rightarrow> time" where
  "PeriodEndFor start p =
     (case ps_validity p of
        Some d \<Rightarrow> if ps_interval p = ''one_time'' \<and> d > 0 then truncate_us (AddDate 0 0 d start)
                  else truncate_us (AddInterval start (ps_interval p) (ps_count p))
      | None \<Rightarrow> truncate_us (AddInterval start (ps_interval p) (ps_count p)))"

definition StackEnd :: "time \<Rightarrow> time \<Rightarrow> time \<Rightarrow> price_snapshot \<Rightarrow> time" where
  "StackEnd wall oldEnd now p =
     (if IsPermanent wall oldEnd then oldEnd
      else case ps_validity p of
             None \<Rightarrow> truncate_us (AddInterval now ''one_time'' 1)
           | Some d \<Rightarrow>
               if d \<le> 0 then truncate_us (AddInterval now ''one_time'' 1)
               else truncate_us (AddDate 0 0 d (if now > oldEnd then now else oldEnd)))"

definition CycleLength :: "time \<Rightarrow> string \<Rightarrow> int \<Rightarrow> duration" where
  "CycleLength from interval count = time_Sub (AddInterval from interval count) from"

definition QuotaPeriodEnd :: "string \<Rightarrow> time \<Rightarrow> time \<Rightarrow> time option" where
  "QuotaPeriodEnd period start cycleEnd =
     (if period = PeriodTotal then None
      else if period = PeriodDay then Some (AddDate 0 0 1 start)
      else if period = PeriodMonth then Some (AddDate 0 1 0 start)
      else Some cycleEnd)"

definition RenewalBase :: "time \<Rightarrow> time \<Rightarrow> time option \<Rightarrow> time \<times> bool" where
  "RenewalBase oldEnd paidAt orderCreatedAt =
     (if oldEnd > paidAt then (oldEnd, False)
      else case orderCreatedAt of
             Some c \<Rightarrow> if c < oldEnd then (oldEnd, False) else (paidAt, True)
           | None \<Rightarrow> (paidAt, True))"

definition ExtendBase :: "time \<Rightarrow> time \<Rightarrow> time \<times> bool" where
  "ExtendBase oldEnd now = (if \<not> oldEnd > now then (now, True) else (oldEnd, False))"

definition ProratedQuota :: "int \<Rightarrow> int \<Rightarrow> duration \<Rightarrow> int" where
  "ProratedQuota limit days cycle =
     (if limit \<le> 0 \<or> days \<le> 0 \<or> cycle \<le> 0 then 0
      else
        (let n = quo (limit * (days * day_ns)) cycle
         in if \<not> in_int64 n then 0 else n))"

definition NextCycleEnd :: "time \<Rightarrow> time \<Rightarrow> string \<Rightarrow> int \<Rightarrow> time" where
  "NextCycleEnd start subEnd interval count =
     (let next = AddInterval start interval count
      in if AddInterval next interval count > subEnd then subEnd else next)"

definition RenewUntil :: "time \<Rightarrow> time \<Rightarrow> string \<Rightarrow> int \<Rightarrow> time" where
  "RenewUntil periodEnd now interval count =
     truncate_us (AddInterval (if periodEnd > now then periodEnd else now) interval count)"

section \<open>States\<close>

abbreviation StatusActive :: string where "StatusActive \<equiv> ''active''"
abbreviation StatusExpired :: string where "StatusExpired \<equiv> ''expired''"

datatype state = StateLive | StateRevivable | StateEnded

definition StateAt :: "string \<Rightarrow> time \<Rightarrow> time option \<Rightarrow> time \<Rightarrow> state" where
  "StateAt status periodEnd renewalClosedAt now =
     (if renewalClosedAt \<noteq> None then StateEnded
      else if status = StatusActive \<and> periodEnd > now then StateLive
      else StateRevivable)"

definition AcceptsChange :: "state \<Rightarrow> bool" where
  "AcceptsChange st \<longleftrightarrow> st \<noteq> StateEnded"

definition transitions :: "string \<Rightarrow> string list" where
  "transitions from =
     (if from = StatusActive then [StatusActive, StatusExpired]
      else if from = StatusExpired then [StatusActive] else [])"

definition CanTransition :: "string \<Rightarrow> string \<Rightarrow> bool" where
  "CanTransition from to \<longleftrightarrow> list_ex (\<lambda>t. t = to) (transitions from)"

text \<open>The parts of a \<open>Summary\<close> that the choice of the current subscription reads.\<close>

record summary =
  sm_state :: state
  sm_end :: time
  sm_created :: time

definition betterCurrent :: "summary \<Rightarrow> summary \<Rightarrow> bool" where
  "betterCurrent a b =
     (let al = (sm_state a = StateLive); bl = (sm_state b = StateLive)
      in if al \<noteq> bl then al
         else if sm_end a \<noteq> sm_end b then sm_end a > sm_end b
         else sm_created a > sm_created b)"

fun current_from :: "summary list \<Rightarrow> nat \<Rightarrow> (nat \<times> summary) option \<Rightarrow> (nat \<times> summary) option" where
  "current_from [] i best = best"
| "current_from (s # ss) i best =
     current_from ss (Suc i)
       (case best of None \<Rightarrow> Some (i, s) | Some (j, b) \<Rightarrow> if betterCurrent s b then Some (i, s) else Some (j, b))"

definition currentIndex :: "summary list \<Rightarrow> int" where
  "currentIndex subs = (case current_from subs 0 None of None \<Rightarrow> -1 | Some (j, _) \<Rightarrow> int j)"

section \<open>Quota windows\<close>

definition overlongPeriod :: "string \<Rightarrow> time \<Rightarrow> time \<Rightarrow> bool" where
  "overlongPeriod period start t_end \<longleftrightarrow>
     (if period = PeriodDay then t_end > start + 25 * hour_ns
      else if period = PeriodMonth then t_end > AddDate 0 1 4 start
      else False)"

text \<open>\<open>for k > 0 && step(k).After(now) { k-- }\<close>\<close>

fun step_back :: "(int \<Rightarrow> time) \<Rightarrow> time \<Rightarrow> nat \<Rightarrow> nat" where
  "step_back step now 0 = 0"
| "step_back step now (Suc k) = (if step (int (Suc k)) > now then step_back step now k else Suc k)"

definition naturalRollStart :: "string \<Rightarrow> time \<Rightarrow> time \<Rightarrow> time \<Rightarrow> time option" where
  "naturalRollStart period start t_end now =
     (let overlong = overlongPeriod period start t_end;
          anchor = (if overlong then start else t_end)
      in if anchor > now then None
         else if period = PeriodDay then
           (let step = (\<lambda>k. AddDate 0 0 k anchor);
                k = step_back step now (nat (quo (time_Sub now anchor) (24 * hour_ns)))
            in if overlong \<and> k = 0 then None else Some (step (int k)))
         else if period = PeriodMonth then
           (let step = (\<lambda>k. AddDate 0 k 0 anchor);
                k = step_back step now (nat (month_index now - month_index anchor))
            in if overlong \<and> k = 0 then None else Some (step (int k)))
         else None)"

text \<open>The loop of \<open>cycleRollWindow\<close> ends only because every cycle moves forward, so it may return nothing.\<close>

partial_function (option) cycle_windows ::
  "time \<Rightarrow> time \<Rightarrow> string \<Rightarrow> int \<Rightarrow> time \<Rightarrow> time \<Rightarrow> (time \<times> time) option" where
  "cycle_windows subEnd now interval count start t_end =
     (if \<not> t_end > now \<and> t_end < subEnd
      then cycle_windows subEnd now interval count t_end (NextCycleEnd t_end subEnd interval count)
      else Some (start, t_end))"

declare cycle_windows.simps [code]

definition cycleRollWindow :: "time \<Rightarrow> time \<Rightarrow> time \<Rightarrow> string \<Rightarrow> int \<Rightarrow> (time \<times> time) option" where
  "cycleRollWindow oldEnd subEnd now interval count =
     cycle_windows subEnd now interval count oldEnd (NextCycleEnd oldEnd subEnd interval count)"

section \<open>Intervals move forward\<close>

text \<open>A count that fits the column \<open>smallint\<close>, as every stored and every validated one does.\<close>

abbreviation small_count :: "int \<Rightarrow> bool" where
  "small_count count \<equiv> count \<le> 32767"

lemma AddInterval_after: "small_count count \<Longrightarrow> from < AddInterval from interval count"
proof -
  assume c: "small_count count"
  define n where "n = (if count \<le> 0 then 1 else count)"
  have n: "1 \<le> n" "n \<le> 32767" using c by (simp_all add: n_def)
  then have w: "wrap64 (7 * n) = 7 * n" "wrap64 (3 * n) = 3 * n"
    by (simp_all add: wrap64_id in_int64_def min_int64_def max_int64_def)
  show ?thesis
    using n AddDate_after [of n "from"] AddDate_after [of "3 * n" "from"] AddDate_after [of "12 * n" "from"]
      AddDate_after [of 1200 "from"]
    by (auto simp: AddInterval_def Let_def n_def [symmetric] AddDate_days w AddDate_years [of _ 0 0 "from"])
qed

lemma AddInterval_day: "small_count count \<Longrightarrow> from + day_ns \<le> AddInterval from interval count"
proof -
  assume c: "small_count count"
  define n where "n = (if count \<le> 0 then 1 else count)"
  have n: "1 \<le> n" "n \<le> 32767" using c by (simp_all add: n_def)
  then have w: "wrap64 (7 * n) = 7 * n" "wrap64 (3 * n) = 3 * n"
    by (simp_all add: wrap64_id in_int64_def min_int64_def max_int64_def)
  show ?thesis
    using n AddDate_months_ge [of n "from"] AddDate_months_ge [of "3 * n" "from"] AddDate_months_ge [of "12 * n" "from"]
      AddDate_months_ge [of 1200 "from"]
    by (auto simp: AddInterval_def Let_def n_def [symmetric] AddDate_days w AddDate_years [of _ 0 0 "from"])
qed

lemma PeriodEndFor_after:
  assumes "small_count (ps_count p)"
  shows "start < PeriodEndFor start p"
proof -
  have *: "t < truncate_us u" if "t + day_ns \<le> u" for t u :: int
    using that truncate_us_le(2) [of u] by simp
  have "start < truncate_us (AddInterval start (ps_interval p) (ps_count p))"
    by (rule *, rule AddInterval_day, rule assms)
  moreover have "start < truncate_us (AddDate 0 0 d start)" if "0 < d" for d
    by (rule *) (use that in \<open>simp add: AddDate_days\<close>)
  ultimately show ?thesis by (simp add: PeriodEndFor_def split: option.split)
qed

lemma NextCycleEnd_le: "small_count count \<Longrightarrow> NextCycleEnd start subEnd interval count \<le> subEnd"
  using AddInterval_after [of count "AddInterval start interval count" interval]
  by (auto simp: NextCycleEnd_def Let_def)

lemma NextCycleEnd_after: "small_count count \<Longrightarrow> start < subEnd \<Longrightarrow> start < NextCycleEnd start subEnd interval count"
  using AddInterval_after [of count start interval] by (auto simp: NextCycleEnd_def Let_def)

lemma cycle_windows_total:
  assumes "small_count count" and "start < t_end" and "t_end \<le> subEnd" and "start \<le> now \<or> start = t0"
  shows "\<exists>a b. cycle_windows subEnd now interval count start t_end = Some (a, b) \<and> start \<le> a \<and> a < b \<and> b \<le> subEnd \<and>
    (now < b \<or> b = subEnd) \<and> (a \<le> now \<or> a = t0)"
  using assms(2-4)
proof (induction "nat (subEnd - t_end)" arbitrary: start t_end rule: less_induct)
  case less
  show ?case
  proof (cases "\<not> now < t_end \<and> t_end < subEnd")
    case True
    let ?n = "NextCycleEnd t_end subEnd interval count"
    have n: "t_end < ?n" "?n \<le> subEnd"
      using True NextCycleEnd_after [OF assms(1)] NextCycleEnd_le [OF assms(1)] by simp_all
    have "\<exists>a b. cycle_windows subEnd now interval count t_end ?n = Some (a, b) \<and> t_end \<le> a \<and> a < b \<and> b \<le> subEnd \<and>
        (now < b \<or> b = subEnd) \<and> (a \<le> now \<or> a = t0)"
      by (rule less.hyps) (use True n less.prems in auto)
    with True less.prems(1) show ?thesis by (subst cycle_windows.simps) fastforce
  next
    case False
    with less.prems show ?thesis by (subst cycle_windows.simps) auto
  qed
qed

lemma step_back_le: "step_back step now k \<le> k"
  by (induction k) auto

lemma step_back_holds: "step 0 \<le> now \<Longrightarrow> step (int (step_back step now k)) \<le> now"
  by (induction k) auto

lemma step_back_last: "step_back step now k < j \<Longrightarrow> j \<le> k \<Longrightarrow> now < step (int j)"
  by (induction k) (auto split: if_splits simp: le_Suc_eq)

section \<open>The latest boundary\<close>

lemma step_back_latest:
  assumes "step 0 \<le> now" and "now < step (int k + 1)" and "\<And>i j. i < j \<Longrightarrow> step i < step j"
  defines "n \<equiv> step_back step now k"
  shows "step (int n) \<le> now" "now < step (int n + 1)"
proof -
  show "step (int n) \<le> now" unfolding n_def using assms(1) by (rule step_back_holds)
  show "now < step (int n + 1)"
  proof (cases "n = k")
    case False
    then have "Suc n \<le> k" using step_back_le [of step now k] by (simp add: n_def)
    then show ?thesis using step_back_last [of step now k "Suc n"] by (simp add: n_def add.commute)
  qed (use assms(2) in simp)
qed

lemma day_steps:
  assumes "anchor \<le> now" and "in_int64 (now - anchor)"
  shows "now < AddDate 0 0 (int (nat (quo (time_Sub now anchor) (24 * hour_ns))) + 1) anchor"
proof -
  let ?q = "(now - anchor) div day_ns"
  have "quo (time_Sub now anchor) (24 * hour_ns) = ?q" using assms by (simp add: time_Sub_exact quo_nonneg)
  moreover have "0 \<le> ?q" using assms(1) by (simp add: pos_imp_zdiv_nonneg_iff)
  moreover have "now - anchor < day_ns * ?q + day_ns" by (rule div_bounds(2)) simp
  ultimately show ?thesis by (simp add: AddDate_days algebra_simps)
qed

lemma month_steps:
  assumes "anchor \<le> now"
  shows "now < AddDate 0 (int (nat (month_index now - month_index anchor)) + 1) 0 anchor"
proof -
  have le: "day_of anchor \<le> day_of now" using assms by (simp add: day_of_def zdiv_mono1)
  have "month_index anchor \<le> month_index now" unfolding month_index_def by (rule month_of_mono [OF le])
  then have m: "month_index anchor + (int (nat (month_index now - month_index anchor)) + 1) = month_index now + 1" by simp
  have "0 \<le> day_of anchor - month_start (month_index anchor)" using month_of [of "day_of anchor"] by (simp add: month_index_def)
  moreover have "day_of now < month_start (month_index now + 1)" using month_of [of "day_of now"] by (simp add: month_index_def)
  ultimately have "now div day_ns + 1 \<le> month_start (month_index now + 1) + (day_of anchor - month_start (month_index anchor)) - epoch_day"
    by (simp add: day_of_def)
  then have "(now div day_ns + 1) * day_ns \<le>
      (month_start (month_index now + 1) + (day_of anchor - month_start (month_index anchor)) - epoch_day) * day_ns"
    by (intro mult_right_mono) simp_all
  moreover have "now < (now div day_ns + 1) * day_ns" using div_bounds(2) [of day_ns now] by (simp add: algebra_simps)
  moreover have "0 \<le> anchor mod day_ns" by simp
  ultimately have "now < (month_start (month_index now + 1) + (day_of anchor - month_start (month_index anchor)) - epoch_day) * day_ns
      + anchor mod day_ns" by linarith
  then show ?thesis unfolding AddDate_def add_0_right mult_zero_right m .
qed

text \<open>The two kinds of natural windows: \<open>k\<close> windows after an anchor.\<close>

definition natural_step :: "string \<Rightarrow> time \<Rightarrow> int \<Rightarrow> time" where
  "natural_step period anchor k = (if period = PeriodDay then AddDate 0 0 k anchor else AddDate 0 k 0 anchor)"

lemma natural_step_less: "i < j \<Longrightarrow> natural_step period anchor i < natural_step period anchor j"
  by (simp add: natural_step_def AddDate_days AddDate_months_less)

lemma natural_step_latest:
  assumes "natural_step period anchor k \<le> now" and "now < natural_step period anchor (k + 1)"
  shows "natural_step period anchor j \<le> now \<longleftrightarrow> j \<le> k"
proof
  assume "natural_step period anchor j \<le> now"
  then have "\<not> k + 1 < j" "j \<noteq> k + 1" using assms(2) natural_step_less [of "k + 1" j period anchor] by auto
  then show "j \<le> k" by linarith
next
  assume "j \<le> k"
  then have "j = k \<or> j < k" by linarith
  then show "natural_step period anchor j \<le> now" using assms(1) natural_step_less [of j k period anchor] by auto
qed

lemma natural_step_0 [simp]: "natural_step period anchor 0 = anchor"
  by (simp add: natural_step_def AddDate_days)

lemma naturalRollStart_cases:
  assumes "period = PeriodDay \<or> period = PeriodMonth" and "in_int64 (now - (if overlongPeriod period start t_end then start else t_end))"
  defines "anchor \<equiv> (if overlongPeriod period start t_end then start else t_end)"
  shows "if now < anchor \<or> overlongPeriod period start t_end \<and> now < natural_step period anchor 1
    then naturalRollStart period start t_end now = None
    else \<exists>k \<ge> 0. naturalRollStart period start t_end now = Some (natural_step period anchor k) \<and>
           natural_step period anchor k \<le> now \<and> now < natural_step period anchor (k + 1)"
proof (cases "now < anchor")
  case True
  then show ?thesis by (simp add: naturalRollStart_def anchor_def Let_def)
next
  case False
  define K where "K = (if period = PeriodDay then nat (quo (time_Sub now anchor) (24 * hour_ns)) else nat (month_index now - month_index anchor))"
  define n where "n = step_back (natural_step period anchor) now K"
  have "now < natural_step period anchor (int K + 1)"
    using False assms day_steps [of anchor now] month_steps [of anchor now] by (auto simp: natural_step_def K_def anchor_def)
  then have n: "natural_step period anchor (int n) \<le> now" "now < natural_step period anchor (int n + 1)"
    unfolding n_def using False step_back_latest [of "natural_step period anchor" now K] by (simp_all add: natural_step_less)
  have step: "natural_step PeriodDay a = (\<lambda>k. AddDate 0 0 k a)" "natural_step PeriodMonth a = (\<lambda>k. AddDate 0 k 0 a)" for a
    by (simp_all add: natural_step_def fun_eq_iff)
  have run: "naturalRollStart period start t_end now =
      (if overlongPeriod period start t_end \<and> n = 0 then None else Some (natural_step period anchor (int n)))"
    using assms(1)
  proof
    assume p: "period = PeriodDay"
    show ?thesis using False unfolding naturalRollStart_def Let_def anchor_def [symmetric] unfolding n_def K_def p step by simp
  next
    assume p: "period = PeriodMonth"
    show ?thesis using False unfolding naturalRollStart_def Let_def anchor_def [symmetric] unfolding n_def K_def p step by simp
  qed
  have "n = 0 \<longleftrightarrow> now < natural_step period anchor 1"
  proof
    assume "now < natural_step period anchor 1"
    then have "\<not> 1 < int n" "int n \<noteq> 1"
      using n(1) natural_step_less [of 1 "int n" period anchor] by (auto simp del: of_nat_eq_1_iff)
    then show "n = 0" by simp
  qed (use n(2) in simp)
  then show ?thesis using False n by (simp add: run) (metis of_nat_0_le_iff)
qed

section \<open>Properties of periods\<close>

text \<open>
  C16. Rolling a daily or monthly quota window lands on the latest boundary that is not after \<open>now\<close>, a boundary being
  a whole number of calendar days or months after the window's end (after its start, if the stored end is too long): no
  later boundary has been passed, and \<open>now\<close> is before the end of the new window. Nothing is rolled only when no such
  boundary (after an end that is too long, none but the start itself) has been passed.
\<close>

theorem naturalRollStart_latest:
  assumes "period = PeriodDay \<or> period = PeriodMonth" and "in_int64 (now - start)" and "in_int64 (now - t_end)"
  shows "case naturalRollStart period start t_end now of
      Some b \<Rightarrow> b \<le> now \<and> now < the (QuotaPeriodEnd period b cycleEnd) \<and>
        (let anchor = (if overlongPeriod period start t_end then start else t_end) in
         \<exists>k \<ge> 0. b = natural_step period anchor k \<and> (\<forall>j. natural_step period anchor j \<le> now \<longleftrightarrow> j \<le> k))
    | None \<Rightarrow> (if overlongPeriod period start t_end then now < natural_step period start 1 else now < t_end)"
proof -
  define anchor where "anchor = (if overlongPeriod period start t_end then start else t_end)"
  have later: "natural_step period anchor (k + 1) \<le> the (QuotaPeriodEnd period (natural_step period anchor k) cycleEnd)" for k
    using assms(1) AddDate_month_again [of k anchor] by (auto simp: natural_step_def QuotaPeriodEnd_def AddDate_days algebra_simps)
  have ordered: "natural_step period start 0 < natural_step period start 1" by (rule natural_step_less) simp
  have "in_int64 (now - anchor)" using assms(2,3) by (simp add: anchor_def)
  note run = naturalRollStart_cases [OF assms(1), of now start t_end, folded anchor_def, OF this]
  show ?thesis
  proof (cases "now < anchor \<or> overlongPeriod period start t_end \<and> now < natural_step period anchor 1")
    case True
    then show ?thesis using run ordered by (auto simp: anchor_def split: if_splits)
  next
    case False
    then obtain k where k: "0 \<le> k" "naturalRollStart period start t_end now = Some (natural_step period anchor k)"
        "natural_step period anchor k \<le> now" "now < natural_step period anchor (k + 1)"
      using run by auto
    then show ?thesis
      using later [of k] natural_step_latest [OF k(3,4)] by (auto simp: Let_def simp flip: anchor_def)
  qed
qed

text \<open>A monthly window that ended on 31 January 2025, rolled on 1 April: the boundary of 31 March.\<close>

theorem naturalRollStart_latest_witness:
  "naturalRollStart PeriodMonth 1735603200000000000 1738281600000000000 1743465600000000000 = Some 1743379200000000000 \<and>
   (\<exists>k \<ge> 0. 1743379200000000000 = natural_step PeriodMonth 1738281600000000000 k \<and>
      (\<forall>j. natural_step PeriodMonth 1738281600000000000 j \<le> 1743465600000000000 \<longleftrightarrow> j \<le> k))"
proof -
  have "naturalRollStart PeriodMonth 1735603200000000000 1738281600000000000 1743465600000000000 = Some 1743379200000000000"
    and "\<not> overlongPeriod PeriodMonth 1735603200000000000 1738281600000000000"
    by code_simp+
  with naturalRollStart_latest [of PeriodMonth 1743465600000000000 1735603200000000000 1738281600000000000]
  show ?thesis by (simp add: in_int64_def min_int64_def max_int64_def)
qed

lemma cycleRollWindow_total:
  assumes "small_count count" and "oldEnd < subEnd"
  shows "\<exists>w. cycleRollWindow oldEnd subEnd now interval count = Some w"
  using cycle_windows_total [of count oldEnd "NextCycleEnd oldEnd subEnd interval count" subEnd now oldEnd interval]
    assms NextCycleEnd_after NextCycleEnd_le
  by (auto simp: cycleRollWindow_def)

text \<open>
  C17. Rolling a billing-cycle quota always ends, however many cycles were missed: from an old end before
  the end of the subscription it returns a non-empty window inside the subscription that starts no earlier
  than the old end, and contains \<open>now\<close> whenever \<open>now\<close> is between the old end and the end of the
  subscription.
\<close>

theorem cycleRollWindow_returns:
  assumes "count \<le> 32767" and "oldEnd < subEnd"
  shows "\<exists>a b. cycleRollWindow oldEnd subEnd now interval count = Some (a, b) \<and> oldEnd \<le> a \<and> a < b \<and> b \<le> subEnd \<and>
    (oldEnd \<le> now \<and> now < subEnd \<longrightarrow> a \<le> now \<and> now < b)"
proof -
  have "\<exists>a b. cycle_windows subEnd now interval count oldEnd (NextCycleEnd oldEnd subEnd interval count) = Some (a, b) \<and>
      oldEnd \<le> a \<and> a < b \<and> b \<le> subEnd \<and> (now < b \<or> b = subEnd) \<and> (a \<le> now \<or> a = oldEnd)"
    by (rule cycle_windows_total) (use assms NextCycleEnd_after NextCycleEnd_le in auto)
  then show ?thesis by (auto simp: cycleRollWindow_def)
qed

theorem cycleRollWindow_returns_witness:
  "\<exists>a b. cycleRollWindow 1738281600000000000 1769817600000000000 1750000000000000000 ''month'' 1 = Some (a, b) \<and>
     a \<le> 1750000000000000000 \<and> 1750000000000000000 < b"
  using cycleRollWindow_returns [of 1 1738281600000000000 1769817600000000000 1750000000000000000 "''month''"] by auto

end
