(* ===== verification/Sub_Store.thy ===== *)
theory Sub_Store
  imports Sub_Period
begin

text \<open>
  The tables of the subscription module and the statements on them:
  \<open>panel/internal/module/subscription/model\<close> and \<open>repo\<close>, with the constraints of
  \<open>panel/db/migrations/00011_subscription.sql\<close> as \<open>00013\<close>, \<open>00017\<close>, \<open>00040\<close>, \<open>00046\<close>, \<open>00051\<close> and
  \<open>00053\<close> leave them. A statement changes the rows it says, or fails with the SQLSTATE of a constraint
  and changes nothing. The name of a constraint is left empty: this module reads none.

  \<open>created_at\<close> and \<open>updated_at\<close> are left out, since no modelled operation reads them, and so are the fetch and
  rotation columns of the credentials. Row locks are left out: an operation runs alone, so no row is skipped as
  locked. The identifiers come from \<open>gen\<close>, the n-th value that PostgreSQL generates; an insert that is rolled back
  leaves no gap here. What PostgreSQL computes by itself is the parameter \<open>pg\<close>: its case folding, the character
  classes of the CHECK on labels, and \<open>timestamptz + interval\<close>, which depends on the time zone of the session.
\<close>

section \<open>Rows\<close>

record sub_row =
  sr_id :: uuid
  sr_user :: uuid
  sr_plan :: uuid
  sr_version :: uuid
  sr_price :: "uuid option"
  sr_status :: string
  sr_start :: time
  sr_end :: time
  sr_closed :: "time option"
  sr_amount :: decimal
  sr_interval :: string
  sr_count :: int
  sr_device_limit :: "int option"
  sr_label :: "string option"
  sr_proxy :: uuid
  sr_node_uid :: int
  sr_order :: "uuid option"

record quota_row =
  qr_id :: uuid
  qr_sub :: uuid
  qr_metric :: string
  qr_period :: string
  qr_start :: time
  qr_end :: "time option"
  qr_limit :: "int option"
  qr_bonus :: int
  qr_consumed :: int

datatype payload_value =
  PTime time | PUuid uuid | PStr string | PBool bool | PInt int | PNull | PCounts "(string \<times> int) list"

record event_row =
  ev_sub :: uuid
  ev_type :: string
  ev_from :: "string option"
  ev_to :: string
  ev_actor_kind :: string
  ev_actor :: "uuid option"
  ev_order :: "uuid option"
  ev_payload :: "(string \<times> payload_value) list"

record reset_row =
  rl_sub :: uuid
  rl_user :: uuid
  rl_metric :: string
  rl_reason :: string
  rl_before :: int
  rl_after :: int
  rl_actor :: "uuid option"
  rl_note :: "string option"

record usage_row =
  us_sub :: uuid
  us_day :: int
  us_bytes :: int

text \<open>An audit record, written by the audit module in the same transaction.\<close>

record audit_row =
  au_action :: string
  au_type :: string
  au_resource :: uuid
  au_data :: "(string \<times> payload_value) list"

text \<open>An event for the plugins, queued by the plugin module in the same transaction; its key is the subscription with
  the second of its end.\<close>

record plugin_event =
  pe_type :: string
  pe_key :: "uuid \<times> int"
  pe_user :: uuid
  pe_plan :: string

record cred_row =
  cr_id :: uuid
  cr_sub :: uuid
  cr_user :: uuid
  cr_hash :: string
  cr_prefix :: string
  cr_sealed :: string
  cr_active :: bool
  cr_revoked :: "(time \<times> string) option"

text \<open>The tables, with the identifiers that foreign keys into other modules' tables may use.\<close>

record sub_db =
  fk_users :: "uuid list"
  fk_versions :: "(uuid \<times> uuid) list"
  fk_prices :: "uuid list"
  fk_orders :: "uuid list"
  subs :: "sub_row list"
  quotas :: "quota_row list"
  events :: "event_row list"
  resets :: "reset_row list"
  usage :: "usage_row list"
  creds :: "cred_row list"
  audits :: "audit_row list"
  emitted :: "plugin_event list"
  s_drawn :: nat
  node_seq :: nat

record pg =
  pg_lower :: "string \<Rightarrow> string"
  pg_label_ok :: "string \<Rightarrow> bool"
  pg_plus :: "time \<Rightarrow> string \<Rightarrow> time"

section \<open>Errors\<close>

definition sub_ErrDuplicate :: err where "sub_ErrDuplicate = Plain ''subscription: unique constraint''"
definition sub_ErrForeignKey :: err where "sub_ErrForeignKey = Plain ''subscription: foreign key''"
definition sub_ErrCheck :: err where "sub_ErrCheck = Plain ''subscription: check''"
definition sub_ErrAppendOnly :: err where "sub_ErrAppendOnly = Plain ''subscription: append only''"

abbreviation CodeRestrict :: string where "CodeRestrict \<equiv> ''23001''"

text \<open>\<open>ON CONFLICT DO UPDATE\<close> that would touch a row twice.\<close>

abbreviation CodeCardinality :: string where "CodeCardinality \<equiv> ''21000''"

definition sub_constraintErrs :: constraint_errors where
  "sub_constraintErrs = \<lparr>
     ByCode = [CodeUnique \<mapsto> sub_ErrDuplicate, CodeForeignKey \<mapsto> sub_ErrForeignKey, CodeCheck \<mapsto> sub_ErrCheck,
               CodeRestrict \<mapsto> sub_ErrAppendOnly],
     ByName = Map.empty\<rparr>"

definition sub_mapErr :: "err \<Rightarrow> err" where
  "sub_mapErr e = ConstraintErrors_Map sub_constraintErrs e"

definition sub_mapped :: "(err, sub_db, 'a) eff \<Rightarrow> (err, sub_db, 'a) eff" where
  "sub_mapped m = handle (atomic m) (\<lambda>e. fail (sub_mapErr e))"

section \<open>Constraints\<close>

text \<open>A count outside \<open>smallint\<close> is refused by the driver, before a statement is sent.\<close>

abbreviation smallint :: "int \<Rightarrow> bool" where
  "smallint n \<equiv> - 32768 \<le> n \<and> n \<le> 32767"

definition ErrInt2 :: err where
  "ErrInt2 = Plain ''value out of range for int2''"

definition sub_checks :: "sub_row \<Rightarrow> bool" where
  "sub_checks r \<longleftrightarrow>
     (sr_status r = StatusActive \<or> sr_status r = StatusExpired) \<and> 0 \<le> sr_amount r \<and> ValidInterval (sr_interval r) \<and>
     0 < sr_count r \<and> sr_start r < sr_end r \<and> (sr_closed r = None \<or> sr_status r = StatusExpired) \<and>
     pred_option (\<lambda>d. 0 \<le> d \<and> d \<le> 1000) (sr_device_limit r)"

definition sub_refs :: "sub_db \<Rightarrow> sub_row \<Rightarrow> bool" where
  "sub_refs s r \<longleftrightarrow>
     sr_user r \<in> set (fk_users s) \<and> (sr_plan r, sr_version r) \<in> set (fk_versions s) \<and>
     pred_option (\<lambda>p. p \<in> set (fk_prices s)) (sr_price r) \<and> pred_option (\<lambda>o_id. o_id \<in> set (fk_orders s)) (sr_order r)"

text \<open>The generated column \<open>remaining\<close>, a \<open>bigint\<close>; its sum is computed from left to right.\<close>

definition remaining :: "quota_row \<Rightarrow> int option" where
  "remaining q = map_option (\<lambda>l. l + qr_bonus q - qr_consumed q) (qr_limit q)"

definition remaining_fits :: "quota_row \<Rightarrow> bool" where
  "remaining_fits q \<longleftrightarrow> pred_option (\<lambda>l. in_int64 (l + qr_bonus q) \<and> in_int64 (l + qr_bonus q - qr_consumed q)) (qr_limit q)"

definition quota_checks :: "quota_row \<Rightarrow> bool" where
  "quota_checks q \<longleftrightarrow>
     1 \<le> rune_count (btrim (qr_metric q)) \<and> rune_count (btrim (qr_metric q)) \<le> 64 \<and>
     qr_period q \<in> set [PeriodTotal, PeriodCycle, PeriodDay, PeriodMonth] \<and>
     pred_option (\<lambda>l. 0 \<le> l) (qr_limit q) \<and> 0 \<le> qr_consumed q \<and> 0 \<le> qr_bonus q \<and>
     (qr_period q = PeriodTotal \<longleftrightarrow> qr_end q = None) \<and> pred_option (\<lambda>e. qr_start q < e) (qr_end q)"

definition quota_key :: "quota_row \<Rightarrow> uuid \<times> string \<times> string" where
  "quota_key q = (qr_sub q, qr_metric q, qr_period q)"

definition next_id :: "(nat \<Rightarrow> uuid) \<Rightarrow> (err, sub_db, uuid) eff" where
  "next_id gen = bnd (gets s_drawn) (\<lambda>n. bnd (modify (\<lambda>s. s\<lparr>s_drawn := Suc n\<rparr>)) (\<lambda>_. ret (gen n)))"

section \<open>Subscriptions\<close>

text \<open>\<open>UPDATE subscriptions SET ... WHERE p RETURNING id\<close>.\<close>

definition update_subs :: "(sub_row \<Rightarrow> bool) \<Rightarrow> (sub_row \<Rightarrow> sub_row) \<Rightarrow> (err, sub_db, uuid list) eff" where
  "update_subs p f =
     sub_mapped
       (bnd (gets subs) (\<lambda>rs.
        bnd (require (list_all (\<lambda>r. p r \<longrightarrow> smallint (sr_count (f r))) rs) ErrInt2) (\<lambda>_.
        bnd (require (list_all (\<lambda>r. p r \<longrightarrow> numeric_20_2 (sr_amount (f r))) rs) (PgError CodeNumeric '''')) (\<lambda>_.
        bnd (require (list_all (\<lambda>r. p r \<longrightarrow> sub_checks (f r)) rs) (PgError CodeCheck '''')) (\<lambda>_.
        bnd (gets (\<lambda>s. list_all (\<lambda>r. p r \<longrightarrow> sub_refs s (f r)) rs)) (\<lambda>fk.
        bnd (require fk (PgError CodeForeignKey '''')) (\<lambda>_.
        bnd (modify (\<lambda>s. s\<lparr>subs := update_rows p f rs\<rparr>)) (\<lambda>_.
          ret (map sr_id (filter p rs))))))))))"

text \<open>The order by creation is left out: the modelled caller sorts the rows itself.\<close>

definition SubscriptionsByUsers :: "uuid list \<Rightarrow> (err, sub_db, sub_row list) eff" where
  "SubscriptionsByUsers us = gets (\<lambda>s. filter (\<lambda>r. sr_user r \<in> set us) (subs s))"

definition SubscriptionByID :: "uuid \<Rightarrow> (err, sub_db, sub_row option) eff" where
  "SubscriptionByID i = gets (\<lambda>s. case find (\<lambda>r. sr_id r = i) (subs s) of
     None \<Rightarrow> None | Some r \<Rightarrow> if sr_id r = uuid_Nil then None else Some r)"

text \<open>The columns a conditional update may set, the price snapshot as one group.\<close>

record sub_cols =
  set_price :: "(uuid option \<times> decimal \<times> string \<times> int) option"
  set_end :: "time option"
  set_start :: "time option"
  set_plan :: "uuid option"
  set_version :: "uuid option"
  set_device :: "int option option"

abbreviation no_cols :: sub_cols where
  "no_cols \<equiv> \<lparr>set_price = None, set_end = None, set_start = None, set_plan = None, set_version = None, set_device = None\<rparr>"

definition with_cols :: "sub_cols \<Rightarrow> string \<Rightarrow> sub_row \<Rightarrow> sub_row" where
  "with_cols c status r =
     r\<lparr>sr_status := status,
       sr_price := (case set_price c of Some (p, _) \<Rightarrow> p | None \<Rightarrow> sr_price r),
       sr_amount := (case set_price c of Some (_, a, _) \<Rightarrow> a | None \<Rightarrow> sr_amount r),
       sr_interval := (case set_price c of Some (_, _, i, _) \<Rightarrow> i | None \<Rightarrow> sr_interval r),
       sr_count := (case set_price c of Some (_, _, _, n) \<Rightarrow> n | None \<Rightarrow> sr_count r),
       sr_end := (case set_end c of Some t \<Rightarrow> t | None \<Rightarrow> sr_end r),
       sr_start := (case set_start c of Some t \<Rightarrow> t | None \<Rightarrow> sr_start r),
       sr_plan := (case set_plan c of Some p \<Rightarrow> p | None \<Rightarrow> sr_plan r),
       sr_version := (case set_version c of Some v \<Rightarrow> v | None \<Rightarrow> sr_version r),
       sr_device_limit := (case set_device c of Some d \<Rightarrow> d | None \<Rightarrow> sr_device_limit r)\<rparr>"

definition UpdateSubscription ::
  "decimal_pkg \<Rightarrow> uuid \<Rightarrow> string \<Rightarrow> sub_cols \<Rightarrow> string \<Rightarrow> (err, sub_db, bool) eff" where
  "UpdateSubscription D i fromStatus cols status =
     bnd (lift_sum (case set_price cols of Some (_, a, _) \<Rightarrow> Check D a | None \<Rightarrow> Inr ())) (\<lambda>_.
     bnd (update_subs (\<lambda>r. sr_id r = i \<and> sr_status r = fromStatus) (with_cols cols status)) (\<lambda>ids.
       ret (length ids = 1)))"

text \<open>The only caller leaves the label empty, and the database generates \<open>proxy_uuid\<close> and \<open>node_uid\<close>.\<close>

definition insert_subscription :: "sub_row \<Rightarrow> (err, sub_db, sub_row) eff" where
  "insert_subscription r =
     bnd (require (smallint (sr_count r)) ErrInt2) (\<lambda>_.
     bnd (require (numeric_20_2 (sr_amount r)) (PgError CodeNumeric '''')) (\<lambda>_.
     bnd (require (sub_checks r) (PgError CodeCheck '''')) (\<lambda>_.
     bnd (gets subs) (\<lambda>rs.
     bnd (require (sr_id r \<notin> sr_id ` set rs \<and> sr_proxy r \<notin> sr_proxy ` set rs \<and> sr_node_uid r \<notin> sr_node_uid ` set rs \<and>
                   (sr_order r = None \<or> sr_order r \<notin> sr_order ` set rs)) (PgError CodeUnique '''')) (\<lambda>_.
     bnd (gets (\<lambda>s. sub_refs s r)) (\<lambda>fk.
     bnd (require fk (PgError CodeForeignKey '''')) (\<lambda>_.
     bnd (modify (\<lambda>s. s\<lparr>subs := rs @ [r]\<rparr>)) (\<lambda>_. ret r))))))))"

definition CreateSubscription :: "decimal_pkg \<Rightarrow> (nat \<Rightarrow> uuid) \<Rightarrow> sub_row \<Rightarrow> (err, sub_db, sub_row) eff" where
  "CreateSubscription D gen m =
     bnd (lift_sum (Check D (sr_amount m))) (\<lambda>_.
     sub_mapped
       (bnd (next_id gen) (\<lambda>i. bnd (next_id gen) (\<lambda>proxy.
        bnd (gets node_seq) (\<lambda>n. bnd (modify (\<lambda>s. s\<lparr>node_seq := Suc n\<rparr>)) (\<lambda>_.
          insert_subscription (m\<lparr>sr_id := i, sr_proxy := proxy, sr_node_uid := int (Suc n), sr_label := None\<rparr>)))))))"

definition TransitionStatus :: "uuid list \<Rightarrow> string \<Rightarrow> string \<Rightarrow> (err, sub_db, uuid list) eff" where
  "TransitionStatus ids from to =
     (if ids = [] then ret []
      else update_subs (\<lambda>r. sr_id r \<in> set ids \<and> sr_status r = from) (\<lambda>r. r\<lparr>sr_status := to\<rparr>))"

definition CloseRenewalWindows :: "uuid list \<Rightarrow> time \<Rightarrow> (err, sub_db, uuid list) eff" where
  "CloseRenewalWindows ids atime =
     (if ids = [] then ret []
      else update_subs (\<lambda>r. sr_id r \<in> set ids \<and> sr_status r = StatusExpired \<and> sr_closed r = None) (\<lambda>r. r\<lparr>sr_closed := Some atime\<rparr>))"

record version_switch =
  vs_sub :: uuid
  vs_from :: uuid
  vs_to :: uuid

definition SwitchPlanVersions :: "version_switch list \<Rightarrow> (err, sub_db, uuid list) eff" where
  "SwitchPlanVersions sw =
     (if sw = [] then ret []
      else update_subs (\<lambda>r. list_ex (\<lambda>v. vs_sub v = sr_id r \<and> vs_from v = sr_version r) sw)
             (\<lambda>r. case find (\<lambda>v. vs_sub v = sr_id r \<and> vs_from v = sr_version r) sw of
                    Some v \<Rightarrow> r\<lparr>sr_version := vs_to v\<rparr> | None \<Rightarrow> r))"

definition by_end :: "sub_row list \<Rightarrow> sub_row list" where
  "by_end rs = sort_key sr_end (sort_key sr_id rs)"

definition LockDueExpiries :: "time \<Rightarrow> nat \<Rightarrow> (err, sub_db, sub_row list) eff" where
  "LockDueExpiries now limit =
     gets (\<lambda>s. take limit (by_end (filter (\<lambda>r. sr_status r = StatusActive \<and> sr_end r \<le> now) (subs s))))"

definition LockDueRenewalCloses :: "time \<Rightarrow> nat \<Rightarrow> (err, sub_db, sub_row list) eff" where
  "LockDueRenewalCloses cutoff limit =
     gets (\<lambda>s. take limit (by_end (filter (\<lambda>r. sr_status r = StatusExpired \<and> sr_closed r = None \<and> sr_end r \<le> cutoff) (subs s))))"

text \<open>A collision with the index on \<open>(user_id, lower(label))\<close> is rolled back to the savepoint and is no error.\<close>

definition label_taken :: "pg \<Rightarrow> uuid \<Rightarrow> uuid \<Rightarrow> string option \<Rightarrow> sub_row list \<Rightarrow> bool" where
  "label_taken P i u label rs \<longleftrightarrow>
     label \<noteq> None \<and>
     list_ex (\<lambda>r. sr_id r \<noteq> i \<and> sr_user r = u \<and> map_option (pg_lower P) (sr_label r) = map_option (pg_lower P) label) rs"

definition SetLabel :: "pg \<Rightarrow> uuid \<Rightarrow> uuid \<Rightarrow> string option \<Rightarrow> (err, sub_db, bool) eff" where
  "SetLabel P i u label =
     (let p = (\<lambda>r. sr_id r = i \<and> sr_user r = u) in
      bnd (require (pred_option text_param label) (sub_mapErr (PgError CodeText ''''))) (\<lambda>_.
      bnd (gets subs) (\<lambda>rs.
      bnd (require (list_ex p rs \<longrightarrow> pred_option (pg_label_ok P) label) (sub_mapErr (PgError CodeCheck ''''))) (\<lambda>_.
        if list_ex p rs \<and> label_taken P i u label rs then ret False
        else bnd (modify (\<lambda>s. s\<lparr>subs := update_rows p (\<lambda>r. r\<lparr>sr_label := label\<rparr>) rs\<rparr>)) (\<lambda>_.
               ret (rows_affected p rs = 1))))))"

section \<open>Quotas\<close>

definition QuotasBySubscriptions :: "uuid list \<Rightarrow> (err, sub_db, quota_row list) eff" where
  "QuotasBySubscriptions ids =
     gets (\<lambda>s. if ids = [] then [] else sort_key qr_id (filter (\<lambda>q. qr_sub q \<in> set ids) (quotas s)))"

definition DeleteQuotas :: "uuid list \<Rightarrow> (err, sub_db, unit) eff" where
  "DeleteQuotas ids = modify (\<lambda>s. s\<lparr>quotas := filter (\<lambda>q. qr_id q \<notin> set ids) (quotas s)\<rparr>)"

definition insert_quota :: "(nat \<Rightarrow> uuid) \<Rightarrow> quota_row \<Rightarrow> (err, sub_db, unit) eff" where
  "insert_quota gen m =
     bnd (next_id gen) (\<lambda>i.
     (let q = m\<lparr>qr_id := i\<rparr> in
      bnd (require (pred_option in_int64 (qr_limit q) \<and> remaining_fits q) (PgError CodeNumeric '''')) (\<lambda>_.
      bnd (require (quota_checks q) (PgError CodeCheck '''')) (\<lambda>_.
      bnd (gets quotas) (\<lambda>qs.
      bnd (require (i \<notin> qr_id ` set qs \<and> quota_key q \<notin> quota_key ` set qs) (PgError CodeUnique '''')) (\<lambda>_.
      bnd (gets (\<lambda>s. qr_sub q \<in> sr_id ` set (subs s))) (\<lambda>fk.
      bnd (require fk (PgError CodeForeignKey '''')) (\<lambda>_.
        modify (\<lambda>s. s\<lparr>quotas := qs @ [q]\<rparr>)))))))))"

definition InsertQuotas :: "(nat \<Rightarrow> uuid) \<Rightarrow> quota_row list \<Rightarrow> (err, sub_db, unit) eff" where
  "InsertQuotas gen rows =
     (if rows = [] then ret () else sub_mapped (for_each rows (insert_quota gen)))"

text \<open>\<open>UPDATE quota_balances SET ... WHERE p\<close>, and the number of rows.\<close>

definition update_quotas :: "(quota_row \<Rightarrow> bool) \<Rightarrow> (quota_row \<Rightarrow> quota_row) \<Rightarrow> (err, sub_db, nat) eff" where
  "update_quotas p f =
     sub_mapped
       (bnd (gets quotas) (\<lambda>qs.
        bnd (require (list_all (\<lambda>q. p q \<longrightarrow> pred_option in_int64 (qr_limit (f q)) \<and> remaining_fits (f q)) qs) (PgError CodeNumeric '''')) (\<lambda>_.
        bnd (require (list_all (\<lambda>q. p q \<longrightarrow> quota_checks (f q)) qs) (PgError CodeCheck '''')) (\<lambda>_.
        bnd (modify (\<lambda>s. s\<lparr>quotas := update_rows p f qs\<rparr>)) (\<lambda>_.
          ret (rows_affected p qs))))))"

definition UpdateQuota :: "uuid \<Rightarrow> (quota_row \<Rightarrow> quota_row) \<Rightarrow> (err, sub_db, unit) eff" where
  "UpdateQuota i f =
     bnd (update_quotas (\<lambda>q. qr_id q = i) f) (\<lambda>n.
       require (n = 1) (Plain ''subscription: no such quota row''))"

text \<open>The saturating additions that the SQL spells out; \<open>9223372036854775807 - b\<close> overflows for a negative \<open>b\<close>.\<close>

definition sql_sat_add :: "int \<Rightarrow> int \<Rightarrow> int" where
  "sql_sat_add a b = (if a > max_int64 - b then max_int64 else a + b)"

definition AddQuotaBonus :: "uuid \<Rightarrow> int \<Rightarrow> (err, sub_db, int) eff" where
  "AddQuotaBonus i bytes =
     bnd (gets (\<lambda>s. find (\<lambda>q. qr_id q = i) (quotas s))) (\<lambda>found.
     case found of
       None \<Rightarrow> fail (Plain ''subscription: no such quota row'')
     | Some q \<Rightarrow>
         bnd (require (in_int64 (max_int64 - bytes)) (sub_mapErr (PgError CodeNumeric ''''))) (\<lambda>_.
         bnd (update_quotas (\<lambda>q. qr_id q = i) (\<lambda>q. q\<lparr>qr_bonus := sql_sat_add (qr_bonus q) bytes\<rparr>)) (\<lambda>n.
         bnd (require (n = 1) (Plain ''subscription: no such quota row'')) (\<lambda>_.
           ret (sql_sat_add (qr_bonus q) bytes)))))"

record quota_add =
  qa_id :: uuid
  qa_amount :: int

definition AddQuotaConsumed :: "quota_add list \<Rightarrow> (err, sub_db, unit) eff" where
  "AddQuotaConsumed adds =
     (if adds = [] then ret ()
      else
        bnd (gets quotas) (\<lambda>qs.
        bnd (require (list_all (\<lambda>a. qa_id a \<in> qr_id ` set qs \<longrightarrow> in_int64 (max_int64 - qa_amount a)) adds)
               (sub_mapErr (PgError CodeNumeric ''''))) (\<lambda>_.
        bnd (update_quotas (\<lambda>q. qr_id q \<in> qa_id ` set adds)
               (\<lambda>q. case find (\<lambda>a. qa_id a = qr_id q) adds of
                      Some a \<Rightarrow> q\<lparr>qr_consumed := sql_sat_add (qr_consumed q) (qa_amount a)\<rparr> | None \<Rightarrow> q)) (\<lambda>n.
          require (n = length adds) (Plain ''subscription: quota rows written'')))))"

text \<open>\<open>trafficQuotaWindowCond\<close>: the rows of the current window, and of one that ended less than a day ago and
  has not been rolled.\<close>

abbreviation MetricTraffic :: string where "MetricTraffic \<equiv> ''traffic.bytes''"

definition TrafficQuotaGrace :: duration where
  "TrafficQuotaGrace = 24 * hour_ns"

definition trafficQuotaWindowCond :: "time \<Rightarrow> time \<Rightarrow> quota_row \<Rightarrow> bool" where
  "trafficQuotaWindowCond wNow wGrace q \<longleftrightarrow>
     qr_metric q = MetricTraffic \<and> qr_start q \<le> wNow \<and> pred_option (\<lambda>e. e > wGrace) (qr_end q)"

definition trafficQuotaWindow :: "time \<Rightarrow> time \<times> time" where
  "trafficQuotaWindow now = (now, now - TrafficQuotaGrace)"

record traffic_quota_row =
  tq_id :: uuid
  tq_sub :: uuid
  tq_period :: string
  tq_room :: "int option"

definition LockTrafficQuotas :: "uuid list \<Rightarrow> time \<Rightarrow> (err, sub_db, traffic_quota_row list) eff" where
  "LockTrafficQuotas ids now =
     gets (\<lambda>s. if ids = [] then []
       else map (\<lambda>q. \<lparr>tq_id = qr_id q, tq_sub = qr_sub q, tq_period = qr_period q, tq_room = remaining q\<rparr>)
              (sort_key qr_id (filter (\<lambda>q. qr_sub q \<in> set ids \<and>
                 (case trafficQuotaWindow now of (wNow, wGrace) \<Rightarrow> trafficQuotaWindowCond wNow wGrace q)) (quotas s))))"

definition SubscriptionIDsByNodeUIDs :: "int list \<Rightarrow> (err, sub_db, int \<rightharpoonup> uuid) eff" where
  "SubscriptionIDsByNodeUIDs uids =
     gets (\<lambda>s. fold (\<lambda>r m. m(sr_node_uid r \<mapsto> sr_id r)) (filter (\<lambda>r. sr_node_uid r \<in> set uids) (subs s)) Map.empty)"

record usage_add =
  ua_sub :: uuid
  ua_bytes :: int

text \<open>
  One row of the \<open>INSERT ... ON CONFLICT (subscription_id, day) DO UPDATE\<close>. The CHECK is tested on the proposed row
  before the conflict. \<open>day\<close> is the number of a calendar day, which the caller writes as a date.
\<close>

definition add_usage :: "int \<Rightarrow> usage_add \<Rightarrow> (err, sub_db, unit) eff" where
  "add_usage day a =
     (let p = (\<lambda>u. us_sub u = ua_sub a \<and> us_day u = day) in
      bnd (require (0 \<le> ua_bytes a) (PgError CodeCheck '''')) (\<lambda>_.
      bnd (gets usage) (\<lambda>us.
        if list_ex p us
        then modify (\<lambda>s. s\<lparr>usage := update_rows p (\<lambda>u. u\<lparr>us_bytes := sql_sat_add (us_bytes u) (ua_bytes a)\<rparr>) us\<rparr>)
        else
          bnd (gets (\<lambda>s. ua_sub a \<in> sr_id ` set (subs s))) (\<lambda>fk.
          bnd (require fk (PgError CodeForeignKey '''')) (\<lambda>_.
            modify (\<lambda>s. s\<lparr>usage := us @ [\<lparr>us_sub = ua_sub a, us_day = day, us_bytes = ua_bytes a\<rparr>]\<rparr>))))))"

definition AddUsageDaily :: "int \<Rightarrow> usage_add list \<Rightarrow> (err, sub_db, unit) eff" where
  "AddUsageDaily day adds =
     (if adds = [] then ret ()
      else sub_mapped
        (bnd (require (distinct (map ua_sub adds)) (PgError CodeCardinality '''')) (\<lambda>_.
           for_each (sort_key ua_sub adds) (add_usage day))))"

section \<open>Rolling quota windows\<close>

record roll_candidate =
  rc_id :: uuid
  rc_sub :: uuid
  rc_user :: uuid
  rc_plan :: uuid
  rc_version :: uuid
  rc_metric :: string
  rc_period :: string
  rc_start :: time
  rc_end :: time
  rc_sub_end :: time
  rc_interval :: string
  rc_count :: int

record quota_roll =
  ro_id :: uuid
  ro_start :: time
  ro_end :: time
  ro_set_limit :: bool
  ro_limit :: "int option"

record rolled_quota =
  rq_id :: uuid
  rq_sub :: uuid
  rq_metric :: string
  rq_before :: int

definition quotaRollDueWhere :: "pg \<Rightarrow> time \<Rightarrow> quota_row \<Rightarrow> time \<Rightarrow> sub_row \<Rightarrow> bool" where
  "quotaRollDueWhere P now q q_end r \<longleftrightarrow>
     sr_status r = StatusActive \<and> sr_end r > now \<and>
     ((qr_period q = PeriodDay \<or> qr_period q = PeriodMonth) \<and>
        (q_end \<le> now \<or>
         q_end > pg_plus P (qr_start q) (if qr_period q = PeriodDay then ''1 day 1 hour'' else ''1 month 4 days'') \<and>
         pg_plus P (qr_start q) (if qr_period q = PeriodDay then ''1 day'' else ''1 month'') \<le> now)
      \<or> qr_period q = PeriodCycle \<and> q_end \<le> now \<and> sr_end r > q_end)"

definition due_roll :: "pg \<Rightarrow> time \<Rightarrow> sub_row list \<Rightarrow> quota_row \<Rightarrow> roll_candidate option" where
  "due_roll P now rs q =
     (case (qr_end q, find (\<lambda>r. sr_id r = qr_sub q) rs) of
        (Some e, Some r) \<Rightarrow>
          if quotaRollDueWhere P now q e r
          then Some \<lparr>rc_id = qr_id q, rc_sub = qr_sub q, rc_user = sr_user r, rc_plan = sr_plan r, rc_version = sr_version r,
                     rc_metric = qr_metric q, rc_period = qr_period q, rc_start = qr_start q, rc_end = e,
                     rc_sub_end = sr_end r, rc_interval = sr_interval r, rc_count = sr_count r\<rparr>
          else None
      | _ \<Rightarrow> None)"

definition LockDueQuotaRolls :: "pg \<Rightarrow> time \<Rightarrow> nat \<Rightarrow> (err, sub_db, roll_candidate list) eff" where
  "LockDueQuotaRolls P now limit =
     gets (\<lambda>s. take limit (List.map_filter (due_roll P now (subs s)) (sort_key qr_id (quotas s))))"

definition QuotaRollsRemain :: "pg \<Rightarrow> time \<Rightarrow> (err, sub_db, bool) eff" where
  "QuotaRollsRemain P now = gets (\<lambda>s. list_ex (\<lambda>q. due_roll P now (subs s) q \<noteq> None) (quotas s))"

definition rolled_row :: "quota_roll \<Rightarrow> quota_row \<Rightarrow> quota_row" where
  "rolled_row v q =
     q\<lparr>qr_consumed := 0, qr_bonus := 0, qr_start := ro_start v, qr_end := Some (ro_end v),
       qr_limit := (if ro_set_limit v then ro_limit v else qr_limit q)\<rparr>"

definition ApplyQuotaRolls :: "quota_roll list \<Rightarrow> (err, sub_db, rolled_quota list) eff" where
  "ApplyQuotaRolls rolls =
     (if rolls = [] then ret []
      else
        bnd (gets quotas) (\<lambda>qs.
        bnd (update_quotas (\<lambda>q. qr_id q \<in> ro_id ` set rolls)
               (\<lambda>q. case find (\<lambda>v. ro_id v = qr_id q) rolls of Some v \<Rightarrow> rolled_row v q | None \<Rightarrow> q)) (\<lambda>_.
          ret (map (\<lambda>q. \<lparr>rq_id = qr_id q, rq_sub = qr_sub q, rq_metric = qr_metric q, rq_before = qr_consumed q\<rparr>)
                 (filter (\<lambda>q. qr_id q \<in> ro_id ` set rolls) qs)))))"

section \<open>Events, resets and credentials\<close>

definition event_checks :: "event_row \<Rightarrow> bool" where
  "event_checks e \<longleftrightarrow>
     ev_type e \<in> set [''activated'', ''renewed'', ''extended'', ''plan_changed'', ''expired'', ''renewal_closed'',
                    ''link_rotated'', ''period_end_set'', ''quota_limit_set''] \<and>
     pred_option (\<lambda>s. s = StatusActive \<or> s = StatusExpired) (ev_from e) \<and>
     (ev_to e = StatusActive \<or> ev_to e = StatusExpired) \<and>
     ev_actor_kind e \<in> set [''user'', ''admin'', ''system'', ''payment'', ''scheduler''] \<and>
     (ev_actor_kind e = ''user'' \<or> ev_actor_kind e = ''admin'' \<longleftrightarrow> ev_actor e \<noteq> None)"

text \<open>\<open>jsonb\<close> refuses the character \<open>\u0000\<close>. Invalid UTF-8, which the encoder replaces, is kept as it is here.\<close>

abbreviation CodeJson :: string where "CodeJson \<equiv> ''22P05''"

fun payload_text_ok :: "payload_value \<Rightarrow> bool" where
  "payload_text_ok (PStr s) = (\<not> has_nul s)"
| "payload_text_ok (PCounts ns) = list_all (\<lambda>(k, _). \<not> has_nul k) ns"
| "payload_text_ok _ = True"

definition InsertEvent :: "event_row \<Rightarrow> (err, sub_db, unit) eff" where
  "InsertEvent e =
     sub_mapped
       (bnd (require (list_all (payload_text_ok \<circ> snd) (ev_payload e)) (PgError CodeJson '''')) (\<lambda>_.
        bnd (require (event_checks e) (PgError CodeCheck '''')) (\<lambda>_.
        bnd (gets (\<lambda>s. ev_sub e \<in> sr_id ` set (subs s) \<and> pred_option (\<lambda>u. u \<in> set (fk_users s)) (ev_actor e) \<and>
                       pred_option (\<lambda>o_id. o_id \<in> set (fk_orders s)) (ev_order e))) (\<lambda>fk.
        bnd (require fk (PgError CodeForeignKey '''')) (\<lambda>_.
          modify (\<lambda>s. s\<lparr>events := events s @ [e]\<rparr>))))))"

definition reset_checks :: "reset_row \<Rightarrow> bool" where
  "reset_checks r \<longleftrightarrow>
     1 \<le> rune_count (btrim (rl_metric r)) \<and> rune_count (btrim (rl_metric r)) \<le> 64 \<and>
     rl_reason r \<in> set [''renewal'', ''cycle_roll'', ''manual'', ''gift_card'', ''plan_change'', ''order''] \<and>
     0 \<le> rl_before r \<and> 0 \<le> rl_after r \<and> pred_option (\<lambda>n. 1 \<le> rune_count n \<and> rune_count n \<le> 500) (rl_note r) \<and>
     (rl_reason r \<noteq> ''manual'' \<or> rl_actor r \<noteq> None)"

definition insert_reset :: "reset_row \<Rightarrow> (err, sub_db, unit) eff" where
  "insert_reset r =
     bnd (require (pred_option text_param (rl_note r)) (PgError CodeText '''')) (\<lambda>_.
     bnd (require (reset_checks r) (PgError CodeCheck '''')) (\<lambda>_.
     bnd (gets (\<lambda>s. (rl_sub r, rl_user r) \<in> (\<lambda>x. (sr_id x, sr_user x)) ` set (subs s) \<and>
                    pred_option (\<lambda>u. u \<in> set (fk_users s)) (rl_actor r))) (\<lambda>fk.
     bnd (require fk (PgError CodeForeignKey '''')) (\<lambda>_.
       modify (\<lambda>s. s\<lparr>resets := resets s @ [r]\<rparr>)))))"

definition InsertResetLogs :: "reset_row list \<Rightarrow> (err, sub_db, unit) eff" where
  "InsertResetLogs rows = (if rows = [] then ret () else sub_mapped (for_each rows insert_reset))"

definition InsertCredential :: "(nat \<Rightarrow> uuid) \<Rightarrow> cred_row \<Rightarrow> (err, sub_db, uuid) eff" where
  "InsertCredential gen m =
     sub_mapped
       (bnd (next_id gen) (\<lambda>i.
        (let r = m\<lparr>cr_id := i\<rparr> in
         bnd (require (length (cr_hash r) = 32 \<and> 1 \<le> rune_count (cr_prefix r) \<and> rune_count (cr_prefix r) \<le> 16 \<and>
                       (cr_active r \<longleftrightarrow> cr_revoked r = None))
                (PgError CodeCheck '''')) (\<lambda>_.
         bnd (gets creds) (\<lambda>cs.
         bnd (require (i \<notin> cr_id ` set cs \<and> cr_hash r \<notin> cr_hash ` set cs \<and>
                       \<not> (cr_active r \<and> list_ex (\<lambda>x. cr_active x \<and> cr_sub x = cr_sub r) cs))
                (PgError CodeUnique '''')) (\<lambda>_.
         bnd (gets (\<lambda>s. (cr_sub r, cr_user r) \<in> (\<lambda>x. (sr_id x, sr_user x)) ` set (subs s))) (\<lambda>fk.
         bnd (require fk (PgError CodeForeignKey '''')) (\<lambda>_.
         bnd (modify (\<lambda>s. s\<lparr>creds := cs @ [r]\<rparr>)) (\<lambda>_.
           ret i)))))))))"

definition RevokeCredentialsOnClose :: "uuid list \<Rightarrow> time \<Rightarrow> string \<Rightarrow> (err, sub_db, cred_row list) eff" where
  "RevokeCredentialsOnClose ids atime reason =
     (if ids = [] then ret []
      else
        (let p = (\<lambda>c. cr_sub c \<in> set ids \<and> cr_active c) in
         bnd (gets creds) (\<lambda>cs.
         bnd (require (list_ex p cs \<longrightarrow> 1 \<le> rune_count reason \<and> rune_count reason \<le> 64) (sub_mapErr (PgError CodeCheck ''''))) (\<lambda>_.
         bnd (modify (\<lambda>s. s\<lparr>creds := update_rows p (\<lambda>c. c\<lparr>cr_active := False, cr_revoked := Some (atime, reason)\<rparr>) cs\<rparr>)) (\<lambda>_.
           ret (filter p cs))))))"

end
