(* ===== verification/Sub_Charge.thy ===== *)
theory Sub_Charge
  imports Sub_Store
begin

text \<open>
  \<open>charge_plan.go\<close> and \<open>charge.go\<close> of \<open>panel/internal/module/subscription/service\<close>, with the parts of \<open>service.go\<close>
  and \<open>realtime.go\<close> that every operation shares: the error translation \<open>subErr\<close> and the notices after a commit.

  An operation runs on \<open>sub_world\<close>: the tables, the hooks of the open transaction and the notices already sent.
  The clock is an argument. \<open>settings.Site\<close> is one too: the number of the site's calendar day at an instant, or
  the error of reading the settings.
\<close>

section \<open>The world of an operation\<close>

datatype hook_key = RosterKey uuid | ChangedKey uuid

datatype notice = SubscriptionsChanged "uuid list" | Changed string string uuid uuid

type_synonym 'a sub_eff = "(err, (sub_db, hook_key, notice) tx_world, 'a) eff"

definition on_subs :: "(err, sub_db, 'a) eff \<Rightarrow> 'a sub_eff" where
  "on_subs m = zoom tables (\<lambda>t w. w\<lparr>tables := t\<rparr>) m"

definition sub_Do :: "ctx \<Rightarrow> (ctx \<Rightarrow> 'a sub_eff) \<Rightarrow> 'a sub_eff" where
  "sub_Do c fn = Do_hooks (\<lambda>_. None) c fn"

definition subErr :: "err \<Rightarrow> err" where
  "subErr e =
     (case find_Error e of
        Some e' \<Rightarrow> e'
      | None \<Rightarrow>
          if errors_Is e sub_ErrDuplicate then Newf Conflict ''record exists''
          else if errors_Is e sub_ErrForeignKey then Invalid [(''reference'', ''missing or not of this user'')]
          else if errors_Is e sub_ErrCheck then Newf ValidationFailed ''subscription data refused''
          else if errors_Is e sub_ErrAppendOnly then Wrap Internal e
          else e)"

definition repo_call :: "(err, sub_db, 'a) eff \<Rightarrow> 'a sub_eff" where
  "repo_call m = on_subs (handle m (\<lambda>e. fail (subErr e)))"

text \<open>The key of a batch holds a fresh UUID, so it never meets another one: it is no key.\<close>

definition notifyRoster :: "ctx \<Rightarrow> uuid list \<Rightarrow> unit sub_eff" where
  "notifyRoster c ids =
     for_each ids (\<lambda>i. if i = uuid_Nil then ret () else AfterCommit c (Some (RosterKey i)) (SubscriptionsChanged [i]))"

definition notifyRosterBatch :: "ctx \<Rightarrow> uuid list \<Rightarrow> unit sub_eff" where
  "notifyRosterBatch c ids =
     (let ids = filter (\<lambda>i. i \<noteq> uuid_Nil) ids in
      if ids = [] then ret () else AfterCommit c None (SubscriptionsChanged ids))"

definition rtChanged :: "ctx \<Rightarrow> string \<Rightarrow> string \<Rightarrow> uuid \<Rightarrow> uuid \<Rightarrow> unit sub_eff" where
  "rtChanged c table op i owner = AfterCommit c (Some (ChangedKey i)) (Changed table op i owner)"

section \<open>The plan of a batch\<close>

definition satAdd :: "int \<Rightarrow> int \<Rightarrow> int" where
  "satAdd a b = (if a > wrap64 (max_int64 - b) then max_int64 else wrap64 (a + b))"

definition max64 :: "int \<Rightarrow> int \<Rightarrow> int" where
  "max64 a b = (if a > b then a else b)"

record charge_item =
  ci_sub :: uuid
  ci_bytes :: int

record charge_plan =
  cp_adds :: "quota_add list"
  cp_usage :: "usage_add list"
  cp_exhausted :: "uuid list"

definition room_step :: "traffic_quota_row \<Rightarrow> (uuid \<rightharpoonup> int option) \<Rightarrow> (uuid \<rightharpoonup> int option)" where
  "room_step row out =
     (let cur = (case out (tq_sub row) of None \<Rightarrow> None | Some c \<Rightarrow> c);
          out = (if out (tq_sub row) = None then out(tq_sub row \<mapsto> None) else out)
      in case tq_room row of
           None \<Rightarrow> out
         | Some room \<Rightarrow>
             (case cur of
                None \<Rightarrow> out(tq_sub row \<mapsto> Some room)
              | Some c \<Rightarrow> if room < c then out(tq_sub row \<mapsto> Some room) else out))"

definition quotaRooms :: "traffic_quota_row list \<Rightarrow> (uuid \<rightharpoonup> int option)" where
  "quotaRooms rows = fold room_step rows Map.empty"

definition room_of :: "(uuid \<rightharpoonup> int option) \<Rightarrow> uuid \<Rightarrow> int option" where
  "room_of rooms i = (case rooms i of None \<Rightarrow> None | Some r \<Rightarrow> r)"

definition amount_of :: "(uuid \<rightharpoonup> int) \<Rightarrow> uuid \<Rightarrow> int" where
  "amount_of m i = (case m i of None \<Rightarrow> 0 | Some n \<Rightarrow> n)"

text \<open>One pass of the loop over the items: rooms, charges per subscription, usage and exhausted ones so far.\<close>

type_synonym charge_acc = "(uuid \<rightharpoonup> int option) \<times> (uuid \<rightharpoonup> int) \<times> usage_add list \<times> uuid list"

definition charge_step :: "charge_item \<Rightarrow> charge_acc \<Rightarrow> charge_acc" where
  "charge_step item acc =
     (case acc of (rooms, by_sub, used, exhausted) \<Rightarrow>
        if ci_bytes item \<le> 0 then acc
        else
          (let i = ci_sub item;
               room = room_of rooms i;
               by_sub = by_sub(i \<mapsto> satAdd (amount_of by_sub i) (ci_bytes item));
               used = used @ [\<lparr>ua_sub = i, ua_bytes = ci_bytes item\<rparr>]
           in case room of
                None \<Rightarrow> (rooms, by_sub, used, exhausted)
              | Some r \<Rightarrow>
                  (let after = wrap64 (r - ci_bytes item)
                   in (rooms(i \<mapsto> Some after), by_sub, used,
                       if r > 0 \<and> after \<le> 0 then exhausted @ [i] else exhausted))))"

definition sortUsageBySubID :: "usage_add list \<Rightarrow> usage_add list" where
  "sortUsageBySubID us = sort_key ua_sub us"

definition planTrafficCharges :: "charge_item list \<Rightarrow> traffic_quota_row list \<Rightarrow> charge_plan" where
  "planTrafficCharges items rows =
     (case fold charge_step items (quotaRooms rows, Map.empty, [], []) of
        (_, by_sub, used, exhausted) \<Rightarrow>
          \<lparr>cp_adds = map (\<lambda>row. \<lparr>qa_id = tq_id row, qa_amount = amount_of by_sub (tq_sub row)\<rparr>)
                       (filter (\<lambda>row. amount_of by_sub (tq_sub row) > 0) rows),
           cp_usage = sortUsageBySubID used,
           cp_exhausted = exhausted\<rparr>)"

definition sortedUniqueIDs :: "uuid list \<Rightarrow> uuid list" where
  "sortedUniqueIDs ids = sort (remdups ids)"

section \<open>Charging\<close>

record traffic_charge =
  tc_uid :: int
  tc_bytes :: int

definition merge_charge :: "traffic_charge \<Rightarrow> (int \<rightharpoonup> int) \<Rightarrow> (int \<rightharpoonup> int)" where
  "merge_charge c merged =
     (if tc_uid c \<le> 0 then merged
      else merged(tc_uid c \<mapsto>
             satAdd (case merged (tc_uid c) of None \<Rightarrow> 0 | Some n \<Rightarrow> n) (max64 (tc_bytes c) 0)))"

definition charge_items :: "(int \<rightharpoonup> int) \<Rightarrow> (int \<rightharpoonup> uuid) \<Rightarrow> int list \<Rightarrow> charge_item list" where
  "charge_items merged found uids =
     List.map_filter (\<lambda>u. case (found u, merged u) of
         (Some i, Some n) \<Rightarrow> if n > 0 then Some \<lparr>ci_sub = i, ci_bytes = n\<rparr> else None
       | _ \<Rightarrow> None) uids"

definition ChargeTraffic ::
  "(err + (time \<Rightarrow> int)) \<Rightarrow> time \<Rightarrow> ctx \<Rightarrow> traffic_charge list \<Rightarrow> (int \<rightharpoonup> uuid) sub_eff" where
  "ChargeTraffic site now c charges =
     (let merged = fold merge_charge charges Map.empty;
          uids = sort (remdups (map tc_uid (filter (\<lambda>x. tc_uid x > 0) charges)))
      in if uids = [] then ret Map.empty
         else sub_Do c (\<lambda>c.
           bnd (repo_call (SubscriptionIDsByNodeUIDs uids)) (\<lambda>found.
           (let items = charge_items merged found uids in
            if items = [] then ret found
            else
              bnd (lift_sum site) (\<lambda>dayOf.
              bnd (repo_call (LockTrafficQuotas (sortedUniqueIDs (map ci_sub items)) now)) (\<lambda>rows.
              (let plan = planTrafficCharges items rows in
               bnd (repo_call (AddQuotaConsumed (cp_adds plan))) (\<lambda>_.
               bnd (repo_call (AddUsageDaily (dayOf now) (cp_usage plan))) (\<lambda>_.
               bnd (notifyRosterBatch c (cp_exhausted plan)) (\<lambda>_.
                 ret found))))))))))"

end
