(* ===== verification/Sub_Ops.thy ===== *)
theory Sub_Ops
  imports Sub_Charge
begin

text \<open>
  The operations that change a subscription: \<open>internal.go\<close>, \<open>renew.go\<close>, \<open>stack.go\<close>, \<open>extend.go\<close>, \<open>plan_change.go\<close>,
  \<open>reset.go\<close> and \<open>bonus.go\<close> of
  \<open>panel/internal/module/subscription/service\<close>.

  The interfaces that the service is given are arguments: the catalog, the audit writer and the users of
  \<open>ports\<close>. So are the clock, read once per operation unless the code uses it twice (\<open>GrantBonus\<close>), and the wall clock
  that \<open>IsPermanent\<close> reads. Texts of errors are glosses.
\<close>

section \<open>Interfaces\<close>

record catalog_quota =
  cq_metric :: string
  cq_limit :: "int option"
  cq_period :: string

record catalog_version =
  cv_id :: uuid
  cv_plan :: uuid
  cv_status :: string
  cv_quotas :: "catalog_quota list"

record catalog_plan =
  pl_id :: uuid
  pl_name :: string
  pl_kind :: string
  pl_current :: "uuid option"

abbreviation KindSubscription :: string where "KindSubscription \<equiv> ''subscription''"
abbreviation KindOneTime :: string where "KindOneTime \<equiv> ''one_time''"
abbreviation VersionPublished :: string where "VersionPublished \<equiv> ''published''"

record ports =
  PlansByIDs :: "uuid list \<Rightarrow> err + (uuid \<rightharpoonup> catalog_plan)"
  VersionsByIDs :: "uuid list \<Rightarrow> err + (uuid \<rightharpoonup> catalog_version)"
  IsDeleted :: "uuid \<Rightarrow> err + bool"
  Emails :: "uuid list \<Rightarrow> err + (uuid \<rightharpoonup> string)"
  audit_refuses :: "audit_row \<Rightarrow> err option"
  emitter :: "(plugin_event \<Rightarrow> err option) option"

section \<open>Errors and actors\<close>

definition ErrNotFound :: err where "ErrNotFound = New NotFound"
definition ErrRenewalWindowClosed :: err where "ErrRenewalWindowClosed = Newf Conflict ''expired for more than 30 days, cannot be renewed''"
definition ErrExtendWindowClosed :: err where "ErrExtendWindowClosed = Newf Conflict ''expired for more than 30 days, cannot be extended''"
definition ErrNotLive :: err where "ErrNotLive = Newf ValidationFailed ''not live''"
definition ErrNoTrafficQuota :: err where "ErrNoTrafficQuota = Newf ValidationFailed ''unlimited, nothing to reset''"
definition ErrNotActive :: err where "ErrNotActive = Newf Conflict ''expired, no traffic can be added''"
definition ErrUnlimited :: err where "ErrUnlimited = Newf Conflict ''unlimited, no traffic to add''"
definition ErrBonusPeriodSwitching :: err where "ErrBonusPeriodSwitching = Newf Conflict ''the period has just ended''"
definition ErrRenewOneTime :: err where "ErrRenewOneTime = Newf Conflict ''a one-time plan cannot be renewed''"
definition ErrStackNotOneTime :: err where "ErrStackNotOneTime = Newf Conflict ''only the same one-time plan can be stacked''"
definition ErrVersionUnavailable :: err where "ErrVersionUnavailable = Newf Conflict ''no published version''"
definition ErrStateChanged :: err where "ErrStateChanged = Newf Conflict ''the state has just changed''"
definition sub_errAccountDeleted :: err where "sub_errAccountDeleted = Newf Conflict ''account deleted''"

definition errMissing :: "string \<Rightarrow> err" where
  "errMissing what = Plain (''subscription: missing '' @ what)"

abbreviation ActorUser :: string where "ActorUser \<equiv> ''user''"
abbreviation ActorAdmin :: string where "ActorAdmin \<equiv> ''admin''"
abbreviation ActorSystem :: string where "ActorSystem \<equiv> ''system''"
abbreviation ActorPayment :: string where "ActorPayment \<equiv> ''payment''"
abbreviation ActorScheduler :: string where "ActorScheduler \<equiv> ''scheduler''"

record actor =
  a_kind :: string
  a_id :: "uuid option"

definition validatePrice :: "decimal_pkg \<Rightarrow> price_snapshot \<Rightarrow> err + unit" where
  "validatePrice D p =
     (if (case ps_validity p of None \<Rightarrow> False | Some d \<Rightarrow> ps_interval p \<noteq> ''one_time'' \<or> d < 1 \<or> d > 36500)
      then Inl (Wrap Internal (Plain ''subscription: validity''))
      else if CheckNonNegative D (ps_amount p) \<noteq> Inr () then Inl (Wrap Internal (Plain ''subscription: amount''))
      else if \<not> ValidInterval (ps_interval p) \<or> ps_count p < 1 \<or> ps_count p > 32767
      then Inl (Wrap Internal (Plain ''subscription: interval''))
      else Inr ())"

definition validateActor :: "actor \<Rightarrow> err + unit" where
  "validateActor a =
     (if a_kind a = ActorUser \<or> a_kind a = ActorAdmin
      then (if a_id a = None \<or> a_id a = Some uuid_Nil then Inl (Wrap Internal (Plain ''subscription: actor without id'')) else Inr ())
      else if a_kind a = ActorSystem \<or> a_kind a = ActorPayment \<or> a_kind a = ActorScheduler
      then (if a_id a \<noteq> None then Inl (Wrap Internal (Plain ''subscription: actor with id'')) else Inr ())
      else Inl (Wrap Internal (Plain ''subscription: unknown actor'')))"

definition cleanText :: "string \<Rightarrow> nat \<Rightarrow> nat \<Rightarrow> string \<Rightarrow> string \<Rightarrow> err + string" where
  "cleanText s minRunes maxRunes field msg =
     (let s = trim_space s; n = rune_count s
      in if \<not> valid_utf8 s \<or> has_nul s \<or> n < minRunes \<or> n > maxRunes then Inl (Invalid [(field, msg)]) else Inr s)"

definition sub_principal :: "ctx \<Rightarrow> err + principal" where
  "sub_principal c =
     (case ctx_principal c of
        None \<Rightarrow> Inl (New Unauthorized)
      | Some p \<Rightarrow> if UserID p = uuid_Nil then Inl (New Unauthorized) else Inr p)"

definition adminPrincipal :: "ctx \<Rightarrow> err + principal" where
  "adminPrincipal c =
     sum_bind (sub_principal c) (\<lambda>p. if Audience p \<noteq> AudienceAdmin then Inl (New Forbidden) else Inr p)"

definition actorFrom :: "principal \<Rightarrow> actor" where
  "actorFrom p =
     (if Audience p = AudienceAdmin then \<lparr>a_kind = ActorAdmin, a_id = Some (UserID p)\<rparr>
      else \<lparr>a_kind = ActorUser, a_id = Some (UserID p)\<rparr>)"

section \<open>Shared steps\<close>

definition loadSub :: "uuid \<Rightarrow> uuid option \<Rightarrow> sub_row sub_eff" where
  "loadSub i owner =
     (if i = uuid_Nil then fail ErrNotFound
      else
        bnd (repo_call (SubscriptionByID i)) (\<lambda>found.
        case found of
          None \<Rightarrow> fail ErrNotFound
        | Some m \<Rightarrow> if owner \<noteq> None \<and> owner \<noteq> Some (sr_user m) then fail ErrNotFound else ret m))"

definition lockOwned :: "uuid \<Rightarrow> uuid option \<Rightarrow> sub_row sub_eff" where
  "lockOwned i owner = loadSub i owner"

definition rejectDeletedOwner :: "ports \<Rightarrow> uuid \<Rightarrow> unit sub_eff" where
  "rejectDeletedOwner P i =
     bnd (loadSub i None) (\<lambda>m.
     bnd (lift_sum (IsDeleted P (sr_user m))) (\<lambda>deleted.
       if deleted then fail sub_errAccountDeleted else ret ()))"

definition lockForAdmin :: "ports \<Rightarrow> uuid \<Rightarrow> sub_row sub_eff" where
  "lockForAdmin P i = bnd (rejectDeletedOwner P i) (\<lambda>_. lockOwned i None)"

definition versionFor :: "ports \<Rightarrow> uuid \<Rightarrow> uuid \<Rightarrow> err + catalog_version" where
  "versionFor P plan version =
     sum_bind (VersionsByIDs P [version]) (\<lambda>vs.
     case vs version of
       None \<Rightarrow> Inl ErrVersionUnavailable
     | Some v \<Rightarrow> if cv_plan v \<noteq> plan \<or> cv_status v \<noteq> VersionPublished then Inl ErrVersionUnavailable else Inr v)"

definition planOf :: "ports \<Rightarrow> uuid \<Rightarrow> err + catalog_plan" where
  "planOf P plan =
     sum_bind (PlansByIDs P [plan]) (\<lambda>ps. case ps plan of None \<Rightarrow> Inl ErrVersionUnavailable | Some p \<Rightarrow> Inr p)"

definition trafficPeriod :: "string \<Rightarrow> string" where
  "trafficPeriod kind = (if kind = KindOneTime then PeriodTotal else PeriodCycle)"

definition withKind :: "catalog_version \<Rightarrow> string \<Rightarrow> catalog_version" where
  "withKind v kind =
     v\<lparr>cv_quotas := map (\<lambda>q. if cq_metric q = MetricTraffic \<and> (cq_period q = PeriodCycle \<or> cq_period q = PeriodTotal)
                              then q\<lparr>cq_period := trafficPeriod kind\<rparr> else q) (cv_quotas v)\<rparr>"

definition quotaDef :: "catalog_version \<Rightarrow> string \<Rightarrow> string \<Rightarrow> catalog_quota option" where
  "quotaDef v metric period = find (\<lambda>q. cq_metric q = metric \<and> cq_period q = period) (cv_quotas v)"

text \<open>\<open>time.Time\<close> is encoded only when its year is one of 0 to 9999.\<close>

fun json_ok :: "payload_value \<Rightarrow> bool" where
  "json_ok (PTime t) = (0 \<le> year_of (day_of t) \<and> year_of (day_of t) \<le> 9999)"
| "json_ok _ = True"

definition writeEvent ::
  "uuid \<Rightarrow> string \<Rightarrow> string option \<Rightarrow> string \<Rightarrow> actor \<Rightarrow> uuid option \<Rightarrow> (string \<times> payload_value) list \<Rightarrow> unit sub_eff" where
  "writeEvent i eventType from to a order payload =
     bnd (require (list_all (json_ok \<circ> snd) payload) (Plain ''json: year outside of range'')) (\<lambda>_.
     repo_call (InsertEvent
       \<lparr>ev_sub = i, ev_type = eventType, ev_from = from, ev_to = to, ev_actor_kind = a_kind a, ev_actor = a_id a,
        ev_order = order, ev_payload = payload\<rparr>))"

definition audit_Write :: "ports \<Rightarrow> audit_row \<Rightarrow> unit sub_eff" where
  "audit_Write P row =
     (case audit_refuses P row of
        Some e \<Rightarrow> fail e
      | None \<Rightarrow> on_subs (modify (\<lambda>s. s\<lparr>audits := audits s @ [row]\<rparr>)))"

definition writeAudit :: "ports \<Rightarrow> string \<Rightarrow> uuid \<Rightarrow> (string \<times> payload_value) list \<Rightarrow> unit sub_eff" where
  "writeAudit P action i data =
     audit_Write P \<lparr>au_action = action, au_type = ''subscription'', au_resource = i, au_data = data\<rparr>"

abbreviation tableSubscriptions :: string where "tableSubscriptions \<equiv> ''subscriptions''"
abbreviation tableCredentials :: string where "tableCredentials \<equiv> ''subscription_credentials''"

definition transition :: "decimal_pkg \<Rightarrow> ctx \<Rightarrow> sub_row \<Rightarrow> string \<Rightarrow> sub_cols \<Rightarrow> unit sub_eff" where
  "transition D c sub to cols =
     (if \<not> CanTransition (sr_status sub) to then fail (Wrap Internal (Plain ''subscription: transition not allowed''))
      else
        bnd (repo_call (UpdateSubscription D (sr_id sub) (sr_status sub) cols to)) (\<lambda>ok.
        if \<not> ok then fail ErrStateChanged
        else rtChanged c tableSubscriptions ''update'' (sr_id sub) (sr_user sub)))"

definition logResets :: "sub_row \<Rightarrow> quota_row list \<Rightarrow> string \<Rightarrow> uuid option \<Rightarrow> string \<Rightarrow> unit sub_eff" where
  "logResets sub before reason a note =
     (if before = [] then ret ()
      else repo_call (InsertResetLogs (map (\<lambda>q.
        \<lparr>rl_sub = sr_id sub, rl_user = sr_user sub, rl_metric = qr_metric q, rl_reason = reason, rl_before = qr_consumed q,
         rl_after = 0, rl_actor = a, rl_note = (if note = '''' then None else Some note)\<rparr>) before)))"

definition snapshotCols :: "price_snapshot \<Rightarrow> uuid option \<Rightarrow> sub_cols" where
  "snapshotCols p old =
     no_cols\<lparr>set_price := Some (if ps_price p = None then old else ps_price p, ps_amount p, ps_interval p, ps_count p)\<rparr>"

definition quotaRows :: "uuid \<Rightarrow> catalog_quota list \<Rightarrow> time \<Rightarrow> time \<Rightarrow> quota_row list" where
  "quotaRows i defs start cycleEnd =
     map (\<lambda>q. \<lparr>qr_id = uuid_Nil, qr_sub = i, qr_metric = cq_metric q, qr_period = cq_period q, qr_start = start,
               qr_end = QuotaPeriodEnd (cq_period q) start cycleEnd, qr_limit = cq_limit q, qr_bonus = 0, qr_consumed = 0\<rparr>) defs"

definition realigned :: "int option \<Rightarrow> time \<Rightarrow> time option \<Rightarrow> quota_row \<Rightarrow> quota_row" where
  "realigned limit start q_end q =
     q\<lparr>qr_limit := limit, qr_consumed := 0, qr_bonus := 0, qr_start := start, qr_end := q_end\<rparr>"

abbreviation row_key :: "quota_row \<Rightarrow> string \<times> string" where
  "row_key q \<equiv> (qr_metric q, qr_period q)"

abbreviation defined_in :: "catalog_version \<Rightarrow> quota_row \<Rightarrow> bool" where
  "defined_in v q \<equiv> quotaDef v (qr_metric q) (qr_period q) \<noteq> None"

definition rebuildQuotas ::
  "(nat \<Rightarrow> uuid) \<Rightarrow> sub_row \<Rightarrow> catalog_version \<Rightarrow> time \<Rightarrow> time \<Rightarrow> quota_row list sub_eff" where
  "rebuildQuotas gen m v start cycleEnd =
     bnd (repo_call (QuotasBySubscriptions [sr_id m])) (\<lambda>rows.
     bnd (for_each rows (\<lambda>q. case quotaDef v (qr_metric q) (qr_period q) of
            None \<Rightarrow> ret ()
          | Some d \<Rightarrow> repo_call (UpdateQuota (qr_id q)
              (realigned (cq_limit d) start (QuotaPeriodEnd (qr_period q) start cycleEnd))))) (\<lambda>_.
     bnd (repo_call (DeleteQuotas (map qr_id (filter (\<lambda>q. \<not> defined_in v q) rows)))) (\<lambda>_.
     bnd (repo_call (InsertQuotas gen (filter (\<lambda>row. row_key row \<notin> row_key ` set (filter (defined_in v) rows))
            (quotaRows (sr_id m) (cv_quotas v) start cycleEnd)))) (\<lambda>_.
       ret rows))))"

section \<open>Renewal\<close>

record renewal =
  rn_sub :: uuid
  rn_user :: uuid
  rn_price :: price_snapshot
  rn_paid :: time
  rn_created :: "time option"
  rn_order :: "uuid option"
  rn_actor :: actor
  rn_source :: string

record renewal_result =
  rr_sub :: uuid
  rr_from :: string
  rr_restarted :: bool
  rr_previous :: time
  rr_end :: time

abbreviation state_of :: "sub_row \<Rightarrow> time \<Rightarrow> state" where
  "state_of m now \<equiv> StateAt (sr_status m) (sr_end m) (sr_closed m) now"

definition restartQuotas ::
  "ports \<Rightarrow> (nat \<Rightarrow> uuid) \<Rightarrow> sub_row \<Rightarrow> uuid \<Rightarrow> time \<Rightarrow> time \<Rightarrow> string \<Rightarrow> unit sub_eff" where
  "restartQuotas P gen m version start cycleEnd kind =
     bnd (lift_sum (versionFor P (sr_plan m) version)) (\<lambda>v.
     bnd (rebuildQuotas gen m (withKind v kind) start cycleEnd) (\<lambda>before.
       logResets m before ''renewal'' None ''''))"

definition renew_body ::
  "decimal_pkg \<Rightarrow> ports \<Rightarrow> (nat \<Rightarrow> uuid) \<Rightarrow> time \<Rightarrow> renewal \<Rightarrow> ctx \<Rightarrow> renewal_result sub_eff" where
  "renew_body D P gen now i c =
     bnd (lockOwned (rn_sub i) (Some (rn_user i))) (\<lambda>m.
     bnd (require (state_of m now \<noteq> StateEnded) ErrRenewalWindowClosed) (\<lambda>_.
     bnd (lift_sum (planOf P (sr_plan m))) (\<lambda>plan.
     bnd (require (pl_kind plan \<noteq> KindOneTime) ErrRenewOneTime) (\<lambda>_.
     (let paidAt = truncate_us (rn_paid i) in
      case RenewalBase (sr_end m) paidAt (rn_created i) of (base, restart) \<Rightarrow>
      (let t_end = PeriodEndFor base (rn_price i);
           from = (if restart then StatusExpired else sr_status m);
           version = (if restart then (case pl_current plan of Some v \<Rightarrow> v | None \<Rightarrow> sr_version m) else sr_version m);
           cols = (snapshotCols (rn_price i) (sr_price m))\<lparr>set_end := Some t_end,
                    set_start := (if restart then Some paidAt else None),
                    set_version := (if restart then pl_current plan else None)\<rparr>
       in
       bnd (transition D c m StatusActive cols) (\<lambda>_.
       bnd (if restart then restartQuotas P gen m version paidAt t_end (pl_kind plan) else ret ()) (\<lambda>_.
       bnd (writeEvent (sr_id m) ''renewed'' (Some from) StatusActive (rn_actor i) (rn_order i)
              [(''source'', PStr (rn_source i)), (''restart'', PBool restart),
               (''previous_end'', PTime (sr_end m)), (''period_end'', PTime t_end)]) (\<lambda>_.
       bnd (notifyRoster c [sr_id m]) (\<lambda>_.
         ret \<lparr>rr_sub = sr_id m, rr_from = from, rr_restarted = restart, rr_previous = sr_end m, rr_end = t_end\<rparr>))))))))))"

definition Renew ::
  "decimal_pkg \<Rightarrow> ports \<Rightarrow> (nat \<Rightarrow> uuid) \<Rightarrow> time \<Rightarrow> ctx \<Rightarrow> renewal \<Rightarrow> renewal_result sub_eff" where
  "Renew D P gen now c i =
     bnd (lift_sum (validatePrice D (rn_price i))) (\<lambda>_.
     bnd (lift_sum (validateActor (rn_actor i))) (\<lambda>_.
     bnd (require (rn_paid i \<noteq> zero_time) (Wrap Internal (errMissing ''PaidAt''))) (\<lambda>_.
       sub_Do c (renew_body D P gen now i))))"

section \<open>Stacking\<close>

record stacking =
  sk_sub :: uuid
  sk_user :: uuid
  sk_version :: uuid
  sk_price :: price_snapshot
  sk_paid :: time
  sk_order :: "uuid option"
  sk_gift :: "uuid option"
  sk_actor :: actor
  sk_source :: string

definition saturatedAdd :: "int \<Rightarrow> int \<Rightarrow> int" where
  "saturatedAdd a b = (if b > 0 \<and> a > max_int64 - b then max_int64 else wrap64 (a + b))"

definition stack_quota :: "(nat \<Rightarrow> uuid) \<Rightarrow> sub_row \<Rightarrow> catalog_version \<Rightarrow> time \<Rightarrow> unit sub_eff" where
  "stack_quota gen m v now =
     (let def = quotaDef v MetricTraffic PeriodTotal in
      bnd (repo_call (QuotasBySubscriptions [sr_id m])) (\<lambda>rows.
      case find (\<lambda>q. qr_metric q = MetricTraffic \<and> qr_period q = PeriodTotal) rows of
        Some q \<Rightarrow>
          (case qr_limit q of
             None \<Rightarrow> ret ()
           | Some l \<Rightarrow>
               (case Option.bind def cq_limit of
                  Some d \<Rightarrow> repo_call (UpdateQuota (qr_id q) (\<lambda>r. r\<lparr>qr_limit := Some (saturatedAdd l d)\<rparr>))
                | None \<Rightarrow> repo_call (UpdateQuota (qr_id q) (\<lambda>r. r\<lparr>qr_limit := None\<rparr>))))
      | None \<Rightarrow>
          (case def of
             None \<Rightarrow> ret ()
           | Some d \<Rightarrow> repo_call (InsertQuotas gen
               [\<lparr>qr_id = uuid_Nil, qr_sub = sr_id m, qr_metric = MetricTraffic, qr_period = PeriodTotal, qr_start = now,
                 qr_end = None, qr_limit = cq_limit d, qr_bonus = 0, qr_consumed = 0\<rparr>]))))"

definition stack_body ::
  "decimal_pkg \<Rightarrow> ports \<Rightarrow> (nat \<Rightarrow> uuid) \<Rightarrow> time \<Rightarrow> time \<Rightarrow> stacking \<Rightarrow> ctx \<Rightarrow> renewal_result sub_eff" where
  "stack_body D P gen wall now i c =
     bnd (lockOwned (sk_sub i) (Some (sk_user i))) (\<lambda>m.
     bnd (require (state_of m now \<noteq> StateEnded) ErrRenewalWindowClosed) (\<lambda>_.
     bnd (lift_sum (planOf P (sr_plan m))) (\<lambda>plan.
     bnd (require (pl_kind plan = KindOneTime) ErrStackNotOneTime) (\<lambda>_.
     bnd (lift_sum (versionFor P (sr_plan m) (sk_version i))) (\<lambda>v.
     (let t_end = StackEnd wall (sr_end m) now (sk_price i);
          cols = (snapshotCols (sk_price i) (sr_price m))\<lparr>set_end := Some t_end, set_version := Some (sk_version i)\<rparr>
      in
      bnd (transition D c m StatusActive cols) (\<lambda>_.
      bnd (stack_quota gen m (withKind v (pl_kind plan)) now) (\<lambda>_.
      bnd (writeEvent (sr_id m) ''renewed'' (Some (sr_status m)) StatusActive (sk_actor i) (sk_order i)
             ([(''mode'', PStr ''stack''), (''source'', PStr (sk_source i)), (''restart'', PBool False),
               (''previous_end'', PTime (sr_end m)), (''period_end'', PTime t_end),
               (''plan_version_id'', PUuid (sk_version i))] @
              (case sk_gift i of None \<Rightarrow> [] | Some g \<Rightarrow> [(''gift_card_code_id'', PUuid g)]))) (\<lambda>_.
      bnd (notifyRoster c [sr_id m]) (\<lambda>_.
        ret \<lparr>rr_sub = sr_id m, rr_from = sr_status m, rr_restarted = False, rr_previous = sr_end m, rr_end = t_end\<rparr>))))))))))"

definition Stack ::
  "decimal_pkg \<Rightarrow> ports \<Rightarrow> (nat \<Rightarrow> uuid) \<Rightarrow> time \<Rightarrow> time \<Rightarrow> ctx \<Rightarrow> stacking \<Rightarrow> renewal_result sub_eff" where
  "Stack D P gen wall now c i =
     bnd (lift_sum (validatePrice D (sk_price i))) (\<lambda>_.
     bnd (lift_sum (validateActor (sk_actor i))) (\<lambda>_.
     bnd (require (sk_paid i \<noteq> zero_time) (Wrap Internal (errMissing ''PaidAt''))) (\<lambda>_.
     bnd (require ((sk_order i = None) \<noteq> (sk_gift i = None)) (Wrap Internal (errMissing ''OrderID or GiftCodeID''))) (\<lambda>_.
     bnd (require (ps_interval (sk_price i) = ''one_time'') ErrStackNotOneTime) (\<lambda>_.
       sub_Do c (stack_body D P gen wall now i))))))"

section \<open>Extension\<close>

abbreviation maxExtendDays :: int where "maxExtendDays \<equiv> 3650"

abbreviation rescueResetNote :: string where
  "rescueResetNote \<equiv> ''rescued: daily and monthly quotas restart today''"

record extension =
  ex_sub :: uuid
  ex_user :: "uuid option"
  ex_days :: int
  ex_actor :: actor
  ex_source :: string
  ex_reason :: string

record extension_result =
  er_sub :: uuid
  er_user :: uuid
  er_from :: string
  er_rescued :: bool
  er_restarted :: bool
  er_previous :: time
  er_period_end :: time
  er_prorated :: "(string \<times> int) list"

definition add_count :: "string \<Rightarrow> int \<Rightarrow> (string \<times> int) list \<Rightarrow> (string \<times> int) list" where
  "add_count k n m =
     (case map_of m k of
        None \<Rightarrow> m @ [(k, n)]
      | Some _ \<Rightarrow> map (\<lambda>(k', x). if k' = k then (k', wrap64 (x + n)) else (k', x)) m)"

text \<open>What a rescue adds to the limit of a cycle quota, 0 for nothing.\<close>

definition prorated_add :: "bool \<Rightarrow> int \<Rightarrow> duration \<Rightarrow> quota_row \<Rightarrow> int" where
  "prorated_add rescued days cycle q =
     (case qr_limit q of
        None \<Rightarrow> 0
      | Some l \<Rightarrow>
          (let add = ProratedQuota l days cycle
           in if rescued \<and> add > 0 \<and> add \<le> max_int64 - l then add else 0))"

fun extend_quotas ::
  "time \<Rightarrow> time \<Rightarrow> time \<Rightarrow> bool \<Rightarrow> bool \<Rightarrow> int \<Rightarrow> duration \<Rightarrow> quota_row list \<Rightarrow> (string \<times> int) list \<Rightarrow> quota_row list \<Rightarrow>
   ((string \<times> int) list \<times> quota_row list) sub_eff" where
  "extend_quotas prev now t_end rescued lapsed days cycle [] prorated reset = ret (prorated, reset)"
| "extend_quotas prev now t_end rescued lapsed days cycle (q # qs) prorated reset =
     (if qr_period q = PeriodCycle \<and> qr_end q = Some prev
      then
        (let add = prorated_add rescued days cycle q in
         bnd (repo_call (UpdateQuota (qr_id q) (\<lambda>r. r\<lparr>qr_end := Some t_end,
                qr_limit := (if add > 0 then map_option (\<lambda>l. l + add) (qr_limit q) else qr_limit r)\<rparr>))) (\<lambda>_.
         extend_quotas prev now t_end rescued lapsed days cycle qs
           (if add > 0 then add_count (qr_metric q) add prorated else prorated) reset))
      else if lapsed \<and> (qr_period q = PeriodDay \<or> qr_period q = PeriodMonth)
      then
        bnd (repo_call (UpdateQuota (qr_id q) (\<lambda>r. r\<lparr>qr_consumed := 0, qr_start := now,
               qr_end := QuotaPeriodEnd (qr_period q) now t_end\<rparr>))) (\<lambda>_.
        extend_quotas prev now t_end rescued lapsed days cycle qs prorated (reset @ [q]))
      else extend_quotas prev now t_end rescued lapsed days cycle qs prorated reset)"

definition extend_body ::
  "decimal_pkg \<Rightarrow> time \<Rightarrow> extension \<Rightarrow> string \<Rightarrow> uuid option \<Rightarrow> ctx \<Rightarrow> extension_result sub_eff" where
  "extend_body D now i resetReason resetActor c =
     bnd (lockOwned (ex_sub i) (ex_user i)) (\<lambda>m.
     bnd (require (state_of m now \<noteq> StateEnded) ErrExtendWindowClosed) (\<lambda>_.
     (let prev = sr_end m in
      case ExtendBase prev now of (base, lapsed) \<Rightarrow>
      (let rescued = (lapsed \<or> sr_status m = StatusExpired);
           t_end = truncate_us (AddDate 0 0 (ex_days i) base);
           cycle = CycleLength now (sr_interval m) (sr_count m)
       in
       bnd (transition D c m StatusActive (no_cols\<lparr>set_end := Some t_end, set_start := (if lapsed then Some now else None)\<rparr>)) (\<lambda>_.
       bnd (repo_call (QuotasBySubscriptions [sr_id m])) (\<lambda>rows.
       bnd (extend_quotas prev now t_end rescued lapsed (ex_days i) cycle rows [] []) (\<lambda>(prorated, reset).
       bnd (logResets m reset resetReason resetActor rescueResetNote) (\<lambda>_.
       bnd (writeEvent (sr_id m) ''extended'' (Some (sr_status m)) StatusActive (ex_actor i) None
              ([(''source'', PStr (ex_source i)), (''days'', PInt (ex_days i)), (''previous_end'', PTime prev),
                (''period_end'', PTime t_end), (''rescued'', PBool rescued), (''restart'', PBool lapsed)] @
               (if prorated = [] then [] else [(''prorated'', PCounts prorated)]) @
               (if ex_reason i = '''' then [] else [(''reason'', PStr (ex_reason i))]))) (\<lambda>_.
       bnd (notifyRoster c [sr_id m]) (\<lambda>_.
         ret \<lparr>er_sub = sr_id m, er_user = sr_user m, er_from = sr_status m, er_rescued = rescued, er_restarted = lapsed,
              er_previous = prev, er_period_end = t_end, er_prorated = prorated\<rparr>))))))))))"

definition Extend :: "decimal_pkg \<Rightarrow> time \<Rightarrow> ctx \<Rightarrow> extension \<Rightarrow> extension_result sub_eff" where
  "Extend D now c i =
     bnd (require (1 \<le> ex_days i \<and> ex_days i \<le> maxExtendDays) (Invalid [(''days'', ''1 to 3650'')])) (\<lambda>_.
     bnd (lift_sum (validateActor (ex_actor i))) (\<lambda>_.
       if ex_source i = ''gift_card'' then sub_Do c (extend_body D now i ''gift_card'' None)
       else if ex_source i = ''admin'' then
         (if a_kind (ex_actor i) \<noteq> ActorAdmin then fail (Wrap Internal (errMissing ''admin Actor''))
          else sub_Do c (extend_body D now i ''manual'' (a_id (ex_actor i))))
       else fail (Wrap Internal (errMissing ''Source''))))"

section \<open>Change of plan\<close>

record plan_change =
  pc_sub :: uuid
  pc_user :: uuid
  pc_plan :: uuid
  pc_version :: uuid
  pc_price :: price_snapshot
  pc_order :: "uuid option"
  pc_gift :: "uuid option"
  pc_actor :: actor

record plan_change_result =
  pr_sub :: uuid
  pr_from_plan :: uuid
  pr_from_version :: uuid
  pr_from :: string
  pr_previous :: time
  pr_end :: time

definition change_body ::
  "decimal_pkg \<Rightarrow> (nat \<Rightarrow> uuid) \<Rightarrow> time \<Rightarrow> plan_change \<Rightarrow> catalog_version \<Rightarrow> ctx \<Rightarrow> plan_change_result sub_eff" where
  "change_body D gen now i v c =
     bnd (lockOwned (pc_sub i) (Some (pc_user i))) (\<lambda>m.
     bnd (require (state_of m now \<noteq> StateEnded) ErrRenewalWindowClosed) (\<lambda>_.
     (let t_end = PeriodEndFor now (pc_price i);
          cols = (snapshotCols (pc_price i) None)\<lparr>set_plan := Some (pc_plan i), set_version := Some (pc_version i),
                   set_start := Some now, set_end := Some t_end\<rparr>
      in
      bnd (transition D c m StatusActive cols) (\<lambda>_.
      bnd (rebuildQuotas gen m v now t_end) (\<lambda>before.
      bnd (logResets m before ''plan_change'' None '''') (\<lambda>_.
      bnd (writeEvent (sr_id m) ''plan_changed'' (Some (sr_status m)) StatusActive (pc_actor i) (pc_order i)
             ([(''from_plan_id'', PUuid (sr_plan m)), (''from_plan_version_id'', PUuid (sr_version m)),
               (''to_plan_id'', PUuid (pc_plan i)), (''to_plan_version_id'', PUuid (pc_version i)),
               (''previous_end'', PTime (sr_end m)), (''period_end'', PTime t_end)] @
              (case pc_gift i of
                 None \<Rightarrow> [(''source'', PStr ''order'')]
               | Some g \<Rightarrow> [(''source'', PStr ''gift_card''), (''gift_card_code_id'', PUuid g)]))) (\<lambda>_.
      bnd (notifyRoster c [sr_id m]) (\<lambda>_.
        ret \<lparr>pr_sub = sr_id m, pr_from_plan = sr_plan m, pr_from_version = sr_version m, pr_from = sr_status m,
             pr_previous = sr_end m, pr_end = t_end\<rparr>))))))))"

definition ChangePlan ::
  "decimal_pkg \<Rightarrow> ports \<Rightarrow> (nat \<Rightarrow> uuid) \<Rightarrow> time \<Rightarrow> ctx \<Rightarrow> plan_change \<Rightarrow> plan_change_result sub_eff" where
  "ChangePlan D P gen now c i =
     bnd (lift_sum (validatePrice D (pc_price i))) (\<lambda>_.
     bnd (lift_sum (validateActor (pc_actor i))) (\<lambda>_.
     bnd (require ((pc_order i = None) \<noteq> (pc_gift i = None)) (Wrap Internal (errMissing ''OrderID or GiftCodeID''))) (\<lambda>_.
     bnd (lift_sum (versionFor P (pc_plan i) (pc_version i))) (\<lambda>v.
     bnd (lift_sum (planOf P (pc_plan i))) (\<lambda>plan.
       sub_Do c (change_body D gen now i (withKind v (pl_kind plan))))))))"

section \<open>Resetting traffic and granting a bonus\<close>

abbreviation maxNoteRunes :: nat where "maxNoteRunes \<equiv> 500"

record traffic_reset =
  tr_sub :: uuid
  tr_user :: "uuid option"
  tr_reason :: string
  tr_actor :: "uuid option"
  tr_note :: string
  tr_at :: time

definition optional_note :: "string \<Rightarrow> err + string" where
  "optional_note note = (if note = '''' then Inr '''' else cleanText note 1 maxNoteRunes ''note'' ''at most 500 characters'')"

definition named :: "uuid option \<Rightarrow> bool" where
  "named u \<longleftrightarrow> u \<noteq> None \<and> u \<noteq> Some uuid_Nil"

definition reset_body :: "time \<Rightarrow> traffic_reset \<Rightarrow> string \<Rightarrow> ctx \<Rightarrow> int sub_eff" where
  "reset_body now i note c =
     bnd (lockOwned (tr_sub i) (tr_user i)) (\<lambda>m.
     bnd (require (state_of m (if tr_at i = zero_time then now else tr_at i) = StateLive) ErrNotLive) (\<lambda>_.
     bnd (repo_call (QuotasBySubscriptions [sr_id m])) (\<lambda>rows.
     (let traffic = filter (\<lambda>q. qr_metric q = MetricTraffic) rows in
      bnd (for_each traffic (\<lambda>q. repo_call (UpdateQuota (qr_id q) (\<lambda>r. r\<lparr>qr_consumed := 0\<rparr>)))) (\<lambda>_.
      bnd (require (traffic \<noteq> []) ErrNoTrafficQuota) (\<lambda>_.
      bnd (logResets m traffic (tr_reason i) (tr_actor i) note) (\<lambda>_.
      bnd (notifyRoster c [sr_id m]) (\<lambda>_.
        ret (fold (\<lambda>q freed. wrap64 (freed + qr_consumed q)) traffic 0)))))))))"

definition ResetTraffic :: "time \<Rightarrow> ctx \<Rightarrow> traffic_reset \<Rightarrow> int sub_eff" where
  "ResetTraffic now c i =
     bnd (if tr_reason i = ''manual'' then require (named (tr_actor i)) (Wrap Internal (errMissing ''ActorID''))
          else if tr_reason i = ''gift_card'' then ret ()
          else if tr_reason i = ''order'' then require (named (tr_user i)) (Wrap Internal (errMissing ''UserID''))
          else fail (Wrap Internal (errMissing ''Reason''))) (\<lambda>_.
     bnd (lift_sum (optional_note (tr_note i))) (\<lambda>note.
       sub_Do c (reset_body now i note)))"

record bonus_grant =
  bg_sub :: uuid
  bg_user :: "uuid option"
  bg_bytes :: int
  bg_source :: string
  bg_actor :: "uuid option"
  bg_note :: string

text \<open>The limited traffic row of the plan's period, the latest of several.\<close>

definition bonus_target :: "string \<Rightarrow> quota_row list \<Rightarrow> quota_row option" where
  "bonus_target period rows =
     fold (\<lambda>q target.
       if qr_metric q \<noteq> MetricTraffic \<or> qr_period q \<noteq> period \<or> qr_limit q = None then target
       else (case target of
               None \<Rightarrow> Some q
             | Some t \<Rightarrow> if qr_start q > qr_start t then Some q else Some t)) rows None"

definition bonus_body :: "ports \<Rightarrow> time \<Rightarrow> time \<Rightarrow> bonus_grant \<Rightarrow> ctx \<Rightarrow> int sub_eff" where
  "bonus_body P now now2 i c =
     bnd (lockOwned (bg_sub i) (bg_user i)) (\<lambda>m.
     bnd (require (state_of m now = StateLive) ErrNotActive) (\<lambda>_.
     bnd (lift_sum (planOf P (sr_plan m))) (\<lambda>plan.
     (let period = trafficPeriod (pl_kind plan) in
      bnd (repo_call (QuotasBySubscriptions [sr_id m])) (\<lambda>rows.
      case bonus_target period rows of
        None \<Rightarrow> fail ErrUnlimited
      | Some q \<Rightarrow>
          bnd (require (\<not> (period = PeriodCycle \<and> (case qr_end q of None \<Rightarrow> False | Some e \<Rightarrow> \<not> e > now2))) ErrBonusPeriodSwitching) (\<lambda>_.
          bnd (repo_call (AddQuotaBonus (qr_id q) (bg_bytes i))) (\<lambda>bonus.
          bnd (notifyRoster c [sr_id m]) (\<lambda>_.
            ret bonus))))))))"

definition GrantBonus :: "ports \<Rightarrow> time \<Rightarrow> time \<Rightarrow> ctx \<Rightarrow> bonus_grant \<Rightarrow> int sub_eff" where
  "GrantBonus P now now2 c i =
     bnd (require (bg_sub i \<noteq> uuid_Nil) (Wrap Internal (errMissing ''SubscriptionID''))) (\<lambda>_.
     bnd (require (bg_bytes i > 0) (Invalid [(''bytes'', ''must be positive'')])) (\<lambda>_.
     bnd (if bg_source i = ''gift_card'' then ret ()
          else if bg_source i = ''admin'' then require (named (bg_actor i)) (Wrap Internal (errMissing ''ActorID''))
          else fail (Wrap Internal (errMissing ''Source''))) (\<lambda>_.
     bnd (lift_sum (optional_note (bg_note i))) (\<lambda>_.
       sub_Do c (bonus_body P now now2 i)))))"

end
