(* ===== verification/Sub_Admin.thy ===== *)
theory Sub_Admin
  imports Sub_Ops
begin

text \<open>
  The administrator's operations on a subscription (\<open>admin.go\<close>, \<open>admin_edit.go\<close>) and the end of all subscriptions of
  a deleted account (\<open>close.go\<close>), all of \<open>panel/internal/module/subscription/service\<close>. The clock of an operation that
  calls another one is read by each of them; it is one argument here.
\<close>

section \<open>Operations with an audit record\<close>

abbreviation minReasonRunes :: nat where "minReasonRunes \<equiv> 5"
abbreviation maxReasonRunes :: nat where "maxReasonRunes \<equiv> 500"
abbreviation maxDeviceLimit :: int where "maxDeviceLimit \<equiv> 1000"
abbreviation maxAdminGrantBytes :: int where "maxAdminGrantBytes \<equiv> 10995116277760"
abbreviation maxQuotaLimitBytes :: int where "maxQuotaLimitBytes \<equiv> 10995116277760"

definition email_of :: "(uuid \<rightharpoonup> string) \<Rightarrow> uuid \<Rightarrow> string" where
  "email_of m u = (case m u of None \<Rightarrow> '''' | Some e \<Rightarrow> e)"

record admin_extend_result =
  ae_sub :: uuid
  ae_email :: string
  ae_days :: int
  ae_previous :: time
  ae_end :: time

definition AdminExtend ::
  "decimal_pkg \<Rightarrow> ports \<Rightarrow> time \<Rightarrow> ctx \<Rightarrow> uuid \<Rightarrow> int \<Rightarrow> string \<Rightarrow> admin_extend_result sub_eff" where
  "AdminExtend D P now c i days reason =
     bnd (lift_sum (adminPrincipal c)) (\<lambda>p.
     bnd (lift_sum (cleanText reason minReasonRunes maxReasonRunes ''reason'' ''5 to 500 characters'')) (\<lambda>reason.
     sub_Do c (\<lambda>c.
       bnd (rejectDeletedOwner P i) (\<lambda>_.
       bnd (Extend D now c \<lparr>ex_sub = i, ex_user = None, ex_days = days, ex_actor = actorFrom p, ex_source = ''admin'',
              ex_reason = reason\<rparr>) (\<lambda>res.
       bnd (lift_sum (Emails P [er_user res])) (\<lambda>emails.
       bnd (writeAudit P ''subscription.extended'' i
              [(''user_id'', PUuid (er_user res)), (''days'', PInt days), (''reason'', PStr reason),
               (''previous_end'', PTime (er_previous res)), (''period_end'', PTime (er_period_end res)),
               (''rescued'', PBool (er_rescued res))]) (\<lambda>_.
         ret \<lparr>ae_sub = er_sub res, ae_email = email_of emails (er_user res), ae_days = days,
              ae_previous = er_previous res, ae_end = er_period_end res\<rparr>)))))))"

record admin_grant_result =
  ag_sub :: uuid
  ag_user :: uuid
  ag_email :: string
  ag_bytes :: int
  ag_bonus :: int

definition AdminGrantTraffic ::
  "ports \<Rightarrow> time \<Rightarrow> time \<Rightarrow> ctx \<Rightarrow> uuid \<Rightarrow> int \<Rightarrow> string \<Rightarrow> admin_grant_result sub_eff" where
  "AdminGrantTraffic P now now2 c i bytes reason =
     bnd (lift_sum (adminPrincipal c)) (\<lambda>p.
     bnd (require (1 \<le> bytes \<and> bytes \<le> maxAdminGrantBytes) (Invalid [(''bytes'', ''1 byte to 10 TiB'')])) (\<lambda>_.
     bnd (lift_sum (cleanText reason minReasonRunes maxReasonRunes ''reason'' ''5 to 500 characters'')) (\<lambda>reason.
     sub_Do c (\<lambda>c.
       bnd (lockForAdmin P i) (\<lambda>m.
       bnd (GrantBonus P now now2 c \<lparr>bg_sub = sr_id m, bg_user = None, bg_bytes = bytes, bg_source = ''admin'',
              bg_actor = Some (UserID p), bg_note = reason\<rparr>) (\<lambda>bonus.
       bnd (lift_sum (Emails P [sr_user m])) (\<lambda>emails.
       bnd (writeAudit P ''subscription.traffic_granted'' (sr_id m)
              [(''user_id'', PUuid (sr_user m)), (''bytes'', PInt bytes), (''bonus_after'', PInt bonus),
               (''reason'', PStr reason)]) (\<lambda>_.
         ret \<lparr>ag_sub = sr_id m, ag_user = sr_user m, ag_email = email_of emails (sr_user m), ag_bytes = bytes,
              ag_bonus = bonus\<rparr>))))))))"

definition AdminResetTraffic :: "ports \<Rightarrow> time \<Rightarrow> ctx \<Rightarrow> uuid \<Rightarrow> string \<Rightarrow> int sub_eff" where
  "AdminResetTraffic P now c i note =
     bnd (lift_sum (adminPrincipal c)) (\<lambda>p.
     bnd (lift_sum (cleanText note minReasonRunes maxReasonRunes ''note'' ''5 to 500 characters'')) (\<lambda>note.
     sub_Do c (\<lambda>c.
       bnd (lockForAdmin P i) (\<lambda>m.
       bnd (ResetTraffic now c \<lparr>tr_sub = i, tr_user = None, tr_reason = ''manual'', tr_actor = Some (UserID p),
              tr_note = note, tr_at = zero_time\<rparr>) (\<lambda>n.
       bnd (writeAudit P ''traffic.manual_reset'' i
              [(''user_id'', PUuid (sr_user m)), (''freed_bytes'', PInt n), (''note'', PStr note)]) (\<lambda>_.
         ret n))))))"

definition opt_int :: "int option \<Rightarrow> payload_value" where
  "opt_int n = (case n of None \<Rightarrow> PNull | Some x \<Rightarrow> PInt x)"

definition AdminSetDeviceLimit :: "decimal_pkg \<Rightarrow> ports \<Rightarrow> ctx \<Rightarrow> uuid \<Rightarrow> int option \<Rightarrow> unit sub_eff" where
  "AdminSetDeviceLimit D P c i limit =
     bnd (lift_sum (adminPrincipal c)) (\<lambda>_.
     bnd (require (pred_option (\<lambda>l. 0 \<le> l \<and> l \<le> maxDeviceLimit) limit) (Invalid [(''limit'', ''0 to 1000'')])) (\<lambda>_.
     sub_Do c (\<lambda>c.
       bnd (lockForAdmin P i) (\<lambda>m.
       bnd (repo_call (UpdateSubscription D (sr_id m) (sr_status m) (no_cols\<lparr>set_device := Some limit\<rparr>) (sr_status m))) (\<lambda>ok.
       bnd (require ok ErrStateChanged) (\<lambda>_.
       bnd (rtChanged c tableSubscriptions ''update'' (sr_id m) (sr_user m)) (\<lambda>_.
       bnd (notifyRoster c [sr_id m]) (\<lambda>_.
         writeAudit P ''subscription.device_limit_changed'' (sr_id m)
           [(''user_id'', PUuid (sr_user m)), (''before'', opt_int (sr_device_limit m)), (''after'', opt_int limit)]))))))))"

section \<open>Editing the end and the limits\<close>

record set_end_result =
  se_sub :: uuid
  se_user :: uuid
  se_previous :: time
  se_end :: time

definition set_end_quota :: "time \<Rightarrow> time \<Rightarrow> quota_row \<Rightarrow> unit sub_eff" where
  "set_end_quota prev t_end q =
     (if qr_period q = PeriodCycle \<and> qr_end q = Some prev \<or>
         (qr_period q = PeriodDay \<or> qr_period q = PeriodMonth) \<and> (case qr_end q of None \<Rightarrow> False | Some e \<Rightarrow> e > t_end)
      then repo_call (UpdateQuota (qr_id q) (\<lambda>r. r\<lparr>qr_end := Some t_end\<rparr>))
      else ret ())"

definition AdminSetPeriodEnd ::
  "decimal_pkg \<Rightarrow> ports \<Rightarrow> time \<Rightarrow> ctx \<Rightarrow> uuid \<Rightarrow> time \<Rightarrow> string \<Rightarrow> set_end_result sub_eff" where
  "AdminSetPeriodEnd D P now c i t_end reason =
     bnd (lift_sum (adminPrincipal c)) (\<lambda>p.
     bnd (lift_sum (cleanText reason minReasonRunes maxReasonRunes ''reason'' ''5 to 500 characters'')) (\<lambda>reason.
     (let t_end = truncate_us t_end in
      sub_Do c (\<lambda>c.
        bnd (lockForAdmin P i) (\<lambda>m.
        bnd (require (state_of m now = StateLive) (Newf Conflict ''only a live subscription'')) (\<lambda>_.
        bnd (require (t_end > now \<and> t_end > sr_start m \<and> \<not> t_end > AddDate 10 0 0 now)
               (Invalid [(''period_end'', ''after now, at most 10 years'')])) (\<lambda>_.
        bnd (repo_call (UpdateSubscription D (sr_id m) (sr_status m) (no_cols\<lparr>set_end := Some t_end\<rparr>) (sr_status m))) (\<lambda>ok.
        bnd (require ok ErrStateChanged) (\<lambda>_.
        bnd (repo_call (QuotasBySubscriptions [sr_id m])) (\<lambda>rows.
        bnd (for_each rows (set_end_quota (sr_end m) t_end)) (\<lambda>_.
        bnd (rtChanged c tableSubscriptions ''update'' (sr_id m) (sr_user m)) (\<lambda>_.
        bnd (notifyRoster c [sr_id m]) (\<lambda>_.
        bnd (writeEvent (sr_id m) ''period_end_set'' (Some (sr_status m)) (sr_status m) (actorFrom p) None
               [(''previous_end'', PTime (sr_end m)), (''period_end'', PTime t_end), (''reason'', PStr reason)]) (\<lambda>_.
        bnd (writeAudit P ''subscription.period_end_set'' (sr_id m)
               [(''user_id'', PUuid (sr_user m)), (''previous_end'', PTime (sr_end m)), (''period_end'', PTime t_end),
                (''reason'', PStr reason)]) (\<lambda>_.
          ret \<lparr>se_sub = sr_id m, se_user = sr_user m, se_previous = sr_end m, se_end = t_end\<rparr>)))))))))))))))"

definition AdminSetQuotaLimit ::
  "ports \<Rightarrow> time \<Rightarrow> ctx \<Rightarrow> uuid \<Rightarrow> string \<Rightarrow> string \<Rightarrow> int option \<Rightarrow> string \<Rightarrow> unit sub_eff" where
  "AdminSetQuotaLimit P now c i metric period limit reason =
     bnd (lift_sum (adminPrincipal c)) (\<lambda>p.
     bnd (lift_sum (cleanText reason minReasonRunes maxReasonRunes ''reason'' ''5 to 500 characters'')) (\<lambda>reason.
     bnd (require (pred_option (\<lambda>l. 0 \<le> l \<and> l \<le> maxQuotaLimitBytes) limit) (Invalid [(''limit_bytes'', ''0 to 10 TiB'')])) (\<lambda>_.
     bnd (require (period \<in> set [PeriodTotal, PeriodCycle, PeriodDay, PeriodMonth]) (Invalid [(''period'', ''unknown'')])) (\<lambda>_.
     sub_Do c (\<lambda>c.
       bnd (lockForAdmin P i) (\<lambda>m.
       bnd (require (state_of m now \<noteq> StateEnded) (Newf Conflict ''ended'')) (\<lambda>_.
       bnd (repo_call (QuotasBySubscriptions [sr_id m])) (\<lambda>rows.
       case find (\<lambda>q. qr_metric q = metric \<and> qr_period q = period) rows of
         None \<Rightarrow> fail (Invalid [(''metric'', ''no such quota'')])
       | Some q \<Rightarrow>
           bnd (repo_call (UpdateQuota (qr_id q) (\<lambda>r. r\<lparr>qr_limit := limit\<rparr>))) (\<lambda>_.
           bnd (rtChanged c tableSubscriptions ''update'' (sr_id m) (sr_user m)) (\<lambda>_.
           bnd (notifyRoster c [sr_id m]) (\<lambda>_.
           bnd (writeEvent (sr_id m) ''quota_limit_set'' (Some (sr_status m)) (sr_status m) (actorFrom p) None
                  [(''metric'', PStr metric), (''period'', PStr period), (''before'', opt_int (qr_limit q)),
                   (''after'', opt_int limit), (''reason'', PStr reason)]) (\<lambda>_.
             writeAudit P ''subscription.quota_limit_set'' (sr_id m)
               [(''user_id'', PUuid (sr_user m)), (''metric'', PStr metric), (''period'', PStr period),
                (''before'', opt_int (qr_limit q)), (''after'', opt_int limit), (''reason'', PStr reason)]))))))))))))"

section \<open>A deleted account\<close>

definition closing_actor :: "ctx \<Rightarrow> actor" where
  "closing_actor c =
     (case sub_principal c of Inr p \<Rightarrow> actorFrom p | Inl _ \<Rightarrow> \<lparr>a_kind = ActorSystem, a_id = None\<rparr>)"

fun lock_all :: "uuid \<Rightarrow> sub_row list \<Rightarrow> sub_row list sub_eff" where
  "lock_all u [] = ret []"
| "lock_all u (r # rs) = bnd (lockOwned (sr_id r) (Some u)) (\<lambda>m. bnd (lock_all u rs) (\<lambda>ms. ret (m # ms)))"

definition expire_for_deletion :: "decimal_pkg \<Rightarrow> time \<Rightarrow> actor \<Rightarrow> ctx \<Rightarrow> sub_row \<Rightarrow> unit sub_eff" where
  "expire_for_deletion D now a c m =
     bnd (transition D c m StatusExpired
            (no_cols\<lparr>set_end := (if sr_end m > now \<and> now > sr_start m then Some now else None)\<rparr>)) (\<lambda>_.
     writeEvent (sr_id m) ''expired'' (Some StatusActive) StatusExpired a None
       [(''reason'', PStr ''account_deleted''), (''previous_end'', PTime (sr_end m))])"

definition CloseUserSubscriptions ::
  "decimal_pkg \<Rightarrow> ports \<Rightarrow> time \<Rightarrow> ctx \<Rightarrow> uuid \<Rightarrow> string \<Rightarrow> nat sub_eff" where
  "CloseUserSubscriptions D P now c u reason =
     sub_Do c (\<lambda>c.
       bnd (repo_call (SubscriptionsByUsers [u])) (\<lambda>found.
       if found = [] then ret 0
       else
         bnd (lock_all u (sort_key sr_id found)) (\<lambda>locked.
         (let a = closing_actor c; actives = filter (\<lambda>m. sr_status m = StatusActive) locked in
          bnd (for_each actives (expire_for_deletion D now a c)) (\<lambda>_.
          bnd (repo_call (CloseRenewalWindows (map sr_id (filter (\<lambda>m. sr_closed m = None) locked)) now)) (\<lambda>closed.
          bnd (for_each closed (\<lambda>i.
                 bnd (rtChanged c tableSubscriptions ''update'' i u) (\<lambda>_.
                 writeEvent i ''renewal_closed'' (Some StatusExpired) StatusExpired a None
                   [(''reason'', PStr ''account_deleted'')]))) (\<lambda>_.
          bnd (repo_call (RevokeCredentialsOnClose (map sr_id locked) now ''account_deleted'')) (\<lambda>revoked.
          bnd (for_each revoked (\<lambda>r. rtChanged c tableCredentials ''update'' (cr_id r) (cr_user r))) (\<lambda>_.
          (let n = length (remdups (map sr_id actives @ closed)) in
           bnd (if n > 0
                then audit_Write P \<lparr>au_action = ''subscription.closed_by_account_deletion'', au_type = ''user'', au_resource = u,
                       au_data = [(''reason'', PStr reason), (''subscriptions'', PInt (int n)),
                                  (''revoked_credentials'', PInt (int (length revoked)))]\<rparr>
                else ret ()) (\<lambda>_.
           bnd (notifyRoster c (map sr_id actives)) (\<lambda>_.
             ret n))))))))))))"

end
