(* ===== verification/Sub_Jobs.thy ===== *)
theory Sub_Jobs
  imports Sub_Ops
begin

text \<open>
  The scheduled jobs on subscriptions: the roll of quota windows (\<open>quota_roll.go\<close>) and the expiry scan (\<open>expire.go\<close>,
  \<open>plugin_events.go\<close>).

  A job reads the clock once per run here, and the cancellation of its context is left out. The order in which Go
  walks a map is left out where only a set is built from it.
\<close>

section \<open>Rolling quotas\<close>

abbreviation rollQuotaBatch :: nat where "rollQuotaBatch \<equiv> 500"
abbreviation rollQuotaMaxBatches :: nat where "rollQuotaMaxBatches \<equiv> 100"

record roll_stats =
  st_rolled :: nat
  st_cycle :: nat
  st_switched :: nat
  st_passes :: nat

definition cycle_rows :: "roll_candidate list \<Rightarrow> roll_candidate list" where
  "cycle_rows cands = filter (\<lambda>c. rc_period c = PeriodCycle) cands"

definition target_of :: "(uuid \<rightharpoonup> catalog_plan) \<Rightarrow> roll_candidate \<Rightarrow> uuid" where
  "target_of plans c =
     (case plans (rc_plan c) of
        None \<Rightarrow> rc_version c
      | Some p \<Rightarrow> if pl_kind p \<noteq> KindSubscription then rc_version c
                 else (case pl_current p of None \<Rightarrow> rc_version c | Some v \<Rightarrow> v))"

definition rollTargets ::
  "ports \<Rightarrow> roll_candidate list \<Rightarrow> err + ((uuid \<rightharpoonup> catalog_version) \<times> (uuid \<rightharpoonup> uuid))" where
  "rollTargets P cands =
     (let cycles = cycle_rows cands in
      if cycles = [] then Inr (Map.empty, Map.empty)
      else
        sum_bind (PlansByIDs P (remdups (map rc_plan cycles))) (\<lambda>plans.
        (let targets = map_of (rev (map (\<lambda>c. (rc_sub c, target_of plans c)) cycles)) in
         sum_bind (VersionsByIDs P (remdups (map (target_of plans) cycles))) (\<lambda>versions.
           Inr ((\<lambda>i. map_option (\<lambda>v. case plans (cv_plan v) of None \<Rightarrow> v | Some p \<Rightarrow> withKind v (pl_kind p)) (versions i)),
                targets)))))"

text \<open>\<open>None\<close>: the loop of \<open>cycleRollWindow\<close> does not return. \<open>Some None\<close>: the row is not rolled.\<close>

definition planRoll ::
  "roll_candidate \<Rightarrow> time \<Rightarrow> (uuid \<rightharpoonup> catalog_version) \<Rightarrow> (uuid \<rightharpoonup> uuid) \<Rightarrow> quota_roll option option" where
  "planRoll c now versions targets =
     (if rc_period c = PeriodDay \<or> rc_period c = PeriodMonth then
        Some (case naturalRollStart (rc_period c) (rc_start c) (rc_end c) now of
                None \<Rightarrow> None
              | Some start \<Rightarrow>
                  map_option (\<lambda>e. \<lparr>ro_id = rc_id c, ro_start = start, ro_end = e, ro_set_limit = False, ro_limit = None\<rparr>)
                    (QuotaPeriodEnd (rc_period c) start zero_time))
      else if rc_period c = PeriodCycle then
        map_option (\<lambda>(start, e).
          (let target = (case targets (rc_sub c) of None \<Rightarrow> uuid_Nil | Some t \<Rightarrow> t);
               target = (if target = uuid_Nil then rc_version c else target);
               def = Option.bind (versions target) (\<lambda>v. quotaDef v (rc_metric c) PeriodCycle)
           in Some \<lparr>ro_id = rc_id c, ro_start = start, ro_end = e, ro_set_limit = (def \<noteq> None),
                    ro_limit = Option.bind def cq_limit\<rparr>))
          (cycleRollWindow (rc_end c) (rc_sub_end c) now (rc_interval c) (rc_count c))
      else Some None)"

text \<open>A batch with a window that does not return ends in this value, which stands for no result.\<close>

definition Diverges :: err where
  "Diverges = Plain ''does not return''"

definition roll_log :: "(uuid \<rightharpoonup> roll_candidate) \<Rightarrow> rolled_quota \<Rightarrow> reset_row option" where
  "roll_log byID r =
     map_option (\<lambda>c. \<lparr>rl_sub = rq_sub r, rl_user = rc_user c, rl_metric = rq_metric r,
        rl_reason = (if rc_period c = PeriodCycle then ''renewal'' else ''cycle_roll''),
        rl_before = rq_before r, rl_after = 0, rl_actor = None, rl_note = None\<rparr>) (byID (rq_id r))"

text \<open>The first rolled cycle row of every subscription whose target is another version.\<close>

definition cycle_switches :: "(uuid \<rightharpoonup> uuid) \<Rightarrow> roll_candidate list \<Rightarrow> (uuid \<times> roll_candidate) list" where
  "cycle_switches targets cs =
     fold (\<lambda>c sw.
       (case targets (rc_sub c) of
          None \<Rightarrow> sw
        | Some t \<Rightarrow> if t \<noteq> uuid_Nil \<and> t \<noteq> rc_version c \<and> rc_sub c \<notin> fst ` set sw then sw @ [(rc_sub c, c)] else sw))
       (cycle_rows cs) []"

definition rollBatch :: "pg \<Rightarrow> ports \<Rightarrow> time \<Rightarrow> ctx \<Rightarrow> (nat \<times> nat \<times> nat \<times> nat \<times> nat) sub_eff" where
  "rollBatch G P now c =
     sub_Do c (\<lambda>c.
       bnd (repo_call (LockDueQuotaRolls G now rollQuotaBatch)) (\<lambda>cands.
       if cands = [] then ret (0, 0, 0, 0, 0)
       else
         bnd (lift_sum (rollTargets P cands)) (\<lambda>(versions, targets).
         (let plans = map (\<lambda>x. planRoll x now versions targets) cands in
          bnd (require (None \<notin> set plans) Diverges) (\<lambda>_.
          (let byID = map_of (map (\<lambda>x. (rc_id x, x)) cands);
               rolls = List.map_filter (\<lambda>x. Option.bind (planRoll x now versions targets) id) cands
           in
           bnd (repo_call (ApplyQuotaRolls rolls)) (\<lambda>rolled.
           (let rolledCands = List.map_filter (\<lambda>r. byID (rq_id r)) rolled;
                switches = cycle_switches targets rolledCands
            in
            bnd (repo_call (InsertResetLogs (List.map_filter (roll_log byID) rolled))) (\<lambda>_.
            bnd (repo_call (SwitchPlanVersions (List.map_filter (\<lambda>(i, x). map_option (\<lambda>t.
                   \<lparr>vs_sub = i, vs_from = rc_version x, vs_to = t\<rparr>) (targets i)) switches))) (\<lambda>switched.
            bnd (for_each switched (\<lambda>i. case map_of switches i of
                   None \<Rightarrow> rtChanged c tableSubscriptions ''update'' i uuid_Nil
                 | Some x \<Rightarrow> rtChanged c tableSubscriptions ''update'' i (rc_user x))) (\<lambda>_.
            bnd (notifyRoster c (map rq_sub rolled)) (\<lambda>_.
              ret (length cands, length rolled,
                   length (filter (\<lambda>x. rc_period x \<noteq> PeriodCycle) rolledCands),
                   length (cycle_rows rolledCands), length switched)))))))))))))"

fun rollPass :: "pg \<Rightarrow> ports \<Rightarrow> time \<Rightarrow> ctx \<Rightarrow> nat \<Rightarrow> roll_stats \<Rightarrow> roll_stats sub_eff" where
  "rollPass G P now c 0 st = ret st"
| "rollPass G P now c (Suc left) st =
     bnd (handle (rollBatch G P now c) (\<lambda>e. fail (Wrapped ''quota roll'' [e]))) (\<lambda>(selected, applied, dayMonth, cycle, switched).
       let st = st\<lparr>st_rolled := st_rolled st + dayMonth, st_cycle := st_cycle st + cycle, st_switched := st_switched st + switched\<rparr>
       in if selected < rollQuotaBatch \<or> applied = 0 then ret st else rollPass G P now c left st)"

definition RollQuotas :: "pg \<Rightarrow> ports \<Rightarrow> time \<Rightarrow> ctx \<Rightarrow> roll_stats sub_eff" where
  "RollQuotas G P now c =
     bnd (rollPass G P now c rollQuotaMaxBatches \<lparr>st_rolled = 0, st_cycle = 0, st_switched = 0, st_passes = 1\<rparr>) (\<lambda>st.
     bnd (repo_call (QuotaRollsRemain G now)) (\<lambda>remain.
       if \<not> remain then ret st
       else rollPass G P now c rollQuotaMaxBatches (st\<lparr>st_passes := 2\<rparr>)))"

section \<open>The expiry scan\<close>

abbreviation expireBatchSize :: nat where "expireBatchSize \<equiv> 200"
abbreviation expireMaxBatches :: nat where "expireMaxBatches \<equiv> 50"

definition RenewalWindow :: duration where
  "RenewalWindow = 30 * 24 * hour_ns"

definition scheduler :: actor where
  "scheduler = \<lparr>a_kind = ActorScheduler, a_id = None\<rparr>"

definition Emit :: "(plugin_event \<Rightarrow> err option) option \<Rightarrow> plugin_event \<Rightarrow> unit sub_eff" where
  "Emit e ev =
     (case e of
        None \<Rightarrow> ret ()
      | Some refuses \<Rightarrow>
          (case refuses ev of
             Some err \<Rightarrow> fail err
           | None \<Rightarrow> on_subs (modify (\<lambda>s. s\<lparr>emitted := emitted s @ [ev]\<rparr>))))"

definition emitExpired :: "ports \<Rightarrow> sub_row list \<Rightarrow> uuid list \<Rightarrow> unit sub_eff" where
  "emitExpired P rows changed =
     (if emitter P = None \<or> changed = [] then ret ()
      else
        (let rows = filter (\<lambda>m. sr_id m \<in> set changed) rows in
         bnd (lift_sum (PlansByIDs P (remdups (map sr_plan rows)))) (\<lambda>plans.
         for_each rows (\<lambda>m. Emit (emitter P)
           \<lparr>pe_type = ''subscription.expired'', pe_key = (sr_id m, sr_end m div 1000000000), pe_user = sr_user m,
            pe_plan = (case plans (sr_plan m) of None \<Rightarrow> '''' | Some p \<Rightarrow> pl_name p)\<rparr>))))"

definition expireBatch :: "ports \<Rightarrow> time \<Rightarrow> ctx \<Rightarrow> (nat \<times> nat) sub_eff" where
  "expireBatch P now c =
     sub_Do c (\<lambda>c.
       bnd (repo_call (LockDueExpiries now expireBatchSize)) (\<lambda>rows.
       if rows = [] then ret (0, 0)
       else
         bnd (require (CanTransition StatusActive StatusExpired) (Wrap Internal (Plain ''no active to expired''))) (\<lambda>_.
         bnd (repo_call (TransitionStatus (map sr_id rows) StatusActive StatusExpired)) (\<lambda>changed.
         bnd (for_each (filter (\<lambda>m. sr_id m \<in> set changed) rows) (\<lambda>m.
                bnd (rtChanged c tableSubscriptions ''update'' (sr_id m) (sr_user m)) (\<lambda>_.
                bnd (writeEvent (sr_id m) ''expired'' (Some StatusActive) StatusExpired scheduler None
                       [(''period_end'', PTime (sr_end m))]) (\<lambda>_.
                  writeAudit P ''subscription.expired'' (sr_id m)
                    [(''user_id'', PUuid (sr_user m)), (''period_end'', PTime (sr_end m))])))) (\<lambda>_.
         bnd (emitExpired P rows changed) (\<lambda>_.
         bnd (notifyRoster c changed) (\<lambda>_.
           ret (length rows, length changed))))))))"

definition closeBatch :: "ports \<Rightarrow> time \<Rightarrow> ctx \<Rightarrow> (nat \<times> nat \<times> nat) sub_eff" where
  "closeBatch P now c =
     sub_Do c (\<lambda>c.
       bnd (repo_call (LockDueRenewalCloses (now - RenewalWindow) expireBatchSize)) (\<lambda>rows.
       if rows = [] then ret (0, 0, 0)
       else
         bnd (repo_call (CloseRenewalWindows (map sr_id rows) now)) (\<lambda>closed.
         bnd (repo_call (RevokeCredentialsOnClose closed now ''renewal_window_closed'')) (\<lambda>revoked.
         bnd (for_each revoked (\<lambda>r. rtChanged c tableCredentials ''update'' (cr_id r) (cr_user r))) (\<lambda>_.
         (let count = (\<lambda>i. length (filter (\<lambda>r. cr_sub r = i) revoked));
              done = filter (\<lambda>m. sr_id m \<in> set closed) rows
          in
          bnd (for_each done (\<lambda>m.
                 bnd (rtChanged c tableSubscriptions ''update'' (sr_id m) (sr_user m)) (\<lambda>_.
                 bnd (writeEvent (sr_id m) ''renewal_closed'' (Some StatusExpired) StatusExpired scheduler None
                        [(''window_days'', PInt (quo RenewalWindow (24 * hour_ns))),
                         (''revoked_credentials'', PInt (int (count (sr_id m))))]) (\<lambda>_.
                   writeAudit P ''subscription.renewal_closed'' (sr_id m)
                     [(''user_id'', PUuid (sr_user m)), (''period_end'', PTime (sr_end m)),
                      (''revoked_credentials'', PInt (int (count (sr_id m))))])))) (\<lambda>_.
            ret (length rows, length closed, sum_list (map (\<lambda>m. count (sr_id m)) done)))))))))"

record expire_stats =
  xs_expired :: nat
  xs_closed :: nat
  xs_revoked :: nat

fun expire_loop :: "ports \<Rightarrow> time \<Rightarrow> ctx \<Rightarrow> nat \<Rightarrow> expire_stats \<Rightarrow> expire_stats sub_eff" where
  "expire_loop P now c 0 st = ret st"
| "expire_loop P now c (Suc left) st =
     bnd (handle (expireBatch P now c) (\<lambda>e. fail (Wrapped ''expiry scan'' [e]))) (\<lambda>(selected, expired).
       let st = st\<lparr>xs_expired := xs_expired st + expired\<rparr>
       in if selected < expireBatchSize then ret st else expire_loop P now c left st)"

fun close_loop :: "ports \<Rightarrow> time \<Rightarrow> ctx \<Rightarrow> nat \<Rightarrow> expire_stats \<Rightarrow> expire_stats sub_eff" where
  "close_loop P now c 0 st = ret st"
| "close_loop P now c (Suc left) st =
     bnd (handle (closeBatch P now c) (\<lambda>e. fail (Wrapped ''closing windows'' [e]))) (\<lambda>(selected, closed, revoked).
       let st = st\<lparr>xs_closed := xs_closed st + closed, xs_revoked := xs_revoked st + revoked\<rparr>
       in if selected < expireBatchSize then ret st else close_loop P now c left st)"

definition ExpireDue :: "ports \<Rightarrow> time \<Rightarrow> ctx \<Rightarrow> expire_stats sub_eff" where
  "ExpireDue P now c =
     bnd (expire_loop P now c expireMaxBatches \<lparr>xs_expired = 0, xs_closed = 0, xs_revoked = 0\<rparr>) (\<lambda>st.
       close_loop P now c expireMaxBatches st)"

end
