(* ===== verification/Sub_Facts.thy ===== *)
theory Sub_Facts
  imports Sub_Admin Sub_Jobs Machine "HOL-Library.Sublist"
begin

text \<open>
  What every statement on the subscription tables keeps. \<open>sub_inv\<close> is the consistency that the constraints of the
  tables enforce; \<open>sub_later\<close> relates an earlier to a later state: a subscription whose renewal window is closed
  never changes its owner, plan, period or state again, and events, resets and audit records are only appended.
  \<open>keeps\<close> carries such a relation through the combinators, so that an operation is followed statement by statement.
\<close>

section \<open>Relations kept by effects\<close>

named_theorems keeps_intros

definition keeps ::
  "('s \<Rightarrow> 's \<Rightarrow> bool) \<Rightarrow> ('s \<Rightarrow> bool) \<Rightarrow> (err, ('s, 'k, 'h) tx_world, 'a) eff \<Rightarrow> bool" where
  "keeps K pre m \<longleftrightarrow>
     (\<forall>w s. K s (tables w) \<and> pre (tables w) \<longrightarrow> wp m (\<lambda>_ u. K s (tables u)) (\<lambda>_ u. K s (tables u)) w)"

abbreviation always :: "'s \<Rightarrow> bool" where "always \<equiv> \<lambda>_. True"

lemma keepsI:
  "(\<And>w s. K s (tables w) \<Longrightarrow> pre (tables w) \<Longrightarrow> wp m (\<lambda>_ u. K s (tables u)) (\<lambda>_ u. K s (tables u)) w) \<Longrightarrow> keeps K pre m"
  by (simp add: keeps_def)

lemma keepsD:
  "keeps K pre m \<Longrightarrow> K s (tables w) \<Longrightarrow> pre (tables w) \<Longrightarrow> wp m (\<lambda>_ u. K s (tables u)) (\<lambda>_ u. K s (tables u)) w"
  by (simp add: keeps_def)

lemma keeps_weaken: "keeps K always m \<Longrightarrow> keeps K pre m"
  by (simp add: keeps_def)

lemma keeps_ret [keeps_intros]: "keeps K pre (ret a)"
  by (simp add: keeps_def wp_simps)

lemma keeps_fail [keeps_intros]: "keeps K pre (fail e)"
  by (simp add: keeps_def wp_simps)

lemma keeps_lift [keeps_intros]: "keeps K pre (lift_sum r)"
  by (simp add: keeps_def wp_simps split: sum.split)

lemma keeps_require [keeps_intros]: "keeps K pre (require b e)"
  by (simp add: keeps_def wp_simps)

lemma keeps_if [keeps_intros]: "(b \<Longrightarrow> keeps K pre m) \<Longrightarrow> (\<not> b \<Longrightarrow> keeps K pre n) \<Longrightarrow> keeps K pre (if b then m else n)"
  by simp

lemma keeps_let [keeps_intros]: "(\<And>y. keeps K pre (m y)) \<Longrightarrow> keeps K pre (Let x m)"
  by simp

lemma keeps_option [keeps_intros]:
  "(x = None \<Longrightarrow> keeps K pre m) \<Longrightarrow> (\<And>y. x = Some y \<Longrightarrow> keeps K pre (n y)) \<Longrightarrow> keeps K pre (case x of None \<Rightarrow> m | Some y \<Rightarrow> n y)"
  by (cases x) simp_all

lemma keeps_prod [keeps_intros]: "(\<And>a b. keeps K pre (m a b)) \<Longrightarrow> keeps K pre (case x of (a, b) \<Rightarrow> m a b)"
  by (cases x) simp

lemma keeps_bnd [keeps_intros]:
  assumes "keeps K pre m" and "\<And>a. keeps K always (k a)"
  shows "keeps K pre (bnd m k)"
proof (rule keepsI, unfold wp_bnd)
  fix w :: "('a, 'b, 'c) tx_world" and s
  assume "K s (tables w)" "pre (tables w)"
  then show "wp m (\<lambda>a. wp (k a) (\<lambda>_ u. K s (tables u)) (\<lambda>_ u. K s (tables u))) (\<lambda>_ u. K s (tables u)) w"
    by (intro wp_mono [OF keepsD [OF assms(1)]]) (auto intro!: keepsD [OF assms(2)])
qed

text \<open>A step that changes no table passes the precondition on, with what it has learnt.\<close>

lemma keeps_bnd_lift: "(\<And>a. r = Inr a \<Longrightarrow> keeps K pre (k a)) \<Longrightarrow> keeps K pre (bnd (lift_sum r) k)"
  by (auto simp: keeps_def wp_simps split: sum.split)

lemma keeps_bnd_require: "(b \<Longrightarrow> keeps K pre (k ())) \<Longrightarrow> keeps K pre (bnd (require b e) k)"
  by (auto simp: keeps_def wp_simps)

lemma keeps_handle [keeps_intros]:
  assumes "keeps K pre m" and "\<And>e. keeps K always (h e)"
  shows "keeps K pre (handle m h)"
proof (rule keepsI, unfold wp_handle)
  fix w :: "('a, 'b, 'c) tx_world" and s
  assume "K s (tables w)" "pre (tables w)"
  then show "wp m (\<lambda>_ u. K s (tables u)) (\<lambda>e. wp (h e) (\<lambda>_ u. K s (tables u)) (\<lambda>_ u. K s (tables u))) w"
    by (intro wp_mono [OF keepsD [OF assms(1)]]) (auto intro!: keepsD [OF assms(2)])
qed

lemma keeps_for_each [keeps_intros]:
  "(\<And>x. x \<in> set xs \<Longrightarrow> keeps K always (f x)) \<Longrightarrow> keeps K pre (for_each xs f)"
  by (rule keeps_weaken, rule keepsI, rule wp_for_each) (auto intro: keepsD)

lemma keeps_AfterCommit [keeps_intros]: "keeps K pre (AfterCommit c k h)"
  by (simp add: keeps_def wp_simps)

lemma keeps_Do [keeps_intros]:
  assumes "\<And>c. keeps K pre (fn c)"
  shows "keeps K pre (Do_hooks (\<lambda>_. None) c fn)"
proof (rule keepsI)
  fix w :: "('a, 'b, 'c) tx_world" and s
  assume K: "K s (tables w)" "pre (tables w)"
  have "wp (fn c') (\<lambda>_ u. K s (tables u)) (\<lambda>_ u. K s (tables u)) v" if "tables v = tables w" for c' v
    using K that by (intro keepsD [OF assms]) simp_all
  then have "wp (Do_hooks (\<lambda>_. None) c fn) (\<lambda>_ u. K s (tables u))
      (\<lambda>_ u. if ctx_in_tx c then K s (tables u) else tables u = tables w \<and> fired u = fired w) w"
    by (rule Do_hooks_wp)
  then show "wp (Do_hooks (\<lambda>_. None) c fn) (\<lambda>_ u. K s (tables u)) (\<lambda>_ u. K s (tables u)) w"
    by (rule wp_mono) (use K in \<open>auto split: if_splits\<close>)
qed

section \<open>Consistent tables, and later ones\<close>

definition quota_ok :: "quota_row \<Rightarrow> bool" where
  "quota_ok q \<longleftrightarrow> quota_checks q \<and> remaining_fits q \<and> pred_option in_int64 (qr_limit q)"

definition sub_inv :: "sub_db \<Rightarrow> bool" where
  "sub_inv s \<longleftrightarrow>
     distinct (map sr_id (subs s)) \<and> (\<forall>r \<in> set (subs s). sub_checks r \<and> smallint (sr_count r)) \<and>
     distinct (map qr_id (quotas s)) \<and> distinct (map quota_key (quotas s)) \<and>
     (\<forall>q \<in> set (quotas s). quota_ok q \<and> qr_sub q \<in> sr_id ` set (subs s))"

definition sub_core :: "sub_row \<Rightarrow> uuid \<times> uuid \<times> uuid \<times> uuid \<times> string \<times> time \<times> time \<times> time option" where
  "sub_core r = (sr_id r, sr_user r, sr_plan r, sr_version r, sr_status r, sr_start r, sr_end r, sr_closed r)"

definition closed_kept :: "sub_row list \<Rightarrow> sub_row list \<Rightarrow> bool" where
  "closed_kept rs ts \<longleftrightarrow> (\<forall>r \<in> set rs. sr_closed r \<noteq> None \<longrightarrow> sub_core r \<in> sub_core ` set ts)"

definition sub_later :: "sub_db \<Rightarrow> sub_db \<Rightarrow> bool" where
  "sub_later s t \<longleftrightarrow>
     closed_kept (subs s) (subs t) \<and> prefix (events s) (events t) \<and> prefix (resets s) (resets t) \<and>
     prefix (audits s) (audits t)"

definition sub_ok :: "sub_db \<Rightarrow> sub_db \<Rightarrow> bool" where
  "sub_ok s t \<longleftrightarrow> sub_inv t \<and> sub_later s t"

lemma closed_kept_refl: "closed_kept rs rs"
  by (simp add: closed_kept_def)

lemma sub_core_closed: "sub_core r = sub_core r' \<Longrightarrow> sr_closed r = sr_closed r'"
  by (simp add: sub_core_def)

lemma closed_kept_trans:
  assumes "closed_kept rs ts" and "closed_kept ts us"
  shows "closed_kept rs us"
  unfolding closed_kept_def
proof (intro ballI impI)
  fix r
  assume "r \<in> set rs" "sr_closed r \<noteq> None"
  then obtain r' where r': "r' \<in> set ts" "sub_core r = sub_core r'"
    using assms(1) by (auto simp: closed_kept_def)
  then have "sr_closed r' \<noteq> None" using \<open>sr_closed r \<noteq> None\<close> sub_core_closed by metis
  then show "sub_core r \<in> sub_core ` set us" using assms(2) r' by (simp add: closed_kept_def)
qed

lemma sub_later_refl: "sub_later s s"
  by (simp add: sub_later_def closed_kept_refl)

lemma sub_later_trans: "sub_later s t \<Longrightarrow> sub_later t u \<Longrightarrow> sub_later s u"
  unfolding sub_later_def by (auto intro: closed_kept_trans prefix_order.trans)

lemma sub_ok_trans: "sub_ok s t \<Longrightarrow> sub_ok t u \<Longrightarrow> sub_ok s u"
  unfolding sub_ok_def by (auto intro: sub_later_trans)

lemma sub_ok_refl: "sub_inv s \<Longrightarrow> sub_ok s s"
  by (simp add: sub_ok_def sub_later_refl)

section \<open>Statements\<close>

named_theorems stmt_intros

definition stmt :: "(sub_db \<Rightarrow> bool) \<Rightarrow> (err, sub_db, 'a) eff \<Rightarrow> bool" where
  "stmt pre m \<longleftrightarrow> (\<forall>s. sub_inv s \<and> pre s \<longrightarrow> wp m (\<lambda>_. sub_ok s) (\<lambda>_. sub_ok s) s)"

lemma stmtI: "(\<And>s. sub_inv s \<Longrightarrow> pre s \<Longrightarrow> wp m (\<lambda>_. sub_ok s) (\<lambda>_. sub_ok s) s) \<Longrightarrow> stmt pre m"
  by (simp add: stmt_def)

lemma stmtD: "stmt pre m \<Longrightarrow> sub_inv s \<Longrightarrow> pre s \<Longrightarrow> wp m (\<lambda>_. sub_ok s) (\<lambda>_. sub_ok s) s"
  by (simp add: stmt_def)

lemma keeps_repo_call:
  assumes "stmt pre m"
  shows "keeps sub_ok pre (repo_call m)"
proof (rule keepsI)
  fix w :: "(sub_db, hook_key, notice) tx_world" and s
  assume K: "sub_ok s (tables w)" "pre (tables w)"
  then have "wp m (\<lambda>_. sub_ok (tables w)) (\<lambda>_. sub_ok (tables w)) (tables w)"
    by (intro stmtD [OF assms]) (simp_all add: sub_ok_def)
  then have "wp m (\<lambda>_. sub_ok s) (\<lambda>_. sub_ok s) (tables w)"
    by (rule wp_mono) (auto intro: sub_ok_trans [OF K(1)])
  then show "wp (repo_call m) (\<lambda>_ u. sub_ok s (tables u)) (\<lambda>_ u. sub_ok s (tables u)) w"
    by (simp add: repo_call_def on_subs_def wp_simps)
qed

lemma keeps_repo [keeps_intros]: "stmt always m \<Longrightarrow> keeps sub_ok pre (repo_call m)"
  by (rule keeps_weaken, rule keeps_repo_call)

lemma stmt_gets [stmt_intros]: "stmt pre (gets f)"
  by (simp add: stmt_def wp_simps sub_ok_refl)

lemma stmt_ret [stmt_intros]: "stmt pre (ret a)"
  by (simp add: stmt_def wp_simps sub_ok_refl)

lemma stmt_fail [stmt_intros]: "stmt pre (fail e)"
  by (simp add: stmt_def wp_simps sub_ok_refl)

lemma stmt_require [stmt_intros]: "stmt pre (require b e)"
  by (simp add: stmt_def wp_simps sub_ok_refl)

lemma stmt_lift [stmt_intros]: "stmt pre (lift_sum r)"
  by (simp add: stmt_def wp_simps sub_ok_refl split: sum.split)

lemma stmt_bnd [stmt_intros]:
  assumes "stmt pre m" and "\<And>a. stmt always (k a)"
  shows "stmt pre (bnd m k)"
proof (rule stmtI, unfold wp_bnd)
  fix s
  assume s: "sub_inv s" "pre s"
  have "wp (k a) (\<lambda>_. sub_ok s) (\<lambda>_. sub_ok s) t" if "sub_ok s t" for a t
    by (rule wp_mono [OF stmtD [OF assms(2)]]) (use that in \<open>auto simp: sub_ok_def intro: sub_later_trans\<close>)
  then show "wp m (\<lambda>a. wp (k a) (\<lambda>_. sub_ok s) (\<lambda>_. sub_ok s)) (\<lambda>_. sub_ok s) s"
    using stmtD [OF assms(1) s] by (auto intro: wp_mono)
qed

text \<open>After a read the statement may use what it has read.\<close>

lemma stmt_read: "(\<And>s. sub_inv s \<Longrightarrow> pre s \<Longrightarrow> wp (k (f s)) (\<lambda>_. sub_ok s) (\<lambda>_. sub_ok s) s) \<Longrightarrow> stmt pre (bnd (gets f) k)"
  by (simp add: stmt_def wp_simps)

lemma stmt_pre_lift: "(\<And>a. r = Inr a \<Longrightarrow> stmt pre (k a)) \<Longrightarrow> stmt pre (bnd (lift_sum r) k)"
  by (auto simp: stmt_def wp_simps sub_ok_refl split: sum.split)

lemma stmt_if [stmt_intros]: "(b \<Longrightarrow> stmt pre m) \<Longrightarrow> (\<not> b \<Longrightarrow> stmt pre n) \<Longrightarrow> stmt pre (if b then m else n)"
  by simp

lemma stmt_let [stmt_intros]: "(\<And>y. stmt pre (m y)) \<Longrightarrow> stmt pre (Let x m)"
  by simp

lemma stmt_option [stmt_intros]:
  "(x = None \<Longrightarrow> stmt pre m) \<Longrightarrow> (\<And>y. x = Some y \<Longrightarrow> stmt pre (n y)) \<Longrightarrow> stmt pre (case x of None \<Rightarrow> m | Some y \<Rightarrow> n y)"
  by (cases x) simp_all

lemma stmt_for_each [stmt_intros]:
  assumes "\<And>x. stmt always (f x)"
  shows "stmt pre (for_each xs f)"
proof (rule stmtI)
  fix s
  assume s: "sub_inv s"
  show "wp (for_each xs f) (\<lambda>_. sub_ok s) (\<lambda>_. sub_ok s) s"
  proof (rule wp_for_each)
    show "sub_ok s s" using s by (rule sub_ok_refl)
    show "wp (f x) (\<lambda>_. sub_ok s) (\<lambda>_. sub_ok s) t" if "sub_ok s t" for x t
      by (rule wp_mono [OF stmtD [OF assms]]) (use that in \<open>auto simp: sub_ok_def intro: sub_later_trans\<close>)
  qed
qed

lemma stmt_mapped [stmt_intros]:
  assumes "stmt pre m"
  shows "stmt pre (sub_mapped m)"
proof (rule stmtI)
  fix s
  assume s: "sub_inv s" "pre s"
  show "wp (sub_mapped m) (\<lambda>_. sub_ok s) (\<lambda>_. sub_ok s) s"
    using wp_mono [OF stmtD [OF assms s], of "\<lambda>_. sub_ok s" "\<lambda>_ _. sub_ok s s"] sub_ok_refl [OF s(1)]
    by (simp add: sub_mapped_def wp_simps)
qed

text \<open>A change outside the subscriptions and quotas, with the append-only tables grown at most.\<close>

lemma stmt_frame:
  assumes "\<And>s. subs (f s) = subs s" "\<And>s. quotas (f s) = quotas s" "\<And>s. prefix (events s) (events (f s))"
    "\<And>s. prefix (resets s) (resets (f s))" "\<And>s. prefix (audits s) (audits (f s))"
  shows "stmt pre (modify f)"
  by (auto simp: stmt_def wp_simps sub_ok_def sub_inv_def sub_later_def closed_kept_refl assms)

section \<open>Updates\<close>

lemma closed_kept_update:
  assumes "\<And>r. r \<in> set rs \<Longrightarrow> p r \<Longrightarrow> sr_closed r = None \<or> sub_core (f r) = sub_core r"
  shows "closed_kept rs (update_rows p f rs)"
  unfolding closed_kept_def
proof (intro ballI impI)
  fix r
  assume r: "r \<in> set rs" "sr_closed r \<noteq> None"
  define r' where "r' = (if p r then f r else r)"
  have "r' \<in> set (update_rows p f rs)" using r(1) by (simp add: set_update_rows r'_def)
  moreover have "sub_core r = sub_core r'" using assms [OF r(1)] r(2) by (auto simp: r'_def)
  ultimately show "sub_core r \<in> sub_core ` set (update_rows p f rs)" by (rule rev_image_eqI)
qed

lemma sub_ok_update_subs:
  assumes inv: "sub_inv s" and key: "\<And>r. sr_id (f r) = sr_id r"
    and closed: "\<And>r. r \<in> set (subs s) \<Longrightarrow> p r \<Longrightarrow> sr_closed r = None \<or> sub_core (f r) = sub_core r"
    and checks: "\<And>r. r \<in> set (subs s) \<Longrightarrow> p r \<Longrightarrow> sub_checks (f r) \<and> smallint (sr_count (f r))"
  shows "sub_ok s (s\<lparr>subs := update_rows p f (subs s)\<rparr>)"
proof -
  have ids: "map sr_id (update_rows p f (subs s)) = map sr_id (subs s)" by (simp add: map_update_rows key)
  then have "sr_id ` set (update_rows p f (subs s)) = sr_id ` set (subs s)" by (metis set_map)
  moreover have "closed_kept (subs s) (update_rows p f (subs s))" using closed by (rule closed_kept_update)
  ultimately show ?thesis
    using inv checks ids by (auto simp: sub_ok_def sub_inv_def sub_later_def set_update_rows)
qed

lemma stmt_update_subs:
  assumes "\<And>r. sr_id (f r) = sr_id r"
    and "\<And>s r. sub_inv s \<Longrightarrow> pre s \<Longrightarrow> r \<in> set (subs s) \<Longrightarrow> p r \<Longrightarrow> sr_closed r = None \<or> sub_core (f r) = sub_core r"
  shows "stmt pre (update_subs p f)"
  unfolding update_subs_def
  by (rule stmt_mapped, rule stmt_read)
    (use assms in \<open>auto simp: wp_simps sub_ok_refl list_all_iff intro!: sub_ok_update_subs\<close>)

lemma sub_ok_update_quotas:
  assumes inv: "sub_inv s" and key: "\<And>q. qr_id (f q) = qr_id q" "\<And>q. quota_key (f q) = quota_key q"
    and ok: "\<And>q. q \<in> set (quotas s) \<Longrightarrow> p q \<Longrightarrow> quota_ok (f q)"
  shows "sub_ok s (s\<lparr>quotas := update_rows p f (quotas s)\<rparr>)"
proof -
  have "qr_sub (f q) = qr_sub q" for q using key(2) [of q] by (simp add: quota_key_def)
  then show ?thesis
    using inv ok by (auto simp: sub_ok_def sub_inv_def sub_later_def closed_kept_refl set_update_rows map_update_rows key)
qed

lemma stmt_update_quotas [stmt_intros]:
  assumes "\<And>q. qr_id (f q) = qr_id q" "\<And>q. quota_key (f q) = quota_key q"
  shows "stmt pre (update_quotas p f)"
  unfolding update_quotas_def
  by (rule stmt_mapped, rule stmt_read)
    (use assms in \<open>auto simp: wp_simps sub_ok_refl list_all_iff quota_ok_def intro!: sub_ok_update_quotas\<close>)

section \<open>The statements of the repository\<close>

lemma stmt_insert_quota [stmt_intros]: "stmt pre (insert_quota gen m)"
proof (rule stmtI)
  fix s
  assume s: "sub_inv s"
  define q where "q = m\<lparr>qr_id := gen (s_drawn s)\<rparr>"
  have "sub_ok s (s\<lparr>s_drawn := Suc (s_drawn s)\<rparr>)"
    using s by (simp add: sub_ok_def sub_inv_def sub_later_def closed_kept_refl)
  moreover have "sub_ok s (s\<lparr>s_drawn := Suc (s_drawn s), quotas := quotas s @ [q]\<rparr>)"
    if "quota_ok q" "qr_id q \<notin> qr_id ` set (quotas s)" "quota_key q \<notin> quota_key ` set (quotas s)"
      "qr_sub q \<in> sr_id ` set (subs s)"
    using s that by (simp add: sub_ok_def sub_inv_def sub_later_def closed_kept_refl)
  ultimately show "wp (insert_quota gen m) (\<lambda>_. sub_ok s) (\<lambda>_. sub_ok s) s"
    unfolding insert_quota_def next_id_def by (simp add: wp_simps Let_def quota_ok_def flip: q_def) (simp add: q_def)
qed

lemma stmt_InsertQuotas [stmt_intros]: "stmt pre (InsertQuotas gen rows)"
  unfolding InsertQuotas_def by (intro stmt_intros)

lemma stmt_DeleteQuotas [stmt_intros]: "stmt pre (DeleteQuotas ids)"
  unfolding DeleteQuotas_def
  by (auto simp: stmt_def wp_simps sub_ok_def sub_inv_def sub_later_def closed_kept_refl distinct_map_filter)

lemma stmt_QuotasBySubscriptions [stmt_intros]: "stmt pre (QuotasBySubscriptions ids)"
  unfolding QuotasBySubscriptions_def by (rule stmt_gets)

lemma stmt_reads [stmt_intros]:
  "stmt pre (SubscriptionByID i)" "stmt pre (SubscriptionsByUsers us)" "stmt pre (SubscriptionIDsByNodeUIDs uids)"
  "stmt pre (LockTrafficQuotas ids now)" "stmt pre (LockDueExpiries now n)" "stmt pre (LockDueRenewalCloses now n)"
  "stmt pre (LockDueQuotaRolls G now n)" "stmt pre (QuotaRollsRemain G now)"
  unfolding SubscriptionByID_def SubscriptionsByUsers_def SubscriptionIDsByNodeUIDs_def LockTrafficQuotas_def
    LockDueExpiries_def LockDueRenewalCloses_def LockDueQuotaRolls_def QuotaRollsRemain_def
  by (rule stmt_gets)+

text \<open>An update of a quota that leaves its identity alone.\<close>

definition same_key :: "(quota_row \<Rightarrow> quota_row) \<Rightarrow> bool" where
  "same_key f \<longleftrightarrow> (\<forall>q. qr_id (f q) = qr_id q \<and> quota_key (f q) = quota_key q)"

lemma stmt_UpdateQuota [stmt_intros]: "same_key f \<Longrightarrow> stmt pre (UpdateQuota i f)"
  unfolding UpdateQuota_def same_key_def by (intro stmt_intros) simp_all

lemma stmt_AddQuotaBonus [stmt_intros]: "stmt pre (AddQuotaBonus i bytes)"
  unfolding AddQuotaBonus_def by (intro stmt_intros) (simp_all add: quota_key_def)

lemma stmt_AddQuotaConsumed [stmt_intros]: "stmt pre (AddQuotaConsumed adds)"
  unfolding AddQuotaConsumed_def by (intro stmt_intros) (simp_all add: quota_key_def split: option.split)

lemma stmt_ApplyQuotaRolls [stmt_intros]: "stmt pre (ApplyQuotaRolls rolls)"
  unfolding ApplyQuotaRolls_def
  by (intro stmt_intros) (simp_all add: quota_key_def rolled_row_def split: option.split)

lemma stmt_AddUsageDaily [stmt_intros]: "stmt pre (AddUsageDaily day adds)"
  unfolding AddUsageDaily_def add_usage_def by (intro stmt_intros stmt_frame) simp_all

lemma stmt_InsertEvent [stmt_intros]: "stmt pre (InsertEvent e)"
  unfolding InsertEvent_def by (intro stmt_intros stmt_frame) simp_all

lemma stmt_InsertResetLogs [stmt_intros]: "stmt pre (InsertResetLogs rows)"
  unfolding InsertResetLogs_def insert_reset_def by (intro stmt_intros stmt_frame) simp_all

lemma stmt_RevokeCredentialsOnClose [stmt_intros]: "stmt pre (RevokeCredentialsOnClose ids atime reason)"
  unfolding RevokeCredentialsOnClose_def by (intro stmt_intros stmt_frame) simp_all

text \<open>A conditional update of an open subscription, and one that leaves the core of any subscription alone.\<close>

lemma with_cols_id [simp]: "sr_id (with_cols cols st r) = sr_id r"
  by (simp add: with_cols_def)

definition is_open :: "sub_row \<Rightarrow> sub_db \<Rightarrow> bool" where
  "is_open m s \<longleftrightarrow> m \<in> set (subs s) \<and> sr_closed m = None"

lemma stmt_UpdateSubscription: "stmt (is_open m) (UpdateSubscription D (sr_id m) from cols to)"
proof -
  have "sr_closed r = None" if "sub_inv s" "is_open m s" "r \<in> set (subs s)" "sr_id r = sr_id m" for s r
    using that distinct_map_inj [of sr_id "subs s" r m] by (simp add: sub_inv_def is_open_def)
  then have "stmt (is_open m) (update_subs (\<lambda>r. sr_id r = sr_id m \<and> sr_status r = from) (with_cols cols to))"
    by (intro stmt_update_subs) auto
  then show ?thesis
    unfolding UpdateSubscription_def by (intro stmt_pre_lift stmt_bnd stmt_ret)
qed

lemma stmt_UpdateSubscription_core:
  assumes "\<And>r. sr_status r = st \<Longrightarrow> sub_core (with_cols cols st r) = sub_core r"
  shows "stmt pre (UpdateSubscription D i st cols st)"
  unfolding UpdateSubscription_def by (intro stmt_intros stmt_update_subs) (use assms in auto)

lemma open_if_active: "sub_inv s \<Longrightarrow> r \<in> set (subs s) \<Longrightarrow> sr_status r = StatusActive \<Longrightarrow> sr_closed r = None"
  by (auto simp: sub_inv_def sub_checks_def)

lemma stmt_TransitionStatus [stmt_intros]: "stmt pre (TransitionStatus ids StatusActive to)"
  unfolding TransitionStatus_def by (intro stmt_intros stmt_update_subs) (auto dest: open_if_active)

lemma stmt_CloseRenewalWindows [stmt_intros]: "stmt pre (CloseRenewalWindows ids atime)"
  unfolding CloseRenewalWindows_def by (intro stmt_intros stmt_update_subs) auto

lemma stmt_SwitchPlanVersions:
  assumes "\<And>s v r. pre s \<Longrightarrow> v \<in> set sw \<Longrightarrow> r \<in> set (subs s) \<Longrightarrow> sr_id r = vs_sub v \<Longrightarrow> sr_closed r = None"
  shows "stmt pre (SwitchPlanVersions sw)"
  unfolding SwitchPlanVersions_def
  by (intro stmt_intros stmt_update_subs) (auto simp: list_ex_iff split: option.split dest!: assms)

section \<open>The operations\<close>

lemma keeps_notices [keeps_intros]:
  "keeps sub_ok pre (notifyRoster c ids)" "keeps sub_ok pre (notifyRosterBatch c ids)" "keeps sub_ok pre (rtChanged c tb op i u)"
  unfolding notifyRoster_def notifyRosterBatch_def rtChanged_def by (intro keeps_intros)+

lemma keeps_sub_Do [keeps_intros]: "(\<And>c. keeps sub_ok pre (fn c)) \<Longrightarrow> keeps sub_ok pre (sub_Do c fn)"
  unfolding sub_Do_def by (rule keeps_Do)

lemma keeps_writeEvent [keeps_intros]: "keeps sub_ok pre (writeEvent i ty from to a ord pl)"
  unfolding writeEvent_def by (intro keeps_intros stmt_intros)

lemma keeps_audit_Write [keeps_intros]: "keeps sub_ok pre (audit_Write P row)"
proof -
  have "sub_ok s (t\<lparr>audits := audits t @ [row]\<rparr>)" if "sub_ok s t" for s t
    using that by (auto simp: sub_ok_def sub_inv_def sub_later_def prefix_append)
  then have "keeps sub_ok pre (on_subs (modify (\<lambda>s. s\<lparr>audits := audits s @ [row]\<rparr>)) :: unit sub_eff)"
    by (simp add: keeps_def on_subs_def wp_simps)
  then show ?thesis unfolding audit_Write_def by (intro keeps_intros)
qed

lemma keeps_writeAudit [keeps_intros]: "keeps sub_ok pre (writeAudit P action i data)"
  unfolding writeAudit_def by (rule keeps_audit_Write)

lemma keeps_logResets [keeps_intros]: "keeps sub_ok pre (logResets m before reason a note)"
  unfolding logResets_def by (intro keeps_intros stmt_intros)

lemma same_key_realigned: "same_key (realigned l st e)"
  by (simp add: same_key_def realigned_def quota_key_def)

lemma keeps_rebuildQuotas [keeps_intros]: "keeps sub_ok pre (rebuildQuotas gen m v start cycleEnd)"
  unfolding rebuildQuotas_def by (intro keeps_intros stmt_intros same_key_realigned)

lemma keeps_restartQuotas [keeps_intros]: "keeps sub_ok pre (restartQuotas P gen m version start cycleEnd kind)"
  unfolding restartQuotas_def by (intro keeps_intros)

lemma keeps_transition: "keeps sub_ok (is_open m) (transition D c m to cols)"
  unfolding transition_def by (intro keeps_intros keeps_repo_call stmt_UpdateSubscription)

text \<open>A locked subscription is a row of the table, and an open one unless it has ended.\<close>

definition is_row :: "sub_row \<Rightarrow> sub_db \<Rightarrow> bool" where
  "is_row m s \<longleftrightarrow> m \<in> set (subs s)"

lemma wp_loadSub:
  assumes "\<And>m. m \<in> set (subs (tables w)) \<Longrightarrow> sr_id m = i \<Longrightarrow> owner = None \<or> owner = Some (sr_user m) \<Longrightarrow> Q m w"
    and "E ErrNotFound w"
  shows "wp (loadSub i owner) Q E w"
  using assms
  by (auto simp: loadSub_def repo_call_def on_subs_def SubscriptionByID_def wp_simps split: option.splits dest!: find_SomeD)

lemma keeps_bnd_lock:
  assumes "\<And>m. keeps sub_ok (is_row m) (k m)"
  shows "keeps sub_ok pre (bnd (lockOwned i owner) k)"
proof (rule keepsI, unfold wp_bnd lockOwned_def)
  fix w :: "(sub_db, hook_key, notice) tx_world" and s
  assume "sub_ok s (tables w)"
  then show "wp (loadSub i owner) (\<lambda>a. wp (k a) (\<lambda>_ u. sub_ok s (tables u)) (\<lambda>_ u. sub_ok s (tables u)))
      (\<lambda>_ u. sub_ok s (tables u)) w"
    by (intro wp_loadSub keepsD [OF assms]) (simp_all add: is_row_def)
qed

lemma keeps_open: "sr_closed m = None \<Longrightarrow> keeps sub_ok (is_open m) n \<Longrightarrow> keeps sub_ok (is_row m) n"
  by (simp add: keeps_def is_open_def is_row_def)

lemma not_ended: "state_of m now \<noteq> StateEnded \<Longrightarrow> sr_closed m = None"
  by (auto simp: StateAt_def split: if_splits)

lemma keeps_bnd_open:
  "(sr_closed m = None \<Longrightarrow> keeps sub_ok (is_open m) (k ())) \<Longrightarrow>
   keeps sub_ok (is_row m) (bnd (require (state_of m now \<noteq> StateEnded) e) k)"
  by (intro keeps_bnd_require keeps_open) (auto dest: not_ended)

lemmas locked_intros = keeps_bnd_lock keeps_bnd_open keeps_bnd_lift keeps_bnd_require keeps_bnd [OF keeps_transition]

lemma keeps_Renew [keeps_intros]: "keeps sub_ok pre (Renew D P gen now c i)"
  unfolding Renew_def renew_body_def
  by (intro keeps_bnd [OF keeps_lift] keeps_bnd [OF keeps_require] keeps_sub_Do keeps_bnd_lock keeps_bnd_open
        keeps_bnd_lift keeps_bnd_require keeps_let keeps_prod keeps_bnd [OF keeps_transition])
    (intro keeps_intros)+

lemma keeps_stack_quota [keeps_intros]: "keeps sub_ok pre (stack_quota gen m v now)"
  unfolding stack_quota_def by (intro keeps_intros stmt_intros) (simp_all add: same_key_def quota_key_def)

lemma keeps_Stack [keeps_intros]: "keeps sub_ok pre (Stack D P gen wall now c i)"
  unfolding Stack_def stack_body_def
  by (intro keeps_bnd [OF keeps_lift] keeps_bnd [OF keeps_require] keeps_sub_Do keeps_bnd_lock keeps_bnd_open
        keeps_bnd_lift keeps_bnd_require keeps_let keeps_bnd [OF keeps_transition])
    (intro keeps_intros)+

lemma keeps_extend_quotas [keeps_intros]:
  "keeps sub_ok pre (extend_quotas prev now t_end rescued lapsed days cycle rows prorated reset)"
proof (induction rows arbitrary: prorated reset pre)
  case Nil
  show ?case by (simp add: keeps_ret)
next
  case (Cons q rows)
  show ?case
    unfolding extend_quotas.simps
    by (intro keeps_if keeps_let keeps_bnd keeps_repo stmt_UpdateQuota Cons.IH) (simp_all add: same_key_def quota_key_def)
qed

lemma keeps_Extend [keeps_intros]: "keeps sub_ok pre (Extend D now c i)"
  unfolding Extend_def extend_body_def
  by (intro keeps_bnd [OF keeps_lift] keeps_bnd [OF keeps_require] keeps_if keeps_fail keeps_sub_Do keeps_bnd_lock
        keeps_bnd_open keeps_let keeps_prod keeps_bnd [OF keeps_transition])
    (intro keeps_intros stmt_intros)+

lemma keeps_ChangePlan [keeps_intros]: "keeps sub_ok pre (ChangePlan D P gen now c i)"
  unfolding ChangePlan_def change_body_def
  by (intro keeps_bnd [OF keeps_lift] keeps_bnd [OF keeps_require] keeps_sub_Do keeps_bnd_lock keeps_bnd_open
        keeps_let keeps_bnd [OF keeps_transition])
    (intro keeps_intros)+

lemma keeps_ResetTraffic [keeps_intros]: "keeps sub_ok pre (ResetTraffic now c i)"
  unfolding ResetTraffic_def reset_body_def
  by (intro keeps_bnd keeps_if keeps_sub_Do keeps_bnd_lock keeps_let keeps_for_each keeps_repo stmt_intros
        keeps_lift keeps_require keeps_ret keeps_fail keeps_logResets keeps_notices)
    (simp_all add: same_key_def quota_key_def)

lemma keeps_GrantBonus [keeps_intros]: "keeps sub_ok pre (GrantBonus P now now2 c i)"
  unfolding GrantBonus_def bonus_body_def
  by (intro keeps_bnd keeps_if keeps_sub_Do keeps_bnd_lock keeps_let keeps_option keeps_repo stmt_intros
        keeps_lift keeps_require keeps_ret keeps_fail keeps_notices)

lemma keeps_ChargeTraffic [keeps_intros]: "keeps sub_ok pre (ChargeTraffic site now c charges)"
  unfolding ChargeTraffic_def by (intro keeps_intros stmt_intros)

lemma keeps_loadSub [keeps_intros]: "keeps sub_ok pre (loadSub i owner)" "keeps sub_ok pre (lockOwned i owner)"
  unfolding lockOwned_def loadSub_def by (intro keeps_intros stmt_intros)+

lemma keeps_rejectDeletedOwner [keeps_intros]: "keeps sub_ok pre (rejectDeletedOwner P i)"
  unfolding rejectDeletedOwner_def by (intro keeps_intros)

lemma keeps_bnd_lockForAdmin:
  "(\<And>m. keeps sub_ok (is_row m) (k m)) \<Longrightarrow> keeps sub_ok pre (bnd (lockForAdmin P i) k)"
  unfolding lockForAdmin_def bnd_assoc by (intro keeps_bnd keeps_rejectDeletedOwner keeps_bnd_lock)

section \<open>The administrator and the jobs\<close>

lemma keeps_AdminExtend [keeps_intros]: "keeps sub_ok pre (AdminExtend D P now c i days reason)"
  unfolding AdminExtend_def by (intro keeps_intros)

lemma keeps_AdminGrantTraffic [keeps_intros]: "keeps sub_ok pre (AdminGrantTraffic P now now2 c i bytes reason)"
  unfolding AdminGrantTraffic_def
  by (intro keeps_bnd [OF keeps_lift] keeps_bnd [OF keeps_require] keeps_sub_Do keeps_bnd_lockForAdmin) (intro keeps_intros)

lemma keeps_AdminResetTraffic [keeps_intros]: "keeps sub_ok pre (AdminResetTraffic P now c i note)"
  unfolding AdminResetTraffic_def
  by (intro keeps_bnd [OF keeps_lift] keeps_sub_Do keeps_bnd_lockForAdmin) (intro keeps_intros)

lemma keeps_AdminSetDeviceLimit [keeps_intros]: "keeps sub_ok pre (AdminSetDeviceLimit D P c i limit)"
  unfolding AdminSetDeviceLimit_def
  by (intro keeps_bnd [OF keeps_lift] keeps_bnd [OF keeps_require] keeps_sub_Do keeps_bnd_lockForAdmin keeps_bnd keeps_repo
        stmt_UpdateSubscription_core keeps_require keeps_notices keeps_writeAudit)
    (simp add: with_cols_def sub_core_def)

lemma live_open: "state_of m now = StateLive \<Longrightarrow> sr_closed m = None"
  by (auto simp: StateAt_def split: if_splits)

lemma keeps_set_end_quota [keeps_intros]: "keeps sub_ok pre (set_end_quota prev t_end q)"
  unfolding set_end_quota_def by (intro keeps_intros stmt_intros) (simp add: same_key_def quota_key_def)

lemma keeps_AdminSetPeriodEnd [keeps_intros]: "keeps sub_ok pre (AdminSetPeriodEnd D P now c i t_end reason)"
  unfolding AdminSetPeriodEnd_def
  by (intro keeps_bnd [OF keeps_lift] keeps_let keeps_sub_Do keeps_bnd_lockForAdmin keeps_bnd_require
        keeps_open [OF live_open] keeps_bnd [OF keeps_repo_call [OF stmt_UpdateSubscription]])
    (assumption | intro keeps_intros stmt_intros)+

lemma keeps_AdminSetQuotaLimit [keeps_intros]: "keeps sub_ok pre (AdminSetQuotaLimit P now c i metric period limit reason)"
  unfolding AdminSetQuotaLimit_def
  by (intro keeps_bnd keeps_sub_Do keeps_bnd_lockForAdmin keeps_option keeps_repo stmt_intros keeps_lift keeps_require
        keeps_fail keeps_notices keeps_writeEvent keeps_writeAudit)
    (simp add: same_key_def quota_key_def)

text \<open>An update conditional on the status \<open>active\<close> meets open subscriptions only.\<close>

lemma stmt_UpdateSubscription_active [stmt_intros]: "stmt pre (UpdateSubscription D i StatusActive cols to)"
  unfolding UpdateSubscription_def by (intro stmt_intros stmt_update_subs) (auto dest: open_if_active)

lemma keeps_transition_active: "sr_status m = StatusActive \<Longrightarrow> keeps sub_ok pre (transition D c m to cols)"
  unfolding transition_def by (simp only:) (intro keeps_intros stmt_intros)

lemma keeps_lock_all [keeps_intros]: "keeps sub_ok pre (lock_all u rs)"
  by (induction rs arbitrary: pre) (auto intro!: keeps_intros)

lemma keeps_CloseUserSubscriptions [keeps_intros]: "keeps sub_ok pre (CloseUserSubscriptions D P now c u reason)"
  unfolding CloseUserSubscriptions_def expire_for_deletion_def Let_def
  by (intro keeps_sub_Do keeps_bnd keeps_if keeps_for_each keeps_repo stmt_intros keeps_lock_all
        keeps_transition_active keeps_writeEvent keeps_notices keeps_audit_Write keeps_ret)
    simp

lemma keeps_on_subs_frame:
  assumes "\<And>s. subs (f s) = subs s" "\<And>s. quotas (f s) = quotas s" "\<And>s. events (f s) = events s"
    "\<And>s. resets (f s) = resets s" "\<And>s. audits (f s) = audits s"
  shows "keeps sub_ok pre (on_subs (modify f) :: unit sub_eff)"
  by (simp add: keeps_def on_subs_def wp_simps sub_ok_def sub_inv_def sub_later_def assms)

lemma keeps_emitExpired [keeps_intros]: "keeps sub_ok pre (emitExpired P rows changed)"
  unfolding emitExpired_def Emit_def by (intro keeps_intros keeps_on_subs_frame) simp_all

lemma keeps_expireBatch [keeps_intros]: "keeps sub_ok pre (expireBatch P now c)"
  unfolding expireBatch_def by (intro keeps_intros stmt_intros)

lemma keeps_closeBatch [keeps_intros]: "keeps sub_ok pre (closeBatch P now c)"
  unfolding closeBatch_def by (intro keeps_intros stmt_intros)

lemma keeps_expire_loop [keeps_intros]: "keeps sub_ok pre (expire_loop P now c n st)"
  by (induction n arbitrary: st pre) (auto simp: Let_def intro!: keeps_intros)

lemma keeps_close_loop [keeps_intros]: "keeps sub_ok pre (close_loop P now c n st)"
  by (induction n arbitrary: st pre) (auto simp: Let_def intro!: keeps_intros)

lemma keeps_ExpireDue [keeps_intros]: "keeps sub_ok pre (ExpireDue P now c)"
  unfolding ExpireDue_def by (intro keeps_intros)

section \<open>The quota roll\<close>

text \<open>Statements that leave the subscriptions alone pass on what is known of them.\<close>

definition subs_frame :: "(err, sub_db, 'a) eff \<Rightarrow> bool" where
  "subs_frame m \<longleftrightarrow> (\<forall>s. wp m (\<lambda>_ t. subs t = subs s) (\<lambda>_ _. True) s)"

lemma keeps_bnd_frame:
  assumes "stmt always m" and "subs_frame m" and "\<And>a. keeps sub_ok (\<lambda>s. R (subs s)) (k a)"
  shows "keeps sub_ok (\<lambda>s. R (subs s)) (bnd (repo_call m) k)"
proof (rule keepsI, unfold wp_bnd)
  fix w :: "(sub_db, hook_key, notice) tx_world" and s
  assume K: "sub_ok s (tables w)" and R: "R (subs (tables w))"
  have "wp (repo_call m) (\<lambda>_ u. subs (tables u) = subs (tables w)) (\<lambda>_ _. True) w"
    using assms(2) by (simp add: subs_frame_def repo_call_def on_subs_def wp_simps)
  from wp_conj [OF keepsD [OF keeps_repo [OF assms(1)] K] this]
  show "wp (repo_call m) (\<lambda>a. wp (k a) (\<lambda>_ u. sub_ok s (tables u)) (\<lambda>_ u. sub_ok s (tables u))) (\<lambda>_ u. sub_ok s (tables u)) w"
    by (rule wp_mono) (use R in \<open>auto intro!: keepsD [OF assms(3)]\<close>)
qed

lemma frame_ApplyQuotaRolls: "subs_frame (ApplyQuotaRolls rolls)"
  by (simp add: subs_frame_def ApplyQuotaRolls_def update_quotas_def sub_mapped_def wp_simps)

lemma frame_InsertResetLogs: "subs_frame (InsertResetLogs rows)"
proof -
  have "wp (for_each rows insert_reset) (\<lambda>_ t. subs t = subs s) (\<lambda>_ _. True) s" for s
    by (rule wp_for_each) (simp_all add: insert_reset_def wp_simps)
  then show ?thesis by (simp add: subs_frame_def InsertResetLogs_def sub_mapped_def wp_simps)
qed

definition open_in :: "uuid set \<Rightarrow> sub_row list \<Rightarrow> bool" where
  "open_in ids rs \<longleftrightarrow> (\<forall>r \<in> set rs. sr_id r \<in> ids \<longrightarrow> sr_closed r = None)"

lemma map_filter_subset: "(\<And>x y. x \<in> set xs \<Longrightarrow> f x = Some y \<Longrightarrow> y \<in> A) \<Longrightarrow> set (List.map_filter f xs) \<subseteq> A"
  by (auto simp: List.map_filter_def)

lemma cycle_switches_subset: "fst ` set (cycle_switches targets cs) \<subseteq> rc_sub ` set cs"
proof -
  have "fst ` set (fold (\<lambda>c sw. case targets (rc_sub c) of None \<Rightarrow> sw
      | Some t \<Rightarrow> if t \<noteq> uuid_Nil \<and> t \<noteq> rc_version c \<and> rc_sub c \<notin> fst ` set sw then sw @ [(rc_sub c, c)] else sw) xs sw)
    \<subseteq> fst ` set sw \<union> rc_sub ` set xs" for xs sw
    by (induction xs arbitrary: sw) (force split: option.splits if_splits)+
  from this [of "cycle_rows cs" "[]"] show ?thesis by (auto simp: cycle_switches_def cycle_rows_def)
qed

lemma due_open:
  assumes "sub_inv s" and "c \<in> set (take n (List.map_filter (due_roll G now (subs s)) qs))"
    and "r \<in> set (subs s)" "sr_id r = rc_sub c"
  shows "sr_closed r = None"
proof -
  from assms(2) obtain q where "due_roll G now (subs s) q = Some c"
    by (auto simp: List.map_filter_def dest!: in_set_takeD)
  then obtain r' where r': "r' \<in> set (subs s)" "sr_id r' = rc_sub c" "sr_status r' = StatusActive"
    by (auto simp: due_roll_def quotaRollDueWhere_def split: option.splits if_splits dest!: find_SomeD)
  then have "r = r'" using assms distinct_map_inj [of sr_id "subs s" r r'] by (simp add: sub_inv_def)
  with r' assms(1) show ?thesis by (auto intro: open_if_active)
qed

lemma keeps_switch:
  assumes "vs_sub ` set sw \<subseteq> ids"
  shows "keeps sub_ok (\<lambda>s. open_in ids (subs s)) (repo_call (SwitchPlanVersions sw))"
  by (rule keeps_repo_call, rule stmt_SwitchPlanVersions) (use assms in \<open>auto simp: open_in_def\<close>)

text \<open>The part of \<open>rollBatch\<close> after the plans: it switches versions of candidates only.\<close>

lemma switches_of_candidates:
  fixes rolled targets cands
  defines "byID \<equiv> map_of (map (\<lambda>x. (rc_id x, x)) cands)"
  shows "vs_sub ` set (List.map_filter (\<lambda>(i, x). map_option (\<lambda>t. \<lparr>vs_sub = i, vs_from = rc_version x, vs_to = t\<rparr>) (targets i))
      (cycle_switches targets (List.map_filter (\<lambda>r. byID (rq_id r)) rolled))) \<subseteq> rc_sub ` set cands"
proof -
  let ?cs = "List.map_filter (\<lambda>r. byID (rq_id r)) rolled"
  have "set ?cs \<subseteq> set cands" by (rule map_filter_subset) (auto simp: byID_def dest: map_of_SomeD)
  moreover have "vs_sub ` set (List.map_filter (\<lambda>(i, x). map_option (\<lambda>t. \<lparr>vs_sub = i, vs_from = rc_version x, vs_to = t\<rparr>) (targets i)) sw)
      \<subseteq> fst ` set sw" for sw :: "(uuid \<times> roll_candidate) list"
    by (force simp: List.map_filter_def)
  ultimately show ?thesis using cycle_switches_subset [of targets ?cs] by blast
qed

lemma keeps_bnd_candidates:
  assumes "\<And>cands. keeps sub_ok (\<lambda>s. open_in (rc_sub ` set cands) (subs s)) (k cands)"
  shows "keeps sub_ok pre (bnd (repo_call (LockDueQuotaRolls G now n)) k)"
proof (rule keepsI)
  fix w :: "(sub_db, hook_key, notice) tx_world" and s
  assume K: "sub_ok s (tables w)"
  then have "sub_inv (tables w)" by (simp add: sub_ok_def)
  then have "open_in (rc_sub ` set (take n (List.map_filter (due_roll G now (subs (tables w))) (sort_key qr_id (quotas (tables w))))))
      (subs (tables w))"
    unfolding open_in_def by (auto intro: due_open)
  then show "wp (bnd (repo_call (LockDueQuotaRolls G now n)) k) (\<lambda>_ u. sub_ok s (tables u)) (\<lambda>_ u. sub_ok s (tables u)) w"
    using K by (simp add: LockDueQuotaRolls_def repo_call_def on_subs_def wp_simps keepsD [OF assms])
qed

lemma keeps_rollBatch [keeps_intros]: "keeps sub_ok pre (rollBatch G P now c)"
  unfolding rollBatch_def Let_def
  by (intro keeps_sub_Do keeps_bnd_candidates keeps_if keeps_ret keeps_bnd_lift keeps_prod keeps_bnd_require
        keeps_bnd_frame [where R = "open_in A" for A] stmt_intros frame_ApplyQuotaRolls frame_InsertResetLogs
        keeps_bnd [OF keeps_switch [OF switches_of_candidates]] keeps_bnd keeps_for_each keeps_option keeps_notices)

lemma keeps_rollPass [keeps_intros]: "keeps sub_ok pre (rollPass G P now c n st)"
  by (induction n arbitrary: st pre) (auto simp: Let_def intro!: keeps_intros)

lemma keeps_RollQuotas [keeps_intros]: "keeps sub_ok pre (RollQuotas G P now c)"
  unfolding RollQuotas_def by (intro keeps_intros stmt_intros)

end
