(* ===== verification/Sub_Theorems.thy ===== *)
theory Sub_Theorems
  imports Sub_Facts
begin

text \<open>
  The properties of the subscription module: what holds over any sequence of its operations, what an operation does
  to the tables, and where a computation ends.
\<close>

section \<open>Runs\<close>

text \<open>One call of an operation by any caller, in or outside a transaction, successful or not.\<close>

inductive sub_step :: "decimal_pkg \<Rightarrow> pg \<Rightarrow> ports \<Rightarrow> (nat \<Rightarrow> uuid) \<Rightarrow> sub_db \<Rightarrow> sub_db \<Rightarrow> bool" for D G P gen where
  renew: "Renew D P gen now c i w = (r, w') \<Longrightarrow> sub_step D G P gen (tables w) (tables w')"
| stack: "Stack D P gen wall now c j w = (r, w') \<Longrightarrow> sub_step D G P gen (tables w) (tables w')"
| extend: "Extend D now c e w = (x, w') \<Longrightarrow> sub_step D G P gen (tables w) (tables w')"
| change: "ChangePlan D P gen now c k w = (p, w') \<Longrightarrow> sub_step D G P gen (tables w) (tables w')"
| reset: "ResetTraffic now c t w = (n, w') \<Longrightarrow> sub_step D G P gen (tables w) (tables w')"
| bonus: "GrantBonus P now now2 c b w = (n, w') \<Longrightarrow> sub_step D G P gen (tables w) (tables w')"
| charge: "ChargeTraffic site now c charges w = (m, w') \<Longrightarrow> sub_step D G P gen (tables w) (tables w')"
| roll: "RollQuotas G P now c w = (st, w') \<Longrightarrow> sub_step D G P gen (tables w) (tables w')"
| expire: "ExpireDue P now c w = (xs, w') \<Longrightarrow> sub_step D G P gen (tables w) (tables w')"
| close: "CloseUserSubscriptions D P now c u reason w = (q, w') \<Longrightarrow> sub_step D G P gen (tables w) (tables w')"
| admin_extend: "AdminExtend D P now c i_d days reason w = (ae, w') \<Longrightarrow> sub_step D G P gen (tables w) (tables w')"
| admin_grant: "AdminGrantTraffic P now now2 c i_d bytes reason w = (ag, w') \<Longrightarrow> sub_step D G P gen (tables w) (tables w')"
| admin_reset: "AdminResetTraffic P now c i_d note w = (n, w') \<Longrightarrow> sub_step D G P gen (tables w) (tables w')"
| admin_devices: "AdminSetDeviceLimit D P c i_d limit w = (v, w') \<Longrightarrow> sub_step D G P gen (tables w) (tables w')"
| admin_end: "AdminSetPeriodEnd D P now c i_d t_end reason w = (se, w') \<Longrightarrow> sub_step D G P gen (tables w) (tables w')"
| admin_limit: "AdminSetQuotaLimit P now c i_d metric period limit reason w = (v, w') \<Longrightarrow> sub_step D G P gen (tables w) (tables w')"

lemma keeps_step:
  assumes "keeps sub_ok always m" and "m w = (r, w')" and "sub_inv (tables w)"
  shows "sub_ok (tables w) (tables w')"
  using keepsD [OF assms(1) sub_ok_refl [OF assms(3)]] assms(2) by (auto simp: wp_def split: sum.splits)

lemma sub_step_ok: "sub_step D G P gen s t \<Longrightarrow> sub_inv s \<Longrightarrow> sub_ok s t"
  by (induction rule: sub_step.induct) (erule keeps_step [rotated], assumption, rule keeps_intros)+

interpretation subs: monotone_machine "sub_step D G P gen" sub_inv sub_later for D G P gen
proof
  fix s t u
  show "sub_inv s \<Longrightarrow> sub_step D G P gen s t \<Longrightarrow> sub_inv t"
    by (drule sub_step_ok) (simp_all add: sub_ok_def)
  show "sub_later s s" by (rule sub_later_refl)
  show "sub_later s t \<Longrightarrow> sub_later t u \<Longrightarrow> sub_later s u" by (rule sub_later_trans)
  show "sub_inv s \<Longrightarrow> sub_step D G P gen s t \<Longrightarrow> sub_later s t"
    by (drule sub_step_ok) (simp_all add: sub_ok_def)
qed

text \<open>
  C19. A subscription whose renewal window is closed is final: no operation ever renews, extends, moves to another plan or
  reopens it, and the record of what happened (events, resets, audit) only grows at its end.
\<close>

theorem closed_is_final:
  assumes "(sub_step D G P gen)\<^sup>*\<^sup>* s t" and "sub_inv s" and "r \<in> set (subs s)" and "sr_closed r \<noteq> None"
  shows "(\<exists>r' \<in> set (subs t). sub_core r' = sub_core r) \<and> prefix (events s) (events t) \<and> prefix (resets s) (resets t) \<and>
    prefix (audits s) (audits t)"
  using subs.run_later [OF assms(1,2)] assms(3,4) by (fastforce simp: sub_later_def closed_kept_def)

section \<open>Example tables\<close>

definition utc_pg :: pg where
  "utc_pg = \<lparr>pg_lower = id, pg_label_ok = (\<lambda>_. True), pg_plus = (\<lambda>t i.
     if i = ''1 day'' then t + day_ns else if i = ''1 day 1 hour'' then t + 25 * hour_ns
     else if i = ''1 month'' then AddDate 0 1 0 t else AddDate 0 1 4 t)\<rparr>"

text \<open>1 January 2026; a monthly subscription to the end of the month, and one closed in 2025.\<close>

abbreviation jan1 :: time where "jan1 \<equiv> 1767225600000000000"

definition a_sub :: sub_row where
  "a_sub = \<lparr>sr_id = 1, sr_user = 10, sr_plan = 20, sr_version = 21, sr_price = None, sr_status = StatusActive,
     sr_start = jan1, sr_end = jan1 + 31 * day_ns, sr_closed = None, sr_amount = 10, sr_interval = ''month'', sr_count = 1,
     sr_device_limit = None, sr_label = None, sr_proxy = 31, sr_node_uid = 41, sr_order = None\<rparr>"

definition a_closed_sub :: sub_row where
  "a_closed_sub = a_sub\<lparr>sr_id := 2, sr_status := StatusExpired, sr_start := jan1 - 100 * day_ns, sr_end := jan1 - 70 * day_ns,
     sr_closed := Some (jan1 - 40 * day_ns), sr_proxy := 32, sr_node_uid := 42\<rparr>"

definition a_quota :: quota_row where
  "a_quota = \<lparr>qr_id = 5, qr_sub = 1, qr_metric = MetricTraffic, qr_period = PeriodCycle, qr_start = jan1,
     qr_end = Some (jan1 + 31 * day_ns), qr_limit = Some 1000, qr_bonus = 0, qr_consumed = 400\<rparr>"

definition a_sub_db :: sub_db where
  "a_sub_db = \<lparr>fk_users = [10], fk_versions = [(20, 21)], fk_prices = [], fk_orders = [], subs = [a_sub, a_closed_sub],
     quotas = [a_quota], events = [], resets = [], usage = [], creds = [], audits = [], emitted = [], s_drawn = 0, node_seq = 42\<rparr>"

definition a_world :: "(sub_db, hook_key, notice) tx_world" where
  "a_world = \<lparr>tables = a_sub_db, tx_keys = [], tx_hooks = [], fired = []\<rparr>"

lemmas example_defs = a_sub_db_def a_sub_def a_closed_sub_def a_quota_def

lemma a_sub_db_inv: "sub_inv a_sub_db"
  by (simp add: sub_inv_def example_defs sub_checks_def ValidInterval_def quota_ok_def quota_checks_def remaining_fits_def
      quota_key_def in_int64_def max_int64_def min_int64_def) code_simp

section \<open>Giving traffic\<close>

lemma key_row: "distinct (map qr_id qs) \<Longrightarrow> q \<in> set qs \<Longrightarrow> x \<in> set qs \<Longrightarrow> qr_id x = qr_id q \<longleftrightarrow> x = q"
  by (auto dest: distinct_map_inj)

lemma update_quotas_key:
  assumes "sub_inv s" and "q \<in> set (quotas s)"
  shows "update_quotas (\<lambda>x. qr_id x = qr_id q) f s =
    (if \<not> (pred_option in_int64 (qr_limit (f q)) \<and> remaining_fits (f q)) then (Inl (PgError CodeNumeric ''''), s)
     else if \<not> quota_checks (f q) then (Inl (sub_mapErr (PgError CodeCheck '''')), s)
     else (Inr 1, s\<lparr>quotas := update_rows (\<lambda>x. x = q) f (quotas s)\<rparr>))"
proof -
  have d: "distinct (map qr_id (quotas s))" using assms(1) by (simp add: sub_inv_def)
  have all: "list_all (\<lambda>x. qr_id x = qr_id q \<longrightarrow> R x) (quotas s) \<longleftrightarrow> R q" for R
    using assms(2) key_row [OF d assms(2)] by (auto simp: list_all_iff)
  have upd: "update_rows (\<lambda>x. qr_id x = qr_id q) f (quotas s) = update_rows (\<lambda>x. x = q) f (quotas s)"
    using key_row [OF d assms(2)] by (simp add: update_rows_def)
  have "rows_affected (\<lambda>x. qr_id x = qr_id q) (quotas s) = 1" using assms(2) by (simp add: rows_affected_key [OF d])
  moreover have "sub_mapErr (PgError CodeNumeric '''') = PgError CodeNumeric ''''"
    by (simp add: sub_mapErr_def ConstraintErrors_Map_def AsViolation_def)
  ultimately show ?thesis
    unfolding update_quotas_def sub_mapped_def all upd by (simp add: handle_def atomic_def eff_simps all upd)
qed



section \<open>A run\<close>

definition no_ports :: ports where
  "no_ports = \<lparr>PlansByIDs = (\<lambda>_. Inr Map.empty), VersionsByIDs = (\<lambda>_. Inr Map.empty), IsDeleted = (\<lambda>_. Inr False),
     Emails = (\<lambda>_. Inr Map.empty), audit_refuses = (\<lambda>_. None), emitter = None\<rparr>"

definition system_ctx :: ctx where
  "system_ctx = \<lparr>ctx_principal = None, ctx_in_tx = False\<rparr>"

text \<open>The expiry scan of 1 March 2026, which expires the first subscription.\<close>

definition scanned :: "(sub_db, hook_key, notice) tx_world" where
  "scanned = snd (ExpireDue no_ports (jan1 + 59 * day_ns) system_ctx a_world)"

lemma scanned_step: "sub_step D utc_pg no_ports gen a_sub_db (tables scanned)"
  using sub_step.expire [of no_ports "jan1 + 59 * day_ns" system_ctx a_world "fst (ExpireDue no_ports (jan1 + 59 * day_ns) system_ctx a_world)"
      scanned D utc_pg gen]
  by (simp add: scanned_def a_world_def)

lemma scanned_run: "(sub_step D utc_pg no_ports gen)\<^sup>*\<^sup>* a_sub_db (tables scanned)"
  by (rule r_into_rtranclp, rule scanned_step)

lemma scanned_expired: "map sr_status (subs (tables scanned)) = [StatusExpired, StatusExpired] \<and> length (events (tables scanned)) = 1"
  by code_simp

theorem closed_is_final_witness:
  "(\<exists>r' \<in> set (subs (tables scanned)). sub_core r' = sub_core a_closed_sub) \<and> length (events (tables scanned)) = 1"
  using closed_is_final [OF scanned_run [of exact_decimal id] a_sub_db_inv, of a_closed_sub] scanned_expired
  by (simp add: example_defs)

section \<open>Rolling and choosing\<close>

text \<open>
  Planning a roll always returns: for every quota row that the job locks on consistent tables, and whatever the catalog
  says, the new window is computed in finitely many steps.
\<close>

theorem planRoll_returns:
  assumes "sub_inv s" and "LockDueQuotaRolls G now n s = (Inr cands, t)" and "c \<in> set cands"
  shows "planRoll c now versions targets \<noteq> None"
proof -
  obtain q where "due_roll G now (subs s) q = Some c"
    using assms(2,3) by (auto simp: LockDueQuotaRolls_def eff_simps List.map_filter_def dest!: in_set_takeD)
  then obtain r where r: "r \<in> set (subs s)" "rc_count c = sr_count r" and due: "rc_period c = PeriodCycle \<longrightarrow> rc_end c < rc_sub_end c"
    by (auto simp: due_roll_def quotaRollDueWhere_def split: option.splits if_splits dest!: find_SomeD)
  then have "rc_count c \<le> 32767" using assms(1) by (auto simp: sub_inv_def)
  then have "rc_period c = PeriodCycle \<longrightarrow> (\<exists>w. cycleRollWindow (rc_end c) (rc_sub_end c) now (rc_interval c) (rc_count c) = Some w)"
    using due cycleRollWindow_total by blast
  then show ?thesis by (auto simp: planRoll_def)
qed

text \<open>The subscription renewed to the end of February, on 1 February.\<close>

definition due_db :: sub_db where
  "due_db = a_sub_db\<lparr>subs := [a_sub\<lparr>sr_end := jan1 + 59 * day_ns\<rparr>]\<rparr>"

definition due_cands :: "roll_candidate list" where
  "due_cands = (case fst (LockDueQuotaRolls utc_pg (jan1 + 31 * day_ns) 500 due_db) of Inr cs \<Rightarrow> cs | Inl _ \<Rightarrow> [])"

lemma due_db_inv: "sub_inv due_db"
  using a_sub_db_inv by (simp add: due_db_def sub_inv_def example_defs sub_checks_def)

lemma due_cands: "LockDueQuotaRolls utc_pg (jan1 + 31 * day_ns) 500 due_db = (Inr due_cands, due_db)"
  by (simp add: due_cands_def LockDueQuotaRolls_def eff_simps)

lemma due_cands_one: "map rc_id due_cands = [5]"
  by code_simp

lemma due_cands_ne: "due_cands \<noteq> []"
  using due_cands_one by auto

theorem planRoll_returns_witness:
  "map rc_id due_cands = [5] \<and> planRoll (hd due_cands) (jan1 + 31 * day_ns) Map.empty Map.empty \<noteq> None"
  using planRoll_returns [OF due_db_inv due_cands hd_in_set [OF due_cands_ne], of Map.empty Map.empty] due_cands_one by blast

text \<open>\<open>betterCurrent\<close> is a lexicographic order.\<close>

definition lex_better :: "bool \<times> int \<times> int \<Rightarrow> bool \<times> int \<times> int \<Rightarrow> bool" where
  "lex_better x y = (case (x, y) of ((l, e, c), (l', e', c')) \<Rightarrow> l \<and> \<not> l' \<or> l = l' \<and> (e > e' \<or> e = e' \<and> c > c'))"

definition rank :: "summary \<Rightarrow> bool \<times> int \<times> int" where
  "rank s = (sm_state s = StateLive, sm_end s, sm_created s)"

lemma betterCurrent_rank: "betterCurrent a b = lex_better (rank a) (rank b)"
  by (simp add: betterCurrent_def lex_better_def rank_def Let_def)

lemma lex_better_cotrans: "lex_better x z \<Longrightarrow> \<not> lex_better y z \<Longrightarrow> lex_better x y"
  by (cases x; cases y; cases z) (auto simp: lex_better_def)

lemma lex_better_asym: "lex_better x y \<Longrightarrow> \<not> lex_better y x"
  by (cases x; cases y) (auto simp: lex_better_def)

lemmas betterCurrent_cotrans = lex_better_cotrans [of "rank a" "rank c" "rank b" for a b c, folded betterCurrent_rank]
lemmas betterCurrent_asym = lex_better_asym [of "rank a" "rank b" for a b, folded betterCurrent_rank]

text \<open>The best so far: nothing is better, and everything before it is worse.\<close>

definition best_at :: "summary list \<Rightarrow> nat \<Rightarrow> bool" where
  "best_at xs i \<longleftrightarrow> i < length xs \<and> (\<forall>k < length xs. \<not> betterCurrent (xs ! k) (xs ! i)) \<and> (\<forall>k < i. betterCurrent (xs ! i) (xs ! k))"

lemma best_at_snoc:
  assumes "best_at xs i"
  shows "best_at (xs @ [x]) (if betterCurrent x (xs ! i) then length xs else i)"
proof (cases "betterCurrent x (xs ! i)")
  case True
  have "betterCurrent x (xs ! k)" if "k < length xs" for k
    by (rule betterCurrent_cotrans [OF True]) (use assms that in \<open>simp add: best_at_def\<close>)
  then show ?thesis using True by (auto simp: best_at_def nth_append less_Suc_eq dest: betterCurrent_asym)
next
  case False
  then show ?thesis using assms by (auto simp: best_at_def nth_append less_Suc_eq)
qed

lemma current_from_best:
  "best_at pre j \<Longrightarrow> \<exists>i. current_from xs (length pre) (Some (j, pre ! j)) = Some (i, (pre @ xs) ! i) \<and> best_at (pre @ xs) i"
proof (induction xs arbitrary: pre j)
  case Nil
  then show ?case by auto
next
  case (Cons x xs)
  define j' where "j' = (if betterCurrent x (pre ! j) then length pre else j)"
  have "best_at (pre @ [x]) j'" unfolding j'_def using Cons.prems by (rule best_at_snoc)
  moreover have "current_from (x # xs) (length pre) (Some (j, pre ! j)) =
      current_from xs (length (pre @ [x])) (Some (j', (pre @ [x]) ! j'))"
    using Cons.prems by (auto simp: j'_def best_at_def nth_append)
  ultimately show ?case using Cons.IH [of "pre @ [x]" j'] by simp
qed

text \<open>What the two comparisons say of the order itself.\<close>

lemma best_order:
  assumes "\<not> betterCurrent b a" and "k < i \<Longrightarrow> betterCurrent a b"
  shows "(sm_state b = StateLive \<longrightarrow> sm_state a = StateLive) \<and>
    ((sm_state b = StateLive \<longleftrightarrow> sm_state a = StateLive) \<longrightarrow>
       sm_end b \<le> sm_end a \<and>
       (sm_end b = sm_end a \<longrightarrow> sm_created b \<le> sm_created a \<and> (sm_created b = sm_created a \<longrightarrow> i \<le> (k :: nat))))"
  using assms by (cases "k < i") (auto simp: betterCurrent_def Let_def split: if_splits)

text \<open>
  C21. The current subscription of a user comes first in the order that the code documents: a live one before any other,
  then the later end, then the later creation, and of equals the first in the list. There is none exactly for a user
  without subscriptions.
\<close>

theorem currentIndex_best:
  "(currentIndex xs = -1 \<longleftrightarrow> xs = []) \<and>
   (xs \<noteq> [] \<longrightarrow> (\<exists>i. currentIndex xs = int i \<and> i < length xs \<and> (\<forall>k < length xs.
      (sm_state (xs ! k) = StateLive \<longrightarrow> sm_state (xs ! i) = StateLive) \<and>
      ((sm_state (xs ! k) = StateLive \<longleftrightarrow> sm_state (xs ! i) = StateLive) \<longrightarrow>
         sm_end (xs ! k) \<le> sm_end (xs ! i) \<and>
         (sm_end (xs ! k) = sm_end (xs ! i) \<longrightarrow>
            sm_created (xs ! k) \<le> sm_created (xs ! i) \<and> (sm_created (xs ! k) = sm_created (xs ! i) \<longrightarrow> i \<le> k))))))"
proof (cases xs)
  case Nil
  then show ?thesis by (simp add: currentIndex_def)
next
  case (Cons x ys)
  have "best_at [x] 0" by (simp add: best_at_def betterCurrent_def)
  from current_from_best [OF this, of ys] Cons
  obtain i where i: "currentIndex xs = int i" "best_at xs i" by (auto simp: currentIndex_def)
  have "\<not> betterCurrent (xs ! k) (xs ! i)" "k < i \<Longrightarrow> betterCurrent (xs ! i) (xs ! k)" if "k < length xs" for k
    using i(2) that by (auto simp: best_at_def)
  note best_order [OF this]
  moreover have "i < length xs" using i(2) by (simp add: best_at_def)
  moreover have "xs \<noteq> []" "currentIndex xs \<noteq> -1" using Cons i(1) by simp_all
  ultimately show ?thesis using i(1) by blast
qed

text \<open>A live subscription, although another one ends later; of two live ones that end together, the one created later.\<close>

definition three_subs :: "summary list" where
  "three_subs = [\<lparr>sm_state = StateRevivable, sm_end = 9, sm_created = 1\<rparr>, \<lparr>sm_state = StateLive, sm_end = 5, sm_created = 2\<rparr>,
     \<lparr>sm_state = StateLive, sm_end = 5, sm_created = 3\<rparr>]"

theorem currentIndex_best_witness:
  "currentIndex three_subs = 2 \<and> (\<exists>i. currentIndex three_subs = int i \<and> sm_state (three_subs ! i) = StateLive \<and> sm_created (three_subs ! i) \<ge> 3)"
proof -
  have "currentIndex three_subs = 2" by code_simp
  moreover have "three_subs \<noteq> []" by (simp add: three_subs_def)
  ultimately obtain i where "currentIndex three_subs = int i" "i = 2" "i < length three_subs"
    using currentIndex_best [of three_subs] by auto
  then show ?thesis by (simp add: three_subs_def \<open>currentIndex three_subs = 2\<close>)
qed

section \<open>Charging traffic\<close>

text \<open>The room of a subscription: the least of its limited rows, \<open>None\<close> without one.\<close>

definition least_room :: "traffic_quota_row list \<Rightarrow> uuid \<Rightarrow> int option" where
  "least_room rows i =
     (let rs = List.map_filter tq_room (filter (\<lambda>row. tq_sub row = i) rows) in if rs = [] then None else Some (Min (set rs)))"

lemma room_step_other: "i \<noteq> tq_sub row \<Longrightarrow> room_of (room_step row out) i = room_of out i"
  by (simp add: room_of_def room_step_def Let_def split: option.splits)

lemma room_step_same:
  "room_of (room_step row out) (tq_sub row) =
     (case tq_room row of None \<Rightarrow> room_of out (tq_sub row)
      | Some r \<Rightarrow> (case room_of out (tq_sub row) of None \<Rightarrow> Some r | Some c \<Rightarrow> Some (min c r)))"
  by (simp add: room_of_def room_step_def Let_def min_def split: option.splits)

definition rooms_of :: "traffic_quota_row list \<Rightarrow> uuid \<Rightarrow> int list" where
  "rooms_of rows i = List.map_filter tq_room (filter (\<lambda>row. tq_sub row = i) rows)"

lemma rooms_of_snoc:
  "rooms_of (rows @ [row]) i =
     rooms_of rows i @ (if tq_sub row = i then (case tq_room row of None \<Rightarrow> [] | Some r \<Rightarrow> [r]) else [])"
  by (simp add: rooms_of_def List.map_filter_def split: option.split)

lemma least_room_rooms: "least_room rows i = (if rooms_of rows i = [] then None else Some (Min (set (rooms_of rows i))))"
  by (simp add: least_room_def rooms_of_def)

lemma least_room_snoc:
  "least_room (rows @ [row]) i =
     (if tq_sub row \<noteq> i then least_room rows i
      else case tq_room row of None \<Rightarrow> least_room rows i
           | Some r \<Rightarrow> (case least_room rows i of None \<Rightarrow> Some r | Some c \<Rightarrow> Some (min c r)))"
  unfolding least_room_rooms rooms_of_snoc
  by (auto simp: min.commute split: option.split)

lemma quotaRooms_least: "room_of (quotaRooms rows) i = least_room rows i"
proof (induction rows rule: rev_induct)
  case Nil
  show ?case by (simp add: quotaRooms_def room_of_def least_room_def List.map_filter_def)
next
  case (snoc row rows)
  have "quotaRooms (rows @ [row]) = room_step row (quotaRooms rows)" by (simp add: quotaRooms_def)
  then show ?case using snoc
    by (cases "i = tq_sub row") (auto simp: room_step_other room_step_same least_room_snoc split: option.split)
qed

lemma least_room_in: "least_room rows i = Some r \<Longrightarrow> \<exists>row \<in> set rows. tq_room row = Some r"
proof -
  assume r: "least_room rows i = Some r"
  then have "r \<in> set (rooms_of rows i)" using Min_in [of "set (rooms_of rows i)"] by (auto simp: least_room_rooms split: if_splits)
  then show ?thesis by (auto simp: rooms_of_def List.map_filter_def)
qed

definition exhausts :: "(uuid \<Rightarrow> int option) \<Rightarrow> charge_item \<Rightarrow> bool" where
  "exhausts room it = (case room (ci_sub it) of None \<Rightarrow> False | Some r \<Rightarrow> 0 < r \<and> r \<le> ci_bytes it)"

definition positive64 :: "charge_item \<Rightarrow> bool" where
  "positive64 it \<longleftrightarrow> 0 < ci_bytes it \<and> ci_bytes it \<le> max_int64"

lemma wrap64_after:
  assumes "0 < r" "r \<le> max_int64" "0 < b" "b \<le> max_int64"
  shows "wrap64 (r - b) = r - b"
  by (rule wrap64_id) (use assms in \<open>simp add: in_int64_def min_int64_def max_int64_def\<close>)

lemma satAdd_zero: "0 < b \<Longrightarrow> b \<le> max_int64 \<Longrightarrow> satAdd 0 b = b"
  by (simp add: satAdd_def wrap64_def max_int64_def)

lemma wrap64_le: "wrap64 n \<le> max_int64"
  using wrap64_in [of n] by (simp add: in_int64_def)

text \<open>A subscription without room is not exhausted again, whatever the difference wraps to.\<close>

lemma charge_one:
  assumes b: "0 < ci_bytes it" "ci_bytes it \<le> max_int64" and rooms: "\<forall>i r. room_of rooms i = Some r \<longrightarrow> r \<le> max_int64"
    and m: "m (ci_sub it) = None"
  shows "\<exists>rooms'. charge_step it (rooms, m, us, ex) =
      (rooms', m(ci_sub it \<mapsto> ci_bytes it), us @ [\<lparr>ua_sub = ci_sub it, ua_bytes = ci_bytes it\<rparr>],
       if exhausts (room_of rooms) it then ex @ [ci_sub it] else ex) \<and>
    (\<forall>j. j \<noteq> ci_sub it \<longrightarrow> room_of rooms' j = room_of rooms j) \<and> (\<forall>i r. room_of rooms' i = Some r \<longrightarrow> r \<le> max_int64)"
proof (cases "room_of rooms (ci_sub it)")
  case None
  then show ?thesis using b m rooms by (auto simp: charge_step_def Let_def exhausts_def amount_of_def satAdd_zero)
next
  case (Some r)
  let ?after = "wrap64 (r - ci_bytes it)"
  have "r > 0 \<and> ?after \<le> 0 \<longleftrightarrow> 0 < r \<and> r \<le> ci_bytes it" using wrap64_after [OF _ _ b, of r] rooms Some by auto
  moreover have "charge_step it (rooms, m, us, ex) =
      (rooms(ci_sub it \<mapsto> Some ?after), m(ci_sub it \<mapsto> ci_bytes it), us @ [\<lparr>ua_sub = ci_sub it, ua_bytes = ci_bytes it\<rparr>],
       if r > 0 \<and> ?after \<le> 0 then ex @ [ci_sub it] else ex)"
    using b m Some by (simp add: charge_step_def Let_def amount_of_def satAdd_zero)
  moreover have "\<forall>i x. room_of (rooms(ci_sub it \<mapsto> Some ?after)) i = Some x \<longrightarrow> x \<le> max_int64"
    using rooms wrap64_le by (auto simp: room_of_def)
  ultimately show ?thesis using Some by (auto simp: exhausts_def room_of_def)
qed

lemma charge_fold:
  assumes "distinct (map ci_sub items)" and "list_all positive64 items" and "\<forall>i r. room_of rooms i = Some r \<longrightarrow> r \<le> max_int64"
    and "\<forall>it \<in> set items. m (ci_sub it) = None"
  shows "\<exists>rooms'. fold charge_step items (rooms, m, us, ex) =
    (rooms', m ++ map_of (map (\<lambda>it. (ci_sub it, ci_bytes it)) items),
     us @ map (\<lambda>it. \<lparr>ua_sub = ci_sub it, ua_bytes = ci_bytes it\<rparr>) items,
     ex @ map ci_sub (filter (exhausts (room_of rooms)) items))"
  using assms
proof (induction items arbitrary: rooms m us ex)
  case Nil
  then show ?case by simp
next
  case (Cons it items)
  let ?i = "ci_sub it" and ?b = "ci_bytes it"
  have b: "0 < ?b" "?b \<le> max_int64" using Cons.prems(2) by (simp_all add: positive64_def)
  obtain rooms1 where step: "charge_step it (rooms, m, us, ex) =
      (rooms1, m(?i \<mapsto> ?b), us @ [\<lparr>ua_sub = ?i, ua_bytes = ?b\<rparr>], if exhausts (room_of rooms) it then ex @ [?i] else ex)"
    and other: "\<forall>j. j \<noteq> ?i \<longrightarrow> room_of rooms1 j = room_of rooms j" and bound: "\<forall>i r. room_of rooms1 i = Some r \<longrightarrow> r \<le> max_int64"
    using charge_one [of it rooms m us ex] b Cons.prems(3,4) by auto
  have room1: "filter (exhausts (room_of rooms1)) items = filter (exhausts (room_of rooms)) items"
  proof (rule filter_cong [OF refl])
    fix x
    assume "x \<in> set items"
    then have "ci_sub x \<noteq> ?i" using Cons.prems(1) by (metis distinct.simps(2) image_eqI list.simps(9) set_map)
    then show "exhausts (room_of rooms1) x = exhausts (room_of rooms) x" using other by (simp add: exhausts_def)
  qed
  have "map_of (map (\<lambda>it. (ci_sub it, ci_bytes it)) items) ?i = None"
    using Cons.prems(1) by (simp add: map_of_eq_None_iff image_image)
  then have maps: "m(?i \<mapsto> ?b) ++ map_of (map (\<lambda>it. (ci_sub it, ci_bytes it)) items) =
      m ++ map_of (map (\<lambda>it. (ci_sub it, ci_bytes it)) (it # items))"
    by (auto simp: fun_eq_iff map_add_def split: option.split)
  have "distinct (map ci_sub items)" "list_all positive64 items" "\<forall>x \<in> set items. (m(?i \<mapsto> ?b)) (ci_sub x) = None"
    using Cons.prems by (auto simp: rev_image_eqI)
  from Cons.IH [OF this(1,2) bound this(3), of "us @ [\<lparr>ua_sub = ?i, ua_bytes = ?b\<rparr>]" "if exhausts (room_of rooms) it then ex @ [?i] else ex"]
  obtain rooms' where fold: "fold charge_step items (rooms1, m(?i \<mapsto> ?b), us @ [\<lparr>ua_sub = ?i, ua_bytes = ?b\<rparr>],
        if exhausts (room_of rooms) it then ex @ [?i] else ex) =
      (rooms', m(?i \<mapsto> ?b) ++ map_of (map (\<lambda>it. (ci_sub it, ci_bytes it)) items),
       (us @ [\<lparr>ua_sub = ?i, ua_bytes = ?b\<rparr>]) @ map (\<lambda>it. \<lparr>ua_sub = ci_sub it, ua_bytes = ci_bytes it\<rparr>) items,
       (if exhausts (room_of rooms) it then ex @ [?i] else ex) @ map ci_sub (filter (exhausts (room_of rooms1)) items))"
    by (rule exE)
  have used: "(us @ [\<lparr>ua_sub = ?i, ua_bytes = ?b\<rparr>]) @ map (\<lambda>it. \<lparr>ua_sub = ci_sub it, ua_bytes = ci_bytes it\<rparr>) items =
      us @ map (\<lambda>it. \<lparr>ua_sub = ci_sub it, ua_bytes = ci_bytes it\<rparr>) (it # items)"
    by simp
  have exhausted: "(if exhausts (room_of rooms) it then ex @ [?i] else ex) @ map ci_sub (filter (exhausts (room_of rooms)) items) =
      ex @ map ci_sub (filter (exhausts (room_of rooms)) (it # items))"
    by simp
  show ?case
    by (rule exI [of _ rooms']) (simp only: fold_Cons comp_apply step fold maps room1 used exhausted)
qed

text \<open>
  C22. The plan of a batch of charges, one per subscription: every quota row of a charged subscription is charged exactly
  its bytes and no other row is, the usage of the day is the same bytes, and the subscriptions reported as exhausted are
  exactly those whose least room was positive and is used up by their bytes.
\<close>

theorem planTrafficCharges_exact:
  assumes "distinct (map ci_sub items)" and "\<forall>it \<in> set items. 0 < ci_bytes it \<and> ci_bytes it \<le> max_int64"
    and "\<forall>row \<in> set rows. pred_option (\<lambda>r. r \<le> max_int64) (tq_room row)"
  shows "planTrafficCharges items rows =
    \<lparr>cp_adds = List.map_filter (\<lambda>row. map_option (\<lambda>it. \<lparr>qa_id = tq_id row, qa_amount = ci_bytes it\<rparr>)
                 (find (\<lambda>it. ci_sub it = tq_sub row) items)) rows,
     cp_usage = sort_key ua_sub (map (\<lambda>it. \<lparr>ua_sub = ci_sub it, ua_bytes = ci_bytes it\<rparr>) items),
     cp_exhausted = map ci_sub (filter (\<lambda>it. case least_room rows (ci_sub it) of None \<Rightarrow> False
                      | Some r \<Rightarrow> 0 < r \<and> r \<le> ci_bytes it) items)\<rparr>"
proof -
  let ?by = "map_of (map (\<lambda>it. (ci_sub it, ci_bytes it)) items)"
  have bound: "r \<le> max_int64" if "room_of (quotaRooms rows) i = Some r" for i r
    using that assms(3) least_room_in [of rows i r] by (auto simp: quotaRooms_least pred_option_iff)
  obtain rooms' where plan: "fold charge_step items (quotaRooms rows, Map.empty, [], []) =
      (rooms', ?by, map (\<lambda>it. \<lparr>ua_sub = ci_sub it, ua_bytes = ci_bytes it\<rparr>) items,
       map ci_sub (filter (exhausts (room_of (quotaRooms rows))) items))"
    using charge_fold [OF assms(1), of "quotaRooms rows" Map.empty "[]" "[]"] assms(2) bound
    by (auto simp: list_all_iff positive64_def)
  have by_find: "?by i = map_option ci_bytes (find (\<lambda>it. ci_sub it = i) items)" for i
    by (induction items) auto
  have amount: "amount_of ?by i > 0 \<longleftrightarrow> find (\<lambda>it. ci_sub it = i) items \<noteq> None" for i
    using assms(2) by (auto simp: amount_of_def by_find split: option.splits dest!: find_SomeD)
  have "map (\<lambda>row. \<lparr>qa_id = tq_id row, qa_amount = amount_of ?by (tq_sub row)\<rparr>) (filter (\<lambda>row. amount_of ?by (tq_sub row) > 0) rows) =
      List.map_filter (\<lambda>row. map_option (\<lambda>it. \<lparr>qa_id = tq_id row, qa_amount = ci_bytes it\<rparr>)
        (find (\<lambda>it. ci_sub it = tq_sub row) items)) rows"
    unfolding amount by (auto simp: List.map_filter_def amount_of_def by_find split: option.splits)
  moreover have "exhausts (room_of (quotaRooms rows)) =
      (\<lambda>it. case least_room rows (ci_sub it) of None \<Rightarrow> False | Some r \<Rightarrow> 0 < r \<and> r \<le> ci_bytes it)"
    by (simp add: fun_eq_iff exhausts_def quotaRooms_least)
  ultimately show ?thesis by (simp add: planTrafficCharges_def plan sortUsageBySubID_def)
qed

definition two_rows :: "traffic_quota_row list" where
  "two_rows = [\<lparr>tq_id = 1, tq_sub = 7, tq_period = PeriodCycle, tq_room = Some 100\<rparr>,
               \<lparr>tq_id = 2, tq_sub = 7, tq_period = PeriodDay, tq_room = Some 30\<rparr>,
               \<lparr>tq_id = 3, tq_sub = 8, tq_period = PeriodCycle, tq_room = Some 100\<rparr>]"

theorem planTrafficCharges_exact_witness:
  "cp_exhausted (planTrafficCharges [\<lparr>ci_sub = 8, ci_bytes = 40\<rparr>, \<lparr>ci_sub = 7, ci_bytes = 40\<rparr>] two_rows) = [7] \<and>
   cp_adds (planTrafficCharges [\<lparr>ci_sub = 8, ci_bytes = 40\<rparr>, \<lparr>ci_sub = 7, ci_bytes = 40\<rparr>] two_rows) =
     [\<lparr>qa_id = 1, qa_amount = 40\<rparr>, \<lparr>qa_id = 2, qa_amount = 40\<rparr>, \<lparr>qa_id = 3, qa_amount = 40\<rparr>]"
  using planTrafficCharges_exact [of "[\<lparr>ci_sub = 8, ci_bytes = 40\<rparr>, \<lparr>ci_sub = 7, ci_bytes = 40\<rparr>]" two_rows]
  by (simp add: two_rows_def max_int64_def least_room_def List.map_filter_def)

end
