(* ===== verification/Sub_Effects.thy ===== *)
theory Sub_Effects
  imports Sub_Theorems
begin

text \<open>
  What a renewal does to the tables, on every path: which subscription and which of its columns change, to what, what
  becomes of its quotas, and what is written down. The statements of a successful run are read off one by one
  (\<open>ok_simps\<close>), so that the tables after it are given by a formula.
\<close>

named_theorems ok_simps \<open>what a successful run of an effect went through\<close>

section \<open>Successful runs\<close>

lemma bnd_ok [ok_simps]: "bnd m k s = (Inr b, u) \<longleftrightarrow> (\<exists>a t. m s = (Inr a, t) \<and> k a t = (Inr b, u))"
  by (auto simp: bnd_def split: prod.splits sum.splits)

lemma bnd_err: "bnd m k s = (Inl e, u) \<longleftrightarrow> m s = (Inl e, u) \<or> (\<exists>a t. m s = (Inr a, t) \<and> k a t = (Inl e, u))"
  by (auto simp: bnd_def split: prod.splits sum.splits)

lemma require_ok [ok_simps]: "require b e s = (Inr a, t) \<longleftrightarrow> b \<and> t = s"
  by (auto simp: require_apply)

lemma lift_ok [ok_simps]: "lift_sum r s = (Inr a, t) \<longleftrightarrow> r = Inr a \<and> t = s"
  by (auto simp: lift_sum_def)

lemma plain_ok [ok_simps]:
  "ret a s = (Inr b, t) \<longleftrightarrow> b = a \<and> t = s" "fail e s = (Inr b, t) \<longleftrightarrow> False"
  "gets f s = (Inr x, t) \<longleftrightarrow> x = f s \<and> t = s" "modify g s = (Inr y, t) \<longleftrightarrow> t = g s"
  by (auto simp: eff_simps)

lemma mapped_ok [ok_simps]: "sub_mapped m s = (Inr a, t) \<longleftrightarrow> m s = (Inr a, t)"
  by (auto simp: sub_mapped_def handle_def atomic_def fail_def split: prod.splits sum.splits)

lemma repo_ok [ok_simps]: "repo_call m w = (Inr a, w') \<longleftrightarrow> (\<exists>t. m (tables w) = (Inr a, t) \<and> w' = w\<lparr>tables := t\<rparr>)"
  by (auto simp: repo_call_def on_subs_def zoom_def handle_def fail_def split: prod.splits sum.splits)

lemma hook_ok: "AfterCommit c k h w = (Inr a, w') \<Longrightarrow> tables w' = tables w"
  by (auto simp: AfterCommit_def eff_simps split: if_splits)

lemma roster_ok: "notifyRoster c ids w = (Inr a, w') \<Longrightarrow> tables w' = tables w"
  unfolding notifyRoster_def
  by (induction ids arbitrary: w) (auto simp: ok_simps split: if_splits dest!: hook_ok)

lemma sub_Do_ok: "sub_Do c fn w = (Inr a, w') \<Longrightarrow> \<exists>c' v v'. tables v = tables w \<and> fn c' v = (Inr a, v') \<and> tables w' = tables v'"
proof (cases "ctx_in_tx c")
  case True
  then show "sub_Do c fn w = (Inr a, w') \<Longrightarrow> ?thesis"
    by (intro exI [of _ c] exI [of _ w] exI [of _ w']) (simp add: sub_Do_def Do_hooks_def)
next
  case False
  assume run: "sub_Do c fn w = (Inr a, w')"
  let ?c = "c\<lparr>ctx_in_tx := True\<rparr>" and ?v = "w\<lparr>tx_keys := [], tx_hooks := []\<rparr>"
  obtain v' where "fn ?c ?v = (Inr a, v')" "tables w' = tables v'"
    using False run by (auto simp: sub_Do_def Do_hooks_def split: prod.splits sum.splits)
  then show ?thesis by (intro exI [of _ ?c] exI [of _ ?v] exI [of _ v']) simp
qed

lemma sub_Do_err: "\<not> ctx_in_tx c \<Longrightarrow> sub_Do c fn w = (Inl e, w') \<Longrightarrow> tables w' = tables w"
  by (auto simp: sub_Do_def Do_hooks_def split: prod.splits sum.splits)

section \<open>Statements on quotas\<close>

text \<open>The tables apart from the quotas, and from the identifiers drawn for them.\<close>

definition but_quotas :: "sub_db \<Rightarrow> sub_db" where
  "but_quotas s = s\<lparr>quotas := [], s_drawn := 0\<rparr>"

lemma but_quotas_simps [simp]:
  "but_quotas (s\<lparr>quotas := qs\<rparr>) = but_quotas s" "but_quotas (s\<lparr>s_drawn := n\<rparr>) = but_quotas s"
  by (simp_all add: but_quotas_def)

lemma but_quotas_upd:
  "but_quotas (s\<lparr>subs := rs\<rparr>) = (but_quotas s)\<lparr>subs := rs\<rparr>" "but_quotas (s\<lparr>events := es\<rparr>) = (but_quotas s)\<lparr>events := es\<rparr>"
  "but_quotas (s\<lparr>resets := ls\<rparr>) = (but_quotas s)\<lparr>resets := ls\<rparr>"
  by (simp_all add: but_quotas_def)

lemma but_quotas_resets: "but_quotas s = but_quotas t \<Longrightarrow> resets s = resets t"
  by (drule arg_cong [of _ _ resets]) (simp add: but_quotas_def)

lemma quotas_of: "quotas (s\<lparr>quotas := qs\<rparr>) = qs"
  by simp

lemma update_quotas_ok: "update_quotas p f s = (Inr n, t) \<Longrightarrow> t = s\<lparr>quotas := update_rows p f (quotas s)\<rparr>"
  by (auto simp: update_quotas_def ok_simps)

lemma UpdateQuota_ok: "UpdateQuota i f s = (Inr a, t) \<Longrightarrow> t = s\<lparr>quotas := update_rows (\<lambda>q. qr_id q = i) f (quotas s)\<rparr>"
  by (auto simp: UpdateQuota_def ok_simps dest: update_quotas_ok)

lemma insert_quota_ok:
  "insert_quota gen m s = (Inr a, t) \<Longrightarrow> \<exists>i. quotas t = quotas s @ [m\<lparr>qr_id := i\<rparr>] \<and> but_quotas t = but_quotas s"
  by (auto simp: insert_quota_def next_id_def Let_def ok_simps but_quotas_def)

lemma InsertQuotas_ok:
  assumes "InsertQuotas gen rows s = (Inr a, t)"
  shows "\<exists>new. quotas t = quotas s @ new \<and> map (\<lambda>q. q\<lparr>qr_id := 0\<rparr>) new = map (\<lambda>q. q\<lparr>qr_id := 0\<rparr>) rows \<and> but_quotas t = but_quotas s"
proof (cases "rows = []")
  case True
  then show ?thesis using assms by (simp add: InsertQuotas_def ok_simps)
next
  case False
  then have "for_each rows (insert_quota gen) s = (Inr a, t)" using assms by (simp add: InsertQuotas_def ok_simps)
  then show ?thesis
  proof (induction rows arbitrary: s)
    case Nil
    then show ?case by (simp add: ok_simps)
  next
    case (Cons m rows)
    then obtain u b where u: "insert_quota gen m s = (Inr b, u)" "for_each rows (insert_quota gen) u = (Inr a, t)"
      by (auto simp: ok_simps)
    obtain i where i: "quotas u = quotas s @ [m\<lparr>qr_id := i\<rparr>]" "but_quotas u = but_quotas s" using insert_quota_ok [OF u(1)] by blast
    obtain new where "quotas t = quotas u @ new" "map (\<lambda>q. q\<lparr>qr_id := 0\<rparr>) new = map (\<lambda>q. q\<lparr>qr_id := 0\<rparr>) rows" "but_quotas t = but_quotas u"
      using Cons.IH [OF u(2)] by blast
    then show ?case using i by (intro exI [of _ "m\<lparr>qr_id := i\<rparr> # new"]) simp
  qed
qed

section \<open>Rebuilding the quotas of a subscription\<close>

text \<open>What becomes of one row of the subscription that the version still defines.\<close>

definition realign_row :: "catalog_version \<Rightarrow> time \<Rightarrow> time \<Rightarrow> quota_row \<Rightarrow> quota_row" where
  "realign_row v start cycleEnd q =
     (case quotaDef v (qr_metric q) (qr_period q) of
        None \<Rightarrow> q
      | Some d \<Rightarrow> realigned (cq_limit d) start (QuotaPeriodEnd (qr_period q) start cycleEnd) q)"

lemma realign_row_key [simp]:
  "qr_id (realign_row v a b q) = qr_id q" "qr_sub (realign_row v a b q) = qr_sub q"
  "qr_metric (realign_row v a b q) = qr_metric q" "qr_period (realign_row v a b q) = qr_period q"
  by (simp_all add: realign_row_def realigned_def split: option.split)

definition realign_step :: "catalog_version \<Rightarrow> time \<Rightarrow> time \<Rightarrow> quota_row \<Rightarrow> unit sub_eff" where
  "realign_step v start cycleEnd = (\<lambda>q. case quotaDef v (qr_metric q) (qr_period q) of
     None \<Rightarrow> ret ()
   | Some d \<Rightarrow> repo_call (UpdateQuota (qr_id q) (realigned (cq_limit d) start (QuotaPeriodEnd (qr_period q) start cycleEnd))))"

lemma realign_loop:
  assumes "for_each rows (realign_step v start cycleEnd) w = (Inr (), w')"
    and "distinct (map qr_id (quotas (tables w)))" and "set rows \<subseteq> set (quotas (tables w))" and "distinct (map qr_id rows)"
  shows "tables w' = (tables w)\<lparr>quotas := update_rows (\<lambda>x. qr_id x \<in> qr_id ` set rows) (realign_row v start cycleEnd) (quotas (tables w))\<rparr>"
  using assms
proof (induction rows arbitrary: w)
  case Nil
  then show ?case by (simp add: ok_simps update_rows_def)
next
  case (Cons q rows)
  let ?qs = "quotas (tables w)" and ?f = "realign_row v start cycleEnd"
  have q: "x = q" if "x \<in> set ?qs" "qr_id x = qr_id q" for x
    using Cons.prems(2,3) that key_row [of ?qs q x] by simp
  obtain w1 where step: "realign_step v start cycleEnd q w = (Inr (), w1)" and rest: "for_each rows (realign_step v start cycleEnd) w1 = (Inr (), w')"
    using Cons.prems(1) by (auto simp: ok_simps)
  have w1: "tables w1 = (tables w)\<lparr>quotas := update_rows (\<lambda>x. qr_id x = qr_id q) ?f ?qs\<rparr>"
  proof (cases "quotaDef v (qr_metric q) (qr_period q)")
    case None
    then have "update_rows (\<lambda>x. qr_id x = qr_id q) ?f ?qs = ?qs" using q by (fastforce simp: update_rows_def realign_row_def intro!: map_idI)
    then show ?thesis using step None by (simp add: realign_step_def ok_simps)
  next
    case (Some d)
    have "update_rows (\<lambda>x. qr_id x = qr_id q) (realigned (cq_limit d) start (QuotaPeriodEnd (qr_period q) start cycleEnd)) ?qs =
        update_rows (\<lambda>x. qr_id x = qr_id q) ?f ?qs"
      using q Some by (fastforce simp: update_rows_def realign_row_def)
    then show ?thesis using step Some by (auto simp: realign_step_def ok_simps dest!: UpdateQuota_ok)
  qed
  have "q' \<in> set (quotas (tables w1))" if "q' \<in> set rows" for q'
    using Cons.prems(3,4) that by (auto simp: w1 set_update_rows image_iff intro!: bexI [of _ q'])
  then have "tables w' = (tables w1)\<lparr>quotas := update_rows (\<lambda>x. qr_id x \<in> qr_id ` set rows) ?f (quotas (tables w1))\<rparr>"
    using Cons.prems(2,4) by (intro Cons.IH [OF rest]) (auto simp: w1 map_update_rows)
  moreover have "update_rows (\<lambda>x. qr_id x \<in> qr_id ` set rows) ?f (update_rows (\<lambda>x. qr_id x = qr_id q) ?f ?qs) =
      update_rows (\<lambda>x. qr_id x \<in> qr_id ` set (q # rows)) ?f ?qs"
    using Cons.prems(4) by (auto simp: update_rows_def)
  ultimately show ?case by (simp add: w1)
qed

text \<open>The quotas of subscription \<open>i\<close> are those that the version defines, all starting anew; no other row is touched.\<close>

definition quotas_restarted :: "uuid \<Rightarrow> catalog_quota list \<Rightarrow> time \<Rightarrow> time \<Rightarrow> quota_row list \<Rightarrow> quota_row list \<Rightarrow> bool" where
  "quotas_restarted i defs start cycleEnd qs qs' \<longleftrightarrow>
     filter (\<lambda>q. qr_sub q \<noteq> i) qs' = filter (\<lambda>q. qr_sub q \<noteq> i) qs \<and>
     (\<lambda>q. (qr_metric q, qr_period q)) ` {q \<in> set qs'. qr_sub q = i} = (\<lambda>d. (cq_metric d, cq_period d)) ` set defs \<and>
     (\<forall>q \<in> set qs'. qr_sub q = i \<longrightarrow>
        (\<exists>d \<in> set defs. cq_metric d = qr_metric q \<and> cq_period d = qr_period q \<and> qr_limit q = cq_limit d) \<and>
        qr_consumed q = 0 \<and> qr_bonus q = 0 \<and> qr_start q = start \<and> qr_end q = QuotaPeriodEnd (qr_period q) start cycleEnd)"

lemma rebuilt_lists:
  assumes kept: "kept = filter (\<lambda>x. qr_sub x = i \<longrightarrow> defined_in v x) (update_rows (\<lambda>x. qr_sub x = i) (realign_row v start cycleEnd) qs)"
    and fresh: "fresh = filter (\<lambda>row. row_key row \<notin> row_key ` {q \<in> set qs. qr_sub q = i \<and> defined_in v q}) (quotaRows i (cv_quotas v) start cycleEnd)"
    and new: "map (\<lambda>q. q\<lparr>qr_id := 0\<rparr>) new = map (\<lambda>q. q\<lparr>qr_id := 0\<rparr>) fresh"
  shows "quotas_restarted i (cv_quotas v) start cycleEnd qs (kept @ new)"
proof -
  let ?ok = "\<lambda>q. (\<exists>d \<in> set (cv_quotas v). cq_metric d = qr_metric q \<and> cq_period d = qr_period q \<and> qr_limit q = cq_limit d) \<and>
      qr_consumed q = 0 \<and> qr_bonus q = 0 \<and> qr_start q = start \<and> qr_end q = QuotaPeriodEnd (qr_period q) start cycleEnd"
  have sets: "(\<lambda>q. q\<lparr>qr_id := 0\<rparr>) ` set new = (\<lambda>q. q\<lparr>qr_id := 0\<rparr>) ` set fresh" using arg_cong [OF new, of set] by simp
  have same: "qr_sub q = qr_sub r \<and> row_key q = row_key r \<and> qr_limit q = qr_limit r \<and> qr_consumed q = qr_consumed r \<and>
      qr_bonus q = qr_bonus r \<and> qr_start q = qr_start r \<and> qr_end q = qr_end r" if "q\<lparr>qr_id := 0\<rparr> = r\<lparr>qr_id := 0\<rparr>" for q r :: quota_row
    using that by (cases q; cases r) simp
  have made: "qr_sub q = i \<and> ?ok q" if "q \<in> set new" for q
  proof -
    have "q\<lparr>qr_id := 0\<rparr> \<in> (\<lambda>q. q\<lparr>qr_id := 0\<rparr>) ` set fresh" unfolding sets [symmetric] using that by (rule imageI)
    then obtain r where r: "r \<in> set fresh" "q\<lparr>qr_id := 0\<rparr> = r\<lparr>qr_id := 0\<rparr>" by blast
    show ?thesis using same [OF r(2)] r(1) by (auto simp: fresh quotaRows_def)
  qed
  have old: "?ok q" if q: "q \<in> set kept" "qr_sub q = i" for q
  proof -
    have "q \<in> (\<lambda>r. if qr_sub r = i then realign_row v start cycleEnd r else r) ` set qs" and def: "defined_in v q"
      using q by (simp_all add: kept set_update_rows)
    then obtain x where x: "q = (if qr_sub x = i then realign_row v start cycleEnd x else x)" by blast
    then have x: "q = realign_row v start cycleEnd x" using q(2) by (cases "qr_sub x = i") simp_all
    then have "defined_in v x" using def by simp
    then obtain d where d: "quotaDef v (qr_metric x) (qr_period x) = Some d" by blast
    then have "d \<in> set (cv_quotas v)" "cq_metric d = qr_metric x" "cq_period d = qr_period x"
      by (auto simp: quotaDef_def dest: find_SomeD)
    then show ?thesis using d by (auto simp: x realign_row_def realigned_def)
  qed
  have keys: "\<exists>q \<in> set (kept @ new). qr_sub q = i \<and> row_key q = (cq_metric d, cq_period d)" if d: "d \<in> set (cv_quotas v)" for d
  proof (cases "\<exists>q \<in> set qs. qr_sub q = i \<and> row_key q = (cq_metric d, cq_period d)")
    case True
    then obtain q where q: "q \<in> set qs" "qr_sub q = i" "row_key q = (cq_metric d, cq_period d)" by blast
    moreover have "defined_in v q" using q(3) d by (auto simp: quotaDef_def find_None)
    ultimately have "realign_row v start cycleEnd q \<in> set kept" by (auto simp: kept set_update_rows)
    then show ?thesis using q by (intro bexI [of _ "realign_row v start cycleEnd q"]) auto
  next
    case False
    define r where "r = \<lparr>qr_id = 0, qr_sub = i, qr_metric = cq_metric d, qr_period = cq_period d, qr_start = start,
      qr_end = QuotaPeriodEnd (cq_period d) start cycleEnd, qr_limit = cq_limit d, qr_bonus = 0, qr_consumed = 0\<rparr>"
    have r: "r \<in> set fresh" "qr_sub r = i" "row_key r = (cq_metric d, cq_period d)"
      using d False by (auto simp: fresh quotaRows_def r_def)
    then have "r\<lparr>qr_id := 0\<rparr> \<in> (\<lambda>q. q\<lparr>qr_id := 0\<rparr>) ` set new" unfolding sets by (intro imageI)
    then obtain q where "q \<in> set new" "r\<lparr>qr_id := 0\<rparr> = q\<lparr>qr_id := 0\<rparr>" by blast
    then show ?thesis using same [of r q] r by auto
  qed
  have "filter (\<lambda>q. qr_sub q \<noteq> i) kept = filter (\<lambda>q. qr_sub q \<noteq> i) qs"
    unfolding kept by (induction qs) auto
  moreover have "filter (\<lambda>q. qr_sub q \<noteq> i) new = []" using made by (auto simp: filter_empty_conv)
  moreover have all: "\<forall>q \<in> set (kept @ new). qr_sub q = i \<longrightarrow> ?ok q" using old made by auto
  moreover have "row_key ` {q \<in> set (kept @ new). qr_sub q = i} \<subseteq> (\<lambda>d. (cq_metric d, cq_period d)) ` set (cv_quotas v)"
  proof (rule image_subsetI)
    fix q
    assume "q \<in> {q \<in> set (kept @ new). qr_sub q = i}"
    then obtain d where "d \<in> set (cv_quotas v)" "cq_metric d = qr_metric q" "cq_period d = qr_period q" using all by blast
    then show "row_key q \<in> (\<lambda>d. (cq_metric d, cq_period d)) ` set (cv_quotas v)" by (intro image_eqI [of _ _ d]) simp_all
  qed
  moreover have "(\<lambda>d. (cq_metric d, cq_period d)) ` set (cv_quotas v) \<subseteq> row_key ` {q \<in> set (kept @ new). qr_sub q = i}"
    using keys by (fastforce simp: image_iff)
  ultimately show ?thesis unfolding quotas_restarted_def by (intro conjI subset_antisym) simp_all
qed

lemma rebuildQuotas_ok:
  assumes "rebuildQuotas gen m v start cycleEnd w = (Inr before, w')" and d: "distinct (map qr_id (quotas (tables w)))"
  shows "quotas_restarted (sr_id m) (cv_quotas v) start cycleEnd (quotas (tables w)) (quotas (tables w')) \<and>
    but_quotas (tables w') = but_quotas (tables w) \<and> before = sort_key qr_id (filter (\<lambda>q. qr_sub q = sr_id m) (quotas (tables w)))"
proof -
  let ?qs = "quotas (tables w)" and ?rows = "sort_key qr_id (filter (\<lambda>q. qr_sub q = sr_id m) (quotas (tables w)))"
  let ?f = "realign_row v start cycleEnd"
  obtain w1 t where w1: "for_each ?rows (realign_step v start cycleEnd) w = (Inr (), w1)"
    and ins: "InsertQuotas gen (filter (\<lambda>row. row_key row \<notin> row_key ` set (filter (defined_in v) ?rows))
        (quotaRows (sr_id m) (cv_quotas v) start cycleEnd))
        ((tables w1)\<lparr>quotas := filter (\<lambda>q. qr_id q \<notin> set (map qr_id (filter (\<lambda>q. \<not> defined_in v q) ?rows))) (quotas (tables w1))\<rparr>) = (Inr (), t)"
    and out: "tables w' = t" "before = ?rows"
    using assms(1) by (auto simp: rebuildQuotas_def QuotasBySubscriptions_def DeleteQuotas_def ok_simps simp flip: realign_step_def)
  have key: "qr_id x \<in> qr_id ` set ?rows \<longleftrightarrow> qr_sub x = sr_id m" if "x \<in> set ?qs" for x
    using that distinct_map_inj [OF d that] by (auto simp: image_iff)
  have "tables w1 = (tables w)\<lparr>quotas := update_rows (\<lambda>x. qr_id x \<in> qr_id ` set ?rows) ?f ?qs\<rparr>"
    by (rule realign_loop [OF w1 d]) (use d in \<open>auto simp: distinct_map intro: inj_on_subset\<close>)
  also have "update_rows (\<lambda>x. qr_id x \<in> qr_id ` set ?rows) ?f ?qs = update_rows (\<lambda>x. qr_sub x = sr_id m) ?f ?qs"
    using key by (simp add: update_rows_def)
  finally have t1: "tables w1 = (tables w)\<lparr>quotas := update_rows (\<lambda>x. qr_sub x = sr_id m) ?f ?qs\<rparr>" .
  have gone: "qr_id q \<notin> set (map qr_id (filter (\<lambda>q. \<not> defined_in v q) ?rows)) \<longleftrightarrow> (qr_sub q = sr_id m \<longrightarrow> defined_in v q)"
    if q: "q \<in> set (quotas (tables w1))" for q
  proof -
    obtain x where x: "x \<in> set ?qs" "qr_id q = qr_id x" "qr_sub q = qr_sub x" "row_key q = row_key x"
      using q by (auto simp: t1 set_update_rows split: if_splits)
    then show ?thesis using distinct_map_inj [OF d x(1)] by (auto simp: image_iff)
  qed
  have kept: "filter (\<lambda>q. qr_id q \<notin> set (map qr_id (filter (\<lambda>q. \<not> defined_in v q) ?rows))) (quotas (tables w1)) =
      filter (\<lambda>q. qr_sub q = sr_id m \<longrightarrow> defined_in v q) (quotas (tables w1))"
    by (rule filter_cong [OF refl gone])
  have defined: "set (filter (defined_in v) ?rows) = {q \<in> set ?qs. qr_sub q = sr_id m \<and> defined_in v q}" by auto
  obtain new where new: "quotas t = filter (\<lambda>q. qr_sub q = sr_id m \<longrightarrow> defined_in v q) (quotas (tables w1)) @ new"
      "but_quotas t = but_quotas (tables w1)"
      "map (\<lambda>q. q\<lparr>qr_id := 0\<rparr>) new = map (\<lambda>q. q\<lparr>qr_id := 0\<rparr>) (filter (\<lambda>row. row_key row \<notin> row_key `
        {q \<in> set ?qs. qr_sub q = sr_id m \<and> defined_in v q}) (quotaRows (sr_id m) (cv_quotas v) start cycleEnd))"
    using InsertQuotas_ok [OF ins [unfolded kept defined]] unfolding but_quotas_simps quotas_of by blast
  have "quotas_restarted (sr_id m) (cv_quotas v) start cycleEnd ?qs (quotas t)"
    unfolding new(1) t1 by (rule rebuilt_lists [OF _ refl new(3)]) simp
  then show ?thesis using out new(2) by (simp add: t1)
qed

section \<open>Renewal\<close>

lemma loadOwned_ok:
  assumes "loadSub i (Some u) w = (Inr m, w')"
  shows "w' = w \<and> m \<in> set (subs (tables w)) \<and> sr_id m = i \<and> sr_user m = u"
  using assms
  by (auto simp: loadSub_def SubscriptionByID_def ok_simps split: if_splits option.splits dest!: find_SomeD)

lemma transition_ok:
  assumes "transition D c m to cols w = (Inr a, w')" and "m \<in> set (subs (tables w))" and "distinct (map sr_id (subs (tables w)))"
  shows "tables w' = (tables w)\<lparr>subs := update_rows (\<lambda>x. sr_id x = sr_id m) (with_cols cols to) (subs (tables w))\<rparr>"
proof -
  have "update_rows (\<lambda>x. sr_id x = sr_id m \<and> sr_status x = sr_status m) f (subs (tables w)) = update_rows (\<lambda>x. sr_id x = sr_id m) f (subs (tables w))" for f
    unfolding update_rows_def using distinct_map_inj [OF assms(3) _ assms(2)] by (intro map_cong refl) (metis (full_types))
  then show ?thesis
    using assms(1) by (auto simp: transition_def UpdateSubscription_def update_subs_def rtChanged_def ok_simps split: if_splits dest!: hook_ok)
qed

lemma writeEvent_ok:
  "writeEvent i ty from to a ord pl w = (Inr x, w') \<Longrightarrow>
   tables w' = (tables w)\<lparr>events := events (tables w) @ [\<lparr>ev_sub = i, ev_type = ty, ev_from = from, ev_to = to, ev_actor_kind = a_kind a,
     ev_actor = a_id a, ev_order = ord, ev_payload = pl\<rparr>]\<rparr>"
  by (auto simp: writeEvent_def InsertEvent_def ok_simps)

lemma insert_reset_ok: "insert_reset r s = (Inr a, t) \<Longrightarrow> t = s\<lparr>resets := resets s @ [r]\<rparr>"
  by (auto simp: insert_reset_def ok_simps)

lemma InsertResetLogs_ok: "InsertResetLogs rows s = (Inr a, t) \<Longrightarrow> t = s\<lparr>resets := resets s @ rows\<rparr>"
proof -
  assume run: "InsertResetLogs rows s = (Inr a, t)"
  have "for_each rows insert_reset s = (Inr a, t) \<Longrightarrow> t = s\<lparr>resets := resets s @ rows\<rparr>"
  proof (induction rows arbitrary: s)
    case (Cons r rows)
    then have "for_each rows insert_reset (s\<lparr>resets := resets s @ [r]\<rparr>) = (Inr a, t)" by (auto simp: ok_simps dest!: insert_reset_ok)
    from Cons.IH [OF this] show ?case by simp
  qed (simp add: ok_simps)
  with run show ?thesis by (cases "rows = []") (auto simp: InsertResetLogs_def ok_simps)
qed

text \<open>What a reset of the quotas puts on record: what had been consumed of each.\<close>

definition renewal_resets :: "sub_row \<Rightarrow> quota_row list \<Rightarrow> reset_row list" where
  "renewal_resets m qs =
     map (\<lambda>q. \<lparr>rl_sub = sr_id m, rl_user = sr_user m, rl_metric = qr_metric q, rl_reason = ''renewal'', rl_before = qr_consumed q,
               rl_after = 0, rl_actor = None, rl_note = None\<rparr>) (sort_key qr_id (filter (\<lambda>q. qr_sub q = sr_id m) qs))"

lemma restartQuotas_ok:
  assumes "restartQuotas P gen m version start cycleEnd kind w = (Inr a, w')" and "distinct (map qr_id (quotas (tables w)))"
  shows "\<exists>v. versionFor P (sr_plan m) version = Inr v \<and>
    quotas_restarted (sr_id m) (cv_quotas (withKind v kind)) start cycleEnd (quotas (tables w)) (quotas (tables w')) \<and>
    but_quotas (tables w') = but_quotas ((tables w)\<lparr>resets := resets (tables w) @ renewal_resets m (quotas (tables w))\<rparr>)"
proof -
  obtain v before w1 where v: "versionFor P (sr_plan m) version = Inr v"
    and build: "rebuildQuotas gen m (withKind v kind) start cycleEnd w = (Inr before, w1)"
    and log: "logResets m before ''renewal'' None '''' w1 = (Inr a, w')"
    using assms(1) by (auto simp: restartQuotas_def ok_simps)
  note built = rebuildQuotas_ok [OF build assms(2)]
  have "tables w' = (tables w1)\<lparr>resets := resets (tables w1) @ renewal_resets m (quotas (tables w))\<rparr>"
    using log built by (auto simp: logResets_def renewal_resets_def ok_simps split: if_splits dest!: InsertResetLogs_ok)
  moreover have "resets (tables w1) = resets (tables w)" using built by (metis but_quotas_resets)
  ultimately show ?thesis using v built by (simp add: but_quotas_upd)
qed

text \<open>Paid after the end, on an order that was not placed before it either: the period starts anew at the payment.\<close>

definition paid_late :: "renewal \<Rightarrow> sub_row \<Rightarrow> bool" where
  "paid_late i m \<longleftrightarrow> sr_end m \<le> truncate_us (rn_paid i) \<and> pred_option (\<lambda>placed. sr_end m \<le> placed) (rn_created i)"

definition renewed_row :: "renewal \<Rightarrow> catalog_plan \<Rightarrow> time \<Rightarrow> sub_row \<Rightarrow> sub_row" where
  "renewed_row i plan t_end m =
     (let p = rn_price i; late = paid_late i m in
      m\<lparr>sr_status := StatusActive, sr_end := t_end, sr_start := (if late then truncate_us (rn_paid i) else sr_start m),
        sr_version := (case pl_current plan of Some v \<Rightarrow> if late then v else sr_version m | None \<Rightarrow> sr_version m),
        sr_price := (case ps_price p of Some x \<Rightarrow> Some x | None \<Rightarrow> sr_price m),
        sr_amount := ps_amount p, sr_interval := ps_interval p, sr_count := ps_count p\<rparr>)"

lemma RenewalBase_late: "RenewalBase (sr_end m) (truncate_us (rn_paid i)) (rn_created i) =
    (if paid_late i m then truncate_us (rn_paid i) else sr_end m, paid_late i m)"
  by (auto simp: RenewalBase_def paid_late_def split: option.split)

definition renewed_end :: "renewal \<Rightarrow> sub_row \<Rightarrow> time" where
  "renewed_end i m = PeriodEndFor (if paid_late i m then truncate_us (rn_paid i) else sr_end m) (rn_price i)"

definition renew_cols :: "renewal \<Rightarrow> catalog_plan \<Rightarrow> sub_row \<Rightarrow> sub_cols" where
  "renew_cols i plan m = (snapshotCols (rn_price i) (sr_price m))\<lparr>set_end := Some (renewed_end i m),
     set_start := (if paid_late i m then Some (truncate_us (rn_paid i)) else None),
     set_version := (if paid_late i m then pl_current plan else None)\<rparr>"

lemma renew_row: "with_cols (renew_cols i plan m) StatusActive m = renewed_row i plan (renewed_end i m) m"
  by (simp add: with_cols_def renew_cols_def snapshotCols_def renewed_row_def Let_def split: option.split)

lemma renew_body_runs:
  assumes "renew_body D P gen now i c w = (Inr r, w')"
  shows "\<exists>m plan w1 w2 w3 u1 u2 u3 pl.
      (m \<in> set (subs (tables w)) \<and> sr_id m = rn_sub i \<and> sr_user m = rn_user i) \<and> state_of m now \<noteq> StateEnded \<and>
      planOf P (sr_plan m) = Inr plan \<and> pl_kind plan \<noteq> KindOneTime \<and>
      transition D c m StatusActive (renew_cols i plan m) w = (Inr u1, w1) \<and>
      (if paid_late i m
       then restartQuotas P gen m (if paid_late i m then (case pl_current plan of Some v \<Rightarrow> v | None \<Rightarrow> sr_version m) else sr_version m) (truncate_us (rn_paid i)) (renewed_end i m) (pl_kind plan)
       else ret ()) w1 = (Inr u2, w2) \<and>
      writeEvent (sr_id m) ''renewed'' (Some (if paid_late i m then StatusExpired else sr_status m)) StatusActive (rn_actor i) (rn_order i) pl w2 = (Inr u3, w3) \<and>
      tables w' = tables w3 \<and>
      r = \<lparr>rr_sub = sr_id m, rr_from = (if paid_late i m then StatusExpired else sr_status m), rr_restarted = paid_late i m, rr_previous = sr_end m,
           rr_end = renewed_end i m\<rparr>"
  using assms
  unfolding renew_body_def lockOwned_def bnd_ok require_ok lift_ok RenewalBase_late Let_def prod.case plain_ok renew_cols_def renewed_end_def
  apply clarify
  apply (drule loadOwned_ok, clarify, drule roster_ok)
  apply (intro exI conjI)
            apply (assumption | rule refl)+
  done

text \<open>
  The contract of a renewal that returned \<open>r\<close>, on the tables before and after it. The subscription exists, belongs to
  the user, is not closed and not on a one-time plan. Apart from the quotas, only its row changes, one event is added,
  and, after a late payment, one record per quota.
\<close>

definition renewed :: "ports \<Rightarrow> renewal \<Rightarrow> renewal_result \<Rightarrow> sub_db \<Rightarrow> sub_db \<Rightarrow> bool" where
  "renewed P i r s t \<longleftrightarrow> (\<exists>m plan e.
      m \<in> set (subs s) \<and> sr_id m = rn_sub i \<and> sr_user m = rn_user i \<and> sr_closed m = None \<and>
      planOf P (sr_plan m) = Inr plan \<and> pl_kind plan \<noteq> KindOneTime \<and>
      rr_restarted r = paid_late i m \<and> rr_previous r = sr_end m \<and>
      rr_end r = PeriodEndFor (if paid_late i m then truncate_us (rn_paid i) else sr_end m) (rn_price i) \<and>
      ev_sub e = rn_sub i \<and> ev_type e = ''renewed'' \<and> ev_from e = Some (rr_from r) \<and> ev_to e = StatusActive \<and> ev_order e = rn_order i \<and>
      but_quotas t = but_quotas (s\<lparr>
        subs := update_rows (\<lambda>x. sr_id x = rn_sub i) (renewed_row i plan (rr_end r)) (subs s),
        events := events s @ [e],
        resets := resets s @ (if paid_late i m then renewal_resets m (quotas s) else [])\<rparr>) \<and>
      (if paid_late i m
       then \<exists>v. versionFor P (sr_plan m) (sr_version (renewed_row i plan (rr_end r) m)) = Inr v \<and>
         quotas_restarted (rn_sub i) (cv_quotas (withKind v (pl_kind plan))) (truncate_us (rn_paid i)) (rr_end r) (quotas s) (quotas t)
       else quotas t = quotas s))"

lemma renew_body_ok:
  assumes run: "renew_body D P gen now i c w = (Inr r, w')" and inv: "sub_inv (tables w)"
  shows "renewed P i r (tables w) (tables w') \<and> (\<exists>m. rr_previous r = sr_end m \<and> rr_end r = renewed_end i m)"
proof -
  obtain m plan w1 w2 w3 u1 u2 u3 pl where m: "m \<in> set (subs (tables w))" "sr_id m = rn_sub i" "sr_user m = rn_user i" "state_of m now \<noteq> StateEnded"
    and plan: "planOf P (sr_plan m) = Inr plan" "pl_kind plan \<noteq> KindOneTime"
    and trans: "transition D c m StatusActive (renew_cols i plan m) w = (Inr u1, w1)"
    and restart: "(if paid_late i m
       then restartQuotas P gen m (if paid_late i m then (case pl_current plan of Some v \<Rightarrow> v | None \<Rightarrow> sr_version m) else sr_version m)
         (truncate_us (rn_paid i)) (renewed_end i m) (pl_kind plan)
       else ret ()) w1 = (Inr u2, w2)"
    and event: "writeEvent (sr_id m) ''renewed'' (Some (if paid_late i m then StatusExpired else sr_status m)) StatusActive (rn_actor i) (rn_order i) pl w2 = (Inr u3, w3)"
    and last: "tables w' = tables w3" "r = \<lparr>rr_sub = sr_id m, rr_from = (if paid_late i m then StatusExpired else sr_status m),
      rr_restarted = paid_late i m, rr_previous = sr_end m, rr_end = renewed_end i m\<rparr>"
    using renew_body_runs [OF run] by blast
  have d: "distinct (map sr_id (subs (tables w)))" "distinct (map qr_id (quotas (tables w)))" using inv by (simp_all add: sub_inv_def)
  let ?rs = "update_rows (\<lambda>x. sr_id x = rn_sub i) (renewed_row i plan (renewed_end i m)) (subs (tables w))"
  have "update_rows (\<lambda>x. sr_id x = sr_id m) (with_cols (renew_cols i plan m) StatusActive) (subs (tables w)) = ?rs"
    using distinct_map_inj [OF d(1) _ m(1)] by (simp add: update_rows_def m(2)) (metis renew_row m(2))
  then have t1: "tables w1 = (tables w)\<lparr>subs := ?rs\<rparr>" using transition_ok [OF trans m(1) d(1)] by simp
  define late where "late = (if paid_late i m then renewal_resets m (quotas (tables w)) else [])"
  have two: "but_quotas (tables w2) = (but_quotas (tables w))\<lparr>subs := ?rs, resets := resets (tables w) @ late\<rparr> \<and>
      (if paid_late i m
       then \<exists>v. versionFor P (sr_plan m) (sr_version (renewed_row i plan (renewed_end i m) m)) = Inr v \<and>
         quotas_restarted (rn_sub i) (cv_quotas (withKind v (pl_kind plan))) (truncate_us (rn_paid i)) (renewed_end i m)
           (quotas (tables w)) (quotas (tables w2))
       else quotas (tables w2) = quotas (tables w))"
  proof (cases "paid_late i m")
    case True
    have dq: "distinct (map qr_id (quotas (tables w1)))" using d(2) by (simp add: t1)
    have "sr_version (renewed_row i plan (renewed_end i m) m) = (case pl_current plan of Some v \<Rightarrow> v | None \<Rightarrow> sr_version m)"
      using True by (simp add: renewed_row_def Let_def split: option.split)
    then show ?thesis
      using restartQuotas_ok [OF _ dq] restart True by (fastforce simp: t1 m(2) late_def but_quotas_upd)
  next
    case False
    then show ?thesis using restart by (simp add: ok_simps t1 late_def but_quotas_upd) (simp add: but_quotas_def)
  qed
  have "events (but_quotas (tables w2)) = events (but_quotas (tables w))" using two by simp
  then have ev: "events (tables w2) = events (tables w)" by (simp add: but_quotas_def)
  define e where "e = \<lparr>ev_sub = sr_id m, ev_type = ''renewed'', ev_from = Some (if paid_late i m then StatusExpired else sr_status m),
    ev_to = StatusActive, ev_actor_kind = a_kind (rn_actor i), ev_actor = a_id (rn_actor i), ev_order = rn_order i, ev_payload = pl\<rparr>"
  have three: "tables w' = (tables w2)\<lparr>events := events (tables w) @ [e]\<rparr>" using writeEvent_ok [OF event] by (simp add: last(1) ev e_def)
  have "but_quotas (tables w') = but_quotas ((tables w)\<lparr>subs := ?rs, events := events (tables w) @ [e], resets := resets (tables w) @ late\<rparr>)"
    using two by (simp add: three but_quotas_upd)
  moreover have "sr_closed m = None" using m(4) by (rule not_ended)
  moreover have "quotas (tables w') = quotas (tables w2)" by (simp add: three)
  ultimately have "renewed P i r (tables w) (tables w')"
    unfolding renewed_def using m(1-3) plan conjunct2 [OF two] last(2)
    by (intro exI [of _ m] exI [of _ plan] exI [of _ e] conjI) (simp_all add: e_def late_def renewed_end_def split: if_splits)
  then show ?thesis using last(2) by (intro conjI exI [of _ m]) simp_all
qed

text \<open>
  C18. What a renewal does, on every path. If it succeeds, the subscription exists, belongs to the user, is not closed and
  is not on a one-time plan; its end moves strictly forward, to the end of one paid period after the old end, or after
  the payment if the payment came late (after the end, and on an order placed no earlier either); it is active, with
  the price that was paid, and a late payment also moves its start and takes the plan's current version. Exactly one event
  is added. In time, its quotas stay as they are; after a late payment they are exactly the quotas of that version, with
  nothing consumed and windows that start at the payment, and what each had consumed is on record. No other row of any
  table changes. If it fails outside a transaction, nothing changes.
\<close>

theorem Renew_effect:
  assumes "sub_inv (tables w)"
  shows "case Renew D P gen now c i w of
      (Inl err, w') \<Rightarrow> ctx_in_tx c \<or> tables w' = tables w
    | (Inr r, w') \<Rightarrow> renewed P i r (tables w) (tables w') \<and> rr_previous r < rr_end r"
proof (cases "Renew D P gen now c i w")
  case (Pair res w')
  show ?thesis
  proof (cases res)
    case (Inl err)
    have "tables w' = tables w" if "\<not> ctx_in_tx c"
      using Pair Inl sub_Do_err [OF that] by (auto simp: Renew_def bnd_err lift_sum_def require_apply split: if_splits)
    then show ?thesis by (auto simp: Pair Inl)
  next
    case (Inr r)
    have count: "small_count (ps_count (rn_price i))" and run: "sub_Do c (renew_body D P gen now i) w = (Inr r, w')"
      using Pair Inr by (auto simp: Renew_def ok_simps validatePrice_def split: if_splits)
    obtain c' v v' where v: "tables v = tables w" "renew_body D P gen now i c' v = (Inr r, v')" "tables w' = tables v'"
      using sub_Do_ok [OF run] by blast
    have "sr_end m < renewed_end i m" for m
      using PeriodEndFor_after [OF count, of "if paid_late i m then truncate_us (rn_paid i) else sr_end m"]
      by (auto simp: renewed_end_def paid_late_def split: if_splits)
    then have "rr_previous r < rr_end r" using renew_body_ok [OF v(2)] assms v(1) by auto
    then show ?thesis using renew_body_ok [OF v(2)] assms v(1,3) by (simp add: Pair Inr)
  qed
qed

text \<open>The subscription of the example, renewed for a month nine days after its end, when its plan defines a larger quota
  and a second one.\<close>

definition plan_ports :: ports where
  "plan_ports = no_ports\<lparr>PlansByIDs := (\<lambda>_. Inr [20 \<mapsto> \<lparr>pl_id = 20, pl_name = ''plan'', pl_kind = KindSubscription, pl_current = Some 21\<rparr>]),
     VersionsByIDs := (\<lambda>_. Inr [21 \<mapsto> \<lparr>cv_id = 21, cv_plan = 20, cv_status = VersionPublished,
       cv_quotas = [\<lparr>cq_metric = MetricTraffic, cq_limit = Some 2000, cq_period = PeriodCycle\<rparr>,
                    \<lparr>cq_metric = ''requests'', cq_limit = Some 5, cq_period = PeriodDay\<rparr>]\<rparr>])\<rparr>"

definition a_renewal :: renewal where
  "a_renewal = \<lparr>rn_sub = 1, rn_user = 10,
     rn_price = \<lparr>ps_price = None, ps_amount = 12, ps_interval = ''month'', ps_count = 1, ps_validity = None\<rparr>,
     rn_paid = jan1 + 40 * day_ns, rn_created = None, rn_order = None, rn_actor = \<lparr>a_kind = ActorPayment, a_id = None\<rparr>, rn_source = ''order''\<rparr>"

lemma a_renewal_runs:
  "case Renew exact_decimal plan_ports (\<lambda>n. 100 + n) (jan1 + 40 * day_ns) system_ctx a_renewal a_world of
     (Inl _, _) \<Rightarrow> False
   | (Inr r, w') \<Rightarrow> rr_restarted r \<and> map (\<lambda>q. (qr_limit q, qr_consumed q)) (quotas (tables w')) = [(Some 2000, 0), (Some 5, 0)] \<and>
       map rl_before (resets (tables w')) = [400]"
  by code_simp

theorem Renew_effect_witness:
  "\<exists>r w'. Renew exact_decimal plan_ports (\<lambda>n. 100 + n) (jan1 + 40 * day_ns) system_ctx a_renewal a_world = (Inr r, w') \<and>
     rr_restarted r \<and> map (\<lambda>q. (qr_limit q, qr_consumed q)) (quotas (tables w')) = [(Some 2000, 0), (Some 5, 0)] \<and>
     renewed plan_ports a_renewal r a_sub_db (tables w')"
  using Renew_effect [where D = exact_decimal and P = plan_ports and gen = "\<lambda>n. 100 + n" and now = "jan1 + 40 * day_ns" and c = system_ctx
      and i = a_renewal and w = a_world] a_renewal_runs a_sub_db_inv
  by (auto simp: a_world_def split: prod.splits sum.splits)

end
