(* ===== verification/Quic_Tree.thy ===== *)
theory Quic_Tree
  imports Go_Strings
begin

text \<open>
  The balanced search tree of \<open>internal/utils/tree/tree.go\<close> and the intervals that the frame sorter keeps in it
  (\<open>internal/utils/streamframe_interval.go\<close>). The methods \<open>Comp\<close> and \<open>Match\<close> of the values are arguments. A height is an
  \<open>int8\<close>; following a nil pointer is a panic, which is \<open>None\<close>.
\<close>

section \<open>Nodes\<close>

datatype 'a node = NilNode | Node (Value: 'a) (left: "'a node") (right: "'a node") (height_field: int)

definition wrap8 :: "int \<Rightarrow> int" where "wrap8 n = (n + 128) mod 256 - 128"

fun node_height :: "'a node \<Rightarrow> int" where
  "node_height NilNode = 0"
| "node_height (Node _ _ _ h) = h"

fun balance :: "'a node \<Rightarrow> int" where
  "balance NilNode = 0"
| "balance (Node _ l r _) = wrap8 (node_height l - node_height r)"

definition maxHeight :: "'a node \<Rightarrow> 'a node \<Rightarrow> int" where
  "maxHeight l r = (if node_height r > node_height l then node_height r else node_height l)"

text \<open>The node with these children after \<open>n.height = n.maxHeight() + 1\<close>.\<close>

definition with_height :: "'a \<Rightarrow> 'a node \<Rightarrow> 'a node \<Rightarrow> 'a node" where
  "with_height v l r = Node v l r (wrap8 (maxHeight l r + 1))"

fun rotateRight :: "'a node \<Rightarrow> 'a node option" where
  "rotateRight (Node v (Node lv ll lr _) r _) = Some (with_height lv ll (with_height v lr r))"
| "rotateRight _ = None"

fun rotateLeft :: "'a node \<Rightarrow> 'a node option" where
  "rotateLeft (Node v l (Node rv rl rr _) _) = Some (with_height rv (with_height v l rl) rr)"
| "rotateLeft _ = None"

fun node_get :: "('a \<Rightarrow> 'a \<Rightarrow> int) \<Rightarrow> 'a \<Rightarrow> 'a node \<Rightarrow> 'a option" where
  "node_get cmp val NilNode = None"
| "node_get cmp val (Node v l r _) =
     (let c = cmp val v in if c < 0 then node_get cmp val l else if c > 0 then node_get cmp val r else Some v)"

fun node_match :: "('a \<Rightarrow> 'b \<Rightarrow> int) \<Rightarrow> 'b \<Rightarrow> 'a node \<Rightarrow> 'a list" where
  "node_match mt cond NilNode = []"
| "node_match mt cond (Node v l r _) =
     (let c = mt v cond in
      if c > 0 then node_match mt cond l
      else if c < 0 then node_match mt cond r
      else node_match mt cond l @ [v] @ node_match mt cond r)"

fun node_min :: "'a node \<Rightarrow> 'a option" where
  "node_min NilNode = None"
| "node_min (Node v NilNode _ _) = Some v"
| "node_min (Node v l _ _) = node_min l"

fun node_max :: "'a node \<Rightarrow> 'a option" where
  "node_max NilNode = None"
| "node_max (Node v _ NilNode _) = Some v"
| "node_max (Node v _ r _) = node_max r"

text \<open>The end of \<open>insert\<close> and of \<open>deleteNode\<close>: the height of the node, and its rotation when it is out of balance.\<close>

definition insert_balance :: "('a \<Rightarrow> 'a \<Rightarrow> int) \<Rightarrow> 'a \<Rightarrow> 'a \<Rightarrow> 'a node \<Rightarrow> 'a node \<Rightarrow> 'a node option" where
  "insert_balance cmp val v l r =
     (let n = with_height v l r; c = balance n in
      if c > 1 then
        (case l of NilNode \<Rightarrow> None
         | Node lv _ _ _ \<Rightarrow>
             (let c = cmp val lv in
              if c < 0 then rotateRight n
              else if c > 0 then Option.bind (rotateLeft l) (\<lambda>l'. rotateRight (Node v l' r (node_height n)))
              else Some n))
      else if c < -1 then
        (case r of NilNode \<Rightarrow> None
         | Node rv _ _ _ \<Rightarrow>
             (let c = cmp val rv in
              if c > 0 then rotateLeft n
              else if c < 0 then Option.bind (rotateRight r) (\<lambda>r'. rotateLeft (Node v l r' (node_height n)))
              else Some n))
      else Some n)"

fun node_insert :: "('a \<Rightarrow> 'a \<Rightarrow> int) \<Rightarrow> 'a \<Rightarrow> 'a node \<Rightarrow> ('a node \<times> bool) option" where
  "node_insert cmp val NilNode = Some (Node val NilNode NilNode 1, True)"
| "node_insert cmp val (Node v l r h) =
     (let c = cmp val v in
      if c > 0 then Option.bind (node_insert cmp val r) (\<lambda>(r', added).
        map_option (\<lambda>n. (n, added)) (insert_balance cmp val v l r'))
      else if c < 0 then Option.bind (node_insert cmp val l) (\<lambda>(l', added).
        map_option (\<lambda>n. (n, added)) (insert_balance cmp val v l' r))
      else Some (Node val l r h, False))"

definition delete_balance :: "'a \<Rightarrow> 'a node \<Rightarrow> 'a node \<Rightarrow> 'a node option" where
  "delete_balance v l r =
     (let n = with_height v l r; bal = balance n in
      if bal > 1 then
        (if balance l \<ge> 0 then rotateRight n
         else Option.bind (rotateLeft l) (\<lambda>l'. rotateRight (Node v l' r (node_height n))))
      else if bal < -1 then
        (if balance r \<le> 0 then rotateLeft n
         else Option.bind (rotateRight r) (\<lambda>r'. rotateLeft (Node v l r' (node_height n))))
      else Some n)"

fun deleteNode :: "('a \<Rightarrow> 'a \<Rightarrow> int) \<Rightarrow> 'a \<Rightarrow> 'a node \<Rightarrow> ('a node \<times> bool) option" where
  "deleteNode cmp val NilNode = Some (NilNode, False)"
| "deleteNode cmp val (Node v l r h) =
     (let c = cmp val v in
      if c < 0 then Option.bind (deleteNode cmp val l) (\<lambda>(l', deleted).
        map_option (\<lambda>n. (n, deleted)) (delete_balance v l' r))
      else if c > 0 then Option.bind (deleteNode cmp val r) (\<lambda>(r', deleted).
        map_option (\<lambda>n. (n, deleted)) (delete_balance v l r'))
      else case l of NilNode \<Rightarrow> Some (r, True)
      | Node _ _ _ _ \<Rightarrow> (case r of NilNode \<Rightarrow> Some (l, True)
        | Node _ _ _ _ \<Rightarrow> Option.bind (node_min r) (\<lambda>t. Option.bind (deleteNode cmp t r) (\<lambda>(r', _).
            map_option (\<lambda>n. (n, True)) (delete_balance t l r')))))"

text \<open>
  The iterators: \<open>iterate\<close> and \<open>rIterate\<close> return the calls of the iterator function in their order. The flag \<open>cont\<close> is passed
  by value, so that what a call in the left subtree answers does not reach the node above it.
\<close>

fun iterate :: "('a \<Rightarrow> nat \<Rightarrow> bool) \<Rightarrow> 'a node \<Rightarrow> nat \<Rightarrow> bool \<Rightarrow> ('a \<times> nat) list" where
  "iterate f NilNode i go_on = []"
| "iterate f (Node v l r _) i go_on =
     (if go_on then
        (let ls = iterate f l i go_on; i = i + length ls; go_on = f v i in ls @ [(v, i)] @ iterate f r (i + 1) go_on)
      else [])"

fun rIterate :: "('a \<Rightarrow> nat \<Rightarrow> bool) \<Rightarrow> 'a node \<Rightarrow> nat \<Rightarrow> bool \<Rightarrow> ('a \<times> nat) list" where
  "rIterate f NilNode i go_on = []"
| "rIterate f (Node v l r _) i go_on =
     (if go_on then
        (let rs = iterate f r i go_on; i = i + length rs; go_on = f v i in rs @ [(v, i)] @ iterate f l (i + 1) go_on)
      else [])"

section \<open>Trees\<close>

record 'a Btree =
  root :: "'a node"
  cached :: "'a list option"
  len :: int

definition Btree_Init :: "'a Btree" where "Btree_Init = \<lparr>root = NilNode, cached = None, len = 0\<rparr>"

definition Btree_New :: "'a Btree" where "Btree_New = Btree_Init"

definition Empty :: "'a Btree \<Rightarrow> bool" where "Empty t = (case root t of NilNode \<Rightarrow> True | _ \<Rightarrow> False)"

definition NotEmpty :: "'a Btree \<Rightarrow> bool" where "NotEmpty t = (case root t of NilNode \<Rightarrow> False | _ \<Rightarrow> True)"

definition Insert :: "('a \<Rightarrow> 'a \<Rightarrow> int) \<Rightarrow> 'a \<Rightarrow> 'a Btree \<Rightarrow> 'a Btree option" where
  "Insert cmp val t = map_option (\<lambda>(n, added).
     \<lparr>root = n, cached = None, len = (if added then wrap64 (len t + 1) else len t)\<rparr>) (node_insert cmp val (root t))"

fun InsertAll :: "('a \<Rightarrow> 'a \<Rightarrow> int) \<Rightarrow> 'a list \<Rightarrow> 'a Btree \<Rightarrow> 'a Btree option" where
  "InsertAll cmp [] t = Some t"
| "InsertAll cmp (v # vs) t = Option.bind (Insert cmp v t) (InsertAll cmp vs)"

definition Get :: "('a \<Rightarrow> 'a \<Rightarrow> int) \<Rightarrow> 'a \<Rightarrow> 'a Btree \<Rightarrow> 'a option" where
  "Get cmp val t = node_get cmp val (root t)"

definition Contains :: "('a \<Rightarrow> 'a \<Rightarrow> int) \<Rightarrow> 'a \<Rightarrow> 'a Btree \<Rightarrow> bool" where
  "Contains cmp val t \<longleftrightarrow> Get cmp val t \<noteq> None"

fun ContainsAny :: "('a \<Rightarrow> 'a \<Rightarrow> int) \<Rightarrow> 'a list \<Rightarrow> 'a Btree \<Rightarrow> bool" where
  "ContainsAny cmp [] t = False"
| "ContainsAny cmp (v # vs) t = (if Contains cmp v t then True else ContainsAny cmp vs t)"

fun ContainsAll :: "('a \<Rightarrow> 'a \<Rightarrow> int) \<Rightarrow> 'a list \<Rightarrow> 'a Btree \<Rightarrow> bool" where
  "ContainsAll cmp [] t = True"
| "ContainsAll cmp (v # vs) t = (if \<not> Contains cmp v t then False else ContainsAll cmp vs t)"

definition Btree_Match :: "('a \<Rightarrow> 'b \<Rightarrow> int) \<Rightarrow> 'b \<Rightarrow> 'a Btree \<Rightarrow> 'a list" where
  "Btree_Match mt cond t = node_match mt cond (root t)"

definition Btree_Len :: "'a Btree \<Rightarrow> int" where "Btree_Len t = len t"

definition Head :: "'a Btree \<Rightarrow> 'a option" where "Head t = node_min (root t)"

definition Tail :: "'a Btree \<Rightarrow> 'a option" where "Tail t = node_max (root t)"

definition Ascend :: "('a \<Rightarrow> nat \<Rightarrow> bool) \<Rightarrow> 'a Btree \<Rightarrow> ('a \<times> nat) list" where
  "Ascend f t = iterate f (root t) 0 True"

definition Descend :: "('a \<Rightarrow> nat \<Rightarrow> bool) \<Rightarrow> 'a Btree \<Rightarrow> ('a \<times> nat) list" where
  "Descend f t = rIterate f (root t) 0 True"

text \<open>
  \<open>Values\<close> fills a slice of \<open>len\<close> zero values. An index beyond it, and a negative length, is a panic.
\<close>

definition Values :: "'a \<Rightarrow> 'a Btree \<Rightarrow> ('a list \<times> 'a Btree) option" where
  "Values zero t = (case cached t of Some vs \<Rightarrow> Some (vs, t)
     | None \<Rightarrow> (let calls = Ascend (\<lambda>_ _. True) t in
         if len t < 0 \<or> int (length calls) > len t then None
         else let vs = fold (\<lambda>(v, i) vs. vs[i := v]) calls (replicate (nat (len t)) zero) in
           Some (vs, t\<lparr>cached := Some vs\<rparr>)))"

definition Delete :: "('a \<Rightarrow> 'a \<Rightarrow> int) \<Rightarrow> 'a \<Rightarrow> 'a Btree \<Rightarrow> 'a Btree option" where
  "Delete cmp val t = map_option (\<lambda>(n, deleted).
     \<lparr>root = n, cached = None, len = (if deleted then wrap64 (len t - 1) else len t)\<rparr>) (deleteNode cmp val (root t))"

fun DeleteAll :: "('a \<Rightarrow> 'a \<Rightarrow> int) \<Rightarrow> 'a list \<Rightarrow> 'a Btree \<Rightarrow> 'a Btree option" where
  "DeleteAll cmp [] t = Some t"
| "DeleteAll cmp (v # vs) t = Option.bind (Delete cmp v t) (DeleteAll cmp vs)"

definition Btree_Pop :: "('a \<Rightarrow> 'a \<Rightarrow> int) \<Rightarrow> 'a Btree \<Rightarrow> ('a option \<times> 'a Btree) option" where
  "Btree_Pop cmp t = (case Tail t of None \<Rightarrow> Some (None, t)
     | Some v \<Rightarrow> map_option (\<lambda>t'. (Some v, t')) (Delete cmp v t))"

definition Pull :: "('a \<Rightarrow> 'a \<Rightarrow> int) \<Rightarrow> 'a Btree \<Rightarrow> ('a option \<times> 'a Btree) option" where
  "Pull cmp t = (case Head t of None \<Rightarrow> Some (None, t)
     | Some v \<Rightarrow> map_option (\<lambda>t'. (Some v, t')) (Delete cmp v t))"

section \<open>Intervals of bytes\<close>

datatype ByteInterval = ByteInterval (bi_Start: int) (bi_End: int)

definition Comp :: "ByteInterval \<Rightarrow> ByteInterval \<Rightarrow> int" where
  "Comp i v = (if bi_Start i < bi_Start v then -1 else if bi_Start i > bi_Start v then 1
     else if bi_End i < bi_End v then -1 else if bi_End i > bi_End v then 1 else 0)"

definition Match :: "ByteInterval \<Rightarrow> ByteInterval \<Rightarrow> int" where
  "Match i n = (if bi_Start i \<le> bi_End n \<and> bi_End i \<ge> bi_Start n then 0 else if bi_Start i > bi_End n then 1 else -1)"

section \<open>Shape\<close>

fun inorder :: "'a node \<Rightarrow> 'a list" where
  "inorder NilNode = []"
| "inorder (Node v l r _) = inorder l @ v # inorder r"

fun avl :: "'a node \<Rightarrow> bool" where
  "avl NilNode \<longleftrightarrow> True"
| "avl (Node _ l r h) \<longleftrightarrow> avl l \<and> avl r \<and> h = 1 + max (node_height l) (node_height r) \<and> \<bar>node_height l - node_height r\<bar> \<le> 1"

lemma wrap8_id [simp]: "-128 \<le> n \<Longrightarrow> n < 128 \<Longrightarrow> wrap8 n = n"
  by (simp add: wrap8_def)

lemma avl_height_nonneg: "avl t \<Longrightarrow> 0 \<le> node_height t"
  by (induction t) auto

lemma avl_height_0: "avl t \<Longrightarrow> node_height t \<le> 0 \<longleftrightarrow> t = NilNode"
  using avl_height_nonneg by (cases t) fastforce+

text \<open>A tree of height \<open>h\<close> has at least \<open>2 ^ (h div 2) - 1\<close> values.\<close>

lemma avl_size: "avl t \<Longrightarrow> 2 ^ (nat (node_height t) div 2) \<le> length (inorder t) + 1"
proof (induction t rule: measure_induct_rule [where f = size])
  case (less t)
  show ?case
  proof (cases t)
    case (Node v l r h)
    have lr: "avl l" "avl r" "0 \<le> node_height l" "0 \<le> node_height r"
      using less.prems Node avl_height_nonneg by auto
    define k where "k = nat h - 2"
    show ?thesis
    proof (cases "h \<ge> 2")
      case True
      have low: "k \<le> nat (node_height l)" "k \<le> nat (node_height r)"
        using less.prems Node True lr by (auto simp: k_def)
      have "2 ^ (nat (node_height l) div 2) \<le> length (inorder l) + 1" "2 ^ (nat (node_height r) div 2) \<le> length (inorder r) + 1"
        using less.IH [of l] less.IH [of r] lr Node by auto
      moreover have "(2::nat) ^ (k div 2) \<le> 2 ^ (nat (node_height l) div 2)" "(2::nat) ^ (k div 2) \<le> 2 ^ (nat (node_height r) div 2)"
        using low by (auto intro!: power_increasing div_le_mono)
      ultimately have "2 ^ (k div 2) + 2 ^ (k div 2) \<le> (length (inorder l) + 1) + (length (inorder r) + 1)"
        by (intro add_mono) (rule order_trans, assumption+)+
      then have "2 * 2 ^ (k div 2) \<le> length (inorder t) + 1" using Node by simp
      moreover have "nat h div 2 = Suc (k div 2)" using True by (simp add: k_def nat_diff_distrib' div_add_self2)
      ultimately show ?thesis using Node by simp
    next
      case False
      then have "nat h div 2 = 0" by auto
      then show ?thesis using Node by simp
    qed
  qed simp
qed

lemma avl_height_bound:
  assumes "avl t" and "length (inorder t) < 2 ^ 62"
  shows "node_height t \<le> 125"
proof (rule ccontr)
  assume "\<not> ?thesis"
  then have "63 \<le> nat (node_height t) div 2" by auto
  then have "(2::nat) ^ 63 \<le> 2 ^ (nat (node_height t) div 2)" by (rule power_increasing) simp
  with avl_size [OF assms(1)] assms(2) show False by simp
qed

lemma inorder_with_height [simp]: "inorder (with_height v l r) = inorder l @ v # inorder r"
  by (simp add: with_height_def)

lemma height_with_height [simp]:
  "avl l \<Longrightarrow> avl r \<Longrightarrow> node_height l \<le> 126 \<Longrightarrow> node_height r \<le> 126 \<Longrightarrow>
    node_height (with_height v l r) = 1 + max (node_height l) (node_height r)"
  using avl_height_nonneg [of l] avl_height_nonneg [of r] by (auto simp: with_height_def maxHeight_def)

lemma avl_with_height [simp]:
  "avl l \<Longrightarrow> avl r \<Longrightarrow> node_height l \<le> 126 \<Longrightarrow> node_height r \<le> 126 \<Longrightarrow> \<bar>node_height l - node_height r\<bar> \<le> 1 \<Longrightarrow>
    avl (with_height v l r)"
  using height_with_height [of l r v] by (simp add: with_height_def)

lemma balance_with_height:
  "avl l \<Longrightarrow> avl r \<Longrightarrow> node_height l \<le> 126 \<Longrightarrow> node_height r \<le> 126 \<Longrightarrow>
    balance (with_height v l r) = node_height l - node_height r"
  using avl_height_nonneg [of l] avl_height_nonneg [of r] by (simp add: with_height_def)

lemma balance_avl: "avl (Node v l r h) \<Longrightarrow> balance (Node v l r h) = node_height l - node_height r"
  by (auto simp: abs_if split: if_splits)

text \<open>Rotations keep the values in order, and level a node whose subtrees differ by two.\<close>

lemma rotateRight_with_height [simp]:
  "rotateRight (Node v (with_height lv ll lr) r h) = Some (with_height lv ll (with_height v lr r))"
  by (simp add: with_height_def [of lv ll lr])

lemma rotateLeft_with_height [simp]:
  "rotateLeft (Node v l (with_height rv rl rr) h) = Some (with_height rv (with_height v l rl) rr)"
  by (simp add: with_height_def [of rv rl rr])

lemma rotateRight_inorder: "rotateRight n = Some n' \<Longrightarrow> inorder n' = inorder n"
  by (cases n rule: rotateRight.cases) auto

lemma rotateLeft_inorder: "rotateLeft n = Some n' \<Longrightarrow> inorder n' = inorder n"
  by (cases n rule: rotateLeft.cases) auto

lemma rotate_right_avl:
  assumes "avl l" "avl r" "node_height l = node_height r + 2" "node_height l \<le> 126" "balance l \<ge> 0"
  shows "\<exists>n. rotateRight (Node v l r h) = Some n \<and> avl n \<and>
    node_height n = node_height l + (if balance l = 0 then 1 else 0)"
proof (cases l)
  case NilNode
  then show ?thesis using assms avl_height_nonneg [of r] by simp
next
  case (Node lv ll lr lh)
  have "balance l = node_height ll - node_height lr" using balance_avl [OF assms(1) [unfolded Node]] Node by simp
  then show ?thesis
    using assms Node avl_height_nonneg [of ll] avl_height_nonneg [of lr] avl_height_nonneg [of r]
    by (auto simp: max_def split: if_splits)
qed

lemma rotate_left_avl:
  assumes "avl l" "avl r" "node_height r = node_height l + 2" "node_height r \<le> 126" "balance r \<le> 0"
  shows "\<exists>n. rotateLeft (Node v l r h) = Some n \<and> avl n \<and>
    node_height n = node_height r + (if balance r = 0 then 1 else 0)"
proof (cases r)
  case NilNode
  then show ?thesis using assms avl_height_nonneg [of l] by simp
next
  case (Node rv rl rr rh)
  have "balance r = node_height rl - node_height rr" using balance_avl [OF assms(2) [unfolded Node]] Node by simp
  then show ?thesis
    using assms Node avl_height_nonneg [of rl] avl_height_nonneg [of rr] avl_height_nonneg [of l]
    by (auto simp: max_def split: if_splits)
qed

lemma rotate_left_right_avl:
  assumes "avl l" "avl r" "node_height l = node_height r + 2" "node_height l \<le> 126" "balance l < 0"
  shows "\<exists>n. Option.bind (rotateLeft l) (\<lambda>l'. rotateRight (Node v l' r h)) = Some n \<and> avl n \<and> node_height n = node_height l"
proof (cases l)
  case NilNode
  then show ?thesis using assms avl_height_nonneg [of r] by simp
next
  case (Node lv ll lr lh)
  have b: "balance l = node_height ll - node_height lr" using balance_avl [OF assms(1) [unfolded Node]] Node by simp
  show ?thesis
  proof (cases lr)
    case NilNode
    then show ?thesis using assms b Node avl_height_nonneg [of ll] by simp
  next
    case inner: (Node v' l' r' h')
    then show ?thesis
      using assms Node b avl_height_nonneg [of ll] avl_height_nonneg [of l'] avl_height_nonneg [of r'] avl_height_nonneg [of r]
      by (auto simp: max_def split: if_splits)
  qed
qed

lemma rotate_right_left_avl:
  assumes "avl l" "avl r" "node_height r = node_height l + 2" "node_height r \<le> 126" "balance r > 0"
  shows "\<exists>n. Option.bind (rotateRight r) (\<lambda>r'. rotateLeft (Node v l r' h)) = Some n \<and> avl n \<and> node_height n = node_height r"
proof (cases r)
  case NilNode
  then show ?thesis using assms avl_height_nonneg [of l] by simp
next
  case (Node rv rl rr rh)
  have b: "balance r = node_height rl - node_height rr" using balance_avl [OF assms(2) [unfolded Node]] Node by simp
  show ?thesis
  proof (cases rl)
    case NilNode
    then show ?thesis using assms b Node avl_height_nonneg [of rr] by simp
  next
    case inner: (Node v' l' r' h')
    then show ?thesis
      using assms Node b avl_height_nonneg [of rr] avl_height_nonneg [of l'] avl_height_nonneg [of r'] avl_height_nonneg [of l]
      by (auto simp: max_def split: if_splits)
  qed
qed

lemma bind_rotations_inorder:
  "Option.bind (rotateLeft l) (\<lambda>l'. rotateRight (Node v l' r h)) = Some n \<Longrightarrow> inorder n = inorder l @ v # inorder r"
  "Option.bind (rotateRight r) (\<lambda>r'. rotateLeft (Node v l r' h)) = Some n \<Longrightarrow> inorder n = inorder l @ v # inorder r"
  by (auto simp: Option.bind_eq_Some_conv dest!: rotateLeft_inorder rotateRight_inorder)

lemma delete_balance_avl:
  assumes "avl l" "avl r" "\<bar>node_height l - node_height r\<bar> \<le> 2" "node_height l \<le> 126" "node_height r \<le> 126"
  shows "\<exists>n. delete_balance v l r = Some n \<and> avl n \<and> inorder n = inorder l @ v # inorder r \<and>
    (node_height n = 1 + max (node_height l) (node_height r) \<or>
     \<bar>node_height l - node_height r\<bar> = 2 \<and> node_height n = max (node_height l) (node_height r))"
proof -
  obtain h where n: "with_height v l r = Node v l r h" "balance (with_height v l r) = node_height l - node_height r"
    using assms balance_with_height by (auto simp: with_height_def)
  consider "node_height l = node_height r + 2" "balance l \<ge> 0" | "node_height l = node_height r + 2" "balance l < 0"
    | "node_height r = node_height l + 2" "balance r \<le> 0" | "node_height r = node_height l + 2" "balance r > 0"
    | "\<bar>node_height l - node_height r\<bar> \<le> 1"
    using assms(3) by linarith
  then show ?thesis
  proof cases
    case 1
    then show ?thesis
      using n rotate_right_avl [OF assms(1,2), of v h] assms(4,5) rotateRight_inorder [of "Node v l r h"]
      by (auto simp: delete_balance_def Let_def split: if_splits)
  next
    case 2
    then show ?thesis
      using n rotate_left_right_avl [OF assms(1,2), of v h] assms(4,5)
      by (auto simp: delete_balance_def Let_def split: if_splits dest: bind_rotations_inorder)
  next
    case 3
    then show ?thesis
      using n rotate_left_avl [OF assms(1,2), of v h] assms(4,5) rotateLeft_inorder [of "Node v l r h"]
      by (auto simp: delete_balance_def Let_def split: if_splits)
  next
    case 4
    then show ?thesis
      using n rotate_right_left_avl [OF assms(1,2), of v h] assms(4,5)
      by (auto simp: delete_balance_def Let_def split: if_splits dest: bind_rotations_inorder)
  next
    case 5
    then show ?thesis
      using n assms avl_with_height [OF assms(1,2,4,5), of v] height_with_height [OF assms(1,2,4,5), of v]
      by (auto simp: delete_balance_def Let_def)
  qed
qed

lemma insert_balance_avl:
  assumes "avl l" "avl r" "\<bar>node_height l - node_height r\<bar> \<le> 2" "node_height l \<le> 126" "node_height r \<le> 126"
    and "node_height l = node_height r + 2 \<Longrightarrow> (cmp val (Value l) < 0 \<and> balance l > 0) \<or> (cmp val (Value l) > 0 \<and> balance l < 0)"
    and "node_height r = node_height l + 2 \<Longrightarrow> (cmp val (Value r) > 0 \<and> balance r < 0) \<or> (cmp val (Value r) < 0 \<and> balance r > 0)"
  shows "\<exists>n. insert_balance cmp val v l r = Some n \<and> avl n \<and> inorder n = inorder l @ v # inorder r \<and>
    (if \<bar>node_height l - node_height r\<bar> = 2 then node_height n = max (node_height l) (node_height r)
     else n = with_height v l r)"
proof -
  obtain h where n: "with_height v l r = Node v l r h" "balance (with_height v l r) = node_height l - node_height r"
    using assms balance_with_height by (auto simp: with_height_def)
  consider "node_height l = node_height r + 2" | "node_height r = node_height l + 2" | "\<bar>node_height l - node_height r\<bar> \<le> 1"
    using assms(3) by linarith
  then show ?thesis
  proof cases
    case 1
    then obtain lv ll lr lh where "l = Node lv ll lr lh"
      using avl_height_nonneg [OF assms(2)] by (cases l) auto
    then show ?thesis
      using n 1 rotate_right_avl [OF assms(1,2), of v h] rotate_left_right_avl [OF assms(1,2), of v h] assms(4-6)
        rotateRight_inorder [of "Node v l r h"] bind_rotations_inorder(1) [of l v r h]
      by (auto simp: insert_balance_def Let_def)
  next
    case 2
    then obtain rv rl rr rh where "r = Node rv rl rr rh"
      using avl_height_nonneg [OF assms(1)] by (cases r) auto
    then show ?thesis
      using n 2 rotate_left_avl [OF assms(1,2), of v h] rotate_right_left_avl [OF assms(1,2), of v h] assms(4,5,7)
        rotateLeft_inorder [of "Node v l r h"] bind_rotations_inorder(2) [of r v l h]
      by (auto simp: insert_balance_def Let_def)
  next
    case 3
    then show ?thesis
      using n avl_with_height [OF assms(1,2,4,5), of v] inorder_with_height [of v l r]
      by (auto simp: insert_balance_def Let_def)
  qed
qed

section \<open>Search trees\<close>

lemma node_min_hd: "n \<noteq> NilNode \<Longrightarrow> node_min n = Some (hd (inorder n))"
  by (induction n rule: node_min.induct) (auto simp: hd_append)

lemma node_max_last: "n \<noteq> NilNode \<Longrightarrow> node_max n = Some (last (inorder n))"
  by (induction n rule: node_max.induct) auto

lemma inorder_empty [simp]: "inorder n = [] \<longleftrightarrow> n = NilNode"
  by (cases n) auto

text \<open>\<open>Match\<close> finds all that match where the values that are too low come first and those too high last.\<close>

lemma node_match_filter:
  "sorted_wrt (\<lambda>x y. (mt y cond < 0 \<longrightarrow> mt x cond < 0) \<and> (mt x cond > 0 \<longrightarrow> mt y cond > 0)) (inorder n) \<Longrightarrow>
    node_match mt cond n = filter (\<lambda>x. mt x cond = 0) (inorder n)"
proof (induction n)
  case (Node v l r h)
  have l: "mt v cond < 0 \<Longrightarrow> filter (\<lambda>x. mt x cond = 0) (inorder l) = []"
    and r: "mt v cond > 0 \<Longrightarrow> filter (\<lambda>x. mt x cond = 0) (inorder r) = []"
    using Node.prems by (fastforce simp: sorted_wrt_append filter_empty_conv)+
  show ?case using Node l r by (auto simp: sorted_wrt_append Let_def)
qed simp

text \<open>What a type of values promises: \<open>Comp\<close> is a linear order.\<close>

locale val_order =
  fixes cmp :: "'a \<Rightarrow> 'a \<Rightarrow> int"
  assumes cmp_eq: "cmp x y = 0 \<longleftrightarrow> x = y"
    and cmp_flip: "cmp x y < 0 \<longleftrightarrow> cmp y x > 0"
    and cmp_trans: "cmp x y < 0 \<Longrightarrow> cmp y z < 0 \<Longrightarrow> cmp x z < 0"
begin

abbreviation ascending :: "'a list \<Rightarrow> bool" where "ascending \<equiv> sorted_wrt (\<lambda>x y. cmp x y < 0)"

lemma cmp_cases: "cmp x y < 0 \<or> x = y \<or> cmp x y > 0"
  using cmp_eq [of x y] by linarith

lemma cmp_refl [simp]: "cmp x x = 0"
  by (simp add: cmp_eq)

lemma cmp_pos: "cmp x y > 0 \<longleftrightarrow> cmp y x < 0"
  by (simp add: cmp_flip)

text \<open>Two ascending lists of the same values are the same list.\<close>

lemma ascending_distinct: "ascending xs \<Longrightarrow> distinct xs"
  by (induction xs) (auto simp: cmp_eq [symmetric])

lemma ascending_unique: "ascending xs \<Longrightarrow> ascending ys \<Longrightarrow> set xs = set ys \<Longrightarrow> xs = ys"
proof (induction xs arbitrary: ys)
  case (Cons x xs)
  then obtain y ys' where ys: "ys = y # ys'" by (cases ys) auto
  have "x = y" using Cons.prems cmp_flip cmp_refl unfolding ys by (metis less_asym list.set_intros(1) set_ConsD sorted_wrt.simps(2))
  moreover have "x \<notin> set xs" "y \<notin> set ys'"
    using Cons.prems ascending_distinct unfolding ys by fastforce+
  ultimately show ?case using Cons ys by (metis insert_ident list.simps(15) sorted_wrt.simps(2))
qed simp

text \<open>Insertion. When the tree grows, its root leans towards the inserted value.\<close>

definition leans :: "'a \<Rightarrow> 'a node \<Rightarrow> bool" where
  "leans val n \<longleftrightarrow> node_height n > 1 \<longrightarrow>
     (cmp val (Value n) < 0 \<and> balance n > 0) \<or> (cmp val (Value n) > 0 \<and> balance n < 0)"

lemma insert_left_balance:
  assumes "avl l'" "avl r" "\<bar>node_height l - node_height r\<bar> \<le> 1" "node_height l \<le> 125" "node_height r \<le> 125"
    and grow: "node_height l' = node_height l \<or> node_height l' = node_height l + 1 \<and> leans val l'" and "cmp val v < 0"
  shows "\<exists>n. insert_balance cmp val v l' r = Some n \<and> avl n \<and> inorder n = inorder l' @ v # inorder r \<and>
    (node_height n = 1 + max (node_height l) (node_height r) \<or> node_height n = 1 + max (node_height l) (node_height r) + 1 \<and> leans val n)"
proof -
  have b: "node_height l' \<le> 126" "node_height r \<le> 126" "\<bar>node_height l' - node_height r\<bar> \<le> 2" "node_height r \<noteq> node_height l' + 2"
    using assms by auto
  have "node_height l' = node_height r + 2 \<Longrightarrow> (cmp val (Value l') < 0 \<and> balance l' > 0) \<or> (cmp val (Value l') > 0 \<and> balance l' < 0)"
    using assms(3) grow avl_height_nonneg [OF assms(2)] by (auto simp: leans_def)
  from insert_balance_avl [where cmp = cmp and val = val and v = v, OF assms(1,2) b(3,1,2) this] b(4)
  obtain n where n: "insert_balance cmp val v l' r = Some n" "avl n" "inorder n = inorder l' @ v # inorder r"
    "if \<bar>node_height l' - node_height r\<bar> = 2 then node_height n = max (node_height l') (node_height r) else n = with_height v l' r"
    by blast
  have w: "node_height (with_height v l' r) = 1 + max (node_height l') (node_height r)"
    "balance (with_height v l' r) = node_height l' - node_height r" "Value (with_height v l' r) = v"
    using assms(1,2) b by (simp_all add: balance_with_height) (simp add: with_height_def)
  show ?thesis using n w assms(3,7) grow b(3) by (auto simp: leans_def max_def split: if_splits)
qed

lemma insert_right_balance:
  assumes "avl l" "avl r'" "\<bar>node_height l - node_height r\<bar> \<le> 1" "node_height l \<le> 125" "node_height r \<le> 125"
    and grow: "node_height r' = node_height r \<or> node_height r' = node_height r + 1 \<and> leans val r'" and "cmp val v > 0"
  shows "\<exists>n. insert_balance cmp val v l r' = Some n \<and> avl n \<and> inorder n = inorder l @ v # inorder r' \<and>
    (node_height n = 1 + max (node_height l) (node_height r) \<or> node_height n = 1 + max (node_height l) (node_height r) + 1 \<and> leans val n)"
proof -
  have b: "node_height l \<le> 126" "node_height r' \<le> 126" "\<bar>node_height l - node_height r'\<bar> \<le> 2" "node_height l \<noteq> node_height r' + 2"
    using assms by auto
  have "node_height r' = node_height l + 2 \<Longrightarrow> (cmp val (Value r') > 0 \<and> balance r' < 0) \<or> (cmp val (Value r') < 0 \<and> balance r' > 0)"
    using assms(3) grow avl_height_nonneg [OF assms(1)] by (auto simp: leans_def)
  from insert_balance_avl [where cmp = cmp and val = val and v = v, OF assms(1,2) b(3,1,2) _ this] b(4)
  obtain n where n: "insert_balance cmp val v l r' = Some n" "avl n" "inorder n = inorder l @ v # inorder r'"
    "if \<bar>node_height l - node_height r'\<bar> = 2 then node_height n = max (node_height l) (node_height r') else n = with_height v l r'"
    by blast
  have w: "node_height (with_height v l r') = 1 + max (node_height l) (node_height r')"
    "balance (with_height v l r') = node_height l - node_height r'" "Value (with_height v l r') = v"
    using assms(1,2) b by (simp_all add: balance_with_height) (simp add: with_height_def)
  show ?thesis using n w assms(3,7) grow b(3) by (auto simp: leans_def max_def split: if_splits)
qed

lemma node_insert_avl:
  assumes "avl n" and "ascending (inorder n)" and "length (inorder n) < 2 ^ 62"
  shows "\<exists>n' added. node_insert cmp val n = Some (n', added) \<and> avl n' \<and> ascending (inorder n') \<and>
    set (inorder n') = insert val (set (inorder n)) \<and> (added \<longleftrightarrow> val \<notin> set (inorder n)) \<and>
    (node_height n' = node_height n \<or> node_height n' = node_height n + 1 \<and> leans val n')"
  using assms
proof (induction n)
  case NilNode
  then show ?case by (intro exI [of _ "Node val NilNode NilNode 1"] exI [of _ True]) (simp add: leans_def)
next
  case (Node v l r h)
  have bounds: "node_height l \<le> 125" "node_height r \<le> 125" using Node.prems by (auto intro!: avl_height_bound)
  have pre: "avl l" "avl r" "ascending (inorder l)" "ascending (inorder r)" "length (inorder l) < 2 ^ 62" "length (inorder r) < 2 ^ 62"
    "\<forall>x \<in> set (inorder l). cmp x v < 0" "\<forall>x \<in> set (inorder r). cmp v x < 0" "\<bar>node_height l - node_height r\<bar> \<le> 1"
    "h = 1 + max (node_height l) (node_height r)"
    using Node.prems by (auto simp: sorted_wrt_append)
  consider "cmp val v < 0" | "cmp val v > 0" | "val = v" using cmp_cases by blast
  then show ?case
  proof cases
    case 1
    with pre obtain l' added where l': "node_insert cmp val l = Some (l', added)" "avl l'" "ascending (inorder l')"
      "set (inorder l') = insert val (set (inorder l))" "added \<longleftrightarrow> val \<notin> set (inorder l)"
      "node_height l' = node_height l \<or> node_height l' = node_height l + 1 \<and> leans val l'"
      using Node.IH(1) by blast
    from insert_left_balance [OF this(2) pre(2,9) bounds this(6) 1] pre(10)
    obtain n where n: "insert_balance cmp val v l' r = Some n" "avl n" "inorder n = inorder l' @ v # inorder r"
      "node_height n = h \<or> node_height n = h + 1 \<and> leans val n"
      by auto
    have "val \<noteq> v" "val \<notin> set (inorder r)" using 1 pre(8) cmp_flip [of v val] by fastforce+
    then show ?thesis using 1 l' n pre(4,7,8) by (auto simp: sorted_wrt_append intro: cmp_trans)
  next
    case 2
    with pre obtain r' added where r': "node_insert cmp val r = Some (r', added)" "avl r'" "ascending (inorder r')"
      "set (inorder r') = insert val (set (inorder r))" "added \<longleftrightarrow> val \<notin> set (inorder r)"
      "node_height r' = node_height r \<or> node_height r' = node_height r + 1 \<and> leans val r'"
      using Node.IH(2) by blast
    from insert_right_balance [OF pre(1) this(2) pre(9) bounds this(6) 2] pre(10)
    obtain n where n: "insert_balance cmp val v l r' = Some n" "avl n" "inorder n = inorder l @ v # inorder r'"
      "node_height n = h \<or> node_height n = h + 1 \<and> leans val n"
      by auto
    have "val \<noteq> v" "val \<notin> set (inorder l)" "cmp v val < 0" using 2 pre(7) cmp_flip [of v val] by fastforce+
    then show ?thesis using 2 r' n pre(3,7,8) by (auto simp: sorted_wrt_append intro: cmp_trans)
  next
    case 3
    then show ?thesis using Node.prems by auto
  qed
qed

text \<open>Deletion.\<close>

lemma deleteNode_avl:
  assumes "avl n" and "ascending (inorder n)" and "length (inorder n) < 2 ^ 62"
  shows "\<exists>n' deleted. deleteNode cmp val n = Some (n', deleted) \<and> avl n' \<and> ascending (inorder n') \<and>
    set (inorder n') = set (inorder n) - {val} \<and> (deleted \<longleftrightarrow> val \<in> set (inorder n)) \<and>
    (node_height n' = node_height n \<or> node_height n' = node_height n - 1)"
  using assms
proof (induction n arbitrary: val)
  case NilNode
  then show ?case by (intro exI [of _ NilNode] exI [of _ False]) simp
next
  case (Node v l r h)
  have bounds: "node_height l \<le> 125" "node_height r \<le> 125" using Node.prems by (auto intro!: avl_height_bound)
  have pre: "avl l" "avl r" "ascending (inorder l)" "ascending (inorder r)" "length (inorder l) < 2 ^ 62" "length (inorder r) < 2 ^ 62"
    "\<forall>x \<in> set (inorder l). cmp x v < 0" "\<forall>x \<in> set (inorder r). cmp v x < 0" "\<bar>node_height l - node_height r\<bar> \<le> 1"
    "h = 1 + max (node_height l) (node_height r)"
    using Node.prems by (auto simp: sorted_wrt_append)
  have cross: "\<forall>x \<in> set (inorder l). \<forall>y \<in> set (inorder r). cmp x y < 0" using pre(7,8) cmp_trans by blast
  consider "cmp val v < 0" | "cmp val v > 0" | "val = v" using cmp_cases by blast
  then show ?case
  proof cases
    case 1
    with pre obtain l' deleted where l': "deleteNode cmp val l = Some (l', deleted)" "avl l'" "ascending (inorder l')"
      "set (inorder l') = set (inorder l) - {val}" "deleted \<longleftrightarrow> val \<in> set (inorder l)"
      "node_height l' = node_height l \<or> node_height l' = node_height l - 1"
      using Node.IH(1) by blast
    obtain n where n: "delete_balance v l' r = Some n" "avl n" "inorder n = inorder l' @ v # inorder r"
      "node_height n = h \<or> node_height n = h - 1"
      using delete_balance_avl [OF l'(2) pre(2), of v] l'(6) pre(9,10) bounds by fastforce
    have "val \<noteq> v" "val \<notin> set (inorder r)" using 1 pre(8) cmp_flip [of v val] by fastforce+
    then show ?thesis using 1 l' n pre(4,7,8) cross by (auto simp: sorted_wrt_append)
  next
    case 2
    with pre obtain r' deleted where r': "deleteNode cmp val r = Some (r', deleted)" "avl r'" "ascending (inorder r')"
      "set (inorder r') = set (inorder r) - {val}" "deleted \<longleftrightarrow> val \<in> set (inorder r)"
      "node_height r' = node_height r \<or> node_height r' = node_height r - 1"
      using Node.IH(2) by blast
    obtain n where n: "delete_balance v l r' = Some n" "avl n" "inorder n = inorder l @ v # inorder r'"
      "node_height n = h \<or> node_height n = h - 1"
      using delete_balance_avl [OF pre(1) r'(2), of v] r'(6) pre(9,10) bounds by fastforce
    have "val \<noteq> v" "val \<notin> set (inorder l)" using 2 pre(7) cmp_flip [of v val] by fastforce+
    then show ?thesis using 2 r' n pre(3,7,8) cross by (auto simp: sorted_wrt_append)
  next
    case 3
    have out: "v \<notin> set (inorder l)" "v \<notin> set (inorder r)" using pre(7,8) by fastforce+
    show ?thesis
    proof (cases "l = NilNode \<or> r = NilNode")
      case True
      then show ?thesis
        using 3 pre out avl_height_nonneg [of l] avl_height_nonneg [of r] by (cases l; cases r) auto
    next
      case False
      define t where "t = hd (inorder r)"
      have t: "node_min r = Some t" "t \<in> set (inorder r)" "\<forall>x \<in> set (inorder r) - {t}. cmp t x < 0"
        using False pre(4) node_min_hd [of r] by (cases "inorder r"; auto simp: t_def)+
      obtain r' where r': "deleteNode cmp t r = Some (r', True)" "avl r'" "ascending (inorder r')"
        "set (inorder r') = set (inorder r) - {t}" "node_height r' = node_height r \<or> node_height r' = node_height r - 1"
        using Node.IH(2) [of t] pre t(2) by auto
      obtain n where n: "delete_balance t l r' = Some n" "avl n" "inorder n = inorder l @ t # inorder r'"
        "node_height n = h \<or> node_height n = h - 1"
        using delete_balance_avl [OF pre(1) r'(2), of t] r'(5) pre(9,10) bounds by fastforce
      have "deleteNode cmp val (Node v l r h) = Some (n, True)"
        using False 3 t(1) r'(1) n(1) by (cases l; cases r) auto
      then show ?thesis using 3 n r'(3,4) pre(3) t cross out by (auto simp: sorted_wrt_append)
    qed
  qed
qed

lemma node_get_exact: "ascending (inorder n) \<Longrightarrow> node_get cmp val n = (if val \<in> set (inorder n) then Some val else None)"
proof (induction n)
  case (Node v l r h)
  have "val \<in> set (inorder l) \<Longrightarrow> cmp val v < 0" "val \<in> set (inorder r) \<Longrightarrow> cmp val v > 0"
    using Node.prems cmp_pos by (auto simp: sorted_wrt_append)
  then show ?case using Node cmp_cases [of val v] by (auto simp: sorted_wrt_append Let_def)
qed simp

text \<open>The tree: its values are an ascending list, and each operation does on it what the name says.\<close>

definition tree_ok :: "'a Btree \<Rightarrow> bool" where
  "tree_ok t \<longleftrightarrow> avl (root t) \<and> ascending (inorder (root t)) \<and> len t = int (length (inorder (root t))) \<and>
     (cached t = None \<or> cached t = Some (inorder (root t)))"

definition ins :: "'a \<Rightarrow> 'a list \<Rightarrow> 'a list" where
  "ins v xs = filter (\<lambda>x. cmp x v < 0) xs @ [v] @ filter (\<lambda>x. cmp x v > 0) xs"

lemma set_ins [simp]: "set (ins v xs) = insert v (set xs)"
  using cmp_cases by (auto simp: ins_def)

lemma ascending_filter: "ascending xs \<Longrightarrow> ascending (filter P xs)"
  by (rule sorted_wrt_filter)

lemma ascending_ins: "ascending xs \<Longrightarrow> ascending (ins v xs)"
  by (auto simp: ins_def sorted_wrt_append ascending_filter cmp_flip [symmetric] cmp_pos intro: cmp_trans)

lemma length_ins: "ascending xs \<Longrightarrow> length (ins v xs) = length xs + (if v \<in> set xs then 0 else 1)"
  using ascending_distinct [of xs] ascending_distinct [OF ascending_ins, of xs v]
  by (simp add: distinct_card [symmetric] card_insert_if)

lemma Insert_ok:
  assumes "tree_ok t" and "len t < 2 ^ 62"
  shows "\<exists>t'. Insert cmp v t = Some t' \<and> tree_ok t' \<and> inorder (root t') = ins v (inorder (root t))"
proof -
  have t: "avl (root t)" "ascending (inorder (root t))" "length (inorder (root t)) < 2 ^ 62" "len t = int (length (inorder (root t)))"
    using assms by (auto simp: tree_ok_def)
  obtain n' added where n': "node_insert cmp v (root t) = Some (n', added)" "avl n'" "ascending (inorder n')"
    "set (inorder n') = insert v (set (inorder (root t)))" "added \<longleftrightarrow> v \<notin> set (inorder (root t))"
    using node_insert_avl [OF t(1-3)] by blast
  have eq: "inorder n' = ins v (inorder (root t))"
    using n' t by (intro ascending_unique) (auto simp: ascending_ins)
  then have "int (length (inorder n')) = (if added then wrap64 (len t + 1) else len t)"
    using n'(5) t assms(2) by (simp add: length_ins wrap64_id in_int64_def min_int64_def max_int64_def)
  then show ?thesis using n' eq by (auto simp: Insert_def tree_ok_def)
qed

lemma Delete_ok:
  assumes "tree_ok t" and "len t < 2 ^ 62"
  shows "\<exists>t'. Delete cmp v t = Some t' \<and> tree_ok t' \<and> inorder (root t') = filter (\<lambda>x. x \<noteq> v) (inorder (root t))"
proof -
  have t: "avl (root t)" "ascending (inorder (root t))" "length (inorder (root t)) < 2 ^ 62" "len t = int (length (inorder (root t)))"
    using assms by (auto simp: tree_ok_def)
  obtain n' deleted where n': "deleteNode cmp v (root t) = Some (n', deleted)" "avl n'" "ascending (inorder n')"
    "set (inorder n') = set (inorder (root t)) - {v}" "deleted \<longleftrightarrow> v \<in> set (inorder (root t))"
    using deleteNode_avl [OF t(1-3)] by blast
  have eq: "inorder n' = filter (\<lambda>x. x \<noteq> v) (inorder (root t))"
    using n' t by (intro ascending_unique) (auto simp: ascending_filter)
  have "length (inorder n') = length (inorder (root t)) - (if deleted then 1 else 0)"
    using n' t ascending_distinct by (simp add: distinct_card [symmetric] card_Diff_singleton_if)
  moreover have "deleted \<Longrightarrow> \<exists>k. length (inorder (root t)) = Suc k" using n'(5) by (cases "inorder (root t)") auto
  ultimately have "int (length (inorder n')) = (if deleted then wrap64 (len t - 1) else len t)"
    using t assms(2) by (auto simp: wrap64_id in_int64_def min_int64_def max_int64_def)
  then show ?thesis using n' eq by (auto simp: Delete_def tree_ok_def)
qed

end

lemma iterate_all: "iterate (\<lambda>_ _. True) n i True = zip (inorder n) [i..<i + length (inorder n)]"
proof (induction n arbitrary: i)
  case (Node v l r h)
  have "[i..<i + length (inorder (Node v l r h))] =
    [i..<i + length (inorder l)] @ (i + length (inorder l)) # [i + length (inorder l) + 1..<i + length (inorder l) + 1 + length (inorder r)]"
    using upt_add_eq_append [of i "i + length (inorder l)" "Suc (length (inorder r))"] by (simp add: add.assoc upt_conv_Cons del: upt_Suc)
  then show ?case by (simp add: Node Let_def)
qed simp

lemma fill_slice: "length ys = i + length xs \<Longrightarrow> fold (\<lambda>(v, i) vs. vs[i := v]) (zip xs [i..<i + length xs]) ys = take i ys @ xs"
proof (induction xs arbitrary: i ys)
  case (Cons x xs)
  have "[i..<i + length (x # xs)] = i # [Suc i..<Suc i + length xs]" by (simp add: upt_rec)
  then show ?case using Cons.IH [of "ys[i := x]" "Suc i"] Cons.prems by (simp add: take_Suc_conv_app_nth)
qed simp

context val_order
begin

lemma Values_exact:
  assumes "tree_ok t"
  shows "Values zero t = Some (inorder (root t), t\<lparr>cached := Some (inorder (root t))\<rparr>)"
proof (cases "cached t")
  case None
  have "fold (\<lambda>(v, i) vs. vs[i := v]) (zip (inorder (root t)) [0..<length (inorder (root t))]) (replicate (length (inorder (root t))) zero) = inorder (root t)"
    using fill_slice [of "replicate (length (inorder (root t))) zero" 0 "inorder (root t)"] by simp
  then show ?thesis
    using assms None iterate_all [of "root t" 0] by (simp add: Values_def Ascend_def tree_ok_def Let_def)
next
  case (Some vs)
  then show ?thesis using assms by (auto simp: Values_def tree_ok_def)
qed

lemma Contains_exact: "tree_ok t \<Longrightarrow> Contains cmp v t \<longleftrightarrow> v \<in> set (inorder (root t))"
  by (simp add: Contains_def Get_def tree_ok_def node_get_exact)

lemma Head_exact: "Head t = (if inorder (root t) = [] then None else Some (hd (inorder (root t))))"
  using node_min_hd [of "root t"] by (auto simp: Head_def)

lemma Tail_exact: "Tail t = (if inorder (root t) = [] then None else Some (last (inorder (root t))))"
  using node_max_last [of "root t"] by (auto simp: Tail_def)

lemma Pull_ok:
  assumes "tree_ok t" and "len t < 2 ^ 62"
  shows "\<exists>t'. Pull cmp t = Some (Head t, t') \<and> tree_ok t' \<and> inorder (root t') = tl (inorder (root t))"
proof (cases "inorder (root t)")
  case Nil
  then show ?thesis using assms by (simp add: Pull_def Head_exact)
next
  case (Cons x xs)
  have "x \<notin> set xs" using ascending_distinct [of "inorder (root t)"] assms(1) Cons by (simp add: tree_ok_def)
  then have "filter (\<lambda>y. y \<noteq> x) (inorder (root t)) = tl (inorder (root t))" using Cons by (auto simp: filter_id_conv)
  then show ?thesis using Delete_ok [OF assms, of x] Cons by (auto simp: Pull_def Head_exact)
qed

lemma Pop_ok:
  assumes "tree_ok t" and "len t < 2 ^ 62"
  shows "\<exists>t'. Btree_Pop cmp t = Some (Tail t, t') \<and> tree_ok t' \<and> inorder (root t') = butlast (inorder (root t))"
proof (cases "inorder (root t)" rule: rev_cases)
  case Nil
  then show ?thesis using assms by (simp add: Btree_Pop_def Tail_exact)
next
  case (snoc xs x)
  have "x \<notin> set xs" using ascending_distinct [of "inorder (root t)"] assms(1) snoc by (simp add: tree_ok_def)
  then have "filter (\<lambda>y. y \<noteq> x) (inorder (root t)) = butlast (inorder (root t))" using snoc by (auto simp: filter_id_conv)
  then show ?thesis using Delete_ok [OF assms, of x] snoc by (auto simp: Btree_Pop_def Tail_exact)
qed

end

section \<open>Trees of intervals\<close>

interpretation intervals: val_order Comp
  by unfold_locales (auto simp: Comp_def intro: ByteInterval.expand split: if_splits)

text \<open>
  The specification of a run: an ascending list.
\<close>

datatype tree_op = TInsert ByteInterval | TDelete ByteInterval | TPop | TPull | TValues

fun tree_step :: "ByteInterval \<Rightarrow> tree_op \<Rightarrow> ByteInterval Btree \<Rightarrow> ByteInterval Btree option" where
  "tree_step zero (TInsert v) t = Insert Comp v t"
| "tree_step zero (TDelete v) t = Delete Comp v t"
| "tree_step zero TPop t = map_option snd (Btree_Pop Comp t)"
| "tree_step zero TPull t = map_option snd (Pull Comp t)"
| "tree_step zero TValues t = map_option snd (Values zero t)"

fun tree_run :: "ByteInterval \<Rightarrow> tree_op list \<Rightarrow> ByteInterval Btree \<Rightarrow> ByteInterval Btree option" where
  "tree_run zero [] t = Some t"
| "tree_run zero (p # ps) t = Option.bind (tree_step zero p t) (tree_run zero ps)"

fun list_step :: "tree_op \<Rightarrow> ByteInterval list \<Rightarrow> ByteInterval list" where
  "list_step (TInsert v) xs = filter (\<lambda>x. Comp x v < 0) xs @ [v] @ filter (\<lambda>x. Comp x v > 0) xs"
| "list_step (TDelete v) xs = filter (\<lambda>x. x \<noteq> v) xs"
| "list_step TPop xs = butlast xs"
| "list_step TPull xs = tl xs"
| "list_step TValues xs = xs"

definition list_run :: "tree_op list \<Rightarrow> ByteInterval list" where
  "list_run ps = fold list_step ps []"

lemma tree_step_ok:
  assumes "intervals.tree_ok t" and "len t < 2 ^ 62"
  shows "\<exists>t'. tree_step zero p t = Some t' \<and> intervals.tree_ok t' \<and> inorder (root t') = list_step p (inorder (root t))"
proof (cases p)
  case (TInsert v)
  then show ?thesis using intervals.Insert_ok [OF assms, of v] by (simp add: intervals.ins_def)
next
  case (TDelete v)
  then show ?thesis using intervals.Delete_ok [OF assms, of v] by simp
next
  case TPop
  then show ?thesis using intervals.Pop_ok [OF assms] by auto
next
  case TPull
  then show ?thesis using intervals.Pull_ok [OF assms] by auto
next
  case TValues
  then show ?thesis using intervals.Values_exact [OF assms(1)] assms(1) by (auto simp: intervals.tree_ok_def)
qed

lemma length_list_step: "length (list_step p xs) \<le> length xs + 1"
proof (cases p)
  case (TInsert v)
  have "length (filter (\<lambda>x. Comp x v < 0) xs) + length (filter (\<lambda>x. Comp x v > 0) xs) \<le> length xs"
    by (induction xs) auto
  then show ?thesis using TInsert by simp
qed (auto intro: le_trans [OF length_filter_le])

lemma tree_run_ok:
  assumes "intervals.tree_ok t" and "len t + int (length ps) < 2 ^ 62"
  shows "\<exists>t'. tree_run zero ps t = Some t' \<and> intervals.tree_ok t' \<and> inorder (root t') = fold list_step ps (inorder (root t))"
  using assms
proof (induction ps arbitrary: t)
  case (Cons p ps)
  then obtain t1 where t1: "tree_step zero p t = Some t1" "intervals.tree_ok t1" "inorder (root t1) = list_step p (inorder (root t))"
    using tree_step_ok [of t zero p] by auto
  have "len t1 \<le> len t + 1"
    using t1 Cons.prems(1) length_list_step [of p "inorder (root t)"] by (simp add: intervals.tree_ok_def)
  then show ?case using Cons.IH [of t1] Cons.prems t1 by simp
qed simp

text \<open>
  C35. The balanced tree implements an ascending list of intervals. After fewer than \<open>2 ^ 62\<close> insertions, deletions, removals
  at either end and enumerations, none of which panics, \<open>Values\<close> returns the list, \<open>Len\<close> its length, \<open>Contains\<close> its
  elements, \<open>Head\<close> and \<open>Tail\<close> its ends, and the height of the tree is logarithmic: \<open>2 ^ (height / 2)\<close> is at most one more than the
  number of values, so that the \<open>int8\<close> heights never overflow.
\<close>

theorem tree_refines_list:
  assumes "length ps < 2 ^ 62"
  shows "\<exists>t. tree_run zero ps Btree_New = Some t \<and> map_option fst (Values zero t) = Some (list_run ps) \<and>
    sorted_wrt (\<lambda>x y. Comp x y < 0) (list_run ps) \<and> Btree_Len t = int (length (list_run ps)) \<and>
    (\<forall>v. Contains Comp v t \<longleftrightarrow> v \<in> set (list_run ps)) \<and>
    Head t = (if list_run ps = [] then None else Some (hd (list_run ps))) \<and>
    Tail t = (if list_run ps = [] then None else Some (last (list_run ps))) \<and>
    2 ^ (nat (node_height (root t)) div 2) \<le> length (list_run ps) + 1"
proof -
  have "intervals.tree_ok Btree_New" by (simp add: intervals.tree_ok_def Btree_New_def Btree_Init_def)
  then obtain t where t: "tree_run zero ps Btree_New = Some t" "intervals.tree_ok t" "inorder (root t) = list_run ps"
    using tree_run_ok [of Btree_New ps zero] assms by (auto simp: Btree_New_def Btree_Init_def list_run_def)
  moreover have "2 ^ (nat (node_height (root t)) div 2) \<le> length (list_run ps) + 1"
    using avl_size [of "root t"] t by (simp add: intervals.tree_ok_def)
  ultimately show ?thesis
    using intervals.Values_exact [OF t(2)] intervals.Contains_exact [OF t(2)] intervals.Head_exact [of t] intervals.Tail_exact [of t]
    by (simp add: Btree_Len_def intervals.tree_ok_def)
qed

theorem tree_refines_list_witness:
  "\<exists>t. tree_run (ByteInterval 0 0) [TInsert (ByteInterval 5 9), TInsert (ByteInterval 0 3), TValues, TInsert (ByteInterval 12 20), TDelete (ByteInterval 0 3), TPop] Btree_New = Some t \<and>
    map_option fst (Values (ByteInterval 0 0) t) = Some [ByteInterval 5 9]"
proof -
  let ?ps = "[TInsert (ByteInterval 5 9), TInsert (ByteInterval 0 3), TValues, TInsert (ByteInterval 12 20), TDelete (ByteInterval 0 3), TPop]"
  have "list_run ?ps = [ByteInterval 5 9]" by (simp add: list_run_def Comp_def)
  then show ?thesis using tree_refines_list [of ?ps "ByteInterval 0 0"] by auto
qed

text \<open>\<open>Match\<close> on separated intervals, which is how the frame sorter uses the tree.\<close>

lemma Match_filter:
  assumes "sorted_wrt (\<lambda>i j. bi_End i < bi_Start j) (inorder (root t))" and "\<forall>i \<in> set (inorder (root t)). bi_Start i \<le> bi_End i"
  shows "Btree_Match Match cond t = filter (\<lambda>i. bi_Start i \<le> bi_End cond \<and> bi_End i \<ge> bi_Start cond) (inorder (root t))"
proof -
  have "sorted_wrt (\<lambda>x y. (Match y cond < 0 \<longrightarrow> Match x cond < 0) \<and> (Match x cond > 0 \<longrightarrow> Match y cond > 0)) (inorder (root t))"
    using assms by (auto intro!: sorted_wrt_mono_rel [OF _ assms(1)] simp: Match_def)
  then have "node_match Match cond (root t) = filter (\<lambda>x. Match x cond = 0) (inorder (root t))"
    by (rule node_match_filter)
  moreover have "Match x cond = 0 \<longleftrightarrow> bi_Start x \<le> bi_End cond \<and> bi_End x \<ge> bi_Start cond" for x by (simp add: Match_def)
  ultimately show ?thesis by (simp add: Btree_Match_def)
qed

text \<open>
  The iterators do not stop when the function answers \<open>False\<close> below the root, and \<open>Descend\<close> visits the subtrees in
  ascending order.
\<close>

lemma Ascend_goes_on:
  "map fst (Ascend (\<lambda>_ _. False) \<lparr>root = Node 2 (Node 1 NilNode NilNode 1) (Node 3 NilNode NilNode 1) 2, cached = None, len = 3\<rparr>) = [1, 2 :: nat]"
  by (simp add: Ascend_def Let_def)

lemma Descend_ascends:
  "map fst (Descend (\<lambda>_ _. True) \<lparr>root = Node 2 (Node 1 NilNode NilNode 1) (Node 3 NilNode (Node 4 NilNode NilNode 1) 2) 3, cached = None, len = 4\<rparr>) = [3, 4, 2, 1 :: nat]"
  by (simp add: Descend_def Let_def)

end
