(* ===== verification/Quic_Varint.thy ===== *)
theory Quic_Varint
  imports Prelude "HOL-Library.Word"
begin

text \<open>
  The variable-length integers of QUIC (\<open>quicvarint/varint.go\<close>). A byte is an 8-bit word and an
  \<open>uint64\<close> a 64-bit word; a panic of the Go code is \<open>None\<close>.
\<close>

unbundle bit_operations_syntax

type_synonym byte = "8 word"
type_synonym u64 = "64 word"

section \<open>Constants\<close>

definition maxVarInt1 :: u64 where "maxVarInt1 = 63"
definition maxVarInt2 :: u64 where "maxVarInt2 = 16383"
definition maxVarInt4 :: u64 where "maxVarInt4 = 1073741823"
definition maxVarInt8 :: u64 where "maxVarInt8 = 4611686018427387903"

text \<open>The errors of the codecs: those of package \<open>io\<close>, and the ones made with \<open>errors.New\<close>, by their text.\<close>

datatype wire_err = EOF | ErrUnexpectedEOF | WireError string

section \<open>Reading\<close>

definition BigEndian_Uint64 :: "byte list \<Rightarrow> u64" where
  "BigEndian_Uint64 b =
     ucast (b ! 7) OR push_bit 8 (ucast (b ! 6)) OR push_bit 16 (ucast (b ! 5)) OR push_bit 24 (ucast (b ! 4)) OR
     push_bit 32 (ucast (b ! 3)) OR push_bit 40 (ucast (b ! 2)) OR push_bit 48 (ucast (b ! 1)) OR push_bit 56 (ucast (b ! 0))"

definition quicvarint_Parse :: "byte list \<Rightarrow> wire_err + u64 \<times> nat" where
  "quicvarint_Parse b =
     (if b = [] then Inl EOF
      else
        (let first = b ! 0; low = (ucast (first AND 63) :: u64) in
         if drop_bit 6 first = 0 then Inr (low, 1)
         else if drop_bit 6 first = 1 then
           (if length b < 2 then Inl ErrUnexpectedEOF else Inr (ucast (b ! 1) OR push_bit 8 low, 2))
         else if drop_bit 6 first = 2 then
           (if length b < 4 then Inl ErrUnexpectedEOF
            else Inr (ucast (b ! 3) OR push_bit 8 (ucast (b ! 2)) OR push_bit 16 (ucast (b ! 1)) OR push_bit 24 low, 4))
         else
           (if length b < 8 then Inl ErrUnexpectedEOF
            else Inr (BigEndian_Uint64 b AND 0x3fffffffffffffff, 8))))"

text \<open>\<open>Read\<close> takes its bytes one by one from a reader; an error of the reader is returned as it is.\<close>

definition quicvarint_Read :: "('e, 'r, byte) eff \<Rightarrow> ('e, 'r, u64) eff" where
  "quicvarint_Read ReadByte =
     bnd ReadByte (\<lambda>firstByte.
       let l = (push_bit (unat (drop_bit 6 (firstByte AND 0xc0))) 1 :: nat); b1 = firstByte AND (0xff - 0xc0) in
       if l = 1 then ret (ucast b1)
       else
         bnd ReadByte (\<lambda>b2.
         if l = 2 then ret (ucast b2 + push_bit 8 (ucast b1))
         else
           bnd ReadByte (\<lambda>b3. bnd ReadByte (\<lambda>b4.
           if l = 4 then ret (ucast b4 + push_bit 8 (ucast b3) + push_bit 16 (ucast b2) + push_bit 24 (ucast b1))
           else
             bnd ReadByte (\<lambda>b5. bnd ReadByte (\<lambda>b6. bnd ReadByte (\<lambda>b7. bnd ReadByte (\<lambda>b8.
               ret (ucast b8 + push_bit 8 (ucast b7) + push_bit 16 (ucast b6) + push_bit 24 (ucast b5) +
                    push_bit 32 (ucast b4) + push_bit 40 (ucast b3) + push_bit 48 (ucast b2) + push_bit 56 (ucast b1))))))))))"

text \<open>A \<open>bytes.Reader\<close>, whose state is what it has not yet returned.\<close>

definition bytes_ReadByte :: "(wire_err, byte list, byte) eff" where
  "bytes_ReadByte bs = (case bs of [] \<Rightarrow> (Inl EOF, []) | b # bs \<Rightarrow> (Inr b, bs))"

section \<open>Writing\<close>

definition quicvarint_Append :: "byte list \<Rightarrow> u64 \<Rightarrow> byte list option" where
  "quicvarint_Append b i =
     (if i \<le> maxVarInt1 then Some (b @ [ucast i])
      else if i \<le> maxVarInt2 then Some (b @ [ucast (drop_bit 8 i) OR 0x40, ucast i])
      else if i \<le> maxVarInt4 then
        Some (b @ [ucast (drop_bit 24 i) OR 0x80, ucast (drop_bit 16 i), ucast (drop_bit 8 i), ucast i])
      else if i \<le> maxVarInt8 then
        Some (b @ [ucast (drop_bit 56 i) OR 0xc0, ucast (drop_bit 48 i), ucast (drop_bit 40 i), ucast (drop_bit 32 i),
                   ucast (drop_bit 24 i), ucast (drop_bit 16 i), ucast (drop_bit 8 i), ucast i])
      else None)"

definition quicvarint_Len :: "u64 \<Rightarrow> nat option" where
  "quicvarint_Len i =
     (if i \<le> maxVarInt1 then Some 1
      else if i \<le> maxVarInt2 then Some 2
      else if i \<le> maxVarInt4 then Some 4
      else if i \<le> maxVarInt8 then Some 8
      else None)"

text \<open>The padding and the big-endian digits of \<open>AppendWithLen\<close>.\<close>

definition quicvarint_AppendWithLen :: "byte list \<Rightarrow> u64 \<Rightarrow> nat \<Rightarrow> byte list option" where
  "quicvarint_AppendWithLen b i n =
     (if n \<notin> {1, 2, 4, 8} then None
      else
        case quicvarint_Len i of
          None \<Rightarrow> None
        | Some l \<Rightarrow>
            if l = n then quicvarint_Append b i
            else if l > n then None
            else
              Some (b @ (if n = 2 then [0x40] else if n = 4 then [0x80] else if n = 8 then [0xc0] else []) @
                    replicate (n - l - 1) 0 @ map (\<lambda>j. ucast (drop_bit (8 * (l - 1 - j)) i)) [0..<l]))"

section \<open>Bits\<close>

lemma take_bit_self_iff: "take_bit n i = i \<longleftrightarrow> unat i < 2 ^ n" for i :: "'a :: len word"
  by (simp add: word_unat_eq_iff unsigned_take_bit_eq take_bit_nat_eq_self_iff)

lemma le_mask_bits:
  fixes i :: u64
  shows "i \<le> maxVarInt1 \<longleftrightarrow> take_bit 6 i = i" "i \<le> maxVarInt2 \<longleftrightarrow> take_bit 14 i = i"
    "i \<le> maxVarInt4 \<longleftrightarrow> take_bit 30 i = i" "i \<le> maxVarInt8 \<longleftrightarrow> take_bit 62 i = i"
  by (auto simp: take_bit_self_iff word_le_nat_alt maxVarInt1_def maxVarInt2_def maxVarInt4_def maxVarInt8_def)

lemma take_bit_selfD: "take_bit n i = i \<Longrightarrow> bit i m \<Longrightarrow> m < n" for i :: u64
  by (metis bit_take_bit_iff)

lemma numeral_bits:
  "(63 :: int) = mask 6" "(64 :: int) = 2 ^ 6" "(128 :: int) = 2 ^ 7" "(192 :: int) = 2 ^ 6 OR 2 ^ 7"
  "(0x3fffffffffffffff :: int) = mask 62" "(3 :: int) = mask 2"
  by (simp_all add: mask_eq_exp_minus_1)

lemma tag_bits:
  "bit (63 :: int) n \<longleftrightarrow> n < 6" "bit (64 :: int) n \<longleftrightarrow> n = 6" "bit (128 :: int) n \<longleftrightarrow> n = 7"
  "bit (192 :: int) n \<longleftrightarrow> n = 6 \<or> n = 7" "bit (0x3fffffffffffffff :: int) n \<longleftrightarrow> n < 62"
  "bit (3 :: int) n \<longleftrightarrow> n < 2"
  unfolding numeral_bits bit_or_iff bit_exp_iff bit_mask_iff by auto

lemma byte_bitD: "bit (b :: byte) n \<Longrightarrow> n < 8"
  using bit_imp_le_length [of b n] by simp

lemma low6: "ucast (b AND 63 :: byte) = (take_bit 6 (ucast b) :: u64)"
  by (rule bit_word_eqI) (auto simp: bit_simps tag_bits)

lemma tag_cases: "drop_bit 6 (x :: byte) \<in> {0, 1, 2, 3}"
proof -
  have "unat (drop_bit 6 x) < 4" using unsigned_less [of x, where 'a = nat] by (simp add: drop_bit_eq_div unat_div)
  then have "unat (drop_bit 6 x) \<in> {0, 1, 2, 3}" by auto
  then show ?thesis by (auto simp: word_unat_eq_iff)
qed

section \<open>What is written is read\<close>

lemma digits1:
  assumes "take_bit 6 i = i"
  shows "drop_bit 6 (ucast i :: byte) = 0 \<and> take_bit 6 (ucast (ucast i :: byte)) = (i :: u64)"
  using assms by (intro conjI bit_word_eqI) (auto simp: bit_simps dest: take_bit_selfD)

lemma digits2:
  assumes "take_bit 14 i = i"
  shows "drop_bit 6 (ucast (drop_bit 8 i) OR 0x40 :: byte) = 1 \<and>
    ucast (ucast i :: byte) OR push_bit 8 (take_bit 6 (ucast (ucast (drop_bit 8 i) OR 0x40 :: byte))) = (i :: u64)"
  using assms by (intro conjI bit_word_eqI) (auto simp: bit_simps tag_bits dest: take_bit_selfD)

lemma digits4:
  assumes "take_bit 30 i = i"
  shows "drop_bit 6 (ucast (drop_bit 24 i) OR 0x80 :: byte) = 2 \<and>
    ucast (ucast i :: byte) OR push_bit 8 (ucast (ucast (drop_bit 8 i) :: byte)) OR
    push_bit 16 (ucast (ucast (drop_bit 16 i) :: byte)) OR
    push_bit 24 (take_bit 6 (ucast (ucast (drop_bit 24 i) OR 0x80 :: byte))) = (i :: u64)"
  using assms by (intro conjI bit_word_eqI) (auto simp: bit_simps tag_bits dest: take_bit_selfD)

lemma join_bits: "take_bit n x OR push_bit n (take_bit m (drop_bit n x)) = take_bit (n + m) x" for x :: "'a :: len word"
  by (rule bit_word_eqI) (auto simp: bit_simps)

lemma ucast_byte: "ucast (ucast x :: byte) = take_bit 8 x" for x :: "'a :: len word"
  by (rule bit_word_eqI) (auto simp: bit_simps)

lemma mask_top:
  "(take_bit 56 x OR push_bit 56 (ucast (ucast (drop_bit 56 x) OR 0xc0 :: byte))) AND 0x3fffffffffffffff = take_bit 62 x" for x :: u64
  by (rule bit_word_eqI) (auto simp: bit_simps tag_bits)

lemmas join_bytes = join_bits [where m = 8 and n = 8, simplified] join_bits [where m = 8 and n = 16, simplified]
  join_bits [where m = 8 and n = 24, simplified] join_bits [where m = 8 and n = 32, simplified]
  join_bits [where m = 8 and n = 40, simplified] join_bits [where m = 8 and n = 48, simplified]

lemma BigEndian_Cons:
  "BigEndian_Uint64 (b0 # b1 # b2 # b3 # b4 # b5 # b6 # b7 # bs) =
     ucast b7 OR push_bit 8 (ucast b6) OR push_bit 16 (ucast b5) OR push_bit 24 (ucast b4) OR
     push_bit 32 (ucast b3) OR push_bit 40 (ucast b2) OR push_bit 48 (ucast b1) OR push_bit 56 (ucast b0)"
  by (simp add: BigEndian_Uint64_def)

lemma digits8:
  assumes "take_bit 62 i = (i :: u64)"
  shows "drop_bit 6 (ucast (drop_bit 56 i) OR 0xc0 :: byte) = 3 \<and>
    BigEndian_Uint64 ((ucast (drop_bit 56 i) OR 0xc0) # ucast (drop_bit 48 i) # ucast (drop_bit 40 i) #
      ucast (drop_bit 32 i) # ucast (drop_bit 24 i) # ucast (drop_bit 16 i) # ucast (drop_bit 8 i) # ucast i # bs)
    AND 0x3fffffffffffffff = i"
proof
  show "drop_bit 6 (ucast (drop_bit 56 i) OR 0xc0 :: byte) = 3"
    using assms by (intro bit_word_eqI) (auto simp: bit_simps tag_bits dest: take_bit_selfD)
  show "BigEndian_Uint64 ((ucast (drop_bit 56 i) OR 0xc0) # ucast (drop_bit 48 i) # ucast (drop_bit 40 i) #
      ucast (drop_bit 32 i) # ucast (drop_bit 24 i) # ucast (drop_bit 16 i) # ucast (drop_bit 8 i) # ucast i # bs)
    AND 0x3fffffffffffffff = i"
    by (simp only: BigEndian_Cons ucast_byte join_bytes mask_top assms flip: or.assoc)
qed

lemma Parse_tag:
  "drop_bit 6 x = 0 \<Longrightarrow> quicvarint_Parse (x # bs) = Inr (take_bit 6 (ucast x), 1)"
  "drop_bit 6 x = 1 \<Longrightarrow> quicvarint_Parse (x # y # bs) = Inr (ucast y OR push_bit 8 (take_bit 6 (ucast x)), 2)"
  "drop_bit 6 x = 2 \<Longrightarrow> quicvarint_Parse (x # y # z # w # bs) =
     Inr (ucast w OR push_bit 8 (ucast z) OR push_bit 16 (ucast y) OR push_bit 24 (take_bit 6 (ucast x)), 4)"
  "drop_bit 6 x = 3 \<Longrightarrow> 7 \<le> length bs \<Longrightarrow> quicvarint_Parse (x # bs) = Inr (BigEndian_Uint64 (x # bs) AND 0x3fffffffffffffff, 8)"
  unfolding quicvarint_Parse_def low6 Let_def by simp_all

text \<open>The bytes that \<open>Append\<close> adds for a value that fits.\<close>

definition varint_bytes :: "u64 \<Rightarrow> byte list" where
  "varint_bytes i =
     (if i \<le> maxVarInt1 then [ucast i]
      else if i \<le> maxVarInt2 then [ucast (drop_bit 8 i) OR 0x40, ucast i]
      else if i \<le> maxVarInt4 then [ucast (drop_bit 24 i) OR 0x80, ucast (drop_bit 16 i), ucast (drop_bit 8 i), ucast i]
      else [ucast (drop_bit 56 i) OR 0xc0, ucast (drop_bit 48 i), ucast (drop_bit 40 i), ucast (drop_bit 32 i),
            ucast (drop_bit 24 i), ucast (drop_bit 16 i), ucast (drop_bit 8 i), ucast i])"

lemma Append_bytes: "quicvarint_Append b i = (if i \<le> maxVarInt8 then Some (b @ varint_bytes i) else None)"
proof -
  have "i \<le> maxVarInt1 \<Longrightarrow> i \<le> maxVarInt8" "i \<le> maxVarInt2 \<Longrightarrow> i \<le> maxVarInt8" "i \<le> maxVarInt4 \<Longrightarrow> i \<le> maxVarInt8"
    by (auto simp: word_le_nat_alt maxVarInt1_def maxVarInt2_def maxVarInt4_def maxVarInt8_def)
  then show ?thesis unfolding quicvarint_Append_def varint_bytes_def by (simp only: split: if_split) blast
qed

lemma Len_bytes: "quicvarint_Len i = (if i \<le> maxVarInt8 then Some (length (varint_bytes i)) else None)"
proof -
  have "i \<le> maxVarInt1 \<Longrightarrow> i \<le> maxVarInt8" "i \<le> maxVarInt2 \<Longrightarrow> i \<le> maxVarInt8" "i \<le> maxVarInt4 \<Longrightarrow> i \<le> maxVarInt8"
    by (auto simp: word_le_nat_alt maxVarInt1_def maxVarInt2_def maxVarInt4_def maxVarInt8_def)
  then show ?thesis unfolding quicvarint_Len_def varint_bytes_def by (simp split: if_split)
qed

lemma Parse_bytes:
  assumes "i \<le> maxVarInt8"
  shows "quicvarint_Parse (varint_bytes i @ r) = Inr (i, length (varint_bytes i))"
proof -
  consider (one) "i \<le> maxVarInt1" | (two) "\<not> i \<le> maxVarInt1" "i \<le> maxVarInt2"
    | (four) "\<not> i \<le> maxVarInt1" "\<not> i \<le> maxVarInt2" "i \<le> maxVarInt4"
    | (eight) "\<not> i \<le> maxVarInt1" "\<not> i \<le> maxVarInt2" "\<not> i \<le> maxVarInt4" using assms by blast
  then show ?thesis
  proof cases
    case one
    then show ?thesis using digits1 [of i] by (simp add: varint_bytes_def le_mask_bits Parse_tag)
  next
    case two
    then have d: "take_bit 14 i = i" by (simp only: le_mask_bits)
    show ?thesis unfolding varint_bytes_def
      by (simp only: two if_True if_False append.simps Parse_tag(2) [OF conjunct1 [OF digits2 [OF d]]]
          conjunct2 [OF digits2 [OF d]]) simp
  next
    case four
    then have d: "take_bit 30 i = i" by (simp only: le_mask_bits)
    show ?thesis unfolding varint_bytes_def
      by (simp only: four if_True if_False append.simps Parse_tag(3) [OF conjunct1 [OF digits4 [OF d]]]
          conjunct2 [OF digits4 [OF d]]) simp
  next
    case eight
    have d: "take_bit 62 i = i" using assms by (simp only: le_mask_bits)
    have l: "7 \<le> length (b1 # b2 # b3 # b4 # b5 # b6 # b7 # bs)" for b1 b2 b3 b4 b5 b6 b7 :: byte and bs by simp
    show ?thesis unfolding varint_bytes_def
      by (simp only: eight if_True if_False append.simps Parse_tag(4) [OF conjunct1 [OF digits8 [OF d]] l]
          conjunct2 [OF digits8 [OF d]]) simp
  qed
qed

section \<open>Bounds of what is read\<close>

lemma masked_bound: "(x :: u64) AND 0x3fffffffffffffff \<le> maxVarInt8"
  unfolding le_mask_bits by (rule bit_word_eqI) (auto simp: bit_simps tag_bits)

lemma low_bounds:
  "take_bit 6 (x :: u64) \<le> maxVarInt8"
  "ucast (b :: byte) OR push_bit 8 (take_bit 6 x) \<le> maxVarInt8"
  "ucast (b :: byte) OR push_bit 8 (ucast (c :: byte)) OR push_bit 16 (ucast (d :: byte)) OR push_bit 24 (take_bit 6 x) \<le> maxVarInt8"
  unfolding le_mask_bits by (rule bit_word_eqI, auto simp: bit_simps dest: byte_bitD)+

lemma Parse_bounds:
  assumes "quicvarint_Parse b = Inr (v, n)"
  shows "v \<le> maxVarInt8 \<and> n \<in> {1, 2, 4, 8} \<and> n \<le> length b"
  using assms unfolding quicvarint_Parse_def low6 Let_def
  by (auto simp: low_bounds masked_bound Suc_le_eq split: if_splits)

section \<open>A given length\<close>

lemma take_bit_more: "take_bit n i = i \<Longrightarrow> n \<le> m \<Longrightarrow> take_bit m i = i" for i :: u64
  unfolding take_bit_self_iff by (erule less_le_trans) (simp add: power_increasing)

lemma unmask: "(x OR 0xc000000000000000) AND 0x3fffffffffffffff = take_bit 62 x" for x :: u64
proof -
  have "x AND 0x3fffffffffffffff = take_bit 62 x"
    by (simp add: take_bit_eq_mask mask_eq_exp_minus_1)
  then show ?thesis by (simp add: and.commute bit.conj_disj_distrib)
qed

lemma Parse_padded:
  "take_bit 6 i = i \<Longrightarrow> quicvarint_Parse (0x40 # ucast i # bs) = Inr (i, 2)"
  "take_bit 6 i = i \<Longrightarrow> quicvarint_Parse (0x80 # 0 # 0 # ucast i # bs) = Inr (i, 4)"
  "take_bit 14 i = i \<Longrightarrow> quicvarint_Parse (0x80 # 0 # ucast (drop_bit 8 i) # ucast i # bs) = Inr (i, 4)"
  "take_bit 6 i = i \<Longrightarrow> quicvarint_Parse (0xc0 # 0 # 0 # 0 # 0 # 0 # 0 # ucast i # bs) = Inr (i, 8)"
  "take_bit 14 i = i \<Longrightarrow> quicvarint_Parse (0xc0 # 0 # 0 # 0 # 0 # 0 # ucast (drop_bit 8 i) # ucast i # bs) = Inr (i, 8)"
  "take_bit 30 i = i \<Longrightarrow> quicvarint_Parse (0xc0 # 0 # 0 # 0 # ucast (drop_bit 24 i) # ucast (drop_bit 16 i) # ucast (drop_bit 8 i) # ucast i # bs) = Inr (i, 8)"
  for i :: u64
  by (simp_all add: quicvarint_Parse_def BigEndian_Uint64_def ucast_byte join_bytes take_bit_more unmask flip: or.assoc)

lemma small_lists:
  "[0..<2] = [0, 1]" "[0..<4] = [0, 1, 2, 3]" "replicate 2 x = [x, x]" "replicate 3 x = [x, x, x]"
  "replicate 5 x = [x, x, x, x, x]" "replicate 6 x = [x, x, x, x, x, x]"
  by (simp_all add: upt_rec) (simp_all add: numeral_eq_Suc)

lemma padded_bytes:
  assumes "take_bit (8 * l - 2) i = i" and "(l, n) \<in> {(1, 2), (1, 4), (2, 4), (1, 8), (2, 8), (4, 8)}"
  defines "bs \<equiv> (if n = 2 then [0x40] else if n = 4 then [0x80] else if n = 8 then [0xc0] else []) @
    replicate (n - l - 1) 0 @ map (\<lambda>j. ucast (drop_bit (8 * (l - 1 - j)) i)) [0..<l]"
  shows "length bs = n \<and> quicvarint_Parse (bs @ r) = Inr (i, n)"
  using assms(1,2) unfolding bs_def by (auto simp: Parse_padded small_lists)

lemma AppendWithLen_Parse:
  assumes "i \<le> maxVarInt8" and "n \<in> {1, 2, 4, 8}" and "length (varint_bytes i) \<le> n"
  shows "\<exists>ws. length ws = n \<and> (\<forall>b r. quicvarint_AppendWithLen b i n = Some (b @ ws) \<and> quicvarint_Parse (ws @ r) = Inr (i, n))"
proof (cases "length (varint_bytes i) = n")
  case True
  with assms show ?thesis by (auto simp: quicvarint_AppendWithLen_def Len_bytes Append_bytes Parse_bytes)
next
  case False
  define l where "l = length (varint_bytes i)"
  have l: "take_bit (8 * l - 2) i = i \<and> l \<in> {1, 2, 4, 8}"
    using assms(1) unfolding l_def varint_bytes_def by (simp add: le_mask_bits)
  with False assms(2,3) have "(l, n) \<in> {(1, 2), (1, 4), (2, 4), (1, 8), (2, 8), (4, 8)}" by (auto simp: l_def)
  from padded_bytes [OF conjunct1 [OF l] this] show ?thesis
    using False assms by (simp add: quicvarint_AppendWithLen_def Len_bytes flip: l_def)
qed

section \<open>Reading byte by byte\<close>

lemma tag_mask: "drop_bit 6 (x AND 0xc0) = drop_bit 6 (x :: byte)"
  by (rule bit_word_eqI) (auto simp: bit_simps tag_bits dest: byte_bitD)

lemma add_push: "take_bit n a = a \<Longrightarrow> a + push_bit n c = a OR push_bit n c" for a :: u64
  by (rule disjunctive_add_eq_or, rule bit_word_eqI) (use take_bit_selfD in \<open>fastforce simp: bit_simps\<close>)

lemma take_byte: "take_bit 8 (ucast (b :: byte)) = (ucast b :: u64)"
  by (rule bit_word_eqI) (auto simp: bit_simps dest: byte_bitD)

lemma take_push: "take_bit n a = a \<Longrightarrow> take_bit (n + 8) (a OR push_bit n (ucast (b :: byte))) = a OR push_bit n (ucast b)" for a :: u64
  by (rule bit_word_eqI) (auto simp: bit_simps dest: take_bit_selfD byte_bitD)

lemma mask_tag:
  fixes b1 b2 b3 b4 b5 b6 b7 b8 :: byte
  shows "(ucast b8 OR push_bit 8 (ucast b7) OR push_bit 16 (ucast b6) OR push_bit 24 (ucast b5) OR push_bit 32 (ucast b4) OR
       push_bit 40 (ucast b3) OR push_bit 48 (ucast b2) OR push_bit 56 (ucast b1)) AND (0x3fffffffffffffff :: u64) =
      ucast b8 OR push_bit 8 (ucast b7) OR push_bit 16 (ucast b6) OR push_bit 24 (ucast b5) OR push_bit 32 (ucast b4) OR
       push_bit 40 (ucast b3) OR push_bit 48 (ucast b2) OR push_bit 56 (take_bit 6 (ucast b1))"
proof -
  have low: "push_bit n (ucast b) AND (0x3fffffffffffffff :: u64) = push_bit n (ucast b)" if "n \<le> 48" for b :: byte and n
    using that by (intro bit_word_eqI) (auto simp: bit_simps tag_bits dest: byte_bitD)
  have "push_bit 56 (ucast b1) AND (0x3fffffffffffffff :: u64) = push_bit 56 (take_bit 6 (ucast b1))"
    by (rule bit_word_eqI) (auto simp: bit_simps tag_bits dest: byte_bitD)
  moreover have "ucast b8 AND (0x3fffffffffffffff :: u64) = ucast b8" using low [of 0 b8] by simp
  ultimately show ?thesis by (simp add: bit.conj_disj_distrib2 low)
qed

text \<open>Bytes placed one above the other, added or joined.\<close>

lemma sum_or:
  fixes b2 b3 b4 b5 b6 b7 b8 :: byte and x :: u64
  shows "ucast b2 + push_bit 8 x = ucast b2 OR push_bit 8 x"
    and "ucast b4 + push_bit 8 (ucast b3) + push_bit 16 (ucast b2) + push_bit 24 x =
       ucast b4 OR push_bit 8 (ucast b3) OR push_bit 16 (ucast b2) OR push_bit 24 x"
    and "ucast b8 + push_bit 8 (ucast b7) + push_bit 16 (ucast b6) + push_bit 24 (ucast b5) + push_bit 32 (ucast b4) +
       push_bit 40 (ucast b3) + push_bit 48 (ucast b2) + push_bit 56 x =
       ucast b8 OR push_bit 8 (ucast b7) OR push_bit 16 (ucast b6) OR push_bit 24 (ucast b5) OR push_bit 32 (ucast b4) OR
       push_bit 40 (ucast b3) OR push_bit 48 (ucast b2) OR push_bit 56 x"
proof -
  note p = take_push [of 8, simplified arith_simps] take_push [of 16, simplified arith_simps] take_push [of 24, simplified arith_simps] take_push [of 32, simplified arith_simps]
    take_push [of 40, simplified arith_simps] take_push [of 48, simplified arith_simps]
  note a = take_byte [of b2] take_byte [of b4] take_byte [of b8]
  note a3 = p(1) [OF a(2), of b3] p(1) [OF a(3), of b7]
  note a4 = p(2) [OF a3(1), of b2] p(2) [OF a3(2), of b6]
  note a5 = p(3) [OF a4(2), of b5]
  note a6 = p(4) [OF a5, of b4]
  note a7 = p(5) [OF a6, of b3]
  note a8 = p(6) [OF a7, of b2]
  show "ucast b2 + push_bit 8 x = ucast b2 OR push_bit 8 x"
    by (simp only: add_push [OF a(1)])
  show "ucast b4 + push_bit 8 (ucast b3) + push_bit 16 (ucast b2) + push_bit 24 x =
       ucast b4 OR push_bit 8 (ucast b3) OR push_bit 16 (ucast b2) OR push_bit 24 x"
    by (simp only: add_push [OF a(2)] add_push [OF a3(1)] add_push [OF a4(1)] flip: or.assoc)
  show "ucast b8 + push_bit 8 (ucast b7) + push_bit 16 (ucast b6) + push_bit 24 (ucast b5) + push_bit 32 (ucast b4) +
       push_bit 40 (ucast b3) + push_bit 48 (ucast b2) + push_bit 56 x =
       ucast b8 OR push_bit 8 (ucast b7) OR push_bit 16 (ucast b6) OR push_bit 24 (ucast b5) OR push_bit 32 (ucast b4) OR
       push_bit 40 (ucast b3) OR push_bit 48 (ucast b2) OR push_bit 56 x"
    by (simp only: add_push [OF a(3)] add_push [OF a3(2)] add_push [OF a4(2)] add_push [OF a5] add_push [OF a6]
        add_push [OF a7] add_push [OF a8] flip: or.assoc)
qed


lemma ReadByte_next [simp]:
  "bnd bytes_ReadByte k [] = (Inl EOF, [])" "bnd bytes_ReadByte k (x # bs) = k x bs"
  by (simp_all add: bytes_ReadByte_def eff_simps)

lemmas reading = quicvarint_Read_def ret_apply tag_mask low6 Let_def

lemma short_lists:
  "length bs < 3 \<Longrightarrow> bs = [] \<or> (\<exists>a. bs = [a]) \<or> (\<exists>a b. bs = [a, b])"
  "length bs < 7 \<Longrightarrow> bs = [] \<or> (\<exists>a. bs = [a]) \<or> (\<exists>a b. bs = [a, b]) \<or> (\<exists>a b c. bs = [a, b, c]) \<or>
     (\<exists>a b c d. bs = [a, b, c, d]) \<or> (\<exists>a b c d e. bs = [a, b, c, d, e]) \<or> (\<exists>a b c d e f. bs = [a, b, c, d, e, f])"
  by (auto simp: numeral_eq_Suc less_Suc_eq length_Suc_conv)

lemma Read_short:
  "drop_bit 6 x = 1 \<Longrightarrow> quicvarint_Read bytes_ReadByte [x] = (Inl EOF, [])"
  "drop_bit 6 x = 2 \<Longrightarrow> length bs < 3 \<Longrightarrow> quicvarint_Read bytes_ReadByte (x # bs) = (Inl EOF, [])"
  "drop_bit 6 x = 3 \<Longrightarrow> length bs < 7 \<Longrightarrow> quicvarint_Read bytes_ReadByte (x # bs) = (Inl EOF, [])"
  by (auto simp: reading dest!: short_lists)

lemma Parse_short:
  "drop_bit 6 x = 1 \<Longrightarrow> quicvarint_Parse [x] = Inl ErrUnexpectedEOF"
  "drop_bit 6 x = 2 \<Longrightarrow> length bs < 3 \<Longrightarrow> quicvarint_Parse (x # bs) = Inl ErrUnexpectedEOF"
  "drop_bit 6 x = 3 \<Longrightarrow> length bs < 7 \<Longrightarrow> quicvarint_Parse (x # bs) = Inl ErrUnexpectedEOF"
  by (simp_all add: quicvarint_Parse_def)

lemma Read_Parse:
  "quicvarint_Read bytes_ReadByte b =
     (case quicvarint_Parse b of Inl e \<Rightarrow> (Inl EOF, []) | Inr (v, n) \<Rightarrow> (Inr v, drop n b))"
proof (cases b)
  case Nil
  then show ?thesis by (simp add: reading quicvarint_Parse_def)
next
  case (Cons x bs)
  consider (0) "drop_bit 6 x = 0" | (1) "drop_bit 6 x = 1" | (2) "drop_bit 6 x = 2" | (3) "drop_bit 6 x = 3"
    using tag_cases [of x] by auto
  then show ?thesis
  proof cases
    case 0
    then show ?thesis by (simp add: Cons reading Parse_tag)
  next
    case 1
    then show ?thesis by (cases bs) (simp_all add: Cons Read_short Parse_short Parse_tag reading sum_or(1))
  next
    case 2
    show ?thesis
    proof (cases "length bs < 3")
      case True
      with 2 show ?thesis by (simp add: Cons Read_short Parse_short)
    next
      case False
      then obtain b2 b3 b4 r where "bs = b2 # b3 # b4 # r" by (auto simp: not_less Suc_le_length_iff numeral_eq_Suc)
      with 2 show ?thesis by (simp add: Cons Parse_tag reading sum_or(2))
    qed
  next
    case 3
    show ?thesis
    proof (cases "length bs < 7")
      case True
      with 3 show ?thesis by (simp add: Cons Read_short Parse_short)
    next
      case False
      then obtain b2 b3 b4 b5 b6 b7 b8 r where bs: "bs = b2 # b3 # b4 # b5 # b6 # b7 # b8 # r"
        by (auto simp: not_less Suc_le_length_iff numeral_eq_Suc)
      with 3 show ?thesis by (simp add: Cons Parse_tag(4) BigEndian_Cons mask_tag reading sum_or(3))
    qed
  qed
qed

section \<open>Properties\<close>

text \<open>
  C23. Every value up to \<open>2 ^ 62 - 1\<close> has a QUIC varint of \<open>Len\<close> bytes that \<open>Parse\<close> reads back exactly, whatever
  follows it, and \<open>AppendWithLen\<close> can also write it in every longer length; a larger value makes \<open>Append\<close> and
  \<open>Len\<close> panic.
\<close>

theorem varint_round_trip:
  "if i \<le> maxVarInt8
   then \<exists>bs n. quicvarint_Len i = Some n \<and> length bs = n \<and>
     (\<forall>b r. quicvarint_Append b i = Some (b @ bs) \<and> quicvarint_Parse (bs @ r) = Inr (i, n)) \<and>
     list_all (\<lambda>m. m < n \<or> (\<exists>ws. length ws = m \<and>
       (\<forall>b r. quicvarint_AppendWithLen b i m = Some (b @ ws) \<and> quicvarint_Parse (ws @ r) = Inr (i, m)))) [1, 2, 4, 8]
   else quicvarint_Append b i = None \<and> quicvarint_Len i = None"
proof (cases "i \<le> maxVarInt8")
  case True
  define longer where "longer m \<longleftrightarrow> (\<exists>ws. length ws = m \<and>
    (\<forall>b r. quicvarint_AppendWithLen b i m = Some (b @ ws) \<and> quicvarint_Parse (ws @ r) = Inr (i, m)))" for m
  have "m < length (varint_bytes i) \<or> longer m" if "m \<in> {1, 2, 4, 8}" for m
  proof (cases "m < length (varint_bytes i)")
    case False
    then have "length (varint_bytes i) \<le> m" by simp
    from AppendWithLen_Parse [OF True that this] have "longer m" unfolding longer_def .
    then show ?thesis ..
  qed simp
  then have "list_all (\<lambda>m. m < length (varint_bytes i) \<or> longer m) [1, 2, 4, 8]" by (simp add: list_all_iff)
  then have "quicvarint_Len i = Some (length (varint_bytes i)) \<and> length (varint_bytes i) = length (varint_bytes i) \<and>
     (\<forall>b r. quicvarint_Append b i = Some (b @ varint_bytes i) \<and>
       quicvarint_Parse (varint_bytes i @ r) = Inr (i, length (varint_bytes i))) \<and>
     list_all (\<lambda>m. m < length (varint_bytes i) \<or> longer m) [1, 2, 4, 8]"
    by (simp only: Len_bytes Append_bytes Parse_bytes [OF True] True if_True simp_thms)
  then show ?thesis unfolding longer_def if_P [OF True] by (intro exI)
qed (simp add: Append_bytes Len_bytes)

text \<open>
  Reading a varint byte by byte gives the value that \<open>Parse\<close> gives and leaves exactly the bytes behind it; when
  the varint is incomplete both fail.
\<close>

theorem Read_agrees:
  "quicvarint_Read bytes_ReadByte b =
     (case quicvarint_Parse b of Inl e \<Rightarrow> (Inl EOF, []) | Inr (v, n) \<Rightarrow> (Inr v, drop n b))"
  by (rule Read_Parse)

end
