(* ===== verification/Quic_Packet_Number.thy ===== *)
theory Quic_Packet_Number
  imports Go_Strings Quic_Varint
begin

text \<open>
  Packet numbers (\<open>internal/protocol/packet_number.go\<close>), their bytes and the short header
  (\<open>internal/wire/extended_header.go\<close>, \<open>header.go\<close>, \<open>short_header.go\<close>). A \<open>PacketNumber\<close> is an \<open>int64\<close>: an integer whose sums and
  differences wrap around at 64 bits (\<open>wrap64\<close>); on integers of that range the bit operations are those of two's
  complement.
\<close>

unbundle bit_operations_syntax

type_synonym packet_number = int

definition InvalidPacketNumber :: packet_number where "InvalidPacketNumber = -1"

definition PacketNumberLen1 :: nat where "PacketNumberLen1 = 1"
definition PacketNumberLen2 :: nat where "PacketNumberLen2 = 2"
definition PacketNumberLen3 :: nat where "PacketNumberLen3 = 3"
definition PacketNumberLen4 :: nat where "PacketNumberLen4 = 4"

text \<open>The shift count \<open>length * 8\<close> is an \<open>uint8\<close>.\<close>

definition DecodePacketNumber :: "nat \<Rightarrow> packet_number \<Rightarrow> packet_number \<Rightarrow> packet_number" where
  "DecodePacketNumber len largest truncated =
     (let expected = wrap64 (largest + 1);
          win = wrap64 (push_bit ((len * 8) mod 256) 1);
          hwin = win div 2;
          mask = wrap64 (win - 1);
          candidate = (expected AND NOT mask) OR truncated
      in if candidate \<le> wrap64 (expected - hwin) \<and> candidate < wrap64 (2 ^ 62 - win) then wrap64 (candidate + win)
         else if candidate > wrap64 (expected + hwin) \<and> candidate \<ge> win then wrap64 (candidate - win)
         else candidate)"

definition PacketNumberLengthForHeader :: "packet_number \<Rightarrow> packet_number \<Rightarrow> nat" where
  "PacketNumberLengthForHeader pn largestAcked =
     (let numUnacked = (if largestAcked = InvalidPacketNumber then wrap64 (pn + 1) else wrap64 (pn - largestAcked))
      in if numUnacked < 2 ^ (16 - 1) then PacketNumberLen2
         else if numUnacked < 2 ^ (24 - 1) then PacketNumberLen3
         else PacketNumberLen4)"

section \<open>Bytes of a packet number\<close>

definition PutUint16 :: "16 word \<Rightarrow> byte list" where
  "PutUint16 v = [ucast (drop_bit 8 v), ucast v]"

definition PutUint32 :: "32 word \<Rightarrow> byte list" where
  "PutUint32 v = [ucast (drop_bit 24 v), ucast (drop_bit 16 v), ucast (drop_bit 8 v), ucast v]"

definition Uint16 :: "byte list \<Rightarrow> 16 word" where
  "Uint16 b = ucast (b ! 1) OR push_bit 8 (ucast (b ! 0))"

definition Uint32 :: "byte list \<Rightarrow> 32 word" where
  "Uint32 b = ucast (b ! 3) OR push_bit 8 (ucast (b ! 2)) OR push_bit 16 (ucast (b ! 1)) OR push_bit 24 (ucast (b ! 0))"

definition errInvalidPacketNumberLen :: wire_err where
  "errInvalidPacketNumberLen = WireError ''invalid packet number length''"

definition appendPacketNumber :: "byte list \<Rightarrow> packet_number \<Rightarrow> nat \<Rightarrow> wire_err + byte list" where
  "appendPacketNumber b pn pnLen =
     (if pnLen = PacketNumberLen1 then Inr (b @ [word_of_int pn])
      else if pnLen = PacketNumberLen2 then Inr (b @ PutUint16 (word_of_int pn))
      else if pnLen = PacketNumberLen3 then Inr (b @ drop 1 (PutUint32 (word_of_int pn)))
      else if pnLen = PacketNumberLen4 then Inr (b @ PutUint32 (word_of_int pn))
      else Inl errInvalidPacketNumberLen)"

text \<open>\<open>None\<close> is the panic of an index beyond the data, whose capacity is taken to be its length.\<close>

definition readPacketNumber :: "byte list \<Rightarrow> nat \<Rightarrow> (wire_err + packet_number) option" where
  "readPacketNumber data pnLen =
     (if pnLen = PacketNumberLen1 then
        (if length data < 1 then None else Some (Inr (uint (data ! 0))))
      else if pnLen = PacketNumberLen2 then
        (if length data < 2 then None else Some (Inr (uint (Uint16 data))))
      else if pnLen = PacketNumberLen3 then
        (if length data < 3 then None
         else Some (Inr (uint ((ucast (data ! 2) :: 32 word) + push_bit 8 (ucast (data ! 1)) + push_bit 16 (ucast (data ! 0))))))
      else if pnLen = PacketNumberLen4 then
        (if length data < 4 then None else Some (Inr (uint (Uint32 data))))
      else Some (Inl errInvalidPacketNumberLen))"

section \<open>The short header\<close>

datatype key_phase_bit = KeyPhaseUndefined | KeyPhaseZero | KeyPhaseOne

definition ErrInvalidReservedBits :: wire_err where
  "ErrInvalidReservedBits = WireError ''invalid reserved bits''"

text \<open>The results come with an error; a panic is \<open>None\<close>. A connection ID is its bytes.\<close>

type_synonym short_header = "nat \<times> packet_number \<times> nat \<times> key_phase_bit \<times> wire_err option"

definition short_header_error :: "wire_err \<Rightarrow> short_header" where
  "short_header_error e = (0, 0, 0, KeyPhaseUndefined, Some e)"

definition ParseShortHeader :: "byte list \<Rightarrow> nat \<Rightarrow> short_header option" where
  "ParseShortHeader data connIDLen =
     (if data = [] then Some (short_header_error EOF)
      else if data ! 0 AND 0x80 > 0 then Some (short_header_error (WireError ''not a short header packet''))
      else if data ! 0 AND 0x40 = 0 then Some (short_header_error (WireError ''not a QUIC packet''))
      else
        (let pnLen = unat (data ! 0 AND 3) + 1 in
         if length data < 1 + pnLen + connIDLen then Some (short_header_error EOF)
         else
           (let pos = 1 + connIDLen in
            case readPacketNumber (drop pos data) pnLen of
              None \<Rightarrow> None
            | Some (Inl e) \<Rightarrow> Some (short_header_error e)
            | Some (Inr pn) \<Rightarrow>
                Some (1 + connIDLen + pnLen, pn, pnLen,
                      (if data ! 0 AND 4 > 0 then KeyPhaseOne else KeyPhaseZero),
                      (if data ! 0 AND 0x18 \<noteq> 0 then Some ErrInvalidReservedBits else None)))))"

definition AppendShortHeader ::
  "byte list \<Rightarrow> byte list \<Rightarrow> packet_number \<Rightarrow> nat \<Rightarrow> key_phase_bit \<Rightarrow> wire_err + byte list" where
  "AppendShortHeader b connID pn pnLen kp =
     (let typeByte = 0x40 OR (of_nat pnLen - 1);
          typeByte = (if kp = KeyPhaseOne then typeByte OR 4 else typeByte)
      in appendPacketNumber (b @ [typeByte] @ connID) pn pnLen)"

definition ShortHeaderLen :: "byte list \<Rightarrow> nat \<Rightarrow> nat" where
  "ShortHeaderLen dest pnLen = 1 + length dest + pnLen"

section \<open>Decoding\<close>

lemma replace_low:
  fixes x t :: int
  assumes "0 \<le> t" and "t < 2 ^ n"
  shows "(x AND NOT (2 ^ n - 1)) OR t = x div 2 ^ n * 2 ^ n + t"
proof -
  have t: "take_bit n t = t" using assms by (simp add: take_bit_int_eq_self_iff)
  have "x AND NOT (2 ^ n - 1) = push_bit n (drop_bit n x)"
    by (rule bit_eqI) (auto simp: bit_simps simp flip: mask_eq_exp_minus_1)
  moreover have "push_bit n (drop_bit n x) + t = push_bit n (drop_bit n x) OR t"
  proof (rule disjunctive_add_eq_or, rule bit_eqI)
    fix k
    have "bit t k \<Longrightarrow> k < n" using t by (metis bit_take_bit_iff)
    then show "bit (push_bit n (drop_bit n x) AND t) k = bit (0 :: int) k" by (auto simp: bit_simps)
  qed
  ultimately show ?thesis by (simp add: push_bit_eq_mult drop_bit_eq_div)
qed

text \<open>The arithmetic of the decoder for a window \<open>W\<close>: the multiple of \<open>W\<close> nearest to what is expected.\<close>

lemma nearest_window:
  fixes W H e p :: int
  assumes "W = 2 * H" and "0 < H" and "e - H < p" and "p \<le> e + H" and "0 \<le> p" and "p < 2 ^ 62" and "0 \<le> e"
  shows "(let c = e div W * W + p mod W in
    if c \<le> e - H \<and> c < 2 ^ 62 - W then c + W else if e + H < c \<and> W \<le> c then c - W else c) = p"
proof -
  define q r a b where "q = p div W" and "r = e div W" and "a = p mod W" and "b = e mod W"
  define A B where "A = q * W" and "B = r * W"
  have W: "0 < W" using assms by simp
  have p: "p = A + a" "0 \<le> a" "a < W" using W unfolding A_def q_def a_def by simp_all
  have e: "e = B + b" "0 \<le> b" "b < W" using W unfolding B_def r_def b_def by simp_all
  have "A < B + 2 * W" "B - 2 * W < A" using p e assms(1-4) by linarith+
  then have "q * W < (r + 2) * W" "(r - 2) * W < q * W" unfolding A_def B_def by (simp_all add: algebra_simps)
  then have "q = r - 1 \<or> q = r \<or> q = r + 1" using W by (auto simp: mult_less_cancel_right)
  then have AB: "A = B - W \<or> A = B \<or> A = B + W" unfolding A_def B_def by (auto simp: algebra_simps)
  have "e div W * W + p mod W = B + a" by (simp add: B_def r_def a_def)
  then show ?thesis using AB p e assms W unfolding Let_def by auto
qed


lemma win_eq:
  assumes "len \<in> {1, 2, 3, 4}"
  shows "wrap64 (push_bit ((len * 8) mod 256) 1) = 2 ^ (8 * len)" and "wrap64 (2 ^ (8 * len) - 1) = 2 ^ (8 * len) - 1"
    and "(2 :: int) ^ (8 * len) = 2 * 2 ^ (8 * len - 1)"
  using assms by (auto simp: wrap64_def)

lemma Decode_nearest:
  assumes len: "len \<in> {1, 2, 3, 4}" and l: "-1 \<le> largest" "largest < 2 ^ 62"
    and p: "0 \<le> pn" "pn < 2 ^ 62" "largest + 1 - 2 ^ (8 * len - 1) < pn" "pn \<le> largest + 1 + 2 ^ (8 * len - 1)"
  shows "DecodePacketNumber len largest (pn mod 2 ^ (8 * len)) = pn"
proof -
  define W H :: int where "W = 2 ^ (8 * len)" and "H = 2 ^ (8 * len - 1)"
  have W: "W = 2 * H" "0 < H" "W \<le> 2 ^ 32" using len by (auto simp: W_def H_def)
  define e c where "e = largest + 1" and "c = e div W * W + pn mod W"
  have e: "0 \<le> e" "e \<le> 2 ^ 62" using l by (simp_all add: e_def)
  have c: "0 \<le> c" "c < e + W"
  proof -
    have "0 \<le> e div W" using e W by (simp add: pos_imp_zdiv_nonneg_iff)
    then show "0 \<le> c" using W by (simp add: c_def)
    have "e div W * W \<le> e" using W by (simp flip: minus_mod_eq_div_mult)
    moreover have "pn mod W < W" using W by simp
    ultimately show "c < e + W" by (simp add: c_def)
  qed
  have low: "(e AND NOT (W - 1)) OR (pn mod W) = c"
    unfolding c_def W_def by (rule replace_low) simp_all
  have wraps: "wrap64 (largest + 1) = e" "wrap64 (e - H) = e - H" "wrap64 (e + H) = e + H" "wrap64 (2 ^ 62 - W) = 2 ^ 62 - W"
    "wrap64 (c + W) = c + W" "wrap64 (c - W) = c - W"
    using W e c by (auto intro!: wrap64_id simp: in_int64_def min_int64_def max_int64_def e_def)
  have "DecodePacketNumber len largest (pn mod W) =
    (if c \<le> e - H \<and> c < 2 ^ 62 - W then c + W else if e + H < c \<and> W \<le> c then c - W else c)"
    using W(1) wraps low win_eq [OF len]
    unfolding DecodePacketNumber_def Let_def by (simp flip: W_def)
  also have "\<dots> = pn"
    using nearest_window [of W H e pn] W p e unfolding c_def Let_def by (simp add: e_def H_def)
  finally show ?thesis by (simp add: W_def)
qed

section \<open>Bytes of a packet number: round trip\<close>

lemma Uint16_Put: "Uint16 (PutUint16 v @ r) = v"
  unfolding Uint16_def PutUint16_def by (rule bit_word_eqI) (auto simp: bit_simps)

lemma Uint32_Put: "Uint32 (PutUint32 v @ r) = v"
proof -
  have "Uint32 (a # b # c # d # r) = ucast d OR push_bit 8 (ucast c) OR push_bit 16 (ucast b) OR push_bit 24 (ucast a)" for a b c d r
    by (simp add: Uint32_def)
  moreover have "take_bit 32 v = v" by (rule bit_word_eqI) (auto simp: bit_simps)
  ultimately show ?thesis by (simp only: PutUint32_def append.simps ucast_byte join_bytes flip: or.assoc)
qed

lemma three_bytes:
  "(ucast (ucast v :: byte) :: 32 word) + push_bit 8 (ucast (ucast (drop_bit 8 v) :: byte)) +
     push_bit 16 (ucast (ucast (drop_bit 16 v) :: byte)) = take_bit 24 (v :: 32 word)"
proof -
  have ab: "take_bit 8 v AND push_bit 8 (take_bit 8 (drop_bit 8 v)) = 0" by (rule bit_word_eqI) (auto simp: bit_simps)
  have "take_bit 16 v AND push_bit 16 (take_bit 8 (drop_bit 16 v)) = 0" by (rule bit_word_eqI) (auto simp: bit_simps)
  then show ?thesis by (simp only: ucast_byte disjunctive_add_eq_or [OF ab] join_bytes disjunctive_add_eq_or)
qed

lemma packet_number_bytes:
  assumes "len \<in> {1, 2, 3, 4}"
  shows "\<exists>bs. length bs = len \<and> (\<forall>b. appendPacketNumber b pn len = Inr (b @ bs)) \<and>
    (\<forall>r. readPacketNumber (bs @ r) len = Some (Inr (pn mod 2 ^ (8 * len))))"
proof -
  consider "len = 1" | "len = 2" | "len = 3" | "len = 4" using assms by auto
  then show ?thesis
  proof cases
    case 1
    show ?thesis
      by (rule exI [of _ "[word_of_int pn]"])
        (simp add: 1 appendPacketNumber_def readPacketNumber_def PacketNumberLen1_def uint_word_of_int take_bit_eq_mod)
  next
    case 2
    have "length (PutUint16 v) = 2" for v by (simp add: PutUint16_def)
    then show ?thesis
      by (intro exI [of _ "PutUint16 (word_of_int pn)"])
        (simp add: 2 appendPacketNumber_def readPacketNumber_def PacketNumberLen1_def PacketNumberLen2_def
          Uint16_Put uint_word_of_int take_bit_eq_mod)
  next
    case 3
    have "readPacketNumber (drop 1 (PutUint32 v) @ r) 3 = Some (Inr (uint (take_bit 24 v)))" for v r
      using three_bytes [of v]
      by (simp add: readPacketNumber_def PutUint32_def PacketNumberLen1_def PacketNumberLen2_def PacketNumberLen3_def)
    moreover have "uint (take_bit 24 (word_of_int pn :: 32 word)) = take_bit 24 pn"
      by (simp only: unsigned_take_bit_eq uint_word_of_int) (simp add: take_bit_eq_mod mod_mod_cancel)
    then have "uint (take_bit 24 (word_of_int pn :: 32 word)) = pn mod 2 ^ 24" by (simp only: take_bit_eq_mod)
    moreover have "length (drop 1 (PutUint32 v)) = 3" for v by (simp add: PutUint32_def)
    ultimately show ?thesis
      by (intro exI [of _ "drop 1 (PutUint32 (word_of_int pn))"])
        (simp add: 3 appendPacketNumber_def PacketNumberLen1_def PacketNumberLen2_def PacketNumberLen3_def)
  next
    case 4
    have "length (PutUint32 v) = 4" for v by (simp add: PutUint32_def)
    then show ?thesis
      by (intro exI [of _ "PutUint32 (word_of_int pn)"])
        (simp add: 4 appendPacketNumber_def readPacketNumber_def PacketNumberLen1_def PacketNumberLen2_def
          PacketNumberLen3_def PacketNumberLen4_def Uint32_Put uint_word_of_int take_bit_eq_mod)
  qed
qed

lemma type_byte:
  fixes kp :: key_phase_bit and len :: nat
  assumes "len \<in> {1, 2, 3, 4}"
  defines "t \<equiv> (if kp = KeyPhaseOne then 0x40 OR (of_nat len - 1) OR 4 else 0x40 OR (of_nat len - 1) :: byte)"
  shows "t AND 0x80 = 0" "t AND 0x40 \<noteq> 0" "unat (t AND 3) + 1 = len" "t AND 4 > 0 \<longleftrightarrow> kp = KeyPhaseOne" "t AND 0x18 = 0"
  using assms(1) unfolding t_def by auto

lemma short_header_round_trip:
  assumes "len \<in> {1, 2, 3, 4}" and "kp \<noteq> KeyPhaseUndefined"
  shows "\<exists>bs. AppendShortHeader b connID pn len kp = Inr (b @ bs) \<and> length bs = ShortHeaderLen connID len \<and>
    (\<forall>r. ParseShortHeader (bs @ r) (length connID) = Some (length bs, pn mod 2 ^ (8 * len), len, kp, None))"
proof -
  obtain ps where ps: "length ps = len" "\<And>b. appendPacketNumber b pn len = Inr (b @ ps)"
    "\<And>r. readPacketNumber (ps @ r) len = Some (Inr (pn mod 2 ^ (8 * len)))" using packet_number_bytes [OF assms(1)] by blast
  define t :: byte where "t = (if kp = KeyPhaseOne then 0x40 OR (of_nat len - 1) OR 4 else 0x40 OR (of_nat len - 1))"
  note tb = type_byte [OF assms(1), of kp, folded t_def]
  have "AppendShortHeader b connID pn len kp = Inr (b @ t # connID @ ps)"
    by (simp add: AppendShortHeader_def ps t_def or.assoc)
  moreover have "(if t AND 4 > 0 then KeyPhaseOne else KeyPhaseZero) = kp" using assms(2) tb(4) by (cases kp) auto
  then have "ParseShortHeader ((t # connID @ ps) @ r) (length connID) =
      Some (1 + length connID + len, pn mod 2 ^ (8 * len), len, kp, None)" for r
    using tb ps unfolding ParseShortHeader_def Let_def by (simp add: ps)
  ultimately show ?thesis by (intro exI [of _ "t # connID @ ps"]) (simp add: ShortHeaderLen_def ps)
qed

section \<open>Properties\<close>

text \<open>
  C24. A packet number survives the short header: when fewer than \<open>2 ^ 31\<close> packets are unacknowledged, the header
  written with the length that \<open>PacketNumberLengthForHeader\<close> chooses is parsed back without error, and the receiver
  decodes from the truncated number it carries exactly the number that was sent. It may have seen any number from the
  last one it acknowledged on, also up to \<open>2 ^ 15 - 2\<close> later ones.
\<close>

theorem packet_number_survives:
  assumes "0 \<le> pn" and "pn < 2 ^ 62" and "-1 \<le> acked" and "acked < pn" and "pn - acked < 2 ^ 31"
    and "acked \<le> largest" and "largest < 2 ^ 62" and "largest < pn + 2 ^ 15 - 1" and "kp \<noteq> KeyPhaseUndefined"
  shows "\<exists>bs tr len. AppendShortHeader b connID pn (PacketNumberLengthForHeader pn acked) kp = Inr (b @ bs) \<and>
    ParseShortHeader (bs @ payload) (length connID) = Some (length bs, tr, len, kp, None) \<and>
    DecodePacketNumber len largest tr = pn"
proof -
  define len where "len = PacketNumberLengthForHeader pn acked"
  have w: "wrap64 (pn + 1) = pn + 1" "wrap64 (pn - acked) = pn - acked"
    using assms by (auto intro!: wrap64_id simp: in_int64_def min_int64_def max_int64_def)
  then have len: "len \<in> {2, 3, 4}" "pn - acked < 2 ^ (8 * len - 1)"
    using assms(4,5) unfolding len_def PacketNumberLengthForHeader_def PacketNumberLen2_def PacketNumberLen3_def
      PacketNumberLen4_def InvalidPacketNumber_def Let_def by auto
  then have big: "(2 :: int) ^ 15 \<le> 2 ^ (8 * len - 1)" by auto
  have "DecodePacketNumber len largest (pn mod 2 ^ (8 * len)) = pn"
    using len big assms by (intro Decode_nearest) auto
  with short_header_round_trip [of len kp b connID pn] len assms(9) show ?thesis unfolding len_def by auto
qed

theorem packet_number_survives_witness:
  "\<exists>bs tr len. AppendShortHeader [] [7, 9] 70000 (PacketNumberLengthForHeader 70000 60000) KeyPhaseOne = Inr bs \<and>
    ParseShortHeader (bs @ [0, 1]) 2 = Some (length bs, tr, len, KeyPhaseOne, None) \<and> DecodePacketNumber len 69990 tr = 70000"
  using packet_number_survives [of 70000 60000 69990 KeyPhaseOne "[]" "[7, 9]" "[0, 1]"] by (simp add: numeral_2_eq_2)

end
