(* ===== verification/Quic_History.thy ===== *)
theory Quic_History
  imports Quic_Packet_Number
begin

text \<open>
  The history of received packets (\<open>internal/ackhandler/received_packet_history.go\<close>): ascending intervals of packet
  numbers. Packet numbers are the non-negative ones below \<open>2 ^ 62\<close>, so that the sums and differences by one stay in
  the range of \<open>int64\<close>.
\<close>

record interval =
  Start :: packet_number
  End :: packet_number

definition MaxNumAckRanges :: nat where "MaxNumAckRanges = 64"

record receivedPacketHistory =
  ranges :: "interval list"
  deletedBelow :: packet_number

definition newReceivedPacketHistory :: receivedPacketHistory where
  "newReceivedPacketHistory = \<lparr>ranges = [], deletedBelow = InvalidPacketNumber\<rparr>"

section \<open>Adding a packet\<close>

text \<open>The loop of \<open>addToRanges\<close> from the last range downwards; \<open>Suc i\<close> stands for the index \<open>i\<close>.\<close>

fun add_loop :: "packet_number \<Rightarrow> interval list \<Rightarrow> nat \<Rightarrow> bool \<times> interval list" where
  "add_loop p rs 0 = (True, \<lparr>Start = p, End = p\<rparr> # rs)"
| "add_loop p rs (Suc i) =
     (let r = rs ! i in
      if p \<ge> Start r \<and> p \<le> End r then (False, rs)
      else if End r = p - 1 then (True, rs[i := r\<lparr>End := p\<rparr>])
      else if Start r = p + 1 then
        (let rs = rs[i := r\<lparr>Start := p\<rparr>] in
         if i > 0 \<and> End (rs ! (i - 1)) + 1 = Start (rs ! i)
         then (True, take i (rs[i - 1 := (rs ! (i - 1))\<lparr>End := End (rs ! i)\<rparr>]) @ drop (i + 1) rs)
         else (True, rs))
      else if p > End r then (True, take (i + 1) rs @ [\<lparr>Start = p, End = p\<rparr>] @ drop (i + 1) rs)
      else add_loop p rs i)"

definition addToRanges :: "packet_number \<Rightarrow> interval list \<Rightarrow> bool \<times> interval list" where
  "addToRanges p rs = (if rs = [] then (True, [\<lparr>Start = p, End = p\<rparr>]) else add_loop p rs (length rs))"

definition history_ReceivedPacket :: "packet_number \<Rightarrow> receivedPacketHistory \<Rightarrow> bool \<times> receivedPacketHistory" where
  "history_ReceivedPacket p h =
     (if p < deletedBelow h then (False, h)
      else
        (case addToRanges p (ranges h) of (isNew, rs) \<Rightarrow>
           (isNew, h\<lparr>ranges := (if length rs > MaxNumAckRanges then drop (length rs - MaxNumAckRanges) rs else rs)\<rparr>)))"

section \<open>Forgetting old packets\<close>

text \<open>The loop of \<open>DeleteBelow\<close>: how many ranges end below \<open>p\<close>, and the ranges with the next one cut.\<close>

fun delete_loop :: "packet_number \<Rightarrow> interval list \<Rightarrow> nat \<times> interval list" where
  "delete_loop p [] = (0, [])"
| "delete_loop p (r # rs) =
     (if End r < p then (case delete_loop p rs of (n, rs') \<Rightarrow> (Suc n, r # rs'))
      else if p > Start r \<and> p \<le> End r then (0, r\<lparr>Start := p\<rparr> # rs)
      else (0, r # rs))"

definition DeleteBelow :: "packet_number \<Rightarrow> receivedPacketHistory \<Rightarrow> receivedPacketHistory" where
  "DeleteBelow p h =
     (if p < deletedBelow h then h
      else
        (let h = h\<lparr>deletedBelow := p\<rparr> in
         if ranges h = [] then h
         else (case delete_loop p (ranges h) of (n, rs) \<Rightarrow> h\<lparr>ranges := drop n rs\<rparr>)))"

section \<open>Queries\<close>

definition Backward :: "receivedPacketHistory \<Rightarrow> interval list" where
  "Backward h = rev (ranges h)"

fun missing_loop :: "packet_number \<Rightarrow> packet_number \<Rightarrow> interval list \<Rightarrow> nat \<Rightarrow> packet_number" where
  "missing_loop deleted p rs 0 = p"
| "missing_loop deleted p rs (Suc i) =
     (let r = rs ! i in
      if p \<ge> Start r \<and> p \<le> End r then
        (let highest = Start r - 1 in
         if deleted \<noteq> InvalidPacketNumber \<and> highest < deleted then InvalidPacketNumber else highest)
      else if i \<ge> 1 \<and> p > End (rs ! (i - 1)) \<and> p \<le> Start r then p
      else missing_loop deleted p rs i)"

definition HighestMissingUpTo :: "packet_number \<Rightarrow> receivedPacketHistory \<Rightarrow> packet_number" where
  "HighestMissingUpTo p h =
     (if ranges h = [] \<or> deletedBelow h \<noteq> InvalidPacketNumber \<and> p < deletedBelow h then InvalidPacketNumber
      else missing_loop (deletedBelow h) (min (End (last (ranges h))) p) (ranges h) (length (ranges h)))"

fun dup_loop :: "packet_number \<Rightarrow> interval list \<Rightarrow> nat \<Rightarrow> bool" where
  "dup_loop p rs 0 = False"
| "dup_loop p rs (Suc i) =
     (let r = rs ! i in
      if p > End r then False
      else if p \<le> End r \<and> p \<ge> Start r then True
      else dup_loop p rs i)"

definition history_IsPotentiallyDuplicate :: "packet_number \<Rightarrow> receivedPacketHistory \<Rightarrow> bool" where
  "history_IsPotentiallyDuplicate p h = (if p < deletedBelow h then True else dup_loop p (ranges h) (length (ranges h)))"

section \<open>The set of packets behind the ranges\<close>

definition covered :: "interval list \<Rightarrow> packet_number set" where
  "covered rs = (\<Union>r \<in> set rs. {Start r..End r})"

definition separated :: "interval list \<Rightarrow> bool" where
  "separated rs \<longleftrightarrow> sorted_wrt (\<lambda>r s. End r + 1 < Start s) rs \<and> (\<forall>r \<in> set rs. Start r \<le> End r)"

lemma covered_simps [simp]:
  "covered [] = {}" "covered (r # rs) = {Start r..End r} \<union> covered rs" "covered (xs @ ys) = covered xs \<union> covered ys"
  by (auto simp: covered_def)

lemma separated_Nil [simp]: "separated []"
  by (simp add: separated_def)

lemma separated_append:
  "separated (xs @ ys) \<longleftrightarrow> separated xs \<and> separated ys \<and> (\<forall>x \<in> set xs. \<forall>y \<in> set ys. End x + 1 < Start y)"
  by (auto simp: separated_def sorted_wrt_append)

lemma separated_Cons:
  "separated (r # rs) \<longleftrightarrow> Start r \<le> End r \<and> separated rs \<and> (\<forall>s \<in> set rs. End r + 1 < Start s)"
  by (auto simp: separated_def)

text \<open>Adding \<open>p\<close> when every range from index \<open>length xs\<close> on starts above \<open>p + 1\<close>.\<close>

definition added :: "packet_number \<Rightarrow> interval list \<Rightarrow> bool \<times> interval list \<Rightarrow> bool" where
  "added p rs res \<longleftrightarrow> separated (snd res) \<and> covered (snd res) = insert p (covered rs) \<and>
     (fst res \<longleftrightarrow> p \<notin> covered rs) \<and> length (snd res) \<le> Suc (length rs)"

lemma add_loop_snoc:
  "add_loop p (xs @ r # ys) (Suc (length xs)) =
     (if p \<ge> Start r \<and> p \<le> End r then (False, xs @ r # ys)
      else if End r = p - 1 then (True, xs @ r\<lparr>End := p\<rparr> # ys)
      else if Start r = p + 1 then
        (if xs \<noteq> [] \<and> End (last xs) + 1 = p then (True, butlast xs @ (last xs)\<lparr>End := End r\<rparr> # ys)
         else (True, xs @ r\<lparr>Start := p\<rparr> # ys))
      else if p > End r then (True, xs @ r # \<lparr>Start = p, End = p\<rparr> # ys)
      else add_loop p (xs @ r # ys) (length xs))"
proof (cases xs rule: rev_cases)
  case Nil
  then show ?thesis by (simp add: Let_def)
next
  case (snoc zs z)
  have "(zs @ z # r # ys)[length zs := z'] = zs @ z' # r # ys" for z' by (simp add: list_update_append)
  then show ?thesis by (simp add: snoc Let_def nth_append list_update_append)
qed

lemma last_highest:
  assumes "separated rs" and "r \<in> set rs"
  shows "End r \<le> End (last rs)"
  using assms by (cases rs rule: rev_cases) (auto simp: separated_append separated_Cons)

lemma add_loop_added:
  assumes "separated (xs @ ys)" and "\<forall>y \<in> set ys. p + 1 < Start y"
  shows "added p (xs @ ys) (add_loop p (xs @ ys) (length xs))"
  using assms
proof (induction xs arbitrary: ys rule: rev_induct)
  case Nil
  then show ?case by (fastforce simp: added_def separated_Cons covered_def)
next
  case (snoc r xs)
  from snoc.prems have sep: "separated xs" "separated ys" "Start r \<le> End r"
    and lt: "\<And>x. x \<in> set xs \<Longrightarrow> End x + 1 < Start r" "\<And>x y. x \<in> set xs \<Longrightarrow> y \<in> set ys \<Longrightarrow> End x + 1 < Start y"
      "\<And>y. y \<in> set ys \<Longrightarrow> End r + 1 < Start y" "\<And>y. y \<in> set ys \<Longrightarrow> p + 1 < Start y"
    by (auto simp: separated_append separated_Cons)
  have xs: "\<And>x. x \<in> set xs \<Longrightarrow> Start x \<le> End x" using sep(1) by (auto simp: separated_def)
  have xs_below: "q < Start r - 1" if "q \<in> covered xs" for q using that lt(1) by (fastforce simp: covered_def)
  have ys_above: "p + 1 < q \<and> End r + 1 < q" if "q \<in> covered ys" for q using that lt(3,4) by (fastforce simp: covered_def)
  consider (inside) "p \<ge> Start r" "p \<le> End r" | (after) "End r = p - 1" | (before) "Start r = p + 1" | (between) "End r < p - 1"
    | (below) "p + 1 < Start r" by linarith
  then show ?case
  proof cases
    case inside
    then show ?thesis using snoc.prems by (auto simp: add_loop_snoc added_def)
  next
    case after
    have "separated (xs @ r\<lparr>End := p\<rparr> # ys)" using sep lt after by (auto simp: separated_append separated_Cons)
    moreover have "{Start r..p} = insert p {Start r..End r}" using sep(3) after by auto
    moreover have "p \<notin> covered xs" "p \<notin> covered ys" using xs_below [of p] ys_above [of p] sep(3) after by auto
    ultimately show ?thesis using after sep(3) by (auto simp: add_loop_snoc added_def)
  next
    case before
    have new: "p \<notin> covered xs" "p \<notin> covered ys" "{p..End r} = insert p {Start r..End r}"
      using xs_below [of p] ys_above [of p] sep(3) before by auto
    show ?thesis
    proof (cases "xs \<noteq> [] \<and> End (last xs) + 1 = p")
      case True
      then obtain zs z where z: "xs = zs @ [z]" "End z + 1 = p" by (cases xs rule: rev_cases) auto
      have "Start z \<le> End r" using lt(1) [of z] xs [of z] sep(3) z by simp
      then have "separated (zs @ z\<lparr>End := End r\<rparr> # ys)" using sep lt z by (auto simp: separated_append separated_Cons)
      moreover have "{Start z..End r} = insert p ({Start z..End z} \<union> {Start r..End r})"
        using z before sep(3) xs [of z] by auto
      then have "covered (zs @ z\<lparr>End := End r\<rparr> # ys) = insert p (covered (xs @ r # ys))" by (auto simp: z(1))
      moreover have "add_loop p (xs @ r # ys) (Suc (length xs)) = (True, zs @ z\<lparr>End := End r\<rparr> # ys)"
        unfolding add_loop_snoc using before sep(3) z by auto
      ultimately show ?thesis using new before by (simp add: added_def) (simp add: z(1))
    next
      case False
      have "End x + 1 < p" if "x \<in> set xs" for x
      proof -
        have ne: "xs \<noteq> []" using that by auto
        with last_highest [OF sep(1) that] lt(1) [OF last_in_set [OF ne]] False before show ?thesis by simp
      qed
      then have "separated (xs @ r\<lparr>Start := p\<rparr> # ys)" using sep lt before by (auto simp: separated_append separated_Cons)
      moreover have "add_loop p (xs @ r # ys) (Suc (length xs)) = (True, xs @ r\<lparr>Start := p\<rparr> # ys)"
        unfolding add_loop_snoc using False before sep(3) by auto
      ultimately show ?thesis using before new by (simp add: added_def)
    qed
  next
    case between
    have "p \<notin> covered xs" "p \<notin> covered ys" using xs_below [of p] ys_above [of p] sep(3) between by auto
    moreover have "End x + 1 < p" if "x \<in> set xs" for x using lt(1) [OF that] sep(3) between by simp
    then have "separated (xs @ r # \<lparr>Start = p, End = p\<rparr> # ys)" using sep lt between by (auto simp: separated_append separated_Cons)
    moreover have "add_loop p (xs @ r # ys) (Suc (length xs)) = (True, xs @ r # \<lparr>Start = p, End = p\<rparr> # ys)"
      unfolding add_loop_snoc using between sep(3) by auto
    ultimately show ?thesis using between by (auto simp: added_def)
  next
    case below
    have "added p (xs @ r # ys) (add_loop p (xs @ r # ys) (length xs))"
      using snoc.IH [of "r # ys"] snoc.prems below by simp
    then show ?thesis using below sep(3) by (simp add: add_loop_snoc)
  qed
qed

lemma addToRanges_added:
  assumes "separated rs"
  shows "added p rs (addToRanges p rs)"
  using add_loop_added [of rs "[]" p] assms by (auto simp: addToRanges_def added_def separated_Cons)

section \<open>The invariant\<close>

text \<open>What a history means: the packets it remembers.\<close>

definition remembered :: "receivedPacketHistory \<Rightarrow> packet_number set" where
  "remembered h = covered (ranges h)"

definition history_ok :: "receivedPacketHistory \<Rightarrow> bool" where
  "history_ok h \<longleftrightarrow> separated (ranges h) \<and> length (ranges h) \<le> MaxNumAckRanges \<and>
     -1 \<le> deletedBelow h \<and> (\<forall>q \<in> remembered h. 0 \<le> q \<and> deletedBelow h \<le> q)"

lemma new_history_ok: "history_ok newReceivedPacketHistory"
  by (simp add: history_ok_def newReceivedPacketHistory_def remembered_def InvalidPacketNumber_def)

lemma covered_drop:
  assumes "separated rs"
  shows "covered (drop n rs) \<subseteq> covered rs" and "q \<in> covered rs \<Longrightarrow> q \<notin> covered (drop n rs) \<Longrightarrow> q' \<in> covered (drop n rs) \<Longrightarrow> q + 1 < q'"
proof -
  have split: "covered rs = covered (take n rs) \<union> covered (drop n rs)" by (metis append_take_drop_id covered_simps(3))
  then show "covered (drop n rs) \<subseteq> covered rs" by simp
  have "End x + 1 < Start y" if "x \<in> set (take n rs)" "y \<in> set (drop n rs)" for x y
    using assms that separated_append [of "take n rs" "drop n rs"] by simp
  then show "q + 1 < q'" if "q \<in> covered rs" "q \<notin> covered (drop n rs)" "q' \<in> covered (drop n rs)"
    using that unfolding split by (fastforce simp: covered_def)
qed

lemma separated_drop: "separated rs \<Longrightarrow> separated (drop n rs)"
  by (metis append_take_drop_id separated_append)

lemma ReceivedPacket_spec:
  assumes "history_ok h" and "0 \<le> p" and "history_ReceivedPacket p h = (isNew, h')"
  shows "history_ok h' \<and> deletedBelow h' = deletedBelow h \<and> (isNew \<longleftrightarrow> deletedBelow h \<le> p \<and> p \<notin> remembered h) \<and>
    remembered h' \<subseteq> insert p (remembered h) \<and>
    (deletedBelow h \<le> p \<longrightarrow> (\<forall>q \<in> insert p (remembered h) - remembered h'.
       length (ranges h') = MaxNumAckRanges \<and> (\<forall>q' \<in> remembered h'. q + 1 < q')))"
proof (cases "p < deletedBelow h")
  case True
  with assms show ?thesis by (auto simp: history_ReceivedPacket_def)
next
  case False
  obtain rs where rs: "addToRanges p (ranges h) = (isNew, rs)"
    and h': "h' = h\<lparr>ranges := (if length rs > MaxNumAckRanges then drop (length rs - MaxNumAckRanges) rs else rs)\<rparr>"
    using assms(3) False by (auto simp: history_ReceivedPacket_def split: prod.splits)
  have a: "separated rs" "covered rs = insert p (remembered h)" "isNew \<longleftrightarrow> p \<notin> remembered h"
    using addToRanges_added [of "ranges h" p] assms(1) by (simp_all add: rs added_def history_ok_def remembered_def)
  define n where "n = (if length rs > MaxNumAckRanges then length rs - MaxNumAckRanges else 0)"
  have n: "ranges h' = drop n rs" "deletedBelow h' = deletedBelow h" by (simp_all add: h' n_def)
  have sub: "remembered h' \<subseteq> insert p (remembered h)" using covered_drop(1) [OF a(1), of n] a(2) by (simp add: remembered_def n)
  moreover have "history_ok h'"
    using assms(1,2) sub False separated_drop [OF a(1)] by (auto simp: history_ok_def n n_def)
  moreover have "length (ranges h') = MaxNumAckRanges \<and> (\<forall>q' \<in> remembered h'. q + 1 < q')"
    if "q \<in> insert p (remembered h) - remembered h'" for q
  proof -
    have q: "q \<in> covered rs" "q \<notin> covered (drop n rs)" using that by (simp_all add: a(2) remembered_def n)
    then have "n \<noteq> 0" by (metis drop0)
    then have "length (ranges h') = MaxNumAckRanges" by (simp add: n n_def split: if_splits)
    moreover have "\<forall>q' \<in> remembered h'. q + 1 < q'" using covered_drop(2) [OF a(1) q] by (simp add: remembered_def n)
    ultimately show ?thesis ..
  qed
  ultimately show ?thesis using a(3) False n(2) by simp
qed

lemma delete_loop_spec:
  assumes "separated rs" and "delete_loop p rs = (n, rs')"
  shows "separated (drop n rs') \<and> covered (drop n rs') = covered rs \<inter> {p..} \<and> length rs' = length rs"
  using assms
proof (induction p rs arbitrary: n rs' rule: delete_loop.induct)
  case (2 p r rs)
  have up: "\<And>q. q \<in> covered rs \<Longrightarrow> End r + 1 < q" using "2.prems"(1) by (fastforce simp: separated_Cons covered_def)
  show ?case
  proof (cases "End r < p")
    case True
    then obtain m ss where "delete_loop p rs = (m, ss)" "n = Suc m" "rs' = r # ss" using "2.prems"(2) by (auto split: prod.splits)
    with "2.IH" [OF True] "2.prems"(1) True show ?thesis by (auto simp: separated_Cons)
  next
    case False
    have "covered rs \<inter> {p..} = covered rs" using up False by force
    with False "2.prems" show ?thesis by (auto simp: separated_Cons split: if_splits)
  qed
qed simp

lemma DeleteBelow_spec:
  assumes "history_ok h" and "0 \<le> p"
  shows "history_ok (DeleteBelow p h) \<and> deletedBelow (DeleteBelow p h) = max p (deletedBelow h) \<and>
    remembered (DeleteBelow p h) = remembered h \<inter> {p..}"
proof (cases "p < deletedBelow h")
  case True
  with assms show ?thesis by (force simp: DeleteBelow_def history_ok_def)
next
  case False
  obtain n rs where d: "delete_loop p (ranges h) = (n, rs)" by fastforce
  note s = delete_loop_spec [OF _ d]
  have eq: "DeleteBelow p h = h\<lparr>deletedBelow := p, ranges := drop n rs\<rparr>"
    using False d by (cases "ranges h") (simp_all add: DeleteBelow_def)
  show ?thesis using s assms False by (auto simp: eq history_ok_def remembered_def)
qed

lemma dup_loop_covered:
  assumes "separated (xs @ ys)" and "\<forall>y \<in> set ys. p < Start y"
  shows "dup_loop p (xs @ ys) (length xs) \<longleftrightarrow> p \<in> covered (xs @ ys)"
  using assms
proof (induction xs arbitrary: ys rule: rev_induct)
  case Nil
  then show ?case by (auto simp: covered_def)
next
  case (snoc r xs)
  have lt: "\<And>x. x \<in> set xs \<Longrightarrow> End x + 1 < Start r" "Start r \<le> End r" using snoc.prems by (auto simp: separated_append separated_Cons)
  show ?case
  proof (cases "p < Start r")
    case True
    with snoc.IH [of "r # ys"] snoc.prems lt(2) show ?thesis by (simp add: nth_append)
  next
    case False
    with snoc.prems lt show ?thesis by (force simp: nth_append covered_def)
  qed
qed

lemma IsPotentiallyDuplicate_spec:
  assumes "history_ok h"
  shows "history_IsPotentiallyDuplicate p h \<longleftrightarrow> p < deletedBelow h \<or> p \<in> remembered h"
  using dup_loop_covered [of "ranges h" "[]" p] assms
  by (simp add: history_IsPotentiallyDuplicate_def remembered_def history_ok_def)

section \<open>The highest missing packet\<close>

definition missing_up_to :: "packet_number \<Rightarrow> packet_number \<Rightarrow> packet_number set \<Rightarrow> packet_number set" where
  "missing_up_to d p S = {q. 0 \<le> q \<and> d \<le> q \<and> q \<le> p \<and> q \<notin> S}"

definition highest_of :: "packet_number \<Rightarrow> packet_number set \<Rightarrow> bool" where
  "highest_of x M \<longleftrightarrow> (if M = {} then x = InvalidPacketNumber else x \<in> M \<and> (\<forall>q \<in> M. q \<le> x))"

lemma highest_self: "0 \<le> p \<Longrightarrow> d \<le> p \<Longrightarrow> p \<notin> S \<Longrightarrow> highest_of p (missing_up_to d p S)"
  by (auto simp: highest_of_def missing_up_to_def)

lemma highest_below_range:
  assumes "a \<le> p" and "0 \<le> a" and "{a..p} \<subseteq> S" and "a - 1 \<notin> S" and "d = -1 \<or> 0 \<le> d"
  shows "highest_of (if d \<noteq> -1 \<and> a - 1 < d then -1 else a - 1) (missing_up_to d p S)"
proof -
  have eq: "missing_up_to d p S = {q. 0 \<le> q \<and> d \<le> q \<and> q \<le> a - 1 \<and> q \<notin> S}"
  proof -
    have "q \<le> p \<longleftrightarrow> q \<le> a - 1" if "q \<notin> S" for q
    proof -
      have "\<not> (a \<le> q \<and> q \<le> p)" using assms(3) that by (meson atLeastAtMost_iff subsetD)
      then show ?thesis using assms(1) by linarith
    qed
    then show ?thesis unfolding missing_up_to_def by blast
  qed
  show ?thesis
  proof (cases "0 \<le> a - 1 \<and> d \<le> a - 1")
    case True
    then have "a - 1 \<in> missing_up_to d p S" using assms(4) by (simp add: eq)
    with True show ?thesis by (auto simp: highest_of_def eq)
  next
    case False
    then have "missing_up_to d p S = {}" using assms(4) by (auto simp: eq)
    with False assms(2,5) show ?thesis by (auto simp: highest_of_def InvalidPacketNumber_def)
  qed
qed

lemma missing_loop_spec:
  assumes "separated (xs @ ys)" and "\<forall>r \<in> set (xs @ ys). 0 \<le> Start r" and "\<forall>y \<in> set ys. p < Start y"
    and "xs \<noteq> [] \<longrightarrow> p \<le> End (last xs)" and "0 \<le> p" and "d \<le> p" and "d = -1 \<or> 0 \<le> d"
  shows "highest_of (missing_loop d p (xs @ ys) (length xs)) (missing_up_to d p (covered (xs @ ys)))"
  using assms
proof (induction xs arbitrary: ys rule: rev_induct)
  case Nil
  then show ?case by (auto simp: covered_def intro!: highest_self)
next
  case (snoc r xs)
  have lt: "\<And>x. x \<in> set xs \<Longrightarrow> End x + 1 < Start r" "\<And>y. y \<in> set ys \<Longrightarrow> End r + 1 < Start y" "Start r \<le> End r" "separated xs"
    using snoc.prems(1) by (auto simp: separated_append separated_Cons)
  have pr: "p \<le> End r" "0 \<le> Start r" using snoc.prems(2,4) by auto
  show ?case
  proof (cases "Start r \<le> p")
    case True
    have "Start r - 1 \<notin> covered (xs @ r # ys)" using lt by (fastforce simp: covered_def)
    moreover have "{Start r..p} \<subseteq> covered (xs @ r # ys)" using pr by auto
    ultimately have "highest_of (if d \<noteq> -1 \<and> Start r - 1 < d then -1 else Start r - 1) (missing_up_to d p (covered (xs @ r # ys)))"
      using True pr snoc.prems(7) by (intro highest_below_range)
    with True pr show ?thesis by (auto simp: nth_append InvalidPacketNumber_def Let_def split: if_splits)
  next
    case False
    show ?thesis
    proof (cases "xs \<noteq> [] \<and> End (last xs) < p")
      case True
      have "p \<notin> covered xs" using last_highest [OF lt(4)] True by (fastforce simp: covered_def)
      moreover have "p \<notin> covered ys" using lt(2) pr by (fastforce simp: covered_def)
      ultimately have "p \<notin> covered (xs @ r # ys)" using False by simp
      moreover have "missing_loop d p (xs @ r # ys) (Suc (length xs)) = p"
        using False True by (cases xs rule: rev_cases) (auto simp: nth_append)
      ultimately show ?thesis using highest_self [of p d] snoc.prems(5,6) by simp
    next
      case g: False
      have "missing_loop d p (xs @ r # ys) (Suc (length xs)) = missing_loop d p (xs @ r # ys) (length xs)"
        using False g by (cases xs rule: rev_cases) (auto simp: nth_append)
      moreover have "xs \<noteq> [] \<longrightarrow> p \<le> End (last xs)" using g by auto
      ultimately show ?thesis using snoc.IH [of "r # ys"] snoc.prems False by simp
    qed
  qed
qed

lemma HighestMissingUpTo_spec:
  assumes "history_ok h" and "0 \<le> p" and "ranges h \<noteq> []" and "deletedBelow h = -1 \<or> deletedBelow h \<le> p"
  shows "highest_of (HighestMissingUpTo p h) (missing_up_to (deletedBelow h) (min (End (last (ranges h))) p) (remembered h))"
proof -
  have sep: "separated (ranges h)" and ge: "\<forall>q \<in> remembered h. 0 \<le> q \<and> deletedBelow h \<le> q" and d: "-1 \<le> deletedBelow h"
    using assms(1) by (simp_all add: history_ok_def)
  have r: "0 \<le> Start r \<and> deletedBelow h \<le> Start r \<and> Start r \<le> End r" if "r \<in> set (ranges h)" for r
  proof -
    have le: "Start r \<le> End r" using sep that by (auto simp: separated_def)
    then have "Start r \<in> remembered h" using that by (auto simp: remembered_def covered_def)
    with ge le show ?thesis by simp
  qed
  note l = r [OF last_in_set [OF assms(3)]]
  have "highest_of (missing_loop (deletedBelow h) (min (End (last (ranges h))) p) (ranges h @ []) (length (ranges h)))
      (missing_up_to (deletedBelow h) (min (End (last (ranges h))) p) (covered (ranges h @ [])))"
    using sep r l d assms(2,4) by (intro missing_loop_spec) auto
  then show ?thesis using assms(3,4) by (auto simp: HighestMissingUpTo_def remembered_def InvalidPacketNumber_def)
qed

section \<open>Runs\<close>

datatype packet_event = Received packet_number | Ignored packet_number

fun event_number :: "packet_event \<Rightarrow> packet_number" where
  "event_number (Received p) = p"
| "event_number (Ignored p) = p"

fun log_run :: "(packet_number \<Rightarrow> 'h \<Rightarrow> bool \<times> 'h) \<Rightarrow> (packet_number \<Rightarrow> 'h \<Rightarrow> 'h) \<Rightarrow> packet_event list \<Rightarrow> 'h \<Rightarrow> 'h" where
  "log_run receive ignore [] h = h"
| "log_run receive ignore (Received p # es) h = log_run receive ignore es (snd (receive p h))"
| "log_run receive ignore (Ignored p # es) h = log_run receive ignore es (ignore p h)"

definition history_run :: "packet_event list \<Rightarrow> receivedPacketHistory" where
  "history_run es = log_run history_ReceivedPacket DeleteBelow es newReceivedPacketHistory"

text \<open>What the trackers rely on: a log of packet numbers that takes in one packet at a time and may forget old ones.\<close>

locale packet_log =
  fixes receive :: "packet_number \<Rightarrow> 'h \<Rightarrow> bool \<times> 'h" and ignore :: "packet_number \<Rightarrow> 'h \<Rightarrow> 'h"
    and holds :: "'h \<Rightarrow> packet_number set" and valid :: "'h \<Rightarrow> bool"
  assumes receive: "valid h \<Longrightarrow> 0 \<le> p \<Longrightarrow> valid (snd (receive p h)) \<and> holds (snd (receive p h)) \<subseteq> insert p (holds h)"
    and ignore: "valid h \<Longrightarrow> 0 \<le> p \<Longrightarrow> valid (ignore p h) \<and> holds (ignore p h) = holds h \<inter> {p..}"
begin

lemma run_sound:
  assumes "valid h" and "\<forall>e \<in> set es. 0 \<le> event_number e"
  shows "valid (log_run receive ignore es h) \<and> holds (log_run receive ignore es h) \<subseteq> holds h \<union> {p. Received p \<in> set es}"
  using assms
proof (induction es arbitrary: h)
  case (Cons e es)
  show ?case
  proof (cases e)
    case (Received p)
    with Cons.prems receive [of h p] Cons.IH [of "snd (receive p h)"] show ?thesis by auto
  next
    case (Ignored p)
    with Cons.prems ignore [of h p] Cons.IH [of "ignore p h"] show ?thesis by auto
  qed
qed simp

end

interpretation rph: packet_log history_ReceivedPacket DeleteBelow remembered history_ok
proof
  fix h p
  assume "history_ok h" "(0 :: packet_number) \<le> p"
  then show "history_ok (snd (history_ReceivedPacket p h)) \<and> remembered (snd (history_ReceivedPacket p h)) \<subseteq> insert p (remembered h)"
    using ReceivedPacket_spec [of h p "fst (history_ReceivedPacket p h)" "snd (history_ReceivedPacket p h)"] by simp
qed (use DeleteBelow_spec in simp)

section \<open>Properties\<close>

text \<open>
  C25. The history behaves as a set of packet numbers, of which it may give up the lowest: \<open>ReceivedPacket\<close> says that a
  packet is new exactly when it is neither below the deletion limit nor remembered, and adds it; a packet is only lost
  when all 64 ranges are in use and every packet still remembered is higher. \<open>DeleteBelow\<close> removes exactly the packets
  below its argument, \<open>IsPotentiallyDuplicate\<close> tests membership, and every operation keeps the ranges ascending,
  separated and at most 64.
\<close>

theorem history_refines_set:
  assumes "history_ok h" and "0 \<le> p" and "history_ReceivedPacket p h = (isNew, h')"
  shows "(isNew \<longleftrightarrow> deletedBelow h \<le> p \<and> p \<notin> remembered h) \<and> history_ok h' \<and> remembered h' \<subseteq> insert p (remembered h) \<and>
    (\<forall>q. deletedBelow h \<le> p \<and> q \<in> insert p (remembered h) - remembered h' \<longrightarrow>
       length (ranges h') = MaxNumAckRanges \<and> (\<forall>q' \<in> remembered h'. q + 1 < q')) \<and>
    history_ok (DeleteBelow p h) \<and> remembered (DeleteBelow p h) = remembered h \<inter> {p..} \<and>
    (history_IsPotentiallyDuplicate p h \<longleftrightarrow> p < deletedBelow h \<or> p \<in> remembered h)"
  using ReceivedPacket_spec [OF assms] DeleteBelow_spec [OF assms(1,2)] IsPotentiallyDuplicate_spec [OF assms(1)] by blast

definition three_packets :: receivedPacketHistory where
  "three_packets = \<lparr>ranges = [\<lparr>Start = 1, End = 2\<rparr>, \<lparr>Start = 4, End = 4\<rparr>], deletedBelow = -1\<rparr>"

lemma three_packets_ok: "history_ok three_packets"
  by (auto simp: three_packets_def history_ok_def separated_def remembered_def covered_def MaxNumAckRanges_def)

theorem history_refines_set_witness:
  "history_ReceivedPacket 3 three_packets = (True, three_packets\<lparr>ranges := [\<lparr>Start = 1, End = 4\<rparr>]\<rparr>) \<and>
   remembered (DeleteBelow 3 three_packets) = remembered three_packets \<inter> {3..}"
proof -
  have "history_ReceivedPacket 3 three_packets = (True, three_packets\<lparr>ranges := [\<lparr>Start = 1, End = 4\<rparr>]\<rparr>)"
    by (simp add: three_packets_def history_ReceivedPacket_def addToRanges_def MaxNumAckRanges_def Let_def)
  with history_refines_set [OF three_packets_ok _ this] show ?thesis by simp
qed

text \<open>
  Over any sequence of received and ignored packet numbers the history never remembers a packet that was not
  received, so no acknowledgement can be sent for one.
\<close>

theorem history_sound:
  assumes "\<forall>e \<in> set es. 0 \<le> event_number e"
  shows "remembered (history_run es) \<subseteq> {p. Received p \<in> set es} \<and>
    history_ok (history_run es)"
  using rph.run_sound [OF new_history_ok assms]
  by (auto simp: history_run_def newReceivedPacketHistory_def remembered_def)

theorem history_sound_witness:
  "remembered (history_run [Received 0, Received 2, Ignored 1]) \<subseteq> {0, 2}"
proof -
  have "{p. Received p \<in> set [Received 0, Received 2, Ignored 1]} = {0, 2}" by auto
  then show ?thesis using history_sound [of "[Received 0, Received 2, Ignored 1]"] by simp
qed

text \<open>
  \<open>HighestMissingUpTo\<close> finds the highest packet number up to its argument and up to the highest one received that
  was not received and is not below the deletion limit, and is invalid exactly when there is none.
\<close>

theorem HighestMissingUpTo_exact:
  assumes "history_ok h" and "0 \<le> p" and "ranges h \<noteq> []" and "deletedBelow h = -1 \<or> deletedBelow h \<le> p"
  shows "highest_of (HighestMissingUpTo p h) (missing_up_to (deletedBelow h) (min (End (last (ranges h))) p) (remembered h))"
  by (rule HighestMissingUpTo_spec [OF assms])

theorem HighestMissingUpTo_exact_witness:
  "HighestMissingUpTo 4 three_packets = 3 \<and> highest_of 3 (missing_up_to (-1) 4 (remembered three_packets))"
proof -
  have "HighestMissingUpTo 4 three_packets = 3"
    by (simp add: three_packets_def HighestMissingUpTo_def InvalidPacketNumber_def Let_def)
  then show ?thesis using HighestMissingUpTo_exact [OF three_packets_ok, of 4] by (simp add: three_packets_def)
qed

lemma ReceivedPacket_evicts:
  assumes "length (ranges h) = MaxNumAckRanges" and "separated (ranges h)" and "deletedBelow h \<le> p" and "End (last (ranges h)) + 1 < p"
  shows "history_ReceivedPacket p h = (True, h\<lparr>ranges := tl (ranges h) @ [\<lparr>Start = p, End = p\<rparr>]\<rparr>)"
proof -
  obtain xs r where rs: "ranges h = xs @ [r]" using assms(1) by (cases "ranges h" rule: rev_cases) (auto simp: MaxNumAckRanges_def)
  then have "addToRanges p (ranges h) = (True, ranges h @ [\<lparr>Start = p, End = p\<rparr>])"
    using assms(2,4) add_loop_snoc [of p xs r "[]"] by (simp add: addToRanges_def separated_append separated_Cons)
  moreover have "ranges h \<noteq> []" using rs by simp
  ultimately show ?thesis using assms(1,3) by (simp add: history_ReceivedPacket_def drop_Suc MaxNumAckRanges_def)
qed

text \<open>
  A duplicate is not recognized once its range was given up: when all 64 ranges are in use and a packet beyond the
  next number arrives, a packet of the lowest range is reported as new when it is received again, although it is not
  below the deletion limit.
\<close>

theorem evicted_packet_is_new:
  assumes "history_ok h" and "length (ranges h) = MaxNumAckRanges" and "q \<in> {Start (hd (ranges h))..End (hd (ranges h))}"
    and "End (last (ranges h)) + 1 < p"
  shows "q \<in> remembered h \<and> \<not> history_IsPotentiallyDuplicate q (snd (history_ReceivedPacket p h)) \<and>
    fst (history_ReceivedPacket q (snd (history_ReceivedPacket p h)))"
proof -
  define h' where "h' = snd (history_ReceivedPacket p h)"
  obtain r rs where r: "ranges h = r # rs" using assms(2) by (cases "ranges h") (auto simp: MaxNumAckRanges_def)
  have sep: "separated (r # rs)" using assms(1) r by (simp add: history_ok_def)
  have q: "q \<in> remembered h" using assms(3) r by (auto simp: remembered_def)
  then have ge: "0 \<le> q" "deletedBelow h \<le> q" using assms(1) by (auto simp: history_ok_def)
  have "q < p" using assms(3,4) last_highest [OF sep, of r] r by simp
  with ge have d: "deletedBelow h \<le> p" "0 \<le> p" by simp_all
  have h': "ranges h' = rs @ [\<lparr>Start = p, End = p\<rparr>]"
    using ReceivedPacket_evicts [OF assms(2) _ d(1) assms(4)] sep r by (simp add: h'_def)
  have ok: "history_ok h'" "deletedBelow h' = deletedBelow h"
    using ReceivedPacket_spec [OF assms(1) d(2), of "fst (history_ReceivedPacket p h)" h'] by (simp_all add: h'_def)
  have "q \<notin> covered rs" using sep assms(3) r by (fastforce simp: separated_Cons covered_def)
  then have new: "q \<notin> remembered h'" using \<open>q < p\<close> by (simp add: remembered_def h')
  with ok ge ReceivedPacket_spec [OF ok(1) ge(1), of "fst (history_ReceivedPacket q h')" "snd (history_ReceivedPacket q h')"]
    IsPotentiallyDuplicate_spec [OF ok(1), of q] q show ?thesis by (simp flip: h'_def)
qed

definition full_history :: receivedPacketHistory where
  "full_history = \<lparr>ranges = map (\<lambda>i. \<lparr>Start = 2 * int i, End = 2 * int i\<rparr>) [0..<64], deletedBelow = -1\<rparr>"

lemma full_history_ok: "history_ok full_history"
  by (auto simp: full_history_def history_ok_def separated_def remembered_def covered_def MaxNumAckRanges_def sorted_wrt_map
      sorted_wrt_iff_nth_less)

theorem evicted_packet_is_new_witness:
  "0 \<in> remembered full_history \<and> fst (history_ReceivedPacket 0 (snd (history_ReceivedPacket 1000 full_history)))"
proof -
  have "hd (ranges full_history) = \<lparr>Start = 0, End = 0\<rparr>" "last (ranges full_history) = \<lparr>Start = 126, End = 126\<rparr>"
    by (simp_all add: full_history_def hd_map last_map)
  then show ?thesis using evicted_packet_is_new [OF full_history_ok, of 0 1000] by (simp add: full_history_def MaxNumAckRanges_def)
qed

end
