(* ===== verification/Quic_Ack.thy ===== *)
theory Quic_Ack
  imports Quic_History "HOL-Library.Sublist"
begin

text \<open>
  ACK frames (\<open>internal/wire/ack_frame.go\<close>, \<open>ack_range.go\<close>): parsing, writing, their length and what they acknowledge.
  A parser is an \<open>eff\<close> whose state is the rest of the packet. Packet numbers read from a varint are below \<open>2 ^ 62\<close>, so
  that the arithmetic on them stays in the range of \<open>int64\<close>.
\<close>

record ack_range =
  Smallest :: packet_number
  Largest :: packet_number

definition ack_range_Len :: "ack_range \<Rightarrow> packet_number" where
  "ack_range_Len r = Largest r - Smallest r + 1"

record ack_frame =
  AckRanges :: "ack_range list"
  DelayTime :: int
  ECT0 :: u64
  ECT1 :: u64
  ECNCE :: u64

definition FrameTypeAck :: u64 where "FrameTypeAck = 2"
definition FrameTypeAckECN :: u64 where "FrameTypeAckECN = 3"

definition AckDelayExponent :: nat where "AckDelayExponent = 3"

definition errInvalidAckRanges :: wire_err where
  "errInvalidAckRanges = WireError ''AckFrame: ACK frame contains invalid ACK ranges''"

text \<open>The conversions \<open>uint64(x)\<close> of a signed number and \<open>PacketNumber(v)\<close> of an unsigned one.\<close>

definition uint64 :: "int \<Rightarrow> u64" where "uint64 x = word_of_int x"

definition int64 :: "u64 \<Rightarrow> int" where "int64 v = sint v"

section \<open>Parsing\<close>

definition replaceUnexpectedEOF :: "wire_err \<Rightarrow> wire_err" where
  "replaceUnexpectedEOF e = (if e = ErrUnexpectedEOF then EOF else e)"

text \<open>One varint of a frame, with the error replaced.\<close>

definition next_varint :: "(wire_err, byte list, u64) eff" where
  "next_varint b =
     (case quicvarint_Parse b of
        Inl e \<Rightarrow> (Inl (replaceUnexpectedEOF e), b)
      | Inr (v, l) \<Rightarrow> (Inr v, drop l b))"

definition range_valid :: "ack_range \<Rightarrow> bool" where
  "range_valid r \<longleftrightarrow> \<not> Smallest r > Largest r"

fun ranges_consistent :: "ack_range list \<Rightarrow> bool" where
  "ranges_consistent (lastAckRange # ackRange # rs) =
     (if Smallest lastAckRange \<le> Smallest ackRange then False
      else if Smallest lastAckRange \<le> Largest ackRange + 1 then False
      else ranges_consistent (ackRange # rs))"
| "ranges_consistent rs = True"

definition validateAckRanges :: "ack_frame \<Rightarrow> bool" where
  "validateAckRanges f =
     (if AckRanges f = [] then False
      else if \<not> list_all range_valid (AckRanges f) then False
      else ranges_consistent (AckRanges f))"

text \<open>The delay is shifted as an \<open>uint64\<close> and multiplied as an \<open>int64\<close>; a negative product is replaced.\<close>

definition decode_delay :: "u64 \<Rightarrow> nat \<Rightarrow> int" where
  "decode_delay delay ackDelayExponent =
     (let delayTime = wrap64 (int64 (push_bit ackDelayExponent delay) * 1000)
      in if delayTime < 0 then max_int64 else delayTime)"

primrec parse_ack_blocks :: "nat \<Rightarrow> packet_number \<Rightarrow> ack_range list \<Rightarrow> (wire_err, byte list, ack_range list) eff" where
  "parse_ack_blocks 0 smallest rs = ret rs"
| "parse_ack_blocks (Suc n) smallest rs =
     bnd next_varint (\<lambda>g.
       let gap = int64 g in
       bnd (require (\<not> smallest < gap + 2) errInvalidAckRanges) (\<lambda>_.
         let largest = smallest - gap - 2 in
         bnd next_varint (\<lambda>ab.
           let ackBlock = int64 ab in
           bnd (require (\<not> ackBlock > largest) errInvalidAckRanges) (\<lambda>_.
             let smallest = largest - ackBlock in
             parse_ack_blocks n smallest (rs @ [\<lparr>Smallest = smallest, Largest = largest\<rparr>])))))"

definition parse_ack :: "ack_frame \<Rightarrow> u64 \<Rightarrow> nat \<Rightarrow> (wire_err, byte list, ack_frame) eff" where
  "parse_ack frame typ ackDelayExponent =
     bnd next_varint (\<lambda>la.
       let largestAcked = int64 la in
       bnd next_varint (\<lambda>delay.
         let frame = frame\<lparr>DelayTime := decode_delay delay ackDelayExponent\<rparr> in
         bnd next_varint (\<lambda>numBlocks.
         bnd next_varint (\<lambda>ab.
           let ackBlock = int64 ab in
           bnd (require (\<not> ackBlock > largestAcked) (WireError ''invalid first ACK range'')) (\<lambda>_.
             let smallest = largestAcked - ackBlock in
             bnd (parse_ack_blocks (unat numBlocks) smallest
                    (AckRanges frame @ [\<lparr>Smallest = smallest, Largest = largestAcked\<rparr>])) (\<lambda>rs.
               let frame = frame\<lparr>AckRanges := rs\<rparr> in
               bnd (require (validateAckRanges frame) errInvalidAckRanges) (\<lambda>_.
                 if typ = FrameTypeAckECN then
                   bnd next_varint (\<lambda>ect0. bnd next_varint (\<lambda>ect1. bnd next_varint (\<lambda>ecnce.
                     ret (frame\<lparr>ECT0 := ect0, ECT1 := ect1, ECNCE := ecnce\<rparr>))))
                 else ret frame)))))))"

text \<open>\<open>parseAckFrame\<close> returns the number of bytes it consumed; the caller drops the frame after an error.\<close>

definition parseAckFrame :: "ack_frame \<Rightarrow> byte list \<Rightarrow> u64 \<Rightarrow> nat \<Rightarrow> wire_err + ack_frame \<times> nat" where
  "parseAckFrame frame b typ ackDelayExponent =
     (case parse_ack frame typ ackDelayExponent b of
        (Inl e, _) \<Rightarrow> Inl e
      | (Inr f, rest) \<Rightarrow> Inr (f, length b - length rest))"

definition ack_Reset :: "ack_frame \<Rightarrow> ack_frame" where
  "ack_Reset f = \<lparr>AckRanges = [], DelayTime = 0, ECT0 = 0, ECT1 = 0, ECNCE = 0\<rparr>"

section \<open>Writing\<close>

text \<open>\<open>None\<close> is a panic: a varint that does not fit, or a frame without ranges.\<close>

fun append_varints :: "u64 list \<Rightarrow> byte list \<Rightarrow> byte list option" where
  "append_varints [] b = Some b"
| "append_varints (v # vs) b = (case quicvarint_Append b v of None \<Rightarrow> None | Some b \<Rightarrow> append_varints vs b)"

definition encodeAckDelay :: "int \<Rightarrow> u64" where
  "encodeAckDelay delay = uint64 (quo delay (1000 * 2 ^ AckDelayExponent))"

definition LargestAcked :: "ack_frame \<Rightarrow> packet_number" where
  "LargestAcked f = Largest (AckRanges f ! 0)"

definition LowestAcked :: "ack_frame \<Rightarrow> packet_number" where
  "LowestAcked f = Smallest (AckRanges f ! (length (AckRanges f) - 1))"

definition HasMissingRanges :: "ack_frame \<Rightarrow> bool" where
  "HasMissingRanges f \<longleftrightarrow> length (AckRanges f) > 1"

definition encodeAckRange :: "ack_frame \<Rightarrow> nat \<Rightarrow> u64 \<times> u64" where
  "encodeAckRange f i =
     (if i = 0 then (0, uint64 (Largest (AckRanges f ! 0) - Smallest (AckRanges f ! 0)))
      else (uint64 (Smallest (AckRanges f ! (i - 1)) - Largest (AckRanges f ! i) - 2),
            uint64 (Largest (AckRanges f ! i) - Smallest (AckRanges f ! i))))"

definition hasECN :: "ack_frame \<Rightarrow> bool" where
  "hasECN f \<longleftrightarrow> ECT0 f > 0 \<or> ECT1 f > 0 \<or> ECNCE f > 0"

definition ack_Append :: "ack_frame \<Rightarrow> byte list \<Rightarrow> byte list option" where
  "ack_Append f b =
     (if AckRanges f = [] then None
      else
        (let numRanges = min (length (AckRanges f)) MaxNumAckRanges in
         append_varints
           ([uint64 (LargestAcked f), encodeAckDelay (DelayTime f), of_nat (numRanges - 1), snd (encodeAckRange f 0)] @
            concat (map (\<lambda>i. [fst (encodeAckRange f i), snd (encodeAckRange f i)]) [1..<numRanges]) @
            (if hasECN f then [ECT0 f, ECT1 f, ECNCE f] else []))
           (b @ [ucast (if hasECN f then FrameTypeAckECN else FrameTypeAck)])))"

section \<open>Lengths\<close>

text \<open>\<open>Len\<close> of several varints; \<open>None\<close> is the panic on one that does not fit.\<close>

fun sum_len :: "u64 list \<Rightarrow> nat option" where
  "sum_len [] = Some 0"
| "sum_len (v # vs) = (case quicvarint_Len v of None \<Rightarrow> None | Some n \<Rightarrow> map_option ((+) n) (sum_len vs))"

definition ack_Length :: "ack_frame \<Rightarrow> nat option" where
  "ack_Length f =
     (if AckRanges f = [] then None
      else
        map_option (\<lambda>n. 1 + 1 + n)
          (sum_len
             ([uint64 (Largest (AckRanges f ! 0)), encodeAckDelay (DelayTime f),
               uint64 (Largest (AckRanges f ! 0) - Smallest (AckRanges f ! 0))] @
              concat (map (\<lambda>i. [fst (encodeAckRange f i), snd (encodeAckRange f i)])
                        [1..<min (length (AckRanges f)) MaxNumAckRanges]) @
              (if hasECN f then [ECT0 f, ECT1 f, ECNCE f] else []))))"

text \<open>The loop of the slow path: the first range that does not fit any more, from index \<open>i\<close> with \<open>k\<close> left.\<close>

fun count_ranges :: "ack_frame \<Rightarrow> int \<Rightarrow> nat \<Rightarrow> nat \<Rightarrow> nat \<Rightarrow> nat option" where
  "count_ranges f maxSize len i 0 = Some i"
| "count_ranges f maxSize len i (Suc k) =
     (case sum_len [fst (encodeAckRange f i), snd (encodeAckRange f i)] of
        None \<Rightarrow> None
      | Some rangeLen \<Rightarrow>
          if int (len + rangeLen) > maxSize then Some i
          else count_ranges f maxSize (len + rangeLen) (i + 1) k)"

definition numEncodableAckRanges :: "ack_frame \<Rightarrow> int \<Rightarrow> nat option" where
  "numEncodableAckRanges f maxSize =
     (let numRanges = min (length (AckRanges f)) MaxNumAckRanges;
          len = 1 + 8 + 8 + 1 + 8 + (if hasECN f then 8 + 8 + 8 else 0) + 2 * 8 * (int numRanges - 1)
      in if len \<le> maxSize then Some numRanges
         else if AckRanges f = [] then None
         else
           (case sum_len ([uint64 (LargestAcked f), encodeAckDelay (DelayTime f), snd (encodeAckRange f 0)] @
                          (if hasECN f then [ECT0 f, ECT1 f, ECNCE f] else [])) of
              None \<Rightarrow> None
            | Some n \<Rightarrow> count_ranges f maxSize (1 + 1 + n) 1 (numRanges - 1)))"

definition Truncate :: "ack_frame \<Rightarrow> int \<Rightarrow> ack_frame option" where
  "Truncate f maxSize = map_option (\<lambda>n. f\<lparr>AckRanges := take n (AckRanges f)\<rparr>) (numEncodableAckRanges f maxSize)"

section \<open>Acknowledged packets\<close>

text \<open>The binary search of \<open>sort.Search\<close>.\<close>

function search :: "(nat \<Rightarrow> bool) \<Rightarrow> nat \<Rightarrow> nat \<Rightarrow> nat" where
  "search f i j =
     (if i < j then (let h = (i + j) div 2 in if \<not> f h then search f (h + 1) j else search f i h) else i)"
  by pat_completeness auto

termination
  by (relation "measure (\<lambda>(f, i, j). j - i)") (auto simp: Let_def)

declare search.simps [simp del]

definition sort_Search :: "nat \<Rightarrow> (nat \<Rightarrow> bool) \<Rightarrow> nat" where
  "sort_Search n f = search f 0 n"

definition AcksPacket :: "ack_frame \<Rightarrow> packet_number \<Rightarrow> bool option" where
  "AcksPacket f p =
     (if AckRanges f = [] then None
      else if p < LowestAcked f \<or> p > LargestAcked f then Some False
      else
        (let i = sort_Search (length (AckRanges f)) (\<lambda>i. p \<ge> Smallest (AckRanges f ! i)) in
         if i < length (AckRanges f) then Some (p \<le> Largest (AckRanges f ! i)) else None))"

section \<open>The bytes of varints\<close>

lemma u64_of_int:
  assumes "0 \<le> x" and "x < 2 ^ 62"
  shows "uint64 x \<le> maxVarInt8" and "int64 (uint64 x) = x"
proof -
  have "uint (word_of_int x :: u64) = x" using assms by (simp add: uint_word_of_int)
  then show "uint64 x \<le> maxVarInt8" using assms by (simp add: word_le_def maxVarInt8_def uint64_def)
  show "int64 (uint64 x) = x"
    using assms by (simp add: signed_of_int signed_take_bit_int_eq_self uint64_def int64_def)
qed

lemma next_varint_bytes:
  assumes "v \<le> maxVarInt8"
  shows "bnd next_varint k (varint_bytes v @ r) = k v r"
  using Parse_bytes [OF assms, of r] by (simp add: next_varint_def eff_simps)

lemma append_varints_bytes:
  assumes "\<forall>v \<in> set vs. v \<le> maxVarInt8"
  shows "append_varints vs b = Some (b @ concat (map varint_bytes vs))"
  using assms by (induction vs arbitrary: b) (simp_all add: Append_bytes)

section \<open>Ranges\<close>

text \<open>Valid ranges below a packet number, in descending order.\<close>

fun ranges_below :: "packet_number \<Rightarrow> ack_range list \<Rightarrow> bool" where
  "ranges_below s [] = True"
| "ranges_below s (r # rs) \<longleftrightarrow> 0 \<le> Smallest r \<and> Smallest r \<le> Largest r \<and> Largest r + 2 \<le> s \<and> ranges_below (Smallest r) rs"

fun block_values :: "packet_number \<Rightarrow> ack_range list \<Rightarrow> u64 list" where
  "block_values s [] = []"
| "block_values s (r # rs) =
     uint64 (s - Largest r - 2) # uint64 (Largest r - Smallest r) # block_values (Smallest r) rs"

lemma consistent_below:
  assumes "ranges_consistent (a # rs)" and "list_all range_valid (a # rs)" and "\<forall>r \<in> set (a # rs). 0 \<le> Smallest r"
  shows "ranges_below (Smallest a) rs"
  using assms by (induction rs arbitrary: a) (auto simp: range_valid_def split: if_splits)

lemma below_consistent:
  assumes "ranges_below (Smallest a) rs"
  shows "ranges_consistent (a # rs)" and "list_all range_valid rs"
  using assms by (induction rs arbitrary: a) (auto simp: range_valid_def)

lemma block_values_fit:
  assumes "ranges_below s rs" and "s < 2 ^ 62"
  shows "\<forall>v \<in> set (block_values s rs). v \<le> maxVarInt8"
  using assms by (induction s rs rule: ranges_below.induct) (auto intro!: u64_of_int)

lemma parse_blocks_bytes:
  assumes "ranges_below s rs" and "s < 2 ^ 62"
  shows "parse_ack_blocks (length rs) s acc (concat (map varint_bytes (block_values s rs)) @ rest) = (Inr (acc @ rs), rest)"
  using assms
proof (induction s rs arbitrary: acc rule: ranges_below.induct)
  case (2 s r rs)
  then have "uint64 (s - Largest r - 2) \<le> maxVarInt8" "int64 (uint64 (s - Largest r - 2)) = s - Largest r - 2"
    "uint64 (Largest r - Smallest r) \<le> maxVarInt8" "int64 (uint64 (Largest r - Smallest r)) = Largest r - Smallest r"
    by (auto intro!: u64_of_int)
  with 2 show ?case by (simp add: next_varint_bytes eff_simps Let_def)
qed (simp add: ret_apply)

lemma encoded_blocks:
  assumes "m \<le> length rs"
  shows "concat (map (\<lambda>i. [uint64 (Smallest ((a # rs) ! i) - Largest (rs ! i) - 2), uint64 (Largest (rs ! i) - Smallest (rs ! i))]) [0..<m])
    = block_values (Smallest a) (take m rs)"
  using assms
proof (induction rs arbitrary: a m)
  case (Cons r rs)
  then show ?case
    by (cases m) (simp_all add: upt_conv_Cons map_Suc_upt [symmetric] comp_def del: upt_Suc)
qed simp

section \<open>Round trip\<close>

definition ack_ok :: "ack_frame \<Rightarrow> bool" where
  "ack_ok f \<longleftrightarrow> validateAckRanges f \<and> (\<forall>r \<in> set (AckRanges f). 0 \<le> Smallest r \<and> Largest r < 2 ^ 62) \<and>
     0 \<le> DelayTime f \<and> DelayTime f \<le> max_int64 \<and> ECT0 f \<le> maxVarInt8 \<and> ECT1 f \<le> maxVarInt8 \<and> ECNCE f \<le> maxVarInt8"

lemma delay_fits:
  assumes "0 \<le> d" and "d \<le> max_int64"
  shows "encodeAckDelay d \<le> maxVarInt8" and "decode_delay (encodeAckDelay d) AckDelayExponent = d div 8000 * 8000"
proof -
  have e: "encodeAckDelay d = uint64 (d div 8000)" using assms by (simp add: encodeAckDelay_def AckDelayExponent_def quo_nonneg)
  have d: "0 \<le> d div 8000" "d div 8000 < 2 ^ 62" "d div 8000 * 8000 \<le> d" using assms by (simp_all add: max_int64_def)
  show "encodeAckDelay d \<le> maxVarInt8" unfolding e using d by (intro u64_of_int)
  define x where "x = d div 8000"
  have x: "0 \<le> x" "x * 8000 \<le> d" using d by (simp_all add: x_def)
  have "push_bit 3 (uint64 x) = uint64 (x * 8)" by (simp add: uint64_def push_bit_eq_mult)
  then have "int64 (push_bit 3 (uint64 x)) = x * 8"
    using u64_of_int(2) [of "x * 8"] x assms by (simp add: max_int64_def)
  moreover have "wrap64 (x * 8 * 1000) = x * 8000"
    using x assms wrap64_id [of "x * 8000"] by (simp add: in_int64_def min_int64_def mult.commute)
  ultimately show "decode_delay (encodeAckDelay d) AckDelayExponent = d div 8000 * 8000"
    using x by (simp add: e decode_delay_def AckDelayExponent_def x_def [symmetric] Let_def)
qed

lemma take_below: "ranges_below s rs \<Longrightarrow> ranges_below s (take n rs)"
  by (induction s rs arbitrary: n rule: ranges_below.induct) (auto simp: take_Cons split: nat.split)

definition ack_values :: "ack_frame \<Rightarrow> u64 list" where
  "ack_values f =
     (case AckRanges f of [] \<Rightarrow> [] | a # rs \<Rightarrow>
       [uint64 (Largest a), encodeAckDelay (DelayTime f), uint64 (int (length (take 63 rs))), uint64 (Largest a - Smallest a)] @
       block_values (Smallest a) (take 63 rs) @ (if hasECN f then [ECT0 f, ECT1 f, ECNCE f] else []))"

lemma ack_Append_values:
  assumes "AckRanges f = a # rs"
  shows "ack_Append f b = append_varints (ack_values f) (b @ [ucast (if hasECN f then FrameTypeAckECN else FrameTypeAck)])"
proof -
  define m where "m = length (take 63 rs)"
  have n: "min (length (AckRanges f)) MaxNumAckRanges = Suc m" by (simp add: assms m_def MaxNumAckRanges_def)
  have "map (\<lambda>i. [fst (encodeAckRange f i), snd (encodeAckRange f i)]) [1..<Suc m] =
      map (\<lambda>i. [uint64 (Smallest ((a # rs) ! i) - Largest (rs ! i) - 2), uint64 (Largest (rs ! i) - Smallest (rs ! i))]) [0..<m]"
    by (simp add: encodeAckRange_def assms map_Suc_upt [symmetric] del: upt_Suc)
  then have blocks: "concat (map (\<lambda>i. [fst (encodeAckRange f i), snd (encodeAckRange f i)]) [1..<Suc m]) = block_values (Smallest a) (take 63 rs)"
    using encoded_blocks [of m rs a] by (simp add: m_def min_def)
  have "snd (encodeAckRange f 0) = uint64 (Largest a - Smallest a)" "LargestAcked f = Largest a" "of_nat (Suc m - 1) = uint64 (int m)"
    by (simp_all add: encodeAckRange_def assms LargestAcked_def uint64_def)
  then show ?thesis
    unfolding ack_Append_def n Let_def blocks ack_values_def by (simp only: assms list.case list.distinct if_False m_def [symmetric])
qed

lemma ack_values_fit:
  assumes "ack_ok f"
  shows "\<forall>v \<in> set (ack_values f). v \<le> maxVarInt8"
proof -
  obtain a rs where f: "AckRanges f = a # rs" using assms by (cases "AckRanges f") (auto simp: ack_ok_def validateAckRanges_def)
  have v: "ranges_consistent (a # rs)" "list_all range_valid (a # rs)" and a: "0 \<le> Smallest a" "Smallest a \<le> Largest a" "Largest a < 2 ^ 62"
    and d: "0 \<le> DelayTime f" "DelayTime f \<le> max_int64"
    using assms f by (auto simp: ack_ok_def validateAckRanges_def range_valid_def split: if_splits)
  have "ranges_below (Smallest a) (take 63 rs)"
    using consistent_below [OF v] assms f take_below by (auto simp: ack_ok_def)
  then have "\<forall>v \<in> set (block_values (Smallest a) (take 63 rs)). v \<le> maxVarInt8" using a by (intro block_values_fit) auto
  then show ?thesis using a assms delay_fits(1) [OF d] u64_of_int(1)
    by (auto simp: ack_values_def f ack_ok_def)
qed

lemma parse_ack_bytes:
  assumes ok: "ack_ok f" and f: "AckRanges f = a # rs" and ty: "typ = (if hasECN f then FrameTypeAckECN else FrameTypeAck)"
  shows "parse_ack (ack_Reset g) typ AckDelayExponent (concat (map varint_bytes (ack_values f)) @ rest) =
    (Inr (f\<lparr>AckRanges := take MaxNumAckRanges (AckRanges f), DelayTime := DelayTime f div 8000 * 8000\<rparr>), rest)"
proof -
  define ss m ecn where "ss = take 63 rs" and "m = length ss" and "ecn = (if hasECN f then [ECT0 f, ECT1 f, ECNCE f] else [])"
  have v: "ranges_consistent (a # rs)" "list_all range_valid (a # rs)" and a: "0 \<le> Smallest a" "Smallest a \<le> Largest a" "Largest a < 2 ^ 62"
    and d: "0 \<le> DelayTime f" "DelayTime f \<le> max_int64" and e: "ECT0 f \<le> maxVarInt8" "ECT1 f \<le> maxVarInt8" "ECNCE f \<le> maxVarInt8"
    using ok f by (auto simp: ack_ok_def validateAckRanges_def range_valid_def split: if_splits)
  have below: "ranges_below (Smallest a) ss"
    using consistent_below [OF v] ok f take_below by (auto simp: ack_ok_def ss_def)
  have m: "m \<le> 63" "unat (uint64 (int m)) = m" by (simp_all add: m_def ss_def uint64_def unat_of_nat)
  note fits = u64_of_int [of "Largest a"] u64_of_int [of "Largest a - Smallest a"] u64_of_int [of "int m"] delay_fits [OF d]
  have bytes: "concat (map varint_bytes (ack_values f)) @ rest =
    varint_bytes (uint64 (Largest a)) @ varint_bytes (encodeAckDelay (DelayTime f)) @ varint_bytes (uint64 (int m)) @
    varint_bytes (uint64 (Largest a - Smallest a)) @ concat (map varint_bytes (block_values (Smallest a) ss)) @
    concat (map varint_bytes ecn) @ rest"
    by (simp add: ack_values_def f ss_def m_def ecn_def)
  have blocks: "bnd (parse_ack_blocks m (Smallest a) acc) k (concat (map varint_bytes (block_values (Smallest a) ss)) @ r) = k (acc @ ss) r"
    for acc k and r :: "byte list"
    unfolding m_def using below a parse_blocks_bytes [of "Smallest a" ss acc r] by (simp add: bnd_apply)
  have valid: "validateAckRanges h" if "AckRanges h = a # ss" for h :: ack_frame
    using below_consistent [OF below] a that by (simp add: validateAckRanges_def range_valid_def)
  have req: "bnd (require True x) k s = k () s" for x :: wire_err and k and s :: "byte list" by (simp add: eff_simps)
  have self: "\<lparr>Smallest = Smallest a, Largest = Largest a\<rparr> = a" by simp
  have take: "take MaxNumAckRanges (AckRanges f) = a # ss" by (simp add: f ss_def MaxNumAckRanges_def)
  show ?thesis
  proof (cases "hasECN f")
    case True
    then show ?thesis unfolding bytes take
      using fits a m e ty
      by (simp add: parse_ack_def next_varint_bytes Let_def req self blocks valid ack_Reset_def ecn_def ret_apply)
  next
    case False
    then have "ECT0 f = 0" "ECT1 f = 0" "ECNCE f = 0" "typ \<noteq> FrameTypeAckECN"
      using ty by (auto simp: hasECN_def word_gt_0 FrameTypeAck_def FrameTypeAckECN_def)
    with False show ?thesis unfolding bytes take
      using fits a m
      by (simp add: parse_ack_def next_varint_bytes Let_def req self blocks valid ack_Reset_def ecn_def ret_apply)
  qed
qed

section \<open>What is parsed is valid\<close>

lemma int64_bounds: "v \<le> maxVarInt8 \<Longrightarrow> 0 \<le> int64 v \<and> int64 v < 2 ^ 62"
proof -
  assume "v \<le> maxVarInt8"
  then have "uint v < 2 ^ 62" by (simp add: word_le_def maxVarInt8_def)
  moreover have "v = uint64 (uint v)" by (simp add: uint64_def)
  ultimately show ?thesis using u64_of_int(2) [of "uint v"] by simp
qed

lemma decode_delay_bounds: "0 \<le> decode_delay v n \<and> decode_delay v n \<le> max_int64"
  using wrap64_in [of "int64 (push_bit n v) * 1000"] by (simp add: decode_delay_def Let_def in_int64_def max_int64_def)

lemma wp_next_varint:
  assumes "\<And>v r. v \<le> maxVarInt8 \<Longrightarrow> suffix r b \<Longrightarrow> Q v r"
  shows "wp next_varint Q (\<lambda>_ _. True) b"
  using assms Parse_bounds [of b] by (auto simp: wp_def next_varint_def suffix_drop split: sum.splits)

definition ranges_in :: "ack_range list \<Rightarrow> bool" where
  "ranges_in rs \<longleftrightarrow> (\<forall>r \<in> set rs. 0 \<le> Smallest r \<and> Largest r < 2 ^ 62)"

lemma wp_blocks:
  assumes "ranges_in rs" and "smallest < 2 ^ 62" and "suffix b c"
  shows "wp (parse_ack_blocks n smallest rs) (\<lambda>rs r. ranges_in rs \<and> suffix r c) (\<lambda>_ _. True) b"
  using assms
proof (induction n arbitrary: smallest rs b)
  case 0
  then show ?case by (simp add: wp_simps)
next
  case (Suc n)
  have step: "wp (parse_ack_blocks n (smallest - int64 g - 2 - int64 ab)
      (rs @ [\<lparr>Smallest = smallest - int64 g - 2 - int64 ab, Largest = smallest - int64 g - 2\<rparr>]))
      (\<lambda>rs r. ranges_in rs \<and> suffix r c) (\<lambda>_ _. True) r'"
    if "g \<le> maxVarInt8" "suffix r b" "ab \<le> maxVarInt8" "suffix r' r" "\<not> int64 ab > smallest - int64 g - 2" for g ab r r'
    using that Suc.prems int64_bounds [of g] int64_bounds [of ab]
    by (intro Suc.IH) (auto simp: ranges_in_def intro: suffix_order.trans)
  show ?case by (auto simp: wp_simps Let_def intro!: wp_next_varint step)
qed

lemma wp_parse_ack:
  assumes "AckRanges g = []" and "ECT0 g = 0" and "ECT1 g = 0" and "ECNCE g = 0"
  shows "wp (parse_ack g typ n) (\<lambda>f r. ack_ok f \<and> suffix r b) (\<lambda>_ _. True) b"
proof -
  define rest where "rest d rs = (let frame = g\<lparr>DelayTime := decode_delay d n, AckRanges := rs\<rparr> in
               bnd (require (validateAckRanges frame) errInvalidAckRanges) (\<lambda>_.
                 if typ = FrameTypeAckECN then
                   bnd next_varint (\<lambda>ect0. bnd next_varint (\<lambda>ect1. bnd next_varint (\<lambda>ecnce.
                     ret (frame\<lparr>ECT0 := ect0, ECT1 := ect1, ECNCE := ecnce\<rparr>))))
                 else ret frame))" for d rs
  have ok: "ack_ok (g\<lparr>DelayTime := decode_delay d n, AckRanges := rs, ECT0 := x, ECT1 := y, ECNCE := z\<rparr>)"
    if "validateAckRanges (g\<lparr>DelayTime := decode_delay d n, AckRanges := rs\<rparr>)" "ranges_in rs" "x \<le> maxVarInt8" "y \<le> maxVarInt8" "z \<le> maxVarInt8" for d rs x y z
    using that decode_delay_bounds [of d n] by (auto simp: ack_ok_def ranges_in_def validateAckRanges_def split: if_splits)
  have ok0: "ack_ok (g\<lparr>DelayTime := decode_delay d n, AckRanges := rs\<rparr>)"
    if "validateAckRanges (g\<lparr>DelayTime := decode_delay d n, AckRanges := rs\<rparr>)" "ranges_in rs" for d rs
    using that assms decode_delay_bounds [of d n] by (auto simp: ack_ok_def ranges_in_def)
  have tail: "wp (rest d rs) (\<lambda>f r. ack_ok f \<and> suffix r b) (\<lambda>_ _. True) r" if "ranges_in rs \<and> suffix r b" for d rs r
    using that unfolding rest_def
    by (auto simp: wp_simps Let_def ok ok0 intro!: wp_next_varint intro: suffix_order.trans)
  have blocks: "wp (bnd (parse_ack_blocks k s rs) (rest d)) (\<lambda>f r. ack_ok f \<and> suffix r b) (\<lambda>_ _. True) r"
    if "ranges_in rs" "s < 2 ^ 62" "suffix r b" for k s rs d r
    unfolding wp_bnd by (rule wp_mono [OF wp_blocks [OF that, of k]]) (rule tail, simp_all)
  have first: "wp (parse_ack_blocks k (int64 v - int64 w) [\<lparr>Smallest = int64 v - int64 w, Largest = int64 v\<rparr>])
      (\<lambda>rs. wp (rest d rs) (\<lambda>f r. ack_ok f \<and> suffix r b) (\<lambda>_ _. True)) (\<lambda>_ _. True) r"
    if "v \<le> maxVarInt8" "suffix r1 b" "suffix r2 r1" "suffix r3 r2" "w \<le> maxVarInt8" "suffix r r3" "\<not> int64 w > int64 v" for k v w d r1 r2 r3 r
  proof -
    have "suffix r b" using that(2,3,4,6) by (meson suffix_order.trans)
    then show ?thesis
      using that int64_bounds [of v] int64_bounds [of w]
      by (intro blocks [unfolded wp_bnd]) (auto simp: ranges_in_def)
  qed
  have "parse_ack g typ n =
     bnd next_varint (\<lambda>la. bnd next_varint (\<lambda>d. bnd next_varint (\<lambda>k. bnd next_varint (\<lambda>ab.
       bnd (require (\<not> int64 ab > int64 la) (WireError ''invalid first ACK range'')) (\<lambda>_.
         bnd (parse_ack_blocks (unat k) (int64 la - int64 ab) [\<lparr>Smallest = int64 la - int64 ab, Largest = int64 la\<rparr>]) (rest d))))))"
    by (simp add: parse_ack_def rest_def [abs_def] Let_def assms)
  then show ?thesis by (simp add: wp_bnd wp_require) (auto intro!: wp_next_varint first)
qed

lemma parsed_ack_ok:
  assumes "parseAckFrame (ack_Reset g) b typ n = Inr (f, l)"
  shows "ack_ok f \<and> l \<le> length b"
proof -
  obtain r where "parse_ack (ack_Reset g) typ n b = (Inr f, r)" "l = length b - length r"
    using assms by (auto simp: parseAckFrame_def split: prod.splits sum.splits)
  then show ?thesis using wp_okD [OF wp_parse_ack [of "ack_Reset g" "typ" n b]] by (auto simp: ack_Reset_def)
qed

section \<open>Acknowledged packets\<close>

lemma search_spec:
  assumes "i \<le> j" and "\<And>x y. i \<le> x \<Longrightarrow> x \<le> y \<Longrightarrow> y < j \<Longrightarrow> f x \<Longrightarrow> f y"
  shows "i \<le> search f i j \<and> search f i j \<le> j \<and> (\<forall>x. i \<le> x \<and> x < search f i j \<longrightarrow> \<not> f x) \<and> (search f i j < j \<longrightarrow> f (search f i j))"
  using assms
proof (induction f i j rule: search.induct)
  case (1 f i j)
  show ?case
  proof (cases "i < j")
    case False
    with "1.prems"(1) have "i = j" by simp
    then show ?thesis by (auto simp: search.simps [of f j j])
  next
    case True
    define h where "h = (i + j) div 2"
    have h: "i \<le> h" "h < j" using True by (auto simp: h_def)
    show ?thesis
    proof (cases "f h")
      case fh: True
      have eq: "search f i j = search f i h" using True fh by (simp add: search.simps [of f i j] h_def [symmetric] Let_def)
      have "f y" if "i \<le> x" "x \<le> y" "y < h" "f x" for x y using "1.prems"(2) [of x y] that h by simp
      from "1.IH"(2) [OF True h_def _ h(1) this] fh have s: "i \<le> search f i h" "search f i h \<le> h" "\<forall>x. i \<le> x \<and> x < search f i h \<longrightarrow> \<not> f x"
        "search f i h < h \<longrightarrow> f (search f i h)" by simp_all
      then have "f (search f i h)" using fh by (cases "search f i h = h") auto
      with s h show ?thesis unfolding eq by simp
    next
      case fh: False
      have eq: "search f i j = search f (h + 1) j" using True fh by (simp add: search.simps [of f i j] h_def [symmetric] Let_def)
      have "f y" if "h + 1 \<le> x" "x \<le> y" "y < j" "f x" for x y using "1.prems"(2) [of x y] that h by simp
      from "1.IH"(1) [OF True h_def fh _ this] h have s: "h + 1 \<le> search f (h + 1) j" "search f (h + 1) j \<le> j"
        "\<forall>x. h + 1 \<le> x \<and> x < search f (h + 1) j \<longrightarrow> \<not> f x" "search f (h + 1) j < j \<longrightarrow> f (search f (h + 1) j)" by simp_all
      have "\<not> f x" if "i \<le> x" "x < search f (h + 1) j" for x
      proof (cases "x \<le> h")
        case True
        then show ?thesis using "1.prems"(2) [of x h] that h fh by blast
      next
        case False
        then show ?thesis using s(3) that by simp
      qed
      with s h show ?thesis unfolding eq by simp
    qed
  qed
qed

lemma consistent_sorted:
  assumes "ranges_consistent rs" and "list_all range_valid rs"
  shows "sorted_wrt (\<lambda>x y. Largest y + 1 < Smallest x) rs"
  using assms
proof (induction rs rule: ranges_consistent.induct)
  case (1 a b rs)
  then have "sorted_wrt (\<lambda>x y. Largest y + 1 < Smallest x) (b # rs)" "Largest b + 1 < Smallest a" "Smallest b \<le> Largest b"
    by (auto simp: range_valid_def split: if_splits)
  then show ?case by auto
qed simp_all

lemma AcksPacket_iff:
  assumes "validateAckRanges f"
  shows "AcksPacket f p = Some (\<exists>r \<in> set (AckRanges f). Smallest r \<le> p \<and> p \<le> Largest r)"
proof -
  define rs where "rs = AckRanges f"
  have rs: "rs \<noteq> []" "list_all range_valid rs" "ranges_consistent rs"
    using assms by (auto simp: validateAckRanges_def rs_def split: if_splits)
  then have ord: "Largest (rs ! y) + 1 < Smallest (rs ! x)" if "x < y" "y < length rs" for x y
    using consistent_sorted that by (auto simp: sorted_wrt_iff_nth_less)
  have le: "Smallest (rs ! x) \<le> Largest (rs ! x)" if "x < length rs" for x
    using rs(2) that by (auto simp: list_all_length range_valid_def)
  have mono: "Smallest (rs ! y) \<le> Smallest (rs ! x) \<and> Largest (rs ! y) \<le> Largest (rs ! x)" if "x \<le> y" "y < length rs" for x y
    using ord [of x y] le [of x] le [of y] that by (cases "x = y") auto
  define k where "k = sort_Search (length rs) (\<lambda>i. p \<ge> Smallest (rs ! i))"
  have k: "k \<le> length rs" "\<And>x. x < k \<Longrightarrow> p < Smallest (rs ! x)" "k < length rs \<Longrightarrow> Smallest (rs ! k) \<le> p"
  proof -
    have "p \<ge> Smallest (rs ! y)" if "x \<le> y" "y < length rs" "p \<ge> Smallest (rs ! x)" for x y using mono [of x y] that by simp
    from search_spec [of 0 "length rs" "\<lambda>i. p \<ge> Smallest (rs ! i)", OF _ this]
    show "k \<le> length rs" "\<And>x. x < k \<Longrightarrow> p < Smallest (rs ! x)" "k < length rs \<Longrightarrow> Smallest (rs ! k) \<le> p"
      by (simp_all add: k_def sort_Search_def not_le)
  qed
  have iff: "(\<exists>r \<in> set rs. Smallest r \<le> p \<and> p \<le> Largest r) \<longleftrightarrow> k < length rs \<and> p \<le> Largest (rs ! k)"
  proof
    assume "\<exists>r \<in> set rs. Smallest r \<le> p \<and> p \<le> Largest r"
    then obtain x where x: "x < length rs" "Smallest (rs ! x) \<le> p" "p \<le> Largest (rs ! x)" by (auto simp: in_set_conv_nth)
    then have "k \<le> x" using k(2) [of x] by force
    with x mono [of k x] show "k < length rs \<and> p \<le> Largest (rs ! k)" by auto
  qed (use k in auto)
  have low: "k < length rs" if "LowestAcked f \<le> p"
  proof (rule ccontr)
    assume "\<not> k < length rs"
    with rs(1) have "length rs - 1 < k" by (cases rs) auto
    from k(2) [OF this] that show False by (simp add: LowestAcked_def rs_def)
  qed
  have out: "\<not> (k < length rs \<and> p \<le> Largest (rs ! k))" if "p < LowestAcked f \<or> p > LargestAcked f"
  proof
    assume a: "k < length rs \<and> p \<le> Largest (rs ! k)"
    then have "k \<le> length rs - 1" "length rs - 1 < length rs" by linarith+
    with that a k(3) mono [of k "length rs - 1"] mono [of 0 k] show False
      by (auto simp: LowestAcked_def LargestAcked_def rs_def [symmetric])
  qed
  show ?thesis using low out rs(1) unfolding AcksPacket_def rs_def [symmetric] iff k_def [symmetric] Let_def by auto
qed

section \<open>Lengths\<close>

abbreviation bytes_of :: "u64 list \<Rightarrow> byte list" where
  "bytes_of vs \<equiv> concat (map varint_bytes vs)"

lemma sum_len_bytes: "\<forall>v \<in> set vs. v \<le> maxVarInt8 \<Longrightarrow> sum_len vs = Some (length (bytes_of vs))"
  by (induction vs) (simp_all add: Len_bytes)

lemma varint_bytes_length: "length (varint_bytes v) \<le> 8"
  by (simp add: varint_bytes_def)

definition fixed_values :: "ack_frame \<Rightarrow> u64 list" where
  "fixed_values f = [uint64 (LargestAcked f), encodeAckDelay (DelayTime f), snd (encodeAckRange f 0)] @
     (if hasECN f then [ECT0 f, ECT1 f, ECNCE f] else [])"

definition range_values :: "ack_frame \<Rightarrow> nat \<Rightarrow> u64 list" where
  "range_values f i = [fst (encodeAckRange f i), snd (encodeAckRange f i)]"

text \<open>The length of the frame with its first \<open>n\<close> ranges.\<close>

definition len_with :: "ack_frame \<Rightarrow> nat \<Rightarrow> nat" where
  "len_with f n = 2 + length (bytes_of (fixed_values f)) + sum_list (map (\<lambda>i. length (bytes_of (range_values f i))) [1..<n])"

lemma len_with_Suc: "1 \<le> n \<Longrightarrow> len_with f (Suc n) = len_with f n + length (bytes_of (range_values f n))"
  by (simp add: len_with_def)

lemma ack_okD:
  assumes "ack_ok f"
  shows "AckRanges f \<noteq> []" and "j < length (AckRanges f) \<Longrightarrow>
    0 \<le> Smallest (AckRanges f ! j) \<and> Smallest (AckRanges f ! j) \<le> Largest (AckRanges f ! j) \<and> Largest (AckRanges f ! j) < 2 ^ 62"
proof -
  have v: "AckRanges f \<noteq> []" "list_all range_valid (AckRanges f)"
    using assms by (auto simp: ack_ok_def validateAckRanges_def split: if_splits)
  then show "AckRanges f \<noteq> []" by simp
  show "0 \<le> Smallest (AckRanges f ! j) \<and> Smallest (AckRanges f ! j) \<le> Largest (AckRanges f ! j) \<and> Largest (AckRanges f ! j) < 2 ^ 62"
    if "j < length (AckRanges f)"
    using assms v(2) nth_mem [OF that] by (auto simp: ack_ok_def list_all_iff range_valid_def not_less)
qed

lemma range_values_fit:
  assumes "ack_ok f" and "i < length (AckRanges f)"
  shows "\<forall>v \<in> set (range_values f i). i \<noteq> 0 \<longrightarrow> v \<le> maxVarInt8" and "snd (encodeAckRange f i) \<le> maxVarInt8"
proof -
  have v: "ranges_consistent (AckRanges f)" "list_all range_valid (AckRanges f)"
    using assms(1) by (auto simp: ack_ok_def validateAckRanges_def split: if_splits)
  note b = ack_okD(2) [OF assms(1)]
  have "Largest (AckRanges f ! i) + 1 < Smallest (AckRanges f ! (i - 1))" if "i \<noteq> 0"
    using consistent_sorted [OF v] that assms(2) by (auto simp: sorted_wrt_iff_nth_less)
  with b [OF assms(2)] b [OF less_imp_diff_less [OF assms(2), of 1]] show "\<forall>v \<in> set (range_values f i). i \<noteq> 0 \<longrightarrow> v \<le> maxVarInt8" "snd (encodeAckRange f i) \<le> maxVarInt8"
    by (auto simp: range_values_def encodeAckRange_def intro!: u64_of_int)
qed

lemma fixed_values_fit:
  assumes "ack_ok f"
  shows "\<forall>v \<in> set (fixed_values f). v \<le> maxVarInt8"
proof -
  have ne: "0 < length (AckRanges f)" using ack_okD(1) [OF assms] by simp
  then have "0 \<le> LargestAcked f" "LargestAcked f < 2 ^ 62"
    using ack_okD(2) [OF assms ne] by (simp_all add: LargestAcked_def)
  then show ?thesis
    using assms range_values_fit(2) [OF assms ne] by (auto simp: fixed_values_def ack_ok_def intro!: u64_of_int delay_fits)
qed

lemma count_ranges_spec:
  assumes "ack_ok f" and "1 \<le> i" and "i + k \<le> length (AckRanges f)"
  shows "\<exists>n. count_ranges f maxSize (len_with f i) i k = Some n \<and> i \<le> n \<and> n \<le> i + k \<and>
    (i < n \<longrightarrow> int (len_with f n) \<le> maxSize) \<and> (n < i + k \<longrightarrow> maxSize < int (len_with f (Suc n)))"
  using assms(2,3)
proof (induction k arbitrary: i)
  case (Suc k)
  have fit: "\<forall>v \<in> set (range_values f i). v \<le> maxVarInt8" using range_values_fit(1) [OF assms(1), of i] Suc.prems by auto
  have s: "sum_len [fst (encodeAckRange f i), snd (encodeAckRange f i)] = Some (length (bytes_of (range_values f i)))"
    using sum_len_bytes [OF fit] by (simp only: range_values_def)
  show ?case
  proof (cases "maxSize < int (len_with f (Suc i))")
    case True
    then show ?thesis using Suc.prems s by (intro exI [of _ i]) (simp add: len_with_Suc)
  next
    case False
    with Suc.IH [of "Suc i"] Suc.prems obtain n where n: "count_ranges f maxSize (len_with f (Suc i)) (Suc i) k = Some n" "Suc i \<le> n" "n \<le> Suc i + k"
      "Suc i < n \<longrightarrow> int (len_with f n) \<le> maxSize" "n < Suc i + k \<longrightarrow> maxSize < int (len_with f (Suc n))" by auto
    have "int (len_with f n) \<le> maxSize" using n(2,4) False by (cases "n = Suc i") auto
    with False n s show ?thesis using Suc.prems by (intro exI [of _ n]) (simp add: len_with_Suc)
  qed
qed simp

lemma bytes_of_ranges:
  "sum_list (map (\<lambda>i. length (bytes_of (range_values f i))) xs) = length (bytes_of (concat (map (range_values f) xs)))"
  by (induction xs) simp_all

lemma one_byte: "m \<le> 63 \<Longrightarrow> length (varint_bytes (of_nat m)) = 1"
  by (simp add: varint_bytes_def maxVarInt1_def word_le_nat_alt unat_of_nat)

lemma ack_Append_bytes:
  assumes "ack_ok f"
  defines "n \<equiv> min (length (AckRanges f)) MaxNumAckRanges"
  shows "\<exists>bs. (\<forall>b. ack_Append f b = Some (b @ bs)) \<and> length bs = len_with f n \<and> ack_Length f = Some (len_with f n)"
proof -
  define vs where "vs = [uint64 (LargestAcked f), encodeAckDelay (DelayTime f), of_nat (n - 1), snd (encodeAckRange f 0)] @
            concat (map (range_values f) [1..<n]) @ (if hasECN f then [ECT0 f, ECT1 f, ECNCE f] else [])"
  have ne: "AckRanges f \<noteq> []" by (rule ack_okD [OF assms(1)])
  have m: "n - 1 \<le> 63" by (simp add: n_def MaxNumAckRanges_def)
  have rv: "range_values f = (\<lambda>i. [fst (encodeAckRange f i), snd (encodeAckRange f i)])" by (simp add: fun_eq_iff range_values_def)
  have r: "v \<le> maxVarInt8" if "i \<in> {1..<n}" "v \<in> set (range_values f i)" for i v
    using range_values_fit(1) [OF assms(1), of i] that by (auto simp: n_def)
  have f: "\<forall>v \<in> set (fixed_values f). v \<le> maxVarInt8" by (rule fixed_values_fit [OF assms(1)])
  have "(of_nat (n - 1) :: u64) \<le> maxVarInt8" using m by (simp add: word_le_nat_alt unat_of_nat maxVarInt8_def)
  with f r have fit: "\<forall>v \<in> set vs. v \<le> maxVarInt8" by (auto simp: vs_def fixed_values_def)
  have a: "ack_Append f b = append_varints vs (b @ [ucast (if hasECN f then FrameTypeAckECN else FrameTypeAck)])" for b
    using ne by (simp only: ack_Append_def Let_def vs_def n_def rv if_False)
  have "length (bytes_of vs) + 1 = len_with f n"
    using one_byte [OF m] by (simp add: vs_def len_with_def fixed_values_def bytes_of_ranges)
  moreover have "ack_Length f = Some (len_with f n)"
  proof -
    define ws where "ws = [uint64 (Largest (AckRanges f ! 0)), encodeAckDelay (DelayTime f),
               uint64 (Largest (AckRanges f ! 0) - Smallest (AckRanges f ! 0))] @
              concat (map (range_values f) [1..<n]) @ (if hasECN f then [ECT0 f, ECT1 f, ECNCE f] else [])"
    have "\<forall>v \<in> set ws. v \<le> maxVarInt8" using f r by (auto simp: ws_def fixed_values_def LargestAcked_def encodeAckRange_def)
    then have "ack_Length f = Some (2 + length (bytes_of ws))"
      using ne sum_len_bytes [of ws] by (simp add: ack_Length_def ws_def n_def rv)
    moreover have "length (bytes_of ws) + 2 = len_with f n"
      by (simp add: ws_def len_with_def fixed_values_def bytes_of_ranges LargestAcked_def encodeAckRange_def)
    ultimately show ?thesis by simp
  qed
  ultimately show ?thesis using a append_varints_bytes [OF fit] by simp
qed

lemma len_with_take:
  assumes "1 \<le> n" and "n \<le> length (AckRanges f)"
  shows "len_with (f\<lparr>AckRanges := take n (AckRanges f)\<rparr>) n = len_with f n"
proof -
  define g where "g = f\<lparr>AckRanges := take n (AckRanges f)\<rparr>"
  have "encodeAckRange g i = encodeAckRange f i" if "i < n" for i using that assms by (simp add: g_def encodeAckRange_def)
  then have "range_values g i = range_values f i" "snd (encodeAckRange g 0) = snd (encodeAckRange f 0)" if "i < n" for i
    using that assms by (simp_all add: range_values_def)
  moreover have "LargestAcked g = LargestAcked f" "hasECN g = hasECN f" using assms by (simp_all add: g_def LargestAcked_def hasECN_def)
  ultimately have "fixed_values g = fixed_values f" "map (\<lambda>i. length (bytes_of (range_values g i))) [1..<n] = map (\<lambda>i. length (bytes_of (range_values f i))) [1..<n]"
    using assms by (auto simp: fixed_values_def g_def)
  then show ?thesis unfolding g_def [symmetric] by (simp only: len_with_def)
qed

lemma len_with_bound:
  assumes "1 \<le> n"
  shows "len_with f n \<le> 26 + (if hasECN f then 24 else 0) + 16 * (n - 1)"
  using assms
proof (induction n rule: dec_induct)
  case base
  have b: "length (varint_bytes v) \<le> 8" for v by (rule varint_bytes_length)
  show ?case
    using b [of "uint64 (LargestAcked f)"] b [of "encodeAckDelay (DelayTime f)"] b [of "snd (encodeAckRange f 0)"]
      b [of "ECT0 f"] b [of "ECT1 f"] b [of "ECNCE f"]
    by (simp add: len_with_def fixed_values_def)
next
  case (step n)
  have "length (bytes_of (range_values f n)) \<le> 16"
    using varint_bytes_length [of "fst (encodeAckRange f n)"] varint_bytes_length [of "snd (encodeAckRange f n)"]
    by (simp add: range_values_def)
  with step show ?case by (simp add: len_with_Suc)
qed

lemma numEncodable_spec:
  assumes "ack_ok f"
  defines "m \<equiv> min (length (AckRanges f)) MaxNumAckRanges"
  shows "\<exists>n. numEncodableAckRanges f maxSize = Some n \<and> 1 \<le> n \<and> n \<le> m \<and>
    (int (len_with f 1) \<le> maxSize \<longrightarrow> int (len_with f n) \<le> maxSize) \<and> (n < m \<longrightarrow> maxSize < int (len_with f (Suc n)))"
proof -
  have ne: "AckRanges f \<noteq> []" by (rule ack_okD [OF assms(1)])
  then have m: "1 \<le> m" by (simp add: m_def MaxNumAckRanges_def Suc_le_eq)
  define fast where "fast = 1 + 8 + 8 + 1 + 8 + (if hasECN f then 8 + 8 + 8 else 0) + 2 * 8 * (int m - 1)"
  show ?thesis
  proof (cases "fast \<le> maxSize")
    case True
    then have "numEncodableAckRanges f maxSize = Some m"
      using ne unfolding numEncodableAckRanges_def m_def [symmetric] Let_def fast_def by simp
    moreover have "int (len_with f m) \<le> maxSize" using True len_with_bound [OF m, of f] m by (auto simp: fast_def split: if_splits)
    ultimately show ?thesis using m by blast
  next
    case False
    have s: "sum_len (fixed_values f) = Some (length (bytes_of (fixed_values f)))"
      by (rule sum_len_bytes [OF fixed_values_fit [OF assms(1)]])
    have "numEncodableAckRanges f maxSize = count_ranges f maxSize (len_with f 1) 1 (m - 1)"
      using False ne unfolding numEncodableAckRanges_def m_def [symmetric] Let_def fast_def fixed_values_def [symmetric] s
      by (simp add: len_with_def)
    moreover have "m \<le> length (AckRanges f)" by (simp add: m_def)
    then have "1 + (m - 1) \<le> length (AckRanges f)" using m by linarith
    ultimately obtain n where "numEncodableAckRanges f maxSize = Some n" "1 \<le> n" "n \<le> m" "1 < n \<longrightarrow> int (len_with f n) \<le> maxSize"
      "n < m \<longrightarrow> maxSize < int (len_with f (Suc n))"
      using count_ranges_spec [OF assms(1), of 1 "m - 1" maxSize] m by auto
    then show ?thesis by (cases "n = 1") auto
  qed
qed

lemma take_consistent: "ranges_consistent rs \<Longrightarrow> ranges_consistent (take n rs)"
proof (induction rs arbitrary: n rule: ranges_consistent.induct)
  case (1 a b rs)
  then show ?case
  proof (cases n)
    case (Suc k)
    from 1 have "ranges_consistent (take k (b # rs))" "\<not> Smallest a \<le> Smallest b" "\<not> Smallest a \<le> Largest b + 1" by (auto split: if_splits)
    with Suc show ?thesis by (cases k) simp_all
  qed simp
qed (simp_all add: take_Cons')

lemma ack_ok_take:
  assumes "ack_ok f" and "1 \<le> n"
  shows "ack_ok (f\<lparr>AckRanges := take n (AckRanges f)\<rparr>)"
proof -
  have "list_all range_valid (take n (AckRanges f))" if "list_all range_valid (AckRanges f)"
    using that by (auto simp: list_all_iff dest: in_set_takeD)
  then show ?thesis
    using assms take_consistent by (auto simp: ack_ok_def validateAckRanges_def dest: in_set_takeD split: if_splits)
qed

lemma take_Append_bytes:
  assumes "ack_ok f" and "1 \<le> n" and "n \<le> min (length (AckRanges f)) MaxNumAckRanges"
  defines "g \<equiv> f\<lparr>AckRanges := take n (AckRanges f)\<rparr>"
  shows "\<exists>bs. (\<forall>b. ack_Append g b = Some (b @ bs)) \<and> length bs = len_with f n" and "ack_Length g = Some (len_with f n)"
proof -
  have "ack_ok g" unfolding g_def by (rule ack_ok_take [OF assms(1,2)])
  moreover have "min (length (AckRanges g)) MaxNumAckRanges = n" "len_with g n = len_with f n"
    using assms(2,3) len_with_take [of n f] by (simp_all add: g_def)
  ultimately show "\<exists>bs. (\<forall>b. ack_Append g b = Some (b @ bs)) \<and> length bs = len_with f n" "ack_Length g = Some (len_with f n)"
    using ack_Append_bytes [of g] by auto
qed

lemma ack_read_back:
  assumes "ack_ok f"
  defines "ty \<equiv> if hasECN f then FrameTypeAckECN else FrameTypeAck"
  shows "\<exists>bs. ack_Append f b = Some (b @ ucast ty # bs) \<and>
    parseAckFrame (ack_Reset g) (bs @ rest) ty AckDelayExponent =
      Inr (f\<lparr>AckRanges := take MaxNumAckRanges (AckRanges f), DelayTime := DelayTime f div 8000 * 8000\<rparr>, length bs)"
proof -
  obtain a rs where f: "AckRanges f = a # rs" using ack_okD(1) [OF assms(1)] by (cases "AckRanges f") auto
  have "ack_Append f b = Some (b @ ucast ty # bytes_of (ack_values f))"
    using ack_Append_values [OF f, of b] append_varints_bytes [OF ack_values_fit [OF assms(1)]] by (simp add: ty_def)
  then show ?thesis
    using parse_ack_bytes [OF assms(1) f, of ty g rest] by (auto simp: parseAckFrame_def ty_def)
qed

section \<open>Properties\<close>

text \<open>
  C26. An ACK frame that is written is read back, by a peer that uses the same ACK delay exponent and whatever follows
  the frame in the packet: all ranges up to the limit of 64, the ECN counts, and the delay rounded down to 8
  microseconds; exactly the bytes of the frame are consumed.
\<close>

theorem ack_round_trip:
  assumes "ack_ok f"
  defines "ty \<equiv> if hasECN f then FrameTypeAckECN else FrameTypeAck"
  shows "\<exists>bs. ack_Append f b = Some (b @ ucast ty # bs) \<and>
    parseAckFrame (ack_Reset g) (bs @ rest) ty AckDelayExponent =
      Inr (f\<lparr>AckRanges := take MaxNumAckRanges (AckRanges f), DelayTime := DelayTime f div 8000 * 8000\<rparr>, length bs)"
  unfolding ty_def by (rule ack_read_back [OF assms(1)])

definition example_ack :: ack_frame where
  "example_ack = \<lparr>AckRanges = [\<lparr>Smallest = 10, Largest = 1000\<rparr>, \<lparr>Smallest = 3, Largest = 7\<rparr>], DelayTime = 25000, ECT0 = 0, ECT1 = 0, ECNCE = 0\<rparr>"

lemma example_ack_ok: "ack_ok example_ack"
  by (simp add: example_ack_def ack_ok_def validateAckRanges_def range_valid_def max_int64_def maxVarInt8_def)

theorem ack_round_trip_witness:
  "\<exists>bs. ack_Append example_ack [] = Some (2 # bs) \<and>
     parseAckFrame (ack_Reset example_ack) bs FrameTypeAck AckDelayExponent = Inr (example_ack\<lparr>DelayTime := 24000\<rparr>, length bs)"
  using ack_round_trip [OF example_ack_ok, of "[]" example_ack "[]"]
  by (simp add: example_ack_def hasECN_def FrameTypeAck_def MaxNumAckRanges_def)

text \<open>
  C27. Every ACK frame that the parser accepts is well-formed: it has at least one range, every range is a non-empty
  interval of packet numbers below \<open>2 ^ 62\<close>, the ranges descend with a gap between any two, the delay is a duration, and
  no more bytes are consumed than there are.
\<close>

theorem parsed_ack_valid:
  assumes "parseAckFrame (ack_Reset g) b typ n = Inr (f, l)"
  shows "ack_ok f \<and> l \<le> length b \<and> sorted_wrt (\<lambda>x y. Largest y + 1 < Smallest x) (AckRanges f)"
proof -
  have ok: "ack_ok f" "l \<le> length b" using parsed_ack_ok [OF assms] by simp_all
  then have "ranges_consistent (AckRanges f)" "list_all range_valid (AckRanges f)"
    by (auto simp: ack_ok_def validateAckRanges_def split: if_splits)
  with ok consistent_sorted show ?thesis by blast
qed

theorem parsed_ack_valid_witness:
  "ack_ok \<lparr>AckRanges = [\<lparr>Smallest = 3, Largest = 5\<rparr>], DelayTime = 8000, ECT0 = 0, ECT1 = 0, ECNCE = 0\<rparr>"
proof -
  have "parseAckFrame (ack_Reset example_ack) [5, 1, 0, 2] FrameTypeAck 3 =
      Inr (\<lparr>AckRanges = [\<lparr>Smallest = 3, Largest = 5\<rparr>], DelayTime = 8000, ECT0 = 0, ECT1 = 0, ECNCE = 0\<rparr>, 4)"
    by code_simp
  from parsed_ack_valid [OF this] show ?thesis by simp
qed

text \<open>
  On a frame with valid ranges the binary search of \<open>AcksPacket\<close> does not read out of range, and it finds a packet
  number exactly if one of the ranges contains it.
\<close>

theorem AcksPacket_exact:
  assumes "validateAckRanges f"
  shows "AcksPacket f p = Some (\<exists>r \<in> set (AckRanges f). Smallest r \<le> p \<and> p \<le> Largest r)"
  by (rule AcksPacket_iff [OF assms])

theorem AcksPacket_exact_witness: "AcksPacket example_ack 8 = Some False \<and> AcksPacket example_ack 5 = Some True"
proof -
  have "validateAckRanges example_ack" using example_ack_ok by (simp add: ack_ok_def)
  from AcksPacket_exact [OF this] show ?thesis by (simp add: example_ack_def)
qed

text \<open>
  \<open>Truncate\<close> keeps the frame valid and keeps its highest ranges. The frame that is left is as long as \<open>Length\<close> says,
  fits into the size it was truncated to, and holds as many ranges as possible: unless all of the first 64 are kept, the
  frame with one more range is too long.
\<close>

theorem Truncate_fits:
  assumes "ack_ok f" and "ack_Length (f\<lparr>AckRanges := take 1 (AckRanges f)\<rparr>) = Some l" and "int l \<le> maxSize"
  shows "\<exists>n bs. let g = f\<lparr>AckRanges := take n (AckRanges f)\<rparr> in
    Truncate f maxSize = Some g \<and> ack_ok g \<and> ack_Append g b = Some (b @ bs) \<and> ack_Length g = Some (length bs) \<and> int (length bs) \<le> maxSize \<and>
    1 \<le> n \<and> n \<le> min (length (AckRanges f)) MaxNumAckRanges \<and>
    (n < min (length (AckRanges f)) MaxNumAckRanges \<longrightarrow>
       (\<exists>l'. ack_Length (f\<lparr>AckRanges := take (Suc n) (AckRanges f)\<rparr>) = Some l' \<and> maxSize < int l'))"
proof -
  have one: "1 \<le> min (length (AckRanges f)) MaxNumAckRanges"
    using ack_okD(1) [OF assms(1)] by (simp add: MaxNumAckRanges_def Suc_le_eq)
  have "int (len_with f 1) \<le> maxSize" using take_Append_bytes(2) [OF assms(1) _ one] assms(2,3) by simp
  then obtain n where n: "numEncodableAckRanges f maxSize = Some n" "1 \<le> n" "n \<le> min (length (AckRanges f)) MaxNumAckRanges"
    "int (len_with f n) \<le> maxSize" "n < min (length (AckRanges f)) MaxNumAckRanges \<longrightarrow> maxSize < int (len_with f (Suc n))"
    using numEncodable_spec [OF assms(1), of maxSize] by auto
  obtain bs where "\<forall>b. ack_Append (f\<lparr>AckRanges := take n (AckRanges f)\<rparr>) b = Some (b @ bs)" "length bs = len_with f n"
    using take_Append_bytes(1) [OF assms(1) n(2,3)] by blast
  then show ?thesis
    using n take_Append_bytes(2) [OF assms(1) n(2,3)] take_Append_bytes(2) [OF assms(1), of "Suc n"] ack_ok_take [OF assms(1) n(2)]
    by (intro exI [of _ n] exI [of _ bs]) (auto simp: Truncate_def)
qed

theorem Truncate_fits_witness:
  "Truncate example_ack 8 = Some (example_ack\<lparr>AckRanges := [\<lparr>Smallest = 10, Largest = 1000\<rparr>]\<rparr>) \<and>
   ack_Length (example_ack\<lparr>AckRanges := take 1 (AckRanges example_ack)\<rparr>) = Some 7"
proof -
  have l: "ack_Length (example_ack\<lparr>AckRanges := take 1 (AckRanges example_ack)\<rparr>) = Some 7"
    "ack_Length (example_ack\<lparr>AckRanges := take 2 (AckRanges example_ack)\<rparr>) = Some 9" by code_simp+
  have len: "length (AckRanges example_ack) = 2" by (simp add: example_ack_def)
  obtain n where n: "Truncate example_ack 8 = Some (example_ack\<lparr>AckRanges := take n (AckRanges example_ack)\<rparr>)"
    "\<exists>k \<le> 8. ack_Length (example_ack\<lparr>AckRanges := take n (AckRanges example_ack)\<rparr>) = Some k" "1 \<le> n" "n \<le> 2"
    using Truncate_fits [OF example_ack_ok l(1), of 8 "[]"] len by (auto simp: Let_def)
  then have "n = 1" using l(2) by (cases "n = 2") auto
  with n(1) l(1) show ?thesis by (simp add: example_ack_def)
qed

text \<open>
  The delay of an ACK frame is decoded exactly as long as it is a duration that fits 64 bits. Beyond that the code
  does not always return the largest duration: a product that wraps around to a non-negative number is taken as it is,
  so that a delay of \<open>2 ^ 61\<close> units of 8 microseconds, which a varint can carry, is decoded as 0.
\<close>

theorem ack_delay_decoded:
  assumes "uint v * 2 ^ n * 1000 \<le> max_int64"
  shows "decode_delay v n = uint v * 2 ^ n * 1000 \<and> 2 ^ 61 \<le> maxVarInt8 \<and> decode_delay (2 ^ 61) AckDelayExponent = 0"
proof -
  define x where "x = uint v * 2 ^ n"
  have x: "0 \<le> x" "x * 1000 \<le> max_int64" using assms by (simp_all add: x_def)
  have "push_bit n v = uint64 x" by (simp add: x_def uint64_def push_bit_eq_mult)
  moreover have "int64 (uint64 x) = x" using x by (intro u64_of_int) (simp_all add: max_int64_def)
  moreover have "wrap64 (x * 1000) = x * 1000" using x by (intro wrap64_id) (simp add: in_int64_def min_int64_def)
  ultimately have "decode_delay v n = x * 1000" using x by (simp add: decode_delay_def Let_def)
  moreover have "decode_delay (2 ^ 61) AckDelayExponent = 0" by code_simp
  moreover have "(2 ^ 61 :: u64) \<le> maxVarInt8" by (simp add: maxVarInt8_def)
  ultimately show ?thesis by (simp add: x_def)
qed

theorem ack_delay_decoded_witness: "decode_delay 5 3 = 40000"
  using ack_delay_decoded [of 5 3] by (simp add: max_int64_def)

end
