(* ===== verification/Quic_Tracker.thy ===== *)
theory Quic_Tracker
  imports Quic_Ack
begin

text \<open>
  The trackers of received packets (\<open>internal/ackhandler/received_packet_tracker.go\<close>, \<open>received_packet_handler.go\<close>): which
  packets are acknowledged, and when. An \<open>ack_frame\<close> that is handed out is the object the tracker keeps as its last
  acknowledgement, so that truncating it changes the tracker. Times are nanoseconds since a fixed start.
\<close>

section \<open>Monotonic time\<close>

type_synonym mono_time = int

definition mono_Sub :: "mono_time \<Rightarrow> mono_time \<Rightarrow> int" where "mono_Sub t t2 = wrap64 (t - t2)"

definition mono_Add :: "mono_time \<Rightarrow> int \<Rightarrow> mono_time" where "mono_Add t d = wrap64 (t + d)"

definition mono_After :: "mono_time \<Rightarrow> mono_time \<Rightarrow> bool" where "mono_After t t2 \<longleftrightarrow> t > t2"

definition mono_Before :: "mono_time \<Rightarrow> mono_time \<Rightarrow> bool" where "mono_Before t t2 \<longleftrightarrow> t < t2"

definition mono_IsZero :: "mono_time \<Rightarrow> bool" where "mono_IsZero t \<longleftrightarrow> t = 0"

definition MaxAckDelay :: int where "MaxAckDelay = 25 * 1000000"

section \<open>One packet number space\<close>

datatype ecn = ECNUnsupported | ECNNon | ECN_ECT1 | ECN_ECT0 | ECN_CE

datatype ack_err = Bug string | Late0RTT packet_number packet_number | Panic string

record receivedPacketTracker =
  ect0 :: u64
  ect1 :: u64
  ecnce :: u64
  packetHistory :: receivedPacketHistory
  lastAck :: "ack_frame option"
  hasNewAck :: bool

definition newReceivedPacketTracker :: receivedPacketTracker where
  "newReceivedPacketTracker =
     \<lparr>ect0 = 0, ect1 = 0, ecnce = 0, packetHistory = newReceivedPacketHistory, lastAck = None, hasNewAck = False\<rparr>"

definition count_ecn :: "ecn \<Rightarrow> receivedPacketTracker \<Rightarrow> receivedPacketTracker" where
  "count_ecn e h =
     (case e of
        ECN_ECT0 \<Rightarrow> h\<lparr>ect0 := ect0 h + 1\<rparr>
      | ECN_ECT1 \<Rightarrow> h\<lparr>ect1 := ect1 h + 1\<rparr>
      | ECN_CE \<Rightarrow> h\<lparr>ecnce := ecnce h + 1\<rparr>
      | _ \<Rightarrow> h)"

definition tracker_ReceivedPacket :: "packet_number \<Rightarrow> ecn \<Rightarrow> bool \<Rightarrow> (ack_err, receivedPacketTracker, unit) eff" where
  "tracker_ReceivedPacket pn ecn ackEliciting h =
     (case history_ReceivedPacket pn (packetHistory h) of (isNew, hist) \<Rightarrow>
        let h = h\<lparr>packetHistory := hist\<rparr> in
        if \<not> isNew then (Inl (Bug ''ReceivedPacket called for old / duplicate packet''), h)
        else
          (let h = count_ecn ecn h
           in if \<not> ackEliciting then (Inr (), h) else (Inr (), h\<lparr>hasNewAck := True\<rparr>)))"

definition tracker_GetAckFrame :: "receivedPacketTracker \<Rightarrow> ack_frame option \<times> receivedPacketTracker" where
  "tracker_GetAckFrame h =
     (if \<not> hasNewAck h then (None, h)
      else
        (let ack = (case lastAck h of None \<Rightarrow> \<lparr>AckRanges = [], DelayTime = 0, ECT0 = 0, ECT1 = 0, ECNCE = 0\<rparr> | Some a \<Rightarrow> a);
             ack = ack_Reset ack;
             ack = ack\<lparr>ECT0 := ect0 h, ECT1 := ect1 h, ECNCE := ecnce h\<rparr>;
             ack = ack\<lparr>AckRanges := AckRanges ack @ map (\<lambda>r. \<lparr>Smallest = Start r, Largest = End r\<rparr>) (Backward (packetHistory h))\<rparr>
         in (Some ack, h\<lparr>lastAck := Some ack, hasNewAck := False\<rparr>)))"

definition tracker_IsPotentiallyDuplicate :: "packet_number \<Rightarrow> receivedPacketTracker \<Rightarrow> bool" where
  "tracker_IsPotentiallyDuplicate pn h = history_IsPotentiallyDuplicate pn (packetHistory h)"

section \<open>Application data\<close>

definition reorderingThreshold :: int where "reorderingThreshold = 1"

definition packetsBeforeAck :: int where "packetsBeforeAck = 2"

record appDataReceivedPacketTracker =
  tracker :: receivedPacketTracker
  largestObservedRcvdTime :: mono_time
  largestObserved :: packet_number
  ignoreBelow :: packet_number
  maxAckDelay :: int
  ackQueued :: bool
  ackElicitingPacketsReceivedSinceLastAck :: int
  ackAlarm :: mono_time

definition newAppDataReceivedPacketTracker :: appDataReceivedPacketTracker where
  "newAppDataReceivedPacketTracker =
     \<lparr>tracker = newReceivedPacketTracker, largestObservedRcvdTime = 0, largestObserved = 0, ignoreBelow = 0,
      maxAckDelay = MaxAckDelay, ackQueued = False, ackElicitingPacketsReceivedSinceLastAck = 0, ackAlarm = 0\<rparr>"

text \<open>\<open>None\<close> is the panic on a last acknowledgement without ranges.\<close>

definition isMissing :: "packet_number \<Rightarrow> appDataReceivedPacketTracker \<Rightarrow> bool option" where
  "isMissing p h =
     (case lastAck (tracker h) of
        None \<Rightarrow> Some False
      | Some ack \<Rightarrow>
          if p < ignoreBelow h then Some False
          else if AckRanges ack = [] then None
          else if p < LargestAcked ack then map_option Not (AcksPacket ack p) else Some False)"

definition hasNewMissingPackets :: "appDataReceivedPacketTracker \<Rightarrow> bool option" where
  "hasNewMissingPackets h =
     (case lastAck (tracker h) of
        None \<Rightarrow> Some False
      | Some ack \<Rightarrow>
          if largestObserved h < reorderingThreshold then Some False
          else
            (let highestMissing = HighestMissingUpTo (largestObserved h - reorderingThreshold) (packetHistory (tracker h))
             in if highestMissing = InvalidPacketNumber then Some False
                else if AckRanges ack = [] then None
                else if highestMissing < LargestAcked ack then Some False
                else Some (highestMissing > LargestAcked ack - reorderingThreshold)))"

definition shouldQueueACK :: "ecn \<Rightarrow> bool \<Rightarrow> appDataReceivedPacketTracker \<Rightarrow> bool option" where
  "shouldQueueACK ecn wasMissing h =
     (if wasMissing then Some True
      else if ackElicitingPacketsReceivedSinceLastAck h \<ge> packetsBeforeAck then Some True
      else map_option (\<lambda>new. new \<or> ecn = ECN_CE) (hasNewMissingPackets h))"

text \<open>The end of \<open>ReceivedPacket\<close>: whether an acknowledgement is sent at once or when the timer fires.\<close>

definition queue_ack :: "packet_number \<Rightarrow> ecn \<Rightarrow> mono_time \<Rightarrow> (ack_err, appDataReceivedPacketTracker, unit) eff" where
  "queue_ack pn ecn rcvTime h =
     (case isMissing pn h of
        None \<Rightarrow> (Inl (Panic ''index out of range''), h)
      | Some missing \<Rightarrow>
          (case (if \<not> ackQueued h then shouldQueueACK ecn missing h else Some False) of
             None \<Rightarrow> (Inl (Panic ''index out of range''), h)
           | Some should \<Rightarrow>
               let h = (if should then h\<lparr>ackQueued := True, ackAlarm := 0\<rparr> else h);
                   h = (if \<not> ackQueued h then h\<lparr>ackAlarm := mono_Add rcvTime (maxAckDelay h)\<rparr> else h)
               in (Inr (), h)))"

definition app_ReceivedPacket ::
    "packet_number \<Rightarrow> ecn \<Rightarrow> mono_time \<Rightarrow> bool \<Rightarrow> (ack_err, appDataReceivedPacketTracker, unit) eff" where
  "app_ReceivedPacket pn ecn rcvTime ackEliciting h =
     (case tracker_ReceivedPacket pn ecn ackEliciting (tracker h) of
        (Inl e, t) \<Rightarrow> (Inl e, h\<lparr>tracker := t\<rparr>)
      | (Inr _, t) \<Rightarrow>
          let h = h\<lparr>tracker := t\<rparr>;
              h = (if pn \<ge> largestObserved h then h\<lparr>largestObserved := pn, largestObservedRcvdTime := rcvTime\<rparr> else h)
          in if \<not> ackEliciting then (Inr (), h)
             else
               queue_ack pn ecn rcvTime
                 (h\<lparr>ackElicitingPacketsReceivedSinceLastAck := ackElicitingPacketsReceivedSinceLastAck h + 1\<rparr>))"

definition IgnoreBelow :: "packet_number \<Rightarrow> appDataReceivedPacketTracker \<Rightarrow> appDataReceivedPacketTracker" where
  "IgnoreBelow pn h =
     (if pn \<le> ignoreBelow h then h
      else h\<lparr>ignoreBelow := pn, tracker := (tracker h)\<lparr>packetHistory := DeleteBelow pn (packetHistory (tracker h))\<rparr>\<rparr>)"

definition app_GetAckFrame :: "mono_time \<Rightarrow> bool \<Rightarrow> appDataReceivedPacketTracker \<Rightarrow> ack_frame option \<times> appDataReceivedPacketTracker" where
  "app_GetAckFrame now onlyIfQueued h =
     (if onlyIfQueued \<and> \<not> ackQueued h \<and> (mono_IsZero (ackAlarm h) \<or> mono_After (ackAlarm h) now) then (None, h)
      else
        (case tracker_GetAckFrame (tracker h) of
           (None, t) \<Rightarrow> (None, h\<lparr>tracker := t\<rparr>)
         | (Some ack, t) \<Rightarrow>
             let ack = ack\<lparr>DelayTime := max 0 (mono_Sub now (largestObservedRcvdTime h))\<rparr>
             in (Some ack, h\<lparr>tracker := t\<lparr>lastAck := Some ack\<rparr>, ackQueued := False, ackAlarm := 0,
                             ackElicitingPacketsReceivedSinceLastAck := 0\<rparr>)))"

definition app_GetAlarmTimeout :: "appDataReceivedPacketTracker \<Rightarrow> mono_time" where
  "app_GetAlarmTimeout h = ackAlarm h"

section \<open>All packet number spaces\<close>

text \<open>\<open>EncryptionUnknown\<close> stands for every value that is not one of the four levels.\<close>

datatype encryption_level = EncryptionUnknown | EncryptionInitial | EncryptionHandshake | Encryption0RTT | Encryption1RTT

record ReceivedPacketHandler =
  initialPackets :: "receivedPacketTracker option"
  handshakePackets :: "receivedPacketTracker option"
  appDataPackets :: appDataReceivedPacketTracker
  lowest1RTTPacket :: packet_number

definition NewReceivedPacketHandler :: ReceivedPacketHandler where
  "NewReceivedPacketHandler =
     \<lparr>initialPackets = Some newReceivedPacketTracker, handshakePackets = Some newReceivedPacketTracker,
      appDataPackets = newAppDataReceivedPacketTracker, lowest1RTTPacket = InvalidPacketNumber\<rparr>"

definition app_packet :: "packet_number \<Rightarrow> ecn \<Rightarrow> mono_time \<Rightarrow> bool \<Rightarrow> (ack_err, ReceivedPacketHandler, unit) eff" where
  "app_packet pn ecn rcvTime ackEliciting h =
     (case app_ReceivedPacket pn ecn rcvTime ackEliciting (appDataPackets h) of (r, a) \<Rightarrow> (r, h\<lparr>appDataPackets := a\<rparr>))"

definition handler_ReceivedPacket ::
    "packet_number \<Rightarrow> ecn \<Rightarrow> encryption_level \<Rightarrow> mono_time \<Rightarrow> bool \<Rightarrow> (ack_err, ReceivedPacketHandler, unit) eff" where
  "handler_ReceivedPacket pn ecn encLevel rcvTime ackEliciting h =
     (case encLevel of
        EncryptionInitial \<Rightarrow>
          (case initialPackets h of
             None \<Rightarrow> (Inl (Panic ''nil pointer dereference''), h)
           | Some t \<Rightarrow> (case tracker_ReceivedPacket pn ecn ackEliciting t of (r, t) \<Rightarrow> (r, h\<lparr>initialPackets := Some t\<rparr>)))
      | EncryptionHandshake \<Rightarrow>
          (case handshakePackets h of
             None \<Rightarrow> (Inr (), h)
           | Some t \<Rightarrow> (case tracker_ReceivedPacket pn ecn ackEliciting t of (r, t) \<Rightarrow> (r, h\<lparr>handshakePackets := Some t\<rparr>)))
      | Encryption0RTT \<Rightarrow>
          if lowest1RTTPacket h \<noteq> InvalidPacketNumber \<and> pn > lowest1RTTPacket h then
            (Inl (Late0RTT pn (lowest1RTTPacket h)), h)
          else app_packet pn ecn rcvTime ackEliciting h
      | Encryption1RTT \<Rightarrow>
          app_packet pn ecn rcvTime ackEliciting
            (if lowest1RTTPacket h = InvalidPacketNumber \<or> pn < lowest1RTTPacket h then h\<lparr>lowest1RTTPacket := pn\<rparr> else h)
      | EncryptionUnknown \<Rightarrow> (Inl (Panic ''received packet with unknown encryption level''), h))"

definition IgnorePacketsBelow :: "packet_number \<Rightarrow> ReceivedPacketHandler \<Rightarrow> ReceivedPacketHandler" where
  "IgnorePacketsBelow pn h = h\<lparr>appDataPackets := IgnoreBelow pn (appDataPackets h)\<rparr>"

definition DropPackets :: "encryption_level \<Rightarrow> (ack_err, ReceivedPacketHandler, unit) eff" where
  "DropPackets encLevel h =
     (case encLevel of
        EncryptionInitial \<Rightarrow> (Inr (), h\<lparr>initialPackets := None\<rparr>)
      | EncryptionHandshake \<Rightarrow> (Inr (), h\<lparr>handshakePackets := None\<rparr>)
      | Encryption0RTT \<Rightarrow> (Inr (), h)
      | _ \<Rightarrow> (Inl (Panic ''Cannot drop keys for encryption level''), h))"

definition handler_GetAlarmTimeout :: "ReceivedPacketHandler \<Rightarrow> mono_time" where
  "handler_GetAlarmTimeout h = app_GetAlarmTimeout (appDataPackets h)"

definition handler_GetAckFrame ::
    "encryption_level \<Rightarrow> mono_time \<Rightarrow> bool \<Rightarrow> ReceivedPacketHandler \<Rightarrow> ack_frame option \<times> ReceivedPacketHandler" where
  "handler_GetAckFrame encLevel now onlyIfQueued h =
     (case encLevel of
        EncryptionInitial \<Rightarrow>
          (case initialPackets h of
             None \<Rightarrow> (None, h)
           | Some t \<Rightarrow> (case tracker_GetAckFrame t of (a, t) \<Rightarrow> (a, h\<lparr>initialPackets := Some t\<rparr>)))
      | EncryptionHandshake \<Rightarrow>
          (case handshakePackets h of
             None \<Rightarrow> (None, h)
           | Some t \<Rightarrow> (case tracker_GetAckFrame t of (a, t) \<Rightarrow> (a, h\<lparr>handshakePackets := Some t\<rparr>)))
      | Encryption1RTT \<Rightarrow>
          (case app_GetAckFrame now onlyIfQueued (appDataPackets h) of (a, t) \<Rightarrow> (a, h\<lparr>appDataPackets := t\<rparr>))
      | _ \<Rightarrow> (None, h))"

definition handler_IsPotentiallyDuplicate :: "packet_number \<Rightarrow> encryption_level \<Rightarrow> ReceivedPacketHandler \<Rightarrow> ack_err + bool" where
  "handler_IsPotentiallyDuplicate pn encLevel h =
     (let unexpected = Inl (Panic ''unexpected encryption level'') in
      case encLevel of
        EncryptionInitial \<Rightarrow> (case initialPackets h of None \<Rightarrow> unexpected | Some t \<Rightarrow> Inr (tracker_IsPotentiallyDuplicate pn t))
      | EncryptionHandshake \<Rightarrow> (case handshakePackets h of None \<Rightarrow> unexpected | Some t \<Rightarrow> Inr (tracker_IsPotentiallyDuplicate pn t))
      | EncryptionUnknown \<Rightarrow> unexpected
      | _ \<Rightarrow> Inr (tracker_IsPotentiallyDuplicate pn (tracker (appDataPackets h))))"

section \<open>Sending an acknowledgement\<close>

text \<open>The packet packer truncates the frame it gets, which is the object the tracker keeps, and asks for its length.\<close>

definition set_lastAck :: "encryption_level \<Rightarrow> ack_frame \<Rightarrow> ReceivedPacketHandler \<Rightarrow> ReceivedPacketHandler" where
  "set_lastAck encLevel ack h =
     (case encLevel of
        EncryptionInitial \<Rightarrow> h\<lparr>initialPackets := map_option (lastAck_update (\<lambda>_. Some ack)) (initialPackets h)\<rparr>
      | EncryptionHandshake \<Rightarrow> h\<lparr>handshakePackets := map_option (lastAck_update (\<lambda>_. Some ack)) (handshakePackets h)\<rparr>
      | _ \<Rightarrow> h\<lparr>appDataPackets := (appDataPackets h)\<lparr>tracker := (tracker (appDataPackets h))\<lparr>lastAck := Some ack\<rparr>\<rparr>\<rparr>)"

definition pack_ack ::
    "encryption_level \<Rightarrow> mono_time \<Rightarrow> bool \<Rightarrow> int \<Rightarrow> (ack_err, ReceivedPacketHandler, (ack_frame \<times> nat) option) eff" where
  "pack_ack encLevel now onlyIfQueued maxSize h =
     (case handler_GetAckFrame encLevel now onlyIfQueued h of
        (None, h) \<Rightarrow> (Inr None, h)
      | (Some ack, h) \<Rightarrow>
          (case Truncate ack maxSize of
             None \<Rightarrow> (Inl (Panic ''invalid ACK frame''), h)
           | Some ack \<Rightarrow>
               (case ack_Length ack of
                  None \<Rightarrow> (Inl (Panic ''invalid ACK frame''), set_lastAck encLevel ack h)
                | Some l \<Rightarrow> (Inr (Some (ack, l)), set_lastAck encLevel ack h))))"

section \<open>Runs of a connection\<close>

text \<open>
  A connection handles the frames of a packet, among them acknowledgements of its own ACK frames that raise the limit of
  what it acknowledges, before it records the packet, and stops at the first error. The log keeps the packets accepted so
  far, and the times at which ack-eliciting application packets arrived that were not followed by an acknowledgement.
\<close>

datatype ack_event =
  Packet packet_number ecn encryption_level mono_time bool "packet_number list"
| SendAck encryption_level mono_time bool int
| Drop encryption_level

record ack_log =
  handler :: ReceivedPacketHandler
  accepted :: "(encryption_level \<times> packet_number) list"
  waiting :: "mono_time list"

fun space :: "encryption_level \<Rightarrow> encryption_level" where
  "space Encryption0RTT = Encryption1RTT"
| "space l = l"

fun ack_step :: "ack_event \<Rightarrow> (ack_err, ack_log, unit) eff" where
  "ack_step (Packet pn e l t eliciting below) g =
     (let h = (if l = Encryption1RTT then fold IgnorePacketsBelow below (handler g) else handler g) in
      case handler_ReceivedPacket pn e l t eliciting h of
        (Inl x, h) \<Rightarrow> (Inl x, g\<lparr>handler := h\<rparr>)
      | (Inr _, h) \<Rightarrow>
          (Inr (), g\<lparr>handler := h, accepted := (space l, pn) # accepted g,
                     waiting := (if eliciting \<and> space l = Encryption1RTT then t # waiting g else waiting g)\<rparr>))"
| "ack_step (SendAck l now q maxSize) g =
     (case pack_ack l now q maxSize (handler g) of
        (Inl x, h) \<Rightarrow> (Inl x, g\<lparr>handler := h\<rparr>)
      | (Inr a, h) \<Rightarrow> (Inr (), g\<lparr>handler := h, waiting := (if a \<noteq> None \<and> l = Encryption1RTT then [] else waiting g)\<rparr>))"
| "ack_step (Drop l) g = (case DropPackets l (handler g) of (r, h) \<Rightarrow> (r, g\<lparr>handler := h\<rparr>))"

definition ack_run :: "ack_event list \<Rightarrow> (ack_err + unit) \<times> ack_log" where
  "ack_run es = for_each es ack_step \<lparr>handler = NewReceivedPacketHandler, accepted = [], waiting = []\<rparr>"

section \<open>Frames of a history\<close>

definition frame_ranges :: "receivedPacketHistory \<Rightarrow> ack_range list" where
  "frame_ranges h = map (\<lambda>r. \<lparr>Smallest = Start r, Largest = End r\<rparr>) (rev (ranges h))"

lemma frame_ranges_covered: "(\<exists>r \<in> set (frame_ranges h). Smallest r \<le> p \<and> p \<le> Largest r) \<longleftrightarrow> p \<in> remembered h"
  by (auto simp: frame_ranges_def remembered_def covered_def)

lemma descending_consistent:
  assumes "sorted_wrt (\<lambda>x y. Largest y + 1 < Smallest x) rs" and "list_all range_valid rs"
  shows "ranges_consistent rs"
  using assms by (induction rs rule: ranges_consistent.induct) (auto simp: range_valid_def)

lemma frame_ranges_valid:
  assumes "history_ok h"
  shows "list_all range_valid (frame_ranges h)" and "ranges_consistent (frame_ranges h)"
proof -
  have s: "separated (ranges h)" using assms by (simp add: history_ok_def)
  then show v: "list_all range_valid (frame_ranges h)"
    by (auto simp: frame_ranges_def list_all_iff range_valid_def separated_def)
  have "sorted_wrt (\<lambda>x y. Largest y + 1 < Smallest x) (frame_ranges h)"
    using s by (simp add: frame_ranges_def sorted_wrt_map sorted_wrt_rev separated_def)
  then show "ranges_consistent (frame_ranges h)" using v by (rule descending_consistent)
qed

lemma frame_ranges_bounds:
  assumes "history_ok h" and "remembered h \<subseteq> {0..<2 ^ 62}"
  shows "\<forall>r \<in> set (frame_ranges h). 0 \<le> Smallest r \<and> Largest r < 2 ^ 62"
proof
  fix r
  assume r: "r \<in> set (frame_ranges h)"
  then have "Smallest r \<le> Largest r" using frame_ranges_valid(1) [OF assms(1)] by (auto simp: list_all_iff range_valid_def)
  then have "Smallest r \<in> remembered h" "Largest r \<in> remembered h" using r by (auto simp: frame_ranges_covered [symmetric])
  with assms(2) show "0 \<le> Smallest r \<and> Largest r < 2 ^ 62" by auto
qed

section \<open>Invariant of a tracker\<close>

text \<open>\<open>R\<close> are the packets accepted in the space of the tracker, \<open>n\<close> bounds their number.\<close>

definition tracker_core :: "packet_number set \<Rightarrow> nat \<Rightarrow> receivedPacketTracker \<Rightarrow> bool" where
  "tracker_core R n t \<longleftrightarrow> history_ok (packetHistory t) \<and> remembered (packetHistory t) \<subseteq> R \<and> R \<subseteq> {0..<2 ^ 62} \<and>
     unat (ect0 t) \<le> n \<and> unat (ect1 t) \<le> n \<and> unat (ecnce t) \<le> n \<and> pred_option ack_ok (lastAck t)"

definition tracker_ok :: "packet_number set \<Rightarrow> nat \<Rightarrow> receivedPacketTracker \<Rightarrow> bool" where
  "tracker_ok R n t \<longleftrightarrow> tracker_core R n t \<and> (hasNewAck t \<longrightarrow> ranges (packetHistory t) \<noteq> [])"

lemma new_tracker_ok: "tracker_ok {} 0 newReceivedPacketTracker"
  using new_history_ok
  by (simp add: tracker_ok_def tracker_core_def newReceivedPacketTracker_def newReceivedPacketHistory_def remembered_def)

lemma word_count: "unat w \<le> n \<Longrightarrow> unat (w + 1 :: u64) \<le> Suc n"
  using mod_less_eq_dividend [of "unat w + 1" "2 ^ 64"] by (simp add: unat_word_ariths)

lemma count_ecn_core:
  assumes "tracker_core R n t"
  shows "tracker_core R (Suc n) (count_ecn e t)" and "packetHistory (count_ecn e t) = packetHistory t"
    and "lastAck (count_ecn e t) = lastAck t" and "hasNewAck (count_ecn e t) = hasNewAck t"
  using assms word_count by (cases e; simp add: tracker_core_def count_ecn_def)+

lemma nonempty_after_new:
  assumes "history_ok h" and "0 \<le> p" and "history_ReceivedPacket p h = (True, h')"
  shows "ranges h' \<noteq> []"
proof (cases "p \<in> remembered h'")
  case True
  then show ?thesis by (auto simp: remembered_def)
next
  case False
  then show ?thesis using ReceivedPacket_spec [OF assms] by (auto simp: MaxNumAckRanges_def)
qed

lemma received_history:
  assumes "history_ok h" and "0 \<le> p" and "history_ReceivedPacket p h = (False, h')"
  shows "remembered h' \<subseteq> remembered h"
proof (cases "p < deletedBelow h")
  case True
  then show ?thesis using assms(3) by (simp add: history_ReceivedPacket_def)
next
  case False
  then show ?thesis using ReceivedPacket_spec [OF assms] by auto
qed

lemma tracker_received:
  assumes "tracker_core R n t" and "0 \<le> pn" "pn < 2 ^ 62" and "tracker_ReceivedPacket pn e eliciting t = (r, t')"
  shows "(\<exists>x. r = Inl (Bug x)) \<and> tracker_core R n t' \<or>
    r = Inr () \<and> tracker_core (insert pn R) (Suc n) t' \<and> ranges (packetHistory t') \<noteq> [] \<and> hasNewAck t' = (hasNewAck t \<or> eliciting) \<and>
    lastAck t' = lastAck t"
proof -
  obtain isNew h' where h': "history_ReceivedPacket pn (packetHistory t) = (isNew, h')" by fastforce
  have ok: "history_ok (packetHistory t)" using assms(1) by (simp add: tracker_core_def)
  note s = ReceivedPacket_spec [OF ok assms(2) h']
  show ?thesis
  proof (cases isNew)
    case False
    then have "remembered h' \<subseteq> R" using received_history [OF ok assms(2)] h' assms(1) by (auto simp: tracker_core_def)
    then have "tracker_core R n (t\<lparr>packetHistory := h'\<rparr>)" using assms(1) s by (simp add: tracker_core_def)
    then show ?thesis using False assms(4) by (auto simp: tracker_ReceivedPacket_def h' Let_def)
  next
    case True
    have ne: "ranges h' \<noteq> []" using nonempty_after_new [OF ok assms(2)] h' True by simp
    have "remembered h' \<subseteq> insert pn R" using s assms(1) by (auto simp: tracker_core_def)
    then have "tracker_core (insert pn R) n (t\<lparr>packetHistory := h'\<rparr>)" using assms(1,2,3) s by (simp add: tracker_core_def)
    note c = count_ecn_core [OF this, of e]
    then have "tracker_core (insert pn R) (Suc n) (count_ecn e (t\<lparr>packetHistory := h'\<rparr>)\<lparr>hasNewAck := b\<rparr>)" for b
      by (simp add: tracker_core_def)
    then show ?thesis using True assms(4) c ne by (auto simp: tracker_ReceivedPacket_def h' Let_def split: if_splits)
  qed
qed

definition ack_of :: "receivedPacketTracker \<Rightarrow> ack_frame" where
  "ack_of t = \<lparr>AckRanges = frame_ranges (packetHistory t), DelayTime = 0, ECT0 = ect0 t, ECT1 = ect1 t, ECNCE = ecnce t\<rparr>"

lemma tracker_get:
  "tracker_GetAckFrame t = (if hasNewAck t then (Some (ack_of t), t\<lparr>lastAck := Some (ack_of t), hasNewAck := False\<rparr>) else (None, t))"
  by (simp add: tracker_GetAckFrame_def ack_of_def frame_ranges_def ack_Reset_def Backward_def Let_def)

lemma ack_of_ok:
  assumes "tracker_core R n t" and "ranges (packetHistory t) \<noteq> []" and "n < 2 ^ 62" and "0 \<le> d" and "d \<le> max_int64"
  shows "ack_ok ((ack_of t)\<lparr>DelayTime := d\<rparr>)"
proof -
  have h: "history_ok (packetHistory t)" "remembered (packetHistory t) \<subseteq> {0..<2 ^ 62}" using assms(1) by (auto simp: tracker_core_def)
  have "w \<le> maxVarInt8" if "unat w \<le> n" for w :: u64
    using that assms(3) by (simp add: word_le_nat_alt maxVarInt8_def)
  moreover have "frame_ranges (packetHistory t) \<noteq> []" using assms(2) by (simp add: frame_ranges_def)
  ultimately show ?thesis
    using assms frame_ranges_valid [OF h(1)] frame_ranges_bounds [OF h]
    by (simp add: ack_ok_def ack_of_def validateAckRanges_def tracker_core_def)
qed

section \<open>Invariant of the application data tracker\<close>

text \<open>\<open>W\<close> are the arrival times of the ack-eliciting packets that still wait for an acknowledgement.\<close>

definition time_ok :: "mono_time \<Rightarrow> bool" where
  "time_ok t \<longleftrightarrow> 0 < t \<and> t + MaxAckDelay \<le> max_int64"

definition app_core :: "packet_number set \<Rightarrow> nat \<Rightarrow> mono_time list \<Rightarrow> appDataReceivedPacketTracker \<Rightarrow> bool" where
  "app_core R n W a \<longleftrightarrow> tracker_core R n (tracker a) \<and> 0 \<le> ignoreBelow a \<and> maxAckDelay a = MaxAckDelay \<and>
     ackElicitingPacketsReceivedSinceLastAck a = int (length W) \<and> (hasNewAck (tracker a) \<longleftrightarrow> W \<noteq> []) \<and> list_all time_ok W \<and>
     (W \<noteq> [] \<longrightarrow> ackQueued a \<or> (\<exists>T. W = [T] \<and> ackAlarm a = T + MaxAckDelay)) \<and> (ackQueued a \<longrightarrow> W \<noteq> [])"

definition app_ok :: "packet_number set \<Rightarrow> nat \<Rightarrow> mono_time list \<Rightarrow> appDataReceivedPacketTracker \<Rightarrow> bool" where
  "app_ok R n W a \<longleftrightarrow> app_core R n W a \<and> (W \<noteq> [] \<longrightarrow> ranges (packetHistory (tracker a)) \<noteq> [])"

lemma new_app_ok: "app_ok {} 0 [] newAppDataReceivedPacketTracker"
  using new_tracker_ok
  by (simp add: app_ok_def app_core_def newAppDataReceivedPacketTracker_def tracker_ok_def newReceivedPacketTracker_def)

lemma IgnoreBelow_core:
  assumes "app_core R n W a"
  shows "app_core R n W (IgnoreBelow pn a)"
proof (cases "pn \<le> ignoreBelow a")
  case True
  then show ?thesis using assms by (simp add: IgnoreBelow_def)
next
  case False
  then have "0 \<le> pn" using assms by (simp add: app_core_def)
  have "history_ok (packetHistory (tracker a))" using assms by (simp add: app_core_def tracker_core_def)
  from DeleteBelow_spec [OF this \<open>0 \<le> pn\<close>] show ?thesis
    using assms False \<open>0 \<le> pn\<close> by (auto simp: IgnoreBelow_def app_core_def tracker_core_def)
qed

lemma missing_Some:
  assumes "pred_option ack_ok (lastAck (tracker a))"
  shows "\<exists>b. isMissing p a = Some b" and "\<exists>b. shouldQueueACK e m a = Some b"
proof -
  have v: "AckRanges f \<noteq> [] \<and> (\<exists>b. AcksPacket f p = Some b)" if "lastAck (tracker a) = Some f" for f p
    using assms that ack_okD(1) [of f] AcksPacket_iff [of f p] by (auto simp: ack_ok_def)
  then show "\<exists>b. isMissing p a = Some b" by (fastforce simp: isMissing_def split: option.splits)
  have "\<exists>b. hasNewMissingPackets a = Some b" using v by (auto simp: hasNewMissingPackets_def Let_def split: option.splits)
  then show "\<exists>b. shouldQueueACK e m a = Some b" by (auto simp: shouldQueueACK_def)
qed

lemma queue_ack_spec:
  assumes "pred_option ack_ok (lastAck (tracker a))"
  shows "\<exists>q al. queue_ack pn e t a = (Inr (), a\<lparr>ackQueued := q, ackAlarm := al\<rparr>) \<and> (ackQueued a \<longrightarrow> q) \<and>
    (2 \<le> ackElicitingPacketsReceivedSinceLastAck a \<longrightarrow> q) \<and> (\<not> q \<longrightarrow> al = mono_Add t (maxAckDelay a))"
proof (cases "ackQueued a")
  case True
  obtain m where "isMissing pn a = Some m" using missing_Some(1) [OF assms] by blast
  with True show ?thesis by (intro exI [of _ True] exI [of _ "ackAlarm a"]) (simp add: queue_ack_def)
next
  case False
  obtain m b where m: "isMissing pn a = Some m" "shouldQueueACK e m a = Some b" using missing_Some [OF assms] by meson
  have "b" if "2 \<le> ackElicitingPacketsReceivedSinceLastAck a"
    using m(2) that by (auto simp: shouldQueueACK_def packetsBeforeAck_def split: if_splits)
  with False m show ?thesis
    by (intro exI [of _ b] exI [of _ "if b then 0 else mono_Add t (maxAckDelay a)"]) (auto simp: queue_ack_def Let_def)
qed

lemma mono_Add_delay: "time_ok t \<Longrightarrow> mono_Add t MaxAckDelay = t + MaxAckDelay"
  by (simp add: time_ok_def mono_Add_def wrap64_id in_int64_def min_int64_def MaxAckDelay_def)

lemma app_received:
  assumes "app_core R n W a" and "0 \<le> pn" "pn < 2 ^ 62" and "time_ok t" and "app_ReceivedPacket pn e t eliciting a = (r, a')"
  shows "(\<exists>x. r = Inl (Bug x)) \<or> r = Inr () \<and> app_ok (insert pn R) (Suc n) (if eliciting then t # W else W) a'"
proof -
  obtain r1 t1 where t1: "tracker_ReceivedPacket pn e eliciting (tracker a) = (r1, t1)" by fastforce
  have "tracker_core R n (tracker a)" using assms(1) by (simp add: app_core_def)
  from tracker_received [OF this assms(2,3) t1] show ?thesis
  proof (elim disjE conjE)
    assume "\<exists>x. r1 = Inl (Bug x)"
    then show ?thesis using assms(5) by (auto simp: app_ReceivedPacket_def t1)
  next
    assume t: "r1 = Inr ()" "tracker_core (insert pn R) (Suc n) t1" "ranges (packetHistory t1) \<noteq> []"
      "hasNewAck t1 = (hasNewAck (tracker a) \<or> eliciting)"
    define b where "b = (if pn \<ge> largestObserved a then a\<lparr>tracker := t1, largestObserved := pn, largestObservedRcvdTime := t\<rparr> else a\<lparr>tracker := t1\<rparr>)"
    have b: "tracker b = t1" "ignoreBelow b = ignoreBelow a" "maxAckDelay b = maxAckDelay a" "ackQueued b = ackQueued a" "ackAlarm b = ackAlarm a"
      "ackElicitingPacketsReceivedSinceLastAck b = ackElicitingPacketsReceivedSinceLastAck a" by (simp_all add: b_def)
    define c where "c = b\<lparr>ackElicitingPacketsReceivedSinceLastAck := ackElicitingPacketsReceivedSinceLastAck b + 1\<rparr>"
    have eq: "(r, a') = (if \<not> eliciting then (Inr (), b) else queue_ack pn e t c)"
      unfolding assms(5) [symmetric] app_ReceivedPacket_def t1 t(1) by (simp add: b_def c_def)
    show ?thesis
    proof (cases eliciting)
      case False
      then show ?thesis using eq t b assms(1) by (simp add: app_ok_def app_core_def)
    next
      case True
      have c: "tracker c = t1" "ignoreBelow c = ignoreBelow a" "maxAckDelay c = maxAckDelay a" "ackQueued c = ackQueued a"
        "ackElicitingPacketsReceivedSinceLastAck c = ackElicitingPacketsReceivedSinceLastAck a + 1" by (simp_all add: c_def b)
      have "pred_option ack_ok (lastAck (tracker c))" using t(2) by (simp add: c tracker_core_def)
      from queue_ack_spec [OF this, of pn e t] obtain q al where q: "queue_ack pn e t c = (Inr (), c\<lparr>ackQueued := q, ackAlarm := al\<rparr>)"
        "ackQueued c \<longrightarrow> q" "2 \<le> ackElicitingPacketsReceivedSinceLastAck c \<longrightarrow> q" "\<not> q \<longrightarrow> al = mono_Add t (maxAckDelay c)" by blast
      have W: "W \<noteq> [] \<Longrightarrow> q" "\<not> q \<Longrightarrow> al = t + MaxAckDelay"
        using q(3,4) assms(1) mono_Add_delay [OF assms(4)] by (cases W; simp add: c app_core_def)+
      have "app_ok (insert pn R) (Suc n) (t # W) (c\<lparr>ackQueued := q, ackAlarm := al\<rparr>)"
        using W t assms(1,4) True by (cases q) (auto simp: app_ok_def app_core_def c)
      then show ?thesis using eq True q(1) by simp
    qed
  qed
qed

lemma app_get_due:
  assumes "app_ok R n W a" and "W \<noteq> []" and "\<not> onlyIfQueued \<or> ackQueued a \<or> (\<exists>T \<in> set W. T + MaxAckDelay \<le> now)"
  defines "f \<equiv> (ack_of (tracker a))\<lparr>DelayTime := max 0 (mono_Sub now (largestObservedRcvdTime a))\<rparr>"
  shows "app_GetAckFrame now onlyIfQueued a = (Some f, a\<lparr>tracker := (tracker a)\<lparr>lastAck := Some f, hasNewAck := False\<rparr>, ackQueued := False, ackAlarm := 0,
    ackElicitingPacketsReceivedSinceLastAck := 0\<rparr>)"
proof -
  have "hasNewAck (tracker a)" using assms(1,2) by (simp add: app_ok_def app_core_def)
  moreover have "\<not> (onlyIfQueued \<and> \<not> ackQueued a \<and> (mono_IsZero (ackAlarm a) \<or> mono_After (ackAlarm a) now))"
  proof (cases "ackQueued a")
    case False
    then obtain T where "W = [T]" "ackAlarm a = T + MaxAckDelay" using assms(1,2) by (auto simp: app_ok_def app_core_def)
    moreover have "0 < T" using calculation assms(1) by (simp add: app_ok_def app_core_def time_ok_def)
    ultimately show ?thesis using assms(3) False by (auto simp: mono_IsZero_def mono_After_def MaxAckDelay_def)
  qed simp
  ultimately show ?thesis by (simp add: app_GetAckFrame_def tracker_get f_def Let_def)
qed

lemma app_get:
  assumes "app_ok R n W a"
  shows "app_GetAckFrame now onlyIfQueued a = (None, a) \<or>
    W \<noteq> [] \<and> (\<not> onlyIfQueued \<or> ackQueued a \<or> (\<exists>T \<in> set W. T + MaxAckDelay \<le> now))"
proof (cases "hasNewAck (tracker a)")
  case False
  then show ?thesis by (simp add: app_GetAckFrame_def tracker_get)
next
  case True
  then have "W \<noteq> []" "ackQueued a \<or> (\<exists>T. W = [T] \<and> ackAlarm a = T + MaxAckDelay)"
    using assms by (simp_all add: app_ok_def app_core_def)
  then show ?thesis by (auto simp: app_GetAckFrame_def mono_After_def not_less)
qed

section \<open>What is sent\<close>

definition sent :: "packet_number set \<Rightarrow> int \<Rightarrow> ack_frame \<Rightarrow> nat \<Rightarrow> bool" where
  "sent R maxSize f len \<longleftrightarrow> ack_ok f \<and> ack_Length f = Some len \<and> int len \<le> maxSize \<and> length (AckRanges f) \<le> MaxNumAckRanges \<and>
     (\<forall>r \<in> set (AckRanges f). {Smallest r..Largest r} \<subseteq> R)"

lemma truncated:
  assumes "ack_ok f" and "50 \<le> maxSize"
  shows "\<exists>n l. Truncate f maxSize = Some (f\<lparr>AckRanges := take n (AckRanges f)\<rparr>) \<and> n \<le> MaxNumAckRanges \<and>
    ack_ok (f\<lparr>AckRanges := take n (AckRanges f)\<rparr>) \<and> ack_Length (f\<lparr>AckRanges := take n (AckRanges f)\<rparr>) = Some l \<and> int l \<le> maxSize"
proof -
  have "int (len_with f 1) \<le> maxSize" using len_with_bound [of 1 f] assms(2) by (auto split: if_splits)
  then obtain n where n: "numEncodableAckRanges f maxSize = Some n" "1 \<le> n" "n \<le> min (length (AckRanges f)) MaxNumAckRanges"
    "int (len_with f n) \<le> maxSize" using numEncodable_spec [OF assms(1), of maxSize] by auto
  then show ?thesis
    using take_Append_bytes(2) [OF assms(1) n(2,3)] ack_ok_take [OF assms(1) n(2)]
    by (intro exI [of _ n] exI [of _ "len_with f n"]) (simp add: Truncate_def)
qed

lemma sent_frame:
  assumes "tracker_core R n t" and "ranges (packetHistory t) \<noteq> []" and "n < 2 ^ 62" and "0 \<le> d" "d \<le> max_int64" and "50 \<le> maxSize"
  shows "\<exists>f len. Truncate ((ack_of t)\<lparr>DelayTime := d\<rparr>) maxSize = Some f \<and> ack_Length f = Some len \<and> sent R maxSize f len \<and>
    tracker_ok R n (t\<lparr>lastAck := Some f, hasNewAck := False\<rparr>)"
proof -
  define a where "a = (ack_of t)\<lparr>DelayTime := d\<rparr>"
  have "ack_ok a" unfolding a_def by (rule ack_of_ok [OF assms(1-5)])
  from truncated [OF this assms(6)] obtain k l where k: "Truncate a maxSize = Some (a\<lparr>AckRanges := take k (AckRanges a)\<rparr>)" "k \<le> MaxNumAckRanges"
    "ack_ok (a\<lparr>AckRanges := take k (AckRanges a)\<rparr>)" "ack_Length (a\<lparr>AckRanges := take k (AckRanges a)\<rparr>) = Some l" "int l \<le> maxSize"
    by blast
  have "{Smallest r..Largest r} \<subseteq> R" if "r \<in> set (take k (AckRanges a))" for r
  proof -
    have "r \<in> set (frame_ranges (packetHistory t))" using in_set_takeD [OF that] by (simp add: a_def ack_of_def)
    then have "{Smallest r..Largest r} \<subseteq> remembered (packetHistory t)" by (auto simp: frame_ranges_covered [symmetric])
    then show ?thesis using assms(1) by (auto simp: tracker_core_def)
  qed
  with k have "sent R maxSize (a\<lparr>AckRanges := take k (AckRanges a)\<rparr>) l" by (simp add: sent_def)
  moreover have "tracker_ok R n (t\<lparr>lastAck := Some (a\<lparr>AckRanges := take k (AckRanges a)\<rparr>), hasNewAck := False\<rparr>)"
    using assms(1) k(3) by (simp add: tracker_ok_def tracker_core_def)
  ultimately show ?thesis using k(1,4) unfolding a_def by blast
qed

section \<open>Invariant of a connection\<close>

definition acc :: "encryption_level \<Rightarrow> (encryption_level \<times> packet_number) list \<Rightarrow> packet_number set" where
  "acc l ps = {p. (l, p) \<in> set ps}"

definition log_ok :: "ack_log \<Rightarrow> bool" where
  "log_ok g \<longleftrightarrow> app_ok (acc Encryption1RTT (accepted g)) (length (accepted g)) (waiting g) (appDataPackets (handler g)) \<and>
     pred_option (tracker_ok (acc EncryptionInitial (accepted g)) (length (accepted g))) (initialPackets (handler g)) \<and>
     pred_option (tracker_ok (acc EncryptionHandshake (accepted g)) (length (accepted g))) (handshakePackets (handler g))"

fun event_ok :: "ack_event \<Rightarrow> bool" where
  "event_ok (Packet pn e l t eliciting below) \<longleftrightarrow> 0 \<le> pn \<and> pn < 2 ^ 62 \<and> time_ok t"
| "event_ok (SendAck l now q maxSize) \<longleftrightarrow> 50 \<le> maxSize"
| "event_ok (Drop l) \<longleftrightarrow> True"

definition frame_panic :: "ack_err \<Rightarrow> bool" where
  "frame_panic e \<longleftrightarrow> e \<in> {Panic ''index out of range'', Panic ''invalid ACK frame''}"

lemma tracker_mono: "tracker_ok R n t \<Longrightarrow> tracker_ok R (Suc n) t" "app_ok R n W a \<Longrightarrow> app_ok R (Suc n) W a"
  by (auto simp: tracker_ok_def tracker_core_def app_ok_def app_core_def)

lemma pred_tracker_mono: "pred_option (tracker_ok R n) x \<Longrightarrow> pred_option (tracker_ok R (Suc n)) x"
  by (cases x) (simp_all add: tracker_mono)

lemma acc_Cons: "acc l ((l', p) # ps) = (if l = l' then insert p (acc l ps) else acc l ps)"
  by (auto simp: acc_def)

lemma ignore_all:
  "appDataPackets (fold IgnorePacketsBelow ps h) = fold IgnoreBelow ps (appDataPackets h)"
  "initialPackets (fold IgnorePacketsBelow ps h) = initialPackets h"
  "handshakePackets (fold IgnorePacketsBelow ps h) = handshakePackets h"
  by (induction ps arbitrary: h) (simp_all add: IgnorePacketsBelow_def)

lemma ignore_core: "app_core R n W a \<Longrightarrow> app_core R n W (fold IgnoreBelow ps a)"
  by (induction ps arbitrary: a) (simp_all add: IgnoreBelow_core)

lemma app_packet_step:
  assumes "app_core (acc Encryption1RTT (accepted g)) (length (accepted g)) (waiting g) (appDataPackets h)"
    and "pred_option (tracker_ok (acc EncryptionInitial (accepted g)) (length (accepted g))) (initialPackets h)"
    and "pred_option (tracker_ok (acc EncryptionHandshake (accepted g)) (length (accepted g))) (handshakePackets h)"
    and "0 \<le> pn" "pn < 2 ^ 62" and "time_ok t" and "app_packet pn e t eliciting h = (r, h')"
  shows "(\<exists>x. r = Inl (Bug x)) \<or> r = Inr () \<and> log_ok (g\<lparr>handler := h', accepted := (Encryption1RTT, pn) # accepted g,
    waiting := (if eliciting then t # waiting g else waiting g)\<rparr>)"
proof -
  obtain a where a: "app_ReceivedPacket pn e t eliciting (appDataPackets h) = (r, a)" "h' = h\<lparr>appDataPackets := a\<rparr>"
    using assms(7) by (auto simp: app_packet_def split: prod.splits)
  from app_received [OF assms(1,4-6) a(1)] assms(2,3) show ?thesis
    by (auto simp: log_ok_def acc_Cons a(2) pred_tracker_mono)
qed

lemma tracker_step:
  assumes "tracker_ok R n x" and "0 \<le> pn" "pn < 2 ^ 62" and "tracker_ReceivedPacket pn e eliciting x = (r, x')"
  shows "(\<exists>b. r = Inl (Bug b)) \<or> r = Inr () \<and> tracker_ok (insert pn R) (Suc n) x'"
  using tracker_received [OF _ assms(2-4)] assms(1) unfolding tracker_ok_def by blast

lemma Packet_step:
  assumes "log_ok g" and "event_ok (Packet pn e l t eliciting below)" and "ack_step (Packet pn e l t eliciting below) g = (r, g')"
  shows "(\<exists>x. r = Inl x \<and> \<not> frame_panic x) \<or> r = Inr () \<and> log_ok g'"
proof -
  define h where "h = (if l = Encryption1RTT then fold IgnorePacketsBelow below (handler g) else handler g)"
  have core: "app_core (acc Encryption1RTT (accepted g)) (length (accepted g)) (waiting g) (appDataPackets h)"
    "pred_option (tracker_ok (acc EncryptionInitial (accepted g)) (length (accepted g))) (initialPackets h)"
    "pred_option (tracker_ok (acc EncryptionHandshake (accepted g)) (length (accepted g))) (handshakePackets h)"
    using assms(1) by (auto simp: h_def log_ok_def app_ok_def ignore_all ignore_core)
  have ok: "app_ok (acc Encryption1RTT (accepted g)) (length (accepted g)) (waiting g) (appDataPackets h)" if "l \<noteq> Encryption1RTT"
    using assms(1) that by (simp add: h_def log_ok_def)
  obtain r' h' where r': "handler_ReceivedPacket pn e l t eliciting h = (r', h')" by fastforce
  have g': "(\<exists>x. r = Inl x \<and> r' = Inl x) \<or> r = Inr () \<and> r' = Inr () \<and> g' = g\<lparr>handler := h', accepted := (space l, pn) # accepted g,
      waiting := (if eliciting \<and> space l = Encryption1RTT then t # waiting g else waiting g)\<rparr>"
    using assms(3) unfolding ack_step.simps h_def [symmetric] Let_def r' by (cases r') auto
  have pn: "0 \<le> pn" "pn < 2 ^ 62" "time_ok t" using assms(2) by simp_all
  have "(\<exists>x. r' = Inl x \<and> \<not> frame_panic x) \<or> r' = Inr () \<and> log_ok (g\<lparr>handler := h', accepted := (space l, pn) # accepted g,
      waiting := (if eliciting \<and> space l = Encryption1RTT then t # waiting g else waiting g)\<rparr>)"
  proof (cases l)
    case EncryptionUnknown
    then show ?thesis using r' by (auto simp: handler_ReceivedPacket_def frame_panic_def)
  next
    case EncryptionInitial
    show ?thesis
    proof (cases "initialPackets h")
      case (Some x)
      obtain x' where x': "tracker_ReceivedPacket pn e eliciting x = (r', x')" "h' = h\<lparr>initialPackets := Some x'\<rparr>"
        using r' EncryptionInitial Some by (auto simp: handler_ReceivedPacket_def split: prod.splits)
      from tracker_step [OF _ pn(1,2) x'(1)] core(2) Some x'(2) EncryptionInitial core(3) ok show ?thesis
        by (auto simp: frame_panic_def log_ok_def acc_Cons tracker_mono pred_tracker_mono)
    qed (use r' EncryptionInitial in \<open>auto simp: handler_ReceivedPacket_def frame_panic_def\<close>)
  next
    case EncryptionHandshake
    show ?thesis
    proof (cases "handshakePackets h")
      case None
      then show ?thesis using r' EncryptionHandshake core(2) ok
        by (auto simp: handler_ReceivedPacket_def log_ok_def acc_Cons tracker_mono pred_tracker_mono)
    next
      case (Some x)
      obtain x' where x': "tracker_ReceivedPacket pn e eliciting x = (r', x')" "h' = h\<lparr>handshakePackets := Some x'\<rparr>"
        using r' EncryptionHandshake Some by (auto simp: handler_ReceivedPacket_def split: prod.splits)
      from tracker_step [OF _ pn(1,2) x'(1)] core(3) Some x'(2) EncryptionHandshake core(2) ok show ?thesis
        by (auto simp: frame_panic_def log_ok_def acc_Cons tracker_mono pred_tracker_mono)
    qed
  next
    case Encryption0RTT
    then have "(\<exists>x y. r' = Inl (Late0RTT x y)) \<or> app_packet pn e t eliciting h = (r', h')"
      using r' by (auto simp: handler_ReceivedPacket_def split: if_splits)
    then show ?thesis using app_packet_step [OF core pn, of e eliciting r' h'] Encryption0RTT by (auto simp: frame_panic_def)
  next
    case Encryption1RTT
    define k where "k = (if lowest1RTTPacket h = InvalidPacketNumber \<or> pn < lowest1RTTPacket h then h\<lparr>lowest1RTTPacket := pn\<rparr> else h)"
    have "app_packet pn e t eliciting k = (r', h')" using r' Encryption1RTT by (simp add: handler_ReceivedPacket_def k_def)
    moreover have "appDataPackets k = appDataPackets h" "initialPackets k = initialPackets h" "handshakePackets k = handshakePackets h"
      by (simp_all add: k_def)
    ultimately show ?thesis using app_packet_step [of g k pn t e eliciting r' h'] core pn Encryption1RTT by (auto simp: frame_panic_def)
  qed
  with g' show ?thesis by auto
qed

lemma SendAck_frame:
  assumes "log_ok g" and "length (accepted g) < 2 ^ 62" and "50 \<le> maxSize" and "pack_ack l now q maxSize (handler g) = (r, h')"
  shows "case r of
      Inl _ \<Rightarrow> False
    | Inr None \<Rightarrow> log_ok (g\<lparr>handler := h'\<rparr>)
    | Inr (Some (f, len)) \<Rightarrow> sent (acc l (accepted g)) maxSize f len \<and>
        log_ok (g\<lparr>handler := h', waiting := (if l = Encryption1RTT then [] else waiting g)\<rparr>)"
proof -
  have comm: "x\<lparr>hasNewAck := b, lastAck := y\<rparr> = x\<lparr>lastAck := y, hasNewAck := b\<rparr>" for x :: receivedPacketTracker and b y by simp
  have one: "(if hasNewAck x then \<exists>f len. Truncate (ack_of x) maxSize = Some f \<and> ack_Length f = Some len \<and> sent R maxSize f len \<and>
      tracker_ok R (length (accepted g)) (x\<lparr>lastAck := Some f, hasNewAck := False\<rparr>) else True)"
    if "tracker_ok R (length (accepted g)) x" for R x
  proof -
    have "(ack_of x)\<lparr>DelayTime := 0\<rparr> = ack_of x" by (simp add: ack_of_def)
    then show ?thesis using sent_frame [of R "length (accepted g)" x 0 maxSize] that assms(2,3) by (simp add: tracker_ok_def max_int64_def)
  qed
  show ?thesis
  proof (cases l)
    case EncryptionInitial
    show ?thesis
    proof (cases "initialPackets (handler g)")
      case (Some x)
      then have "tracker_ok (acc EncryptionInitial (accepted g)) (length (accepted g)) x" using assms(1) by (simp add: log_ok_def)
      from one [OF this] assms(1,4) Some EncryptionInitial show ?thesis
        by (auto simp: pack_ack_def handler_GetAckFrame_def tracker_get set_lastAck_def log_ok_def comm split: if_splits)
    qed (use assms(4) EncryptionInitial assms(1) in \<open>auto simp: pack_ack_def handler_GetAckFrame_def log_ok_def\<close>)
  next
    case EncryptionHandshake
    show ?thesis
    proof (cases "handshakePackets (handler g)")
      case (Some x)
      then have "tracker_ok (acc EncryptionHandshake (accepted g)) (length (accepted g)) x" using assms(1) by (simp add: log_ok_def)
      from one [OF this] assms(1,4) Some EncryptionHandshake show ?thesis
        by (auto simp: pack_ack_def handler_GetAckFrame_def tracker_get set_lastAck_def log_ok_def comm split: if_splits)
    qed (use assms(4) EncryptionHandshake assms(1) in \<open>auto simp: pack_ack_def handler_GetAckFrame_def log_ok_def\<close>)
  next
    case Encryption1RTT
    define a where "a = appDataPackets (handler g)"
    have ok: "app_ok (acc Encryption1RTT (accepted g)) (length (accepted g)) (waiting g) a" using assms(1) by (simp add: log_ok_def a_def)
    from app_get [OF ok, of now q] show ?thesis
    proof (elim disjE)
      assume "app_GetAckFrame now q a = (None, a)"
      then show ?thesis using assms(4) Encryption1RTT assms(1) by (auto simp: pack_ack_def handler_GetAckFrame_def a_def log_ok_def)
    next
      assume w: "waiting g \<noteq> [] \<and> (\<not> q \<or> ackQueued a \<or> (\<exists>T \<in> set (waiting g). T + MaxAckDelay \<le> now))"
      define d where "d = max 0 (mono_Sub now (largestObservedRcvdTime a))"
      have d: "0 \<le> d" "d \<le> max_int64" using wrap64_in by (simp_all add: d_def mono_Sub_def in_int64_def max_int64_def)
      have c: "tracker_core (acc Encryption1RTT (accepted g)) (length (accepted g)) (tracker a)" "ranges (packetHistory (tracker a)) \<noteq> []"
        using ok w by (simp_all add: app_ok_def app_core_def)
      from sent_frame [OF c assms(2) d assms(3)] obtain f len where f: "Truncate ((ack_of (tracker a))\<lparr>DelayTime := d\<rparr>) maxSize = Some f"
        "ack_Length f = Some len" "sent (acc Encryption1RTT (accepted g)) maxSize f len"
        "tracker_ok (acc Encryption1RTT (accepted g)) (length (accepted g)) ((tracker a)\<lparr>lastAck := Some f, hasNewAck := False\<rparr>)" by blast
      have "r = Inr (Some (f, len)) \<and> h' = (handler g)\<lparr>appDataPackets := a\<lparr>tracker := (tracker a)\<lparr>lastAck := Some f, hasNewAck := False\<rparr>,
          ackQueued := False, ackAlarm := 0, ackElicitingPacketsReceivedSinceLastAck := 0\<rparr>\<rparr>"
        using assms(4) Encryption1RTT app_get_due [OF ok, of q now] w f(1,2)
        by (auto simp: pack_ack_def handler_GetAckFrame_def a_def [symmetric] d_def [symmetric] set_lastAck_def)
      moreover have "app_ok (acc Encryption1RTT (accepted g)) (length (accepted g)) [] (a\<lparr>tracker := (tracker a)\<lparr>lastAck := Some f, hasNewAck := False\<rparr>,
          ackQueued := False, ackAlarm := 0, ackElicitingPacketsReceivedSinceLastAck := 0\<rparr>)"
        using ok f(4) by (simp add: app_ok_def app_core_def tracker_ok_def)
      ultimately show ?thesis using f(3) assms(1) Encryption1RTT by (simp add: log_ok_def)
    qed
  qed (use assms(4) assms(1) in \<open>auto simp: pack_ack_def handler_GetAckFrame_def log_ok_def\<close>)
qed

lemma ack_step_ok:
  assumes "log_ok g" and "event_ok e" and "length (accepted g) < 2 ^ 62" and "ack_step e g = (r, g')"
  shows "((\<exists>x. r = Inl x \<and> \<not> frame_panic x) \<or> r = Inr () \<and> log_ok g') \<and> length (accepted g') \<le> Suc (length (accepted g))"
proof (cases e)
  case (Packet pn ec l t eliciting below)
  have "length (accepted g') \<le> Suc (length (accepted g))"
    using assms(4) by (auto simp: Packet Let_def split: prod.splits sum.splits)
  then show ?thesis using Packet_step assms by (metis Packet)
next
  case (SendAck l now q maxSize)
  obtain r' h' where p: "pack_ack l now q maxSize (handler g) = (r', h')" by fastforce
  show ?thesis using SendAck_frame [OF assms(1,3) _ p] assms SendAck p by (auto split: sum.splits option.splits)
next
  case (Drop l)
  then show ?thesis using assms(1,4) by (cases l) (auto simp: DropPackets_def log_ok_def frame_panic_def)
qed

lemma run_ok:
  assumes "log_ok g" and "list_all event_ok es" and "length (accepted g) + length es < 2 ^ 62" and "for_each es ack_step g = (r, g')"
  shows "(\<exists>x. r = Inl x \<and> \<not> frame_panic x) \<or> r = Inr () \<and> log_ok g' \<and> length (accepted g') < 2 ^ 62"
  using assms
proof (induction es arbitrary: g)
  case (Cons e es)
  obtain r1 g1 where s: "ack_step e g = (r1, g1)" by fastforce
  note o = ack_step_ok [OF Cons.prems(1) _ _ s]
  show ?case
  proof (cases r1)
    case (Inl x)
    then show ?thesis using Cons.prems o s by (auto simp: bnd_apply)
  next
    case (Inr u)
    then have "for_each es ack_step g1 = (r, g')" using Cons.prems(4) s by (simp add: bnd_apply)
    then show ?thesis using Cons.IH [of g1] Cons.prems o Inr by auto
  qed
qed (simp add: ret_apply)

lemma initial_log_ok: "log_ok \<lparr>handler = NewReceivedPacketHandler, accepted = [], waiting = []\<rparr>"
  using new_app_ok new_tracker_ok by (simp add: log_ok_def acc_def NewReceivedPacketHandler_def)

section \<open>The peer's view\<close>

lemma sent_read_back:
  assumes "sent R maxSize f len"
  defines "ty \<equiv> if hasECN f then FrameTypeAckECN else FrameTypeAck"
  shows "\<exists>bs f'. ack_Append f [] = Some (ucast ty # bs) \<and> Suc (length bs) = len \<and> int len \<le> maxSize \<and>
    parseAckFrame (ack_Reset z) (bs @ rest) ty AckDelayExponent = Inr (f', length bs) \<and>
    (\<forall>p. AcksPacket f' p = Some (\<exists>r \<in> set (AckRanges f). Smallest r \<le> p \<and> p \<le> Largest r))"
proof -
  have s: "ack_ok f" "ack_Length f = Some len" "int len \<le> maxSize" "length (AckRanges f) \<le> MaxNumAckRanges"
    using assms(1) by (simp_all add: sent_def)
  define f' where "f' = f\<lparr>AckRanges := take MaxNumAckRanges (AckRanges f), DelayTime := DelayTime f div 8000 * 8000\<rparr>"
  obtain bs where bs: "ack_Append f [] = Some (ucast ty # bs)" "parseAckFrame (ack_Reset z) (bs @ rest) ty AckDelayExponent = Inr (f', length bs)"
    using ack_read_back [OF s(1), of "[]" z rest] unfolding ty_def f'_def by auto
  moreover have "Suc (length bs) = len" using ack_Append_bytes [OF s(1)] bs(1) s(2) by force
  moreover have "validateAckRanges f'" "AckRanges f' = AckRanges f" using s(1,4) by (auto simp: f'_def ack_ok_def validateAckRanges_def split: if_splits)
  ultimately show ?thesis using AcksPacket_iff [of f'] s(3) by auto
qed

section \<open>Properties\<close>

text \<open>
  C28. Whatever packets arrive and whatever acknowledgements are sent in between, an ACK frame that a connection packs
  fits the space it is given, has the length the packer reckons with, is accepted by the peer's parser, and makes the peer
  believe only in packets that the connection has accepted in that packet number space.
\<close>

theorem acks_are_truthful:
  assumes "list_all event_ok es" and "length es < 2 ^ 62" and "ack_run es = (Inr (), g)" and "50 \<le> maxSize"
    and "pack_ack l now q maxSize (handler g) = (Inr (Some (f, len)), h')"
  shows "\<exists>ty bs f'. ack_Append f [] = Some (ucast ty # bs) \<and> Suc (length bs) = len \<and> int len \<le> maxSize \<and>
    parseAckFrame (ack_Reset z) (bs @ rest) ty AckDelayExponent = Inr (f', length bs) \<and>
    (\<forall>p. AcksPacket f' p = Some True \<longrightarrow> (l, p) \<in> set (accepted g))"
proof -
  have g: "log_ok g" "length (accepted g) < 2 ^ 62"
    using run_ok [OF initial_log_ok assms(1)] assms(2,3) by (auto simp: ack_run_def)
  have s: "sent (acc l (accepted g)) maxSize f len" using SendAck_frame [OF g assms(4,5)] by simp
  then have acc: "(\<exists>r \<in> set (AckRanges f). Smallest r \<le> p \<and> p \<le> Largest r) \<Longrightarrow> (l, p) \<in> set (accepted g)" for p
    by (auto simp: sent_def acc_def subset_iff)
  from sent_read_back [OF s, of z rest] obtain bs f' where "ack_Append f [] = Some (ucast (if hasECN f then FrameTypeAckECN else FrameTypeAck) # bs)"
    "Suc (length bs) = len" "int len \<le> maxSize"
    "parseAckFrame (ack_Reset z) (bs @ rest) (if hasECN f then FrameTypeAckECN else FrameTypeAck) AckDelayExponent = Inr (f', length bs)"
    "\<forall>p. AcksPacket f' p = Some (\<exists>r \<in> set (AckRanges f). Smallest r \<le> p \<and> p \<le> Largest r)" by blast
  with acc show ?thesis by (intro exI [of _ "if hasECN f then FrameTypeAckECN else FrameTypeAck"] exI [of _ bs] exI [of _ f']) simp
qed

definition two_packets :: "ack_event list" where
  "two_packets = [Packet 0 ECNNon Encryption1RTT 1000 True [], Packet 2 ECNNon Encryption1RTT 2000 True []]"

lemma two_packets_ok: "list_all event_ok two_packets" "length two_packets < 2 ^ 62"
  "ack_run two_packets = (Inr (), snd (ack_run two_packets))" "set (waiting (snd (ack_run two_packets))) = {1000, 2000}"
  by (simp add: two_packets_def time_ok_def MaxAckDelay_def max_int64_def, simp add: two_packets_def, code_simp, code_simp)

definition two_ranges :: ack_frame where
  "two_ranges = \<lparr>AckRanges = [\<lparr>Smallest = 2, Largest = 2\<rparr>, \<lparr>Smallest = 0, Largest = 0\<rparr>], DelayTime = 1000, ECT0 = 0, ECT1 = 0, ECNCE = 0\<rparr>"

theorem acks_are_truthful_witness:
  "fst (pack_ack Encryption1RTT 3000 True 1200 (handler (snd (ack_run two_packets)))) = Inr (Some (two_ranges, 7)) \<and>
   (\<exists>ty bs f'. ack_Append two_ranges [] = Some (ucast ty # bs) \<and> length bs = 6 \<and>
     parseAckFrame (ack_Reset two_ranges) bs ty AckDelayExponent = Inr (f', 6) \<and>
     (\<forall>p. AcksPacket f' p = Some True \<longrightarrow> (Encryption1RTT, p) \<in> set (accepted (snd (ack_run two_packets)))))"
proof -
  have f: "fst (pack_ack Encryption1RTT 3000 True 1200 (handler (snd (ack_run two_packets)))) = Inr (Some (two_ranges, 7))" by code_simp
  then have "pack_ack Encryption1RTT 3000 True 1200 (handler (snd (ack_run two_packets))) =
      (Inr (Some (two_ranges, 7)), snd (pack_ack Encryption1RTT 3000 True 1200 (handler (snd (ack_run two_packets)))))"
    by (simp add: prod_eq_iff)
  from acks_are_truthful [OF two_packets_ok(1-3) _ this, of two_ranges "[]"] obtain ty bs f' where
    "ack_Append two_ranges [] = Some (ucast ty # bs)" "Suc (length bs) = 7"
    "parseAckFrame (ack_Reset two_ranges) (bs @ []) ty AckDelayExponent = Inr (f', length bs)"
    "\<forall>p. AcksPacket f' p = Some True \<longrightarrow> (Encryption1RTT, p) \<in> set (accepted (snd (ack_run two_packets)))" by auto
  then show ?thesis using f by (intro conjI exI [of _ ty] exI [of _ bs] exI [of _ f']) simp_all
qed

text \<open>
  C29. An ack-eliciting application packet is acknowledged in time: as soon as the maximum delay of 25 ms has passed since
  it arrived, and at once when a second one is waiting, the packer gets an ACK frame, also if it only asks for queued ones.
\<close>

theorem acks_are_prompt:
  assumes "list_all event_ok es" and "length es < 2 ^ 62" and "ack_run es = (Inr (), g)" and "50 \<le> maxSize"
    and "T \<in> set (waiting g)" and "T + MaxAckDelay \<le> now \<or> 2 \<le> length (waiting g)"
  shows "\<exists>f len h'. pack_ack Encryption1RTT now True maxSize (handler g) = (Inr (Some (f, len)), h')"
proof -
  have g: "log_ok g" "length (accepted g) < 2 ^ 62"
    using run_ok [OF initial_log_ok assms(1)] assms(2,3) by (auto simp: ack_run_def)
  then have a: "app_ok (acc Encryption1RTT (accepted g)) (length (accepted g)) (waiting g) (appDataPackets (handler g))" by (simp add: log_ok_def)
  have ne: "waiting g \<noteq> []" using assms(5) by auto
  from a have "ackQueued (appDataPackets (handler g)) \<or> (\<exists>T \<in> set (waiting g). T + MaxAckDelay \<le> now)"
    using assms(5,6) by (auto simp: app_ok_def app_core_def)
  then have "fst (handler_GetAckFrame Encryption1RTT now True (handler g)) \<noteq> None"
    using app_get_due [OF a ne, of True now] by (simp add: handler_GetAckFrame_def)
  then have "fst (pack_ack Encryption1RTT now True maxSize (handler g)) \<noteq> Inr None"
    by (auto simp: pack_ack_def split: prod.splits option.splits)
  then show ?thesis
    using SendAck_frame [OF g assms(4), of Encryption1RTT now True "fst (pack_ack Encryption1RTT now True maxSize (handler g))"]
    by (auto split: sum.splits option.splits simp: prod_eq_iff)
qed

theorem acks_are_prompt_witness:
  "\<exists>f len h'. pack_ack Encryption1RTT 2001 True 1200 (handler (snd (ack_run two_packets))) = (Inr (Some (f, len)), h')"
proof -
  have "2 \<le> length (waiting (snd (ack_run two_packets)))" by code_simp
  then show ?thesis using acks_are_prompt [OF two_packets_ok(1-3), of 1200 1000 2001] two_packets_ok(4) by simp
qed

text \<open>
  C30. A connection never runs into an ACK frame without ranges, which would make the packer or the tracker panic: the
  packets that it stops acknowledging while it handles a packet are never all it has, because that packet is recorded
  before the next frame is packed.
\<close>

theorem no_frame_panic:
  assumes "list_all event_ok es" and "length es < 2 ^ 62" and "ack_run es = (Inl x, g)"
  shows "x \<noteq> Panic ''index out of range'' \<and> x \<noteq> Panic ''invalid ACK frame''"
  using run_ok [OF initial_log_ok assms(1)] assms(2,3) by (auto simp: ack_run_def frame_panic_def)

theorem no_frame_panic_witness:
  "\<exists>x. fst (ack_run (two_packets @ [Packet 2 ECNNon Encryption1RTT 3000 True []])) = Inl x \<and> x \<noteq> Panic ''index out of range''"
proof -
  define es where "es = two_packets @ [Packet 2 ECNNon Encryption1RTT 3000 True []]"
  have "list_all event_ok es" "length es < 2 ^ 62"
    using two_packets_ok(1) by (simp_all add: es_def time_ok_def MaxAckDelay_def max_int64_def two_packets_def)
  moreover have b: "fst (ack_run es) = Inl (Bug ''ReceivedPacket called for old / duplicate packet'')" unfolding es_def by code_simp
  then have "ack_run es = (Inl (Bug ''ReceivedPacket called for old / duplicate packet''), snd (ack_run es))" by (simp add: prod_eq_iff)
  ultimately have "Bug ''ReceivedPacket called for old / duplicate packet'' \<noteq> Panic ''index out of range''"
    using no_frame_panic [of es "Bug ''ReceivedPacket called for old / duplicate packet''" "snd (ack_run es)"] by blast
  then show ?thesis using b unfolding es_def by blast
qed

end
