(* ===== verification/Quic_Frames.thy ===== *)
theory Quic_Frames
  imports Quic_Tracker "HOL-Library.Multiset"
begin

text \<open>
  The other frames (\<open>internal/wire/*_frame.go\<close>), the frame parser (\<open>frame_parser.go\<close>, \<open>frame_type.go\<close>) and the loop that
  parses the payload of a packet. Stream ids, stream counts and byte counts are signed numbers, error codes and sequence
  numbers unsigned ones. The buffers of STREAM frames are only modelled by their capacity.
\<close>

section \<open>Frame types\<close>

definition FrameTypePing :: u64 where "FrameTypePing = 0x1"
definition FrameTypeResetStream :: u64 where "FrameTypeResetStream = 0x4"
definition FrameTypeStopSending :: u64 where "FrameTypeStopSending = 0x5"
definition FrameTypeCrypto :: u64 where "FrameTypeCrypto = 0x6"
definition FrameTypeNewToken :: u64 where "FrameTypeNewToken = 0x7"
definition FrameTypeMaxData :: u64 where "FrameTypeMaxData = 0x10"
definition FrameTypeMaxStreamData :: u64 where "FrameTypeMaxStreamData = 0x11"
definition FrameTypeBidiMaxStreams :: u64 where "FrameTypeBidiMaxStreams = 0x12"
definition FrameTypeUniMaxStreams :: u64 where "FrameTypeUniMaxStreams = 0x13"
definition FrameTypeDataBlocked :: u64 where "FrameTypeDataBlocked = 0x14"
definition FrameTypeStreamDataBlocked :: u64 where "FrameTypeStreamDataBlocked = 0x15"
definition FrameTypeBidiStreamBlocked :: u64 where "FrameTypeBidiStreamBlocked = 0x16"
definition FrameTypeUniStreamBlocked :: u64 where "FrameTypeUniStreamBlocked = 0x17"
definition FrameTypeNewConnectionID :: u64 where "FrameTypeNewConnectionID = 0x18"
definition FrameTypeRetireConnectionID :: u64 where "FrameTypeRetireConnectionID = 0x19"
definition FrameTypePathChallenge :: u64 where "FrameTypePathChallenge = 0x1a"
definition FrameTypePathResponse :: u64 where "FrameTypePathResponse = 0x1b"
definition FrameTypeConnectionClose :: u64 where "FrameTypeConnectionClose = 0x1c"
definition FrameTypeApplicationClose :: u64 where "FrameTypeApplicationClose = 0x1d"
definition FrameTypeHandshakeDone :: u64 where "FrameTypeHandshakeDone = 0x1e"
definition FrameTypeResetStreamAt :: u64 where "FrameTypeResetStreamAt = 0x24"
definition FrameTypeAckFrequency :: u64 where "FrameTypeAckFrequency = 0xaf"
definition FrameTypeImmediateAck :: u64 where "FrameTypeImmediateAck = 0x1f"
definition FrameTypeDatagramNoLength :: u64 where "FrameTypeDatagramNoLength = 0x30"
definition FrameTypeDatagramWithLength :: u64 where "FrameTypeDatagramWithLength = 0x31"

definition IsStreamFrameType :: "u64 \<Rightarrow> bool" where "IsStreamFrameType t \<longleftrightarrow> t \<ge> 0x8 \<and> t \<le> 0xf"

definition isValidRFC9000 :: "u64 \<Rightarrow> bool" where "isValidRFC9000 t \<longleftrightarrow> t \<le> 0x1e"

definition IsAckFrameType :: "u64 \<Rightarrow> bool" where "IsAckFrameType t \<longleftrightarrow> t = FrameTypeAck \<or> t = FrameTypeAckECN"

definition IsDatagramFrameType :: "u64 \<Rightarrow> bool" where
  "IsDatagramFrameType t \<longleftrightarrow> t = FrameTypeDatagramNoLength \<or> t = FrameTypeDatagramWithLength"

text \<open>\<open>None\<close> is the panic on an unknown level.\<close>

definition isAllowedAtEncLevel :: "u64 \<Rightarrow> encryption_level \<Rightarrow> bool option" where
  "isAllowedAtEncLevel t encLevel =
     (case encLevel of
        EncryptionInitial \<Rightarrow>
          Some (t \<in> {FrameTypeCrypto, FrameTypeAck, FrameTypeAckECN, FrameTypeConnectionClose, FrameTypePing})
      | EncryptionHandshake \<Rightarrow>
          Some (t \<in> {FrameTypeCrypto, FrameTypeAck, FrameTypeAckECN, FrameTypeConnectionClose, FrameTypePing})
      | Encryption0RTT \<Rightarrow>
          Some (t \<notin> {FrameTypeCrypto, FrameTypeAck, FrameTypeAckECN, FrameTypeConnectionClose, FrameTypeNewToken,
                     FrameTypePathResponse, FrameTypeRetireConnectionID})
      | Encryption1RTT \<Rightarrow> Some True
      | EncryptionUnknown \<Rightarrow> None)"

section \<open>Frames\<close>

datatype stream_type = StreamTypeUni | StreamTypeBidi

record stream_frame =
  sf_StreamID :: int
  sf_Offset :: int
  sf_Data :: "byte list"
  sf_Fin :: bool
  sf_DataLenPresent :: bool

record crypto_frame =
  cf_Offset :: int
  cf_Data :: "byte list"

text \<open>The fields are in the order of the structs.\<close>

datatype frame =
  PingFrame
| AckFrame ack_frame
| ResetStreamFrame int u64 int int
| StopSendingFrame int u64
| CryptoFrame crypto_frame
| NewTokenFrame "byte list"
| StreamFrame stream_frame
| MaxDataFrame int
| MaxStreamDataFrame int int
| MaxStreamsFrame stream_type int
| DataBlockedFrame int
| StreamDataBlockedFrame int int
| StreamsBlockedFrame stream_type int
| NewConnectionIDFrame u64 u64 "byte list" "byte list"
| RetireConnectionIDFrame u64
| PathChallengeFrame "byte list"
| PathResponseFrame "byte list"
| ConnectionCloseFrame bool u64 u64 "byte list"
| HandshakeDoneFrame
| DatagramFrame bool "byte list"
| AckFrequencyFrame u64 u64 int packet_number
| ImmediateAckFrame

definition MaxStreamCount :: int where "MaxStreamCount = 2 ^ 60"
definition MaxConnIDLen :: nat where "MaxConnIDLen = 20"
definition MaxByteCount :: int where "MaxByteCount = 2 ^ 62 - 1"
definition MaxPacketBufferSize :: nat where "MaxPacketBufferSize = 1452"
definition MinStreamFrameBufferSize :: nat where "MinStreamFrameBufferSize = 128"
definition DefaultAckDelayExponent :: nat where "DefaultAckDelayExponent = 3"

section \<open>Parsing\<close>

text \<open>The check of a length against the rest of the packet, and the bytes it covers.\<close>

definition read_bytes :: "nat \<Rightarrow> (wire_err, byte list, byte list) eff" where
  "read_bytes n b = (if length b < n then (Inl EOF, b) else (Inr (take n b), drop n b))"

definition parseResetStreamFrame :: "bool \<Rightarrow> (wire_err, byte list, frame) eff" where
  "parseResetStreamFrame isResetStreamAt =
     bnd next_varint (\<lambda>streamID. bnd next_varint (\<lambda>errorCode. bnd next_varint (\<lambda>finalSize.
     bnd (if isResetStreamAt then next_varint else ret 0) (\<lambda>reliableSize.
     bnd (require (\<not> reliableSize > finalSize) (WireError ''RESET_STREAM_AT: reliable size can't be larger than final size'')) (\<lambda>_.
       ret (ResetStreamFrame (int64 streamID) errorCode (int64 finalSize) (int64 reliableSize)))))))"

definition parseStopSendingFrame :: "(wire_err, byte list, frame) eff" where
  "parseStopSendingFrame =
     bnd next_varint (\<lambda>streamID. bnd next_varint (\<lambda>errorCode. ret (StopSendingFrame (int64 streamID) errorCode)))"

definition parseCryptoFrame :: "(wire_err, byte list, frame) eff" where
  "parseCryptoFrame =
     bnd next_varint (\<lambda>offset. bnd next_varint (\<lambda>dataLen. bnd (read_bytes (unat dataLen)) (\<lambda>d.
       ret (CryptoFrame \<lparr>cf_Offset = int64 offset, cf_Data = d\<rparr>))))"

definition parseNewTokenFrame :: "(wire_err, byte list, frame) eff" where
  "parseNewTokenFrame =
     bnd next_varint (\<lambda>tokenLen.
     bnd (require (tokenLen \<noteq> 0) (WireError ''token must not be empty'')) (\<lambda>_.
     bnd (read_bytes (unat tokenLen)) (\<lambda>token. ret (NewTokenFrame token))))"

definition parseMaxDataFrame :: "(wire_err, byte list, frame) eff" where
  "parseMaxDataFrame = bnd next_varint (\<lambda>byteOffset. ret (MaxDataFrame (int64 byteOffset)))"

definition parseMaxStreamDataFrame :: "(wire_err, byte list, frame) eff" where
  "parseMaxStreamDataFrame =
     bnd next_varint (\<lambda>sid. bnd next_varint (\<lambda>offset. ret (MaxStreamDataFrame (int64 sid) (int64 offset))))"

definition parseMaxStreamsFrame :: "u64 \<Rightarrow> (wire_err, byte list, frame) eff" where
  "parseMaxStreamsFrame ft =
     bnd next_varint (\<lambda>streamID.
     bnd (require (\<not> int64 streamID > MaxStreamCount) (WireError ''exceeds the maximum stream count'')) (\<lambda>_.
       ret (MaxStreamsFrame (if ft = FrameTypeBidiMaxStreams then StreamTypeBidi else StreamTypeUni) (int64 streamID))))"

definition parseDataBlockedFrame :: "(wire_err, byte list, frame) eff" where
  "parseDataBlockedFrame = bnd next_varint (\<lambda>offset. ret (DataBlockedFrame (int64 offset)))"

definition parseStreamDataBlockedFrame :: "(wire_err, byte list, frame) eff" where
  "parseStreamDataBlockedFrame =
     bnd next_varint (\<lambda>sid. bnd next_varint (\<lambda>offset. ret (StreamDataBlockedFrame (int64 sid) (int64 offset))))"

definition parseStreamsBlockedFrame :: "u64 \<Rightarrow> (wire_err, byte list, frame) eff" where
  "parseStreamsBlockedFrame ft =
     bnd next_varint (\<lambda>streamLimit.
     bnd (require (\<not> int64 streamLimit > MaxStreamCount) (WireError ''exceeds the maximum stream count'')) (\<lambda>_.
       ret (StreamsBlockedFrame (if ft = FrameTypeBidiStreamBlocked then StreamTypeBidi else StreamTypeUni) (int64 streamLimit))))"

definition ErrInvalidConnectionIDLen :: wire_err where
  "ErrInvalidConnectionIDLen = WireError ''invalid Connection ID length''"

definition parseNewConnectionIDFrame :: "(wire_err, byte list, frame) eff" where
  "parseNewConnectionIDFrame =
     bnd next_varint (\<lambda>seq. bnd next_varint (\<lambda>re.
     bnd (require (\<not> re > seq) (WireError ''Retire Prior To value larger than Sequence Number'')) (\<lambda>_.
     bnd (read_bytes 1) (\<lambda>l.
       let connIDLen = unat (hd l) in
       bnd (require (connIDLen \<noteq> 0) (WireError ''invalid zero-length connection ID'')) (\<lambda>_.
       bnd (require (\<not> connIDLen > MaxConnIDLen) ErrInvalidConnectionIDLen) (\<lambda>_.
       bnd (read_bytes connIDLen) (\<lambda>connectionID.
       bnd (read_bytes 16) (\<lambda>token.
         ret (NewConnectionIDFrame seq re connectionID token)))))))))"

definition parseRetireConnectionIDFrame :: "(wire_err, byte list, frame) eff" where
  "parseRetireConnectionIDFrame = bnd next_varint (\<lambda>seq. ret (RetireConnectionIDFrame seq))"

definition parsePathChallengeFrame :: "(wire_err, byte list, frame) eff" where
  "parsePathChallengeFrame = bnd (read_bytes 8) (\<lambda>d. ret (PathChallengeFrame d))"

definition parsePathResponseFrame :: "(wire_err, byte list, frame) eff" where
  "parsePathResponseFrame = bnd (read_bytes 8) (\<lambda>d. ret (PathResponseFrame d))"

definition parseConnectionCloseFrame :: "u64 \<Rightarrow> (wire_err, byte list, frame) eff" where
  "parseConnectionCloseFrame ft =
     (let isApplicationError = (ft = FrameTypeApplicationClose) in
      bnd next_varint (\<lambda>ec.
      bnd (if \<not> isApplicationError then next_varint else ret 0) (\<lambda>frameType.
      bnd next_varint (\<lambda>reasonPhraseLen.
      bnd (read_bytes (unat reasonPhraseLen)) (\<lambda>reasonPhrase.
        ret (ConnectionCloseFrame isApplicationError ec frameType reasonPhrase))))))"

definition parseAckFrequencyFrame :: "(wire_err, byte list, frame) eff" where
  "parseAckFrequencyFrame =
     bnd next_varint (\<lambda>seq. bnd next_varint (\<lambda>aeth. bnd next_varint (\<lambda>mad.
       let maxAckDelay = wrap64 (int64 mad * 1000);
           maxAckDelay = (if maxAckDelay < 0 then max_int64 else maxAckDelay)
       in bnd next_varint (\<lambda>rth. ret (AckFrequencyFrame seq aeth maxAckDelay (int64 rth))))))"

definition parseDatagramFrame :: "u64 \<Rightarrow> (wire_err, byte list, frame) eff" where
  "parseDatagramFrame ft =
     (let dataLenPresent = (ft AND 0x1 > 0) in
      bnd (if dataLenPresent then bnd next_varint (\<lambda>len. ret (unat len)) else gets length) (\<lambda>len.
      bnd (read_bytes len) (\<lambda>d. ret (DatagramFrame dataLenPresent d))))"

text \<open>A frame of at least 128 bytes gets a buffer of the size of the largest packet.\<close>

definition ParseStreamFrame :: "u64 \<Rightarrow> (wire_err, byte list, frame) eff" where
  "ParseStreamFrame ft =
     (let hasOffset = (ft AND 0b100 > 0); fin = (ft AND 0b1 > 0); hasDataLen = (ft AND 0b10 > 0) in
      bnd next_varint (\<lambda>streamID.
      bnd (if hasOffset then next_varint else ret 0) (\<lambda>offset.
      bnd (if hasDataLen then bnd next_varint (\<lambda>len. ret (unat len)) else gets length) (\<lambda>dataLen.
      bnd (gets length) (\<lambda>rest.
      bnd (require (\<not> dataLen > rest) EOF) (\<lambda>_.
      bnd (require (dataLen < MinStreamFrameBufferSize \<or> \<not> dataLen > MaxPacketBufferSize) EOF) (\<lambda>_.
      bnd (read_bytes dataLen) (\<lambda>d.
      bnd (require (\<not> int64 offset + int (length d) > MaxByteCount) (WireError ''stream data overflows maximum offset'')) (\<lambda>_.
        ret (StreamFrame \<lparr>sf_StreamID = int64 streamID, sf_Offset = int64 offset, sf_Data = d, sf_Fin = fin,
                          sf_DataLenPresent = hasDataLen\<rparr>))))))))))"

section \<open>Writing\<close>

datatype append_err = VarintPanic | AppendError string

type_synonym appended = "append_err + byte list"

text \<open>Varints behind what is already written.\<close>

definition put :: "u64 list \<Rightarrow> byte list \<Rightarrow> appended" where
  "put vs b = (case append_varints vs b of None \<Rightarrow> Inl VarintPanic | Some b \<Rightarrow> Inr b)"

definition put_data :: "u64 list \<Rightarrow> byte list \<Rightarrow> byte list \<Rightarrow> appended" where
  "put_data vs d b = map_sum id (\<lambda>b. b @ d) (put vs b)"

definition PingFrame_Append :: "byte list \<Rightarrow> appended" where
  "PingFrame_Append b = Inr (b @ [ucast FrameTypePing])"

definition HandshakeDoneFrame_Append :: "byte list \<Rightarrow> appended" where
  "HandshakeDoneFrame_Append b = Inr (b @ [ucast FrameTypeHandshakeDone])"

definition ImmediateAckFrame_Append :: "byte list \<Rightarrow> appended" where
  "ImmediateAckFrame_Append b = put [FrameTypeImmediateAck] b"

definition ResetStreamFrame_Append :: "int \<Rightarrow> u64 \<Rightarrow> int \<Rightarrow> int \<Rightarrow> byte list \<Rightarrow> appended" where
  "ResetStreamFrame_Append streamID errorCode finalSize reliableSize b =
     put ([if reliableSize = 0 then FrameTypeResetStream else FrameTypeResetStreamAt, uint64 streamID, errorCode, uint64 finalSize] @
          (if reliableSize > 0 then [uint64 reliableSize] else [])) b"

definition StopSendingFrame_Append :: "int \<Rightarrow> u64 \<Rightarrow> byte list \<Rightarrow> appended" where
  "StopSendingFrame_Append streamID errorCode b = put [uint64 streamID, errorCode] (b @ [ucast FrameTypeStopSending])"

definition CryptoFrame_Append :: "crypto_frame \<Rightarrow> byte list \<Rightarrow> appended" where
  "CryptoFrame_Append f b =
     put_data [uint64 (cf_Offset f), of_nat (length (cf_Data f))] (cf_Data f) (b @ [ucast FrameTypeCrypto])"

definition NewTokenFrame_Append :: "byte list \<Rightarrow> byte list \<Rightarrow> appended" where
  "NewTokenFrame_Append token b = put_data [of_nat (length token)] token (b @ [ucast FrameTypeNewToken])"

definition MaxDataFrame_Append :: "int \<Rightarrow> byte list \<Rightarrow> appended" where
  "MaxDataFrame_Append maximumData b = put [uint64 maximumData] (b @ [ucast FrameTypeMaxData])"

definition MaxStreamDataFrame_Append :: "int \<Rightarrow> int \<Rightarrow> byte list \<Rightarrow> appended" where
  "MaxStreamDataFrame_Append streamID maximumStreamData b =
     put [uint64 streamID, uint64 maximumStreamData] (b @ [ucast FrameTypeMaxStreamData])"

definition MaxStreamsFrame_Append :: "stream_type \<Rightarrow> int \<Rightarrow> byte list \<Rightarrow> appended" where
  "MaxStreamsFrame_Append t maxStreamNum b =
     put [uint64 maxStreamNum]
       (b @ [ucast (case t of StreamTypeBidi \<Rightarrow> FrameTypeBidiMaxStreams | StreamTypeUni \<Rightarrow> FrameTypeUniMaxStreams)])"

definition DataBlockedFrame_Append :: "int \<Rightarrow> byte list \<Rightarrow> appended" where
  "DataBlockedFrame_Append maximumData b = put [uint64 maximumData] (b @ [ucast FrameTypeDataBlocked])"

definition StreamDataBlockedFrame_Append :: "int \<Rightarrow> int \<Rightarrow> byte list \<Rightarrow> appended" where
  "StreamDataBlockedFrame_Append streamID maximumStreamData b = put [uint64 streamID, uint64 maximumStreamData] (b @ [0x15])"

definition StreamsBlockedFrame_Append :: "stream_type \<Rightarrow> int \<Rightarrow> byte list \<Rightarrow> appended" where
  "StreamsBlockedFrame_Append t streamLimit b =
     put [uint64 streamLimit]
       (b @ [ucast (case t of StreamTypeBidi \<Rightarrow> FrameTypeBidiStreamBlocked | StreamTypeUni \<Rightarrow> FrameTypeUniStreamBlocked)])"

definition NewConnectionIDFrame_Append :: "u64 \<Rightarrow> u64 \<Rightarrow> byte list \<Rightarrow> byte list \<Rightarrow> byte list \<Rightarrow> appended" where
  "NewConnectionIDFrame_Append sequenceNumber retirePriorTo connectionID token b =
     (case put [sequenceNumber, retirePriorTo] (b @ [ucast FrameTypeNewConnectionID]) of
        Inl e \<Rightarrow> Inl e
      | Inr b \<Rightarrow>
          let connIDLen = length connectionID in
          if connIDLen > MaxConnIDLen then Inl (AppendError ''invalid connection ID length'')
          else Inr (b @ [of_nat connIDLen] @ connectionID @ token))"

definition RetireConnectionIDFrame_Append :: "u64 \<Rightarrow> byte list \<Rightarrow> appended" where
  "RetireConnectionIDFrame_Append sequenceNumber b = put [sequenceNumber] (b @ [ucast FrameTypeRetireConnectionID])"

definition PathChallengeFrame_Append :: "byte list \<Rightarrow> byte list \<Rightarrow> appended" where
  "PathChallengeFrame_Append d b = Inr (b @ [ucast FrameTypePathChallenge] @ d)"

definition PathResponseFrame_Append :: "byte list \<Rightarrow> byte list \<Rightarrow> appended" where
  "PathResponseFrame_Append d b = Inr (b @ [ucast FrameTypePathResponse] @ d)"

definition ConnectionCloseFrame_Append :: "bool \<Rightarrow> u64 \<Rightarrow> u64 \<Rightarrow> byte list \<Rightarrow> byte list \<Rightarrow> appended" where
  "ConnectionCloseFrame_Append isApplicationError errorCode frameType reasonPhrase b =
     put_data ([errorCode] @ (if \<not> isApplicationError then [frameType] else []) @ [of_nat (length reasonPhrase)]) reasonPhrase
       (b @ [ucast (if isApplicationError then FrameTypeApplicationClose else FrameTypeConnectionClose)])"

definition DatagramFrame_Append :: "bool \<Rightarrow> byte list \<Rightarrow> byte list \<Rightarrow> appended" where
  "DatagramFrame_Append dataLenPresent d b =
     (let ty = (if dataLenPresent then 0x30 XOR 0b1 else 0x30) in
      put_data (if dataLenPresent then [of_nat (length d)] else []) d (b @ [ty]))"

definition AckFrequencyFrame_Append :: "u64 \<Rightarrow> u64 \<Rightarrow> int \<Rightarrow> packet_number \<Rightarrow> byte list \<Rightarrow> appended" where
  "AckFrequencyFrame_Append sequenceNumber ackElicitingThreshold requestMaxAckDelay threshold b =
     put [FrameTypeAckFrequency, sequenceNumber, ackElicitingThreshold, uint64 (quo requestMaxAckDelay 1000), uint64 threshold] b"

definition StreamFrame_Append :: "stream_frame \<Rightarrow> byte list \<Rightarrow> appended" where
  "StreamFrame_Append f b =
     (if sf_Data f = [] \<and> \<not> sf_Fin f then Inl (AppendError ''StreamFrame: attempting to write empty frame without FIN'')
      else
        (let ty = 0x8;
             ty = (if sf_Fin f then ty XOR 0b1 else ty);
             hasOffset = (sf_Offset f \<noteq> 0);
             ty = (if sf_DataLenPresent f then ty XOR 0b10 else ty);
             ty = (if hasOffset then ty XOR 0b100 else ty)
         in put_data ([uint64 (sf_StreamID f)] @ (if hasOffset then [uint64 (sf_Offset f)] else []) @
                      (if sf_DataLenPresent f then [of_nat (length (sf_Data f))] else [])) (sf_Data f) (b @ [ty])))"

definition frame_Append :: "frame \<Rightarrow> byte list \<Rightarrow> appended" where
  "frame_Append f =
     (case f of
        PingFrame \<Rightarrow> PingFrame_Append
      | AckFrame a \<Rightarrow> (\<lambda>b. case ack_Append a b of None \<Rightarrow> Inl VarintPanic | Some b \<Rightarrow> Inr b)
      | ResetStreamFrame sid ec fs rs \<Rightarrow> ResetStreamFrame_Append sid ec fs rs
      | StopSendingFrame sid ec \<Rightarrow> StopSendingFrame_Append sid ec
      | CryptoFrame c \<Rightarrow> CryptoFrame_Append c
      | NewTokenFrame t \<Rightarrow> NewTokenFrame_Append t
      | StreamFrame s \<Rightarrow> StreamFrame_Append s
      | MaxDataFrame m \<Rightarrow> MaxDataFrame_Append m
      | MaxStreamDataFrame sid m \<Rightarrow> MaxStreamDataFrame_Append sid m
      | MaxStreamsFrame t m \<Rightarrow> MaxStreamsFrame_Append t m
      | DataBlockedFrame m \<Rightarrow> DataBlockedFrame_Append m
      | StreamDataBlockedFrame sid m \<Rightarrow> StreamDataBlockedFrame_Append sid m
      | StreamsBlockedFrame t m \<Rightarrow> StreamsBlockedFrame_Append t m
      | NewConnectionIDFrame s r c t \<Rightarrow> NewConnectionIDFrame_Append s r c t
      | RetireConnectionIDFrame s \<Rightarrow> RetireConnectionIDFrame_Append s
      | PathChallengeFrame d \<Rightarrow> PathChallengeFrame_Append d
      | PathResponseFrame d \<Rightarrow> PathResponseFrame_Append d
      | ConnectionCloseFrame a e ft r \<Rightarrow> ConnectionCloseFrame_Append a e ft r
      | HandshakeDoneFrame \<Rightarrow> HandshakeDoneFrame_Append
      | DatagramFrame p d \<Rightarrow> DatagramFrame_Append p d
      | AckFrequencyFrame s a d r \<Rightarrow> AckFrequencyFrame_Append s a d r
      | ImmediateAckFrame \<Rightarrow> ImmediateAckFrame_Append)"

section \<open>Lengths\<close>

text \<open>\<open>None\<close> is a panic of \<open>Len\<close>.\<close>

definition len_of :: "nat \<Rightarrow> u64 list \<Rightarrow> nat option" where
  "len_of n vs = map_option ((+) n) (sum_len vs)"

definition ResetStreamFrame_Length :: "int \<Rightarrow> u64 \<Rightarrow> int \<Rightarrow> int \<Rightarrow> nat option" where
  "ResetStreamFrame_Length streamID errorCode finalSize reliableSize =
     len_of 1 ((if reliableSize > 0 then [uint64 reliableSize] else []) @ [uint64 streamID, errorCode, uint64 finalSize])"

definition StopSendingFrame_Length :: "int \<Rightarrow> u64 \<Rightarrow> nat option" where
  "StopSendingFrame_Length streamID errorCode = len_of 1 [uint64 streamID, errorCode]"

definition CryptoFrame_Length :: "crypto_frame \<Rightarrow> nat option" where
  "CryptoFrame_Length f = len_of (1 + length (cf_Data f)) [uint64 (cf_Offset f), of_nat (length (cf_Data f))]"

definition NewTokenFrame_Length :: "byte list \<Rightarrow> nat option" where
  "NewTokenFrame_Length token = len_of (1 + length token) [of_nat (length token)]"

definition MaxDataFrame_Length :: "int \<Rightarrow> nat option" where
  "MaxDataFrame_Length maximumData = len_of 1 [uint64 maximumData]"

definition MaxStreamDataFrame_Length :: "int \<Rightarrow> int \<Rightarrow> nat option" where
  "MaxStreamDataFrame_Length streamID maximumStreamData = len_of 1 [uint64 streamID, uint64 maximumStreamData]"

definition MaxStreamsFrame_Length :: "int \<Rightarrow> nat option" where
  "MaxStreamsFrame_Length maxStreamNum = len_of 1 [uint64 maxStreamNum]"

definition DataBlockedFrame_Length :: "int \<Rightarrow> nat option" where
  "DataBlockedFrame_Length maximumData = len_of 1 [uint64 maximumData]"

definition StreamDataBlockedFrame_Length :: "int \<Rightarrow> int \<Rightarrow> nat option" where
  "StreamDataBlockedFrame_Length streamID maximumStreamData = len_of 1 [uint64 streamID, uint64 maximumStreamData]"

definition StreamsBlockedFrame_Length :: "int \<Rightarrow> nat option" where
  "StreamsBlockedFrame_Length streamLimit = len_of 1 [uint64 streamLimit]"

definition NewConnectionIDFrame_Length :: "u64 \<Rightarrow> u64 \<Rightarrow> byte list \<Rightarrow> nat option" where
  "NewConnectionIDFrame_Length sequenceNumber retirePriorTo connectionID =
     len_of (1 + 1 + length connectionID + 16) [sequenceNumber, retirePriorTo]"

definition RetireConnectionIDFrame_Length :: "u64 \<Rightarrow> nat option" where
  "RetireConnectionIDFrame_Length sequenceNumber = len_of 1 [sequenceNumber]"

definition ConnectionCloseFrame_Length :: "bool \<Rightarrow> u64 \<Rightarrow> u64 \<Rightarrow> byte list \<Rightarrow> nat option" where
  "ConnectionCloseFrame_Length isApplicationError errorCode frameType reasonPhrase =
     len_of (1 + length reasonPhrase) ([errorCode, of_nat (length reasonPhrase)] @ (if \<not> isApplicationError then [frameType] else []))"

definition DatagramFrame_Length :: "bool \<Rightarrow> byte list \<Rightarrow> nat option" where
  "DatagramFrame_Length dataLenPresent d = len_of (1 + length d) (if dataLenPresent then [of_nat (length d)] else [])"

definition AckFrequencyFrame_Length :: "u64 \<Rightarrow> u64 \<Rightarrow> int \<Rightarrow> packet_number \<Rightarrow> nat option" where
  "AckFrequencyFrame_Length sequenceNumber ackElicitingThreshold requestMaxAckDelay threshold =
     len_of 2 [sequenceNumber, ackElicitingThreshold, uint64 (quo requestMaxAckDelay 1000), uint64 threshold]"

definition StreamFrame_Length :: "stream_frame \<Rightarrow> nat option" where
  "StreamFrame_Length f =
     len_of (1 + length (sf_Data f)) ([uint64 (sf_StreamID f)] @ (if sf_Offset f \<noteq> 0 then [uint64 (sf_Offset f)] else []) @
       (if sf_DataLenPresent f then [of_nat (length (sf_Data f))] else []))"

definition frame_Length :: "frame \<Rightarrow> nat option" where
  "frame_Length f =
     (case f of
        PingFrame \<Rightarrow> Some 1
      | AckFrame a \<Rightarrow> ack_Length a
      | ResetStreamFrame sid ec fs rs \<Rightarrow> ResetStreamFrame_Length sid ec fs rs
      | StopSendingFrame sid ec \<Rightarrow> StopSendingFrame_Length sid ec
      | CryptoFrame c \<Rightarrow> CryptoFrame_Length c
      | NewTokenFrame t \<Rightarrow> NewTokenFrame_Length t
      | StreamFrame s \<Rightarrow> StreamFrame_Length s
      | MaxDataFrame m \<Rightarrow> MaxDataFrame_Length m
      | MaxStreamDataFrame sid m \<Rightarrow> MaxStreamDataFrame_Length sid m
      | MaxStreamsFrame t m \<Rightarrow> MaxStreamsFrame_Length m
      | DataBlockedFrame m \<Rightarrow> DataBlockedFrame_Length m
      | StreamDataBlockedFrame sid m \<Rightarrow> StreamDataBlockedFrame_Length sid m
      | StreamsBlockedFrame t m \<Rightarrow> StreamsBlockedFrame_Length m
      | NewConnectionIDFrame s r c t \<Rightarrow> NewConnectionIDFrame_Length s r c
      | RetireConnectionIDFrame s \<Rightarrow> RetireConnectionIDFrame_Length s
      | PathChallengeFrame d \<Rightarrow> Some (1 + 8)
      | PathResponseFrame d \<Rightarrow> Some (1 + 8)
      | ConnectionCloseFrame a e ft r \<Rightarrow> ConnectionCloseFrame_Length a e ft r
      | HandshakeDoneFrame \<Rightarrow> Some 1
      | DatagramFrame p d \<Rightarrow> DatagramFrame_Length p d
      | AckFrequencyFrame s a d r \<Rightarrow> AckFrequencyFrame_Length s a d r
      | ImmediateAckFrame \<Rightarrow> len_of 0 [FrameTypeImmediateAck])"

section \<open>The frame parser\<close>

datatype frame_err = FrameEOF | FrameEncodingError u64 wire_err | FramePanic

record FrameParser =
  fp_ackDelayExponent :: nat
  supportsDatagrams :: bool
  supportsResetStreamAt :: bool
  supportsAckFrequency :: bool

definition errUnknownFrameType :: wire_err where
  "errUnknownFrameType = WireError ''unknown frame type''"

definition valid_type :: "FrameParser \<Rightarrow> u64 \<Rightarrow> bool" where
  "valid_type p ft \<longleftrightarrow>
     isValidRFC9000 ft \<or> (supportsDatagrams p \<and> IsDatagramFrameType ft) \<or> (supportsResetStreamAt p \<and> ft = FrameTypeResetStreamAt) \<or>
     (supportsAckFrequency p \<and> (ft = FrameTypeAckFrequency \<or> ft = FrameTypeImmediateAck))"

lemma Parse_consumes: "quicvarint_Parse b = Inr (v, l) \<Longrightarrow> 0 < l \<and> l \<le> length b"
  using Parse_bounds [of b] by auto

text \<open>\<open>ParseType\<close> skips PADDING; it returns the type and the number of bytes before the body of the frame.\<close>

function ParseType :: "FrameParser \<Rightarrow> encryption_level \<Rightarrow> byte list \<Rightarrow> frame_err + u64 \<times> nat" where
  "ParseType p encLevel b =
     (if b = [] then Inl FrameEOF
      else
        (case quicvarint_Parse b of
           Inl e \<Rightarrow> Inl (FrameEncodingError 0 e)
         | Inr (ft, l) \<Rightarrow>
             if ft = 0 then map_sum id (\<lambda>(ft, n). (ft, l + n)) (ParseType p encLevel (drop l b))
             else if \<not> valid_type p ft then Inl (FrameEncodingError ft errUnknownFrameType)
             else
               (case isAllowedAtEncLevel ft encLevel of
                  None \<Rightarrow> Inl FramePanic
                | Some allowed \<Rightarrow>
                    if \<not> allowed then Inl (FrameEncodingError ft (WireError ''not allowed at encryption level'')) else Inr (ft, l))))"
  by pat_completeness auto

termination
  by (relation "measure (\<lambda>(p, l, b). length b)") (auto dest: Parse_consumes)

declare ParseType.simps [simp del]

definition encoding_error :: "u64 \<Rightarrow> (wire_err, byte list, 'a) eff \<Rightarrow> (frame_err, byte list, 'a) eff" where
  "encoding_error ft m b = map_prod (map_sum (FrameEncodingError ft) id) id (m b)"

definition parser_ParseStreamFrame :: "u64 \<Rightarrow> (frame_err, byte list, frame) eff" where
  "parser_ParseStreamFrame ft = encoding_error ft (ParseStreamFrame ft)"

definition parser_ParseDatagramFrame :: "u64 \<Rightarrow> (frame_err, byte list, frame) eff" where
  "parser_ParseDatagramFrame ft = encoding_error ft (parseDatagramFrame ft)"

definition parser_ParseAckFrame :: "FrameParser \<Rightarrow> encryption_level \<Rightarrow> u64 \<Rightarrow> (frame_err, byte list, frame) eff" where
  "parser_ParseAckFrame p encLevel ft b =
     (let ackDelayExponent = (if encLevel \<noteq> Encryption1RTT then DefaultAckDelayExponent else fp_ackDelayExponent p);
          fresh = ack_Reset \<lparr>AckRanges = [], DelayTime = 0, ECT0 = 0, ECT1 = 0, ECNCE = 0\<rparr>
      in case parseAckFrame fresh b ft ackDelayExponent of
           Inl e \<Rightarrow> (Inl (FrameEncodingError ft e), b)
         | Inr (f, l) \<Rightarrow> (Inr (AckFrame f), drop l b))"

definition ParseLessCommonFrame :: "u64 \<Rightarrow> (frame_err, byte list, frame) eff" where
  "ParseLessCommonFrame ft =
     encoding_error ft
       (if ft = FrameTypePing then ret PingFrame
        else if ft = FrameTypeResetStream then parseResetStreamFrame False
        else if ft = FrameTypeStopSending then parseStopSendingFrame
        else if ft = FrameTypeCrypto then parseCryptoFrame
        else if ft = FrameTypeNewToken then parseNewTokenFrame
        else if ft = FrameTypeMaxData then parseMaxDataFrame
        else if ft = FrameTypeMaxStreamData then parseMaxStreamDataFrame
        else if ft = FrameTypeBidiMaxStreams \<or> ft = FrameTypeUniMaxStreams then parseMaxStreamsFrame ft
        else if ft = FrameTypeDataBlocked then parseDataBlockedFrame
        else if ft = FrameTypeStreamDataBlocked then parseStreamDataBlockedFrame
        else if ft = FrameTypeBidiStreamBlocked \<or> ft = FrameTypeUniStreamBlocked then parseStreamsBlockedFrame ft
        else if ft = FrameTypeNewConnectionID then parseNewConnectionIDFrame
        else if ft = FrameTypeRetireConnectionID then parseRetireConnectionIDFrame
        else if ft = FrameTypePathChallenge then parsePathChallengeFrame
        else if ft = FrameTypePathResponse then parsePathResponseFrame
        else if ft = FrameTypeConnectionClose \<or> ft = FrameTypeApplicationClose then parseConnectionCloseFrame ft
        else if ft = FrameTypeHandshakeDone then ret HandshakeDoneFrame
        else if ft = FrameTypeResetStreamAt then parseResetStreamFrame True
        else if ft = FrameTypeAckFrequency then parseAckFrequencyFrame
        else if ft = FrameTypeImmediateAck then ret ImmediateAckFrame
        else fail errUnknownFrameType)"

text \<open>The dispatch of \<open>handleFrames\<close>.\<close>

definition parse_body :: "FrameParser \<Rightarrow> encryption_level \<Rightarrow> u64 \<Rightarrow> (frame_err, byte list, frame) eff" where
  "parse_body p encLevel ft =
     (if IsStreamFrameType ft then parser_ParseStreamFrame ft
      else if IsAckFrameType ft then parser_ParseAckFrame p encLevel ft
      else if IsDatagramFrameType ft then parser_ParseDatagramFrame ft
      else ParseLessCommonFrame ft)"

lemma ParseType_consumes: "ParseType p l b = Inr (ft, n) \<Longrightarrow> 0 < n \<and> n \<le> length b"
proof (induction p l b arbitrary: n rule: ParseType.induct)
  case (1 p encLevel b)
  obtain v l where v: "quicvarint_Parse b = Inr (v, l)" "b \<noteq> []"
    using "1.prems" by (auto simp: ParseType.simps [of p encLevel b] split: if_splits sum.splits)
  note s = "1.prems" [unfolded ParseType.simps [of p encLevel b]]
  show ?case
  proof (cases "v = 0")
    case True
    then obtain m where "ParseType p encLevel (drop l b) = Inr (ft, m)" "n = l + m"
      using s v by (auto simp: map_sum_def split: sum.splits)
    with "1.IH" [OF v(2,1) refl True] Parse_consumes [OF v(1)] show ?thesis by auto
  next
    case False
    then have "n = l" using s v by (auto split: if_splits option.splits)
    then show ?thesis using Parse_consumes [OF v(1)] by simp
  qed
qed

text \<open>A parser never leaves more than it got.\<close>

definition shrinks :: "('e, 'x list, 'a) eff \<Rightarrow> bool" where
  "shrinks m \<longleftrightarrow> (\<forall>b. length (snd (m b)) \<le> length b)"

lemma shrinks_basic: "shrinks (ret x)" "shrinks (fail e)" "shrinks (require c e)" "shrinks (gets f)" "shrinks (read_bytes n)" "shrinks next_varint"
  by (auto simp: shrinks_def ret_apply fail_apply require_apply gets_apply read_bytes_def next_varint_def split: sum.splits)

lemma shrinks_bnd: "shrinks m \<Longrightarrow> (\<And>x. shrinks (f x)) \<Longrightarrow> shrinks (bnd m f)"
  unfolding shrinks_def
proof
  fix b
  assume m: "\<forall>b. length (snd (m b)) \<le> length b" and f: "\<And>x. \<forall>b. length (snd (f x b)) \<le> length b"
  show "length (snd (bnd m f b)) \<le> length b"
    using m [rule_format, of b] f [rule_format, of _ "snd (m b)"] by (cases "m b"; cases "fst (m b)") (auto simp: bnd_apply intro: le_trans)
qed

lemma shrinks_encoding_error: "shrinks m \<Longrightarrow> shrinks (encoding_error ft m)"
  by (simp add: shrinks_def encoding_error_def)

lemma shrinks_if: "shrinks m \<Longrightarrow> shrinks m' \<Longrightarrow> shrinks (if c then m else m')"
  by simp

lemmas shrinks_intros = shrinks_basic shrinks_bnd shrinks_if shrinks_encoding_error

lemmas parser_defs = parseResetStreamFrame_def parseStopSendingFrame_def parseCryptoFrame_def parseNewTokenFrame_def
  parseMaxDataFrame_def parseMaxStreamDataFrame_def parseMaxStreamsFrame_def parseDataBlockedFrame_def
  parseStreamDataBlockedFrame_def parseStreamsBlockedFrame_def parseNewConnectionIDFrame_def parseRetireConnectionIDFrame_def
  parsePathChallengeFrame_def parsePathResponseFrame_def parseConnectionCloseFrame_def parseAckFrequencyFrame_def

lemma shrinks_parse_body: "shrinks (parse_body p encLevel ft)"
proof -
  have "shrinks (parser_ParseAckFrame p encLevel ft)" by (auto simp: shrinks_def parser_ParseAckFrame_def Let_def split: sum.splits)
  then show ?thesis
    unfolding parse_body_def parser_ParseStreamFrame_def parser_ParseDatagramFrame_def ParseLessCommonFrame_def ParseStreamFrame_def
      parseDatagramFrame_def parser_defs Let_def
    by (intro shrinks_intros)
qed

lemma payload_progress:
  assumes "parse_body p encLevel ft (drop l b) = (y, rest)" and "ParseType p encLevel b = Inr (ft, l)"
  shows "length rest < length b"
proof -
  have "length rest \<le> length (drop l b)" using shrinks_parse_body [of p encLevel ft] assms(1) unfolding shrinks_def by (metis snd_conv)
  then show ?thesis using ParseType_consumes [OF assms(2)] by auto
qed

text \<open>
  The parsing of all frames of a packet, as in \<open>handleFrames\<close>: PADDING at the end is no error. \<open>Inl (e, fs)\<close> is an error
  after the frames \<open>fs\<close>. What is handled of the frames is not part of this theory.
\<close>

definition after :: "frame list \<Rightarrow> (frame_err \<times> frame list) + frame list \<Rightarrow> (frame_err \<times> frame list) + frame list" where
  "after fs r = (case r of Inl (e, gs) \<Rightarrow> Inl (e, fs @ gs) | Inr gs \<Rightarrow> Inr (fs @ gs))"

lemma after_simps [simp]: "after [] r = r" "after fs (after gs r) = after (fs @ gs) r" "after fs (Inr gs) = Inr (fs @ gs)"
  by (simp_all add: after_def split: sum.splits prod.splits)

function parse_payload :: "FrameParser \<Rightarrow> encryption_level \<Rightarrow> byte list \<Rightarrow> (frame_err \<times> frame list) + frame list" where
  "parse_payload p encLevel b =
     (if b = [] then Inr []
      else
        (case ParseType p encLevel b of
           Inl e \<Rightarrow> if e = FrameEOF then Inr [] else Inl (e, [])
         | Inr (ft, l) \<Rightarrow>
             (case parse_body p encLevel ft (drop l b) of
                (Inl e, _) \<Rightarrow> Inl (e, [])
              | (Inr f, rest) \<Rightarrow> after [f] (parse_payload p encLevel rest))))"
  by pat_completeness auto

termination
  by (relation "measure (\<lambda>(p, l, b). length b)") (auto dest: payload_progress [OF sym])

declare parse_payload.simps [simp del]

section \<open>What is written\<close>

definition num62 :: "int \<Rightarrow> bool" where "num62 x \<longleftrightarrow> 0 \<le> x \<and> x < 2 ^ 62"

fun frame_ok :: "frame \<Rightarrow> bool" where
  "frame_ok (AckFrame a) \<longleftrightarrow> ack_ok a"
| "frame_ok (ResetStreamFrame sid ec fs rs) \<longleftrightarrow> num62 sid \<and> ec \<le> maxVarInt8 \<and> num62 fs \<and> 0 \<le> rs \<and> rs \<le> fs"
| "frame_ok (StopSendingFrame sid ec) \<longleftrightarrow> num62 sid \<and> ec \<le> maxVarInt8"
| "frame_ok (CryptoFrame c) \<longleftrightarrow> num62 (cf_Offset c) \<and> length (cf_Data c) < 2 ^ 62"
| "frame_ok (NewTokenFrame t) \<longleftrightarrow> t \<noteq> [] \<and> length t < 2 ^ 62"
| "frame_ok (StreamFrame s) \<longleftrightarrow> num62 (sf_StreamID s) \<and> 0 \<le> sf_Offset s \<and> sf_Offset s + int (length (sf_Data s)) \<le> MaxByteCount \<and>
     (sf_Data s \<noteq> [] \<or> sf_Fin s) \<and> length (sf_Data s) \<le> MaxPacketBufferSize"
| "frame_ok (MaxDataFrame m) \<longleftrightarrow> num62 m"
| "frame_ok (MaxStreamDataFrame sid m) \<longleftrightarrow> num62 sid \<and> num62 m"
| "frame_ok (MaxStreamsFrame t m) \<longleftrightarrow> 0 \<le> m \<and> m \<le> MaxStreamCount"
| "frame_ok (DataBlockedFrame m) \<longleftrightarrow> num62 m"
| "frame_ok (StreamDataBlockedFrame sid m) \<longleftrightarrow> num62 sid \<and> num62 m"
| "frame_ok (StreamsBlockedFrame t m) \<longleftrightarrow> 0 \<le> m \<and> m \<le> MaxStreamCount"
| "frame_ok (NewConnectionIDFrame s r c t) \<longleftrightarrow> s \<le> maxVarInt8 \<and> r \<le> s \<and> c \<noteq> [] \<and> length c \<le> MaxConnIDLen \<and> length t = 16"
| "frame_ok (RetireConnectionIDFrame s) \<longleftrightarrow> s \<le> maxVarInt8"
| "frame_ok (PathChallengeFrame d) \<longleftrightarrow> length d = 8"
| "frame_ok (PathResponseFrame d) \<longleftrightarrow> length d = 8"
| "frame_ok (ConnectionCloseFrame a e ft r) \<longleftrightarrow> e \<le> maxVarInt8 \<and> ft \<le> maxVarInt8 \<and> length r < 2 ^ 62"
| "frame_ok (DatagramFrame p d) \<longleftrightarrow> length d < 2 ^ 62"
| "frame_ok (AckFrequencyFrame s a d r) \<longleftrightarrow> s \<le> maxVarInt8 \<and> a \<le> maxVarInt8 \<and> 0 \<le> d \<and> d \<le> max_int64 \<and> num62 r"
| "frame_ok _ \<longleftrightarrow> True"

text \<open>What the peer reads: an ACK frame has at most 64 ranges, delays are rounded, and a closing application has no frame type.\<close>

fun read_frame :: "frame \<Rightarrow> frame" where
  "read_frame (AckFrame a) = AckFrame (a\<lparr>AckRanges := take MaxNumAckRanges (AckRanges a), DelayTime := DelayTime a div 8000 * 8000\<rparr>)"
| "read_frame (ConnectionCloseFrame a e ft r) = ConnectionCloseFrame a e (if a then 0 else ft) r"
| "read_frame (AckFrequencyFrame s a d r) = AckFrequencyFrame s a (d div 1000 * 1000) r"
| "read_frame f = f"

text \<open>A STREAM or DATAGRAM frame without a length extends to the end of the packet.\<close>

fun delimited :: "frame \<Rightarrow> bool" where
  "delimited (StreamFrame s) \<longleftrightarrow> sf_DataLenPresent s"
| "delimited (DatagramFrame p d) \<longleftrightarrow> p"
| "delimited f \<longleftrightarrow> True"

fun frame_type :: "frame \<Rightarrow> u64" where
  "frame_type PingFrame = FrameTypePing"
| "frame_type (AckFrame a) = (if hasECN a then FrameTypeAckECN else FrameTypeAck)"
| "frame_type (ResetStreamFrame sid ec fs rs) = (if rs = 0 then FrameTypeResetStream else FrameTypeResetStreamAt)"
| "frame_type (StopSendingFrame sid ec) = FrameTypeStopSending"
| "frame_type (CryptoFrame c) = FrameTypeCrypto"
| "frame_type (NewTokenFrame t) = FrameTypeNewToken"
| "frame_type (StreamFrame s) = 8 + (if sf_Fin s then 1 else 0) + (if sf_DataLenPresent s then 2 else 0) + (if sf_Offset s \<noteq> 0 then 4 else 0)"
| "frame_type (MaxDataFrame m) = FrameTypeMaxData"
| "frame_type (MaxStreamDataFrame sid m) = FrameTypeMaxStreamData"
| "frame_type (MaxStreamsFrame t m) = (case t of StreamTypeBidi \<Rightarrow> FrameTypeBidiMaxStreams | StreamTypeUni \<Rightarrow> FrameTypeUniMaxStreams)"
| "frame_type (DataBlockedFrame m) = FrameTypeDataBlocked"
| "frame_type (StreamDataBlockedFrame sid m) = FrameTypeStreamDataBlocked"
| "frame_type (StreamsBlockedFrame t m) = (case t of StreamTypeBidi \<Rightarrow> FrameTypeBidiStreamBlocked | StreamTypeUni \<Rightarrow> FrameTypeUniStreamBlocked)"
| "frame_type (NewConnectionIDFrame s r c t) = FrameTypeNewConnectionID"
| "frame_type (RetireConnectionIDFrame s) = FrameTypeRetireConnectionID"
| "frame_type (PathChallengeFrame d) = FrameTypePathChallenge"
| "frame_type (PathResponseFrame d) = FrameTypePathResponse"
| "frame_type (ConnectionCloseFrame a e ft r) = (if a then FrameTypeApplicationClose else FrameTypeConnectionClose)"
| "frame_type HandshakeDoneFrame = FrameTypeHandshakeDone"
| "frame_type (DatagramFrame p d) = (if p then FrameTypeDatagramWithLength else FrameTypeDatagramNoLength)"
| "frame_type (AckFrequencyFrame s a d r) = FrameTypeAckFrequency"
| "frame_type ImmediateAckFrame = FrameTypeImmediateAck"

text \<open>The varints behind the type, and the bytes behind the varints.\<close>

fun frame_values :: "frame \<Rightarrow> u64 list" where
  "frame_values (AckFrame a) = ack_values a"
| "frame_values (ResetStreamFrame sid ec fs rs) = [uint64 sid, ec, uint64 fs] @ (if rs > 0 then [uint64 rs] else [])"
| "frame_values (StopSendingFrame sid ec) = [uint64 sid, ec]"
| "frame_values (CryptoFrame c) = [uint64 (cf_Offset c), of_nat (length (cf_Data c))]"
| "frame_values (NewTokenFrame t) = [of_nat (length t)]"
| "frame_values (StreamFrame s) = [uint64 (sf_StreamID s)] @ (if sf_Offset s \<noteq> 0 then [uint64 (sf_Offset s)] else []) @
     (if sf_DataLenPresent s then [of_nat (length (sf_Data s))] else [])"
| "frame_values (MaxDataFrame m) = [uint64 m]"
| "frame_values (MaxStreamDataFrame sid m) = [uint64 sid, uint64 m]"
| "frame_values (MaxStreamsFrame t m) = [uint64 m]"
| "frame_values (DataBlockedFrame m) = [uint64 m]"
| "frame_values (StreamDataBlockedFrame sid m) = [uint64 sid, uint64 m]"
| "frame_values (StreamsBlockedFrame t m) = [uint64 m]"
| "frame_values (NewConnectionIDFrame s r c t) = [s, r]"
| "frame_values (RetireConnectionIDFrame s) = [s]"
| "frame_values (ConnectionCloseFrame a e ft r) = [e] @ (if \<not> a then [ft] else []) @ [of_nat (length r)]"
| "frame_values (DatagramFrame p d) = (if p then [of_nat (length d)] else [])"
| "frame_values (AckFrequencyFrame s a d r) = [s, a, uint64 (d div 1000), uint64 r]"
| "frame_values _ = []"

fun frame_data :: "frame \<Rightarrow> byte list" where
  "frame_data (CryptoFrame c) = cf_Data c"
| "frame_data (NewTokenFrame t) = t"
| "frame_data (StreamFrame s) = sf_Data s"
| "frame_data (NewConnectionIDFrame s r c t) = of_nat (length c) # c @ t"
| "frame_data (PathChallengeFrame d) = d"
| "frame_data (PathResponseFrame d) = d"
| "frame_data (ConnectionCloseFrame a e ft r) = r"
| "frame_data (DatagramFrame p d) = d"
| "frame_data _ = []"

definition frame_bytes :: "frame \<Rightarrow> byte list" where
  "frame_bytes f = bytes_of (frame_type f # frame_values f) @ frame_data f"

lemma num62_fits: "num62 x \<Longrightarrow> uint64 x \<le> maxVarInt8" "num62 x \<Longrightarrow> int64 (uint64 x) = x"
  by (simp_all add: num62_def u64_of_int)

lemma length_fits:
  assumes "n < 2 ^ 62"
  shows "(of_nat n :: u64) \<le> maxVarInt8" and "unat (of_nat n :: u64) = n"
proof -
  show u: "unat (of_nat n :: u64) = n" using assms by (simp add: unat_of_nat)
  then show "(of_nat n :: u64) \<le> maxVarInt8" using assms by (simp add: word_le_nat_alt maxVarInt8_def)
qed

lemma put_bytes: "\<forall>v \<in> set vs. v \<le> maxVarInt8 \<Longrightarrow> put vs b = Inr (b @ bytes_of vs)"
  by (simp add: put_def append_varints_bytes)

lemma put_data_bytes: "\<forall>v \<in> set vs. v \<le> maxVarInt8 \<Longrightarrow> put_data vs d b = Inr (b @ bytes_of vs @ d)"
  by (simp add: put_data_def put_bytes)

lemma len_of_bytes: "\<forall>v \<in> set vs. v \<le> maxVarInt8 \<Longrightarrow> len_of n vs = Some (n + length (bytes_of vs))"
  by (simp add: len_of_def sum_len_bytes)

lemma one_byte_type: "ft \<le> 63 \<Longrightarrow> varint_bytes ft = [ucast ft]"
  by (simp add: varint_bytes_def maxVarInt1_def)

lemmas type_defs = FrameTypePing_def FrameTypeResetStream_def FrameTypeStopSending_def FrameTypeCrypto_def FrameTypeNewToken_def
  FrameTypeMaxData_def FrameTypeMaxStreamData_def FrameTypeBidiMaxStreams_def FrameTypeUniMaxStreams_def FrameTypeDataBlocked_def
  FrameTypeStreamDataBlocked_def FrameTypeBidiStreamBlocked_def FrameTypeUniStreamBlocked_def FrameTypeNewConnectionID_def
  FrameTypeRetireConnectionID_def FrameTypePathChallenge_def FrameTypePathResponse_def FrameTypeConnectionClose_def
  FrameTypeApplicationClose_def FrameTypeHandshakeDone_def FrameTypeResetStreamAt_def FrameTypeAckFrequency_def
  FrameTypeImmediateAck_def FrameTypeDatagramNoLength_def FrameTypeDatagramWithLength_def FrameTypeAck_def FrameTypeAckECN_def

lemma frame_type_fits: "frame_type f \<le> maxVarInt8"
  by (cases f) (auto simp: type_defs maxVarInt8_def split: stream_type.splits)

lemma frame_type_byte: "\<not> (\<exists>s a d r. f = AckFrequencyFrame s a d r) \<Longrightarrow> varint_bytes (frame_type f) = [ucast (frame_type f)]"
  by (rule one_byte_type, cases f) (auto simp: type_defs split: stream_type.splits)

lemma frame_values_fit:
  assumes "frame_ok f"
  shows "\<forall>v \<in> set (frame_values f). v \<le> maxVarInt8"
proof (cases f)
  case (AckFrame a)
  then show ?thesis using assms ack_values_fit by simp
next
  case (NewConnectionIDFrame s r c t)
  then show ?thesis using assms by auto
next
  case (StreamFrame s)
  then have "num62 (sf_Offset s)" "length (sf_Data s) < 2 ^ 62" using assms by (simp_all add: num62_def MaxByteCount_def)
  then show ?thesis using StreamFrame assms by (auto simp: num62_fits length_fits)
next
  case (AckFrequencyFrame s a d r)
  then have "num62 (d div 1000)" using assms by (auto simp: num62_def max_int64_def)
  then show ?thesis using AckFrequencyFrame assms by (auto simp: num62_fits)
next
  case (ResetStreamFrame sid ec fs rs)
  then have "num62 rs" using assms by (simp add: num62_def)
  then show ?thesis using ResetStreamFrame assms by (auto simp: num62_fits)
next
  case (MaxStreamsFrame t m)
  then have "num62 m" using assms by (simp add: num62_def MaxStreamCount_def)
  then show ?thesis using MaxStreamsFrame by (auto simp: num62_fits)
next
  case (StreamsBlockedFrame t m)
  then have "num62 m" using assms by (simp add: num62_def MaxStreamCount_def)
  then show ?thesis using StreamsBlockedFrame by (auto simp: num62_fits)
qed (use assms in \<open>auto simp: num62_fits length_fits\<close>)

lemma ack_Append_frame:
  assumes "ack_ok a"
  shows "ack_Append a b = Some (b @ frame_bytes (AckFrame a))" and "ack_Length a = Some (length (frame_bytes (AckFrame a)))"
proof -
  obtain r rs where r: "AckRanges a = r # rs" using ack_okD(1) [OF assms] by (cases "AckRanges a") auto
  have b: "varint_bytes (frame_type (AckFrame a)) = [ucast (frame_type (AckFrame a))]" by (rule frame_type_byte) simp
  show e: "ack_Append a b = Some (b @ frame_bytes (AckFrame a))" for b
    using ack_Append_values [OF r] append_varints_bytes [OF ack_values_fit [OF assms]] b by (simp add: frame_bytes_def)
  then show "ack_Length a = Some (length (frame_bytes (AckFrame a)))" using ack_Append_bytes [OF assms] by force
qed

lemmas append_defs = PingFrame_Append_def HandshakeDoneFrame_Append_def ImmediateAckFrame_Append_def ResetStreamFrame_Append_def
  StopSendingFrame_Append_def CryptoFrame_Append_def NewTokenFrame_Append_def MaxDataFrame_Append_def MaxStreamDataFrame_Append_def
  MaxStreamsFrame_Append_def DataBlockedFrame_Append_def StreamDataBlockedFrame_Append_def StreamsBlockedFrame_Append_def
  NewConnectionIDFrame_Append_def RetireConnectionIDFrame_Append_def PathChallengeFrame_Append_def PathResponseFrame_Append_def
  ConnectionCloseFrame_Append_def DatagramFrame_Append_def AckFrequencyFrame_Append_def StreamFrame_Append_def

lemmas length_defs = ResetStreamFrame_Length_def StopSendingFrame_Length_def CryptoFrame_Length_def NewTokenFrame_Length_def
  MaxDataFrame_Length_def MaxStreamDataFrame_Length_def MaxStreamsFrame_Length_def DataBlockedFrame_Length_def
  StreamDataBlockedFrame_Length_def StreamsBlockedFrame_Length_def NewConnectionIDFrame_Length_def RetireConnectionIDFrame_Length_def
  ConnectionCloseFrame_Length_def DatagramFrame_Length_def AckFrequencyFrame_Length_def StreamFrame_Length_def

lemma frame_Append_bytes:
  assumes "frame_ok f"
  shows "frame_Append f b = Inr (b @ frame_bytes f)"
proof (cases "\<exists>s a d r. f = AckFrequencyFrame s a d r")
  case True
  then show ?thesis using assms frame_values_fit [OF assms] frame_type_fits [of f]
    by (auto simp: frame_Append_def append_defs frame_bytes_def put_bytes quo_nonneg)
next
  case False
  note b = frame_type_byte [OF False] and fit = frame_values_fit [OF assms] frame_type_fits [of f]
  show ?thesis
  proof (cases f)
    case (AckFrame a)
    then show ?thesis using assms ack_Append_frame(1) [of a b] by (simp add: frame_Append_def)
  qed (use assms b fit False in \<open>auto simp: frame_Append_def append_defs frame_bytes_def put_bytes put_data_bytes Let_def type_defs
      split: stream_type.splits\<close>)
qed

lemma frame_Length_bytes:
  assumes "frame_ok f"
  shows "frame_Length f = Some (length (frame_bytes f))"
proof (cases "\<exists>s a d r. f = AckFrequencyFrame s a d r")
  case True
  moreover have "length (varint_bytes FrameTypeAckFrequency) = 2"
    by (simp add: varint_bytes_def FrameTypeAckFrequency_def maxVarInt1_def maxVarInt2_def)
  ultimately show ?thesis using assms frame_values_fit [OF assms]
    by (auto simp: frame_Length_def length_defs frame_bytes_def len_of_bytes quo_nonneg)
next
  case False
  note b = frame_type_byte [OF False] and fit = frame_values_fit [OF assms] frame_type_fits [of f]
  show ?thesis
  proof (cases f)
    case (AckFrame a)
    then show ?thesis using assms ack_Append_frame(2) [of a] by (simp add: frame_Length_def)
  qed (use assms b fit False in \<open>auto simp: frame_Length_def length_defs frame_bytes_def len_of_bytes\<close>)
qed

section \<open>What is read\<close>

lemma read_bytes_app: "length d = n \<Longrightarrow> bnd (read_bytes n) k (d @ r) = k d r"
  by (simp add: read_bytes_def bnd_apply)

lemma read_bytes_all: "length d = n \<Longrightarrow> bnd (read_bytes n) k d = k d []"
  using read_bytes_app [of d n k "[]"] by simp

lemma encoding_error_ok: "m b = (Inr x, r) \<Longrightarrow> encoding_error ft m b = (Inr x, r)"
  by (simp add: encoding_error_def)

lemma require_True: "bnd (require True e) k = k ()"
  by (simp add: fun_eq_iff bnd_apply require_apply)

lemma ret_bnd: "bnd (ret x) k = k x"
  by (simp add: fun_eq_iff bnd_apply ret_apply)

lemma gets_bnd: "bnd (gets f) k s = k (f s) s"
  by (simp add: bnd_apply gets_apply)

lemmas read_simps = next_varint_bytes read_bytes_app read_bytes_all require_True ret_bnd gets_bnd ret_apply bnd_assoc

lemma type_classes:
  "\<not> IsStreamFrameType ft \<Longrightarrow> \<not> IsAckFrameType ft \<Longrightarrow> \<not> IsDatagramFrameType ft \<Longrightarrow> parse_body p l ft = ParseLessCommonFrame ft"
  by (simp add: parse_body_def)

lemma parse_stream_bytes:
  assumes "frame_ok (StreamFrame s)" and "sf_DataLenPresent s \<or> rest = []"
  shows "ParseStreamFrame (frame_type (StreamFrame s)) (bytes_of (frame_values (StreamFrame s)) @ sf_Data s @ rest) = (Inr (StreamFrame s), rest)"
proof -
  have n: "num62 (sf_StreamID s)" "num62 (sf_Offset s)" "length (sf_Data s) < 2 ^ 62" "sf_Offset s + int (length (sf_Data s)) \<le> MaxByteCount"
    "length (sf_Data s) \<le> MaxPacketBufferSize"
    using assms(1) by (simp_all add: num62_def MaxByteCount_def)
  define ft where "ft = frame_type (StreamFrame s)"
  have ft: "(ft AND 0b100 > 0) = (sf_Offset s \<noteq> 0)" "(ft AND 0b1 > 0) = sf_Fin s" "(ft AND 0b10 > 0) = sf_DataLenPresent s"
    by (cases "sf_Fin s"; cases "sf_DataLenPresent s"; cases "sf_Offset s = 0"; simp add: ft_def)+
  have z: "int64 0 = 0" by (simp add: int64_def)
  show ?thesis
    unfolding ft_def [symmetric] ParseStreamFrame_def ft Let_def
    using n assms(2) z num62_fits [OF n(1)] num62_fits [OF n(2)] length_fits [OF n(3)]
    by (cases "sf_DataLenPresent s"; cases "sf_Offset s = 0") (simp_all add: read_simps)
qed

lemma parse_datagram_bytes:
  assumes "length d < 2 ^ 62" and "q \<or> rest = []"
  shows "parseDatagramFrame (frame_type (DatagramFrame q d)) (bytes_of (frame_values (DatagramFrame q d)) @ d @ rest) = (Inr (DatagramFrame q d), rest)"
proof -
  have ft: "(frame_type (DatagramFrame q d) AND 0x1 > 0) = q" by (simp add: type_defs)
  show ?thesis unfolding parseDatagramFrame_def ft Let_def
    using length_fits [OF assms(1)] assms(2) by (cases q) (simp_all add: read_simps)
qed

lemma parse_ack_frame_bytes:
  assumes "ack_ok a" and "fp_ackDelayExponent p = AckDelayExponent"
  shows "parser_ParseAckFrame p l (frame_type (AckFrame a)) (bytes_of (ack_values a) @ rest) = (Inr (read_frame (AckFrame a)), rest)"
proof -
  obtain r rs where r: "AckRanges a = r # rs" using ack_okD(1) [OF assms(1)] by (cases "AckRanges a") auto
  have "DefaultAckDelayExponent = AckDelayExponent" by (simp add: DefaultAckDelayExponent_def AckDelayExponent_def)
  then show ?thesis
    using parse_ack_bytes [OF assms(1) r, of "frame_type (AckFrame a)" _ rest] assms(2)
    by (simp add: parser_ParseAckFrame_def parseAckFrame_def Let_def)
qed

fun common :: "frame \<Rightarrow> bool" where
  "common (StreamFrame s) = True"
| "common (AckFrame a) = True"
| "common (DatagramFrame q d) = True"
| "common f = False"

lemma uncommon_type:
  assumes "\<not> common f"
  shows "\<not> IsStreamFrameType (frame_type f)" and "\<not> IsAckFrameType (frame_type f)" and "\<not> IsDatagramFrameType (frame_type f)"
  using assms
  by (cases f; auto simp: IsStreamFrameType_def IsAckFrameType_def IsDatagramFrameType_def type_defs word_le_nat_alt split: stream_type.splits)+

text \<open>The parser of each of the other frames.\<close>

fun body_parser :: "frame \<Rightarrow> (wire_err, byte list, frame) eff" where
  "body_parser PingFrame = ret PingFrame"
| "body_parser (ResetStreamFrame sid ec fs rs) = parseResetStreamFrame (rs \<noteq> 0)"
| "body_parser (StopSendingFrame sid ec) = parseStopSendingFrame"
| "body_parser (CryptoFrame c) = parseCryptoFrame"
| "body_parser (NewTokenFrame t) = parseNewTokenFrame"
| "body_parser (MaxDataFrame m) = parseMaxDataFrame"
| "body_parser (MaxStreamDataFrame sid m) = parseMaxStreamDataFrame"
| "body_parser (MaxStreamsFrame t m) = parseMaxStreamsFrame (frame_type (MaxStreamsFrame t m))"
| "body_parser (DataBlockedFrame m) = parseDataBlockedFrame"
| "body_parser (StreamDataBlockedFrame sid m) = parseStreamDataBlockedFrame"
| "body_parser (StreamsBlockedFrame t m) = parseStreamsBlockedFrame (frame_type (StreamsBlockedFrame t m))"
| "body_parser (NewConnectionIDFrame s r c t) = parseNewConnectionIDFrame"
| "body_parser (RetireConnectionIDFrame s) = parseRetireConnectionIDFrame"
| "body_parser (PathChallengeFrame d) = parsePathChallengeFrame"
| "body_parser (PathResponseFrame d) = parsePathResponseFrame"
| "body_parser (ConnectionCloseFrame a e ft r) = parseConnectionCloseFrame (frame_type (ConnectionCloseFrame a e ft r))"
| "body_parser HandshakeDoneFrame = ret HandshakeDoneFrame"
| "body_parser (AckFrequencyFrame s a d r) = parseAckFrequencyFrame"
| "body_parser ImmediateAckFrame = ret ImmediateAckFrame"
| "body_parser _ = fail errUnknownFrameType"

lemma dispatch:
  assumes "\<not> common f"
  shows "ParseLessCommonFrame (frame_type f) = encoding_error (frame_type f) (body_parser f)"
  using assms by (cases f) (simp_all add: ParseLessCommonFrame_def type_defs split: stream_type.splits)

lemma parse_reset_bytes:
  assumes "frame_ok (ResetStreamFrame sid ec fs rs)"
  shows "parseResetStreamFrame (rs \<noteq> 0) (bytes_of (frame_values (ResetStreamFrame sid ec fs rs)) @ rest) = (Inr (ResetStreamFrame sid ec fs rs), rest)"
proof -
  have n: "num62 sid" "num62 fs" "num62 rs" "ec \<le> maxVarInt8" "rs \<le> fs" using assms by (auto simp: num62_def)
  have u: "uint (uint64 x) = x" if "num62 x" for x using that by (simp add: num62_def uint64_def uint_word_of_int)
  have "\<not> uint64 rs > uint64 fs" using n(5) by (simp add: word_less_def u n(2,3))
  moreover have "int64 0 = 0" by (simp add: int64_def)
  moreover have "\<not> (0::u64) > uint64 fs" by simp
  ultimately show ?thesis
    unfolding parseResetStreamFrame_def using n num62_fits [OF n(1)] num62_fits [OF n(2)] num62_fits [OF n(3)]
    by (cases "rs = 0") (simp_all add: read_simps num62_def)
qed

lemma parse_new_connection_id_bytes:
  assumes "frame_ok (NewConnectionIDFrame s r c t)"
  shows "parseNewConnectionIDFrame (bytes_of [s, r] @ (of_nat (length c) # c @ t) @ rest) = (Inr (NewConnectionIDFrame s r c t), rest)"
proof -
  have n: "s \<le> maxVarInt8" "r \<le> s" "c \<noteq> []" "length c \<le> MaxConnIDLen" "length t = 16" using assms by simp_all
  then have r: "r \<le> maxVarInt8" "\<not> r > s" by auto
  have l: "unat (of_nat (length c) :: byte) = length c" using n(4) by (simp add: unat_of_nat MaxConnIDLen_def)
  have one: "bnd (read_bytes (Suc 0)) k (x # y) = k [x] y" for k x y by (simp add: read_bytes_def bnd_apply)
  show ?thesis unfolding parseNewConnectionIDFrame_def Let_def
    using n r by (simp add: next_varint_bytes one l require_True read_bytes_app ret_apply del: of_nat_eq_0_iff)
qed

lemma parse_ack_frequency_bytes:
  assumes "frame_ok (AckFrequencyFrame s a d r)"
  shows "parseAckFrequencyFrame (bytes_of (frame_values (AckFrequencyFrame s a d r)) @ rest) = (Inr (AckFrequencyFrame s a (d div 1000 * 1000) r), rest)"
proof -
  have n: "s \<le> maxVarInt8" "a \<le> maxVarInt8" "0 \<le> d" "d \<le> max_int64" "num62 r" using assms by simp_all
  have d: "num62 (d div 1000)" "0 \<le> d div 1000 * 1000" "d div 1000 * 1000 \<le> d" using n(3,4) by (auto simp: num62_def max_int64_def)
  have "wrap64 (d div 1000 * 1000) = d div 1000 * 1000" using d n(4) by (intro wrap64_id) (simp add: in_int64_def min_int64_def)
  then show ?thesis unfolding parseAckFrequencyFrame_def Let_def
    using n d num62_fits [OF d(1)] num62_fits [OF n(5)] by (simp add: read_simps)
qed

lemma parse_other_bytes:
  assumes "frame_ok f" and "\<not> common f"
  shows "body_parser f (bytes_of (frame_values f) @ frame_data f @ rest) = (Inr (read_frame f), rest)"
proof (cases f)
  case (ResetStreamFrame sid ec fs rs)
  then show ?thesis using parse_reset_bytes [of sid ec fs rs rest] assms by simp
next
  case (NewConnectionIDFrame s r c t)
  then show ?thesis using parse_new_connection_id_bytes [of s r c t rest] assms by simp
next
  case (AckFrequencyFrame s a d r)
  then show ?thesis using parse_ack_frequency_bytes [of s a d r rest] assms by simp
next
  case (MaxStreamsFrame t m)
  then have "num62 m" "\<not> m > MaxStreamCount" using assms by (simp_all add: num62_def MaxStreamCount_def)
  then show ?thesis using MaxStreamsFrame num62_fits [of m]
    by (cases t) (simp_all add: parser_defs read_simps type_defs)
next
  case (StreamsBlockedFrame t m)
  then have "num62 m" "\<not> m > MaxStreamCount" using assms by (simp_all add: num62_def MaxStreamCount_def)
  then show ?thesis using StreamsBlockedFrame num62_fits [of m]
    by (cases t) (simp_all add: parser_defs read_simps type_defs)
next
  case (ConnectionCloseFrame a e ft r)
  then show ?thesis using assms length_fits [of "length r"]
    by (cases a) (simp_all add: parser_defs read_simps type_defs Let_def)
next
  case (NewTokenFrame t)
  then have "(of_nat (length t) :: u64) \<noteq> 0" using assms length_fits(2) [of "length t"] by (metis frame_ok.simps(5) length_0_conv unat_0)
  then show ?thesis using NewTokenFrame assms length_fits [of "length t"] by (simp add: parser_defs read_simps)
qed (use assms in \<open>simp_all add: parser_defs read_simps num62_fits length_fits\<close>)

lemma parse_body_bytes:
  assumes "frame_ok f" and "delimited f \<or> rest = []" and "fp_ackDelayExponent p = AckDelayExponent"
  shows "parse_body p l (frame_type f) (bytes_of (frame_values f) @ frame_data f @ rest) = (Inr (read_frame f), rest)"
proof (cases "common f")
  case False
  then show ?thesis using parse_other_bytes [OF assms(1) False] by (simp add: parse_body_def uncommon_type dispatch encoding_error_ok)
next
  case True
  then consider s where "f = StreamFrame s" | a where "f = AckFrame a" | q d where "f = DatagramFrame q d" by (cases f) auto
  then show ?thesis
  proof cases
    case (1 s)
    then have "IsStreamFrameType (frame_type f)" by (auto simp: IsStreamFrameType_def)
    then show ?thesis using parse_stream_bytes [of s rest] assms 1
      by (simp add: parse_body_def parser_ParseStreamFrame_def encoding_error_ok)
  next
    case (2 a)
    then have "\<not> IsStreamFrameType (frame_type f)" "IsAckFrameType (frame_type f)" by (auto simp: IsStreamFrameType_def IsAckFrameType_def type_defs)
    then show ?thesis using parse_ack_frame_bytes [of a p l rest] assms 2 by (simp add: parse_body_def)
  next
    case (3 q d)
    then have "\<not> IsStreamFrameType (frame_type f)" "\<not> IsAckFrameType (frame_type f)" "IsDatagramFrameType (frame_type f)"
      by (auto simp: IsStreamFrameType_def IsAckFrameType_def IsDatagramFrameType_def type_defs)
    then show ?thesis using parse_datagram_bytes [of d q rest] assms 3
      by (simp add: parse_body_def parser_ParseDatagramFrame_def encoding_error_ok)
  qed
qed

text \<open>A frame that may be sent to a parser at a level.\<close>

definition sendable :: "FrameParser \<Rightarrow> encryption_level \<Rightarrow> frame \<Rightarrow> bool" where
  "sendable p l f \<longleftrightarrow> frame_ok f \<and> valid_type p (frame_type f) \<and> isAllowedAtEncLevel (frame_type f) l = Some True"

lemma frame_type_nonzero: "frame_type f \<noteq> 0"
  by (cases f) (auto simp: type_defs split: stream_type.splits)

lemma ParseType_bytes:
  assumes "sendable p l f"
  shows "ParseType p l (frame_bytes f @ rest) = Inr (frame_type f, length (varint_bytes (frame_type f)))"
proof -
  have "quicvarint_Parse (frame_bytes f @ rest) = Inr (frame_type f, length (varint_bytes (frame_type f)))"
    using Parse_bytes [OF frame_type_fits [of f]] by (simp add: frame_bytes_def)
  moreover have "frame_bytes f \<noteq> []" by (auto simp: frame_bytes_def varint_bytes_def)
  ultimately show ?thesis using assms frame_type_nonzero [of f] by (simp add: ParseType.simps [of p l "frame_bytes f @ rest"] sendable_def)
qed

lemma parse_frame_bytes:
  assumes "sendable p l f" and "delimited f \<or> rest = []" and "fp_ackDelayExponent p = AckDelayExponent"
  shows "parse_payload p l (frame_bytes f @ rest) = after [read_frame f] (parse_payload p l rest)"
proof -
  have ok: "frame_ok f" using assms(1) by (simp add: sendable_def)
  have "drop (length (varint_bytes (frame_type f))) (frame_bytes f @ rest) = bytes_of (frame_values f) @ frame_data f @ rest"
    by (simp add: frame_bytes_def)
  moreover have "frame_bytes f \<noteq> []" by (auto simp: frame_bytes_def varint_bytes_def)
  ultimately show ?thesis
    using ParseType_bytes [OF assms(1), of rest] parse_body_bytes [OF ok assms(2,3), of l]
    by (simp add: parse_payload.simps [of p l "frame_bytes f @ rest"])
qed

lemma parse_one_zero: "parse_payload p l (0 # b) = parse_payload p l b"
proof -
  have "quicvarint_Parse (0 # b) = Inr (0, 1)" by (simp add: quicvarint_Parse_def Let_def)
  then have z: "ParseType p l (0 # b) = map_sum id (\<lambda>(ft, n). (ft, 1 + n)) (ParseType p l b)"
    by (simp add: ParseType.simps [of p l "0 # b"])
  show ?thesis
  proof (cases "b = []")
    case True
    then have "ParseType p l [0] = Inl FrameEOF" using z by (simp add: ParseType.simps [of p l "[]"])
    then show ?thesis using True by (simp add: parse_payload.simps [of p l "[0]"] parse_payload.simps [of p l "[]"])
  next
    case False
    then show ?thesis
      by (auto simp: parse_payload.simps [of p l "0 # b"] parse_payload.simps [of p l b] z map_sum_def split: sum.splits prod.splits)
  qed
qed

lemma parse_padding: "parse_payload p l (replicate n 0 @ b) = parse_payload p l b"
  by (induction n) (simp_all add: parse_one_zero)

section \<open>The payload of a packet\<close>

text \<open>
  The shuffling of the control frames is a parameter. A payload is written behind the header: the ACK frame, PADDING, the
  control frames and the STREAM frames.
\<close>

record payload =
  pl_streamFrames :: "frame list"
  pl_frames :: "frame list"
  pl_ack :: "ack_frame option"
  pl_length :: int

fun append_frames :: "frame list \<Rightarrow> byte list \<Rightarrow> appended" where
  "append_frames [] raw = Inr raw"
| "append_frames (f # fs) raw = (case frame_Append f raw of Inl e \<Rightarrow> Inl e | Inr raw \<Rightarrow> append_frames fs raw)"

definition appendPacketPayload :: "(frame list \<Rightarrow> frame list) \<Rightarrow> byte list \<Rightarrow> payload \<Rightarrow> int \<Rightarrow> appended" where
  "appendPacketPayload shuffle raw pl paddingLen =
     (let payloadOffset = length raw in
      case (case pl_ack pl of None \<Rightarrow> Inr raw | Some a \<Rightarrow> frame_Append (AckFrame a) raw) of
        Inl e \<Rightarrow> Inl e
      | Inr raw \<Rightarrow>
          (let raw = (if paddingLen > 0 then raw @ replicate (nat paddingLen) 0 else raw);
               frames = (if length (pl_frames pl) > 1 then shuffle (pl_frames pl) else pl_frames pl)
           in case append_frames frames raw of
                Inl e \<Rightarrow> Inl e
              | Inr raw \<Rightarrow>
                  (case append_frames (pl_streamFrames pl) raw of
                     Inl e \<Rightarrow> Inl e
                   | Inr raw \<Rightarrow>
                       if int (length raw - payloadOffset) - paddingLen \<noteq> pl_length pl
                       then Inl (AppendError ''PacketPacker BUG: payload size inconsistent'')
                       else Inr raw)))"

definition ack_frames :: "payload \<Rightarrow> frame list" where
  "ack_frames pl = (case pl_ack pl of None \<Rightarrow> [] | Some a \<Rightarrow> [AckFrame a])"

lemma append_frames_bytes: "list_all frame_ok fs \<Longrightarrow> append_frames fs raw = Inr (raw @ concat (map frame_bytes fs))"
  by (induction fs arbitrary: raw) (simp_all add: frame_Append_bytes)

lemma parse_frames_bytes:
  assumes "list_all (sendable p l) fs" and "list_all delimited (butlast fs)" and "fs = [] \<or> delimited (last fs) \<or> rest = []"
    and "fp_ackDelayExponent p = AckDelayExponent"
  shows "parse_payload p l (concat (map frame_bytes fs) @ rest) = after (map read_frame fs) (parse_payload p l rest)"
  using assms(1,2,3)
proof (induction fs)
  case (Cons f fs)
  have d: "delimited f \<or> concat (map frame_bytes fs) @ rest = []" using Cons.prems(2,3) by (cases "fs = []") auto
  have "parse_payload p l (concat (map frame_bytes fs) @ rest) = after (map read_frame fs) (parse_payload p l rest)"
    using Cons by (cases "fs = []") auto
  with Cons.prems(1) parse_frame_bytes [OF _ d assms(4)] show ?case by simp
qed simp

lemma frame_lengths:
  assumes "list_all frame_ok fs" and "map frame_Length fs = map Some ls"
  shows "length (concat (map frame_bytes fs)) = sum_list ls"
  using assms
proof (induction fs arbitrary: ls)
  case (Cons f fs)
  then show ?case by (cases ls) (auto simp: frame_Length_bytes)
qed simp

lemma appendPacketPayload_bytes:
  assumes "list_all frame_ok (ack_frames pl @ fs @ pl_streamFrames pl)" and "fs = (if length (pl_frames pl) > 1 then shuffle (pl_frames pl) else pl_frames pl)"
    and "0 \<le> pad" and "pl_length pl = int (length (concat (map frame_bytes (ack_frames pl @ fs @ pl_streamFrames pl))))"
  shows "appendPacketPayload shuffle raw pl pad = Inr (raw @ concat (map frame_bytes (ack_frames pl)) @ replicate (nat pad) 0 @
    concat (map frame_bytes (fs @ pl_streamFrames pl)))"
proof -
  have a: "(case pl_ack pl of None \<Rightarrow> Inr raw | Some a \<Rightarrow> frame_Append (AckFrame a) raw) = Inr (raw @ concat (map frame_bytes (ack_frames pl)))"
    using assms(1) by (cases "pl_ack pl") (auto simp: ack_frames_def frame_Append_bytes)
  show ?thesis
    unfolding appendPacketPayload_def a Let_def assms(2) [symmetric]
    using assms(1,3,4) by (simp add: append_frames_bytes)
qed

section \<open>Splitting\<close>

text \<open>\<open>None\<close> is a panic: a length that is no varint, or a slice out of range.\<close>

definition data_len :: "bool \<Rightarrow> nat \<Rightarrow> int \<Rightarrow> int option" where
  "data_len dataLenPresent header maxSize =
     (let headerLen = int header + (if dataLenPresent then 1 else 0) in
      if headerLen > maxSize then Some 0
      else
        (let maxDataLen = maxSize - headerLen in
         if dataLenPresent then
           map_option (\<lambda>n. if n \<noteq> 1 then maxDataLen - 1 else maxDataLen) (quicvarint_Len (uint64 maxDataLen))
         else Some maxDataLen))"

definition StreamFrame_MaxDataLen :: "stream_frame \<Rightarrow> int \<Rightarrow> int option" where
  "StreamFrame_MaxDataLen f maxSize =
     Option.bind (len_of 1 ([uint64 (sf_StreamID f)] @ (if sf_Offset f \<noteq> 0 then [uint64 (sf_Offset f)] else [])))
       (\<lambda>headerLen. data_len (sf_DataLenPresent f) headerLen maxSize)"

definition CryptoFrame_MaxDataLen :: "crypto_frame \<Rightarrow> int \<Rightarrow> int option" where
  "CryptoFrame_MaxDataLen f maxSize = Option.bind (len_of 1 [uint64 (cf_Offset f)]) (\<lambda>headerLen. data_len True headerLen maxSize)"

definition DatagramFrame_MaxDataLen :: "bool \<Rightarrow> int \<Rightarrow> int option" where
  "DatagramFrame_MaxDataLen dataLenPresent maxSize = data_len dataLenPresent 1 maxSize"

definition StreamFrame_MaybeSplitOffFrame :: "stream_frame \<Rightarrow> int \<Rightarrow> ((stream_frame option \<times> bool) \<times> stream_frame) option" where
  "StreamFrame_MaybeSplitOffFrame f maxSize =
     Option.bind (StreamFrame_Length f) (\<lambda>len.
       if maxSize \<ge> int len then Some ((None, False), f)
       else
         Option.bind (StreamFrame_MaxDataLen f maxSize) (\<lambda>n.
           if n = 0 then Some ((None, True), f)
           else if int (length (sf_Data f)) - n \<notin> {0..int MaxPacketBufferSize} then None
           else Some ((Some (f\<lparr>sf_Fin := False, sf_Data := take (nat n) (sf_Data f)\<rparr>), True),
                      f\<lparr>sf_Data := drop (nat n) (sf_Data f), sf_Offset := sf_Offset f + n\<rparr>)))"

definition CryptoFrame_MaybeSplitOffFrame :: "crypto_frame \<Rightarrow> int \<Rightarrow> ((crypto_frame option \<times> bool) \<times> crypto_frame) option" where
  "CryptoFrame_MaybeSplitOffFrame f maxSize =
     Option.bind (CryptoFrame_Length f) (\<lambda>len.
       if int len \<le> maxSize then Some ((None, False), f)
       else
         Option.bind (CryptoFrame_MaxDataLen f maxSize) (\<lambda>n.
           if n = 0 then Some ((None, True), f)
           else if int (length (cf_Data f)) - n < 0 then None
           else Some ((Some (f\<lparr>cf_Data := take (nat n) (cf_Data f)\<rparr>), True),
                      f\<lparr>cf_Data := drop (nat n) (cf_Data f), cf_Offset := cf_Offset f + n\<rparr>)))"

text \<open>The bytes of a length field, up to the largest that takes two.\<close>

lemma length_field: "n \<le> 16383 \<Longrightarrow> length (varint_bytes (of_nat n)) = (if n \<le> 63 then 1 else 2)"
  by (simp add: varint_bytes_def maxVarInt1_def maxVarInt2_def word_le_nat_alt unat_of_nat)

lemma data_len_spec:
  assumes "k \<le> 16383" and "maxSize < int (header + (if q then length (varint_bytes (of_nat k)) else 0) + k)"
  shows "\<exists>n. data_len q header maxSize = Some n \<and> 0 \<le> n \<and> (k > 0 \<longrightarrow> n < int k) \<and>
    (n = 0 \<longrightarrow> maxSize < int (header + (if q then 1 else 0) + 1)) \<and>
    (0 < n \<longrightarrow> int (header + (if q then length (varint_bytes (of_nat (nat n))) else 0)) + n \<le> maxSize)"
proof -
  define m where "m = maxSize - (int header + (if q then 1 else 0))"
  consider "m < 0" | "0 \<le> m" "\<not> q" | "0 \<le> m" "q" by linarith
  then show ?thesis
  proof cases
    case 1
    then show ?thesis by (intro exI [of _ 0]) (auto simp: data_len_def Let_def m_def)
  next
    case 2
    then show ?thesis using assms(2) by (intro exI [of _ m]) (auto simp: data_len_def Let_def m_def)
  next
    case 3
    have k: "m < int k + (if k \<le> 63 then 0 else 1)" using assms 3 length_field [OF assms(1)] by (auto simp: m_def split: if_splits)
    then have m: "nat m \<le> 16383" "uint64 m = of_nat (nat m)" using 3 assms(1) by (auto simp: uint64_def split: if_splits)
    have "quicvarint_Len (uint64 m) = Some (if nat m \<le> 63 then 1 else 2)"
      using Len_bytes [of "of_nat (nat m)"] length_fits(1) [of "nat m"] length_field [OF m(1)] m by simp
    then have e: "data_len q header maxSize = Some (if nat m \<le> 63 then m else m - 1)"
      using 3 by (simp add: data_len_def Let_def m_def)
    show ?thesis
    proof (cases "nat m \<le> 63")
      case True
      then show ?thesis using e 3 k length_field [OF m(1)] by (intro exI [of _ m]) (auto simp: m_def split: if_splits)
    next
      case False
      then have "nat (m - 1) \<le> 16383" using m(1) by simp
      then show ?thesis using e False 3 k length_field [of "nat (m - 1)"] by (intro exI [of _ "m - 1"]) (auto simp: m_def split: if_splits)
    qed
  qed
qed

section \<open>Properties\<close>

text \<open>
  C31. The payload of a packet is read back: when all its frames are well-formed, supported by the peer and allowed at the
  encryption level, and every frame but the last STREAM frame carries its length, the packer writes exactly the length it
  reckoned with and the padding, and the peer's frame parser finds exactly the ACK frame, the control frames in some order
  and the STREAM frames in their order, and nothing else.
\<close>

theorem payload_round_trip:
  assumes "mset (shuffle (pl_frames pl)) = mset (pl_frames pl)"
    and "list_all (sendable p l) (ack_frames pl @ pl_frames pl @ pl_streamFrames pl)"
    and "list_all delimited (pl_frames pl @ butlast (pl_streamFrames pl))"
    and "map frame_Length (ack_frames pl @ pl_frames pl @ pl_streamFrames pl) = map Some ls" and "pl_length pl = int (sum_list ls)"
    and "0 \<le> pad" and "fp_ackDelayExponent p = AckDelayExponent"
  shows "\<exists>bs fs. appendPacketPayload shuffle raw pl pad = Inr (raw @ bs) \<and> int (length bs) = pl_length pl + pad \<and>
    mset fs = mset (pl_frames pl) \<and> parse_payload p l bs = Inr (map read_frame (ack_frames pl @ fs @ pl_streamFrames pl))"
proof -
  define fs where "fs = (if length (pl_frames pl) > 1 then shuffle (pl_frames pl) else pl_frames pl)"
  have m: "mset fs = mset (pl_frames pl)" using assms(1) by (simp add: fs_def)
  then have set: "set fs = set (pl_frames pl)" by (rule mset_eq_setD)
  have ok: "list_all frame_ok (ack_frames pl @ pl_frames pl @ pl_streamFrames pl)" using assms(2) by (auto simp: sendable_def list_all_iff)
  then have okf: "list_all frame_ok (ack_frames pl @ fs @ pl_streamFrames pl)" by (simp add: list_all_iff set)
  have send: "list_all (sendable p l) (ack_frames pl @ fs @ pl_streamFrames pl)" using assms(2) by (simp add: list_all_iff set)
  have "mset (map (length \<circ> frame_bytes) fs) = mset (map (length \<circ> frame_bytes) (pl_frames pl))" using m by (simp only: mset_map)
  then have "sum_list (map (length \<circ> frame_bytes) fs) = sum_list (map (length \<circ> frame_bytes) (pl_frames pl))" by (metis sum_mset_sum_list)
  then have len: "pl_length pl = int (length (concat (map frame_bytes (ack_frames pl @ fs @ pl_streamFrames pl))))"
    using frame_lengths [OF ok assms(4)] assms(5) by (simp add: length_concat)
  define bs where "bs = concat (map frame_bytes (ack_frames pl)) @ replicate (nat pad) 0 @ concat (map frame_bytes (fs @ pl_streamFrames pl))"
  have "appendPacketPayload shuffle raw pl pad = Inr (raw @ bs)"
    unfolding bs_def by (rule appendPacketPayload_bytes [where shuffle = shuffle, OF okf fs_def assms(6) len])
  moreover have "int (length bs) = pl_length pl + pad" using len assms(6) by (simp add: bs_def)
  moreover have "parse_payload p l bs = Inr (map read_frame (ack_frames pl @ fs @ pl_streamFrames pl))"
  proof -
    have d: "list_all delimited fs" "list_all delimited (ack_frames pl)"
      using assms(3) set by (auto simp: list_all_iff ack_frames_def split: option.splits)
    then have "list_all delimited (butlast (fs @ pl_streamFrames pl))"
      using assms(3) by (auto simp: butlast_append list_all_iff dest: in_set_butlastD)
    then have "parse_payload p l (concat (map frame_bytes (fs @ pl_streamFrames pl)) @ []) = Inr (map read_frame (fs @ pl_streamFrames pl))"
      using send assms(7) by (subst parse_frames_bytes) (auto simp: parse_payload.simps [of p l "[]"])
    moreover have "parse_payload p l bs = after (map read_frame (ack_frames pl)) (parse_payload p l (replicate (nat pad) 0 @ concat (map frame_bytes (fs @ pl_streamFrames pl))))"
      unfolding bs_def using send d(2) assms(7) by (intro parse_frames_bytes) (auto simp: ack_frames_def split: option.splits)
    ultimately show ?thesis by (simp add: parse_padding)
  qed
  ultimately show ?thesis using m by blast
qed

definition example_payload :: payload where
  "example_payload =
     \<lparr>pl_streamFrames = [StreamFrame \<lparr>sf_StreamID = 4, sf_Offset = 100, sf_Data = [1, 2, 3], sf_Fin = True, sf_DataLenPresent = False\<rparr>],
      pl_frames = [PingFrame, MaxDataFrame 70000], pl_ack = Some two_ranges, pl_length = 20\<rparr>"

definition example_parser :: FrameParser where
  "example_parser = \<lparr>fp_ackDelayExponent = 3, supportsDatagrams = True, supportsResetStreamAt = False, supportsAckFrequency = False\<rparr>"

theorem payload_round_trip_witness:
  "\<exists>bs fs. appendPacketPayload rev [] example_payload 9 = Inr bs \<and> length bs = 29 \<and> mset fs = {#PingFrame, MaxDataFrame 70000#} \<and>
     parse_payload example_parser Encryption1RTT bs = Inr (map read_frame (AckFrame two_ranges # fs @ pl_streamFrames example_payload))"
proof -
  have a: "ack_frames example_payload = [AckFrame two_ranges]" by (simp add: ack_frames_def example_payload_def)
  have ok: "ack_ok two_ranges"
    by (simp add: two_ranges_def ack_ok_def validateAckRanges_def range_valid_def max_int64_def maxVarInt8_def)
  have v: "list_all (sendable example_parser Encryption1RTT) (ack_frames example_payload @ pl_frames example_payload @ pl_streamFrames example_payload)"
    unfolding a using ok by (simp add: example_payload_def sendable_def valid_type_def isValidRFC9000_def isAllowedAtEncLevel_def type_defs num62_def
        MaxByteCount_def MaxPacketBufferSize_def word_le_nat_alt)
  have l: "map frame_Length (ack_frames example_payload @ pl_frames example_payload @ pl_streamFrames example_payload) = map Some [7, 1, 5, 7]"
    unfolding a by code_simp
  show ?thesis
    using payload_round_trip [where shuffle = rev and pl = example_payload and p = example_parser and raw = "[]" and pad = 9, OF _ v _ l]
    unfolding a by (simp add: example_payload_def example_parser_def AckDelayExponent_def)
qed

text \<open>
  C32. Splitting a STREAM frame loses nothing: a frame that is split off fits the size, is not empty and does not end the
  stream, and what is left continues exactly where it ends and ends the stream if the frame did. Nothing is split off
  exactly if the whole frame fits, or if the size is too small for a frame with one byte of data.
\<close>

theorem stream_split_exact:
  assumes "num62 (sf_StreamID f)" and "num62 (sf_Offset f)" and "sf_Data f \<noteq> []" and "length (sf_Data f) \<le> MaxPacketBufferSize"
    and "StreamFrame_Length f = Some len"
  shows "case StreamFrame_MaybeSplitOffFrame f maxSize of
      None \<Rightarrow> False
    | Some ((None, split), f') \<Rightarrow> f' = f \<and> (split \<longleftrightarrow> maxSize < int len) \<and>
        (split \<longrightarrow> (\<forall>x l. StreamFrame_Length (f\<lparr>sf_Data := [x]\<rparr>) = Some l \<longrightarrow> maxSize < int l))
    | Some ((Some g, split), f') \<Rightarrow> split \<and> maxSize < int len \<and> (\<exists>l. StreamFrame_Length g = Some l \<and> int l \<le> maxSize) \<and>
        sf_Data g \<noteq> [] \<and> sf_Data f' \<noteq> [] \<and> sf_Data g @ sf_Data f' = sf_Data f \<and> sf_StreamID g = sf_StreamID f \<and> sf_StreamID f' = sf_StreamID f \<and>
        sf_Offset g = sf_Offset f \<and> sf_Offset f' = sf_Offset f + int (length (sf_Data g)) \<and> \<not> sf_Fin g \<and> (sf_Fin f' \<longleftrightarrow> sf_Fin f)"
proof -
  define k q where "k = length (sf_Data f)" and "q = sf_DataLenPresent f"
  define hs where "hs = [uint64 (sf_StreamID f)] @ (if sf_Offset f \<noteq> 0 then [uint64 (sf_Offset f)] else [])"
  define h where "h = 1 + length (bytes_of hs)"
  have hs: "\<forall>v \<in> set hs. v \<le> maxVarInt8" using num62_fits assms(1,2) by (simp add: hs_def)
  have L: "StreamFrame_Length g = Some (h + (if q then length (varint_bytes (of_nat (length (sf_Data g)))) else 0) + length (sf_Data g))"
    if "sf_StreamID g = sf_StreamID f" "sf_Offset g = sf_Offset f" "sf_DataLenPresent g = q" "length (sf_Data g) \<le> 16383" for g
  proof -
    have "StreamFrame_Length g = len_of (1 + length (sf_Data g)) (hs @ (if q then [of_nat (length (sf_Data g))] else []))"
      using that by (simp add: StreamFrame_Length_def hs_def)
    also have "\<dots> = Some (h + (if q then length (varint_bytes (of_nat (length (sf_Data g)))) else 0) + length (sf_Data g))"
      using hs that(4) length_fits(1) [of "length (sf_Data g)"] by (subst len_of_bytes) (auto simp: h_def)
    finally show ?thesis .
  qed
  have k: "k \<le> 16383" "0 < k" "k \<le> MaxPacketBufferSize" using assms(3,4) by (simp_all add: k_def MaxPacketBufferSize_def)
  have len: "len = h + (if q then length (varint_bytes (of_nat k)) else 0) + k" using L [of f] assms(5) k by (simp add: k_def q_def)
  have M: "StreamFrame_MaxDataLen f maxSize = data_len q h maxSize"
    using len_of_bytes [OF hs, of 1] by (simp add: StreamFrame_MaxDataLen_def hs_def h_def q_def)
  show ?thesis
  proof (cases "maxSize \<ge> int len")
    case True
    then show ?thesis by (simp add: StreamFrame_MaybeSplitOffFrame_def assms(5))
  next
    case False
    with data_len_spec [OF k(1), of maxSize h q] obtain n where n: "data_len q h maxSize = Some n" "0 \<le> n" "n < int k"
      "n = 0 \<longrightarrow> maxSize < int (h + (if q then 1 else 0) + 1)"
      "0 < n \<longrightarrow> int (h + (if q then length (varint_bytes (of_nat (nat n))) else 0)) + n \<le> maxSize" using len k(2) by auto
    show ?thesis
    proof (cases "n = 0")
      case True
      have "StreamFrame_Length (f\<lparr>sf_Data := [x]\<rparr>) = Some (h + (if q then 1 else 0) + 1)" for x
        using L [of "f\<lparr>sf_Data := [x]\<rparr>"] length_field [of 1] by (simp add: q_def)
      then show ?thesis using True False n assms(5) M by (simp add: StreamFrame_MaybeSplitOffFrame_def)
    next
      case n0: False
      define g where "g = f\<lparr>sf_Fin := False, sf_Data := take (nat n) (sf_Data f)\<rparr>"
      have lg: "length (sf_Data g) = nat n" using n(2,3) by (simp add: g_def k_def)
      have "StreamFrame_Length g = Some (h + (if q then length (varint_bytes (of_nat (nat n))) else 0) + nat n)"
        using L [of g] lg n k by (simp add: g_def q_def)
      moreover have "int (h + (if q then length (varint_bytes (of_nat (nat n))) else 0) + nat n) \<le> maxSize" using n n0 by simp
      moreover have "StreamFrame_MaybeSplitOffFrame f maxSize = Some ((Some g, True), f\<lparr>sf_Data := drop (nat n) (sf_Data f), sf_Offset := sf_Offset f + n\<rparr>)"
        using False n0 n k assms(5) M by (simp add: StreamFrame_MaybeSplitOffFrame_def g_def k_def)
      moreover have "sf_Data g \<noteq> []" "drop (nat n) (sf_Data f) \<noteq> []" using lg n n0 by (auto simp: k_def)
      ultimately show ?thesis using False n lg by (simp add: g_def)
    qed
  qed
qed

theorem stream_split_exact_witness:
  "StreamFrame_MaybeSplitOffFrame \<lparr>sf_StreamID = 4, sf_Offset = 100, sf_Data = [1, 2, 3], sf_Fin = True, sf_DataLenPresent = True\<rparr> 6 =
     Some ((Some \<lparr>sf_StreamID = 4, sf_Offset = 100, sf_Data = [1], sf_Fin = False, sf_DataLenPresent = True\<rparr>, True),
           \<lparr>sf_StreamID = 4, sf_Offset = 101, sf_Data = [2, 3], sf_Fin = True, sf_DataLenPresent = True\<rparr>) \<and> (6::int) < 8"
proof -
  define f where "f = \<lparr>sf_StreamID = 4, sf_Offset = 100, sf_Data = [1, 2, 3 :: byte], sf_Fin = True, sf_DataLenPresent = True\<rparr>"
  have l: "StreamFrame_Length f = Some 8" unfolding f_def by code_simp
  have s: "StreamFrame_MaybeSplitOffFrame f 6 =
     Some ((Some \<lparr>sf_StreamID = 4, sf_Offset = 100, sf_Data = [1], sf_Fin = False, sf_DataLenPresent = True\<rparr>, True),
           \<lparr>sf_StreamID = 4, sf_Offset = 101, sf_Data = [2, 3], sf_Fin = True, sf_DataLenPresent = True\<rparr>)"
    unfolding f_def by code_simp
  have "num62 (sf_StreamID f)" "num62 (sf_Offset f)" "sf_Data f \<noteq> []" "length (sf_Data f) \<le> MaxPacketBufferSize"
    by (simp_all add: f_def num62_def MaxPacketBufferSize_def)
  from stream_split_exact [OF this l, of 6] show ?thesis unfolding s f_def [symmetric] by simp
qed

end
