(* ===== verification/Quic_Sorter.thy ===== *)
theory Quic_Sorter
  imports Prelude Quic_Tree Quic_Frames "HOL-Library.AList" "HOL-Library.Multiset"
begin

text \<open>
  The frame sorter (\<open>frame_sorter.go\<close>), which puts the frames of a stream in order. The queue is an association list by
  offset, the gaps are in the tree of \<open>Quic_Tree\<close>. A callback is a number and \<open>called\<close> records the callbacks that ran; the
  code after a panic does not run. Offsets are non-negative and at most \<open>2 ^ 62 - 1\<close>, so that no sum leaves the range of
  \<open>int64\<close>; a slice expression beyond the length of the data is a panic.
\<close>

section \<open>The sorter\<close>

datatype sorter_err = errDuplicateStreamData | errTooManyGaps | errTooLittleData | SorterPanic

record frameSorterEntry =
  entry_Data :: "byte list"
  DoneCb :: "nat option"

record frameSorter =
  queue :: "(int \<times> frameSorterEntry) list"
  readPos :: int
  gapTree :: "ByteInterval Btree"
  called :: "nat list"


definition MaxStreamFrameSorterGaps :: int where "MaxStreamFrameSorterGaps = 20000"

definition newFrameSorter :: "frameSorter option" where
  "newFrameSorter = map_option (\<lambda>t. \<lparr>queue = [], readPos = 0, gapTree = t, called = []\<rparr>)
     (Insert Comp (ByteInterval 0 MaxByteCount) Btree_New)"

text \<open>\<open>if cb != nil { cb() }\<close>, the operations of the tree, and the slices \<open>data[:n]\<close> and \<open>data[n:]\<close>.\<close>

definition run_cb :: "nat option \<Rightarrow> frameSorter \<Rightarrow> frameSorter" where
  "run_cb cb s = (case cb of None \<Rightarrow> s | Some c \<Rightarrow> s\<lparr>called := called s @ [c]\<rparr>)"

definition on_tree :: "(ByteInterval Btree \<Rightarrow> ByteInterval Btree option) \<Rightarrow> (sorter_err, frameSorter, unit) eff" where
  "on_tree f s = (case f (gapTree s) of None \<Rightarrow> (Inl SorterPanic, s) | Some t \<Rightarrow> (Inr (), s\<lparr>gapTree := t\<rparr>))"

definition slice_to :: "int \<Rightarrow> byte list \<Rightarrow> (sorter_err, frameSorter, byte list) eff" where
  "slice_to n data = (if 0 \<le> n \<and> n \<le> int (length data) then ret (take (nat n) data) else fail SorterPanic)"

definition slice_from :: "int \<Rightarrow> byte list \<Rightarrow> (sorter_err, frameSorter, byte list) eff" where
  "slice_from n data = (if 0 \<le> n \<and> n \<le> int (length data) then ret (drop (nat n) data) else fail SorterPanic)"

text \<open>
  The loop that removes the queued frames which the new frame covers, from \<open>pos\<close> on. It returns the position it reached,
  \<open>hasReplacedAtLeastOne\<close>, and whether a longer queued frame starts there.
\<close>

function replace_loop :: "int \<Rightarrow> int \<Rightarrow> bool \<Rightarrow> (sorter_err, frameSorter, int \<times> bool \<times> bool) eff" where
  "replace_loop t_end pos hasReplaced s =
     (case map_of (queue s) pos of None \<Rightarrow> (Inr (pos, hasReplaced, False), s)
      | Some oldEntry \<Rightarrow>
          (let oldEntryLen = int (length (entry_Data oldEntry)) in
           if t_end - pos > oldEntryLen \<or> (hasReplaced \<and> t_end - pos = oldEntryLen)
           then replace_loop t_end (pos + oldEntryLen) True (run_cb (DoneCb oldEntry) (s\<lparr>queue := AList.delete pos (queue s)\<rparr>))
           else if \<not> hasReplaced then (Inl errDuplicateStreamData, s)
           else (Inr (pos, hasReplaced, True), s)))"
  by pat_completeness auto

function deleteConsecutive :: "int \<Rightarrow> frameSorter \<Rightarrow> frameSorter" where
  "deleteConsecutive pos s =
     (case map_of (queue s) pos of None \<Rightarrow> s
      | Some oldEntry \<Rightarrow>
          deleteConsecutive (pos + int (length (entry_Data oldEntry)))
            (run_cb (DoneCb oldEntry) (s\<lparr>queue := AList.delete pos (queue s)\<rparr>)))"
  by pat_completeness auto

lemma run_cb_simps [simp]:
  "queue (run_cb cb s) = queue s" "readPos (run_cb cb s) = readPos s" "gapTree (run_cb cb s) = gapTree s"
  "called (run_cb cb s) = called s @ (case cb of None \<Rightarrow> [] | Some c \<Rightarrow> [c])"
  by (simp_all add: run_cb_def split: option.split)

lemma delete_shorter: "map_of xs k = Some v \<Longrightarrow> length (AList.delete k xs) < length xs"
  unfolding AList.delete_eq by (rule length_filter_less [of "(k, v)"]) (auto dest: map_of_SomeD)

lemma set_delete_eq: "set (AList.delete k xs) = {(k', v) \<in> set xs. k' \<noteq> k}"
  by (auto simp: AList.delete_eq)

termination replace_loop
  by (relation "measure (\<lambda>(t_end, pos, r, s). length (queue s))") (auto simp: delete_shorter)

termination deleteConsecutive
  by (relation "measure (\<lambda>(pos, s). length (queue s))") (auto simp: delete_shorter)

declare replace_loop.simps [simp del] and deleteConsecutive.simps [simp del]

text \<open>The first gap: it is deleted, or it keeps its part after or before the frame. The result is \<open>adjustedStartGapEnd\<close>.\<close>

definition fit_start_gap :: "ByteInterval \<Rightarrow> int \<Rightarrow> int \<Rightarrow> bool \<Rightarrow> (sorter_err, frameSorter, bool) eff" where
  "fit_start_gap startGap start t_end hasReplaced =
     (if start \<le> bi_Start startGap then
        (if t_end \<ge> bi_End startGap then bnd (on_tree (Delete Comp startGap)) (\<lambda>_. ret False)
         else bnd (on_tree (Delete Comp startGap)) (\<lambda>_.
           bnd (on_tree (Insert Comp (ByteInterval t_end (bi_End startGap)))) (\<lambda>_. ret False)))
      else if \<not> hasReplaced then
        bnd (on_tree (Delete Comp startGap)) (\<lambda>_.
          bnd (on_tree (Insert Comp (ByteInterval (bi_Start startGap) start))) (\<lambda>_. ret True))
      else ret False)"

text \<open>The gaps between the first and the last one.\<close>

fun clear_gaps :: "int \<Rightarrow> ByteInterval list \<Rightarrow> (sorter_err, frameSorter, unit) eff" where
  "clear_gaps endGapStart [] = ret ()"
| "clear_gaps endGapStart (g # gs) =
     (if bi_End g \<ge> endGapStart then ret ()
      else bnd (modify (deleteConsecutive (bi_End g))) (\<lambda>_. bnd (on_tree (Delete Comp g)) (\<lambda>_. clear_gaps endGapStart gs)))"

definition fit_end_gap :: "ByteInterval \<Rightarrow> ByteInterval \<Rightarrow> bool \<Rightarrow> bool \<Rightarrow> int \<Rightarrow> (sorter_err, frameSorter, unit) eff" where
  "fit_end_gap startGap endGap one adjusted t_end =
     (if t_end = bi_End endGap then
        (if \<not> one then on_tree (Delete Comp endGap) else ret ())
      else if one \<and> adjusted then on_tree (Insert Comp (ByteInterval t_end (bi_End startGap)))
      else if \<not> one then
        bnd (on_tree (Delete Comp endGap)) (\<lambda>_. on_tree (Insert Comp (ByteInterval t_end (bi_End endGap))))
      else ret ())"

text \<open>The end of \<open>push\<close>: a short rest of a frame is copied, and the frame is queued.\<close>

definition store_frame :: "byte list \<Rightarrow> int \<Rightarrow> bool \<Rightarrow> nat option \<Rightarrow> (sorter_err, frameSorter, unit) eff" where
  "store_frame data start wasCut doneCb =
     (let copied = wasCut \<and> length data < MinStreamFrameBufferSize in
      bnd (modify (if copied then run_cb doneCb else id)) (\<lambda>_.
      bnd (gets (\<lambda>s. Btree_Len (gapTree s))) (\<lambda>n.
      bnd (require (\<not> n > MaxStreamFrameSorterGaps) errTooManyGaps) (\<lambda>_.
        modify (\<lambda>s. s\<lparr>queue := AList.update start \<lparr>entry_Data = data, DoneCb = (if copied then None else doneCb)\<rparr> (queue s)\<rparr>)))))"

text \<open>
  The frame is cut where a longer queued frame starts, at the start of the first gap, and at the end of the last gap. Each
  step returns the rest of the data with its new end or start.
\<close>

definition cut_at_longer :: "bool \<Rightarrow> int \<Rightarrow> int \<Rightarrow> int \<Rightarrow> byte list \<Rightarrow> (sorter_err, frameSorter, byte list \<times> int) eff" where
  "cut_at_longer longer pos start t_end data =
     (if longer then bnd (slice_to (pos - start) data) (\<lambda>data. ret (data, pos)) else ret (data, t_end))"

definition cut_to_gap :: "bool \<Rightarrow> ByteInterval \<Rightarrow> int \<Rightarrow> byte list \<Rightarrow> (sorter_err, frameSorter, byte list \<times> int) eff" where
  "cut_to_gap cutting startGap start data =
     (if cutting then bnd (slice_from (bi_Start startGap - start) data) (\<lambda>data. ret (data, bi_Start startGap)) else ret (data, start))"

definition clear_between :: "ByteInterval list \<Rightarrow> (sorter_err, frameSorter, unit) eff" where
  "clear_between gaps =
     (if length gaps \<noteq> 1 then bnd (modify (deleteConsecutive (bi_End (hd gaps)))) (\<lambda>_. clear_gaps (bi_Start (last gaps)) (tl gaps))
      else ret ())"

definition cut_at_gap_end :: "bool \<Rightarrow> ByteInterval \<Rightarrow> int \<Rightarrow> int \<Rightarrow> byte list \<Rightarrow> (sorter_err, frameSorter, byte list \<times> int) eff" where
  "cut_at_gap_end cutting endGap start t_end data =
     (if cutting then bnd (slice_to (bi_End endGap - start) data) (\<lambda>data. ret (data, bi_End endGap)) else ret (data, t_end))"

definition push_into :: "ByteInterval list \<Rightarrow> byte list \<Rightarrow> int \<Rightarrow> int \<Rightarrow> nat option \<Rightarrow> (sorter_err, frameSorter, unit) eff" where
  "push_into gaps data start t_end doneCb =
     (let startGap = hd gaps; endGap = last gaps; one = (length gaps = 1);
          startsInGap = (start \<ge> bi_Start startGap \<and> start \<le> bi_End startGap);
          endsInGap = (t_end \<ge> bi_Start endGap \<and> t_end < bi_End endGap) in
      bnd (replace_loop t_end start False) (\<lambda>(pos, hasReplaced, longer).
      bnd (cut_at_longer longer pos start t_end data) (\<lambda>(data, t_end).
      let cutting = (\<not> startsInGap \<and> \<not> hasReplaced) in
      bnd (cut_to_gap cutting startGap start data) (\<lambda>(data, start).
      bnd (fit_start_gap startGap start t_end hasReplaced) (\<lambda>adjusted.
      bnd (clear_between gaps) (\<lambda>_.
      let cutting_end = (\<not> endsInGap \<and> start \<noteq> bi_End endGap \<and> t_end > bi_End endGap) in
      bnd (cut_at_gap_end cutting_end endGap start t_end data) (\<lambda>(data, t_end).
      bnd (fit_end_gap startGap endGap one adjusted t_end) (\<lambda>_.
      store_frame data start (longer \<or> cutting \<or> cutting_end) doneCb))))))))"

definition push :: "byte list \<Rightarrow> int \<Rightarrow> nat option \<Rightarrow> (sorter_err, frameSorter, unit) eff" where
  "push data offset doneCb =
     bnd (require (data \<noteq> []) errDuplicateStreamData) (\<lambda>_.
     let start = offset; t_end = offset + int (length data) in
     bnd (gets (\<lambda>s. Btree_Match Match (ByteInterval start t_end) (gapTree s))) (\<lambda>gaps.
     bnd (require (gaps \<noteq> []) errDuplicateStreamData) (\<lambda>_.
     bnd (require (\<not> (length gaps = 1 \<and> t_end \<le> bi_Start (hd gaps))) errDuplicateStreamData) (\<lambda>_.
     push_into gaps data start t_end doneCb))))"

definition Push :: "byte list \<Rightarrow> int \<Rightarrow> nat option \<Rightarrow> (sorter_err, frameSorter, unit) eff" where
  "Push data offset doneCb =
     handle (push data offset doneCb)
       (\<lambda>e. if e = errDuplicateStreamData then modify (run_cb doneCb) else fail e)"

definition Pop :: "frameSorter \<Rightarrow> (int \<times> byte list option \<times> nat option) \<times> frameSorter" where
  "Pop s =
     (case map_of (queue s) (readPos s) of None \<Rightarrow> ((readPos s, None, None), s)
      | Some entry \<Rightarrow>
          ((readPos s, Some (entry_Data entry), DoneCb entry),
           s\<lparr>queue := AList.delete (readPos s) (queue s), readPos := readPos s + int (length (entry_Data entry))\<rparr>))"

definition HasMoreData :: "frameSorter \<Rightarrow> bool" where
  "HasMoreData s \<longleftrightarrow> length (queue s) > 0"

text \<open>
  \<open>Peek\<close> into a slice of the given length. Its loops would not end on an empty frame; that is \<open>None\<close>.
\<close>

partial_function (option) peek_check :: "frameSorter \<Rightarrow> int \<Rightarrow> int \<Rightarrow> (sorter_err option) option" where
  "peek_check s pos remaining =
     (if remaining > 0 then
        (case map_of (queue s) pos of None \<Rightarrow> Some (Some errTooLittleData)
         | Some entry \<Rightarrow>
             (if remaining \<le> int (length (entry_Data entry)) then Some None
              else peek_check s (pos + int (length (entry_Data entry))) (remaining - int (length (entry_Data entry)))))
      else Some None)"

partial_function (option) peek_copy :: "frameSorter \<Rightarrow> int \<Rightarrow> nat \<Rightarrow> byte list \<Rightarrow> byte list option" where
  "peek_copy s pos n copied =
     (if length copied < n then
        (let data = (case map_of (queue s) pos of None \<Rightarrow> [] | Some entry \<Rightarrow> entry_Data entry) in
         peek_copy s (pos + int (length data)) n (copied @ take (n - length copied) data))
      else Some copied)"

definition Peek :: "int \<Rightarrow> nat \<Rightarrow> frameSorter \<Rightarrow> (sorter_err + byte list) option" where
  "Peek offset n s =
     (if n = 0 then Some (Inr [])
      else Option.bind (peek_check s offset (int n)) (\<lambda>r.
        (case r of Some e \<Rightarrow> Some (Inl e) | None \<Rightarrow> map_option Inr (peek_copy s offset n []))))"

declare peek_check.simps [code] and peek_copy.simps [code]

section \<open>Queues\<close>

abbreviation elen :: "frameSorterEntry \<Rightarrow> int" where "elen e \<equiv> int (length (entry_Data e))"

text \<open>The bytes that are queued; the queued frames are not empty and do not overlap.\<close>

definition covers :: "(int \<times> frameSorterEntry) list \<Rightarrow> int \<Rightarrow> bool" where
  "covers q p \<longleftrightarrow> (\<exists>(k, e) \<in> set q. k \<le> p \<and> p < k + elen e)"

lemma coversI: "(k, e) \<in> set q \<Longrightarrow> k \<le> p \<Longrightarrow> p < k + elen e \<Longrightarrow> covers q p"
  by (auto simp: covers_def)

definition entries_ok :: "(int \<times> frameSorterEntry) list \<Rightarrow> bool" where
  "entries_ok q \<longleftrightarrow> distinct (map fst q) \<and> (\<forall>(k, e) \<in> set q. entry_Data e \<noteq> []) \<and>
     (\<forall>(k, e) \<in> set q. \<forall>(k', e') \<in> set q. k < k' \<longrightarrow> k + elen e \<le> k')"

definition removed :: "(int \<times> frameSorterEntry) list \<Rightarrow> int \<Rightarrow> int \<Rightarrow> (int \<times> frameSorterEntry) list" where
  "removed q a b = filter (\<lambda>(k, e). \<not> (a \<le> k \<and> k < b)) q"

lemma entries_ok_lookup: "entries_ok q \<Longrightarrow> map_of q k = Some e \<longleftrightarrow> (k, e) \<in> set q"
  by (simp add: entries_ok_def)

lemma entries_ok_filter: "entries_ok q \<Longrightarrow> entries_ok (filter P q)"
  by (auto simp: entries_ok_def distinct_map_filter)

lemma entries_ok_delete: "entries_ok q \<Longrightarrow> entries_ok (AList.delete k q)"
  by (simp add: AList.delete_eq entries_ok_filter)

lemma entries_ok_removed: "entries_ok q \<Longrightarrow> entries_ok (removed q a b)"
  by (simp add: removed_def entries_ok_filter)

lemma set_removed: "set (removed q a b) = {(k, e) \<in> set q. \<not> (a \<le> k \<and> k < b)}"
  by (auto simp: removed_def)

lemma removed_empty: "b \<le> a \<Longrightarrow> removed q a b = q"
  by (auto simp: removed_def filter_id_conv)

lemma entries_okD:
  assumes "entries_ok q"
  shows "(k, e) \<in> set q \<Longrightarrow> 0 < elen e" "(k, e) \<in> set q \<Longrightarrow> (k', e') \<in> set q \<Longrightarrow> k < k' \<Longrightarrow> k + elen e \<le> k'"
    "(k, e) \<in> set q \<Longrightarrow> (k, e') \<in> set q \<Longrightarrow> e = e'"
  using assms by (auto simp: entries_ok_def dest: eq_key_imp_eq_value)

lemma removed_delete:
  assumes "entries_ok q" and "(a, e) \<in> set q" and "a + elen e \<le> b"
  shows "removed (AList.delete a q) (a + elen e) b = removed q a b"
proof -
  have "a < b" using entries_okD(1) [OF assms(1,2)] assms(3) by linarith
  then have "(a \<noteq> k \<and> \<not> (a + elen e \<le> k \<and> k < b)) = (\<not> (a \<le> k \<and> k < b))" if "(k, e') \<in> set q" for k e'
    using entries_okD(2) [OF assms(1,2) that] assms(3) by auto
  then show ?thesis by (auto simp: removed_def AList.delete_eq intro!: filter_cong)
qed

lemma removed_removed: "b \<le> c \<Longrightarrow> a \<le> b \<Longrightarrow> removed (removed q a b) b c = removed q a c"
  by (auto simp: removed_def intro!: filter_cong)

text \<open>The callbacks that ran or will run.\<close>

definition held :: "(int \<times> frameSorterEntry) list \<Rightarrow> nat multiset" where
  "held q = mset (List.map_filter (DoneCb \<circ> snd) q)"

definition tokens :: "frameSorter \<Rightarrow> nat multiset" where
  "tokens s = mset (called s) + held (queue s)"

definition cb_set :: "nat option \<Rightarrow> nat multiset" where
  "cb_set cb = (case cb of None \<Rightarrow> {#} | Some c \<Rightarrow> {#c#})"

lemma held_simps [simp]: "held [] = {#}" "held ((k, e) # q) = cb_set (DoneCb e) + held q" "held (q @ q') = held q + held q'"
  by (auto simp: held_def List.map_filter_def cb_set_def)

lemma held_delete: "distinct (map fst q) \<Longrightarrow> (k, e) \<in> set q \<Longrightarrow> held q = cb_set (DoneCb e) + held (AList.delete k q)"
proof (induction q)
  case (Cons x q)
  show ?case
  proof (cases "x = (k, e)")
    case True
    with Cons.prems have "AList.delete k q = q" by (auto simp: AList.delete_eq filter_id_conv rev_image_eqI)
    with True show ?thesis by simp
  next
    case False
    with Cons show ?thesis by (cases x) (auto simp: rev_image_eqI)
  qed
qed simp

lemma mset_called: "mset (called (run_cb cb s)) = mset (called s) + cb_set cb"
  by (simp add: cb_set_def split: option.split)

lemma tokens_delete:
  "entries_ok (queue s) \<Longrightarrow> (k, e) \<in> set (queue s) \<Longrightarrow>
    tokens (run_cb (DoneCb e) (s\<lparr>queue := AList.delete k (queue s)\<rparr>)) = tokens s"
  by (simp add: tokens_def entries_ok_def held_delete [of "queue s" k e] mset_called del: run_cb_simps(4))

text \<open>What a loop over consecutive frames does: it removes the frames from \<open>a\<close> to \<open>b\<close>, which fill that range.\<close>

definition swept :: "int \<Rightarrow> int \<Rightarrow> frameSorter \<Rightarrow> frameSorter \<Rightarrow> bool" where
  "swept a b s s' \<longleftrightarrow> a \<le> b \<and> queue s' = removed (queue s) a b \<and> readPos s' = readPos s \<and> gapTree s' = gapTree s \<and>
     tokens s' = tokens s \<and> (\<forall>p. a \<le> p \<longrightarrow> p < b \<longrightarrow> covers (queue s) p) \<and>
     (\<forall>(k, e) \<in> set (queue s). a \<le> k \<longrightarrow> k < b \<longrightarrow> k + elen e \<le> b)"

lemma swept_refl: "swept a a s s"
  by (auto simp: swept_def removed_empty)

lemma swept_step:
  assumes "entries_ok (queue s)" and "(a, e) \<in> set (queue s)"
    and "swept (a + elen e) b (run_cb (DoneCb e) (s\<lparr>queue := AList.delete a (queue s)\<rparr>)) s'"
  shows "swept a b s s'"
proof -
  have le: "a + elen e \<le> b" using assms(3) by (simp add: swept_def)
  have "covers (queue s) p" if "a \<le> p" "p < b" for p
  proof (cases "p < a + elen e")
    case True
    then show ?thesis using that assms(2) by (auto simp: covers_def)
  next
    case False
    then have "covers (AList.delete a (queue s)) p" using that assms(3) by (simp add: swept_def)
    then show ?thesis by (auto simp: covers_def AList.delete_eq)
  qed
  moreover have "k + elen e' \<le> b" if "(k, e') \<in> set (queue s)" "a \<le> k" "k < b" for k e'
  proof (cases "k = a")
    case True
    then show ?thesis using entries_okD(3) [OF assms(1)] that assms(2) le by auto
  next
    case False
    then have "(k, e') \<in> set (AList.delete a (queue s))" "a + elen e \<le> k"
      using that entries_okD(2) [OF assms(1,2) that(1)] by (auto simp: AList.delete_eq)
    then show ?thesis using assms(3) that by (auto simp: swept_def)
  qed
  ultimately show ?thesis
    using assms(3) removed_delete [OF assms(1,2) le] tokens_delete [OF assms(1,2)] entries_okD(1) [OF assms(1,2)]
    by (auto simp: swept_def)
qed

lemma deleteConsecutive_swept:
  "entries_ok (queue s) \<Longrightarrow> \<exists>b. swept pos b s (deleteConsecutive pos s) \<and> map_of (queue s) b = None"
proof (induction pos s rule: deleteConsecutive.induct)
  case (1 pos s)
  show ?case
  proof (cases "map_of (queue s) pos")
    case None
    then show ?thesis using swept_refl by (auto simp: deleteConsecutive.simps [of pos s])
  next
    case (Some e)
    define s1 where "s1 = run_cb (DoneCb e) (s\<lparr>queue := AList.delete pos (queue s)\<rparr>)"
    have e: "(pos, e) \<in> set (queue s)" using Some "1.prems" by (simp add: entries_ok_lookup)
    obtain b where b: "swept (pos + elen e) b s1 (deleteConsecutive (pos + elen e) s1)" "map_of (queue s1) b = None"
      using "1.IH" [OF Some] "1.prems" by (auto simp: s1_def entries_ok_delete)
    have "swept pos b s (deleteConsecutive pos s)"
      using swept_step [OF "1.prems" e b(1) [unfolded s1_def]] Some by (simp add: deleteConsecutive.simps [of pos s])
    moreover have "b \<noteq> pos" using b(1) entries_okD(1) [OF "1.prems" e] by (auto simp: swept_def)
    ultimately show ?thesis using b(2) by (auto simp: s1_def AList.delete_conv)
  qed
qed

lemma replace_loop_swept:
  assumes "entries_ok (queue s)" and "pos \<le> t_end"
  shows "(replace_loop t_end pos rep s = (Inl errDuplicateStreamData, s) \<and> \<not> rep \<and>
      (\<exists>e. (pos, e) \<in> set (queue s) \<and> t_end \<le> pos + elen e)) \<or>
    (\<exists>b longer s'. replace_loop t_end pos rep s = (Inr (b, rep \<or> pos < b, longer), s') \<and> swept pos b s s' \<and> b \<le> t_end \<and>
      (if longer then (\<exists>e. (b, e) \<in> set (queue s) \<and> t_end < b + elen e) \<and> (rep \<or> pos < b) else map_of (queue s) b = None))"
  using assms
proof (induction t_end pos rep s rule: replace_loop.induct)
  case (1 t_end pos rep s)
  show ?case
  proof (cases "map_of (queue s) pos")
    case None
    then show ?thesis using swept_refl [of pos s] "1.prems"
      by (intro disjI2 exI [of _ pos] exI [of _ False] exI [of _ s]) (simp add: replace_loop.simps [of t_end pos rep s])
  next
    case (Some e)
    have e: "(pos, e) \<in> set (queue s)" "0 < elen e"
      using Some "1.prems" entries_okD(1) [OF "1.prems"(1)] by (auto simp: entries_ok_lookup)
    show ?thesis
    proof (cases "t_end - pos > elen e \<or> (rep \<and> t_end - pos = elen e)")
      case True
      define s1 where "s1 = run_cb (DoneCb e) (s\<lparr>queue := AList.delete pos (queue s)\<rparr>)"
      have run: "replace_loop t_end pos rep s = replace_loop t_end (pos + elen e) True s1"
        using Some True by (simp add: replace_loop.simps [of t_end pos rep s] s1_def Let_def)
      have pre: "entries_ok (queue s1)" "pos + elen e \<le> t_end" using "1.prems" True by (auto simp: s1_def entries_ok_delete)
      obtain b longer s' where b: "replace_loop t_end (pos + elen e) True s1 = (Inr (b, True, longer), s')"
        "swept (pos + elen e) b s1 s'" "b \<le> t_end"
        "if longer then \<exists>e. (b, e) \<in> set (queue s1) \<and> t_end < b + elen e else map_of (queue s1) b = None"
        using "1.IH" [OF Some refl True, folded s1_def] pre by auto
      have "pos < b" using b(2) e(2) unfolding swept_def by linarith
      moreover from this have "if longer then \<exists>e. (b, e) \<in> set (queue s) \<and> t_end < b + elen e else map_of (queue s) b = None"
        using b(4) by (auto simp: s1_def AList.delete_conv' set_delete_eq split: if_splits)
      ultimately show ?thesis
        using run b(1,3) swept_step [OF "1.prems"(1) e(1) b(2) [unfolded s1_def]] by (auto split: if_splits)
    next
      case False
      show ?thesis
      proof (cases rep)
        case True
        then show ?thesis using Some False e "1.prems" swept_refl [of pos s]
          by (intro disjI2 exI [of _ pos] exI [of _ True] exI [of _ s]) (auto simp: replace_loop.simps [of t_end pos True s] Let_def)
      next
        case no: False
        then have "replace_loop t_end pos rep s = (Inl errDuplicateStreamData, s)"
          using Some False by (simp add: replace_loop.simps [of t_end pos False s] Let_def)
        then show ?thesis using no False e by auto
      qed
    qed
  qed
qed

section \<open>The invariant\<close>

definition agrees :: "(int \<Rightarrow> byte) \<Rightarrow> int \<Rightarrow> byte list \<Rightarrow> bool" where
  "agrees f k d \<longleftrightarrow> (\<forall>i < length d. d ! i = f (k + int i))"

definition in_gaps :: "ByteInterval set \<Rightarrow> int \<Rightarrow> bool" where
  "in_gaps G p \<longleftrightarrow> (\<exists>g \<in> G. bi_Start g \<le> p \<and> p < bi_End g)"

definition separated :: "ByteInterval set \<Rightarrow> bool" where
  "separated G \<longleftrightarrow> (\<forall>g \<in> G. \<forall>h \<in> G. g \<noteq> h \<longrightarrow> bi_End g < bi_Start h \<or> bi_End h < bi_Start g)"

definition gaps_of :: "frameSorter \<Rightarrow> ByteInterval set" where
  "gaps_of s = set (inorder (root (gapTree s)))"

definition gaps_ok :: "int \<Rightarrow> ByteInterval set \<Rightarrow> bool" where
  "gaps_ok r G \<longleftrightarrow> separated G \<and> (\<forall>g \<in> G. r \<le> bi_Start g \<and> bi_Start g < bi_End g \<and> bi_End g \<le> MaxByteCount)"

text \<open>
  The stream has the bytes \<open>f\<close>. Every byte from the read position on is queued, with the right value, or in a gap, and not both.
\<close>

definition sorter_ok :: "(int \<Rightarrow> byte) \<Rightarrow> frameSorter \<Rightarrow> bool" where
  "sorter_ok f s \<longleftrightarrow> intervals.tree_ok (gapTree s) \<and> len (gapTree s) \<le> MaxStreamFrameSorterGaps \<and>
     0 \<le> readPos s \<and> gaps_ok (readPos s) (gaps_of s) \<and> entries_ok (queue s) \<and>
     (\<forall>(k, e) \<in> set (queue s). readPos s \<le> k \<and> k + elen e \<le> MaxByteCount \<and> agrees f k (entry_Data e)) \<and>
     (\<forall>p. readPos s \<le> p \<longrightarrow> p < MaxByteCount \<longrightarrow> (covers (queue s) p \<longleftrightarrow> \<not> in_gaps (gaps_of s) p))"

definition no_straddle :: "(int \<times> frameSorterEntry) list \<Rightarrow> int \<Rightarrow> bool" where
  "no_straddle q a \<longleftrightarrow> (\<forall>(k, e) \<in> set q. k < a \<longrightarrow> k + elen e \<le> a)"

lemma sorter_okD:
  assumes "sorter_ok f s"
  shows "intervals.tree_ok (gapTree s)" "len (gapTree s) \<le> MaxStreamFrameSorterGaps" "0 \<le> readPos s"
    "separated (gaps_of s)" "g \<in> gaps_of s \<Longrightarrow> readPos s \<le> bi_Start g" "g \<in> gaps_of s \<Longrightarrow> bi_Start g < bi_End g"
    "g \<in> gaps_of s \<Longrightarrow> bi_End g \<le> MaxByteCount" "entries_ok (queue s)"
    "(k, e) \<in> set (queue s) \<Longrightarrow> readPos s \<le> k" "(k, e) \<in> set (queue s) \<Longrightarrow> k + elen e \<le> MaxByteCount"
    "(k, e) \<in> set (queue s) \<Longrightarrow> agrees f k (entry_Data e)"
    "readPos s \<le> p \<Longrightarrow> p < MaxByteCount \<Longrightarrow> covers (queue s) p \<longleftrightarrow> \<not> in_gaps (gaps_of s) p"
  using assms by (auto simp: sorter_ok_def gaps_ok_def)

lemma gap_not_covered:
  assumes "sorter_ok f s" and "g \<in> gaps_of s" and "bi_Start g \<le> p" and "p < bi_End g"
  shows "\<not> covers (queue s) p"
proof -
  have "in_gaps (gaps_of s) p" using assms by (auto simp: in_gaps_def)
  moreover have "readPos s \<le> p" "p < MaxByteCount"
    using sorter_okD(5,7) [OF assms(1,2)] assms(3,4) by linarith+
  ultimately show ?thesis using sorter_okD(12) [OF assms(1)] by blast
qed

lemma gap_no_key:
  assumes "sorter_ok f s" and "g \<in> gaps_of s" and "(k, e) \<in> set (queue s)" and "bi_Start g \<le> k"
  shows "bi_End g \<le> k"
proof (rule ccontr)
  assume "\<not> ?thesis"
  then have "\<not> covers (queue s) k" using gap_not_covered [OF assms(1,2,4)] by simp
  moreover have "covers (queue s) k" using assms(3) entries_okD(1) [OF sorter_okD(8) [OF assms(1)] assms(3)] by (force simp: covers_def)
  ultimately show False by contradiction
qed

lemma gap_no_straddle:
  assumes "sorter_ok f s" and "g \<in> gaps_of s" and "bi_Start g \<le> c" and "c \<le> bi_End g"
  shows "no_straddle (queue s) c"
proof -
  have "k + elen e \<le> c" if "(k, e) \<in> set (queue s)" "k < c" for k e
  proof (rule ccontr)
    assume over: "\<not> ?thesis"
    have "k < bi_Start g" using gap_no_key [OF assms(1,2) that(1)] that(2) assms(4) by linarith
    then have "covers (queue s) (bi_Start g)" using that over assms(3) by (intro coversI [of k e]) auto
    then show False using gap_not_covered [OF assms(1,2)] sorter_okD(6) [OF assms(1,2)] by blast
  qed
  then show ?thesis by (auto simp: no_straddle_def)
qed

lemma entry_no_straddle: "entries_ok q \<Longrightarrow> (a, e) \<in> set q \<Longrightarrow> no_straddle q a"
  using entries_okD(2) by (fastforce simp: no_straddle_def)

lemma swept_no_straddle: "swept a b s s' \<Longrightarrow> no_straddle (queue s) a \<Longrightarrow> no_straddle (queue s) b"
  unfolding swept_def no_straddle_def by force

lemma no_straddle_covers:
  assumes "entries_ok q" and "no_straddle q a" and "covers q a"
  shows "\<exists>e. (a, e) \<in> set q"
proof -
  obtain k e where "(k, e) \<in> set q" "k \<le> a" "a < k + elen e" using assms(3) by (auto simp: covers_def)
  moreover then have "\<not> k < a" using assms(2) by (fastforce simp: no_straddle_def)
  ultimately show ?thesis by auto
qed

text \<open>A loop over consecutive frames stops at the first byte that is not queued.\<close>

lemma swept_until:
  assumes "entries_ok (queue s)" and "swept a b s s'" and "no_straddle (queue s) a" and "map_of (queue s) b = None"
    and "\<And>p. a \<le> p \<Longrightarrow> p < c \<Longrightarrow> covers (queue s) p" and "\<not> covers (queue s) c" and "a \<le> c"
  shows "b = c"
proof -
  have "\<not> covers (queue s) b"
    using no_straddle_covers [OF assms(1) swept_no_straddle [OF assms(2,3)]] assms(1,4) by (auto simp: entries_ok_lookup [symmetric])
  then have "\<not> b < c" using assms(2,5) by (auto simp: swept_def)
  moreover have "\<not> c < b" using assms(2,6,7) by (auto simp: swept_def)
  ultimately show ?thesis by linarith
qed

section \<open>The gaps\<close>

definition tree_at :: "ByteInterval set \<Rightarrow> int \<Rightarrow> ByteInterval Btree \<Rightarrow> bool" where
  "tree_at G n t \<longleftrightarrow> intervals.tree_ok t \<and> set (inorder (root t)) = G \<and> len t \<le> n"

lemma tree_at_mono: "tree_at G n t \<Longrightarrow> n \<le> m \<Longrightarrow> tree_at G m t"
  by (simp add: tree_at_def)

lemma tree_unchanged: "tree_at G n (gapTree s) \<Longrightarrow> \<exists>t. s = s\<lparr>gapTree := t\<rparr> \<and> tree_at G (n + 1) t"
  by (intro exI [of _ "gapTree s"]) (simp add: tree_at_def)

lemma on_tree_Delete:
  assumes "tree_at G n (gapTree s)" and "n < 2 ^ 62"
  shows "\<exists>t. on_tree (Delete Comp g) s = (Inr (), s\<lparr>gapTree := t\<rparr>) \<and> tree_at (G - {g}) n t"
proof -
  obtain t where t: "Delete Comp g (gapTree s) = Some t" "intervals.tree_ok t"
    "inorder (root t) = filter (\<lambda>x. x \<noteq> g) (inorder (root (gapTree s)))"
    using intervals.Delete_ok [of "gapTree s" g] assms by (auto simp: tree_at_def)
  then have "len t \<le> len (gapTree s)"
    using assms(1) by (simp add: intervals.tree_ok_def tree_at_def)
  then show ?thesis using t assms(1) by (auto simp: on_tree_def tree_at_def)
qed

lemma on_tree_Insert:
  assumes "tree_at G n (gapTree s)" and "n < 2 ^ 62"
  shows "\<exists>t. on_tree (Insert Comp g) s = (Inr (), s\<lparr>gapTree := t\<rparr>) \<and> tree_at (insert g G) (n + 1) t"
proof -
  obtain t where t: "Insert Comp g (gapTree s) = Some t" "intervals.tree_ok t" "inorder (root t) = intervals.ins g (inorder (root (gapTree s)))"
    using intervals.Insert_ok [of "gapTree s" g] assms by (auto simp: tree_at_def)
  then have "len t \<le> len (gapTree s) + 1"
    using assms(1) intervals.length_ins [of "inorder (root (gapTree s))" g] by (simp add: intervals.tree_ok_def tree_at_def)
  then show ?thesis using t assms(1) by (auto simp: on_tree_def tree_at_def)
qed

lemma fit_start_gap_run:
  assumes "tree_at G n (gapTree s)" and "n < 2 ^ 60"
  shows "\<exists>t. fit_start_gap g a b rep s = (Inr (bi_Start g < a \<and> \<not> rep), s\<lparr>gapTree := t\<rparr>) \<and>
    tree_at (if a \<le> bi_Start g then (if bi_End g \<le> b then G - {g} else insert (ByteInterval b (bi_End g)) (G - {g}))
      else if \<not> rep then insert (ByteInterval (bi_Start g) a) (G - {g}) else G) (n + 1) t"
proof -
  obtain t where t: "on_tree (Delete Comp g) s = (Inr (), s\<lparr>gapTree := t\<rparr>)" "tree_at (G - {g}) n t"
    using on_tree_Delete [OF assms(1)] assms(2) by auto
  have ins: "\<exists>t'. on_tree (Insert Comp h) (s\<lparr>gapTree := t\<rparr>) = (Inr (), s\<lparr>gapTree := t'\<rparr>) \<and> tree_at (insert h (G - {g})) (n + 1) t'" for h
    using on_tree_Insert [of "G - {g}" n "s\<lparr>gapTree := t\<rparr>" h] t(2) assms(2) by auto
  show ?thesis
    using t ins [of "ByteInterval b (bi_End g)"] ins [of "ByteInterval (bi_Start g) a"] tree_unchanged [OF assms(1)]
      tree_at_mono [OF t(2), of "n + 1"]
    by (auto simp: fit_start_gap_def eff_simps)
qed

lemma fit_end_gap_run:
  assumes "tree_at G n (gapTree s)" and "n < 2 ^ 60"
  shows "\<exists>t. fit_end_gap g h one adjusted b s = (Inr (), s\<lparr>gapTree := t\<rparr>) \<and>
    tree_at (if b = bi_End h then (if one then G else G - {h})
      else if one \<and> adjusted then insert (ByteInterval b (bi_End g)) G
      else if one then G else insert (ByteInterval b (bi_End h)) (G - {h})) (n + 1) t"
proof -
  obtain t where t: "on_tree (Delete Comp h) s = (Inr (), s\<lparr>gapTree := t\<rparr>)" "tree_at (G - {h}) n t"
    using on_tree_Delete [OF assms(1)] assms(2) by auto
  have "\<exists>t'. on_tree (Insert Comp x) (s\<lparr>gapTree := t\<rparr>) = (Inr (), s\<lparr>gapTree := t'\<rparr>) \<and> tree_at (insert x (G - {h})) (n + 1) t'" for x
    using on_tree_Insert [of "G - {h}" n "s\<lparr>gapTree := t\<rparr>" x] t(2) assms(2) by auto
  moreover have "\<exists>t'. on_tree (Insert Comp x) s = (Inr (), s\<lparr>gapTree := t'\<rparr>) \<and> tree_at (insert x G) (n + 1) t'" for x
    using on_tree_Insert [OF assms(1)] assms(2) by simp
  ultimately show ?thesis
    using t tree_unchanged [OF assms(1)] tree_at_mono [OF t(2), of "n + 1"]
    by (auto simp: fit_end_gap_def eff_simps)
qed

text \<open>The gaps that a frame touches, in ascending order.\<close>

lemma gaps_sorted:
  assumes "sorter_ok f s"
  shows "sorted_wrt (\<lambda>g h. bi_End g < bi_Start h) (inorder (root (gapTree s)))"
proof (rule sorted_wrt_mono_rel)
  show "sorted_wrt (\<lambda>g h. Comp g h < 0) (inorder (root (gapTree s)))"
    using sorter_okD(1) [OF assms] by (simp add: intervals.tree_ok_def)
next
  fix g h
  assume gh: "g \<in> set (inorder (root (gapTree s)))" "h \<in> set (inorder (root (gapTree s)))" "Comp g h < 0"
  then have "g \<noteq> h" "bi_Start g \<le> bi_Start h" by (auto simp: Comp_def split: if_splits)
  moreover have "bi_Start g < bi_End g" "bi_Start h < bi_End h"
    using gh sorter_okD(6) [OF assms] by (auto simp: gaps_of_def)
  ultimately show "bi_End g < bi_Start h"
    using gh(1,2) sorter_okD(4) [OF assms] unfolding separated_def gaps_of_def by fastforce
qed

lemma matched_gaps:
  assumes "sorter_ok f s"
  shows "sorted_wrt (\<lambda>g h. bi_End g < bi_Start h) (Btree_Match Match (ByteInterval a b) (gapTree s))"
    and "set (Btree_Match Match (ByteInterval a b) (gapTree s)) = {g \<in> gaps_of s. bi_Start g \<le> b \<and> a \<le> bi_End g}"
proof -
  have "Btree_Match Match (ByteInterval a b) (gapTree s) = filter (\<lambda>g. bi_Start g \<le> b \<and> a \<le> bi_End g) (inorder (root (gapTree s)))"
    using Match_filter [OF gaps_sorted [OF assms], of "ByteInterval a b"] sorter_okD(6) [OF assms] by (force simp: gaps_of_def less_imp_le)
  then show "sorted_wrt (\<lambda>g h. bi_End g < bi_Start h) (Btree_Match Match (ByteInterval a b) (gapTree s))"
    and "set (Btree_Match Match (ByteInterval a b) (gapTree s)) = {g \<in> gaps_of s. bi_Start g \<le> b \<and> a \<le> bi_End g}"
    using gaps_sorted [OF assms] by (auto simp: gaps_of_def sorted_wrt_filter)
qed

text \<open>All bytes between two neighbouring gaps are queued.\<close>

lemma between_gaps:
  assumes "sorter_ok f s" and "g \<in> gaps_of s" and "h \<in> gaps_of s"
    and "\<And>x. x \<in> gaps_of s \<Longrightarrow> bi_End x \<le> bi_End g \<or> bi_Start h \<le> bi_Start x"
    and "bi_End g \<le> p" and "p < bi_Start h"
  shows "covers (queue s) p"
proof -
  have "\<not> in_gaps (gaps_of s) p" using assms(4-6) by (fastforce simp: in_gaps_def)
  moreover have "readPos s \<le> p" "p < MaxByteCount"
    using sorter_okD(5,6) [OF assms(1,2)] sorter_okD(6,7) [OF assms(1,3)] assms(5,6) by linarith+
  ultimately show ?thesis using sorter_okD(12) [OF assms(1)] by blast
qed

lemma removed_extend:
  assumes "\<And>k e. (k, e) \<in> set q \<Longrightarrow> b \<le> k \<Longrightarrow> c \<le> k" and "b \<le> c"
  shows "removed q a b = removed q a c"
proof -
  have "(a \<le> k \<and> k < b) = (a \<le> k \<and> k < c)" if "(k, e) \<in> set q" for k e using assms(1) [OF that] assms(2) by linarith
  then show ?thesis by (auto simp: removed_def intro!: filter_cong)
qed

text \<open>Removing the frames between one gap and the next.\<close>

lemma sweep_between:
  assumes ok: "sorter_ok f s0" and g: "g \<in> gaps_of s0" "h \<in> gaps_of s0" "bi_End g < bi_Start h"
    and mid: "\<And>x. x \<in> gaps_of s0 \<Longrightarrow> bi_End x \<le> bi_End g \<or> bi_Start h \<le> bi_Start x"
    and s: "queue s = removed (queue s0) a b" "b \<le> bi_End g" "a \<le> bi_End g"
    and keys: "\<And>k e. (k, e) \<in> set (queue s0) \<Longrightarrow> max a b \<le> k \<Longrightarrow> bi_End g \<le> k"
  shows "queue (deleteConsecutive (bi_End g) s) = removed (queue s0) a (bi_Start h)"
    and "gapTree (deleteConsecutive (bi_End g) s) = gapTree s" "readPos (deleteConsecutive (bi_End g) s) = readPos s"
    and "tokens (deleteConsecutive (bi_End g) s) = tokens s"
proof -
  have q: "entries_ok (queue s0)" "entries_ok (queue s)"
    using sorter_okD(8) [OF ok] by (simp_all add: s(1) entries_ok_removed)
  obtain c where c: "swept (bi_End g) c s (deleteConsecutive (bi_End g) s)" "map_of (queue s) c = None"
    using deleteConsecutive_swept [OF q(2)] by blast
  have str: "no_straddle (queue s0) (bi_End g)" using gap_no_straddle [OF ok g(1)] sorter_okD(6) [OF ok g(1)] by simp
  have cov: "covers (queue s) p" if p: "bi_End g \<le> p" "p < bi_Start h" for p
  proof -
    obtain k e where k: "(k, e) \<in> set (queue s0)" "k \<le> p" "p < k + elen e"
      using between_gaps [OF ok g(1,2) mid p] by (auto simp: covers_def)
    then have "bi_End g \<le> k" using str p(1) by (fastforce simp: no_straddle_def)
    then show ?thesis using k s(1,2) by (intro coversI [of k e]) (auto simp: set_removed)
  qed
  have "\<not> covers (queue s0) (bi_Start h)" using gap_not_covered [OF ok g(2)] sorter_okD(6) [OF ok g(2)] by simp
  then have "c = bi_Start h"
    using swept_until [OF q(2) c(1) _ c(2) cov] str g(3) by (fastforce simp: s(1) no_straddle_def covers_def set_removed)
  moreover have "removed (queue s) (bi_End g) (bi_Start h) = removed (queue s0) a (bi_Start h)"
    using keys s(2,3) g(3) unfolding s(1) removed_def filter_filter by (intro filter_cong) force+
  ultimately show "queue (deleteConsecutive (bi_End g) s) = removed (queue s0) a (bi_Start h)"
    and "gapTree (deleteConsecutive (bi_End g) s) = gapTree s" "readPos (deleteConsecutive (bi_End g) s) = readPos s"
    and "tokens (deleteConsecutive (bi_End g) s) = tokens s"
    using c(1) by (auto simp: swept_def)
qed

lemma sorted_gaps_hd: "sorted_wrt (\<lambda>g h. bi_End g < bi_Start h) gs \<Longrightarrow> x \<in> set gs \<Longrightarrow> x = hd gs \<or> bi_End (hd gs) < bi_Start x"
  by (cases gs) auto

lemma sorted_gaps_last: "sorted_wrt (\<lambda>g h. bi_End g < bi_Start h) gs \<Longrightarrow> x \<in> set gs \<Longrightarrow> x = last gs \<or> bi_End x < bi_Start (last gs)"
  by (cases gs rule: rev_cases) (auto simp: sorted_wrt_append)

lemma clear_gaps_run:
  assumes ok: "sorter_ok f s0" and "gs \<noteq> []" and "sorted_wrt (\<lambda>g h. bi_End g < bi_Start h) gs" and "set gs \<subseteq> gaps_of s0"
    and "\<And>x. x \<in> gaps_of s0 \<Longrightarrow> x \<in> set gs \<or> bi_End x < bi_Start (hd gs) \<or> bi_End (last gs) < bi_Start x"
    and "queue s = removed (queue s0) a (bi_Start (hd gs))" and "a \<le> bi_Start (hd gs)"
    and "tree_at G n (gapTree s)" and n: "n < 2 ^ 60"
  shows "\<exists>s'. clear_gaps (bi_Start (last gs)) gs s = (Inr (), s') \<and> queue s' = removed (queue s0) a (bi_Start (last gs)) \<and>
    tree_at (G - set (butlast gs)) n (gapTree s') \<and> readPos s' = readPos s \<and> tokens s' = tokens s"
  using assms(2-8)
proof (induction gs arbitrary: s G)
  case (Cons g gs)
  have lt: "bi_Start x < bi_End x" if "x \<in> gaps_of s0" for x using sorter_okD(6) [OF ok that] .
  show ?case
  proof (cases gs)
    case Nil
    then show ?thesis using Cons.prems lt [of g] by (auto simp: eff_simps)
  next
    case (Cons h hs)
    note prems = Cons.prems [unfolded Cons]
    have gh: "g \<in> gaps_of s0" "h \<in> gaps_of s0" "bi_End g < bi_Start h" "h # hs \<noteq> []" "sorted_wrt (\<lambda>g h. bi_End g < bi_Start h) (h # hs)"
      using prems by auto
    have last: "bi_Start h \<le> bi_Start (last gs)" "last gs \<in> gaps_of s0" "bi_End g < bi_Start (last gs)"
      using sorted_gaps_hd [OF gh(5), of "last gs"] lt [OF gh(2)] prems(3) gh(3) Cons by (auto split: if_splits)
    have mid: "bi_End x \<le> bi_End g \<or> bi_Start h \<le> bi_Start x" if "x \<in> gaps_of s0" for x
      using prems(4) [OF that] sorted_gaps_hd [OF gh(5), of x] lt [OF gh(1)] lt [OF gh(2)] last(1) lt [OF last(2)] Cons by auto
    note sweep = sweep_between [OF ok gh(1-3) mid prems(5) [simplified]]
    have keys: "(k, e) \<in> set (queue s0) \<Longrightarrow> max a (bi_Start g) \<le> k \<Longrightarrow> bi_End g \<le> k" for k e
      using gap_no_key [OF ok gh(1)] by auto
    define s1 where "s1 = deleteConsecutive (bi_End g) s"
    have s1: "queue s1 = removed (queue s0) a (bi_Start h)" "gapTree s1 = gapTree s" "readPos s1 = readPos s" "tokens s1 = tokens s"
      using sweep [OF _ _ _ keys] lt [OF gh(1)] prems(6) by (auto simp: s1_def)
    obtain t where t: "on_tree (Delete Comp g) s1 = (Inr (), s1\<lparr>gapTree := t\<rparr>)" "tree_at (G - {g}) n t"
      using on_tree_Delete [of G n s1 g] prems(7) s1(2) n by auto
    have "x \<in> set gs \<or> bi_End x < bi_Start (hd gs) \<or> bi_End (last gs) < bi_Start x" if "x \<in> gaps_of s0" for x
      using prems(4) [OF that] gh(3) lt [OF gh(1)] Cons by auto
    then obtain s' where s': "clear_gaps (bi_Start (last gs)) gs (s1\<lparr>gapTree := t\<rparr>) = (Inr (), s')"
      "queue s' = removed (queue s0) a (bi_Start (last gs))" "tree_at (G - {g} - set (butlast gs)) n (gapTree s')"
      "readPos s' = readPos s1" "tokens s' = tokens (s1\<lparr>gapTree := t\<rparr>)"
      using Cons.IH [of "s1\<lparr>gapTree := t\<rparr>" "G - {g}"] Cons prems s1 t lt [OF gh(1)] gh by auto
    moreover have "clear_gaps (bi_Start (last (g # gs))) (g # gs) s = clear_gaps (bi_Start (last gs)) gs (s1\<lparr>gapTree := t\<rparr>)"
      using last(3) Cons t(1) by (simp add: eff_simps s1_def [symmetric])
    moreover have "G - {g} - set (butlast gs) = G - set (butlast (g # gs))" using Cons by auto
    ultimately show ?thesis using s1 Cons by (auto simp: tokens_def)
  qed
qed simp

section \<open>Storing a frame\<close>

lemma agrees_take: "agrees f k d \<Longrightarrow> agrees f k (take n d)"
  by (simp add: agrees_def)

lemma agrees_drop: "agrees f k d \<Longrightarrow> n \<le> length d \<Longrightarrow> agrees f (k + int n) (drop n d)"
  by (simp add: agrees_def add.assoc)

lemma update_fresh: "k \<notin> fst ` set q \<Longrightarrow> AList.update k v q = q @ [(k, v)]"
  by (induction q) auto

lemma covers_removed:
  assumes "entries_ok q" and "no_straddle q a" and "no_straddle q b"
  shows "covers (removed q a b) p \<longleftrightarrow> covers q p \<and> \<not> (a \<le> p \<and> p < b)"
proof -
  have "(a \<le> k \<and> k < b) = (a \<le> p \<and> p < b)" if "(k, e) \<in> set q" "k \<le> p" "p < k + elen e" for k e
    using assms(2,3) that unfolding no_straddle_def by force
  then show ?thesis unfolding covers_def set_removed by blast
qed

lemma store_frame_run:
  assumes ok: "sorter_ok f s0" and s: "queue s = removed (queue s0) a b" "readPos s = readPos s0" "tokens s = tokens s0" "tree_at G n (gapTree s)"
    and ab: "readPos s0 \<le> a" "a < b" "b \<le> MaxByteCount" "no_straddle (queue s0) a" "no_straddle (queue s0) b"
    and G: "gaps_ok (readPos s0) G" "\<And>p. in_gaps G p \<longleftrightarrow> in_gaps (gaps_of s0) p \<and> \<not> (a \<le> p \<and> p < b)"
    and d: "agrees f a data" "int (length data) = b - a"
  shows "(\<exists>s'. store_frame data a wasCut cb s = (Inl errTooManyGaps, s')) \<or>
    (\<exists>s'. store_frame data a wasCut cb s = (Inr (), s') \<and> sorter_ok f s' \<and> readPos s' = readPos s0 \<and> gaps_of s' = G \<and>
      tokens s' = tokens s0 + cb_set cb \<and> length (queue s') \<le> length (queue s0) + 1)"
proof (cases "len (gapTree s) > MaxStreamFrameSorterGaps")
  case True
  then show ?thesis by (auto simp: store_frame_def eff_simps Let_def Btree_Len_def)
next
  case False
  define copied where "copied = (wasCut \<and> length data < MinStreamFrameBufferSize)"
  define e where "e = \<lparr>entry_Data = data, DoneCb = (if copied then None else cb)\<rparr>"
  define s1 where "s1 = (if copied then run_cb cb s else s)"
  define s' where "s' = s1\<lparr>queue := removed (queue s0) a b @ [(a, e)]\<rparr>"
  have s1: "queue s1 = removed (queue s0) a b" "gapTree s1 = gapTree s" "readPos s1 = readPos s0"
    using s by (simp_all add: s1_def)
  have run: "store_frame data a wasCut cb s = (Inr (), s')"
  proof -
    have "AList.update a e (queue s1) = removed (queue s0) a b @ [(a, e)]"
      using ab(2) by (subst update_fresh) (auto simp: s1 set_removed)
    then show ?thesis
      using False s1(2) by (simp add: store_frame_def eff_simps Let_def Btree_Len_def copied_def [symmetric] s1_def [symmetric] e_def [symmetric] s'_def
        split del: if_split) (cases copied; simp add: s1_def eff_simps)
  qed
  have q: "entries_ok (queue s0)" using sorter_okD(8) [OF ok] .
  have len: "data \<noteq> []" "a + elen e = b" using d(2) ab(2) by (auto simp: e_def)
  have cov: "covers (queue s') p \<longleftrightarrow> covers (queue s0) p \<or> a \<le> p \<and> p < b" for p
    using covers_removed [OF q ab(4,5), of p] len(2) by (auto simp: s'_def covers_def)
  have entries: "entries_ok (queue s')"
  proof -
    have "k + elen e' \<le> a" if "(k, e') \<in> set (queue s0)" "k < a" for k e' using that ab(4) by (auto simp: no_straddle_def)
    moreover have "a \<notin> fst ` set (removed (queue s0) a b)" using ab(2) by (auto simp: set_removed)
    ultimately show ?thesis
      using entries_ok_removed [OF q, of a b] len by (auto simp: s'_def entries_ok_def set_removed e_def)
  qed
  have tree: "intervals.tree_ok (gapTree s')" "gaps_of s' = G" "len (gapTree s') \<le> MaxStreamFrameSorterGaps"
    using s(4) False s1(2) by (auto simp: tree_at_def s'_def gaps_of_def)
  have "sorter_ok f s'"
    unfolding sorter_ok_def tree(2)
    using tree G entries cov ab s1(3) len(2) d(1) sorter_okD(3,9,10,11,12) [OF ok]
    by (auto simp: s'_def e_def set_removed)
  moreover have "tokens s' = tokens s0 + cb_set cb"
  proof -
    have "tokens s1 = tokens s0 + (if copied then cb_set cb else {#})"
      using s(3) mset_called [of cb s] by (auto simp: s1_def tokens_def)
    then show ?thesis using s1(1) by (auto simp: s'_def tokens_def e_def cb_set_def)
  qed
  ultimately show ?thesis using run tree(2) s1(3) by (auto simp: s'_def removed_def)
qed

section \<open>Pushing a frame\<close>

text \<open>What remains of the gaps from \<open>g\<close> to \<open>h\<close> after the bytes from \<open>a\<close> to \<open>b\<close> have arrived.\<close>

definition pieces :: "ByteInterval \<Rightarrow> ByteInterval \<Rightarrow> int \<Rightarrow> int \<Rightarrow> ByteInterval set" where
  "pieces g h a b = (if bi_Start g < a then {ByteInterval (bi_Start g) a} else {}) \<union>
     (if b < bi_End h then {ByteInterval b (bi_End h)} else {})"

lemma pieces_ok:
  assumes G: "gaps_ok r G" and M: "M = {x \<in> G. bi_Start x \<le> t \<and> s \<le> bi_End x}" "g \<in> M" "h \<in> M"
    and ends: "\<And>x. x \<in> M \<Longrightarrow> x = g \<or> bi_End g < bi_Start x" "\<And>x. x \<in> M \<Longrightarrow> x = h \<or> bi_End x < bi_Start h"
    and ab: "s \<le> a" "a < b" "b \<le> t" "a \<le> bi_End g" "bi_Start h \<le> b"
  shows "gaps_ok r (G - M \<union> pieces g h a b)"
    and "in_gaps (G - M \<union> pieces g h a b) p \<longleftrightarrow> in_gaps G p \<and> \<not> (a \<le> p \<and> p < b)"
proof -
  have sep: "x = y \<or> bi_End x < bi_Start y \<or> bi_End y < bi_Start x" if "x \<in> G" "y \<in> G" for x y
    using G that by (auto simp: gaps_ok_def separated_def)
  have gap: "r \<le> bi_Start x" "bi_Start x < bi_End x" "bi_End x \<le> MaxByteCount" if "x \<in> G" for x
    using G that by (auto simp: gaps_ok_def)
  have gh: "g \<in> G" "h \<in> G" "g = h \<or> bi_End g < bi_Start h" using M ends(1) [OF M(3)] by auto
  have out: "bi_End x < s \<or> t < bi_Start x" if "x \<in> G" "x \<notin> M" for x using that M(1) by auto
  have "separated (G - M \<union> pieces g h a b)"
  proof -
    have "bi_End x < bi_Start y \<or> bi_End y < bi_Start x" if "x \<in> G - M" "y \<in> pieces g h a b" for x y
      using that sep [of x g] sep [of x h] gh M out [of x] gap(2) [of x] ab by (auto simp: pieces_def split: if_splits)
    moreover have "x = y \<or> bi_End x < bi_Start y \<or> bi_End y < bi_Start x" if "x \<in> pieces g h a b" "y \<in> pieces g h a b" for x y
      using that ab by (auto simp: pieces_def split: if_splits)
    ultimately show ?thesis unfolding separated_def using sep by blast
  qed
  moreover have "r \<le> bi_Start x \<and> bi_Start x < bi_End x \<and> bi_End x \<le> MaxByteCount" if "x \<in> pieces g h a b" for x
    using that gap [OF gh(1)] gap [OF gh(2)] ab by (auto simp: pieces_def split: if_splits)
  ultimately show "gaps_ok r (G - M \<union> pieces g h a b)" using gap by (auto simp: gaps_ok_def)
  show "in_gaps (G - M \<union> pieces g h a b) p \<longleftrightarrow> in_gaps G p \<and> \<not> (a \<le> p \<and> p < b)"
  proof
    assume "in_gaps (G - M \<union> pieces g h a b) p"
    then obtain x where x: "x \<in> G - M \<union> pieces g h a b" "bi_Start x \<le> p" "p < bi_End x" unfolding in_gaps_def by blast
    show "in_gaps G p \<and> \<not> (a \<le> p \<and> p < b)"
    proof (cases "x \<in> G - M")
      case True
      then show ?thesis using x out [of x] ab by (auto simp: in_gaps_def)
    next
      case False
      then have "bi_Start g \<le> p \<and> p < a \<or> b \<le> p \<and> p < bi_End h" using x by (auto simp: pieces_def split: if_splits)
      then show ?thesis using gh(1,2) ab unfolding in_gaps_def by (meson order.trans not_le order.strict_trans2 order.strict_trans1)
    qed
  next
    assume p: "in_gaps G p \<and> \<not> (a \<le> p \<and> p < b)"
    then obtain x where x: "x \<in> G" "bi_Start x \<le> p" "p < bi_End x" by (auto simp: in_gaps_def)
    show "in_gaps (G - M \<union> pieces g h a b) p"
    proof (cases "x \<in> M")
      case True
      then show ?thesis using x p ends [OF True] gh(3) ab by (auto simp: in_gaps_def pieces_def)
    next
      case False
      then show ?thesis using x by (auto simp: in_gaps_def)
    qed
  qed
qed

text \<open>The loop over queued frames when the first gap ends behind the start of the frame.\<close>

lemma loop_before_gap:
  assumes ok: "sorter_ok f s0" and g: "g \<in> gaps_of s0" "a < bi_End g" "bi_Start g < b" "a < b"
    and others: "\<And>x. x \<in> gaps_of s0 \<Longrightarrow> bi_End x < a \<or> bi_Start g \<le> bi_Start x"
  shows "\<exists>c s1. replace_loop b a False s0 = (Inr (c, a < c, False), s1) \<and> swept a c s0 s1 \<and>
    (a < c \<longrightarrow> c = bi_Start g \<and> no_straddle (queue s0) a \<and> readPos s0 \<le> a)"
proof -
  have q: "entries_ok (queue s0)" using sorter_okD(8) [OF ok] .
  have gap: "bi_Start g < bi_End g" using sorter_okD(6) [OF ok g(1)] .
  have uncovered: "\<not> covers (queue s0) (max a (bi_Start g))"
    using gap_not_covered [OF ok g(1), of "max a (bi_Start g)"] gap g(2) by auto
  have no_dup: "\<not> (\<exists>e. (a, e) \<in> set (queue s0) \<and> b \<le> a + elen e)"
  proof
    assume "\<exists>e. (a, e) \<in> set (queue s0) \<and> b \<le> a + elen e"
    then obtain e where e: "(a, e) \<in> set (queue s0)" "b \<le> a + elen e" by blast
    have "max a (bi_Start g) < a + elen e" using e(2) g(3,4) by linarith
    with uncovered coversI [OF e(1)] show False by auto
  qed
  obtain c longer s1 where c: "replace_loop b a False s0 = (Inr (c, a < c, longer), s1)" "swept a c s0 s1" "c \<le> b"
    "if longer then (\<exists>e. (c, e) \<in> set (queue s0) \<and> b < c + elen e) \<and> a < c else map_of (queue s0) c = None"
    using replace_loop_swept [OF q less_imp_le [OF g(4)], of False] no_dup unfolding simp_thms by blast
  have below: "c \<le> max a (bi_Start g)" using c(2) uncovered unfolding swept_def by (meson max.cobounded1 not_le)
  have "\<not> longer"
  proof
    assume longer
    then obtain e where e: "(c, e) \<in> set (queue s0)" "b < c + elen e" using c(4) by auto
    have "covers (queue s0) (max a (bi_Start g))" using e below g(3,4) by (intro coversI [OF e(1)]) auto
    with uncovered show False ..
  qed
  moreover have "c = bi_Start g \<and> no_straddle (queue s0) a \<and> readPos s0 \<le> a" if "a < c"
  proof -
    have ag: "a < bi_Start g" using that below by auto
    have "map_of (queue s0) a \<noteq> None"
    proof
      assume "map_of (queue s0) a = None"
      then have "replace_loop b a False s0 = (Inr (a, False, False), s0)" by (simp add: replace_loop.simps)
      then show False using that c(1) by simp
    qed
    then obtain e where e: "(a, e) \<in> set (queue s0)" using q by (auto simp: entries_ok_lookup)
    have str: "no_straddle (queue s0) a" using entry_no_straddle [OF q e] .
    have "covers (queue s0) p" if "a \<le> p" "p < bi_Start g" for p
    proof -
      have "\<not> in_gaps (gaps_of s0) p" using that others by (fastforce simp: in_gaps_def)
      then show ?thesis
        using sorter_okD(12) [OF ok, of p] sorter_okD(9) [OF ok e] sorter_okD(6,7) [OF ok g(1)] that by auto
    qed
    then have "c = bi_Start g"
      using swept_until [OF q c(2) str, of "bi_Start g"] c(4) \<open>\<not> longer\<close> uncovered ag by (auto simp: max_def)
    then show ?thesis using str sorter_okD(9) [OF ok e] by simp
  qed
  ultimately show ?thesis using c(1,2) by auto
qed

text \<open>
  The outcomes of \<open>push\<close>: nothing was new, there are too many gaps, or the frame is queued and its bytes are no longer in a gap.
\<close>

definition pushed :: "(int \<Rightarrow> byte) \<Rightarrow> frameSorter \<Rightarrow> int \<Rightarrow> int \<Rightarrow> nat option \<Rightarrow> (sorter_err + unit) \<times> frameSorter \<Rightarrow> bool" where
  "pushed f s a b cb r \<longleftrightarrow>
     (r = (Inl errDuplicateStreamData, s) \<and> (\<forall>p. a \<le> p \<longrightarrow> p < b \<longrightarrow> \<not> in_gaps (gaps_of s) p)) \<or>
     (\<exists>s'. r = (Inl errTooManyGaps, s')) \<or>
     (\<exists>s'. r = (Inr (), s') \<and> sorter_ok f s' \<and> readPos s' = readPos s \<and> tokens s' = tokens s + cb_set cb \<and>
       length (queue s') \<le> length (queue s) + 1 \<and> (\<forall>p. in_gaps (gaps_of s') p \<longleftrightarrow> in_gaps (gaps_of s) p \<and> \<not> (a \<le> p \<and> p < b)))"

text \<open>The frame is stored from \<open>a\<close> to \<open>b\<close>, which has all its bytes that were in a gap.\<close>

lemma pushed_store:
  assumes ok: "sorter_ok f s0" and s: "queue s = removed (queue s0) a b" "readPos s = readPos s0" "tokens s = tokens s0" "tree_at G n (gapTree s)"
    and ab: "readPos s0 \<le> a" "a < b" "b \<le> MaxByteCount" "no_straddle (queue s0) a" "no_straddle (queue s0) b"
    and G: "gaps_ok (readPos s0) G" "\<And>p. in_gaps G p \<longleftrightarrow> in_gaps (gaps_of s0) p \<and> \<not> (a \<le> p \<and> p < b)"
    and d: "agrees f a data" "int (length data) = b - a"
    and range: "a0 \<le> a" "b \<le> b0" "\<And>p. in_gaps (gaps_of s0) p \<Longrightarrow> a0 \<le> p \<Longrightarrow> p < b0 \<Longrightarrow> a \<le> p \<and> p < b"
  shows "pushed f s0 a0 b0 cb (store_frame data a wasCut cb s)"
proof -
  have "in_gaps G p \<longleftrightarrow> in_gaps (gaps_of s0) p \<and> \<not> (a0 \<le> p \<and> p < b0)" for p
    using G(2) [of p] range(1,2) range(3) [of p] by auto
  then show ?thesis
    using store_frame_run [OF ok s ab G d, of wasCut cb] unfolding pushed_def by auto
qed

lemma middle_run:
  assumes ok: "sorter_ok f s0" and gaps: "gaps \<noteq> []" "sorted_wrt (\<lambda>g h. bi_End g < bi_Start h) gaps" "set gaps \<subseteq> gaps_of s0"
    and others: "\<And>x. x \<in> gaps_of s0 \<Longrightarrow> x \<in> set gaps \<or> bi_End x < bi_Start (hd gaps) \<or> bi_End (last gaps) < bi_Start x"
    and s: "queue s = removed (queue s0) a (bi_Start (hd gaps))" "a \<le> bi_End (hd gaps)" "tree_at G n (gapTree s)" "n < 2 ^ 60"
  shows "\<exists>s'. clear_between gaps s = (Inr (), s') \<and>
    queue s' = removed (queue s0) a (bi_Start (last gaps)) \<and> tree_at (G - set (butlast (tl gaps))) n (gapTree s') \<and>
    readPos s' = readPos s \<and> tokens s' = tokens s"
proof (cases "tl gaps")
  case Nil
  then have "gaps = [hd gaps]" using gaps(1) by (cases gaps) auto
  then have "last gaps = hd gaps" "length gaps = 1" "butlast (tl gaps) = []" by (metis last.simps, metis length_Cons list.size(3) One_nat_def, metis butlast.simps(1) list.sel(3))
  then show ?thesis using s by (simp add: eff_simps clear_between_def)
next
  case (Cons h hs)
  define g where "g = hd gaps"
  have eq: "gaps = g # h # hs" using Cons gaps(1) by (cases gaps) (auto simp: g_def)
  have gh: "g \<in> gaps_of s0" "h \<in> gaps_of s0" "bi_End g < bi_Start h" "sorted_wrt (\<lambda>g h. bi_End g < bi_Start h) (h # hs)"
    using gaps(2,3) by (auto simp: eq)
  have lt: "bi_Start x < bi_End x" if "x \<in> gaps_of s0" for x using sorter_okD(6) [OF ok that] .
  have "last (h # hs) \<in> gaps_of s0" using last_in_set [of "h # hs"] gaps(3) by (auto simp: eq simp del: last.simps)
  then have "bi_Start h \<le> bi_End (last (h # hs))"
    using sorted_gaps_hd [OF gh(4) last_in_set] lt [OF gh(2)] lt by (fastforce simp del: last.simps)
  then have mid: "bi_End x \<le> bi_End g \<or> bi_Start h \<le> bi_Start x" if "x \<in> gaps_of s0" for x
    using others [OF that] sorted_gaps_hd [OF gh(4), of x] lt [OF gh(1)] lt [OF gh(2)] by (auto simp: eq)
  have keys: "(k, e) \<in> set (queue s0) \<Longrightarrow> max a (bi_Start g) \<le> k \<Longrightarrow> bi_End g \<le> k" for k e
    using gap_no_key [OF ok gh(1)] by auto
  define s1 where "s1 = deleteConsecutive (bi_End g) s"
  have s1: "queue s1 = removed (queue s0) a (bi_Start h)" "gapTree s1 = gapTree s" "readPos s1 = readPos s" "tokens s1 = tokens s"
    using sweep_between [OF ok gh(1-3) mid s(1) [folded g_def] _ s(2) [folded g_def] keys] lt [OF gh(1)] by (auto simp: s1_def)
  have "x \<in> set (h # hs) \<or> bi_End x < bi_Start (hd (h # hs)) \<or> bi_End (last (h # hs)) < bi_Start x" if "x \<in> gaps_of s0" for x
    using others [OF that] gh(3) lt [OF gh(1)] by (auto simp: eq)
  then obtain s' where s': "clear_gaps (bi_Start (last (h # hs))) (h # hs) s1 = (Inr (), s')"
    "queue s' = removed (queue s0) a (bi_Start (last (h # hs)))" "tree_at (G - set (butlast (h # hs))) n (gapTree s')"
    "readPos s' = readPos s1" "tokens s' = tokens s1"
    using clear_gaps_run [OF ok _ gh(4), of s1 a G n] s1 s gh gaps(3) by (auto simp: eq)
  then show ?thesis using s1 by (simp add: eq eff_simps s1_def clear_between_def)
qed

text \<open>Running the steps of \<open>push\<close> one after the other.\<close>

lemma push_into_run:
  assumes "replace_loop b a False s = (Inr (c, rep, longer), s1)"
    and "cut_at_longer longer c a b data s1 = (Inr (data1, b1), s1)"
    and "cut_to_gap (\<not> (a \<ge> bi_Start (hd gaps) \<and> a \<le> bi_End (hd gaps)) \<and> \<not> rep) (hd gaps) a data1 s1 = (Inr (data2, a2), s1)"
    and "fit_start_gap (hd gaps) a2 b1 rep s1 = (Inr adj, s2)"
    and "clear_between gaps s2 = (Inr (), s3)"
    and "cut_at_gap_end (\<not> (b \<ge> bi_Start (last gaps) \<and> b < bi_End (last gaps)) \<and> a2 \<noteq> bi_End (last gaps) \<and> b1 > bi_End (last gaps)) (last gaps) a2 b1 data2 s3
      = (Inr (data3, b3), s3)"
    and "fit_end_gap (hd gaps) (last gaps) (length gaps = 1) adj b3 s3 = (Inr (), s4)"
  shows "\<exists>wasCut. push_into gaps data a b cb s = store_frame data3 a2 wasCut cb s4"
proof -
  note run = bnd_apply(1) [where m = "replace_loop b a False", OF assms(1)]
    bnd_apply(1) [where m = "cut_at_longer longer c a b data", OF assms(2)]
    bnd_apply(1) [where m = "cut_to_gap (\<not> (a \<ge> bi_Start (hd gaps) \<and> a \<le> bi_End (hd gaps)) \<and> \<not> rep) (hd gaps) a data1", OF assms(3)]
    bnd_apply(1) [where m = "fit_start_gap (hd gaps) a2 b1 rep", OF assms(4)]
    bnd_apply(1) [where m = "clear_between gaps", OF assms(5)]
    bnd_apply(1) [where m = "cut_at_gap_end (\<not> (b \<ge> bi_Start (last gaps) \<and> b < bi_End (last gaps)) \<and> a2 \<noteq> bi_End (last gaps) \<and> b1 > bi_End (last gaps)) (last gaps) a2 b1 data2", OF assms(6)]
    bnd_apply(1) [where m = "fit_end_gap (hd gaps) (last gaps) (length gaps = 1) adj b3", OF assms(7)]
  show ?thesis unfolding push_into_def Let_def run prod.case by blast
qed

lemma cut_to_gap_run:
  assumes "agrees f a data" and "int (length data) = b - a" and "cutting \<Longrightarrow> a \<le> bi_Start g \<and> bi_Start g \<le> b"
  shows "\<exists>data'. cut_to_gap cutting g a data s = (Inr (data', if cutting then bi_Start g else a), s) \<and>
    agrees f (if cutting then bi_Start g else a) data' \<and> int (length data') = b - (if cutting then bi_Start g else a)"
  using assms agrees_drop [OF assms(1), of "nat (bi_Start g - a)"]
  by (auto simp: cut_to_gap_def slice_from_def eff_simps)

lemma cut_at_gap_end_run:
  assumes "agrees f a data" and "int (length data) = b - a" and "cutting \<Longrightarrow> a \<le> bi_End h \<and> bi_End h \<le> b"
  shows "\<exists>data'. cut_at_gap_end cutting h a b data s = (Inr (data', if cutting then bi_End h else b), s) \<and>
    agrees f a data' \<and> int (length data') = (if cutting then bi_End h else b) - a"
  using assms agrees_take [OF assms(1), of "nat (bi_End h - a)"]
  by (auto simp: cut_at_gap_end_def slice_to_def eff_simps)

lemma cut_at_longer_run:
  assumes "agrees f a data" and "int (length data) = b - a" and "a \<le> c" "c \<le> b"
  shows "\<exists>data'. cut_at_longer longer c a b data s = (Inr (data', if longer then c else b), s) \<and>
    agrees f a data' \<and> int (length data') = (if longer then c else b) - a"
  using assms agrees_take [OF assms(1), of "nat (c - a)"]
  by (auto simp: cut_at_longer_def slice_to_def eff_simps)

text \<open>The gaps after a frame, when it touches one gap, and when it touches several.\<close>

lemma pieces_one:
  assumes "b' = min b (bi_End g)"
    and "G1 = (if a \<le> bi_Start g then (if bi_End g \<le> b then G - {g} else insert (ByteInterval b (bi_End g)) (G - {g}))
      else insert (ByteInterval (bi_Start g) a) (G - {g}))"
  shows "(if b' = bi_End g then G1 else if bi_Start g < a then insert (ByteInterval b' (bi_End g)) G1 else G1) = G - {g} \<union> pieces g g a b'"
  using assms by (auto simp: pieces_def)

lemma pieces_many:
  assumes "b' = min b (bi_End h)" and "ByteInterval (bi_Start g) a \<notin> insert h Mid"
    and "G1 = (if a \<le> bi_Start g then G - {g} else insert (ByteInterval (bi_Start g) a) (G - {g}))"
  shows "(if b' = bi_End h then G1 - Mid - {h} else insert (ByteInterval b' (bi_End h)) (G1 - Mid - {h})) =
    G - insert g (insert h Mid) \<union> pieces g h a b'"
  using assms by (auto simp: pieces_def)

lemma gap_list_cases:
  assumes "gaps \<noteq> []" and "sorted_wrt (\<lambda>g h. bi_End g < bi_Start h) gaps"
  shows "(length gaps = 1 \<and> last gaps = hd gaps \<and> set gaps = {hd gaps} \<and> tl gaps = []) \<or>
    (length gaps \<noteq> 1 \<and> bi_End (hd gaps) < bi_Start (last gaps) \<and> set gaps = insert (hd gaps) (insert (last gaps) (set (butlast (tl gaps)))) \<and>
     (\<forall>x \<in> insert (last gaps) (set (butlast (tl gaps))). bi_End (hd gaps) < bi_Start x))"
proof (cases "tl gaps" rule: rev_cases)
  case Nil
  then show ?thesis using assms(1) by (cases gaps) auto
next
  case (snoc hs h)
  then show ?thesis using assms by (cases gaps) auto
qed

end
