(* ===== verification/Quic_Reassembly.thy ===== *)
theory Quic_Reassembly
  imports Quic_Sorter
begin

text \<open>
  The frame sorter as a whole: what a push does on every path, and what a run of pushes and pops delivers.
\<close>

section \<open>Pushing a frame\<close>

lemma touched_gaps:
  assumes ok: "sorter_ok f s0" and gaps: "gaps = Btree_Match Match (ByteInterval a b) (gapTree s0)" "gaps \<noteq> []"
  shows "sorted_wrt (\<lambda>g h. bi_End g < bi_Start h) gaps" and "set gaps = {x \<in> gaps_of s0. bi_Start x \<le> b \<and> a \<le> bi_End x}"
    and "hd gaps \<in> gaps_of s0" "bi_Start (hd gaps) \<le> b" "a \<le> bi_End (hd gaps)"
    and "last gaps \<in> gaps_of s0" "bi_Start (last gaps) \<le> b" "a \<le> bi_End (last gaps)"
    and "x \<in> gaps_of s0 \<Longrightarrow> bi_End x < a \<or> bi_Start (hd gaps) \<le> bi_Start x"
    and "x \<in> gaps_of s0 \<Longrightarrow> x \<in> set gaps \<or> bi_End x < bi_Start (hd gaps) \<or> bi_End (last gaps) < bi_Start x"
proof -
  show sg: "sorted_wrt (\<lambda>g h. bi_End g < bi_Start h) gaps" and sM: "set gaps = {x \<in> gaps_of s0. bi_Start x \<le> b \<and> a \<le> bi_End x}"
    using matched_gaps [OF ok] gaps(1) by auto
  have mem: "hd gaps \<in> set gaps" "last gaps \<in> set gaps" using gaps(2) by auto
  then show "hd gaps \<in> gaps_of s0" "bi_Start (hd gaps) \<le> b" "a \<le> bi_End (hd gaps)"
    "last gaps \<in> gaps_of s0" "bi_Start (last gaps) \<le> b" "a \<le> bi_End (last gaps)" using sM by auto
  have lt: "bi_Start x < bi_End x" if "x \<in> gaps_of s0" for x using sorter_okD(6) [OF ok that] .
  have sep: "x = y \<or> bi_End x < bi_Start y \<or> bi_End y < bi_Start x" if "x \<in> gaps_of s0" "y \<in> gaps_of s0" for x y
    using sorter_okD(4) [OF ok] that by (auto simp: separated_def)
  have hl: "hd gaps \<in> gaps_of s0" "bi_Start (hd gaps) \<le> b" "a \<le> bi_End (hd gaps)" "last gaps \<in> gaps_of s0" "bi_Start (last gaps) \<le> b"
    using mem sM by auto
  have out: "bi_End x < a \<or> b < bi_Start x \<or> x \<in> set gaps" if "x \<in> gaps_of s0" for x using that sM by fastforce
  show "bi_End x < a \<or> bi_Start (hd gaps) \<le> bi_Start x" if "x \<in> gaps_of s0"
    using out [OF that] sorted_gaps_hd [OF sg, of x] lt [OF hl(1)] hl(2) by fastforce
  show "x \<in> set gaps \<or> bi_End x < bi_Start (hd gaps) \<or> bi_End (last gaps) < bi_Start x" if x: "x \<in> gaps_of s0"
  proof -
    consider "bi_End x < a" | "b < bi_Start x" | "x \<in> set gaps" using out [OF x] by blast
    then show ?thesis
    proof cases
      case 1
      then have "bi_End x < bi_Start (hd gaps)" using sep [OF x hl(1)] hl(3) lt [OF x] by auto
      then show ?thesis by simp
    next
      case 2
      then have "bi_End (last gaps) < bi_Start x" using sep [OF x hl(4)] hl(5) lt [OF x] by auto
      then show ?thesis by simp
    qed simp
  qed
qed

lemma pushed_pieces:
  assumes ok: "sorter_ok f s0" and gaps: "gaps = Btree_Match Match (ByteInterval a b) (gapTree s0)" "gaps \<noteq> []"
    and A: "a \<le> A" "A < B" "B = min b (bi_End (last gaps))" "A \<le> bi_End (hd gaps)" "A = a \<or> A = bi_Start (hd gaps)"
      "no_straddle (queue s0) A" "readPos s0 \<le> A" "b \<le> MaxByteCount"
    and s: "queue s = removed (queue s0) A (bi_Start (last gaps))" "readPos s = readPos s0" "tokens s = tokens s0"
      "tree_at (gaps_of s0 - set gaps \<union> pieces (hd gaps) (last gaps) A B) n (gapTree s)"
    and d: "agrees f A data" "int (length data) = B - A"
  shows "pushed f s0 a b cb (store_frame data A wasCut cb s)"
proof -
  define g h where "g = hd gaps" and "h = last gaps"
  note T = touched_gaps [OF ok gaps, folded g_def h_def]
  have lt: "bi_Start x < bi_End x" if "x \<in> gaps_of s0" for x using sorter_okD(6) [OF ok that] .
  have B: "bi_Start h \<le> B" "B \<le> bi_End h" "B \<le> b" using A(3) T(7) lt [OF T(6)] by (auto simp: h_def)
  have ends: "\<And>x. x \<in> set gaps \<Longrightarrow> x = g \<or> bi_End g < bi_Start x" "\<And>x. x \<in> set gaps \<Longrightarrow> x = h \<or> bi_End x < bi_Start h"
    using sorted_gaps_hd [OF T(1)] sorted_gaps_last [OF T(1)] by (auto simp: g_def h_def)
  have mem: "g \<in> set gaps" "h \<in> set gaps" using gaps(2) by (auto simp: g_def h_def)
  have "removed (queue s0) A (bi_Start h) = removed (queue s0) A B"
    using gap_no_key [OF ok T(6)] B(1,2) by (intro removed_extend) (auto intro: order_trans)
  then have q: "queue s = removed (queue s0) A B" using s(1) by (simp add: h_def)
  have inside: "A \<le> p \<and> p < B" if p: "in_gaps (gaps_of s0) p" "a \<le> p" "p < b" for p
  proof -
    obtain x where x: "x \<in> gaps_of s0" "bi_Start x \<le> p" "p < bi_End x" using p(1) by (auto simp: in_gaps_def)
    then have "x \<in> set gaps" using T(2) p by auto
    then have "bi_Start g \<le> p" "p < bi_End h" using ends [of x] x lt [OF T(3)] lt [OF T(6)] by auto
    then show ?thesis using p(2,3) A(3,5) by (auto simp: g_def h_def)
  qed
  have "gaps_ok (readPos s0) (gaps_of s0)" using ok by (simp add: sorter_ok_def)
  note P = pieces_ok [OF this T(2) mem ends A(1,2) B(3) A(4) [folded g_def] B(1)]
  show ?thesis
    using pushed_store [OF ok q s(2,3) s(4) [folded g_def h_def] A(7,2) _ A(6) gap_no_straddle [OF ok T(6) B(1,2)] P d A(1) B(3) inside] A(8) B(3)
    by simp
qed

lemma push_overlap:
  assumes ok: "sorter_ok f s0" and data: "agrees f a data" "int (length data) = b - a" "a < b" "b \<le> MaxByteCount"
    and gaps: "gaps = Btree_Match Match (ByteInterval a b) (gapTree s0)" "gaps \<noteq> []"
    and start: "a < bi_End (hd gaps)" "\<not> (length gaps = 1 \<and> b \<le> bi_Start (hd gaps))"
  shows "pushed f s0 a b cb (push_into gaps data a b cb s0)"
proof -
  define g h where "g = hd gaps" and "h = last gaps"
  note T = touched_gaps [OF ok gaps, folded g_def h_def]
  note C = gap_list_cases [OF gaps(2) T(1), folded g_def h_def]
  have lt: "bi_Start x < bi_End x" if "x \<in> gaps_of s0" for x using sorter_okD(6) [OF ok that] .
  have gb: "bi_Start g < b" using C start(2) lt [OF T(3)] T(7) by (auto simp: g_def)
  obtain c s1 where c: "replace_loop b a False s0 = (Inr (c, a < c, False), s1)" "swept a c s0 s1"
    "a < c \<longrightarrow> c = bi_Start g \<and> no_straddle (queue s0) a \<and> readPos s0 \<le> a"
    using loop_before_gap [OF ok T(3) start(1) [folded g_def] gb data(3)] T(9) by blast
  define cutting where "cutting \<longleftrightarrow> \<not> (a \<ge> bi_Start g \<and> a \<le> bi_End g) \<and> \<not> a < c"
  define A where "A = (if cutting then bi_Start g else a)"
  define B where "B = min b (bi_End h)"
  have A: "a \<le> A" "A < bi_End g" "A < b" "a < c \<Longrightarrow> A < bi_Start g"
    using start(1) gb lt [OF T(3)] data(3) c(2,3) by (auto simp: A_def cutting_def g_def swept_def)
  have A': "no_straddle (queue s0) A" "readPos s0 \<le> A" "queue s1 = removed (queue s0) A (bi_Start g)"
  proof -
    have "A = a \<and> a < c \<or> bi_Start g \<le> A \<and> \<not> a < c" using start(1) by (auto simp: A_def cutting_def g_def)
    then show "no_straddle (queue s0) A" "readPos s0 \<le> A" "queue s1 = removed (queue s0) A (bi_Start g)"
      using c(2,3) gap_no_straddle [OF ok T(3), of A] A(2) sorter_okD(5) [OF ok T(3)]
      by (auto simp: swept_def removed_empty)
  qed
  have AB: "A < B" "B \<le> b" "bi_Start h \<le> B" "A < bi_End h" "B \<le> MaxByteCount" "B \<le> bi_End h"
    using A(2,3) C T(7) lt [OF T(6)] data(4) by (auto simp: B_def)
  obtain data2 where data2: "cut_to_gap cutting g a data s1 = (Inr (data2, A), s1)" "agrees f A data2" "int (length data2) = b - A"
    using cut_to_gap_run [OF data(1,2), of cutting g s1] gb by (auto simp: A_def cutting_def g_def start(1) less_imp_le)
  have tree: "tree_at (gaps_of s0) 20000 (gapTree s1)"
    using sorter_okD(1,2) [OF ok] c(2) by (simp add: tree_at_def gaps_of_def swept_def MaxStreamFrameSorterGaps_def)
  define G1 where "G1 = (if A \<le> bi_Start g then (if bi_End g \<le> b then gaps_of s0 - {g} else insert (ByteInterval b (bi_End g)) (gaps_of s0 - {g}))
      else insert (ByteInterval (bi_Start g) A) (gaps_of s0 - {g}))"
  obtain t2 where t2: "fit_start_gap g A b (a < c) s1 = (Inr (bi_Start g < A), s1\<lparr>gapTree := t2\<rparr>)" "tree_at G1 20001 t2"
  proof -
    have e: "(bi_Start g < A \<and> \<not> a < c) = (bi_Start g < A)"
      "(if A \<le> bi_Start g then (if bi_End g \<le> b then gaps_of s0 - {g} else insert (ByteInterval b (bi_End g)) (gaps_of s0 - {g}))
        else if \<not> a < c then insert (ByteInterval (bi_Start g) A) (gaps_of s0 - {g}) else gaps_of s0) = G1"
      using A(4) by (auto simp: G1_def)
    show ?thesis using that fit_start_gap_run [OF tree, of g A b "a < c"] unfolding e by auto
  qed
  obtain s3 where s3: "clear_between gaps (s1\<lparr>gapTree := t2\<rparr>) = (Inr (), s3)" "queue s3 = removed (queue s0) A (bi_Start h)"
    "tree_at (G1 - set (butlast (tl gaps))) 20001 (gapTree s3)" "readPos s3 = readPos s0" "tokens s3 = tokens s0"
    using middle_run [OF ok gaps(2) T(1) _ T(10) [unfolded g_def h_def], of "s1\<lparr>gapTree := t2\<rparr>" A G1 20001] A'(3) A(2) t2(2) T(2) c(2)
    by (auto simp: g_def h_def swept_def tokens_def)
  have cut: "(\<not> (b \<ge> bi_Start h \<and> b < bi_End h) \<and> A \<noteq> bi_End h \<and> b > bi_End h) = (b > bi_End h)" using AB by auto
  have "(if b > bi_End h then bi_End h else b) = B" by (auto simp: B_def)
  then obtain data3 where data3: "cut_at_gap_end (b > bi_End h) h A b data2 s3 = (Inr (data3, B), s3)" "agrees f A data3" "int (length data3) = B - A"
    using cut_at_gap_end_run [OF data2(2,3), of "b > bi_End h" h s3] AB(4) by auto
  have G: "(if B = bi_End h then (if length gaps = 1 then G1 - set (butlast (tl gaps)) else G1 - set (butlast (tl gaps)) - {h})
      else if length gaps = 1 \<and> bi_Start g < A then insert (ByteInterval B (bi_End g)) (G1 - set (butlast (tl gaps)))
      else if length gaps = 1 then G1 - set (butlast (tl gaps))
      else insert (ByteInterval B (bi_End h)) (G1 - set (butlast (tl gaps)) - {h})) = gaps_of s0 - set gaps \<union> pieces g h A B"
  proof (cases "length gaps = 1")
    case True
    then have o: "h = g" "set gaps = {g}" "set (butlast (tl gaps)) = {}" using C by auto
    show ?thesis using pieces_one [OF B_def [unfolded o(1)] G1_def] True unfolding o by (simp only: simp_thms if_True Diff_empty)
  next
    case False
    then have m: "bi_End g < bi_Start h" "set gaps = insert g (insert h (set (butlast (tl gaps))))"
      "ByteInterval (bi_Start g) A \<notin> insert h (set (butlast (tl gaps)))"
      using C lt [OF T(3)] by (auto simp del: insert_iff)
    have "G1 = (if A \<le> bi_Start g then gaps_of s0 - {g} else insert (ByteInterval (bi_Start g) A) (gaps_of s0 - {g}))"
      using m(1) T(7) by (simp add: G1_def)
    from pieces_many [OF B_def m(3) this] False show ?thesis unfolding m(2) by (simp only: simp_thms if_False)
  qed
  obtain t4 where t4: "fit_end_gap g h (length gaps = 1) (bi_Start g < A) B s3 = (Inr (), s3\<lparr>gapTree := t4\<rparr>)"
    "tree_at (gaps_of s0 - set gaps \<union> pieces g h A B) 20002 t4"
    using fit_end_gap_run [OF s3(3), of g h "length gaps = 1" "bi_Start g < A" B] unfolding G by auto
  obtain wasCut where run: "push_into gaps data a b cb s0 = store_frame data3 A wasCut cb (s3\<lparr>gapTree := t4\<rparr>)"
    using push_into_run [of b a s0 c "a < c" False s1 data data b gaps data2 A "bi_Start g < A" "s1\<lparr>gapTree := t2\<rparr>" s3 data3 B] c(1) data2(1) t2(1) s3(1) data3(1) t4(1)
    unfolding g_def [symmetric] h_def [symmetric] cut cutting_def [symmetric] by (auto simp: cut_at_longer_def eff_simps)
  show ?thesis unfolding run
    using pushed_pieces [OF ok gaps A(1) AB(1) B_def [unfolded h_def] _ _ A'(1,2) data(4) _ _ _ _ data3(2,3), of "s3\<lparr>gapTree := t4\<rparr>" 20002]
      A(2) s3(2,4,5) t4(2) by (auto simp: A_def g_def h_def tokens_def)
qed

text \<open>The frame starts where a gap ends: it can only replace queued frames, or reach the next gap.\<close>

lemma push_touch_one:
  assumes ok: "sorter_ok f s0" and data: "agrees f a data" "int (length data) = b - a" "a < b" "b \<le> MaxByteCount"
    and gaps: "gaps = Btree_Match Match (ByteInterval a b) (gapTree s0)" "gaps \<noteq> []"
    and start: "a = bi_End (hd gaps)" "length gaps = 1"
  shows "pushed f s0 a b cb (push_into gaps data a b cb s0)"
proof -
  define g where "g = hd gaps"
  note T = touched_gaps [OF ok gaps, folded g_def]
  have one: "last gaps = g" "set gaps = {g}" "tl gaps = []" using start(2) by (cases gaps; simp add: g_def)+
  have q: "entries_ok (queue s0)" using sorter_okD(8) [OF ok] .
  have g: "a = bi_End g" "bi_Start g < a" using start(1) sorter_okD(6) [OF ok T(3)] by (auto simp: g_def)
  have free: "\<not> in_gaps (gaps_of s0) p" if p: "a \<le> p" "p \<le> b" for p
    using T(2) one(2) p g(1) by (force simp: in_gaps_def)
  have str: "no_straddle (queue s0) a" using gap_no_straddle [OF ok T(3)] g by auto
  have r: "readPos s0 \<le> a" using sorter_okD(5) [OF ok T(3)] g(2) by simp
  from replace_loop_swept [OF q less_imp_le [OF data(3)], of False]
  consider "replace_loop b a False s0 = (Inl errDuplicateStreamData, s0)"
    | c longer s1 where "replace_loop b a False s0 = (Inr (c, a < c, longer), s1)" "swept a c s0 s1" "c \<le> b"
      "if longer then (\<exists>e. (c, e) \<in> set (queue s0) \<and> b < c + elen e) \<and> a < c else map_of (queue s0) c = None"
    unfolding simp_thms by blast
  then show ?thesis
  proof cases
    case 1
    then have "push_into gaps data a b cb s0 = (Inl errDuplicateStreamData, s0)"
      by (simp add: push_into_def Let_def eff_simps)
    then show ?thesis using free by (simp add: pushed_def)
  next
    case 2
    have end_c: "c = b" if "\<not> longer"
    proof (rule ccontr)
      assume "c \<noteq> b"
      then have "c < b" "a \<le> c" using 2(2,3) by (auto simp: swept_def)
      then have "covers (queue s0) c" using free [of c] sorter_okD(12) [OF ok, of c] r data(4) by auto
      then show False
        using no_straddle_covers [OF q swept_no_straddle [OF 2(2) str]] 2(4) that q by (auto simp: entries_ok_lookup [symmetric])
    qed
    have ac: "a < c" using 2(4) end_c data(3) by (cases longer) auto
    have e: "bi_Start g \<le> a" "(\<not> (bi_Start g \<le> a \<and> a \<le> bi_End g) \<and> \<not> a < c) = False" using g by auto
    obtain d where d: "cut_at_longer longer c a b data s1 = (Inr (d, c), s1)" "agrees f a d" "int (length d) = c - a"
      using cut_at_longer_run [OF data(1,2) less_imp_le [OF ac] 2(3), of longer s1] end_c by (cases longer) auto
    have "\<exists>wasCut. push_into gaps data a b cb s0 = store_frame d a wasCut cb s1"
    proof (rule push_into_run)
      show "replace_loop b a False s0 = (Inr (c, True, longer), s1)" using 2(1) ac by simp
      show "cut_at_longer longer c a b data s1 = (Inr (d, c), s1)" by (rule d)
    qed (use one g ac in \<open>auto simp: g_def [symmetric] cut_to_gap_def fit_start_gap_def clear_between_def cut_at_gap_end_def fit_end_gap_def eff_simps start(2)\<close>)
    then obtain wasCut where run: "push_into gaps data a b cb s0 = store_frame d a wasCut cb s1" by blast
    have s1: "queue s1 = removed (queue s0) a c" "readPos s1 = readPos s0" "tokens s1 = tokens s0"
      "tree_at (gaps_of s0) MaxStreamFrameSorterGaps (gapTree s1)"
      using 2(2) sorter_okD(1,2) [OF ok] by (auto simp: swept_def tree_at_def gaps_of_def)
    have in_gaps: "in_gaps (gaps_of s0) p \<longleftrightarrow> in_gaps (gaps_of s0) p \<and> \<not> (a \<le> p \<and> p < c)" for p using free 2(3) by fastforce
    have "gaps_ok (readPos s0) (gaps_of s0)" using ok by (simp add: sorter_ok_def)
    then show ?thesis unfolding run
      using pushed_store [OF ok s1 r ac _ str swept_no_straddle [OF 2(2) str] _ in_gaps d(2,3) order_refl 2(3)] 2(3) data(4) free by fastforce
  qed
qed

lemma deleteConsecutive_none: "map_of (queue s) pos = None \<Longrightarrow> deleteConsecutive pos s = s"
  by (simp add: deleteConsecutive.simps)

lemma push_touch_reach:
  assumes ok: "sorter_ok f s0" and data: "agrees f a data" "int (length data) = b - a" "a < b" "b \<le> MaxByteCount"
    and gaps: "gaps = Btree_Match Match (ByteInterval a b) (gapTree s0)" "gaps = g # x # xs" and start: "a = bi_End g"
    and loop: "replace_loop b a False s0 = (Inr (bi_Start x, True, False), s1)" "swept a (bi_Start x) s0 s1"
  shows "pushed f s0 a b cb (push_into gaps data a b cb s0)"
proof -
  define h where "h = last gaps"
  have ne: "gaps \<noteq> []" "hd gaps = g" "tl gaps = x # xs" "length gaps \<noteq> 1" using gaps(2) by auto
  note T = touched_gaps [OF ok gaps(1) ne(1), unfolded ne(2), folded h_def]
  note C = gap_list_cases [OF ne(1) T(1), unfolded ne(2,3), folded h_def]
  have lt: "bi_Start y < bi_End y" if "y \<in> gaps_of s0" for y using sorter_okD(6) [OF ok that] .
  have x: "sorted_wrt (\<lambda>g h. bi_End g < bi_Start h) (x # xs)" "set (x # xs) \<subseteq> gaps_of s0" "bi_End g < bi_Start x" "last (x # xs) = h"
    using T(1,2) gaps(2) by (auto simp: h_def)
  have gh: "bi_End g < bi_Start h" "set gaps = insert g (insert h (set (butlast (x # xs))))" "g \<notin> insert h (set (butlast (x # xs)))"
    using C ne(4) lt [OF T(3)] by (auto simp del: insert_iff butlast.simps)
  have s1: "queue s1 = removed (queue s0) a (bi_Start x)" "readPos s1 = readPos s0" "tokens s1 = tokens s0" "tree_at (gaps_of s0) 20000 (gapTree s1)"
    using loop(2) sorter_okD(1,2) [OF ok] by (auto simp: swept_def tree_at_def gaps_of_def MaxStreamFrameSorterGaps_def)
  have rest: "y \<in> set (x # xs) \<or> bi_End y < bi_Start (hd (x # xs)) \<or> bi_End (last (x # xs)) < bi_Start y" if "y \<in> gaps_of s0" for y
    using T(10) [OF that] x(3,4) lt [OF T(3)] by (auto simp: gaps(2))
  obtain s3 where s3: "clear_gaps (bi_Start h) (x # xs) s1 = (Inr (), s3)" "queue s3 = removed (queue s0) a (bi_Start h)"
    "tree_at (gaps_of s0 - set (butlast (x # xs))) 20000 (gapTree s3)" "readPos s3 = readPos s0" "tokens s3 = tokens s0"
    using clear_gaps_run [OF ok _ x(1,2) rest, of s1 a "gaps_of s0" 20000] s1 x(3,4) start by auto
  have "map_of (queue s1) (bi_End g) = None"
    using x(3) start by (auto simp: s1(1) map_of_eq_None_iff set_removed)
  then have clear: "clear_between gaps s1 = (Inr (), s3)"
    using s3(1) ne deleteConsecutive_none by (simp add: clear_between_def eff_simps h_def)
  define B where "B = min b (bi_End h)"
  have B: "a < B" "B \<le> b" "bi_Start h \<le> B" "B \<le> MaxByteCount" "B \<le> bi_End h" "bi_Start g < a" "a \<noteq> bi_End h"
    using data(3,4) T(7) gh(1) start lt [OF T(6)] lt [OF T(3)] by (auto simp: B_def)
  have cut: "(\<not> (b \<ge> bi_Start h \<and> b < bi_End h) \<and> a \<noteq> bi_End h \<and> b > bi_End h) = (b > bi_End h)" using B by auto
  have "(if b > bi_End h then bi_End h else b) = B" by (auto simp: B_def)
  then obtain d where d: "cut_at_gap_end (b > bi_End h) h a b data s3 = (Inr (d, B), s3)" "agrees f a d" "int (length d) = B - a"
    using cut_at_gap_end_run [OF data(1,2), of "b > bi_End h" h s3] B by auto
  have "gaps_of s0 - {g} - set (butlast (x # xs)) - {h} = gaps_of s0 - set gaps" using gh(2) by auto
  then have G: "(if B = bi_End h then gaps_of s0 - set (butlast (x # xs)) - {h}
      else insert (ByteInterval B (bi_End h)) (gaps_of s0 - set (butlast (x # xs)) - {h})) = gaps_of s0 - set gaps \<union> pieces g h a B"
    using gh(3) B(5,6) T(3) unfolding pieces_def start ByteInterval.collapse by (auto simp del: butlast.simps)
  obtain t4 where t4: "fit_end_gap g h False False B s3 = (Inr (), s3\<lparr>gapTree := t4\<rparr>)" "tree_at (gaps_of s0 - set gaps \<union> pieces g h a B) 20001 t4"
    using fit_end_gap_run [OF s3(3), of g h False False B] unfolding simp_thms if_False G by auto
  have "cut_at_gap_end (\<not> (b \<ge> bi_Start (last gaps) \<and> b < bi_End (last gaps)) \<and> a \<noteq> bi_End (last gaps) \<and> b > bi_End (last gaps)) (last gaps) a b data s3 = (Inr (d, B), s3)"
    using d(1) unfolding h_def [symmetric] cut .
  from push_into_run [OF loop(1) _ _ _ clear this, where data = data and adj = False and ?s4.0 = "s3\<lparr>gapTree := t4\<rparr>" and cb = cb]
  obtain wasCut where run: "push_into gaps data a b cb s0 = store_frame d a wasCut cb (s3\<lparr>gapTree := t4\<rparr>)"
    using t4(1) B(6) start ne(2,4) by (auto simp: cut_at_longer_def cut_to_gap_def fit_start_gap_def eff_simps h_def [symmetric])
  have "no_straddle (queue s0) a" "readPos s0 \<le> a" using gap_no_straddle [OF ok T(3)] sorter_okD(5) [OF ok T(3)] start B(6) by auto
  then show ?thesis unfolding run
    using pushed_pieces [OF ok gaps(1) ne(1) order_refl B(1) B_def [unfolded h_def] _ _ _ _ data(4) _ _ _ _ d(2,3), of "s3\<lparr>gapTree := t4\<rparr>" 20001]
      s3(2,4,5) t4(2) start ne(2) by (auto simp: h_def tokens_def)
qed

lemma push_touch_many:
  assumes ok: "sorter_ok f s0" and data: "agrees f a data" "int (length data) = b - a" "a < b" "b \<le> MaxByteCount"
    and gaps: "gaps = Btree_Match Match (ByteInterval a b) (gapTree s0)" "gaps = g # x # xs" and start: "a = bi_End g"
  shows "pushed f s0 a b cb (push_into gaps data a b cb s0)"
proof -
  define h where "h = last gaps"
  have ne: "gaps \<noteq> []" "hd gaps = g" "tl gaps = x # xs" "length gaps \<noteq> 1" using gaps(2) by auto
  note T = touched_gaps [OF ok gaps(1) ne(1), unfolded ne(2), folded h_def]
  have q: "entries_ok (queue s0)" using sorter_okD(8) [OF ok] .
  have lt: "bi_Start y < bi_End y" if "y \<in> gaps_of s0" for y using sorter_okD(6) [OF ok that] .
  have x: "x \<in> gaps_of s0" "bi_Start x \<le> b" "bi_End g < bi_Start x" "sorted_wrt (\<lambda>g h. bi_End g < bi_Start h) (x # xs)" "set (x # xs) \<subseteq> gaps_of s0"
    using T(1,2) gaps(2) by auto
  have h: "h = last (x # xs)" "bi_Start x \<le> bi_Start h" "bi_End g < bi_Start h"
    using sorted_gaps_hd [OF x(4), of "last (x # xs)"] lt [OF x(1)] x(3) by (auto simp: h_def gaps(2))
  have str: "no_straddle (queue s0) a" using gap_no_straddle [OF ok T(3)] start lt [OF T(3)] by auto
  have r: "readPos s0 \<le> a" using sorter_okD(5) [OF ok T(3)] start lt [OF T(3)] by simp
  have mid: "bi_End y \<le> bi_End g \<or> bi_Start x \<le> bi_Start y" if "y \<in> gaps_of s0" for y
    using T(10) [OF that] sorted_gaps_hd [OF x(4), of y] lt [OF T(3)] lt [OF x(1)] lt [OF T(6)] h by (auto simp: gaps(2))
  have cov: "covers (queue s0) p" if p: "a \<le> p" "p < bi_Start x" for p
    using between_gaps [OF ok T(3) x(1) mid] p start by auto
  have unc: "\<not> covers (queue s0) (bi_Start x)" using gap_not_covered [OF ok x(1)] lt [OF x(1)] by simp
  from replace_loop_swept [OF q less_imp_le [OF data(3)], of False]
  consider e where "replace_loop b a False s0 = (Inl errDuplicateStreamData, s0)" "(a, e) \<in> set (queue s0)" "b \<le> a + elen e"
    | c longer s1 where "replace_loop b a False s0 = (Inr (c, a < c, longer), s1)" "swept a c s0 s1" "c \<le> b"
      "if longer then (\<exists>e. (c, e) \<in> set (queue s0) \<and> b < c + elen e) \<and> a < c else map_of (queue s0) c = None"
    unfolding simp_thms by blast
  then show ?thesis
  proof cases
    case 1
    then have "push_into gaps data a b cb s0 = (Inl errDuplicateStreamData, s0)"
      by (simp add: push_into_def Let_def eff_simps)
    moreover have "\<not> in_gaps (gaps_of s0) p" if "a \<le> p" "p < b" for p
      using coversI [OF 1(2), of p] sorter_okD(12) [OF ok, of p] that 1(3) r data(4) by auto
    ultimately show ?thesis by (simp add: pushed_def)
  next
    case 2
    have cx: "c \<le> bi_Start x" using 2(2) unc x(3) start unfolding swept_def by (meson less_imp_le not_le)
    have "\<not> longer"
    proof
      assume longer
      then obtain e where e: "(c, e) \<in> set (queue s0)" "b < c + elen e" using 2(4) by auto
      show False using coversI [OF e(1) cx] e(2) x(2) unc by simp
    qed
    then have c: "c = bi_Start x" "a < c"
      using swept_until [OF q 2(2) str _ cov unc] 2(4) x(3) start by auto
    show ?thesis
      using push_touch_reach [OF ok data gaps start] 2(1,2) c \<open>\<not> longer\<close> by simp
  qed
qed

lemma push_pushed:
  assumes ok: "sorter_ok f s" and data: "agrees f a data" "0 \<le> a" "a + int (length data) \<le> MaxByteCount"
  shows "pushed f s a (a + int (length data)) cb (push data a cb s)"
proof -
  define b gaps where "b = a + int (length data)" and "gaps = Btree_Match Match (ByteInterval a b) (gapTree s)"
  have eq: "push data a cb s = (if data = [] \<or> gaps = [] \<or> length gaps = 1 \<and> b \<le> bi_Start (hd gaps)
    then (Inl errDuplicateStreamData, s) else push_into gaps data a b cb s)"
    by (cases "data = []"; cases "gaps = []"; cases "length gaps = 1 \<and> b \<le> bi_Start (hd gaps)")
      (auto simp: push_def Let_def bnd_def require_def ret_def fail_def gets_def b_def gaps_def)
  have M: "set gaps = {x \<in> gaps_of s. bi_Start x \<le> b \<and> a \<le> bi_End x}" using matched_gaps(2) [OF ok] by (simp add: gaps_def)
  show ?thesis
  proof (cases "data = [] \<or> gaps = [] \<or> length gaps = 1 \<and> b \<le> bi_Start (hd gaps)")
    case True
    have "\<not> in_gaps (gaps_of s) p" if p: "a \<le> p" "p < b" for p
    proof
      assume "in_gaps (gaps_of s) p"
      then obtain x where x: "x \<in> gaps_of s" "bi_Start x \<le> p" "p < bi_End x" by (auto simp: in_gaps_def)
      then have "x \<in> set gaps" using M p by auto
      then show False using True p x by (cases gaps) (auto simp: b_def)
    qed
    then show ?thesis using True eq by (simp add: pushed_def b_def)
  next
    case False
    then have d: "int (length data) = b - a" "a < b" "b \<le> MaxByteCount" "gaps \<noteq> []" using data by (auto simp: b_def)
    have "a \<le> bi_End (hd gaps)" using M d(4) list.set_sel(1) by blast
    then consider "a < bi_End (hd gaps)" | "a = bi_End (hd gaps)" "length gaps = 1" | g x xs where "a = bi_End g" "gaps = g # x # xs"
      using d(4) by (cases gaps; cases "tl gaps") fastforce+
    then have "pushed f s a b cb (push_into gaps data a b cb s)"
    proof cases
      case 1
      then show ?thesis using push_overlap [OF ok data(1) d(1-3) gaps_def d(4)] False by blast
    next
      case 2
      then show ?thesis using push_touch_one [OF ok data(1) d(1-3) gaps_def d(4)] by blast
    next
      case 3
      then show ?thesis using push_touch_many [OF ok data(1) d(1-3) gaps_def] by blast
    qed
    then show ?thesis unfolding eq b_def [symmetric] using False by (simp only: if_False)
  qed
qed

lemma sorter_ok_run_cb [simp]: "sorter_ok f (run_cb cb s) \<longleftrightarrow> sorter_ok f s"
  by (simp add: sorter_ok_def gaps_of_def)

lemma Push_run:
  assumes "sorter_ok f s" and "agrees f a data" "0 \<le> a" "a + int (length data) \<le> MaxByteCount"
  shows "(\<exists>s'. Push data a cb s = (Inl errTooManyGaps, s')) \<or>
    (\<exists>s'. Push data a cb s = (Inr (), s') \<and> sorter_ok f s' \<and> readPos s' = readPos s \<and> tokens s' = tokens s + cb_set cb \<and>
       length (queue s') \<le> length (queue s) + 1 \<and> (\<forall>p. in_gaps (gaps_of s') p \<longleftrightarrow> in_gaps (gaps_of s) p \<and> \<not> (a \<le> p \<and> p < a + int (length data))))"
proof -
  have tok: "tokens (run_cb cb s) = tokens s + cb_set cb" "gaps_of (run_cb cb s) = gaps_of s"
    using mset_called [of cb s] by (simp_all add: tokens_def gaps_of_def)
  show ?thesis
    using push_pushed [OF assms, of cb] assms(1) tok unfolding pushed_def
    by (elim disjE) (auto simp: Push_def handle_def eff_simps)
qed

text \<open>The next byte can be read exactly when it has arrived.\<close>

lemma Pop_run:
  assumes ok: "sorter_ok f s"
  shows "case Pop s of ((off, d, cb), s') \<Rightarrow> off = readPos s \<and> sorter_ok f s' \<and> gaps_of s' = gaps_of s \<and>
    mset (called s') + held (queue s') + cb_set cb = tokens s \<and>
    (case d of None \<Rightarrow> s' = s \<and> (readPos s < MaxByteCount \<longrightarrow> in_gaps (gaps_of s) (readPos s))
     | Some bs \<Rightarrow> bs \<noteq> [] \<and> agrees f (readPos s) bs \<and> readPos s' = readPos s + int (length bs) \<and> readPos s' \<le> MaxByteCount \<and> length (queue s') < length (queue s) \<and>
         \<not> in_gaps (gaps_of s) (readPos s))"
proof (cases "map_of (queue s) (readPos s)")
  case None
  have q: "entries_ok (queue s)" using sorter_okD(8) [OF ok] .
  have "no_straddle (queue s) (readPos s)" using sorter_okD(9) [OF ok] by (fastforce simp: no_straddle_def)
  then have "\<not> covers (queue s) (readPos s)"
    using no_straddle_covers [OF q, of "readPos s"] None q by (auto simp: entries_ok_lookup [symmetric])
  then show ?thesis using None ok sorter_okD(12) [OF ok, of "readPos s"] by (simp add: Pop_def tokens_def cb_set_def)
next
  case (Some e)
  have q: "entries_ok (queue s)" using sorter_okD(8) [OF ok] .
  have e: "(readPos s, e) \<in> set (queue s)" using Some q by (simp add: entries_ok_lookup)
  define r where "r = readPos s + elen e"
  define s' where "s' = s\<lparr>queue := AList.delete (readPos s) (queue s), readPos := r\<rparr>"
  have pos: "readPos s < r" using entries_okD(1) [OF q e] by (simp add: r_def)
  have later: "r \<le> k" if "(k, e') \<in> set (queue s)" "k \<noteq> readPos s" for k e'
    using entries_okD(2) [OF q e that(1)] sorter_okD(9) [OF ok that(1)] that(2) by (simp add: r_def)
  have cov: "covers (queue s') p \<longleftrightarrow> covers (queue s) p" if "r \<le> p" for p
    using that entries_okD(3) [OF q _ e] by (fastforce simp: covers_def s'_def set_delete_eq r_def)
  have here: "covers (queue s) p" if "readPos s \<le> p" "p < r" for p using coversI [OF e] that by (simp add: r_def)
  have gaps: "r \<le> bi_Start g" if "g \<in> gaps_of s" for g
    using here [of "bi_Start g"] gap_not_covered [OF ok that, of "bi_Start g"] sorter_okD(5,6) [OF ok that] by fastforce
  have g': "gaps_of s' = gaps_of s" by (simp add: s'_def gaps_of_def)
  have "sorter_ok f s'"
    unfolding sorter_ok_def g' gaps_ok_def
    using sorter_okD(1-4,6-8,10-12) [OF ok] gaps pos later cov by (auto simp: s'_def set_delete_eq entries_ok_delete)
  moreover have "mset (called s') + held (queue s') + cb_set (DoneCb e) = tokens s"
    using held_delete [of "queue s" "readPos s" e] q e by (simp add: s'_def tokens_def entries_ok_def)
  moreover have "readPos s < MaxByteCount" using pos sorter_okD(10) [OF ok e] unfolding r_def by linarith
  then have "\<not> in_gaps (gaps_of s) (readPos s)" using here [of "readPos s"] pos sorter_okD(12) [OF ok, of "readPos s"] by blast
  ultimately show ?thesis
    using Some g' pos sorter_okD(10,11) [OF ok e] delete_shorter [OF Some] by (auto simp: Pop_def s'_def r_def)
qed

section \<open>Runs\<close>

text \<open>
  What happens to the sorter of a stream: frames arrive, and the reader takes the next frame, with its callback. A run ends at an
  error, which closes the connection.
\<close>

datatype sorter_event = FrameArrives "byte list" int "nat option" | FrameRead

type_synonym sorter_run_state = "frameSorter \<times> byte list \<times> nat list"

fun sorter_step :: "sorter_event \<Rightarrow> sorter_run_state \<Rightarrow> sorter_err + sorter_run_state" where
  "sorter_step (FrameArrives data offset cb) (s, out, cbs) =
     (case Push data offset cb s of (Inl e, _) \<Rightarrow> Inl e | (Inr _, s') \<Rightarrow> Inr (s', out, cbs))"
| "sorter_step FrameRead (s, out, cbs) =
     (case Pop s of ((_, data, cb), s') \<Rightarrow>
        Inr (s', out @ (case data of None \<Rightarrow> [] | Some d \<Rightarrow> d), cbs @ (case cb of None \<Rightarrow> [] | Some c \<Rightarrow> [c])))"

fun sorter_run :: "sorter_event list \<Rightarrow> sorter_run_state \<Rightarrow> sorter_err + sorter_run_state" where
  "sorter_run [] st = Inr st"
| "sorter_run (e # es) st = sum_bind (sorter_step e st) (sorter_run es)"

text \<open>The frames carry the bytes of the stream \<open>f\<close>; the bytes and callbacks that have arrived.\<close>

fun event_of_stream :: "(int \<Rightarrow> byte) \<Rightarrow> sorter_event \<Rightarrow> bool" where
  "event_of_stream f (FrameArrives data offset cb) \<longleftrightarrow>
     0 \<le> offset \<and> offset + int (length data) \<le> MaxByteCount \<and> agrees f offset data"
| "event_of_stream f FrameRead \<longleftrightarrow> True"

definition arrived :: "sorter_event list \<Rightarrow> int \<Rightarrow> bool" where
  "arrived es p \<longleftrightarrow> (\<exists>data offset cb. FrameArrives data offset cb \<in> set es \<and> offset \<le> p \<and> p < offset + int (length data))"

fun event_cb :: "sorter_event \<Rightarrow> nat list" where
  "event_cb (FrameArrives data offset (Some cb)) = [cb]"
| "event_cb _ = []"

definition first_bytes :: "(int \<Rightarrow> byte) \<Rightarrow> int \<Rightarrow> byte list" where
  "first_bytes f n = map (\<lambda>i. f (int i)) [0..<nat n]"

lemma first_bytes_append:
  assumes "0 \<le> n" and "agrees f n d"
  shows "first_bytes f n @ d = first_bytes f (n + int (length d))"
proof (rule nth_equalityI)
  show "length (first_bytes f n @ d) = length (first_bytes f (n + int (length d)))"
    using assms(1) by (simp add: first_bytes_def nat_add_distrib)
  fix i assume "i < length (first_bytes f n @ d)"
  then show "(first_bytes f n @ d) ! i = first_bytes f (n + int (length d)) ! i"
    using assms by (auto simp: first_bytes_def nth_append agrees_def nat_add_distrib)
qed

definition run_ok :: "(int \<Rightarrow> byte) \<Rightarrow> sorter_event list \<Rightarrow> sorter_run_state \<Rightarrow> bool" where
  "run_ok f es st \<longleftrightarrow> (case st of (s, out, cbs) \<Rightarrow> sorter_ok f s \<and> out = first_bytes f (readPos s) \<and>
     readPos s \<le> MaxByteCount \<and> length (queue s) \<le> length es \<and> tokens s + mset cbs = mset (concat (map event_cb es)) \<and>
     (\<forall>p. 0 \<le> p \<longrightarrow> p < MaxByteCount \<longrightarrow> (in_gaps (gaps_of s) p \<longleftrightarrow> \<not> arrived es p)))"

lemma cb_set_mset: "cb_set cb = mset (case cb of None \<Rightarrow> [] | Some c \<Rightarrow> [c])"
  by (simp add: cb_set_def split: option.split)

lemma sorter_step_ok:
  assumes "run_ok f es st" and "event_of_stream f e"
  shows "case sorter_step e st of Inl err \<Rightarrow> err = errTooManyGaps | Inr st' \<Rightarrow> run_ok f (es @ [e]) st'"
proof (cases e)
  case (FrameArrives d a cb)
  obtain s out cbs where st: "st = (s, out, cbs)" by (cases st)
  have ok: "sorter_ok f s" using assms(1) by (simp add: run_ok_def st)
  have arr: "arrived (es @ [e]) p \<longleftrightarrow> arrived es p \<or> a \<le> p \<and> p < a + int (length d)" for p
    by (auto simp: arrived_def FrameArrives)
  have cbs: "mset (concat (map event_cb (es @ [e]))) = mset (concat (map event_cb es)) + cb_set cb"
    by (cases cb) (auto simp: FrameArrives cb_set_def)
  have "agrees f a d" "0 \<le> a" "a + int (length d) \<le> MaxByteCount" using assms(2) by (simp_all add: FrameArrives)
  from Push_run [OF ok this, of cb]
  consider s' where "Push d a cb s = (Inl errTooManyGaps, s')"
    | s' where "Push d a cb s = (Inr (), s')" "sorter_ok f s'" "readPos s' = readPos s" "tokens s' = tokens s + cb_set cb"
      "length (queue s') \<le> length (queue s) + 1" "\<forall>p. in_gaps (gaps_of s') p \<longleftrightarrow> in_gaps (gaps_of s) p \<and> \<not> (a \<le> p \<and> p < a + int (length d))"
    by blast
  then show ?thesis
  proof cases
    case 1
    then show ?thesis by (simp add: FrameArrives st)
  next
    case 2
    have "tokens s' + mset cbs = mset (concat (map event_cb (es @ [e])))"
      using assms(1) 2(4) cbs by (simp add: run_ok_def st)
    moreover have "in_gaps (gaps_of s') p \<longleftrightarrow> \<not> arrived (es @ [e]) p" if "0 \<le> p" "p < MaxByteCount" for p
      using assms(1) 2(6) arr [of p] that by (simp add: run_ok_def st)
    ultimately have "run_ok f (es @ [e]) (s', out, cbs)" using assms(1) 2(2,3,5) by (simp add: run_ok_def st del: concat.simps)
    then show ?thesis using 2(1) by (simp add: FrameArrives st)
  qed
next
  case FrameRead
  obtain s out cbs where st: "st = (s, out, cbs)" by (cases st)
  have ok: "sorter_ok f s" using assms(1) by (simp add: run_ok_def st)
  obtain off d cb s' where pop: "Pop s = ((off, d, cb), s')" by (metis prod.exhaust)
  have arr: "arrived (es @ [e]) p \<longleftrightarrow> arrived es p" for p by (auto simp: arrived_def FrameRead)
  have "out @ (case d of None \<Rightarrow> [] | Some bs \<Rightarrow> bs) = first_bytes f (readPos s')"
    using Pop_run [OF ok] assms(1) sorter_okD(3) [OF ok] by (auto simp: pop st run_ok_def first_bytes_append split: option.splits)
  moreover have "tokens s' + mset (cbs @ (case cb of None \<Rightarrow> [] | Some c \<Rightarrow> [c])) = mset (concat (map event_cb (es @ [e])))"
  proof -
    have "tokens s' + mset (cbs @ (case cb of None \<Rightarrow> [] | Some c \<Rightarrow> [c])) = (tokens s' + cb_set cb) + mset cbs"
      by (simp add: cb_set_mset)
    also have "tokens s' + cb_set cb = tokens s" using Pop_run [OF ok] by (simp add: pop tokens_def)
    also have "tokens s + mset cbs = mset (concat (map event_cb (es @ [e])))" using assms(1) by (simp add: run_ok_def st FrameRead)
    finally show ?thesis .
  qed
  moreover have "sorter_ok f s'" "gaps_of s' = gaps_of s" "readPos s' \<le> MaxByteCount" "length (queue s') \<le> length es"
    using Pop_run [OF ok] assms(1) by (auto simp: pop run_ok_def st split: option.splits)
  ultimately have "run_ok f (es @ [e]) (s', out @ (case d of None \<Rightarrow> [] | Some bs \<Rightarrow> bs), cbs @ (case cb of None \<Rightarrow> [] | Some c \<Rightarrow> [c]))"
    using assms(1) arr by (simp add: st run_ok_def del: mset_append)
  then show ?thesis by (simp add: FrameRead st pop)
qed

lemma sorter_run_ok:
  assumes "run_ok f es st" and "list_all (event_of_stream f) es'"
  shows "case sorter_run es' st of Inl err \<Rightarrow> err = errTooManyGaps | Inr st' \<Rightarrow> run_ok f (es @ es') st'"
  using assms
proof (induction es' arbitrary: es st)
  case (Cons e es')
  show ?case
  proof (cases "sorter_step e st")
    case (Inl err)
    then show ?thesis using sorter_step_ok [OF Cons.prems(1), of e] Cons.prems(2) by simp
  next
    case (Inr st')
    then have "run_ok f (es @ [e]) st'" using sorter_step_ok [OF Cons.prems(1), of e] Cons.prems(2) by simp
    from Cons.IH [OF this, unfolded append_assoc append_Cons append_Nil] show ?thesis using Inr Cons.prems(2) by simp
  qed
qed simp

lemma new_sorter_ok: "\<exists>s. newFrameSorter = Some s \<and> run_ok f [] (s, [], [])"
proof -
  have "intervals.tree_ok (Btree_New :: ByteInterval Btree)" "len (Btree_New :: ByteInterval Btree) = 0" "inorder (root (Btree_New :: ByteInterval Btree)) = []"
    by (simp_all add: intervals.tree_ok_def Btree_New_def Btree_Init_def)
  then obtain t where t: "Insert Comp (ByteInterval 0 MaxByteCount) Btree_New = Some t" "intervals.tree_ok t"
    "inorder (root t) = [ByteInterval 0 MaxByteCount]"
    using intervals.Insert_ok [of Btree_New "ByteInterval 0 MaxByteCount"] by (auto simp: intervals.ins_def)
  define s where "s = \<lparr>queue = [], readPos = 0, gapTree = t, called = []\<rparr>"
  have "gaps_of s = {ByteInterval 0 MaxByteCount}" using t by (simp add: s_def gaps_of_def)
  then have "run_ok f [] (s, [], [])"
    using t by (auto simp: s_def run_ok_def sorter_ok_def gaps_ok_def separated_def entries_ok_def covers_def in_gaps_def intervals.tree_ok_def
      MaxByteCount_def MaxStreamFrameSorterGaps_def first_bytes_def tokens_def arrived_def)
  then show ?thesis using t(1) by (simp add: newFrameSorter_def s_def)
qed

lemma arrived_below: "list_all (event_of_stream f) es \<Longrightarrow> arrived es p \<Longrightarrow> 0 \<le> p \<and> p < MaxByteCount"
  unfolding arrived_def list_all_iff by fastforce

lemma run_ok_arrived:
  assumes "run_ok f es (s, out, cbs)" and "list_all (event_of_stream f) es"
  shows "0 \<le> p \<Longrightarrow> p < readPos s \<Longrightarrow> arrived es p"
    and "readPos s \<le> p \<Longrightarrow> covers (queue s) p \<longleftrightarrow> arrived es p"
    and "fst (snd (fst (Pop s))) \<noteq> None \<longleftrightarrow> arrived es (readPos s)"
proof -
  have ok: "sorter_ok f s" "readPos s \<le> MaxByteCount" "0 \<le> readPos s"
    and gaps: "\<And>p. 0 \<le> p \<Longrightarrow> p < MaxByteCount \<Longrightarrow> in_gaps (gaps_of s) p \<longleftrightarrow> \<not> arrived es p"
    using assms(1) sorter_okD(3) by (auto simp: run_ok_def)
  show "arrived es p" if "0 \<le> p" "p < readPos s"
    using gaps [of p] that ok(2) sorter_okD(5) [OF ok(1)] by (force simp: in_gaps_def)
  show cov: "covers (queue s) p \<longleftrightarrow> arrived es p" if "readPos s \<le> p" for p
  proof (cases "p < MaxByteCount")
    case True
    then show ?thesis using gaps [of p] sorter_okD(12) [OF ok(1) that] that ok(3) by auto
  next
    case False
    then have "\<not> covers (queue s) p" using sorter_okD(10) [OF ok(1)] by (force simp: covers_def)
    then show ?thesis using arrived_below [OF assms(2), of p] False by blast
  qed
  show "fst (snd (fst (Pop s))) \<noteq> None \<longleftrightarrow> arrived es (readPos s)"
  proof (cases "fst (snd (fst (Pop s)))")
    case None
    then show ?thesis
      using Pop_run [OF ok(1)] gaps [of "readPos s"] ok arrived_below [OF assms(2), of "readPos s"] by (fastforce split: prod.splits option.splits)
  next
    case (Some bs)
    then have "bs \<noteq> []" "\<not> in_gaps (gaps_of s) (readPos s)" "readPos s + int (length bs) \<le> MaxByteCount"
      using Pop_run [OF ok(1)] by (auto split: prod.splits)
    then have "readPos s < MaxByteCount" by (cases bs) auto
    then show ?thesis using Some gaps [of "readPos s"] ok(3) \<open>\<not> in_gaps (gaps_of s) (readPos s)\<close> by simp
  qed
qed

text \<open>
  C33. The frame sorter reassembles the stream. Let frames of a stream \<open>f\<close> arrive in any order, with any overlaps and duplicates,
  while frames are read. The sorter never panics; the only error is that there are too many gaps. Otherwise, what was read is exactly
  the beginning of \<open>f\<close> up to the read position, all of it had arrived, every byte beyond is queued exactly when it has arrived, there is a next
  frame exactly when the next byte has arrived, and each callback has either been called once, is held by one queued frame, or was
  handed to the reader.
\<close>

theorem stream_reassembled:
  assumes "list_all (event_of_stream f) es" and "newFrameSorter = Some s0"
  shows "case sorter_run es (s0, [], []) of
      Inl e \<Rightarrow> e = errTooManyGaps
    | Inr (s, out, cbs) \<Rightarrow>
        out = first_bytes f (readPos s) \<and> (\<forall>p. 0 \<le> p \<longrightarrow> p < readPos s \<longrightarrow> arrived es p) \<and>
        (\<forall>p. readPos s \<le> p \<longrightarrow> (covers (queue s) p \<longleftrightarrow> arrived es p)) \<and>
        (fst (snd (fst (Pop s))) \<noteq> None \<longleftrightarrow> arrived es (readPos s)) \<and>
        mset (called s) + held (queue s) + mset cbs = mset (concat (map event_cb es))"
proof -
  have "run_ok f [] (s0, [], [])" using new_sorter_ok [of f] assms(2) by (metis option.inject)
  note run = sorter_run_ok [OF this assms(1), unfolded append_Nil]
  show ?thesis
  proof (cases "sorter_run es (s0, [], [])")
    case (Inl e)
    then show ?thesis using run by simp
  next
    case (Inr st)
    obtain s out cbs where st: "st = (s, out, cbs)" by (cases st)
    then have ok: "run_ok f es (s, out, cbs)" using run Inr by simp
    then have "out = first_bytes f (readPos s)" "tokens s + mset cbs = mset (concat (map event_cb es))" by (simp_all add: run_ok_def)
    then show ?thesis using run_ok_arrived [OF ok assms(1)] Inr st by (simp add: tokens_def)
  qed
qed

theorem stream_reassembled_witness:
  "case newFrameSorter of None \<Rightarrow> False | Some s0 \<Rightarrow>
    (case sorter_run [FrameArrives [3, 4] 2 (Some 7), FrameArrives [1, 2, 3] 0 (Some 8), FrameRead, FrameArrives [1] 0 (Some 9), FrameRead] (s0, [], []) of
       Inl e \<Rightarrow> False
     | Inr (s, out, cbs) \<Rightarrow> out = [1, 2, 3, 4] \<and> out = first_bytes (\<lambda>p. word_of_int p + 1) (readPos s) \<and>
         mset (called s) + held (queue s) + mset cbs = {#7, 8, 9#})"
proof -
  let ?es = "[FrameArrives [3, 4] 2 (Some 7), FrameArrives [1, 2, 3] 0 (Some 8), FrameRead, FrameArrives [1] 0 (Some 9), FrameRead]"
  obtain s0 where s0: "newFrameSorter = Some s0" using new_sorter_ok by blast
  have ev: "list_all (event_of_stream (\<lambda>p. word_of_int p + 1)) ?es"
    by (simp add: agrees_def MaxByteCount_def less_Suc_eq numeral_2_eq_2 numeral_3_eq_3)
  have "case sorter_run ?es (the newFrameSorter, [], []) of Inl e \<Rightarrow> False | Inr (s, out, cbs) \<Rightarrow> out = [1, 2, 3, 4]"
    by code_simp
  then have "case sorter_run ?es (s0, [], []) of Inl e \<Rightarrow> False | Inr (s, out, cbs) \<Rightarrow> out = [1, 2, 3, 4]"
    by (simp only: s0 option.sel)
  then obtain s out cbs where r: "sorter_run ?es (s0, [], []) = Inr (s, out, cbs)" "out = [1, 2, 3, 4]"
    by (cases "sorter_run ?es (s0, [], [])") (auto simp del: sorter_run.simps)
  have "mset (concat (map event_cb ?es)) = {#7, 8, 9#}" by simp
  then show ?thesis using stream_reassembled [OF ev s0] unfolding s0 option.case r(1) sum.case prod.case r(2) by simp
qed

lemma sorter_run_append: "sorter_run (xs @ ys) st = sum_bind (sorter_run xs st) (sorter_run ys)"
  by (induction xs arbitrary: st) (auto simp: sum_bind_def split: sum.split)

lemma reads_drain:
  "length (queue s) \<le> n \<or> map_of (queue s) (readPos s) = None \<Longrightarrow>
    \<exists>s' out' cbs'. sorter_run (replicate n FrameRead) (s, out, cbs) = Inr (s', out', cbs') \<and> map_of (queue s') (readPos s') = None"
proof (induction n arbitrary: s out cbs)
  case (Suc n)
  show ?case
  proof (cases "map_of (queue s) (readPos s)")
    case None
    then show ?thesis using Suc.IH [of s out cbs] by (simp add: Pop_def)
  next
    case (Some e)
    define s' where "s' = s\<lparr>queue := AList.delete (readPos s) (queue s), readPos := readPos s + elen e\<rparr>"
    have "length (queue s') \<le> n" using Suc.prems Some delete_shorter [OF Some] by (simp add: s'_def)
    then show ?thesis using Suc.IH [of s'] Some by (simp add: Pop_def s'_def)
  qed
qed auto

text \<open>
  C34. Everything that arrived in order is delivered. After as many reads as there were events, the reader has all bytes of the
  stream up to the first one that has not arrived.
\<close>

theorem stream_delivered:
  assumes "list_all (event_of_stream f) es" and "newFrameSorter = Some s0" and "length es \<le> n"
  shows "case sorter_run (es @ replicate n FrameRead) (s0, [], []) of
      Inl e \<Rightarrow> e = errTooManyGaps
    | Inr (s, out, cbs) \<Rightarrow>
        out = first_bytes f (readPos s) \<and> (\<forall>p. 0 \<le> p \<longrightarrow> p < readPos s \<longrightarrow> arrived es p) \<and> \<not> arrived es (readPos s)"
proof -
  let ?es = "es @ replicate n FrameRead"
  have init: "run_ok f [] (s0, [], [])" using new_sorter_ok [of f] assms(2) by (metis option.inject)
  have ev: "list_all (event_of_stream f) ?es" using assms(1) by (auto simp: list_all_iff)
  have arr: "arrived ?es p \<longleftrightarrow> arrived es p" for p by (auto simp: arrived_def)
  show ?thesis
  proof (cases "sorter_run es (s0, [], [])")
    case (Inl e)
    then show ?thesis using sorter_run_ok [OF init assms(1)] by (simp add: sorter_run_append)
  next
    case (Inr st)
    obtain s out cbs where st: "st = (s, out, cbs)" by (cases st)
    have "length (queue s) \<le> n" using sorter_run_ok [OF init assms(1)] assms(3) Inr st by (simp add: run_ok_def)
    then obtain s' out' cbs' where s': "sorter_run ?es (s0, [], []) = Inr (s', out', cbs')" "map_of (queue s') (readPos s') = None"
      using reads_drain [of s n out cbs] Inr st by (auto simp: sorter_run_append)
    have ok: "run_ok f ?es (s', out', cbs')" using sorter_run_ok [OF init ev] unfolding s'(1) append_Nil by simp
    then have "out' = first_bytes f (readPos s')" by (simp add: run_ok_def)
    then show ?thesis
      using run_ok_arrived [OF ok ev, unfolded arr] s' by (simp add: Pop_def)
  qed
qed

theorem stream_delivered_witness:
  "case newFrameSorter of None \<Rightarrow> False | Some s0 \<Rightarrow>
    (case sorter_run ([FrameArrives [4, 5] 3 None, FrameArrives [1, 2] 0 None, FrameArrives [2, 3, 4] 1 None] @ replicate 3 FrameRead) (s0, [], []) of
       Inl e \<Rightarrow> False
     | Inr (s, out, cbs) \<Rightarrow> out = [1, 2, 3, 4, 5] \<and> out = first_bytes (\<lambda>p. word_of_int p + 1) (readPos s) \<and>
         \<not> arrived [FrameArrives [4, 5] 3 None, FrameArrives [1, 2] 0 None, FrameArrives [2, 3, 4] 1 None] (readPos s))"
proof -
  let ?es = "[FrameArrives [4, 5] 3 None, FrameArrives [1, 2] 0 None, FrameArrives [2, 3, 4] 1 None]"
  obtain s0 where s0: "newFrameSorter = Some s0" using new_sorter_ok by blast
  have ev: "list_all (event_of_stream (\<lambda>p. word_of_int p + 1)) ?es"
    by (simp add: agrees_def MaxByteCount_def less_Suc_eq numeral_2_eq_2 numeral_3_eq_3)
  have "case sorter_run (?es @ replicate 3 FrameRead) (the newFrameSorter, [], []) of Inl e \<Rightarrow> False | Inr (s, out, cbs) \<Rightarrow> out = [1, 2, 3, 4, 5]"
    by code_simp
  then have "case sorter_run (?es @ replicate 3 FrameRead) (s0, [], []) of Inl e \<Rightarrow> False | Inr (s, out, cbs) \<Rightarrow> out = [1, 2, 3, 4, 5]"
    by (simp only: s0 option.sel)
  then obtain s out cbs where r: "sorter_run (?es @ replicate 3 FrameRead) (s0, [], []) = Inr (s, out, cbs)" "out = [1, 2, 3, 4, 5]"
    by (cases "sorter_run (?es @ replicate 3 FrameRead) (s0, [], [])") (auto simp del: sorter_run.simps)
  then show ?thesis using stream_delivered [OF ev s0, of 3] unfolding s0 option.case r(1) sum.case prod.case r(2) by simp
qed

section \<open>Peeking\<close>

text \<open>Both loops end, and the bytes are those of the stream.\<close>

lemma peek_check_ends:
  assumes ok: "sorter_ok f s" and "0 \<le> n" and "no_straddle (queue s) pos"
  shows "peek_check s pos n = Some (if \<forall>p. pos \<le> p \<longrightarrow> p < pos + n \<longrightarrow> covers (queue s) p then None else Some errTooLittleData)"
  using assms(2,3)
proof (induction "nat n" arbitrary: pos n rule: less_induct)
  case less
  have q: "entries_ok (queue s)" using sorter_okD(8) [OF ok] .
  show ?case
  proof (cases "n > 0")
    case False
    then have "peek_check s pos n = Some None" by (simp add: peek_check.simps)
    then show ?thesis using False by simp
  next
    case True
    show ?thesis
    proof (cases "map_of (queue s) pos")
      case None
      then have "\<not> covers (queue s) pos" using no_straddle_covers [OF q less.prems(2)] q by (auto simp: entries_ok_lookup [symmetric])
      then show ?thesis using True None by (auto simp: peek_check.simps [of s pos n])
    next
      case (Some e)
      then have e: "(pos, e) \<in> set (queue s)" "0 < elen e" using q entries_okD(1) [OF q] by (auto simp: entries_ok_lookup)
      have cov: "covers (queue s) p" if "pos \<le> p" "p < pos + elen e" for p using coversI [OF e(1)] that .
      show ?thesis
      proof (cases "n \<le> elen e")
        case True
        then show ?thesis using Some cov \<open>n > 0\<close> by (auto simp: peek_check.simps [of s pos n])
      next
        case False
        have "no_straddle (queue s) (pos + elen e)"
          using less.prems(2) entries_okD(2,3) [OF q e(1)] entries_okD(2) [OF q _ e(1)] by (fastforce simp: no_straddle_def)
        then have "peek_check s (pos + elen e) (n - elen e) =
          Some (if \<forall>p. pos + elen e \<le> p \<longrightarrow> p < pos + n \<longrightarrow> covers (queue s) p then None else Some errTooLittleData)"
          using less.hyps [of "n - elen e" "pos + elen e"] False e(2) by simp
        moreover have "(\<forall>p. pos + elen e \<le> p \<longrightarrow> p < pos + n \<longrightarrow> covers (queue s) p) \<longleftrightarrow> (\<forall>p. pos \<le> p \<longrightarrow> p < pos + n \<longrightarrow> covers (queue s) p)"
          using cov e(2) by (meson not_le order.trans less_add_same_cancel1 less_imp_le)
        ultimately show ?thesis using Some False \<open>n > 0\<close> by (simp add: peek_check.simps [of s pos n])
      qed
    qed
  qed
qed

lemma agrees_append: "agrees f k (xs @ ys) \<longleftrightarrow> agrees f k xs \<and> agrees f (k + int (length xs)) ys"
proof
  assume "agrees f k (xs @ ys)"
  then show "agrees f k xs \<and> agrees f (k + int (length xs)) ys"
    using agrees_take [of f k "xs @ ys" "length xs"] agrees_drop [of f k "xs @ ys" "length xs"] by simp
next
  assume "agrees f k xs \<and> agrees f (k + int (length xs)) ys"
  then show "agrees f k (xs @ ys)" by (auto simp: agrees_def nth_append)
qed

lemma peek_copy_ends:
  assumes ok: "sorter_ok f s" and "length copied \<le> n" and "no_straddle (queue s) pos"
    and "\<And>p. pos \<le> p \<Longrightarrow> p < pos + int (n - length copied) \<Longrightarrow> covers (queue s) p"
    and "agrees f (pos - int (length copied)) copied"
  shows "\<exists>d. peek_copy s pos n copied = Some d \<and> length d = n \<and> agrees f (pos - int (length copied)) d"
  using assms(2-5)
proof (induction "n - length copied" arbitrary: pos copied rule: less_induct)
  case less
  have q: "entries_ok (queue s)" using sorter_okD(8) [OF ok] .
  show ?case
  proof (cases "length copied < n")
    case False
    then show ?thesis using less.prems by (simp add: peek_copy.simps [of s pos n copied])
  next
    case True
    then have "covers (queue s) pos" using less.prems(3) [of pos] by simp
    then obtain e where e: "(pos, e) \<in> set (queue s)" using no_straddle_covers [OF q less.prems(2)] by blast
    then have len: "0 < elen e" "map_of (queue s) pos = Some e" using entries_okD(1) [OF q] q by (auto simp: entries_ok_lookup)
    define copied' where "copied' = copied @ take (n - length copied) (entry_Data e)"
    have run: "peek_copy s pos n copied = peek_copy s (pos + elen e) n copied'"
      using True len(2) by (simp add: Let_def peek_copy.simps [of s pos n copied] copied'_def)
    have agr: "agrees f (pos - int (length copied)) copied'"
      using less.prems(4) agrees_take [OF sorter_okD(11) [OF ok e]] by (simp add: copied'_def agrees_append)
    show ?thesis
    proof (cases "n - length copied \<le> length (entry_Data e)")
      case True
      then have "length copied' = n" using less.prems(1) by (simp add: copied'_def)
      then show ?thesis using run agr by (simp add: peek_copy.simps [of s "pos + elen e"])
    next
      case False
      then have c': "copied' = copied @ entry_Data e" by (simp add: copied'_def)
      have str: "no_straddle (queue s) (pos + elen e)"
        using less.prems(2) entries_okD(2,3) [OF q e] entries_okD(2) [OF q _ e] by (fastforce simp: no_straddle_def)
      have "length copied < length copied'" "length copied < n" using len(1) \<open>length copied < n\<close> by (simp_all add: c')
      then have "n - length copied' < n - length copied" by (intro diff_less_mono2)
      moreover have "length copied' \<le> n" "pos + elen e - int (length copied') = pos - int (length copied)"
        using False by (simp_all add: c')
      ultimately show ?thesis
        using less.hyps [of copied' "pos + elen e"] str agr less.prems(3) run False by (simp add: c')
    qed
  qed
qed

lemma Peek_exact:
  assumes "sorter_ok f s" and "no_straddle (queue s) offset"
  shows "\<exists>r. Peek offset n s = Some r \<and>
    (if \<forall>p. offset \<le> p \<longrightarrow> p < offset + int n \<longrightarrow> covers (queue s) p
     then \<exists>d. r = Inr d \<and> length d = n \<and> agrees f offset d else r = Inl errTooLittleData)"
  using peek_check_ends [OF assms(1) _ assms(2), of "int n"] peek_copy_ends [OF assms(1) _ assms(2), of "[]" n]
  by (cases "n = 0") (auto simp: Peek_def agrees_def)

end
