(* ===== verification/Quic_Flow.thy ===== *)
theory Quic_Flow
  imports Complex_Main Machine Quic_Tracker
begin

text \<open>
  Flow control (\<open>internal/flowcontrol\<close>): the controllers of a connection and of its streams. A stream's controller calls that of
  its connection, so that its operations act on both. What is read from elsewhere is an argument: the time, the smoothed
  round-trip time of \<open>rttStats\<close>, and the callback \<open>allowWindowIncrease\<close>, which is nil for a stream. Byte counts are those of a
  connection that transfers fewer than \<open>2 ^ 62\<close> bytes, so that no sum leaves the range of \<open>int64\<close>.
\<close>

section \<open>Floating-point numbers\<close>

text \<open>
  A \<open>float64\<close> is the rational number it denotes; an operation is exact and then rounded to 53 bits, to the nearest and in a tie
  to the even one. The numbers here are far from overflowing. The conversion to an integer truncates.
\<close>

function bit_length :: "int \<Rightarrow> int" where
  "bit_length n = (if n \<le> 0 then 0 else 1 + bit_length (n div 2))"
  by pat_completeness auto

termination by (relation "measure nat") auto

declare bit_length.simps [simp del]

definition round_even :: "rat \<Rightarrow> int" where
  "round_even y = (let q = \<lfloor>y\<rfloor>; r = y - of_int q in
     if r < 1 / 2 then q else if r > 1 / 2 then q + 1 else if even q then q else q + 1)"

text \<open>The distance of neighbouring numbers at a positive \<open>x\<close>.\<close>

definition float64_unit :: "rat \<Rightarrow> rat" where
  "float64_unit x = (let e = max (bit_length \<lfloor>x * 2 ^ 1074\<rfloor> - 1127) (-1074) in if e \<ge> 0 then 2 ^ nat e else 1 / 2 ^ nat (- e))"

definition float64_pos :: "rat \<Rightarrow> rat" where
  "float64_pos x = of_int (round_even (x / float64_unit x)) * float64_unit x"

definition float64 :: "rat \<Rightarrow> rat" where
  "float64 x = (if x = 0 then 0 else if x < 0 then - float64_pos (- x) else float64_pos x)"

definition float_trunc :: "rat \<Rightarrow> int" where
  "float_trunc x = (if x < 0 then \<lceil>x\<rceil> else \<lfloor>x\<rfloor>)"

definition float_mult :: "rat \<Rightarrow> rat \<Rightarrow> rat" where "float_mult x y = float64 (x * y)"

definition float_div :: "rat \<Rightarrow> rat \<Rightarrow> rat" where "float_div x y = float64 (x / y)"

definition float_of_int :: "int \<Rightarrow> rat" where "float_of_int n = float64 (of_int n)"

definition WindowUpdateThreshold :: rat where "WindowUpdateThreshold = 1 / 4"

definition ConnectionFlowControlMultiplier :: rat where "ConnectionFlowControlMultiplier = 3 / 2"

section \<open>The common part\<close>

datatype flow_err = FinalSizeError | FlowControlError | ResetAfterRead | FlowPanic

record baseFlowController =
  bytesSent :: int
  sendWindow :: int
  lastBlockedAt :: int
  bytesRead :: int
  highestReceived :: int
  receiveWindow :: int
  receiveWindowSize :: int
  maxReceiveWindowSize :: int
  epochStartTime :: mono_time
  epochStartOffset :: int

type_synonym allow = "(int \<Rightarrow> bool) option"

definition base_SendWindowSize :: "'a baseFlowController_scheme \<Rightarrow> int" where
  "base_SendWindowSize c = (if bytesSent c > sendWindow c then 0 else sendWindow c - bytesSent c)"

definition base_IsNewlyBlocked :: "'a baseFlowController_scheme \<Rightarrow> (bool \<times> int) \<times> 'a baseFlowController_scheme" where
  "base_IsNewlyBlocked c =
     (if base_SendWindowSize c \<noteq> 0 \<or> sendWindow c = lastBlockedAt c then ((False, 0), c)
      else ((True, sendWindow c), c\<lparr>lastBlockedAt := sendWindow c\<rparr>))"

definition base_AddBytesSent :: "int \<Rightarrow> 'a baseFlowController_scheme \<Rightarrow> 'a baseFlowController_scheme" where
  "base_AddBytesSent n c = c\<lparr>bytesSent := bytesSent c + n\<rparr>"

definition UpdateSendWindow :: "int \<Rightarrow> 'a baseFlowController_scheme \<Rightarrow> bool \<times> 'a baseFlowController_scheme" where
  "UpdateSendWindow offset c = (if offset > sendWindow c then (True, c\<lparr>sendWindow := offset\<rparr>) else (False, c))"

definition addBytesRead :: "int \<Rightarrow> 'a baseFlowController_scheme \<Rightarrow> 'a baseFlowController_scheme" where
  "addBytesRead n c = c\<lparr>bytesRead := bytesRead c + n\<rparr>"

definition hasWindowUpdate :: "'a baseFlowController_scheme \<Rightarrow> bool" where
  "hasWindowUpdate c \<longleftrightarrow>
     (let bytesRemaining = receiveWindow c - bytesRead c in
      bytesRemaining \<le> float_trunc (float_mult (float_of_int (receiveWindowSize c)) (1 - WindowUpdateThreshold)))"

definition startNewAutoTuningEpoch :: "mono_time \<Rightarrow> 'a baseFlowController_scheme \<Rightarrow> 'a baseFlowController_scheme" where
  "startNewAutoTuningEpoch now c = c\<lparr>epochStartTime := now, epochStartOffset := bytesRead c\<rparr>"

definition maybeAdjustWindowSize ::
    "allow \<Rightarrow> int \<Rightarrow> mono_time \<Rightarrow> 'a baseFlowController_scheme \<Rightarrow> 'a baseFlowController_scheme" where
  "maybeAdjustWindowSize allow rtt now c =
     (let bytesReadInEpoch = bytesRead c - epochStartOffset c in
      if bytesReadInEpoch \<le> quo (receiveWindowSize c) 2 then c
      else if rtt = 0 then c
      else
        let fraction = float_div (float_of_int bytesReadInEpoch) (float_of_int (receiveWindowSize c));
            c' = (if mono_Sub now (epochStartTime c) < float_trunc (float_mult (float_mult 4 fraction) (float_of_int rtt))
                  then
                    let newSize = min (2 * receiveWindowSize c) (maxReceiveWindowSize c) in
                    if newSize > receiveWindowSize c \<and> (case allow of None \<Rightarrow> True | Some ok \<Rightarrow> ok (newSize - receiveWindowSize c))
                    then c\<lparr>receiveWindowSize := newSize\<rparr> else c
                  else c)
        in startNewAutoTuningEpoch now c')"

definition getWindowUpdate ::
    "allow \<Rightarrow> int \<Rightarrow> mono_time \<Rightarrow> 'a baseFlowController_scheme \<Rightarrow> int \<times> 'a baseFlowController_scheme" where
  "getWindowUpdate allow rtt now c =
     (if \<not> hasWindowUpdate c then (0, c)
      else
        let c = maybeAdjustWindowSize allow rtt now c;
            c = c\<lparr>receiveWindow := bytesRead c + receiveWindowSize c\<rparr>
        in (receiveWindow c, c))"

definition checkFlowControlViolation :: "'a baseFlowController_scheme \<Rightarrow> bool" where
  "checkFlowControlViolation c \<longleftrightarrow> highestReceived c > receiveWindow c"

section \<open>The connection\<close>

type_synonym connectionFlowController = baseFlowController

definition NewConnectionFlowController :: "int \<Rightarrow> int \<Rightarrow> connectionFlowController" where
  "NewConnectionFlowController window maxWindow =
     \<lparr>bytesSent = 0, sendWindow = 0, lastBlockedAt = 0, bytesRead = 0, highestReceived = 0, receiveWindow = window,
      receiveWindowSize = window, maxReceiveWindowSize = maxWindow, epochStartTime = 0, epochStartOffset = 0\<rparr>"

definition IncrementHighestReceived :: "int \<Rightarrow> mono_time \<Rightarrow> (flow_err, connectionFlowController, unit) eff" where
  "IncrementHighestReceived increment now c =
     (let c = (if highestReceived c = 0 then startNewAutoTuningEpoch now c else c);
          c = c\<lparr>highestReceived := highestReceived c + increment\<rparr>
      in if checkFlowControlViolation c then (Inl FlowControlError, c) else (Inr (), c))"

definition conn_AddBytesRead :: "int \<Rightarrow> connectionFlowController \<Rightarrow> bool \<times> connectionFlowController" where
  "conn_AddBytesRead n c = (let c = addBytesRead n c in (hasWindowUpdate c, c))"

definition conn_GetWindowUpdate :: "allow \<Rightarrow> int \<Rightarrow> mono_time \<Rightarrow> connectionFlowController \<Rightarrow> int \<times> connectionFlowController" where
  "conn_GetWindowUpdate allow rtt now c = getWindowUpdate allow rtt now c"

text \<open>Calling a nil callback is a panic.\<close>

definition EnsureMinimumWindowSize :: "allow \<Rightarrow> int \<Rightarrow> mono_time \<Rightarrow> (flow_err, connectionFlowController, unit) eff" where
  "EnsureMinimumWindowSize allow minimum now c =
     (if minimum \<le> receiveWindowSize c then (Inr (), c)
      else
        let newSize = min minimum (maxReceiveWindowSize c); delta = newSize - receiveWindowSize c in
        if delta > 0 then
          (case allow of None \<Rightarrow> (Inl FlowPanic, c)
           | Some ok \<Rightarrow> (Inr (), startNewAutoTuningEpoch now (if ok delta then c\<lparr>receiveWindowSize := newSize\<rparr> else c)))
        else (Inr (), startNewAutoTuningEpoch now c))"

definition conn_Reset :: "(flow_err, connectionFlowController, unit) eff" where
  "conn_Reset c =
     (if bytesRead c > 0 \<or> highestReceived c > 0 \<or> \<not> mono_IsZero (epochStartTime c) then (Inl ResetAfterRead, c)
      else (Inr (), c\<lparr>bytesSent := 0, lastBlockedAt := 0, sendWindow := 0\<rparr>))"

section \<open>A stream\<close>

record streamFlowController = baseFlowController +
  fc_streamID :: int
  receivedFinalOffset :: bool

definition NewStreamFlowController :: "int \<Rightarrow> int \<Rightarrow> int \<Rightarrow> int \<Rightarrow> streamFlowController" where
  "NewStreamFlowController sid window maxWindow initialSendWindow =
     \<lparr>bytesSent = 0, sendWindow = initialSendWindow, lastBlockedAt = 0, bytesRead = 0, highestReceived = 0, receiveWindow = window,
      receiveWindowSize = window, maxReceiveWindowSize = maxWindow, epochStartTime = 0, epochStartOffset = 0,
      fc_streamID = sid, receivedFinalOffset = False\<rparr>"

type_synonym stream_and_conn = "streamFlowController \<times> connectionFlowController"

definition UpdateHighestReceived :: "int \<Rightarrow> bool \<Rightarrow> mono_time \<Rightarrow> (flow_err, stream_and_conn, unit) eff" where
  "UpdateHighestReceived offset final now sc = (case sc of (c, conn) \<Rightarrow>
     if receivedFinalOffset c \<and> final \<and> offset \<noteq> highestReceived c then (Inl FinalSizeError, sc)
     else if receivedFinalOffset c \<and> offset > highestReceived c then (Inl FinalSizeError, sc)
     else
       let c = (if final then c\<lparr>receivedFinalOffset := True\<rparr> else c) in
       if offset = highestReceived c then (Inr (), (c, conn))
       else if offset < highestReceived c then
         (if final then (Inl FinalSizeError, (c, conn)) else (Inr (), (c, conn)))
       else
         let c = (if highestReceived c = 0 then startNewAutoTuningEpoch now c else c);
             increment = offset - highestReceived c;
             c = c\<lparr>highestReceived := offset\<rparr>
         in if checkFlowControlViolation c then (Inl FlowControlError, (c, conn))
            else (case IncrementHighestReceived increment now conn of (r, conn) \<Rightarrow> (r, (c, conn))))"

definition shouldQueueWindowUpdate :: "streamFlowController \<Rightarrow> bool" where
  "shouldQueueWindowUpdate c \<longleftrightarrow> \<not> receivedFinalOffset c \<and> hasWindowUpdate c"

definition AddBytesRead :: "int \<Rightarrow> stream_and_conn \<Rightarrow> (bool \<times> bool) \<times> stream_and_conn" where
  "AddBytesRead n sc = (case sc of (c, conn) \<Rightarrow>
     let c = addBytesRead n c; hasStream = shouldQueueWindowUpdate c in
     (case conn_AddBytesRead n conn of (hasConn, conn) \<Rightarrow> ((hasStream, hasConn), (c, conn))))"

definition Abandon :: "stream_and_conn \<Rightarrow> stream_and_conn" where
  "Abandon sc = (case sc of (c, conn) \<Rightarrow>
     let unread = highestReceived c - bytesRead c; c = c\<lparr>bytesRead := highestReceived c\<rparr> in
     if unread > 0 then (c, snd (conn_AddBytesRead unread conn)) else (c, conn))"

definition AddBytesSent :: "int \<Rightarrow> stream_and_conn \<Rightarrow> stream_and_conn" where
  "AddBytesSent n sc = (case sc of (c, conn) \<Rightarrow> (base_AddBytesSent n c, base_AddBytesSent n conn))"

definition SendWindowSize :: "stream_and_conn \<Rightarrow> int" where
  "SendWindowSize sc = (case sc of (c, conn) \<Rightarrow> min (base_SendWindowSize c) (base_SendWindowSize conn))"

definition IsNewlyBlocked :: "streamFlowController \<Rightarrow> bool \<times> streamFlowController" where
  "IsNewlyBlocked c = (case base_IsNewlyBlocked c of ((blocked, _), c) \<Rightarrow> (blocked, c))"

definition GetWindowUpdate :: "allow \<Rightarrow> int \<Rightarrow> mono_time \<Rightarrow> (flow_err, stream_and_conn, int) eff" where
  "GetWindowUpdate allow rtt now sc = (case sc of (c, conn) \<Rightarrow>
     if receivedFinalOffset c then (Inr 0, sc)
     else
       let oldWindowSize = receiveWindowSize c in
       (case getWindowUpdate None rtt now c of (offset, c) \<Rightarrow>
          if receiveWindowSize c > oldWindowSize then
            (case EnsureMinimumWindowSize allow
                    (float_trunc (float_mult (float_of_int (receiveWindowSize c)) ConnectionFlowControlMultiplier)) now conn of
               (Inl e, conn) \<Rightarrow> (Inl e, (c, conn))
             | (Inr _, conn) \<Rightarrow> (Inr offset, (c, conn)))
          else (Inr offset, (c, conn))))"

section \<open>Rounding\<close>

lemma bit_length_power: "0 < n \<Longrightarrow> 0 < bit_length n \<and> 2 ^ (nat (bit_length n) - 1) \<le> n"
proof (induction n rule: bit_length.induct)
  case (1 n)
  show ?case
  proof (cases "n = 1")
    case True
    then show ?thesis by (simp add: bit_length.simps)
  next
    case False
    then have ih: "0 < bit_length (n div 2)" "2 ^ (nat (bit_length (n div 2)) - 1) \<le> n div 2"
      using "1.IH" "1.prems" by auto
    have "nat (bit_length n) - 1 = Suc (nat (bit_length (n div 2)) - 1)"
      using "1.prems" ih(1) by (simp add: bit_length.simps [of n])
    then have "2 ^ (nat (bit_length n) - 1) \<le> 2 * (n div 2)" using ih(2) by simp
    also have "\<dots> \<le> n" by simp
    finally show ?thesis using "1.prems" ih(1) by (simp add: bit_length.simps [of n])
  qed
qed

lemma round_even_bounds: "of_int (round_even y) \<le> y + 1 / 2" "0 \<le> y \<Longrightarrow> 0 \<le> round_even y" "y - 1 / 2 \<le> of_int (round_even y)"
proof -
  show "of_int (round_even y) \<le> y + 1 / 2" "y - 1 / 2 \<le> of_int (round_even y)"
    by (simp_all add: round_even_def Let_def) linarith+
  assume "0 \<le> y"
  then have "0 \<le> \<lfloor>y\<rfloor>" by simp
  then show "0 \<le> round_even y" by (simp add: round_even_def Let_def)
qed

lemma float64_unit_pos: "0 < float64_unit x"
  unfolding float64_unit_def Let_def by (auto split: if_split)

lemma float64_nonneg: "0 \<le> x \<Longrightarrow> 0 \<le> float64 x"
  using round_even_bounds(2) [of "x / float64_unit x"] float64_unit_pos [of x] by (simp add: float64_def float64_pos_def)

text \<open>The relative error of rounding up, far from the smallest numbers.\<close>

lemma bit_length_less: "0 \<le> n \<Longrightarrow> n < 2 ^ nat (bit_length n)"
proof (induction n rule: bit_length.induct)
  case (1 n)
  show ?case
  proof (cases "n = 0")
    case False
    then have "n div 2 < 2 ^ nat (bit_length (n div 2))" "0 \<le> bit_length (n div 2)"
      using "1.IH" "1.prems" bit_length_power [of "n div 2"] by (auto simp: bit_length.simps [of "n div 2"])
    then show ?thesis using False "1.prems" by (simp add: bit_length.simps [of n] nat_add_distrib)
  qed (simp add: bit_length.simps)
qed

lemma unit_power:
  assumes "1 \<le> l" and "e = int l - 1 - int k"
  shows "(if e \<ge> 0 then 2 ^ nat e else 1 / 2 ^ nat (- e)) * (2::rat) ^ k = 2 ^ (l - 1)"
proof (cases "e \<ge> 0")
  case True
  then have "l - 1 = nat e + k" using assms by auto
  then show ?thesis using True by (simp add: power_add)
next
  case False
  then have "k = nat (- e) + (l - 1)" using assms by auto
  then show ?thesis using False by (simp add: power_add)
qed

lemma float64_unit_small:
  assumes "1 / 2 \<le> x"
  shows "float64_unit x * 2 ^ 52 \<le> x"
proof -
  define P :: rat where "P = 2 ^ 1074"
  define n where "n = \<lfloor>x * P\<rfloor>"
  define l where "l = nat (bit_length n)"
  have P: "P = 2 * of_int (2 ^ 1073)" "0 < P" "P * 2 ^ 52 = 2 ^ 1126"
    by (simp_all add: P_def)
  have "of_int (2 ^ 1073) \<le> x * P" using assms P(1,2) mult_right_mono [OF assms, of P] by simp
  then have n: "2 ^ 1073 \<le> n" unfolding n_def le_floor_iff .
  then have "0 < n" by (rule less_le_trans [rotated]) simp
  from bit_length_power [OF this] have l: "int l = bit_length n" "1 \<le> l" "2 ^ (l - 1) \<le> n" by (auto simp: l_def)
  have "(2::int) ^ 1073 < 2 ^ l" using n bit_length_less [of n] \<open>0 < n\<close> unfolding l_def by linarith
  then have "1073 < l" by (rule power_less_imp_less_exp [rotated]) simp
  then have e: "max (bit_length n - 1127) (-1074) = int l - 1 - int 1126" using l(1) by simp
  have "float64_unit x * 2 ^ 1126 = 2 ^ (l - 1)"
    using unit_power [OF l(2) refl, of 1126] unfolding float64_unit_def P_def [symmetric] n_def [symmetric] e Let_def .
  also have "\<dots> \<le> of_int n" using l(3) by (metis of_int_le_iff of_int_numeral of_int_power)
  also have "\<dots> \<le> x * P" unfolding n_def by (rule of_int_floor_le)
  finally have "float64_unit x * 2 ^ 52 * P \<le> x * P" unfolding P(3) [symmetric] by (simp only: mult.assoc mult.commute [of P])
  then show ?thesis using P(2) by (rule mult_right_le_imp_le)
qed

lemma float64_upper:
  assumes "1 / 2 \<le> x"
  shows "float64 x \<le> x * (1 + 1 / 2 ^ 52)"
proof -
  have u: "0 < float64_unit x" "float64_unit x \<le> x / 2 ^ 52" using float64_unit_pos float64_unit_small [OF assms] by (simp_all add: field_simps)
  have "float64 x = of_int (round_even (x / float64_unit x)) * float64_unit x" using assms by (simp add: float64_def float64_pos_def)
  also have "\<dots> \<le> (x / float64_unit x + 1 / 2) * float64_unit x" using round_even_bounds(1) u(1) by (intro mult_right_mono) auto
  also have "\<dots> = x + float64_unit x / 2" using u(1) by (simp add: field_simps)
  also have "\<dots> \<le> x * (1 + 1 / 2 ^ 52)" using u assms by (simp add: field_simps)
  finally show ?thesis .
qed

lemma float64_lower:
  assumes "1 / 2 \<le> x"
  shows "x * (1 - 1 / 2 ^ 52) \<le> float64 x"
proof -
  have u: "0 < float64_unit x" "float64_unit x \<le> x / 2 ^ 52" using float64_unit_pos float64_unit_small [OF assms] by (simp_all add: field_simps)
  have "x * (1 - 1 / 2 ^ 52) \<le> x - float64_unit x / 2" using u assms by (simp add: field_simps)
  also have "\<dots> = (x / float64_unit x - 1 / 2) * float64_unit x" using u(1) by (simp add: field_simps)
  also have "\<dots> \<le> of_int (round_even (x / float64_unit x)) * float64_unit x" using round_even_bounds(3) u(1) by (intro mult_right_mono) auto
  also have "\<dots> = float64 x" using assms by (simp add: float64_def float64_pos_def)
  finally show ?thesis .
qed

text \<open>The threshold of a window update is between one half of the window and the whole window.\<close>

definition update_threshold :: "int \<Rightarrow> int" where
  "update_threshold s = float_trunc (float_mult (float_of_int s) (1 - WindowUpdateThreshold))"

lemma update_threshold_bounds:
  assumes "1 \<le> s"
  shows "0 \<le> update_threshold s" "update_threshold s \<le> s" "s < 2 * update_threshold s + 2"
proof -
  define y where "y = float_of_int s * (1 - WindowUpdateThreshold)"
  have s: "1 \<le> (of_int s :: rat)" using assms by simp
  have f: "of_int s * (1 - 1 / 2 ^ 52) \<le> float_of_int s" "float_of_int s \<le> of_int s * (1 + 1 / 2 ^ 52)"
    using float64_lower [of "of_int s"] float64_upper [of "of_int s"] s by (simp_all add: float_of_int_def)
  have y: "of_int s * (3 / 4 * (1 - 1 / 2 ^ 52)) \<le> y" "y \<le> of_int s * (3 / 4 * (1 + 1 / 2 ^ 52))"
    using f by (simp_all add: y_def WindowUpdateThreshold_def)
  have y2: "1 / 2 \<le> y" using y(1) s by simp
  have up: "float64 y \<le> of_int s"
  proof -
    have "float64 y \<le> y * (1 + 1 / 2 ^ 52)" by (rule float64_upper [OF y2])
    also have "\<dots> \<le> of_int s * (3 / 4 * (1 + 1 / 2 ^ 52)) * (1 + 1 / 2 ^ 52)" using y(2) by (intro mult_right_mono) auto
    also have "\<dots> \<le> of_int s" using s by simp
    finally show ?thesis .
  qed
  have low: "of_int s / 2 \<le> float64 y"
  proof -
    have "(of_int s :: rat) / 2 \<le> of_int s * (3 / 4 * (1 - 1 / 2 ^ 52)) * (1 - 1 / 2 ^ 52)" using s by simp
    also have "\<dots> \<le> y * (1 - 1 / 2 ^ 52)" using y(1) by (intro mult_right_mono) auto
    also have "\<dots> \<le> float64 y" by (rule float64_lower [OF y2])
    finally show ?thesis .
  qed
  have th: "update_threshold s = \<lfloor>float64 y\<rfloor>" using low s by (simp add: update_threshold_def float_trunc_def float_mult_def y_def)
  show "0 \<le> update_threshold s" using low s by (simp add: th)
  show "update_threshold s \<le> s" using up by (simp add: th floor_le_iff) 
  have "(of_int s :: rat) / 2 < of_int \<lfloor>float64 y\<rfloor> + 1" using low floor_correct [of "float64 y"] by linarith
  then have "(of_int s :: rat) < of_int (2 * \<lfloor>float64 y\<rfloor> + 2)" by simp
  then show "s < 2 * update_threshold s + 2" unfolding th of_int_less_iff .
qed

section \<open>Receiving\<close>

text \<open>
  What has been read was received, what was received was allowed, and no more is allowed than what was read and the largest window.
\<close>

definition rx_ok :: "'a baseFlowController_scheme \<Rightarrow> bool" where
  "rx_ok c \<longleftrightarrow> 0 \<le> bytesRead c \<and> bytesRead c \<le> highestReceived c \<and> highestReceived c \<le> receiveWindow c \<and>
     receiveWindow c \<le> bytesRead c + maxReceiveWindowSize c \<and> 1 \<le> receiveWindowSize c \<and> receiveWindowSize c \<le> maxReceiveWindowSize c"

lemma hasWindowUpdate_iff: "hasWindowUpdate c \<longleftrightarrow> receiveWindow c - bytesRead c \<le> update_threshold (receiveWindowSize c)"
  by (simp add: hasWindowUpdate_def update_threshold_def)

text \<open>Multiples of a quarter are exact, so that the threshold of an ordinary window is three quarters of it.\<close>

lemma bit_length_le:
  assumes "0 < n" and "n < 2 ^ m"
  shows "bit_length n \<le> int m"
proof -
  have "(2::int) ^ (nat (bit_length n) - 1) < 2 ^ m" using bit_length_power [OF assms(1)] assms(2) by linarith
  then have "nat (bit_length n) - 1 < m" by (rule power_less_imp_less_exp [rotated]) simp
  then show ?thesis by linarith
qed

lemma round_even_int: "round_even (of_int n) = n"
  by (simp add: round_even_def)

lemma quarter_unit:
  assumes "0 < k" and "k < 2 ^ 53"
  shows "\<exists>j. float64_unit (of_int k / 4) = 1 / (4 * 2 ^ j)"
proof -
  define Q :: int where "Q = 2 ^ 1072"
  have P: "(2::rat) ^ 1074 = 4 * of_int Q" "0 < Q" by (simp_all add: Q_def)
  have "\<lfloor>of_int k / 4 * (2::rat) ^ 1074\<rfloor> = k * Q" unfolding P(1) by (simp flip: of_int_mult)
  moreover have "bit_length (k * Q) \<le> int 1125"
  proof (rule bit_length_le)
    show "0 < k * Q" using assms(1) P(2) by simp
    have "k * Q < 2 ^ 53 * Q" using assms(2) P(2) by (rule mult_strict_right_mono)
    also have "\<dots> = 2 ^ 1125" by (simp add: Q_def)
    finally show "k * Q < 2 ^ 1125" .
  qed
  ultimately obtain e where e: "float64_unit (of_int k / 4) = (if e \<ge> 0 then 2 ^ nat e else 1 / 2 ^ nat (- e))" "e \<le> -2"
    unfolding float64_unit_def Let_def by fastforce
  then have "nat (- e) = 2 + (nat (- e) - 2)" by simp
  then have "(2::rat) ^ nat (- e) = 4 * 2 ^ (nat (- e) - 2)" by (metis power_add power2_eq_square mult_2 numeral_Bit0)
  then show ?thesis using e by auto
qed

lemma float64_quarters:
  assumes "0 \<le> k" and "k < 2 ^ 53"
  shows "float64 (of_int k / 4) = of_int k / 4"
proof (cases "k = 0")
  case False
  then have k: "0 < k" using assms(1) by simp
  obtain j where j: "float64_unit (of_int k / 4) = 1 / (4 * 2 ^ j)" using quarter_unit [OF k assms(2)] by blast
  have "of_int k / 4 / float64_unit (of_int k / 4) = (of_int (k * 2 ^ j) :: rat)" unfolding j by simp
  then have "float64_pos (of_int k / 4) = of_int (k * 2 ^ j) * (1 / (4 * 2 ^ j))" unfolding float64_pos_def by (simp only: round_even_int j)
  then show ?thesis using k by (simp add: float64_def)
qed (simp add: float64_def)

lemma update_threshold_exact:
  assumes "0 \<le> s" and "s < 2 ^ 51"
  shows "update_threshold s = 3 * s div 4"
proof -
  have "float_of_int s = of_int s" using float64_quarters [of "4 * s"] assms by (simp add: float_of_int_def)
  moreover have "of_int s * (1 - WindowUpdateThreshold) = of_int (3 * s) / 4" by (simp add: WindowUpdateThreshold_def)
  moreover have "float64 (of_int (3 * s) / 4) = of_int (3 * s) / 4" using assms by (intro float64_quarters) simp_all
  ultimately have m: "float_mult (float_of_int s) (1 - WindowUpdateThreshold) = of_int (3 * s) / of_int 4" by (simp only: float_mult_def of_int_numeral)
  have "update_threshold s = \<lfloor>(of_int (3 * s) :: rat) / of_int 4\<rfloor>" unfolding update_threshold_def m float_trunc_def using assms(1) by simp
  then show ?thesis by (simp only: floor_divide_of_int_eq)
qed

lemma hasWindowUpdate_code [code]:
  "hasWindowUpdate c \<longleftrightarrow> receiveWindow c - bytesRead c \<le>
     (if 0 \<le> receiveWindowSize c \<and> receiveWindowSize c < 2 ^ 51 then 3 * receiveWindowSize c div 4 else update_threshold (receiveWindowSize c))"
  by (simp add: hasWindowUpdate_iff update_threshold_exact)

lemma epoch_simps [simp]:
  "bytesSent (startNewAutoTuningEpoch now c) = bytesSent c" "sendWindow (startNewAutoTuningEpoch now c) = sendWindow c"
  "lastBlockedAt (startNewAutoTuningEpoch now c) = lastBlockedAt c" "bytesRead (startNewAutoTuningEpoch now c) = bytesRead c"
  "highestReceived (startNewAutoTuningEpoch now c) = highestReceived c" "receiveWindow (startNewAutoTuningEpoch now c) = receiveWindow c"
  "receiveWindowSize (startNewAutoTuningEpoch now c) = receiveWindowSize c"
  "maxReceiveWindowSize (startNewAutoTuningEpoch now c) = maxReceiveWindowSize c"
  by (simp_all add: startNewAutoTuningEpoch_def)

text \<open>The sizes and counts that tuning a window leaves alone, and that it only makes the window larger.\<close>

lemma adjust_simps [simp]:
  "bytesSent (maybeAdjustWindowSize allow rtt now c) = bytesSent c" "sendWindow (maybeAdjustWindowSize allow rtt now c) = sendWindow c"
  "bytesRead (maybeAdjustWindowSize allow rtt now c) = bytesRead c" "highestReceived (maybeAdjustWindowSize allow rtt now c) = highestReceived c"
  "receiveWindow (maybeAdjustWindowSize allow rtt now c) = receiveWindow c"
  "maxReceiveWindowSize (maybeAdjustWindowSize allow rtt now c) = maxReceiveWindowSize c"
  by (simp_all add: maybeAdjustWindowSize_def Let_def)

lemma adjust_size:
  "receiveWindowSize c \<le> maxReceiveWindowSize c \<Longrightarrow> receiveWindowSize c \<le> receiveWindowSize (maybeAdjustWindowSize allow rtt now c) \<and>
    receiveWindowSize (maybeAdjustWindowSize allow rtt now c) \<le> maxReceiveWindowSize c"
  by (auto simp: maybeAdjustWindowSize_def Let_def)

lemma getWindowUpdate_run:
  assumes "rx_ok c"
  shows "case getWindowUpdate allow rtt now c of (offset, c') \<Rightarrow>
    rx_ok c' \<and> bytesRead c' = bytesRead c \<and> highestReceived c' = highestReceived c \<and> maxReceiveWindowSize c' = maxReceiveWindowSize c \<and>
    bytesSent c' = bytesSent c \<and> sendWindow c' = sendWindow c \<and>
    receiveWindow c \<le> receiveWindow c' \<and> receiveWindowSize c \<le> receiveWindowSize c' \<and>
    (if hasWindowUpdate c then offset = receiveWindow c' \<and> receiveWindow c' = bytesRead c + receiveWindowSize c' else offset = 0 \<and> c' = c)"
proof (cases "hasWindowUpdate c")
  case True
  define a where "a = maybeAdjustWindowSize allow rtt now c"
  have a: "receiveWindowSize c \<le> receiveWindowSize a" "receiveWindowSize a \<le> maxReceiveWindowSize c"
    using adjust_size [of c allow rtt now] assms by (simp_all add: a_def rx_ok_def)
  have "receiveWindow c \<le> bytesRead c + receiveWindowSize c"
    using True update_threshold_bounds(2) [of "receiveWindowSize c"] assms by (simp add: hasWindowUpdate_iff rx_ok_def)
  then show ?thesis
    using True assms a by (simp add: getWindowUpdate_def a_def rx_ok_def Let_def)
next
  case False
  then show ?thesis using assms by (simp add: getWindowUpdate_def)
qed

text \<open>A window is enlarged when less than half of it is left.\<close>

lemma window_reopened:
  assumes "rx_ok c" and "2 * (receiveWindow c - bytesRead c) < receiveWindowSize c"
  shows "hasWindowUpdate c" "receiveWindow c < receiveWindow (snd (getWindowUpdate allow rtt now c))"
proof -
  show has: "hasWindowUpdate c"
    using update_threshold_bounds(3) [of "receiveWindowSize c"] assms by (simp add: hasWindowUpdate_iff rx_ok_def)
  show "receiveWindow c < receiveWindow (snd (getWindowUpdate allow rtt now c))"
    using getWindowUpdate_run [OF assms(1), of allow rtt now] has assms by (auto simp: rx_ok_def split: prod.splits)
qed

lemma Increment_run:
  assumes "rx_ok c" and "0 \<le> n" and "IncrementHighestReceived n now c = (Inr (), c')"
  shows "rx_ok c'" "highestReceived c' = highestReceived c + n" "bytesRead c' = bytesRead c" "receiveWindow c' = receiveWindow c"
    "maxReceiveWindowSize c' = maxReceiveWindowSize c" "bytesSent c' = bytesSent c" "sendWindow c' = sendWindow c"
  using assms by (auto simp: IncrementHighestReceived_def Let_def checkFlowControlViolation_def rx_ok_def split: if_splits)

lemma Ensure_run:
  assumes "rx_ok c" and "EnsureMinimumWindowSize allow n now c = (Inr (), c')"
  shows "rx_ok c'" "highestReceived c' = highestReceived c" "bytesRead c' = bytesRead c" "receiveWindow c' = receiveWindow c"
    "maxReceiveWindowSize c' = maxReceiveWindowSize c" "bytesSent c' = bytesSent c" "sendWindow c' = sendWindow c"
  using assms by (auto simp: EnsureMinimumWindowSize_def Let_def rx_ok_def split: if_splits option.splits)

lemma UpdateHighestReceived_run:
  assumes "rx_ok c" "rx_ok conn" "0 \<le> offset" and run: "UpdateHighestReceived offset final now (c, conn) = (Inr (), (c', conn'))"
  shows "rx_ok c'" "rx_ok conn'" "highestReceived c' = max offset (highestReceived c)" "bytesRead c' = bytesRead c" "bytesRead conn' = bytesRead conn"
    "highestReceived conn' - highestReceived conn = highestReceived c' - highestReceived c" "receiveWindow conn' = receiveWindow conn"
    "maxReceiveWindowSize conn' = maxReceiveWindowSize conn" "bytesSent c' = bytesSent c" "sendWindow c' = sendWindow c"
    "bytesSent conn' = bytesSent conn" "sendWindow conn' = sendWindow conn"
proof -
  have "rx_ok c' \<and> rx_ok conn' \<and> highestReceived c' = max offset (highestReceived c) \<and> bytesRead c' = bytesRead c \<and> bytesRead conn' = bytesRead conn \<and>
    highestReceived conn' - highestReceived conn = highestReceived c' - highestReceived c \<and> receiveWindow conn' = receiveWindow conn \<and>
    maxReceiveWindowSize conn' = maxReceiveWindowSize conn \<and> bytesSent c' = bytesSent c \<and> sendWindow c' = sendWindow c \<and>
    bytesSent conn' = bytesSent conn \<and> sendWindow conn' = sendWindow conn"
  proof (cases "offset \<le> highestReceived c")
    case True
    then show ?thesis using run assms(1,2) by (auto simp: UpdateHighestReceived_def Let_def rx_ok_def split: if_splits)
  next
    case False
    then have inc: "IncrementHighestReceived (offset - highestReceived c) now conn = (Inr (), conn')" "offset \<le> receiveWindow c"
      "bytesRead c' = bytesRead c" "highestReceived c' = offset" "receiveWindow c' = receiveWindow c" "receiveWindowSize c' = receiveWindowSize c"
      "maxReceiveWindowSize c' = maxReceiveWindowSize c" "bytesSent c' = bytesSent c" "sendWindow c' = sendWindow c"
      using run by (auto simp: UpdateHighestReceived_def Let_def checkFlowControlViolation_def split: if_splits prod.splits)
    then show ?thesis using Increment_run [OF assms(2) _ inc(1)] False assms(1) by (auto simp: rx_ok_def)
  qed
  then show "rx_ok c'" "rx_ok conn'" "highestReceived c' = max offset (highestReceived c)" "bytesRead c' = bytesRead c" "bytesRead conn' = bytesRead conn"
    "highestReceived conn' - highestReceived conn = highestReceived c' - highestReceived c" "receiveWindow conn' = receiveWindow conn"
    "maxReceiveWindowSize conn' = maxReceiveWindowSize conn" "bytesSent c' = bytesSent c" "sendWindow c' = sendWindow c"
    "bytesSent conn' = bytesSent conn" "sendWindow conn' = sendWindow conn"
    by blast+
qed

section \<open>A connection and its streams\<close>

record flow_state =
  fc_conn :: connectionFlowController
  fc_streams :: "streamFlowController list"

definition put_stream :: "flow_state \<Rightarrow> nat \<Rightarrow> stream_and_conn \<Rightarrow> flow_state" where
  "put_stream st i sc = st\<lparr>fc_streams := (fc_streams st)[i := fst sc], fc_conn := snd sc\<rparr>"

definition get_stream :: "flow_state \<Rightarrow> nat \<Rightarrow> stream_and_conn" where
  "get_stream st i = (fc_streams st ! i, fc_conn st)"

text \<open>
  The calls that a connection makes: streams are opened; data and final sizes arrive; received data is read or abandoned;
  window updates are sent; data within the send window is sent; the peer raises its limits; and 0-RTT is rejected, which
  removes the streams. An error closes the connection.
\<close>

inductive flow_step :: "flow_state \<Rightarrow> flow_state \<Rightarrow> bool" where
  open_stream: "1 \<le> w \<Longrightarrow> w \<le> m \<Longrightarrow> 0 \<le> sw \<Longrightarrow> flow_step st (st\<lparr>fc_streams := fc_streams st @ [NewStreamFlowController sid w m sw]\<rparr>)"
| receive: "i < length (fc_streams st) \<Longrightarrow> 0 \<le> offset \<Longrightarrow> UpdateHighestReceived offset final now (get_stream st i) = (Inr (), sc) \<Longrightarrow> flow_step st (put_stream st i sc)"
| read_stream: "i < length (fc_streams st) \<Longrightarrow> 0 \<le> n \<Longrightarrow> n \<le> highestReceived (fc_streams st ! i) - bytesRead (fc_streams st ! i) \<Longrightarrow>
    flow_step st (put_stream st i (snd (AddBytesRead n (get_stream st i))))"
| abandon: "i < length (fc_streams st) \<Longrightarrow> flow_step st (put_stream st i (Abandon (get_stream st i)))"
| stream_update: "i < length (fc_streams st) \<Longrightarrow> GetWindowUpdate allow rtt now (get_stream st i) = (Inr offset, sc) \<Longrightarrow> flow_step st (put_stream st i sc)"
| conn_update: "flow_step st (st\<lparr>fc_conn := snd (conn_GetWindowUpdate allow rtt now (fc_conn st))\<rparr>)"
| send: "i < length (fc_streams st) \<Longrightarrow> 0 \<le> n \<Longrightarrow> n \<le> SendWindowSize (get_stream st i) \<Longrightarrow> flow_step st (put_stream st i (AddBytesSent n (get_stream st i)))"
| stream_limit: "i < length (fc_streams st) \<Longrightarrow> flow_step st (put_stream st i (snd (UpdateSendWindow offset (fc_streams st ! i)), fc_conn st))"
| conn_limit: "flow_step st (st\<lparr>fc_conn := snd (UpdateSendWindow offset (fc_conn st))\<rparr>)"
| stream_blocked: "i < length (fc_streams st) \<Longrightarrow> flow_step st (put_stream st i (snd (IsNewlyBlocked (fc_streams st ! i)), fc_conn st))"
| conn_blocked: "flow_step st (st\<lparr>fc_conn := snd (base_IsNewlyBlocked (fc_conn st))\<rparr>)"
| reset: "conn_Reset (fc_conn st) = (Inr (), c) \<Longrightarrow> flow_step st (st\<lparr>fc_conn := c, fc_streams := []\<rparr>)"

definition total :: "(streamFlowController \<Rightarrow> int) \<Rightarrow> flow_state \<Rightarrow> int" where
  "total f st = sum_list (map f (fc_streams st))"

definition tx_ok :: "'a baseFlowController_scheme \<Rightarrow> bool" where
  "tx_ok c \<longleftrightarrow> 0 \<le> bytesSent c \<and> bytesSent c \<le> sendWindow c"

definition flow_ok :: "flow_state \<Rightarrow> bool" where
  "flow_ok st \<longleftrightarrow> rx_ok (fc_conn st) \<and> tx_ok (fc_conn st) \<and> (\<forall>c \<in> set (fc_streams st). rx_ok c \<and> tx_ok c) \<and>
     bytesRead (fc_conn st) = total bytesRead st \<and> highestReceived (fc_conn st) = total highestReceived st \<and>
     bytesSent (fc_conn st) = total bytesSent st"

definition flow_later :: "flow_state \<Rightarrow> flow_state \<Rightarrow> bool" where
  "flow_later st st' \<longleftrightarrow> receiveWindow (fc_conn st) \<le> receiveWindow (fc_conn st') \<and> bytesRead (fc_conn st) \<le> bytesRead (fc_conn st') \<and>
     highestReceived (fc_conn st) \<le> highestReceived (fc_conn st') \<and> maxReceiveWindowSize (fc_conn st') = maxReceiveWindowSize (fc_conn st)"

text \<open>A step on one stream and the connection.\<close>

lemma sum_list_upd: "i < length xs \<Longrightarrow> sum_list (xs[i := v]) = sum_list xs - xs ! i + (v :: int)"
  by (induction xs arbitrary: i) (auto split: nat.split)

lemma nth_le_sum_list: "\<forall>x \<in> set xs. 0 \<le> x \<Longrightarrow> i < length xs \<Longrightarrow> xs ! i \<le> sum_list (xs :: int list)"
proof (induction xs arbitrary: i)
  case (Cons x xs)
  then show ?case using sum_list_nonneg [of xs] Cons.IH [of "i - 1"] by (cases i) fastforce+
qed simp

lemma total_put: "i < length (fc_streams st) \<Longrightarrow> total f (put_stream st i (c, conn)) = total f st - f (fc_streams st ! i) + f c"
  by (simp add: total_def put_stream_def map_update sum_list_upd)

lemma put_ok:
  assumes "flow_ok st" and "i < length (fc_streams st)" and "rx_ok c" "rx_ok conn" "tx_ok c" "tx_ok conn"
    and "bytesRead conn - bytesRead (fc_conn st) = bytesRead c - bytesRead (fc_streams st ! i)"
    and "highestReceived conn - highestReceived (fc_conn st) = highestReceived c - highestReceived (fc_streams st ! i)"
    and "bytesSent conn - bytesSent (fc_conn st) = bytesSent c - bytesSent (fc_streams st ! i)"
  shows "flow_ok (put_stream st i (c, conn))"
proof -
  have "\<forall>x \<in> set ((fc_streams st)[i := c]). rx_ok x \<and> tx_ok x"
    using assms(1,3,5) set_update_subset_insert [of "fc_streams st" i c] by (auto simp: flow_ok_def)
  then show ?thesis
    using assms total_put [OF assms(2)] by (simp add: flow_ok_def) (simp add: put_stream_def)
qed

lemma stream_ok:
  assumes "flow_ok st" and "i < length (fc_streams st)"
  shows "rx_ok (fc_streams st ! i)" "tx_ok (fc_streams st ! i)" "rx_ok (fc_conn st)" "tx_ok (fc_conn st)"
  using assms by (auto simp: flow_ok_def)

text \<open>The unread bytes of one stream are among those of the connection.\<close>

lemma unread_le:
  assumes "flow_ok st" and "i < length (fc_streams st)"
  shows "highestReceived (fc_streams st ! i) - bytesRead (fc_streams st ! i) \<le> highestReceived (fc_conn st) - bytesRead (fc_conn st)"
proof -
  define u where "u = map (\<lambda>c. highestReceived c - bytesRead c) (fc_streams st)"
  have "\<forall>x \<in> set u. 0 \<le> x" using assms(1) by (auto simp: u_def flow_ok_def rx_ok_def)
  then have "u ! i \<le> sum_list u" using assms(2) by (intro nth_le_sum_list) (simp_all add: u_def)
  moreover have "sum_list u = highestReceived (fc_conn st) - bytesRead (fc_conn st)"
    using assms(1) by (simp add: u_def flow_ok_def total_def sum_list_subtractf)
  ultimately show ?thesis using assms(2) by (simp add: u_def)
qed

lemma read_ok:
  assumes "flow_ok st" and i: "i < length (fc_streams st)" and "0 \<le> n" "n \<le> highestReceived (fc_streams st ! i) - bytesRead (fc_streams st ! i)"
  shows "flow_ok (put_stream st i (addBytesRead n (fc_streams st ! i), addBytesRead n (fc_conn st)))"
proof (rule put_ok [OF assms(1) i])
  show "rx_ok (addBytesRead n (fc_conn st))" "rx_ok (addBytesRead n (fc_streams st ! i))"
    using stream_ok [OF assms(1) i] unread_le [OF assms(1) i] assms(3,4) by (auto simp: rx_ok_def addBytesRead_def)
qed (use stream_ok [OF assms(1) i] in \<open>auto simp: addBytesRead_def tx_ok_def\<close>)

lemma flow_step_ok:
  assumes "flow_step st st'" and "flow_ok st"
  shows "flow_ok st' \<and> flow_later st st'"
  using assms
proof (induction rule: flow_step.induct)
  case (open_stream w m sw st sid)
  then show ?case by (auto simp: flow_ok_def flow_later_def total_def rx_ok_def tx_ok_def NewStreamFlowController_def)
next
  case (receive i st offset final now sc)
  obtain c conn where sc: "sc = (c, conn)" by (cases sc)
  note S = stream_ok [OF receive.prems receive.hyps(1)]
  note U = UpdateHighestReceived_run [OF S(1,3) receive.hyps(2) receive.hyps(3) [unfolded get_stream_def sc]]
  have "flow_ok (put_stream st i (c, conn))"
    using U S by (intro put_ok [OF receive.prems receive.hyps(1)]) (auto simp: tx_ok_def)
  then show ?case using U by (simp add: sc flow_later_def put_stream_def)
next
  case (read_stream i st n)
  then show ?case
    using read_ok [OF read_stream.prems read_stream.hyps] by (auto simp: AddBytesRead_def conn_AddBytesRead_def get_stream_def Let_def flow_later_def put_stream_def addBytesRead_def)
next
  case (abandon i st)
  let ?c = "fc_streams st ! i"
  have "bytesRead ?c \<le> highestReceived ?c" using stream_ok(1) [OF abandon.prems abandon.hyps] by (simp add: rx_ok_def)
  moreover have "Abandon (get_stream st i) = (addBytesRead (highestReceived ?c - bytesRead ?c) ?c, addBytesRead (highestReceived ?c - bytesRead ?c) (fc_conn st))"
    using calculation by (auto simp: Abandon_def get_stream_def Let_def conn_AddBytesRead_def addBytesRead_def)
  ultimately show ?case
    using read_ok [OF abandon.prems abandon.hyps, of "highestReceived ?c - bytesRead ?c"] by (auto simp: flow_later_def put_stream_def addBytesRead_def)
next
  case (stream_update i st allow rtt now offset sc)
  note S = stream_ok [OF stream_update.prems stream_update.hyps(1)]
  obtain c conn where sc: "sc = (c, conn)" by (cases sc)
  obtain off c1 where g: "getWindowUpdate None rtt now (fc_streams st ! i) = (off, c1)" by fastforce
  note G = getWindowUpdate_run [OF S(1), of None rtt now, unfolded g prod.case]
  have "(c = fc_streams st ! i \<or> c = c1) \<and> (conn = fc_conn st \<or> (\<exists>n. EnsureMinimumWindowSize allow n now (fc_conn st) = (Inr (), conn)))"
    using stream_update.hyps(2) g by (auto simp: GetWindowUpdate_def get_stream_def sc Let_def split: if_splits prod.splits sum.splits)
  then have "rx_ok c" "tx_ok c" "bytesRead c = bytesRead (fc_streams st ! i)" "highestReceived c = highestReceived (fc_streams st ! i)" "bytesSent c = bytesSent (fc_streams st ! i)"
    "rx_ok conn" "tx_ok conn" "bytesRead conn = bytesRead (fc_conn st)" "highestReceived conn = highestReceived (fc_conn st)" "bytesSent conn = bytesSent (fc_conn st)"
    "receiveWindow conn = receiveWindow (fc_conn st)" "maxReceiveWindowSize conn = maxReceiveWindowSize (fc_conn st)"
    using G S Ensure_run [OF S(3), of allow] by (auto simp: tx_ok_def)
  then show ?case using put_ok [OF stream_update.prems stream_update.hyps(1), of c conn] by (simp add: sc flow_later_def put_stream_def)
next
  case (conn_update st allow rtt now)
  then have "rx_ok (fc_conn st)" by (simp add: flow_ok_def)
  from getWindowUpdate_run [OF this, of allow rtt now] show ?case
    using conn_update by (auto simp: conn_GetWindowUpdate_def flow_ok_def flow_later_def total_def tx_ok_def split: prod.splits)
next
  case (send i st n)
  then have "n \<le> base_SendWindowSize (fc_streams st ! i)" "n \<le> base_SendWindowSize (fc_conn st)" by (auto simp: SendWindowSize_def get_stream_def)
  then have "flow_ok (put_stream st i (AddBytesSent n (get_stream st i)))"
    using send stream_ok [OF send.prems send.hyps(1)] unfolding AddBytesSent_def get_stream_def prod.case
    by (intro put_ok) (auto simp: base_AddBytesSent_def base_SendWindowSize_def tx_ok_def rx_ok_def split: if_splits)
  then show ?case by (simp add: flow_later_def put_stream_def AddBytesSent_def get_stream_def base_AddBytesSent_def)
next
  case (stream_limit i st offset)
  then show ?case
    using stream_ok [OF stream_limit.prems stream_limit.hyps] put_ok [OF stream_limit.prems stream_limit.hyps, of "snd (UpdateSendWindow offset (fc_streams st ! i))" "fc_conn st"]
    by (auto simp: UpdateSendWindow_def tx_ok_def rx_ok_def flow_later_def put_stream_def)
next
  case (conn_limit st offset)
  then show ?case by (auto simp: flow_ok_def flow_later_def total_def UpdateSendWindow_def tx_ok_def rx_ok_def)
next
  case (stream_blocked i st)
  then show ?case
    using stream_ok [OF stream_blocked.prems stream_blocked.hyps] put_ok [OF stream_blocked.prems stream_blocked.hyps, of "snd (IsNewlyBlocked (fc_streams st ! i))" "fc_conn st"]
    by (auto simp: IsNewlyBlocked_def base_IsNewlyBlocked_def tx_ok_def rx_ok_def flow_later_def put_stream_def)
next
  case (conn_blocked st)
  then show ?case by (auto simp: flow_ok_def flow_later_def total_def base_IsNewlyBlocked_def tx_ok_def rx_ok_def)
next
  case (reset st c)
  then show ?case by (auto simp: conn_Reset_def flow_ok_def flow_later_def total_def tx_ok_def rx_ok_def split: if_splits)
qed

interpretation flow: monotone_machine flow_step flow_ok flow_later
  using flow_step_ok by unfold_locales (auto simp: flow_later_def)

definition flow_start :: "int \<Rightarrow> int \<Rightarrow> flow_state" where
  "flow_start w m = \<lparr>fc_conn = NewConnectionFlowController w m, fc_streams = []\<rparr>"

lemma flow_start_ok: "1 \<le> w \<Longrightarrow> w \<le> m \<Longrightarrow> flow_ok (flow_start w m)"
  by (simp add: flow_ok_def flow_start_def total_def rx_ok_def tx_ok_def NewConnectionFlowController_def)

lemma unread_total: "flow_ok st \<Longrightarrow> total (\<lambda>c. highestReceived c - bytesRead c) st = highestReceived (fc_conn st) - bytesRead (fc_conn st)"
  by (simp add: flow_ok_def total_def sum_list_subtractf)



lemma stream_reopened:
  assumes "rx_ok c" and "\<not> receivedFinalOffset c" and low: "2 * (receiveWindow c - bytesRead c) < receiveWindowSize c"
  shows "case GetWindowUpdate (Some allowed) rtt now (c, conn) of (Inl e, _) \<Rightarrow> False
      | (Inr offset, (c', conn')) \<Rightarrow> offset = receiveWindow c' \<and> receiveWindow c + receiveWindowSize c div 2 \<le> offset"
proof -
  obtain off c1 where g: "getWindowUpdate None rtt now c = (off, c1)" by fastforce
  have off: "off = receiveWindow c1" "receiveWindow c + receiveWindowSize c div 2 \<le> off"
    using getWindowUpdate_run [OF assms(1), of None rtt now, unfolded g prod.case] window_reopened(1) [OF assms(1) low] low by auto
  have "\<exists>conn'. EnsureMinimumWindowSize (Some allowed) n now conn = (Inr (), conn')" for n
    by (auto simp: EnsureMinimumWindowSize_def Let_def)
  then obtain conn' where e: "EnsureMinimumWindowSize (Some allowed) (float_trunc (float_mult (float_of_int (receiveWindowSize c1)) ConnectionFlowControlMultiplier)) now conn = (Inr (), conn')"
    by blast
  have "GetWindowUpdate (Some allowed) rtt now (c, conn) = (Inr off, (c1, if receiveWindowSize c1 > receiveWindowSize c then conn' else conn))"
    using assms(2) g e by (simp add: GetWindowUpdate_def Let_def)
  then show ?thesis using off by simp
qed

text \<open>
  C37. The windows only grow, and a reader that keeps up never starves the sender. Over every run the limit advertised for the
  connection never decreases. When less than half of a window is left beyond what was read, reading reports that an update is
  due, and the update that is then sent raises the limit by at least half the window, for the connection and for a stream
  whose final size is not known.
\<close>

theorem windows_reopen:
  assumes "1 \<le> w" and "w \<le> m" and "flow_step\<^sup>*\<^sup>* (flow_start w m) st"
  shows "(flow_step\<^sup>*\<^sup>* st st' \<longrightarrow> receiveWindow (fc_conn st) \<le> receiveWindow (fc_conn st')) \<and>
    (2 * (receiveWindow (fc_conn st) - bytesRead (fc_conn st)) < receiveWindowSize (fc_conn st) \<longrightarrow>
       hasWindowUpdate (fc_conn st) \<and>
       (case conn_GetWindowUpdate allow rtt now (fc_conn st) of (offset, c) \<Rightarrow>
          offset = receiveWindow c \<and> receiveWindow (fc_conn st) + receiveWindowSize (fc_conn st) div 2 \<le> offset)) \<and>
    (\<forall>i < length (fc_streams st). \<not> receivedFinalOffset (fc_streams st ! i) \<longrightarrow>
       2 * (receiveWindow (fc_streams st ! i) - bytesRead (fc_streams st ! i)) < receiveWindowSize (fc_streams st ! i) \<longrightarrow>
       shouldQueueWindowUpdate (fc_streams st ! i) \<and>
       (case GetWindowUpdate (Some allowed) rtt now (get_stream st i) of
          (Inl e, _) \<Rightarrow> False
        | (Inr offset, (c, conn)) \<Rightarrow>
            offset = receiveWindow c \<and> receiveWindow (fc_streams st ! i) + receiveWindowSize (fc_streams st ! i) div 2 \<le> offset))"
proof (intro conjI impI allI)
  have ok: "flow_ok st" using flow.run_inv [OF assms(3) flow_start_ok [OF assms(1,2)]] .
  then have rx: "rx_ok (fc_conn st)" by (simp add: flow_ok_def)
  show "receiveWindow (fc_conn st) \<le> receiveWindow (fc_conn st')" if "flow_step\<^sup>*\<^sup>* st st'"
    using flow.run_later [OF that ok] by (simp add: flow_later_def)
  { assume low: "2 * (receiveWindow (fc_conn st) - bytesRead (fc_conn st)) < receiveWindowSize (fc_conn st)"
    show has: "hasWindowUpdate (fc_conn st)" by (rule window_reopened(1) [OF rx low])
    show "case conn_GetWindowUpdate allow rtt now (fc_conn st) of (offset, c) \<Rightarrow>
        offset = receiveWindow c \<and> receiveWindow (fc_conn st) + receiveWindowSize (fc_conn st) div 2 \<le> offset"
      using getWindowUpdate_run [OF rx, of allow rtt now] has low by (auto simp: conn_GetWindowUpdate_def split: prod.splits) }
  fix i
  assume i: "i < length (fc_streams st)" and fin: "\<not> receivedFinalOffset (fc_streams st ! i)"
    and low: "2 * (receiveWindow (fc_streams st ! i) - bytesRead (fc_streams st ! i)) < receiveWindowSize (fc_streams st ! i)"
  have rxi: "rx_ok (fc_streams st ! i)" using stream_ok(1) [OF ok i] .
  have has: "hasWindowUpdate (fc_streams st ! i)" by (rule window_reopened(1) [OF rxi low])
  then show "shouldQueueWindowUpdate (fc_streams st ! i)" using fin by (simp add: shouldQueueWindowUpdate_def)
  show "case GetWindowUpdate (Some allowed) rtt now (get_stream st i) of (Inl e, _) \<Rightarrow> False
      | (Inr offset, (c, conn)) \<Rightarrow> offset = receiveWindow c \<and> receiveWindow (fc_streams st ! i) + receiveWindowSize (fc_streams st ! i) div 2 \<le> offset"
    using stream_reopened [OF rxi fin low] by (simp add: get_stream_def)
qed

theorem windows_reopen_witness:
  "\<exists>st. flow_step\<^sup>*\<^sup>* (flow_start 10 20) st \<and> receiveWindow (fc_conn st) = 10 \<and> bytesRead (fc_conn st) = 9 \<and> hasWindowUpdate (fc_conn st) \<and>
    15 \<le> fst (conn_GetWindowUpdate None 0 0 (fc_conn st)) \<and> shouldQueueWindowUpdate (fc_streams st ! 0)"
proof -
  define s0 where "s0 = flow_start 10 20"
  define s1 where "s1 = s0\<lparr>fc_streams := fc_streams s0 @ [NewStreamFlowController 0 10 20 0]\<rparr>"
  define sc where "sc = snd (UpdateHighestReceived 9 False 7 (get_stream s1 0))"
  define s2 where "s2 = put_stream s1 0 sc"
  define s3 where "s3 = put_stream s2 0 (snd (AddBytesRead 9 (get_stream s2 0)))"
  note defs = s3_def s2_def sc_def s1_def s0_def
  have 1: "flow_step s0 s1" unfolding s1_def by (rule open_stream) simp_all
  have "fst (UpdateHighestReceived 9 False 7 (get_stream s1 0)) = Inr ()" unfolding s1_def s0_def by code_simp
  then have "UpdateHighestReceived 9 False 7 (get_stream s1 0) = (Inr (), sc)" unfolding sc_def by (metis prod.collapse)
  then have 2: "flow_step s1 s2" unfolding s2_def by (rule receive [rotated 2]) (simp_all add: s1_def)
  have "0 < length (fc_streams s2)" "9 \<le> highestReceived (fc_streams s2 ! 0) - bytesRead (fc_streams s2 ! 0)"
    unfolding defs by code_simp+
  then have 3: "flow_step s2 s3" unfolding s3_def by (intro read_stream) auto
  have run: "flow_step\<^sup>*\<^sup>* s0 s3" using rtranclp.rtrancl_into_rtrancl [OF rtranclp.rtrancl_into_rtrancl [OF r_into_rtranclp [of flow_step, OF 1] 2] 3] .
  have f2: "receiveWindow (fc_conn s2) = 10" "bytesRead (fc_conn s2) = 0" "receiveWindowSize (fc_conn s2) = 10" "length (fc_streams s2) = 1"
    "\<not> receivedFinalOffset (fc_streams s2 ! 0)" "receiveWindow (fc_streams s2 ! 0) = 10" "bytesRead (fc_streams s2 ! 0) = 0" "receiveWindowSize (fc_streams s2 ! 0) = 10"
    unfolding defs by code_simp+
  have facts: "receiveWindow (fc_conn s3) = 10" "bytesRead (fc_conn s3) = 9" "receiveWindowSize (fc_conn s3) = 10" "length (fc_streams s3) = 1"
    "\<not> receivedFinalOffset (fc_streams s3 ! 0)" "receiveWindow (fc_streams s3 ! 0) = 10" "bytesRead (fc_streams s3 ! 0) = 9" "receiveWindowSize (fc_streams s3 ! 0) = 10"
    using f2 by (simp_all add: s3_def AddBytesRead_def conn_AddBytesRead_def Let_def get_stream_def put_stream_def addBytesRead_def)
  have "hasWindowUpdate (fc_conn s3) \<and> 15 \<le> fst (conn_GetWindowUpdate None 0 0 (fc_conn s3)) \<and> shouldQueueWindowUpdate (fc_streams s3 ! 0)"
  proof -
    have low: "2 * (receiveWindow (fc_conn s3) - bytesRead (fc_conn s3)) < receiveWindowSize (fc_conn s3)"
      "2 * (receiveWindow (fc_streams s3 ! 0) - bytesRead (fc_streams s3 ! 0)) < receiveWindowSize (fc_streams s3 ! 0)" "0 < length (fc_streams s3)"
      unfolding facts by simp_all
    have one: "1 \<le> (10 :: int)" "(10 :: int) \<le> 20" by simp_all
    note W = windows_reopen [OF one run [unfolded s0_def], of s3 None 0 0 "\<lambda>_. True"]
    have a: "hasWindowUpdate (fc_conn s3)" using W low(1) by blast
    obtain off c where g: "conn_GetWindowUpdate None 0 0 (fc_conn s3) = (off, c)" by fastforce
    have b: "receiveWindow (fc_conn s3) + receiveWindowSize (fc_conn s3) div 2 \<le> off" using W low(1) unfolding g prod.case by blast
    have c: "shouldQueueWindowUpdate (fc_streams s3 ! 0)" using W low(2,3) facts(5) by blast
    show ?thesis using a b c unfolding g facts by simp
  qed
  then show ?thesis using run facts unfolding s0_def by blast
qed

end
