(* ===== verification/Quic_Receive.thy ===== *)
theory Quic_Receive
  imports Quic_Reassembly Quic_Flow
begin

text \<open>
  The receiving side of a stream (\<open>receive_stream.go\<close>). The mutex makes each method atomic, and what a method does after it
  has released the mutex is taken as part of its step; \<open>readOnce\<close> admits one call of \<open>Read\<close> or \<open>Peek\<close> at a time, which gives
  up the mutex only while it waits. A waiting call is therefore part of the state and goes on when it is woken, by the
  signal in \<open>readChan\<close> or by its timer. The calls to the \<open>streamSender\<close> are noted in the order in
  which they are made; releasing the buffer of a frame is noted by its number. A buffer that is filled is returned as the list
  of its bytes. The clock is an argument: \<open>clock k\<close> is the time that a call reads when it has \<open>k\<close> bytes.
\<close>

section \<open>The stream\<close>

text \<open>\<open>NilError\<close> is a nil \<open>*StreamError\<close> that is returned as an error or dereferenced.\<close>

datatype stream_err = StreamError int u64 bool | errDeadline | io_EOF | ShutdownError string | NilError | ReadBug

datatype sender_call = onStreamCompleted int | onHasStreamControlFrame int | onHasConnectionData

record ReceiveStream =
  rs_streamID :: int
  frameQueue :: frameSorter
  finalOffset :: int
  currentFrame :: "byte list option"
  currentFrameDone :: "nat option"
  readPosInFrame :: nat
  currentFrameIsLast :: bool
  queuedStopSending :: bool
  queuedMaxStreamData :: bool
  errorRead :: bool
  completed :: bool
  cancelledRemotely :: bool
  cancelledLocally :: bool
  cancelErr :: "stream_err option"
  closeForShutdownErr :: "string option"
  rs_readPos :: int
  reliableSize :: int
  readChan :: bool
  rs_deadline :: mono_time
  flowController :: stream_and_conn
  released :: "nat list"
  sender_calls :: "sender_call list"

definition newReceiveStream :: "int \<Rightarrow> stream_and_conn \<Rightarrow> ReceiveStream option" where
  "newReceiveStream streamID fc = map_option (\<lambda>q.
     \<lparr>rs_streamID = streamID, frameQueue = q, finalOffset = MaxByteCount, currentFrame = None, currentFrameDone = None,
      readPosInFrame = 0, currentFrameIsLast = False, queuedStopSending = False, queuedMaxStreamData = False, errorRead = False,
      completed = False, cancelledRemotely = False, cancelledLocally = False, cancelErr = None, closeForShutdownErr = None,
      rs_readPos = 0, reliableSize = 0, readChan = False, rs_deadline = 0, flowController = fc, released = [], sender_calls = []\<rparr>)
     newFrameSorter"

definition call_sender :: "bool \<Rightarrow> sender_call \<Rightarrow> ReceiveStream \<Rightarrow> ReceiveStream" where
  "call_sender b c s = (if b then s\<lparr>sender_calls := sender_calls s @ [c]\<rparr> else s)"

definition signalRead :: "ReceiveStream \<Rightarrow> ReceiveStream" where
  "signalRead s = s\<lparr>readChan := True\<rparr>"

definition isNewlyCompleted :: "ReceiveStream \<Rightarrow> bool \<times> ReceiveStream" where
  "isNewlyCompleted s =
     (if completed s then (False, s)
      else if finalOffset s = MaxByteCount then (False, s)
      else if cancelledLocally s then (True, s\<lparr>completed := True\<rparr>)
      else if errorRead s then (True, s\<lparr>completed := True\<rparr>)
      else (False, s))"

definition isRemoteCancellationEffective :: "ReceiveStream \<Rightarrow> bool" where
  "isRemoteCancellationEffective s \<longleftrightarrow> cancelledRemotely s \<and> rs_readPos s \<ge> reliableSize s"

definition cancel_error :: "ReceiveStream \<Rightarrow> stream_err" where
  "cancel_error s = (case cancelErr s of None \<Rightarrow> NilError | Some e \<Rightarrow> e)"

text \<open>The bytes of the current frame; a nil slice has none.\<close>

definition current_bytes :: "ReceiveStream \<Rightarrow> byte list" where
  "current_bytes s = (case currentFrame s of None \<Rightarrow> [] | Some d \<Rightarrow> d)"

definition frame_done :: "ReceiveStream \<Rightarrow> ReceiveStream" where
  "frame_done s = (case currentFrameDone s of None \<Rightarrow> s | Some c \<Rightarrow> s\<lparr>released := released s @ [c]\<rparr>)"

definition dequeueNextFrame :: "ReceiveStream \<Rightarrow> ReceiveStream" where
  "dequeueNextFrame s =
     (case Pop (frameQueue s) of ((offset, data, done), q) \<Rightarrow>
       (frame_done s)\<lparr>frameQueue := q, currentFrame := data, currentFrameDone := done,
          currentFrameIsLast :=
            (offset + int (case data of None \<Rightarrow> 0 | Some d \<Rightarrow> length d) \<ge> finalOffset s \<and> \<not> cancelledRemotely s),
          readPosInFrame := 0\<rparr>)"

definition frame_over :: "ReceiveStream \<Rightarrow> bool" where
  "frame_over s \<longleftrightarrow> currentFrame s = None \<or> readPosInFrame s \<ge> length (current_bytes s)"

definition deadline_over :: "mono_time \<Rightarrow> ReceiveStream \<Rightarrow> bool" where
  "deadline_over now s \<longleftrightarrow> \<not> mono_IsZero (rs_deadline s) \<and> \<not> mono_Before now (rs_deadline s)"

section \<open>Reading\<close>

text \<open>What a call has so far: \<open>hasStreamWindowUpdate\<close>, \<open>hasConnWindowUpdate\<close> and the bytes that it copied.\<close>

type_synonym read_acc = "bool \<times> bool \<times> byte list"

datatype read_outcome = ReadDone read_acc "stream_err option" | ReadWaits read_acc

datatype turn_outcome = TurnStops read_acc stream_err | TurnWaits | TurnGoes read_acc

definition count_read :: "nat \<Rightarrow> bool \<Rightarrow> bool \<Rightarrow> ReceiveStream \<Rightarrow> (bool \<times> bool) \<times> ReceiveStream" where
  "count_read m hasStreamUpdate hasConnUpdate s =
     (if \<not> isRemoteCancellationEffective s then
        (case AddBytesRead (int m) (flowController s) of ((hasStream, hasConn), fc) \<Rightarrow>
          ((hasStreamUpdate \<or> hasStream, hasConnUpdate \<or> hasConn),
           s\<lparr>flowController := fc, queuedMaxStreamData := queuedMaxStreamData s \<or> hasStream\<rparr>))
      else ((hasStreamUpdate, hasConnUpdate), s))"

text \<open>The end of a turn of the loop, which copies from the current frame.\<close>

definition read_copy :: "nat \<Rightarrow> read_acc \<Rightarrow> ReceiveStream \<Rightarrow> turn_outcome \<times> ReceiveStream" where
  "read_copy n sofar s = (case sofar of (hs, hc, got) \<Rightarrow>
     let chunk = take (n - length got) (drop (readPosInFrame s) (current_bytes s)) in
     (case count_read (length chunk) hs hc s of ((hs, hc), s) \<Rightarrow>
        let s = s\<lparr>readPosInFrame := readPosInFrame s + length chunk, rs_readPos := rs_readPos s + int (length chunk)\<rparr>;
            s = (if isRemoteCancellationEffective s then s\<lparr>flowController := Abandon (flowController s)\<rparr> else s)
        in
        if readPosInFrame s \<ge> length (current_bytes s) \<and> currentFrameIsLast s
        then (TurnStops (hs, hc, got @ chunk) io_EOF, (frame_done (s\<lparr>currentFrame := None\<rparr>))\<lparr>errorRead := True\<rparr>)
        else (TurnGoes (hs, hc, got @ chunk), s)))"

text \<open>The inner loop up to where it waits or is left, and the rest of the turn.\<close>

definition read_turn :: "nat \<Rightarrow> mono_time \<Rightarrow> read_acc \<Rightarrow> ReceiveStream \<Rightarrow> turn_outcome \<times> ReceiveStream" where
  "read_turn n now sofar s =
     (case closeForShutdownErr s of Some e \<Rightarrow> (TurnStops sofar (ShutdownError e), s)
      | None \<Rightarrow>
          if cancelledLocally s \<or> isRemoteCancellationEffective s then (TurnStops sofar (cancel_error s), s\<lparr>errorRead := True\<rparr>)
          else if deadline_over now s then (TurnStops sofar errDeadline, s)
          else if \<not> (currentFrame s \<noteq> None \<or> currentFrameIsLast s) then (TurnWaits, s)
          else if length (snd (snd sofar)) > n then (TurnStops sofar ReadBug, s)
          else if readPosInFrame s > length (current_bytes s) then (TurnStops sofar ReadBug, s)
          else read_copy n sofar s)"

function read_loop :: "nat \<Rightarrow> (nat \<Rightarrow> mono_time) \<Rightarrow> read_acc \<Rightarrow> ReceiveStream \<Rightarrow> read_outcome \<times> ReceiveStream" where
  "read_loop n clock sofar s = (case sofar of (hs, hc, got) \<Rightarrow>
     if length got < n then
       let s = (if frame_over s then dequeueNextFrame s else s) in
       if currentFrame s = None \<and> got \<noteq> [] then (ReadDone sofar (map_option ShutdownError (closeForShutdownErr s)), s)
       else (case read_turn n (clock (length got)) sofar s of
               (TurnStops sofar' e, s') \<Rightarrow> (ReadDone sofar' (Some e), s')
             | (TurnWaits, s') \<Rightarrow> (ReadWaits sofar, s')
             | (TurnGoes sofar', s') \<Rightarrow> read_loop n clock sofar' s')
     else if isRemoteCancellationEffective s then (ReadDone sofar (Some (cancel_error s)), s\<lparr>errorRead := True\<rparr>)
     else (ReadDone sofar None, s))"
  by pat_completeness auto

lemma frame_done_simps [simp]:
  "frameQueue (frame_done s) = frameQueue s" "finalOffset (frame_done s) = finalOffset s" "currentFrame (frame_done s) = currentFrame s"
  "currentFrameDone (frame_done s) = currentFrameDone s" "readPosInFrame (frame_done s) = readPosInFrame s"
  "currentFrameIsLast (frame_done s) = currentFrameIsLast s" "errorRead (frame_done s) = errorRead s" "completed (frame_done s) = completed s"
  "cancelledRemotely (frame_done s) = cancelledRemotely s" "cancelledLocally (frame_done s) = cancelledLocally s"
  "cancelErr (frame_done s) = cancelErr s" "closeForShutdownErr (frame_done s) = closeForShutdownErr s" "rs_readPos (frame_done s) = rs_readPos s"
  "reliableSize (frame_done s) = reliableSize s" "readChan (frame_done s) = readChan s" "rs_deadline (frame_done s) = rs_deadline s"
  "flowController (frame_done s) = flowController s" "sender_calls (frame_done s) = sender_calls s" "rs_streamID (frame_done s) = rs_streamID s"
  "queuedStopSending (frame_done s) = queuedStopSending s" "queuedMaxStreamData (frame_done s) = queuedMaxStreamData s"
  "released (frame_done s) = released s @ (case currentFrameDone s of None \<Rightarrow> [] | Some c \<Rightarrow> [c])"
  by (simp_all add: frame_done_def split: option.split)

text \<open>A turn that goes on has copied a byte, or it has taken an empty frame from the queue.\<close>

lemma count_read_eq:
  "snd (count_read m hs hc s) =
     (if isRemoteCancellationEffective s then s
      else s\<lparr>flowController := snd (AddBytesRead (int m) (flowController s)),
             queuedMaxStreamData := queuedMaxStreamData s \<or> fst (fst (AddBytesRead (int m) (flowController s)))\<rparr>)"
  by (simp add: count_read_def split: prod.splits)

definition read_chunk :: "nat \<Rightarrow> byte list \<Rightarrow> ReceiveStream \<Rightarrow> byte list" where
  "read_chunk n got s = take (n - length got) (drop (readPosInFrame s) (current_bytes s))"

text \<open>The stream after the bytes of \<open>chunk\<close> have been copied.\<close>

definition after_copy :: "byte list \<Rightarrow> ReceiveStream \<Rightarrow> ReceiveStream" where
  "after_copy chunk s =
     (let s' = snd (count_read (length chunk) False False s);
          t = s'\<lparr>readPosInFrame := readPosInFrame s + length chunk, rs_readPos := rs_readPos s + int (length chunk)\<rparr>
      in if isRemoteCancellationEffective t then t\<lparr>flowController := Abandon (flowController t)\<rparr> else t)"

lemma count_read_fields [simp]:
  "frameQueue (snd (count_read m hs hc s)) = frameQueue s" "finalOffset (snd (count_read m hs hc s)) = finalOffset s"
  "currentFrame (snd (count_read m hs hc s)) = currentFrame s" "currentFrameDone (snd (count_read m hs hc s)) = currentFrameDone s"
  "readPosInFrame (snd (count_read m hs hc s)) = readPosInFrame s" "currentFrameIsLast (snd (count_read m hs hc s)) = currentFrameIsLast s"
  "errorRead (snd (count_read m hs hc s)) = errorRead s" "completed (snd (count_read m hs hc s)) = completed s"
  "cancelledRemotely (snd (count_read m hs hc s)) = cancelledRemotely s" "cancelledLocally (snd (count_read m hs hc s)) = cancelledLocally s"
  "cancelErr (snd (count_read m hs hc s)) = cancelErr s" "closeForShutdownErr (snd (count_read m hs hc s)) = closeForShutdownErr s"
  "rs_readPos (snd (count_read m hs hc s)) = rs_readPos s" "reliableSize (snd (count_read m hs hc s)) = reliableSize s"
  "readChan (snd (count_read m hs hc s)) = readChan s" "rs_deadline (snd (count_read m hs hc s)) = rs_deadline s"
  "released (snd (count_read m hs hc s)) = released s" "sender_calls (snd (count_read m hs hc s)) = sender_calls s"
  "rs_streamID (snd (count_read m hs hc s)) = rs_streamID s" "queuedStopSending (snd (count_read m hs hc s)) = queuedStopSending s"
  by (simp_all add: count_read_eq)

lemma after_copy_fields [simp]:
  "frameQueue (after_copy d s) = frameQueue s" "finalOffset (after_copy d s) = finalOffset s"
  "currentFrame (after_copy d s) = currentFrame s" "currentFrameDone (after_copy d s) = currentFrameDone s"
  "readPosInFrame (after_copy d s) = readPosInFrame s + length d" "currentFrameIsLast (after_copy d s) = currentFrameIsLast s"
  "errorRead (after_copy d s) = errorRead s" "completed (after_copy d s) = completed s"
  "cancelledRemotely (after_copy d s) = cancelledRemotely s" "cancelledLocally (after_copy d s) = cancelledLocally s"
  "cancelErr (after_copy d s) = cancelErr s" "closeForShutdownErr (after_copy d s) = closeForShutdownErr s"
  "rs_readPos (after_copy d s) = rs_readPos s + int (length d)" "reliableSize (after_copy d s) = reliableSize s"
  "readChan (after_copy d s) = readChan s" "rs_deadline (after_copy d s) = rs_deadline s"
  "released (after_copy d s) = released s" "sender_calls (after_copy d s) = sender_calls s"
  "rs_streamID (after_copy d s) = rs_streamID s" "queuedStopSending (after_copy d s) = queuedStopSending s"
  "current_bytes (after_copy d s) = current_bytes s"
  by (simp_all add: after_copy_def Let_def current_bytes_def)

lemma read_copy_eq:
  "\<exists>hs' hc'. read_copy n (hs, hc, got) s =
     (let d = read_chunk n got s; t = after_copy d s in
      if readPosInFrame t \<ge> length (current_bytes t) \<and> currentFrameIsLast t
      then (TurnStops (hs', hc', got @ d) io_EOF, (frame_done (t\<lparr>currentFrame := None\<rparr>))\<lparr>errorRead := True\<rparr>)
      else (TurnGoes (hs', hc', got @ d), t))"
proof -
  define d where "d = read_chunk n got s"
  obtain hs' hc' s' where c: "count_read (length d) hs hc s = ((hs', hc'), s')" by (metis surj_pair)
  have s': "s' = snd (count_read (length d) False False s)" using c count_read_eq [of "length d" hs hc s] by (simp add: count_read_eq)
  define t where "t = s'\<lparr>readPosInFrame := readPosInFrame s' + length d, rs_readPos := rs_readPos s' + int (length d)\<rparr>"
  have ac: "after_copy d s = (if isRemoteCancellationEffective t then t\<lparr>flowController := Abandon (flowController t)\<rparr> else t)"
    unfolding after_copy_def Let_def s' [symmetric] t_def by (simp add: s')
  show ?thesis
    unfolding read_copy_def prod.case Let_def read_chunk_def [symmetric] d_def [symmetric] c ac t_def [symmetric] by blast
qed

lemma read_copy_progress:
  assumes "read_copy n (hs, hc, got) s = (TurnGoes (hs', hc', got'), s')"
  shows "s' = after_copy (read_chunk n got s) s" "got' = got @ read_chunk n got s"
    "currentFrameIsLast s \<longrightarrow> readPosInFrame s + length (read_chunk n got s) < length (current_bytes s)"
  using assms read_copy_eq [of n hs hc got s] by (auto simp: Let_def split: if_splits)

lemma read_turn_goes:
  assumes "read_turn n now sofar s = (TurnGoes sofar', s')"
  shows "read_copy n sofar s = (TurnGoes sofar', s')" "currentFrame s \<noteq> None \<or> currentFrameIsLast s" "readPosInFrame s \<le> length (current_bytes s)"
    "closeForShutdownErr s = None" "\<not> cancelledLocally s" "\<not> isRemoteCancellationEffective s"
  using assms by (auto simp: read_turn_def split: option.splits if_splits)

lemma dequeue_shorter: "currentFrame (dequeueNextFrame s) \<noteq> None \<Longrightarrow> length (queue (frameQueue (dequeueNextFrame s))) < length (queue (frameQueue s))"
  by (auto simp: dequeueNextFrame_def Pop_def delete_shorter split: option.splits)

lemma read_loop_progress:
  assumes "length got < n" and "t = (if frame_over s then dequeueNextFrame s else s)"
    and "read_turn n now (hs, hc, got) t = (TurnGoes (hs', hc', got'), s')"
  shows "n - length got' < n - length got \<or> length got' = length got \<and> length (queue (frameQueue s')) < length (queue (frameQueue s))"
proof -
  note T = read_turn_goes [OF assms(3)]
  note C = read_copy_progress [OF T(1)]
  show ?thesis
  proof (cases "drop (readPosInFrame t) (current_bytes t)")
    case Nil
    have "frame_over s"
    proof (rule ccontr)
      assume "\<not> frame_over s"
      with assms(2) have "t = s" by simp
      with \<open>\<not> frame_over s\<close> show False using Nil by (simp add: frame_over_def)
    qed
    moreover have "currentFrame t \<noteq> None" using C(3) T(2) Nil by (auto simp: frame_bytes_def)
    ultimately show ?thesis using C(1,2) assms(2) dequeue_shorter [of s] Nil by (simp add: read_chunk_def)
  next
    case (Cons x xs)
    then show ?thesis using assms(1) C(2) by (cases "n - length got") (auto simp: read_chunk_def)
  qed
qed

termination read_loop
proof (relation "measures [\<lambda>(n, clock, (hs, hc, got), s). n - length got, \<lambda>(n, clock, sofar, s). length (queue (frameQueue s))]", goal_cases)
  case 1
  show ?case by simp
next
  case (2 n clock sofar s hs p hc got t o' s' sofar')
  obtain hs' hc' got' where a: "sofar' = (hs', hc', got')" by (cases sofar')
  have "read_turn n (clock (length got)) (hs, hc, got) t = (TurnGoes (hs', hc', got'), s')" using 2 a by simp
  from read_loop_progress [OF 2(3,4) this] show ?case using 2(1,2) a by auto
qed

declare read_loop.simps [simp del]

text \<open>A waiting call that is woken.\<close>

definition read_wake :: "nat \<Rightarrow> (nat \<Rightarrow> mono_time) \<Rightarrow> read_acc \<Rightarrow> ReceiveStream \<Rightarrow> read_outcome \<times> ReceiveStream" where
  "read_wake n clock sofar s =
     (case read_turn n (clock (length (snd (snd sofar)))) sofar (dequeueNextFrame s) of
        (TurnStops sofar' e, s') \<Rightarrow> (ReadDone sofar' (Some e), s')
      | (TurnWaits, s') \<Rightarrow> (ReadWaits sofar, s')
      | (TurnGoes sofar', s') \<Rightarrow> read_loop n clock sofar' s')"

definition readImpl :: "nat \<Rightarrow> (nat \<Rightarrow> mono_time) \<Rightarrow> ReceiveStream \<Rightarrow> read_outcome \<times> ReceiveStream" where
  "readImpl n clock s =
     (if currentFrameIsLast s \<and> currentFrame s = None then (ReadDone (False, False, []) (Some io_EOF), s\<lparr>errorRead := True\<rparr>)
      else if cancelledLocally s \<or> isRemoteCancellationEffective s
      then (ReadDone (False, False, []) (Some (cancel_error s)), s\<lparr>errorRead := True\<rparr>)
      else (case closeForShutdownErr s of Some e \<Rightarrow> (ReadDone (False, False, []) (Some (ShutdownError e)), s)
            | None \<Rightarrow> read_loop n clock (False, False, []) s))"

text \<open>What \<open>Read\<close> does when \<open>readImpl\<close> has returned.\<close>

definition read_ends :: "bool \<Rightarrow> bool \<Rightarrow> ReceiveStream \<Rightarrow> ReceiveStream" where
  "read_ends queuedStreamWindowUpdate queuedConnWindowUpdate s =
     (case isNewlyCompleted s of (newly, s) \<Rightarrow>
        call_sender queuedConnWindowUpdate onHasConnectionData
          (call_sender queuedStreamWindowUpdate (onHasStreamControlFrame (rs_streamID s))
            (call_sender newly (onStreamCompleted (rs_streamID s)) s)))"

section \<open>Peeking\<close>

datatype peek_outcome = PeekDone "byte list" "stream_err option" | PeekWaits

text \<open>\<open>None\<close> is a call of the frame sorter that does not end.\<close>

definition peek_rest :: "int \<Rightarrow> int \<Rightarrow> ReceiveStream \<Rightarrow> (byte list option) option" where
  "peek_rest offset needed s =
     (if needed \<le> 0 then Some (Some [])
      else map_option (\<lambda>r. case r of Inl _ \<Rightarrow> None | Inr d \<Rightarrow> Some d) (Peek offset (nat needed) (frameQueue s)))"

text \<open>The current frame has bytes left, but fewer than \<open>n\<close>. The last case is that none of the conditions holds.\<close>

definition peek_beyond :: "nat \<Rightarrow> ReceiveStream \<Rightarrow> peek_outcome option option" where
  "peek_beyond n s =
     (let avail = drop (readPosInFrame s) (current_bytes s);
          offset = rs_readPos s + int (length avail);
          upto = (\<lambda>size e otherwise. if rs_readPos s + int n > size then
              (let total = size - rs_readPos s in
               Option.bind (peek_rest offset (total - int (length avail)) s) (\<lambda>r.
                 case r of Some d \<Rightarrow> Some (Some (PeekDone (take (nat total) (avail @ d)) (Some e))) | None \<Rightarrow> otherwise))
            else otherwise)
      in Option.bind (Peek offset (n - length avail) (frameQueue s)) (\<lambda>r.
         case r of Inr d \<Rightarrow> Some (Some (PeekDone (avail @ d) None))
         | Inl _ \<Rightarrow>
             if currentFrameIsLast s then Some (Some (PeekDone avail (Some io_EOF)))
             else
               let final = upto (finalOffset s) io_EOF (Some None) in
               if cancelledRemotely s then upto (reliableSize s) (cancel_error s) final else final))"

definition peek_turn :: "nat \<Rightarrow> mono_time \<Rightarrow> ReceiveStream \<Rightarrow> (peek_outcome \<times> ReceiveStream) option" where
  "peek_turn n now s =
     (if currentFrameIsLast s \<and> currentFrame s = None then Some (PeekDone [] (Some io_EOF), s)
      else if cancelledLocally s \<or> isRemoteCancellationEffective s then Some (PeekDone [] (Some (cancel_error s)), s)
      else case closeForShutdownErr s of Some e \<Rightarrow> Some (PeekDone [] (Some (ShutdownError e)), s)
      | None \<Rightarrow>
        if deadline_over now s then Some (PeekDone [] (Some errDeadline), s)
        else
          let s = (if frame_over s then dequeueNextFrame s else s) in
          Option.bind
            (if \<not> frame_over s then
               (let avail = drop (readPosInFrame s) (current_bytes s) in
                if length avail \<ge> n then Some (Some (PeekDone (take n avail) None)) else peek_beyond n s)
             else Some None)
            (\<lambda>r. case r of Some out \<Rightarrow> Some (out, s)
               | None \<Rightarrow>
                   if currentFrameIsLast s \<or> rs_readPos s \<ge> finalOffset s then Some (PeekDone [] (Some io_EOF), s)
                   else Some (PeekWaits, s)))"

definition peek_wake :: "nat \<Rightarrow> mono_time \<Rightarrow> ReceiveStream \<Rightarrow> (peek_outcome \<times> ReceiveStream) option" where
  "peek_wake n now s = peek_turn n now (if frame_over s then dequeueNextFrame s else s)"

section \<open>The other operations\<close>

definition cancelReadImpl :: "u64 \<Rightarrow> ReceiveStream \<Rightarrow> bool \<times> ReceiveStream" where
  "cancelReadImpl errorCode s =
     (if cancelledLocally s then (False, s)
      else if closeForShutdownErr s \<noteq> None then (False, s)
      else
        let s = s\<lparr>cancelledLocally := True\<rparr> in
        if errorRead s \<or> cancelledRemotely s then (False, s)
        else (True, signalRead (s\<lparr>queuedStopSending := True, cancelErr := Some (StreamError (rs_streamID s) errorCode False)\<rparr>)))"

definition abandon_if :: "bool \<Rightarrow> ReceiveStream \<Rightarrow> ReceiveStream" where
  "abandon_if b s = (if b then s\<lparr>flowController := Abandon (flowController s)\<rparr> else s)"

definition CancelRead :: "u64 \<Rightarrow> ReceiveStream \<Rightarrow> ReceiveStream" where
  "CancelRead errorCode s =
     (case cancelReadImpl errorCode s of (queuedNewControlFrame, s) \<Rightarrow>
      case isNewlyCompleted s of (newly, s) \<Rightarrow>
        call_sender newly (onStreamCompleted (rs_streamID s)) (abandon_if newly
          (call_sender queuedNewControlFrame (onHasStreamControlFrame (rs_streamID s)) s)))"

datatype receive_err = FlowFailed flow_err | SorterFailed sorter_err | ControlPanic | PeekDiverges

definition on_flow :: "(flow_err, stream_and_conn, 'a) eff \<Rightarrow> (receive_err, ReceiveStream, 'a) eff" where
  "on_flow m s = (case m (flowController s) of (r, fc) \<Rightarrow> (map_sum FlowFailed (\<lambda>x. x) r, s\<lparr>flowController := fc\<rparr>))"

definition on_sorter :: "(sorter_err, frameSorter, 'a) eff \<Rightarrow> (receive_err, ReceiveStream, 'a) eff" where
  "on_sorter m s = (case m (frameQueue s) of (r, q) \<Rightarrow> (map_sum SorterFailed (\<lambda>x. x) r, s\<lparr>frameQueue := q\<rparr>))"

text \<open>The callback \<open>frame.PutBack\<close> is the number \<open>cb\<close>.\<close>

definition handleStreamFrameImpl :: "stream_frame \<Rightarrow> nat \<Rightarrow> mono_time \<Rightarrow> (receive_err, ReceiveStream, unit) eff" where
  "handleStreamFrameImpl frame cb now =
     (let maxOffset = sf_Offset frame + int (length (sf_Data frame)) in
      bnd (on_flow (UpdateHighestReceived maxOffset (sf_Fin frame) now)) (\<lambda>_.
      bnd (modify (\<lambda>s. if sf_Fin frame then s\<lparr>finalOffset := maxOffset\<rparr> else s)) (\<lambda>_.
      bnd (gets cancelledLocally) (\<lambda>locally.
      if locally then ret ()
      else bnd (on_sorter (Push (sf_Data frame) (sf_Offset frame) (Some cb))) (\<lambda>_. modify signalRead)))))"

definition handleStreamFrame :: "stream_frame \<Rightarrow> nat \<Rightarrow> mono_time \<Rightarrow> (receive_err, ReceiveStream, unit) eff" where
  "handleStreamFrame frame cb now s =
     (case handleStreamFrameImpl frame cb now s of (r, s) \<Rightarrow>
      case isNewlyCompleted s of (newly, s) \<Rightarrow>
        (r, call_sender newly (onStreamCompleted (rs_streamID s)) (abandon_if newly s)))"

definition handleResetStreamFrameImpl :: "u64 \<Rightarrow> int \<Rightarrow> int \<Rightarrow> mono_time \<Rightarrow> (receive_err, ReceiveStream, unit) eff" where
  "handleResetStreamFrameImpl errorCode finalSize reliable now s =
     (if closeForShutdownErr s \<noteq> None then (Inr (), s)
      else bnd (on_flow (UpdateHighestReceived finalSize True now)) (\<lambda>_.
           bnd (modify (\<lambda>s. s\<lparr>finalOffset := finalSize\<rparr>)) (\<lambda>_.
           bnd (modify (\<lambda>s. if (\<not> cancelledRemotely s \<and> reliableSize s = 0) \<or> reliable < reliableSize s
                            then s\<lparr>reliableSize := reliable\<rparr> else s)) (\<lambda>_.
           bnd (modify (\<lambda>s. abandon_if (rs_readPos s \<ge> reliableSize s) s)) (\<lambda>_.
           modify (\<lambda>s. if cancelledRemotely s then s
                       else if cancelledLocally s then s
                       else signalRead (s\<lparr>cancelledRemotely := True, cancelErr := Some (StreamError (rs_streamID s) errorCode True)\<rparr>)))))) s)"

definition handleResetStreamFrame :: "u64 \<Rightarrow> int \<Rightarrow> int \<Rightarrow> mono_time \<Rightarrow> (receive_err, ReceiveStream, unit) eff" where
  "handleResetStreamFrame errorCode finalSize reliable now s =
     (case handleResetStreamFrameImpl errorCode finalSize reliable now s of (r, s) \<Rightarrow>
      case isNewlyCompleted s of (newly, s) \<Rightarrow> (r, call_sender newly (onStreamCompleted (rs_streamID s)) s))"

text \<open>The frame, if there is one, and whether there are more.\<close>

definition getControlFrame :: "allow \<Rightarrow> int \<Rightarrow> mono_time \<Rightarrow> (receive_err, ReceiveStream, frame option \<times> bool) eff" where
  "getControlFrame allow rtt now s =
     (if \<not> queuedStopSending s \<and> \<not> queuedMaxStreamData s then (Inr (None, False), s)
      else if queuedStopSending s then
        (case cancelErr s of
           Some (StreamError sid code remote) \<Rightarrow>
             (Inr (Some (StopSendingFrame (rs_streamID s) code), queuedMaxStreamData s), s\<lparr>queuedStopSending := False\<rparr>)
         | _ \<Rightarrow> (Inl ControlPanic, s\<lparr>queuedStopSending := False\<rparr>))
      else
        bnd (modify (\<lambda>s. s\<lparr>queuedMaxStreamData := False\<rparr>)) (\<lambda>_.
        bnd (on_flow (GetWindowUpdate allow rtt now)) (\<lambda>offset.
          ret (Some (MaxStreamDataFrame (rs_streamID s) offset), False))) s)"

text \<open>A \<open>time.Time\<close> is the zero time or a number of nanoseconds since the start of the process; \<open>Sub\<close> saturates.\<close>

definition FromTime :: "int option \<Rightarrow> mono_time" where
  "FromTime t = (case t of None \<Rightarrow> 0 | Some d \<Rightarrow> max min_int64 (min max_int64 d))"

definition SetReadDeadline :: "int option \<Rightarrow> ReceiveStream \<Rightarrow> ReceiveStream" where
  "SetReadDeadline t s = signalRead (s\<lparr>rs_deadline := FromTime t\<rparr>)"

definition closeForShutdown :: "string \<Rightarrow> ReceiveStream \<Rightarrow> ReceiveStream" where
  "closeForShutdown err s = signalRead (s\<lparr>closeForShutdownErr := Some err\<rparr>)"

section \<open>Runs\<close>

text \<open>
  A stream with its reader, who is idle or waits in \<open>Read\<close> or \<open>Peek\<close>; a waiting call remembers the deadline of its timer. What
  the calls returned and the frames that were queued are recorded.
\<close>

datatype reader = Idle | Reading nat read_acc mono_time | Peeking nat mono_time

datatype call_result = Returned "byte list" "stream_err option" | Peeked "byte list" "stream_err option"

record receiver =
  rx_stream :: ReceiveStream
  rx_reader :: reader
  rx_results :: "call_result list"
  rx_frames :: "sorter_event list"

definition read_continues :: "nat \<Rightarrow> read_outcome \<times> ReceiveStream \<Rightarrow> receiver \<Rightarrow> receiver" where
  "read_continues n r st = (case r of
     (ReadDone (hs, hc, got) e, s) \<Rightarrow>
        st\<lparr>rx_stream := read_ends hs hc s, rx_reader := Idle, rx_results := rx_results st @ [Returned got e]\<rparr>
   | (ReadWaits sofar, s) \<Rightarrow> st\<lparr>rx_stream := s, rx_reader := Reading n sofar (rs_deadline s)\<rparr>)"

definition Read :: "nat \<Rightarrow> (nat \<Rightarrow> mono_time) \<Rightarrow> receiver \<Rightarrow> receiver" where
  "Read n clock st = read_continues n (readImpl n clock (rx_stream st)) st"

definition peek_continues :: "nat \<Rightarrow> (peek_outcome \<times> ReceiveStream) option \<Rightarrow> receiver \<Rightarrow> receive_err + receiver" where
  "peek_continues n r st = (case r of
     None \<Rightarrow> Inl PeekDiverges
   | Some (PeekDone d e, s) \<Rightarrow> Inr (st\<lparr>rx_stream := s, rx_reader := Idle, rx_results := rx_results st @ [Peeked d e]\<rparr>)
   | Some (PeekWaits, s) \<Rightarrow> Inr (st\<lparr>rx_stream := s, rx_reader := Peeking n (rs_deadline s)\<rparr>))"

definition stream_Peek :: "nat \<Rightarrow> mono_time \<Rightarrow> receiver \<Rightarrow> receive_err + receiver" where
  "stream_Peek n now st =
     (if n = 0 then Inr (st\<lparr>rx_results := rx_results st @ [Peeked [] None]\<rparr>)
      else peek_continues n (peek_turn n now (rx_stream st)) st)"

definition wake :: "(nat \<Rightarrow> mono_time) \<Rightarrow> receiver \<Rightarrow> receive_err + receiver" where
  "wake clock st = (case rx_reader st of
     Idle \<Rightarrow> Inr st
   | Reading n sofar d \<Rightarrow> Inr (read_continues n (read_wake n clock sofar (rx_stream st)) st)
   | Peeking n d \<Rightarrow> peek_continues n (peek_wake n (clock 0) (rx_stream st)) st)"

definition timer_of :: "reader \<Rightarrow> mono_time" where
  "timer_of r = (case r of Idle \<Rightarrow> 0 | Reading n sofar d \<Rightarrow> d | Peeking n d \<Rightarrow> d)"

text \<open>
  A call of \<open>Read\<close> or \<open>Peek\<close> while another one waits has to wait for \<open>readOnce\<close>; it is then a later event. \<open>OthersRead\<close> is what the other
  streams do to the flow control of the connection.
\<close>

datatype stream_event =
  CallRead nat "nat \<Rightarrow> mono_time" | CallPeek nat mono_time
| WakeSignal "nat \<Rightarrow> mono_time" | WakeTimer "nat \<Rightarrow> mono_time"
| GotFrame stream_frame nat mono_time | GotReset u64 int int mono_time
| CallCancel u64 | CallDeadline "int option" | Shutdown string
| SendControl "int \<Rightarrow> bool" int mono_time | OthersRead connectionFlowController

definition run_handler :: "('a + unit) \<times> ReceiveStream \<Rightarrow> receiver \<Rightarrow> 'a + receiver" where
  "run_handler r st = (case r of (Inl e, s) \<Rightarrow> Inl e | (Inr _, s) \<Rightarrow> Inr (st\<lparr>rx_stream := s\<rparr>))"

fun stream_step :: "stream_event \<Rightarrow> receiver \<Rightarrow> receive_err + receiver" where
  "stream_step (CallRead n clock) st = Inr (if rx_reader st = Idle then Read n clock st else st)"
| "stream_step (CallPeek n now) st = (if rx_reader st = Idle then stream_Peek n now st else Inr st)"
| "stream_step (WakeSignal clock) st =
     (if rx_reader st \<noteq> Idle \<and> readChan (rx_stream st) then wake clock (st\<lparr>rx_stream := (rx_stream st)\<lparr>readChan := False\<rparr>\<rparr>) else Inr st)"
| "stream_step (WakeTimer clock) st =
     (if \<not> mono_IsZero (timer_of (rx_reader st)) \<and> \<not> mono_Before (clock 0) (timer_of (rx_reader st)) then wake clock st else Inr st)"
| "stream_step (GotFrame frame cb now) st =
     (if cancelledLocally (rx_stream st) then run_handler (handleStreamFrame frame cb now (rx_stream st)) st
      else run_handler (handleStreamFrame frame cb now (rx_stream st))
             (st\<lparr>rx_frames := rx_frames st @ [FrameArrives (sf_Data frame) (sf_Offset frame) (Some cb)]\<rparr>))"
| "stream_step (GotReset code finalSize reliable now) st = run_handler (handleResetStreamFrame code finalSize reliable now (rx_stream st)) st"
| "stream_step (CallCancel code) st = Inr (st\<lparr>rx_stream := CancelRead code (rx_stream st)\<rparr>)"
| "stream_step (CallDeadline t) st = Inr (st\<lparr>rx_stream := SetReadDeadline t (rx_stream st)\<rparr>)"
| "stream_step (Shutdown err) st = Inr (st\<lparr>rx_stream := closeForShutdown err (rx_stream st)\<rparr>)"
| "stream_step (SendControl allowed rtt now) st =
     (case getControlFrame (Some allowed) rtt now (rx_stream st) of (Inl e, s) \<Rightarrow> Inl e | (Inr _, s) \<Rightarrow> Inr (st\<lparr>rx_stream := s\<rparr>))"
| "stream_step (OthersRead conn) st =
     Inr (st\<lparr>rx_stream := (rx_stream st)\<lparr>flowController := (fst (flowController (rx_stream st)), conn)\<rparr>\<rparr>)"

fun stream_run :: "stream_event list \<Rightarrow> receiver \<Rightarrow> receive_err + receiver" where
  "stream_run [] st = Inr st"
| "stream_run (e # es) st = sum_bind (stream_step e st) (stream_run es)"


end
