(* ===== verification/Quic_Delivery.thy ===== *)
theory Quic_Delivery
  imports Quic_Receive
begin

text \<open>
  The invariants of a receiving stream: its position, the bytes that it holds, the flow-control credit that it has given back,
  and when it is completed. Reading keeps them, and returns the next bytes of the stream.
\<close>

section \<open>Flow control of one stream\<close>

lemma Update_stream:
  assumes "UpdateHighestReceived offset final now fc = (Inr (), fc')"
  shows "highestReceived (fst fc') = max offset (highestReceived (fst fc))" "bytesRead (fst fc') = bytesRead (fst fc)"
    "receivedFinalOffset (fst fc') \<longleftrightarrow> receivedFinalOffset (fst fc) \<or> final" "final \<Longrightarrow> highestReceived (fst fc') = offset"
    "receivedFinalOffset (fst fc) \<Longrightarrow> highestReceived (fst fc') = highestReceived (fst fc)"
proof -
  obtain c conn c' conn' where fc: "fc = (c, conn)" "fc' = (c', conn')" by (metis surj_pair)
  have "highestReceived c' = max offset (highestReceived c) \<and> bytesRead c' = bytesRead c \<and>
    (receivedFinalOffset c' \<longleftrightarrow> receivedFinalOffset c \<or> final) \<and> (final \<longrightarrow> highestReceived c' = offset) \<and>
    (receivedFinalOffset c \<longrightarrow> highestReceived c' = highestReceived c)"
    using assms unfolding fc by (auto simp: UpdateHighestReceived_def Let_def startNewAutoTuningEpoch_def split: if_splits prod.splits)
  then show "highestReceived (fst fc') = max offset (highestReceived (fst fc))" "bytesRead (fst fc') = bytesRead (fst fc)"
    "receivedFinalOffset (fst fc') \<longleftrightarrow> receivedFinalOffset (fst fc) \<or> final" "final \<Longrightarrow> highestReceived (fst fc') = offset"
    "receivedFinalOffset (fst fc) \<Longrightarrow> highestReceived (fst fc') = highestReceived (fst fc)"
    by (simp_all add: fc)
qed

lemma Update_errors: "UpdateHighestReceived offset final now fc = (Inl e, fc') \<Longrightarrow> e = FinalSizeError \<or> e = FlowControlError"
  by (auto simp: UpdateHighestReceived_def IncrementHighestReceived_def Let_def split: if_splits prod.splits)

lemma Abandon_stream: "fst (Abandon fc) = (fst fc)\<lparr>bytesRead := highestReceived (fst fc)\<rparr>"
  by (simp add: Abandon_def Let_def split: prod.split)

lemma AddBytesRead_stream: "fst (snd (AddBytesRead n fc)) = addBytesRead n (fst fc)"
  by (simp add: AddBytesRead_def Let_def split: prod.split)

lemma final_adjust [simp]: "receivedFinalOffset (maybeAdjustWindowSize allow rtt now c) = receivedFinalOffset c"
  by (simp add: maybeAdjustWindowSize_def Let_def startNewAutoTuningEpoch_def)

lemma getWindowUpdate_stream:
  "bytesRead (snd (getWindowUpdate allow rtt now c)) = bytesRead c" "highestReceived (snd (getWindowUpdate allow rtt now c)) = highestReceived c"
  "receivedFinalOffset (snd (getWindowUpdate allow rtt now (c' :: streamFlowController))) = receivedFinalOffset c'"
  by (simp_all add: getWindowUpdate_def Let_def)

lemma Ensure_allowed: "fst (EnsureMinimumWindowSize (Some allowed) minimum now conn) = Inr ()"
  by (simp add: EnsureMinimumWindowSize_def Let_def)

lemma GetWindowUpdate_stream:
  "\<exists>offset fc'. GetWindowUpdate (Some allowed) rtt now fc = (Inr offset, fc') \<and> bytesRead (fst fc') = bytesRead (fst fc) \<and>
     highestReceived (fst fc') = highestReceived (fst fc) \<and> receivedFinalOffset (fst fc') = receivedFinalOffset (fst fc)"
proof -
  obtain c conn where fc: "fc = (c, conn)" by (cases fc)
  obtain off c1 where g: "getWindowUpdate None rtt now c = (off, c1)" by fastforce
  show ?thesis
    using getWindowUpdate_stream [of None rtt now c, unfolded g] getWindowUpdate_stream(3) [of None rtt now c, unfolded g]
      Ensure_allowed [of allowed "float_trunc (float_mult (float_of_int (receiveWindowSize c1)) ConnectionFlowControlMultiplier)" now conn]
    by (auto simp: GetWindowUpdate_def fc Let_def g split: prod.splits sum.splits)
qed

section \<open>Invariants\<close>

abbreviation stream_fc :: "ReceiveStream \<Rightarrow> streamFlowController" where "stream_fc s \<equiv> fst (flowController s)"

text \<open>The rest of the current frame, and that the end of the stream was reached.\<close>

definition rest :: "ReceiveStream \<Rightarrow> byte list" where
  "rest s = drop (readPosInFrame s) (current_bytes s)"

definition at_end :: "ReceiveStream \<Rightarrow> bool" where
  "at_end s \<longleftrightarrow> currentFrameIsLast s \<and> currentFrame s = None"

definition pending_cb :: "ReceiveStream \<Rightarrow> nat multiset" where
  "pending_cb s = (if at_end s then {#} else cb_set (currentFrameDone s))"

text \<open>The position \<open>p\<close> is the end of the stream, all of which was received.\<close>

definition eof_at :: "ReceiveStream \<Rightarrow> int \<Rightarrow> bool" where
  "eof_at s p \<longleftrightarrow> finalOffset s \<le> p \<and> p \<le> highestReceived (stream_fc s)"

definition data_ok :: "(int \<Rightarrow> byte) \<Rightarrow> sorter_event list \<Rightarrow> ReceiveStream \<Rightarrow> bool" where
  "data_ok f fs s \<longleftrightarrow> sorter_ok f (frameQueue s) \<and> readPos (frameQueue s) \<le> MaxByteCount \<and>
     (\<forall>p. 0 \<le> p \<longrightarrow> p < MaxByteCount \<longrightarrow> (in_gaps (gaps_of (frameQueue s)) p \<longleftrightarrow> \<not> arrived fs p)) \<and>
     tokens (frameQueue s) + mset (released s) + pending_cb s = mset (concat (map event_cb fs)) \<and>
     0 \<le> rs_readPos s \<and> rs_readPos s + int (length (rest s)) = readPos (frameQueue s) \<and> agrees f (rs_readPos s) (rest s) \<and>
     (at_end s \<or> readPosInFrame s \<le> length (current_bytes s)) \<and> (currentFrameIsLast s \<longrightarrow> currentFrame s = None \<or> rest s \<noteq> [])"

text \<open>
  The stream's controller knows what arrived and the final size, and has counted the bytes that were read. When the peer has
  reset the stream and the reliable part was read, or when the end was reached, all that was received is counted as read.
\<close>

definition flow_inv :: "sorter_event list \<Rightarrow> ReceiveStream \<Rightarrow> bool" where
  "flow_inv fs s \<longleftrightarrow> (\<forall>p. arrived fs p \<longrightarrow> p < highestReceived (stream_fc s)) \<and>
     0 \<le> highestReceived (stream_fc s) \<and> highestReceived (stream_fc s) \<le> MaxByteCount \<and>
     (finalOffset s = (if receivedFinalOffset (stream_fc s) then highestReceived (stream_fc s) else MaxByteCount)) \<and>
     (currentFrameIsLast s \<longrightarrow> eof_at s (readPos (frameQueue s))) \<and>
     bytesRead (stream_fc s) \<le> highestReceived (stream_fc s) \<and>
     (\<not> cancelledLocally s \<longrightarrow> \<not> isRemoteCancellationEffective s \<longrightarrow> bytesRead (stream_fc s) = rs_readPos s) \<and>
     (isRemoteCancellationEffective s \<longrightarrow> bytesRead (stream_fc s) = highestReceived (stream_fc s)) \<and>
     (cancelledRemotely s \<longrightarrow> receivedFinalOffset (stream_fc s)) \<and>
     (\<not> cancelledRemotely s \<longrightarrow> \<not> cancelledLocally s \<longrightarrow> reliableSize s = 0)"

text \<open>
  A stream that was cancelled locally and is then reset with a reliable size beyond the read position is completed without
  giving back its credit.
\<close>

definition uncredited :: "ReceiveStream \<Rightarrow> bool" where
  "uncredited s \<longleftrightarrow> cancelledLocally s \<and> \<not> cancelledRemotely s \<and> rs_readPos s < reliableSize s"

fun is_StreamError :: "stream_err \<Rightarrow> bool" where
  "is_StreamError (StreamError sid code remote) \<longleftrightarrow> True"
| "is_StreamError _ \<longleftrightarrow> False"

definition life_ok :: "ReceiveStream \<Rightarrow> bool" where
  "life_ok s \<longleftrightarrow> (errorRead s \<longrightarrow> cancelledLocally s \<or> isRemoteCancellationEffective s \<or> at_end s) \<and>
     (completed s \<longrightarrow> (cancelledLocally s \<or> errorRead s) \<and> finalOffset s \<noteq> MaxByteCount) \<and>
     (completed s \<longrightarrow> bytesRead (stream_fc s) = highestReceived (stream_fc s) \<or> uncredited s) \<and>
     length (filter (\<lambda>c. c = onStreamCompleted (rs_streamID s)) (sender_calls s)) = (if completed s then 1 else 0) \<and>
     (cancelledLocally s \<or> cancelledRemotely s \<longrightarrow> at_end s \<or> cancelErr s \<noteq> None) \<and>
     pred_option is_StreamError (cancelErr s) \<and> (queuedStopSending s \<longrightarrow> cancelErr s \<noteq> None) \<and>
     (currentFrame s = None \<longrightarrow> \<not> errorRead s \<longrightarrow> currentFrameDone s = None)"

definition core_ok :: "(int \<Rightarrow> byte) \<Rightarrow> sorter_event list \<Rightarrow> ReceiveStream \<Rightarrow> bool" where
  "core_ok f fs s \<longleftrightarrow> data_ok f fs s \<and> flow_inv fs s \<and> life_ok s"

text \<open>Between two operations, completion is up to date.\<close>

definition settled :: "ReceiveStream \<Rightarrow> bool" where
  "settled s \<longleftrightarrow> ((cancelledLocally s \<or> errorRead s) \<and> finalOffset s \<noteq> MaxByteCount \<longrightarrow> completed s)"

lemma core_okD:
  assumes "core_ok f fs s"
  shows "data_ok f fs s" "flow_inv fs s" "life_ok s"
  using assms by (simp_all add: core_ok_def)

lemma data_okD:
  assumes "data_ok f fs s"
  shows "sorter_ok f (frameQueue s)" "readPos (frameQueue s) \<le> MaxByteCount"
    "0 \<le> p \<Longrightarrow> p < MaxByteCount \<Longrightarrow> in_gaps (gaps_of (frameQueue s)) p \<longleftrightarrow> \<not> arrived fs p"
    "tokens (frameQueue s) + mset (released s) + pending_cb s = mset (concat (map event_cb fs))"
    "0 \<le> rs_readPos s" "rs_readPos s + int (length (rest s)) = readPos (frameQueue s)" "agrees f (rs_readPos s) (rest s)"
    "at_end s \<or> readPosInFrame s \<le> length (current_bytes s)" "currentFrameIsLast s \<Longrightarrow> currentFrame s = None \<or> rest s \<noteq> []"
  using assms by (simp_all add: data_ok_def)

lemma flow_invD:
  assumes "flow_inv fs s"
  shows "arrived fs p \<Longrightarrow> p < highestReceived (stream_fc s)"
    "0 \<le> highestReceived (stream_fc s)" "highestReceived (stream_fc s) \<le> MaxByteCount"
    "finalOffset s = (if receivedFinalOffset (stream_fc s) then highestReceived (stream_fc s) else MaxByteCount)"
    "currentFrameIsLast s \<Longrightarrow> eof_at s (readPos (frameQueue s))"
    "bytesRead (stream_fc s) \<le> highestReceived (stream_fc s)"
    "\<not> cancelledLocally s \<Longrightarrow> \<not> isRemoteCancellationEffective s \<Longrightarrow> bytesRead (stream_fc s) = rs_readPos s"
    "isRemoteCancellationEffective s \<Longrightarrow> bytesRead (stream_fc s) = highestReceived (stream_fc s)"
    "cancelledRemotely s \<Longrightarrow> receivedFinalOffset (stream_fc s)"
    "\<not> cancelledRemotely s \<Longrightarrow> \<not> cancelledLocally s \<Longrightarrow> reliableSize s = 0"
  using assms by (auto simp: flow_inv_def)

text \<open>Every byte that was queued to be read has arrived, so that the controller knows of it.\<close>

lemma queued_arrived:
  assumes "data_ok f fs s" and "0 \<le> p" and "p < readPos (frameQueue s)"
  shows "arrived fs p"
  using data_okD(3) [OF assms(1,2)] data_okD(2) [OF assms(1)] sorter_okD(5) [OF data_okD(1) [OF assms(1)]] assms(3) by (force simp: in_gaps_def)

lemma queued_received:
  assumes "data_ok f fs s" and "flow_inv fs s"
  shows "readPos (frameQueue s) \<le> highestReceived (stream_fc s)"
proof (cases "readPos (frameQueue s) = 0")
  case False
  then have "0 < readPos (frameQueue s)" using sorter_okD(3) [OF data_okD(1) [OF assms(1)]] by simp
  then show ?thesis using flow_invD(1) [OF assms(2)] queued_arrived [OF assms(1), of "readPos (frameQueue s) - 1"] by fastforce
qed (use flow_invD(2) [OF assms(2)] in simp)

section \<open>Taking a frame from the queue\<close>

lemma dequeue_fields [simp]:
  "finalOffset (dequeueNextFrame s) = finalOffset s" "readPosInFrame (dequeueNextFrame s) = 0"
  "errorRead (dequeueNextFrame s) = errorRead s" "completed (dequeueNextFrame s) = completed s"
  "cancelledRemotely (dequeueNextFrame s) = cancelledRemotely s" "cancelledLocally (dequeueNextFrame s) = cancelledLocally s"
  "cancelErr (dequeueNextFrame s) = cancelErr s" "closeForShutdownErr (dequeueNextFrame s) = closeForShutdownErr s"
  "rs_readPos (dequeueNextFrame s) = rs_readPos s" "reliableSize (dequeueNextFrame s) = reliableSize s"
  "readChan (dequeueNextFrame s) = readChan s" "rs_deadline (dequeueNextFrame s) = rs_deadline s"
  "flowController (dequeueNextFrame s) = flowController s" "sender_calls (dequeueNextFrame s) = sender_calls s"
  "rs_streamID (dequeueNextFrame s) = rs_streamID s" "queuedStopSending (dequeueNextFrame s) = queuedStopSending s"
  "released (dequeueNextFrame s) = released s @ (case currentFrameDone s of None \<Rightarrow> [] | Some c \<Rightarrow> [c])"
  by (simp_all add: dequeueNextFrame_def split: prod.split)

lemma dequeue_core:
  assumes core: "core_ok f fs s" and over: "frame_over s" and "\<not> currentFrameIsLast s"
  shows "core_ok f fs (dequeueNextFrame s)" "frame_over (dequeueNextFrame s) \<longleftrightarrow> currentFrame (dequeueNextFrame s) = None"
    "currentFrame (dequeueNextFrame s) = None \<longleftrightarrow> map_of (queue (frameQueue s)) (readPos (frameQueue s)) = None"
    "readPos (frameQueue s) = rs_readPos s" "gaps_of (frameQueue (dequeueNextFrame s)) = gaps_of (frameQueue s)"
    "currentFrame (dequeueNextFrame s) = None \<Longrightarrow> frameQueue (dequeueNextFrame s) = frameQueue s"
proof -
  define q where "q = frameQueue s"
  note D = data_okD [OF core_okD(1) [OF core], folded q_def] and F = flow_invD [OF core_okD(2) [OF core]]
  obtain off d cb q' where pop: "Pop q = ((off, d, cb), q')" by (metis surj_pair)
  note P = Pop_run [OF D(1), unfolded pop prod.case]
  have "rest s = []" using over by (auto simp: frame_over_def rest_def current_bytes_def)
  then have pos: "readPos q = rs_readPos s" using D(6) by simp
  define t where "t = dequeueNextFrame s"
  have t: "frameQueue t = q'" "currentFrame t = d" "currentFrameDone t = cb"
    "currentFrameIsLast t \<longleftrightarrow> readPos q' \<ge> finalOffset s \<and> \<not> cancelledRemotely s"
    using P pop by (auto simp: t_def dequeueNextFrame_def q_def split: option.splits)
  have rest: "rest t = (case d of None \<Rightarrow> [] | Some bs \<Rightarrow> bs)"
    by (simp add: rest_def current_bytes_def t_def [symmetric] t) (simp add: t_def split: option.split)
  have q': "sorter_ok f q'" "gaps_of q' = gaps_of q" "readPos q' = rs_readPos s + int (length (rest t))" "agrees f (rs_readPos s) (rest t)" "readPos q' \<le> MaxByteCount"
    using P pos D(2) by (auto simp: rest agrees_def split: option.splits)
  have pend: "cb_set (currentFrameDone s) = pending_cb s" using assms(3) by (simp add: pending_cb_def at_end_def)
  have tok: "tokens q' + mset (released t) + pending_cb t = mset (concat (map event_cb fs))"
  proof -
    have "pending_cb t = cb_set cb" using pop by (auto simp: pending_cb_def at_end_def t Pop_def cb_set_def split: option.splits)
    moreover have "mset (released t) = mset (released s) + pending_cb s" by (simp add: t_def cb_set_mset flip: pend)
    moreover have "tokens q' + cb_set cb = tokens q" using P by (simp add: tokens_def)
    ultimately have "tokens q' + mset (released t) + pending_cb t = tokens q + mset (released s) + pending_cb s"
      by (metis (no_types) add.assoc add.commute)
    then show ?thesis using D(4) by simp
  qed
  have data: "data_ok f fs t"
    unfolding data_ok_def t(1) using q' D(3,5) tok P
    by (auto simp: t_def [symmetric] t rest current_bytes_def split: option.splits) (simp_all add: t_def)
  have recv: "readPos q' \<le> highestReceived (stream_fc s)"
  proof (cases "readPos q' = 0")
    case False
    then have "0 < readPos q'" using sorter_okD(3) [OF q'(1)] by simp
    then show ?thesis using F(1) queued_arrived [OF data, of "readPos q' - 1"] t(1) by fastforce
  qed (use F(2) in simp)
  have flow: "flow_inv fs t"
    unfolding flow_inv_def using F recv by (auto simp: t eof_at_def isRemoteCancellationEffective_def) (simp_all add: t_def)
  have "currentFrame t = None \<longrightarrow> currentFrameDone t = None" using pop by (auto simp: t Pop_def split: option.splits)
  then have "life_ok t"
    using core_okD(3) [OF core] assms(3) by (auto simp: life_ok_def t_def isRemoteCancellationEffective_def at_end_def uncredited_def)
  with data flow show "core_ok f fs (dequeueNextFrame s)" by (simp add: core_ok_def t_def)
  show "currentFrame (dequeueNextFrame s) = None \<longleftrightarrow> map_of (queue (frameQueue s)) (readPos (frameQueue s)) = None"
    using pop by (auto simp: t(2) [unfolded t_def] Pop_def q_def split: option.splits)
  show "frame_over (dequeueNextFrame s) \<longleftrightarrow> currentFrame (dequeueNextFrame s) = None"
    using P t(2) by (auto simp: frame_over_def t_def current_bytes_def split: option.splits)
  show "readPos (frameQueue s) = rs_readPos s" using pos by (simp add: q_def)
  show "gaps_of (frameQueue (dequeueNextFrame s)) = gaps_of (frameQueue s)" using q'(2) t(1) by (simp add: t_def q_def)
  show "frameQueue (dequeueNextFrame s) = frameQueue s" if "currentFrame (dequeueNextFrame s) = None"
    using that P t by (simp add: t_def q_def)
qed

section \<open>Reading\<close>

lemma after_copy_fc:
  assumes "\<not> isRemoteCancellationEffective s"
  shows "stream_fc (after_copy d s) =
    (if isRemoteCancellationEffective (after_copy d s) then (addBytesRead (int (length d)) (stream_fc s))\<lparr>bytesRead := highestReceived (stream_fc s)\<rparr>
     else addBytesRead (int (length d)) (stream_fc s))"
proof -
  define t where "t = (snd (count_read (length d) False False s))\<lparr>readPosInFrame := readPosInFrame s + length d, rs_readPos := rs_readPos s + int (length d)\<rparr>"
  have fc: "stream_fc t = addBytesRead (int (length d)) (stream_fc s)" using assms by (simp add: t_def count_read_eq AddBytesRead_stream)
  have "isRemoteCancellationEffective t \<longleftrightarrow> isRemoteCancellationEffective (after_copy d s)" by (simp add: isRemoteCancellationEffective_def t_def)
  moreover have "after_copy d s = (if isRemoteCancellationEffective t then t\<lparr>flowController := Abandon (flowController t)\<rparr> else t)"
    by (simp add: after_copy_def t_def Let_def)
  ultimately show ?thesis using fc by (simp add: Abandon_stream) (simp add: addBytesRead_def)
qed

lemma rest_after_copy:
  assumes "d = take k (rest s)"
  shows "rest (after_copy d s) = drop (length d) (rest s)"
  using assms by (auto simp: rest_def add.commute)

text \<open>What the loop may assume before it copies, and what holds when it has copied.\<close>

definition can_read :: "ReceiveStream \<Rightarrow> bool" where
  "can_read s \<longleftrightarrow> \<not> cancelledLocally s \<and> \<not> isRemoteCancellationEffective s \<and> \<not> errorRead s"

lemma copied_flow:
  assumes core: "core_ok f fs s" and "can_read s" and d: "d = take k (rest s)"
  shows "flow_inv fs (after_copy d s)" "length d \<le> length (rest s)" "highestReceived (stream_fc (after_copy d s)) = highestReceived (stream_fc s)"
    "receivedFinalOffset (stream_fc (after_copy d s)) = receivedFinalOffset (stream_fc s)"
proof -
  note D = data_okD [OF core_okD(1) [OF core]] and F = flow_invD [OF core_okD(2) [OF core]]
  have nr: "\<not> cancelledLocally s" "\<not> isRemoteCancellationEffective s" using assms(2) by (simp_all add: can_read_def)
  note fc = after_copy_fc [OF nr(2), of d]
  show len: "length d \<le> length (rest s)" by (simp add: d)
  show hr: "highestReceived (stream_fc (after_copy d s)) = highestReceived (stream_fc s)"
    "receivedFinalOffset (stream_fc (after_copy d s)) = receivedFinalOffset (stream_fc s)"
    unfolding fc by (simp_all add: addBytesRead_def)
  have "rs_readPos s + int (length d) \<le> highestReceived (stream_fc s)"
    using len D(6) queued_received [OF core_okD(1,2) [OF core]] by linarith
  then have "bytesRead (stream_fc (after_copy d s)) \<le> highestReceived (stream_fc s)"
    "\<not> isRemoteCancellationEffective (after_copy d s) \<longrightarrow> bytesRead (stream_fc (after_copy d s)) = rs_readPos s + int (length d)"
    "isRemoteCancellationEffective (after_copy d s) \<longrightarrow> bytesRead (stream_fc (after_copy d s)) = highestReceived (stream_fc s)"
    unfolding fc using F(7) [OF nr] by (simp_all add: addBytesRead_def)
  then show "flow_inv fs (after_copy d s)"
    using F nr(1) by (simp add: flow_inv_def hr eof_at_def)
qed

lemma copied_data:
  assumes core: "core_ok f fs s" and d: "d = take k (rest s)" and "rest (after_copy d s) \<noteq> [] \<or> \<not> currentFrameIsLast s"
  shows "data_ok f fs (after_copy d s)"
proof -
  note D = data_okD [OF core_okD(1) [OF core]] and r = rest_after_copy [OF d]
  have len: "length d \<le> length (rest s)" by (simp add: d)
  have end_eq: "at_end (after_copy d s) \<longleftrightarrow> at_end s" "pending_cb (after_copy d s) = pending_cb s" by (simp_all add: at_end_def pending_cb_def)
  have "at_end s \<or> readPosInFrame (after_copy d s) \<le> length (current_bytes s)" using D(8) len by (auto simp: rest_def)
  then show ?thesis
    unfolding data_ok_def end_eq r using D assms(3) len agrees_drop [OF D(7) len] r by auto
qed

lemma copied_life:
  assumes "core_ok f fs s" and "can_read s"
  shows "life_ok (after_copy d s)"
  using core_okD(3) [OF assms(1)] assms(2) by (auto simp: life_ok_def can_read_def at_end_def uncredited_def)

lemma copied_end:
  assumes core: "core_ok f fs s" and "can_read s" and d: "d = take k (rest s)" and "rest (after_copy d s) = []" and last: "currentFrameIsLast s"
    and u: "u = (frame_done ((after_copy d s)\<lparr>currentFrame := None\<rparr>))\<lparr>errorRead := True\<rparr>"
  shows "core_ok f fs u" "at_end u" "rs_readPos u = rs_readPos s + int (length d)"
proof -
  note D = data_okD [OF core_okD(1) [OF core]] and r = rest_after_copy [OF d] and F = copied_flow [OF core assms(2) d]
  have dr: "d = rest s" using assms(4) r F(2) d by simp
  show end_u: "at_end u" "rs_readPos u = rs_readPos s + int (length d)" by (simp_all add: u at_end_def last)
  have fields: "frameQueue u = frameQueue s" "rest u = []" "released u = released s @ (case currentFrameDone s of None \<Rightarrow> [] | Some c \<Rightarrow> [c])"
    "currentFrame u = None" "flowController u = flowController (after_copy d s)"
    by (simp_all add: u rest_def current_bytes_def)
  have "currentFrame s = None \<longrightarrow> currentFrameDone s = None" using core_okD(3) [OF core] assms(2) by (simp add: life_ok_def can_read_def)
  then have "mset (released u) + pending_cb u = mset (released s) + pending_cb s"
    using end_u(1) by (auto simp: fields(3) pending_cb_def cb_set_mset at_end_def)
  then have "tokens (frameQueue u) + mset (released u) + pending_cb u = mset (concat (map event_cb fs))" using D(4) fields(1) by (simp add: add.assoc)
  then have "data_ok f fs u" unfolding data_ok_def using D end_u fields dr by (auto simp: agrees_def)
  moreover have "flow_inv fs u" using F(1) by (auto simp: flow_inv_def u eof_at_def isRemoteCancellationEffective_def)
  moreover have "life_ok u" using copied_life [OF core assms(2), of d] end_u(1) assms(2)
    by (auto simp: life_ok_def u uncredited_def isRemoteCancellationEffective_def)
  ultimately show "core_ok f fs u" by (simp add: core_ok_def)
qed

text \<open>What reading leaves alone.\<close>

definition kept :: "ReceiveStream \<Rightarrow> ReceiveStream \<Rightarrow> bool" where
  "kept s s' \<longleftrightarrow> finalOffset s' = finalOffset s \<and> completed s' = completed s \<and> cancelledRemotely s' = cancelledRemotely s \<and>
     cancelledLocally s' = cancelledLocally s \<and> cancelErr s' = cancelErr s \<and> closeForShutdownErr s' = closeForShutdownErr s \<and>
     reliableSize s' = reliableSize s \<and> readChan s' = readChan s \<and> rs_deadline s' = rs_deadline s \<and> sender_calls s' = sender_calls s \<and>
     rs_streamID s' = rs_streamID s \<and> highestReceived (stream_fc s') = highestReceived (stream_fc s) \<and> (errorRead s \<longrightarrow> errorRead s')"

lemma kept_refl [simp]: "kept s s"
  by (simp add: kept_def)

lemma kept_trans: "kept s t \<Longrightarrow> kept t u \<Longrightarrow> kept s u"
  by (simp add: kept_def)

lemma kept_dequeue [simp]: "kept s (dequeueNextFrame s)"
  by (simp add: kept_def)

lemma kept_errorRead: "kept s t \<Longrightarrow> kept s (t\<lparr>errorRead := True\<rparr>)"
  by (simp add: kept_def)

lemma core_errorRead:
  assumes "core_ok f fs s" and "cancelledLocally s \<or> isRemoteCancellationEffective s \<or> at_end s"
  shows "core_ok f fs (s\<lparr>errorRead := True\<rparr>)"
proof -
  have "data_ok f fs (s\<lparr>errorRead := True\<rparr>) \<longleftrightarrow> data_ok f fs s"
    by (simp add: data_ok_def rest_def current_bytes_def at_end_def pending_cb_def)
  moreover have "flow_inv fs (s\<lparr>errorRead := True\<rparr>) \<longleftrightarrow> flow_inv fs s"
    by (simp add: flow_inv_def eof_at_def isRemoteCancellationEffective_def)
  moreover have "life_ok (s\<lparr>errorRead := True\<rparr>)"
    using core_okD(3) [OF assms(1)] assms(2) by (auto simp: life_ok_def isRemoteCancellationEffective_def at_end_def uncredited_def)
  ultimately show ?thesis using assms(1) by (simp add: core_ok_def)
qed

text \<open>The outcome of a turn; \<open>out\<close> is what earlier calls returned.\<close>

definition returns_ok :: "(int \<Rightarrow> byte) \<Rightarrow> sorter_event list \<Rightarrow> byte list \<Rightarrow> byte list \<Rightarrow> ReceiveStream \<Rightarrow> ReceiveStream \<Rightarrow> bool" where
  "returns_ok f fs out got s s' \<longleftrightarrow> core_ok f fs s' \<and> kept s s' \<and> out @ got = first_bytes f (rs_readPos s')"

definition err_ok :: "stream_err option \<Rightarrow> ReceiveStream \<Rightarrow> bool" where
  "err_ok e s \<longleftrightarrow> e \<noteq> Some NilError \<and> e \<noteq> Some ReadBug \<and> (e = Some io_EOF \<longrightarrow> at_end s)"

definition has_error :: "ReceiveStream \<Rightarrow> bool" where
  "has_error s \<longleftrightarrow> (cancelledLocally s \<or> cancelledRemotely s \<longrightarrow> cancelErr s \<noteq> None)"

lemma cancel_error_ok:
  assumes "core_ok f fs s" and "has_error s" and "cancelledLocally s \<or> isRemoteCancellationEffective s"
  shows "err_ok (Some (cancel_error s)) t"
proof -
  have "cancelErr s \<noteq> None" using assms(2,3) by (auto simp: has_error_def isRemoteCancellationEffective_def)
  then obtain e where e: "cancelErr s = Some e" "is_StreamError e"
    using core_okD(3) [OF assms(1)] by (auto simp: life_ok_def pred_option_iff)
  then show ?thesis by (cases e) (simp_all add: err_ok_def cancel_error_def)
qed

definition turn_post :: "(int \<Rightarrow> byte) \<Rightarrow> sorter_event list \<Rightarrow> byte list \<Rightarrow> ReceiveStream \<Rightarrow> turn_outcome \<times> ReceiveStream \<Rightarrow> bool" where
  "turn_post f fs out s r \<longleftrightarrow> (case r of
     (TurnStops (hs, hc, got) e, s') \<Rightarrow> returns_ok f fs out got s s' \<and> err_ok (Some e) s'
   | (TurnWaits, s') \<Rightarrow> s' = s \<and> closeForShutdownErr s = None \<and> \<not> cancelledLocally s \<and> \<not> isRemoteCancellationEffective s \<and>
       currentFrame s = None \<and> \<not> currentFrameIsLast s
   | (TurnGoes (hs, hc, got), s') \<Rightarrow> returns_ok f fs out got s s' \<and> \<not> at_end s' \<and> \<not> cancelledLocally s' \<and> \<not> errorRead s')"

lemma read_copy_ok:
  assumes core: "core_ok f fs s" and can: "can_read s" and out: "out @ got = first_bytes f (rs_readPos s)"
  shows "turn_post f fs out s (read_copy n (hs, hc, got) s)"
proof -
  define d where "d = read_chunk n got s"
  have d: "d = take (n - length got) (rest s)" by (simp add: d_def read_chunk_def rest_def)
  define t where "t = after_copy d s"
  note D = data_okD [OF core_okD(1) [OF core]]
  have bytes: "out @ got @ d = first_bytes f (rs_readPos s + int (length d))"
    unfolding append_assoc [symmetric] out d by (rule first_bytes_append [OF D(5) agrees_take [OF D(7)]])
  have kept: "kept s t" using copied_flow(3) [OF core can d] by (simp add: kept_def t_def)
  have over: "readPosInFrame t \<ge> length (current_bytes t) \<longleftrightarrow> rest t = []" by (simp add: rest_def)
  obtain hs' hc' where eq: "read_copy n (hs, hc, got) s =
     (if rest t = [] \<and> currentFrameIsLast s
      then (TurnStops (hs', hc', got @ d) io_EOF, (frame_done (t\<lparr>currentFrame := None\<rparr>))\<lparr>errorRead := True\<rparr>)
      else (TurnGoes (hs', hc', got @ d), t))"
    using read_copy_eq [of n hs hc got s, unfolded Let_def d_def [symmetric] t_def [symmetric] over] by (auto simp: t_def)
  show ?thesis
  proof (cases "rest t = [] \<and> currentFrameIsLast s")
    case True
    define u where "u = (frame_done (t\<lparr>currentFrame := None\<rparr>))\<lparr>errorRead := True\<rparr>"
    note E = copied_end [OF core can d _ _ u_def [unfolded t_def]]
    have "kept s u" using kept by (simp add: u_def kept_def)
    with True E show ?thesis unfolding eq u_def [symmetric] using bytes by (simp add: turn_post_def returns_ok_def err_ok_def t_def)
  next
    case False
    then have "data_ok f fs t" using copied_data [OF core d] by (auto simp: t_def)
    then have "core_ok f fs t" using copied_flow(1) [OF core can d] copied_life [OF core can, of d] by (simp add: core_ok_def t_def)
    moreover have "\<not> at_end t" using False by (auto simp: at_end_def rest_def current_bytes_def t_def split: option.splits)
    ultimately show ?thesis using False can bytes kept unfolding eq by (auto simp: turn_post_def returns_ok_def can_read_def t_def)
  qed
qed

lemma read_turn_ok:
  assumes core: "core_ok f fs s" and out: "out @ got = first_bytes f (rs_readPos s)" and "length got \<le> n" and "has_error s"
    and err: "errorRead s \<Longrightarrow> cancelledLocally s \<or> isRemoteCancellationEffective s" and pos: "readPosInFrame s \<le> length (current_bytes s)"
  shows "turn_post f fs out s (read_turn n now (hs, hc, got) s)"
proof (cases "closeForShutdownErr s = None \<and> \<not> (cancelledLocally s \<or> isRemoteCancellationEffective s)")
  case True
  then have "can_read s" using err by (auto simp: can_read_def)
  from read_copy_ok [OF core this out] True assms(3) pos core out show ?thesis
    by (auto simp: read_turn_def turn_post_def returns_ok_def err_ok_def)
next
  case False
  then show ?thesis
    using core out cancel_error_ok [OF core assms(4)] core_errorRead [OF core]
    by (auto simp: read_turn_def turn_post_def returns_ok_def kept_errorRead err_ok_def split: option.split)
qed

text \<open>A call of \<open>Read\<close> waits only when there is nothing that it could return.\<close>

definition nothing_to_read :: "ReceiveStream \<Rightarrow> bool" where
  "nothing_to_read s \<longleftrightarrow> closeForShutdownErr s = None \<and> \<not> cancelledLocally s \<and> \<not> isRemoteCancellationEffective s \<and>
     currentFrame s = None \<and> \<not> currentFrameIsLast s \<and> map_of (queue (frameQueue s)) (readPos (frameQueue s)) = None \<and>
     (readPos (frameQueue s) < finalOffset s \<or> cancelledRemotely s)"

definition read_post :: "(int \<Rightarrow> byte) \<Rightarrow> sorter_event list \<Rightarrow> byte list \<Rightarrow> ReceiveStream \<Rightarrow> read_outcome \<times> ReceiveStream \<Rightarrow> bool" where
  "read_post f fs out s r \<longleftrightarrow> (case r of
     (ReadDone (hs, hc, got) e, s') \<Rightarrow> returns_ok f fs out got s s' \<and> err_ok e s'
   | (ReadWaits (hs, hc, got), s') \<Rightarrow> got = [] \<and> returns_ok f fs out [] s s' \<and> nothing_to_read s')"

lemma read_post_kept: "kept s t \<Longrightarrow> read_post f fs out t r \<Longrightarrow> read_post f fs out s r"
  by (auto simp: read_post_def returns_ok_def dest: kept_trans split: prod.splits read_outcome.splits)

lemma frame_over_last: "data_ok f fs s \<Longrightarrow> frame_over s \<Longrightarrow> \<not> at_end s \<Longrightarrow> \<not> currentFrameIsLast s"
  using data_okD(9) [of f fs s] by (auto simp: frame_over_def at_end_def rest_def)

text \<open>The next frame, if the current one is over.\<close>

lemma next_frame:
  assumes core: "core_ok f fs s" and "\<not> at_end s" and t: "t = (if frame_over s then dequeueNextFrame s else s)"
  shows "core_ok f fs t" "kept s t" "readPosInFrame t \<le> length (current_bytes t)" "rs_readPos t = rs_readPos s" "errorRead t = errorRead s"
    "isRemoteCancellationEffective t = isRemoteCancellationEffective s"
    "currentFrame t = None \<Longrightarrow> \<not> currentFrameIsLast t \<Longrightarrow>
       map_of (queue (frameQueue t)) (readPos (frameQueue t)) = None \<and> (readPos (frameQueue t) < finalOffset t \<or> cancelledRemotely t)"
    "frame_over t \<longleftrightarrow> currentFrame t = None"
proof -
  note D = data_okD [OF core_okD(1) [OF core]] and E = dequeue_core [OF core _ frame_over_last [OF core_okD(1) [OF core] _ assms(2)]]
  show "core_ok f fs t" using E(1) core by (simp add: t)
  show "kept s t" "rs_readPos t = rs_readPos s" "errorRead t = errorRead s" by (simp_all add: t)
  show "isRemoteCancellationEffective t = isRemoteCancellationEffective s" by (simp add: t isRemoteCancellationEffective_def)
  show "readPosInFrame t \<le> length (current_bytes t)" using D(8) assms(2) by (simp add: t)
  show "frame_over t \<longleftrightarrow> currentFrame t = None" using E(2) by (simp add: t frame_over_def)
  assume none: "currentFrame t = None" "\<not> currentFrameIsLast t"
  then have over: "frame_over s" by (auto simp: t frame_over_def split: if_splits)
  have q: "frameQueue t = frameQueue s" using E(6) over none(1) by (simp add: t)
  have "readPos (frameQueue s) < finalOffset s \<or> cancelledRemotely s"
    using none over by (auto simp: t dequeueNextFrame_def Pop_def split: option.splits)
  then show "map_of (queue (frameQueue t)) (readPos (frameQueue t)) = None \<and> (readPos (frameQueue t) < finalOffset t \<or> cancelledRemotely t)"
    using E(3) over none(1) unfolding q by (simp add: t)
qed

lemma turn_waits:
  assumes "turn_post f fs out t (TurnWaits, s')" and "core_ok f fs t" and "out = first_bytes f (rs_readPos t)"
    and "currentFrame t = None \<Longrightarrow> \<not> currentFrameIsLast t \<Longrightarrow>
       map_of (queue (frameQueue t)) (readPos (frameQueue t)) = None \<and> (readPos (frameQueue t) < finalOffset t \<or> cancelledRemotely t)"
  shows "read_post f fs out t (ReadWaits (hs, hc, []), s')"
  using assms by (auto simp: turn_post_def read_post_def returns_ok_def nothing_to_read_def)

lemma read_loop_ok:
  assumes "core_ok f fs s" and "\<not> at_end s" and "\<not> cancelledLocally s" and "\<not> errorRead s" and "has_error s"
    and "case sofar of (hs, hc, got) \<Rightarrow> out @ got = first_bytes f (rs_readPos s) \<and> length got \<le> n"
  shows "read_post f fs out s (read_loop n clock sofar s)"
  using assms
proof (induction n clock sofar s rule: read_loop.induct)
  case (1 n clock sofar s)
  obtain hs hc got where sofar: "sofar = (hs, hc, got)" by (cases sofar)
  have got: "out @ got = first_bytes f (rs_readPos s)" "length got \<le> n" using "1.prems"(6) by (simp_all add: sofar)
  show ?case
  proof (cases "length got < n")
    case False
    then have eq: "read_loop n clock sofar s = (if isRemoteCancellationEffective s
        then (ReadDone sofar (Some (cancel_error s)), s\<lparr>errorRead := True\<rparr>) else (ReadDone sofar None, s))"
      by (simp add: sofar read_loop.simps [of n clock "(hs, hc, got)" s])
    show ?thesis
      unfolding eq using "1.prems"(1) got(1) cancel_error_ok [OF "1.prems"(1,5)] core_errorRead [OF "1.prems"(1)]
      by (auto simp: sofar read_post_def returns_ok_def kept_errorRead err_ok_def)
  next
    case True
    define t where "t = (if frame_over s then dequeueNextFrame s else s)"
    note N = next_frame [OF "1.prems"(1,2) t_def]
    have out: "out @ got = first_bytes f (rs_readPos t)" using got N(4) by simp
    have err: "has_error t" using "1.prems"(5) N(2) by (simp add: has_error_def kept_def)
    note T = read_turn_ok [OF N(1) out got(2) err _ N(3), of "clock (length got)" hs hc]
    show ?thesis
    proof (cases "currentFrame t = None \<and> got \<noteq> []")
      case True
      then show ?thesis
        using \<open>length got < n\<close> N(1,2) out
        by (simp add: sofar read_loop.simps [of n clock "(hs, hc, got)" s] t_def [symmetric] read_post_def returns_ok_def err_ok_def)
    next
      case False
      have tp: "turn_post f fs out t (read_turn n (clock (length got)) sofar t)" using T N(5) "1.prems"(4) by (simp add: sofar)
      have eq: "read_loop n clock sofar s = (case read_turn n (clock (length got)) sofar t of
               (TurnStops sofar' e, s') \<Rightarrow> (ReadDone sofar' (Some e), s')
             | (TurnWaits, s') \<Rightarrow> (ReadWaits sofar, s')
             | (TurnGoes sofar', s') \<Rightarrow> read_loop n clock sofar' s')"
        unfolding sofar using \<open>length got < n\<close> False by (auto simp: read_loop.simps [of n clock "(hs, hc, got)" s] t_def [symmetric] Let_def)
      have "read_post f fs out t (read_loop n clock sofar s)"
      proof (cases "read_turn n (clock (length got)) sofar t")
        case (Pair o' s')
        show ?thesis
        proof (cases o')
          case (TurnGoes sofar')
          obtain hs' hc' got' where a: "sofar' = (hs', hc', got')" by (cases sofar')
          have turn: "read_turn n (clock (length got)) (hs, hc, got) t = (TurnGoes (hs', hc', got'), s')" using Pair TurnGoes a sofar by simp
          have "length got' \<le> n" using read_copy_progress(2) [OF read_turn_goes(1) [OF turn]] got(2) by (simp add: read_chunk_def)
          moreover have post: "returns_ok f fs out got' t s'" "\<not> at_end s'" "\<not> cancelledLocally s'" "\<not> errorRead s'"
            using tp Pair TurnGoes a by (simp_all add: turn_post_def)
          moreover have "has_error s'" using post(1) err by (simp add: returns_ok_def has_error_def kept_def)
          ultimately have "read_post f fs out s' (read_loop n clock sofar' s')"
            using "1.IH" [OF sofar [symmetric] refl True t_def False Pair [symmetric] TurnGoes] by (simp add: a returns_ok_def)
          moreover have "kept t s'" using post(1) by (simp add: returns_ok_def)
          ultimately show ?thesis using read_post_kept Pair TurnGoes by (simp add: eq)
        next
          case TurnWaits
          then have r: "read_loop n clock sofar s = (ReadWaits sofar, s')" using Pair by (simp add: eq)
          have "got = []" using False tp Pair TurnWaits by (simp add: turn_post_def)
          then show ?thesis using Pair TurnWaits tp N(1,7) out turn_waits [of f fs out t s' hs hc] unfolding r unfolding sofar by simp
        next
          case (TurnStops sofar' e)
          with Pair tp show ?thesis by (simp add: eq turn_post_def read_post_def split: prod.splits)
        qed
      qed
      then show ?thesis using read_post_kept [OF N(2)] by blast
    qed
  qed
qed


lemma has_error_core: "core_ok f fs s \<Longrightarrow> \<not> at_end s \<Longrightarrow> has_error s"
  by (simp add: core_ok_def life_ok_def has_error_def)

lemma readImpl_ok:
  assumes core: "core_ok f fs s" and out: "out = first_bytes f (rs_readPos s)"
  shows "read_post f fs out s (readImpl n clock s)"
proof -
  consider (eof) "at_end s" | (cancelled) "\<not> at_end s" "cancelledLocally s \<or> isRemoteCancellationEffective s"
    | (shutdown) e where "\<not> at_end s" "\<not> (cancelledLocally s \<or> isRemoteCancellationEffective s)" "closeForShutdownErr s = Some e"
    | (loop) "\<not> at_end s" "\<not> (cancelledLocally s \<or> isRemoteCancellationEffective s)" "closeForShutdownErr s = None"
    by (cases "closeForShutdownErr s") blast+
  then show ?thesis
  proof cases
    case eof
    then have "readImpl n clock s = (ReadDone (False, False, []) (Some io_EOF), s\<lparr>errorRead := True\<rparr>)" by (simp add: readImpl_def at_end_def)
    then show ?thesis
      using out core_errorRead [OF core] eof by (simp add: read_post_def returns_ok_def kept_errorRead err_ok_def) (simp add: at_end_def)
  next
    case cancelled
    then have "readImpl n clock s = (ReadDone (False, False, []) (Some (cancel_error s)), s\<lparr>errorRead := True\<rparr>)"
      by (auto simp: readImpl_def at_end_def)
    then show ?thesis
      using out core_errorRead [OF core] cancelled cancel_error_ok [OF core has_error_core [OF core]]
      by (simp add: read_post_def returns_ok_def kept_errorRead)
  next
    case shutdown
    then have "readImpl n clock s = (ReadDone (False, False, []) (Some (ShutdownError e)), s)" by (auto simp: readImpl_def at_end_def)
    then show ?thesis using out core by (simp add: read_post_def returns_ok_def err_ok_def)
  next
    case loop
    then have "\<not> errorRead s" using core_okD(3) [OF core] by (auto simp: life_ok_def)
    then have "read_post f fs out s (read_loop n clock (False, False, []) s)"
      using loop core has_error_core [OF core] out by (intro read_loop_ok) simp_all
    moreover have "readImpl n clock s = read_loop n clock (False, False, []) s" using loop by (auto simp: readImpl_def at_end_def)
    ultimately show ?thesis by simp
  qed
qed

lemma read_wake_ok:
  assumes core: "core_ok f fs s" and "currentFrame s = None" "\<not> currentFrameIsLast s" and out: "out = first_bytes f (rs_readPos s)"
  shows "read_post f fs out s (read_wake n clock (hs, hc, []) s)"
proof -
  have over: "frame_over s" "\<not> at_end s" using assms(2,3) by (simp_all add: frame_over_def at_end_def)
  define t where "t = dequeueNextFrame s"
  have t: "t = (if frame_over s then dequeueNextFrame s else s)" using over by (simp add: t_def)
  note N = next_frame [OF core over(2) t]
  have err: "has_error t" using has_error_core [OF core over(2)] by (simp add: has_error_def t_def)
  have "errorRead t \<longrightarrow> cancelledLocally t \<or> isRemoteCancellationEffective t"
    using core_okD(3) [OF core] over(2) N(5,6) by (auto simp: life_ok_def t_def)
  then have tp: "turn_post f fs out t (read_turn n (clock 0) (hs, hc, []) t)"
    using read_turn_ok [OF N(1) _ _ err _ N(3), of out "[]"] out N(4) by simp
  have "read_post f fs out t (read_wake n clock (hs, hc, []) s)"
  proof (cases "read_turn n (clock 0) (hs, hc, []) t")
    case (Pair o' s')
    show ?thesis
    proof (cases o')
      case (TurnGoes sofar')
      obtain hs' hc' got' where a: "sofar' = (hs', hc', got')" by (cases sofar')
      have turn: "read_turn n (clock 0) (hs, hc, []) t = (TurnGoes (hs', hc', got'), s')" using Pair TurnGoes a by simp
      have len: "length got' \<le> n" using read_copy_progress(2) [OF read_turn_goes(1) [OF turn]] by (simp add: read_chunk_def)
      have post: "returns_ok f fs out got' t s'" "\<not> at_end s'" "\<not> cancelledLocally s'" "\<not> errorRead s'"
        using tp Pair TurnGoes a by (simp_all add: turn_post_def)
      have "has_error s'" using post(1) err by (simp add: returns_ok_def has_error_def kept_def)
      then have "read_post f fs out s' (read_loop n clock sofar' s')" using read_loop_ok post len by (simp add: a returns_ok_def)
      moreover have "kept t s'" using post(1) by (simp add: returns_ok_def)
      ultimately show ?thesis using read_post_kept Pair TurnGoes by (simp add: read_wake_def t_def)
    next
      case TurnWaits
      with Pair tp N(1,4,7) turn_waits [of f fs out t s' hs hc] out show ?thesis by (simp add: read_wake_def t_def)
    next
      case (TurnStops sofar' e)
      with Pair tp show ?thesis by (simp add: read_wake_def t_def turn_post_def read_post_def split: prod.splits)
    qed
  qed
  then show ?thesis using read_post_kept [OF N(2)] by blast
qed

end
