(* ===== verification/Quic_Streams.thy ===== *)
theory Quic_Streams
  imports Quic_Delivery
begin

text \<open>
  What a receiving stream guarantees, over any sequence of frames, resets, calls of the application and wake-ups: the bytes
  that are read and peeked, the flow-control credit that is given back, and that a waiting reader is woken.
\<close>

section \<open>Peeking\<close>

lemma covered_arrived:
  assumes "data_ok f fs s" and "readPos (frameQueue s) \<le> p" and "covers (queue (frameQueue s)) p"
  shows "arrived fs p"
proof -
  note S = data_okD(1) [OF assms(1)]
  obtain k e where "(k, e) \<in> set (queue (frameQueue s))" "p < k + elen e" using assms(3) by (auto simp: covers_def)
  then have "p < MaxByteCount" using sorter_okD(10) [OF S] by fastforce
  then show ?thesis
    using sorter_okD(3,12) [OF S] data_okD(3) [OF assms(1), of p] assms(2,3) by auto
qed

text \<open>What can be peeked behind the current frame.\<close>

lemma queue_peek:
  assumes "data_ok f fs s" and "flow_inv fs s" and "0 < k"
  shows "\<exists>r. Peek (readPos (frameQueue s)) k (frameQueue s) = Some r \<and>
    (case r of Inl e \<Rightarrow> True
     | Inr d \<Rightarrow> length d = k \<and> agrees f (readPos (frameQueue s)) d \<and> readPos (frameQueue s) + int k \<le> highestReceived (stream_fc s))"
proof -
  let ?p = "readPos (frameQueue s)"
  note S = data_okD(1) [OF assms(1)]
  have "no_straddle (queue (frameQueue s)) ?p" using sorter_okD(9) [OF S] by (force simp: no_straddle_def)
  from Peek_exact [OF S this, of k] obtain r where r: "Peek ?p k (frameQueue s) = Some r"
    and ex: "if \<forall>p. ?p \<le> p \<longrightarrow> p < ?p + int k \<longrightarrow> covers (queue (frameQueue s)) p
      then \<exists>d. r = Inr d \<and> length d = k \<and> agrees f ?p d else r = Inl errTooLittleData" by blast
  show ?thesis
  proof (cases "\<forall>p. ?p \<le> p \<longrightarrow> p < ?p + int k \<longrightarrow> covers (queue (frameQueue s)) p")
    case True
    then have "covers (queue (frameQueue s)) (?p + int k - 1)" using assms(3) by simp
    then have "?p + int k \<le> highestReceived (stream_fc s)"
      using covered_arrived [OF assms(1)] flow_invD(1) [OF assms(2), of "?p + int k - 1"] assms(3) by fastforce
    then show ?thesis using r ex True by auto
  qed (use r ex in auto)
qed

lemma rest_peek:
  assumes "data_ok f fs s" and "flow_inv fs s"
  shows "\<exists>r. peek_rest (readPos (frameQueue s)) k s = Some r \<and>
    (case r of None \<Rightarrow> True
     | Some d \<Rightarrow> length d = nat k \<and> agrees f (readPos (frameQueue s)) d \<and> readPos (frameQueue s) + int (nat k) \<le> highestReceived (stream_fc s))"
proof (cases "k \<le> 0")
  case True
  then show ?thesis using queued_received [OF assms] by (simp add: peek_rest_def agrees_def)
next
  case False
  then obtain r where r: "Peek (readPos (frameQueue s)) (nat k) (frameQueue s) = Some r" and
    rd: "case r of Inl e \<Rightarrow> True
     | Inr d \<Rightarrow> length d = nat k \<and> agrees f (readPos (frameQueue s)) d \<and> readPos (frameQueue s) + int (nat k) \<le> highestReceived (stream_fc s)"
    using queue_peek [OF assms, of "nat k"] by auto
  then show ?thesis using False by (cases r) (simp_all add: peek_rest_def)
qed

definition peek_ok :: "(int \<Rightarrow> byte) \<Rightarrow> ReceiveStream \<Rightarrow> byte list \<Rightarrow> stream_err option \<Rightarrow> bool" where
  "peek_ok f s d e \<longleftrightarrow> agrees f (rs_readPos s) d \<and> e \<noteq> Some NilError \<and> e \<noteq> Some ReadBug \<and>
     (e = Some io_EOF \<longrightarrow> eof_at s (rs_readPos s + int (length d)))"

text \<open>Peeking up to the end of what will be delivered.\<close>

definition peek_upto :: "nat \<Rightarrow> ReceiveStream \<Rightarrow> int \<Rightarrow> stream_err \<Rightarrow> peek_outcome option option \<Rightarrow> peek_outcome option option" where
  "peek_upto n s limit e otherwise =
     (if rs_readPos s + int n > limit then
        (let total = limit - rs_readPos s in
         Option.bind (peek_rest (rs_readPos s + int (length (rest s))) (total - int (length (rest s))) s) (\<lambda>r.
           case r of Some d \<Rightarrow> Some (Some (PeekDone (take (nat total) (rest s @ d)) (Some e))) | None \<Rightarrow> otherwise))
      else otherwise)"

lemma peek_beyond_eq:
  "peek_beyond n s = Option.bind (Peek (rs_readPos s + int (length (rest s))) (n - length (rest s)) (frameQueue s)) (\<lambda>r.
     case r of Inr d \<Rightarrow> Some (Some (PeekDone (rest s @ d) None))
     | Inl _ \<Rightarrow>
         if currentFrameIsLast s then Some (Some (PeekDone (rest s) (Some io_EOF)))
         else if cancelledRemotely s then peek_upto n s (reliableSize s) (cancel_error s) (peek_upto n s (finalOffset s) io_EOF (Some None))
         else peek_upto n s (finalOffset s) io_EOF (Some None))"
  by (simp add: peek_beyond_def Let_def rest_def [symmetric] peek_upto_def)

definition peeked_ok :: "(int \<Rightarrow> byte) \<Rightarrow> ReceiveStream \<Rightarrow> peek_outcome option option \<Rightarrow> bool" where
  "peeked_ok f s r \<longleftrightarrow> (case r of Some (Some (PeekDone d e)) \<Rightarrow> peek_ok f s d e | Some None \<Rightarrow> True | _ \<Rightarrow> False)"

lemma peek_upto_ok:
  assumes "data_ok f fs s" and "flow_inv fs s" and "rs_readPos s \<le> limit" and "e \<noteq> NilError" "e \<noteq> ReadBug"
    and "e = io_EOF \<Longrightarrow> limit = finalOffset s" and "peeked_ok f s otherwise"
  shows "peeked_ok f s (peek_upto n s limit e otherwise)"
proof -
  note D = data_okD [OF assms(1)]
  define k where "k = limit - rs_readPos s - int (length (rest s))"
  obtain r where r: "peek_rest (readPos (frameQueue s)) k s = Some r" and
    rd: "case r of None \<Rightarrow> True | Some d \<Rightarrow> length d = nat k \<and> agrees f (readPos (frameQueue s)) d \<and> readPos (frameQueue s) + int (nat k) \<le> highestReceived (stream_fc s)"
    using rest_peek [OF assms(1,2)] by blast
  have eq: "peek_upto n s limit e otherwise = (if rs_readPos s + int n > limit then
      (case r of Some d \<Rightarrow> Some (Some (PeekDone (take (nat (limit - rs_readPos s)) (rest s @ d)) (Some e))) | None \<Rightarrow> otherwise) else otherwise)"
    using r D(6) by (simp add: peek_upto_def Let_def k_def del: take_append)
  have "peek_ok f s (take (nat (limit - rs_readPos s)) (rest s @ d)) (Some e)" if d: "r = Some d" for d
  proof -
    have rd: "length d = nat k" "agrees f (readPos (frameQueue s)) d" "readPos (frameQueue s) + int (nat k) \<le> highestReceived (stream_fc s)"
      using rd d by simp_all
    define w where "w = take (nat (limit - rs_readPos s)) (rest s @ d)"
    have "agrees f (rs_readPos s) w" unfolding w_def using D(6,7) rd(2) by (intro agrees_take) (simp add: agrees_append)
    moreover have "int (length w) = limit - rs_readPos s" unfolding w_def using rd(1) assms(3) by (simp add: k_def)
    moreover have "limit \<le> highestReceived (stream_fc s)" using rd(3) D(6) by (simp add: k_def split: if_splits)
    ultimately show ?thesis using assms(4-6) unfolding w_def [symmetric] by (auto simp: peek_ok_def eof_at_def)
  qed
  then show ?thesis using assms(7) unfolding eq by (auto simp: peeked_ok_def split: option.split)
qed

lemma peek_beyond_ok:
  assumes "core_ok f fs s" and "\<not> frame_over s" and "length (rest s) < n" and "\<not> isRemoteCancellationEffective s" and "has_error s"
  shows "peeked_ok f s (peek_beyond n s)"
proof -
  note C = core_okD [OF assms(1)] and D = data_okD [OF core_okD(1) [OF assms(1)]] and F = flow_invD [OF core_okD(2) [OF assms(1)]]
  have "0 < n - length (rest s)" using assms(3) by simp
  from queue_peek [OF C(1,2) this] obtain r where r: "Peek (readPos (frameQueue s)) (n - length (rest s)) (frameQueue s) = Some r" and
    rd: "case r of Inl e \<Rightarrow> True | Inr d \<Rightarrow> length d = n - length (rest s) \<and> agrees f (readPos (frameQueue s)) d \<and>
      readPos (frameQueue s) + int (n - length (rest s)) \<le> highestReceived (stream_fc s)"
    by blast
  have recv: "readPos (frameQueue s) \<le> highestReceived (stream_fc s)" using queued_received [OF C(1,2)] .
  have pos: "rs_readPos s \<le> finalOffset s" using recv D(6) F(3,4) by (simp split: if_splits)
  have final: "peeked_ok f s (peek_upto n s (finalOffset s) io_EOF (Some None))"
    using peek_upto_ok [OF C(1,2) pos, of io_EOF "Some None" n] by (simp add: peeked_ok_def)
  have remote: "peeked_ok f s (peek_upto n s (reliableSize s) (cancel_error s) (peek_upto n s (finalOffset s) io_EOF (Some None)))" if cr: "cancelledRemotely s"
  proof -
    obtain x where x: "cancelErr s = Some x" using assms(5) cr by (auto simp: has_error_def)
    have "pred_option is_StreamError (cancelErr s)" using C(3) by (simp only: life_ok_def)
    with x have "is_StreamError x" by simp
    moreover have "rs_readPos s \<le> reliableSize s" using assms(4) cr by (simp add: isRemoteCancellationEffective_def)
    moreover have "cancel_error s = x" "x \<noteq> NilError" "x \<noteq> ReadBug" "x \<noteq> io_EOF"
      using x \<open>is_StreamError x\<close> by (auto simp: cancel_error_def)
    ultimately show ?thesis by (intro peek_upto_ok [OF C(1,2) _ _ _ _ final]) simp_all
  qed
  show ?thesis
  proof (cases r)
    case (Inl e)
    then have eq: "peek_beyond n s = (if currentFrameIsLast s then Some (Some (PeekDone (rest s) (Some io_EOF)))
         else if cancelledRemotely s then peek_upto n s (reliableSize s) (cancel_error s) (peek_upto n s (finalOffset s) io_EOF (Some None))
         else peek_upto n s (finalOffset s) io_EOF (Some None))"
      using r D(6) by (simp add: peek_beyond_eq)
    show ?thesis
    proof (cases "currentFrameIsLast s")
      case True
      then show ?thesis using F(5) D(6,7) by (simp add: eq peeked_ok_def peek_ok_def)
    qed (use final remote in \<open>simp add: eq\<close>)
  next
    case (Inr d)
    then have "peek_beyond n s = Some (Some (PeekDone (rest s @ d) None))" using r D(6) by (simp add: peek_beyond_eq)
    then show ?thesis using rd Inr D(6,7) by (simp add: peeked_ok_def peek_ok_def agrees_append)
  qed
qed

text \<open>A call of \<open>Peek\<close> waits only when it could not return.\<close>

definition nothing_to_peek :: "nat \<Rightarrow> ReceiveStream \<Rightarrow> bool" where
  "nothing_to_peek n s \<longleftrightarrow> closeForShutdownErr s = None \<and> \<not> cancelledLocally s \<and> \<not> isRemoteCancellationEffective s \<and>
     \<not> currentFrameIsLast s \<and> rs_readPos s < finalOffset s \<and>
     (if frame_over s then currentFrame s = None \<and> map_of (queue (frameQueue s)) (readPos (frameQueue s)) = None \<and>
        (readPos (frameQueue s) < finalOffset s \<or> cancelledRemotely s)
      else length (rest s) < n \<and> peek_beyond n s = Some None)"

definition peek_post :: "(int \<Rightarrow> byte) \<Rightarrow> sorter_event list \<Rightarrow> nat \<Rightarrow> ReceiveStream \<Rightarrow> (peek_outcome \<times> ReceiveStream) option \<Rightarrow> bool" where
  "peek_post f fs n s r \<longleftrightarrow> (case r of None \<Rightarrow> False
     | Some (out, s') \<Rightarrow> core_ok f fs s' \<and> kept s s' \<and> rs_readPos s' = rs_readPos s \<and> errorRead s' = errorRead s \<and> (at_end s \<longrightarrow> at_end s') \<and>
         (case out of PeekDone d e \<Rightarrow> peek_ok f s' d e | PeekWaits \<Rightarrow> nothing_to_peek n s'))"

lemma peek_ok_Nil: "e \<noteq> Some NilError \<Longrightarrow> e \<noteq> Some ReadBug \<Longrightarrow> (e = Some io_EOF \<Longrightarrow> eof_at s (rs_readPos s)) \<Longrightarrow> peek_ok f s [] e"
  by (simp add: peek_ok_def agrees_def)

lemma at_end_eof: "core_ok f fs s \<Longrightarrow> currentFrameIsLast s \<Longrightarrow> frame_over s \<Longrightarrow> eof_at s (rs_readPos s)"
  using flow_invD(5) [of fs s] data_okD(6) [of f fs s] by (auto simp: core_ok_def frame_over_def rest_def current_bytes_def)

lemma peek_beyond_last: "currentFrameIsLast s \<Longrightarrow> peek_beyond n s \<noteq> Some None"
  by (auto simp: peek_beyond_eq Option.bind_eq_Some_conv split: sum.splits)

lemma peek_stays:
  assumes "core_ok f fs s" and "peek_ok f s d e"
  shows "peek_post f fs n s (Some (PeekDone d e, s))"
  using assms by (simp add: peek_post_def)

lemma peek_frame_ok:
  assumes core: "core_ok f fs s" and "\<not> at_end s" and "\<not> cancelledLocally s" "\<not> isRemoteCancellationEffective s" "closeForShutdownErr s = None"
    and t: "t = (if frame_over s then dequeueNextFrame s else s)"
  shows "peek_post f fs n s (Option.bind
      (if \<not> frame_over t then
         (if length (rest t) \<ge> n then Some (Some (PeekDone (take n (rest t)) None)) else peek_beyond n t)
       else Some None)
      (\<lambda>r. case r of Some out \<Rightarrow> Some (out, t)
         | None \<Rightarrow> if currentFrameIsLast t \<or> rs_readPos t \<ge> finalOffset t then Some (PeekDone [] (Some io_EOF), t) else Some (PeekWaits, t)))"
    (is "peek_post f fs n s (Option.bind ?r _)")
proof -
  note N = next_frame [OF core assms(2) t] and D = data_okD [OF core_okD(1) [OF next_frame(1) [OF core assms(2) t]]]
  have keep: "kept s t" "rs_readPos t = rs_readPos s" "errorRead t = errorRead s" "\<not> at_end s" using N assms(2) by simp_all
  have same: "\<not> cancelledLocally t" "\<not> isRemoteCancellationEffective t" "closeForShutdownErr t = None"
    using keep(1,2) assms(3-5) by (simp_all add: kept_def isRemoteCancellationEffective_def)
  have err: "has_error t" using has_error_core [OF core assms(2)] keep(1) by (simp add: has_error_def kept_def)
  have eof: "peek_ok f t [] (Some io_EOF)" if "currentFrameIsLast t \<or> rs_readPos t \<ge> finalOffset t" and "?r = Some None"
  proof (rule peek_ok_Nil)
    show "eof_at t (rs_readPos t)"
    proof (cases "currentFrameIsLast t")
      case True
      then have "frame_over t" using that(2) peek_beyond_last [OF True, of n] by (auto split: if_splits)
      then show ?thesis using at_end_eof [OF N(1) True] by simp
    next
      case False
      then show ?thesis using that(1) D(6) queued_received [OF core_okD(1,2) [OF N(1)]] by (simp add: eof_at_def)
    qed
  qed simp_all
  have wait: "nothing_to_peek n t" if "\<not> (currentFrameIsLast t \<or> rs_readPos t \<ge> finalOffset t)" and "?r = Some None"
    using that N(7,8) same by (auto simp: nothing_to_peek_def split: if_splits)
  have "peeked_ok f t ?r"
    using peek_beyond_ok [OF N(1) _ _ same(2) err, of n] agrees_take [OF D(7)] by (auto simp: peeked_ok_def peek_ok_def)
  then show ?thesis
    using N(1) keep eof wait
    by (cases ?r) (auto simp: peeked_ok_def peek_post_def split: option.splits peek_outcome.splits)
qed

lemma peek_turn_ok:
  assumes core: "core_ok f fs s"
  shows "peek_post f fs n s (peek_turn n now s)"
proof -
  consider (eof) "at_end s" | (cancelled) "\<not> at_end s" "cancelledLocally s \<or> isRemoteCancellationEffective s"
    | (shutdown) e where "\<not> at_end s" "\<not> (cancelledLocally s \<or> isRemoteCancellationEffective s)" "closeForShutdownErr s = Some e"
    | (late) "\<not> at_end s" "\<not> (cancelledLocally s \<or> isRemoteCancellationEffective s)" "closeForShutdownErr s = None" "deadline_over now s"
    | (frame) "\<not> at_end s" "\<not> (cancelledLocally s \<or> isRemoteCancellationEffective s)" "closeForShutdownErr s = None" "\<not> deadline_over now s"
    by (cases "closeForShutdownErr s") blast+
  then show ?thesis
  proof cases
    case eof
    then have "eof_at s (rs_readPos s)" using at_end_eof [OF core] by (simp add: at_end_def frame_over_def)
    then have "peek_ok f s [] (Some io_EOF)" by (intro peek_ok_Nil) simp_all
    from peek_stays [OF core this] eof show ?thesis by (simp add: peek_turn_def at_end_def)
  next
    case cancelled
    then have "err_ok (Some (cancel_error s)) s" using cancel_error_ok [OF core has_error_core [OF core]] by simp
    then have "peek_ok f s [] (Some (cancel_error s))" using cancelled(1) by (intro peek_ok_Nil) (auto simp: err_ok_def)
    from peek_stays [OF core this] cancelled show ?thesis by (auto simp: peek_turn_def at_end_def)
  next
    case shutdown
    then have "peek_ok f s [] (Some (ShutdownError e))" by (intro peek_ok_Nil) simp_all
    from peek_stays [OF core this] shutdown show ?thesis by (auto simp: peek_turn_def at_end_def)
  next
    case late
    then have "peek_ok f s [] (Some errDeadline)" by (intro peek_ok_Nil) simp_all
    from peek_stays [OF core this] late show ?thesis by (auto simp: peek_turn_def at_end_def)
  next
    case frame
    then have "(currentFrameIsLast s \<and> currentFrame s = None) = False" "(cancelledLocally s \<or> isRemoteCancellationEffective s) = False"
      "deadline_over now s = False" by (simp_all add: at_end_def)
    then show ?thesis
      unfolding peek_turn_def frame(3) rest_def [symmetric] by (simp only: if_False option.case Let_def) (rule peek_frame_ok [OF core frame(1) _ _ frame(3) refl], simp_all)
  qed
qed

lemma peek_wake_ok:
  assumes core: "core_ok f fs s" and "\<not> currentFrameIsLast s"
  shows "peek_post f fs n s (peek_wake n now s)"
proof -
  define t where "t = (if frame_over s then dequeueNextFrame s else s)"
  have "\<not> at_end s" using assms(2) by (simp add: at_end_def)
  note N = next_frame [OF core this t_def]
  from peek_turn_ok [OF N(1), of n now] show ?thesis
    using N(2,4,5) \<open>\<not> at_end s\<close> kept_trans [OF N(2)]
    by (auto simp: peek_wake_def t_def [symmetric] peek_post_def split: option.splits)
qed

section \<open>Waiting\<close>

text \<open>A call that waits, and has nothing to return, waits again when it is woken before its deadline.\<close>

lemma dequeue_nothing:
  assumes "map_of (queue (frameQueue s)) (readPos (frameQueue s)) = None" and "readPos (frameQueue s) < finalOffset s \<or> cancelledRemotely s"
  shows "currentFrame (dequeueNextFrame s) = None" "\<not> currentFrameIsLast (dequeueNextFrame s)" "frameQueue (dequeueNextFrame s) = frameQueue s"
  using assms by (auto simp: dequeueNextFrame_def Pop_def)

lemma read_again:
  assumes "nothing_to_read s" and "\<not> deadline_over (clock 0) s"
  shows "read_wake n clock (hs, hc, []) s = (ReadWaits (hs, hc, []), dequeueNextFrame s)"
proof -
  have n: "map_of (queue (frameQueue s)) (readPos (frameQueue s)) = None" "readPos (frameQueue s) < finalOffset s \<or> cancelledRemotely s"
    using assms(1) by (simp_all add: nothing_to_read_def)
  then show ?thesis
    using assms dequeue_nothing [OF n]
    by (simp add: nothing_to_read_def read_wake_def read_turn_def deadline_over_def isRemoteCancellationEffective_def)
qed

lemma peek_again:
  assumes "nothing_to_peek n s" and "\<not> deadline_over now s"
  shows "\<exists>s'. peek_wake n now s = Some (PeekWaits, s')"
proof (cases "frame_over s")
  case True
  then have n: "map_of (queue (frameQueue s)) (readPos (frameQueue s)) = None" "readPos (frameQueue s) < finalOffset s \<or> cancelledRemotely s"
    using assms(1) by (simp_all add: nothing_to_peek_def)
  define t where "t = dequeueNextFrame s"
  have t: "currentFrame t = None" "\<not> currentFrameIsLast t" "frameQueue t = frameQueue s" using dequeue_nothing [OF n] by (simp_all add: t_def)
  then have "frame_over t" by (simp add: frame_over_def)
  have "map_of (queue (frameQueue t)) (readPos (frameQueue t)) = None" "readPos (frameQueue t) < finalOffset t \<or> cancelledRemotely t"
    using n t(3) by (simp_all add: t_def)
  note u = dequeue_nothing [OF this]
  then have "frame_over (dequeueNextFrame t)" by (simp add: frame_over_def)
  then show ?thesis
    using True assms t u \<open>frame_over t\<close>
    by (simp add: peek_wake_def t_def [symmetric] peek_turn_def Let_def nothing_to_peek_def deadline_over_def isRemoteCancellationEffective_def)
      (simp add: t_def)
next
  case False
  then show ?thesis
    using assms by (auto simp: peek_wake_def peek_turn_def Let_def nothing_to_peek_def rest_def [symmetric])
qed

section \<open>Frames and cancellation\<close>

text \<open>Fields that the invariants do not mention.\<close>

lemma core_irrelevant [simp]:
  "core_ok f fs (s\<lparr>readChan := b\<rparr>) \<longleftrightarrow> core_ok f fs s" "core_ok f fs (s\<lparr>rs_deadline := d\<rparr>) \<longleftrightarrow> core_ok f fs s"
  "core_ok f fs (s\<lparr>closeForShutdownErr := e\<rparr>) \<longleftrightarrow> core_ok f fs s" "core_ok f fs (s\<lparr>queuedMaxStreamData := b\<rparr>) \<longleftrightarrow> core_ok f fs s"
  by (simp_all add: core_ok_def data_ok_def flow_inv_def life_ok_def rest_def current_bytes_def at_end_def pending_cb_def eof_at_def
    isRemoteCancellationEffective_def uncredited_def)

lemma data_cong:
  assumes "frameQueue s' = frameQueue s" "released s' = released s" "rs_readPos s' = rs_readPos s" "currentFrame s' = currentFrame s"
    "currentFrameDone s' = currentFrameDone s" "readPosInFrame s' = readPosInFrame s" "currentFrameIsLast s' = currentFrameIsLast s"
  shows "data_ok f fs s' \<longleftrightarrow> data_ok f fs s"
proof -
  have "rest s' = rest s" "current_bytes s' = current_bytes s" "at_end s' = at_end s" "pending_cb s' = pending_cb s"
    using assms by (simp_all add: rest_def current_bytes_def at_end_def pending_cb_def)
  then show ?thesis unfolding data_ok_def using assms by simp
qed

lemma flow_cong:
  assumes "readPos (frameQueue u) = readPos (frameQueue s)" "finalOffset u = finalOffset s" "currentFrameIsLast u = currentFrameIsLast s"
    "cancelledLocally u = cancelledLocally s" "cancelledRemotely u = cancelledRemotely s" "reliableSize u = reliableSize s"
    "rs_readPos u = rs_readPos s" "bytesRead (stream_fc u) = bytesRead (stream_fc s)"
    "highestReceived (stream_fc u) = highestReceived (stream_fc s)" "receivedFinalOffset (stream_fc u) = receivedFinalOffset (stream_fc s)"
  shows "flow_inv fs u \<longleftrightarrow> flow_inv fs s"
proof -
  have "isRemoteCancellationEffective u = isRemoteCancellationEffective s" "eof_at u p = eof_at s p" for p
    using assms by (simp_all add: isRemoteCancellationEffective_def eof_at_def)
  then show ?thesis unfolding flow_inv_def using assms by simp
qed

lemma life_okD:
  assumes "life_ok s"
  shows "errorRead s \<Longrightarrow> cancelledLocally s \<or> isRemoteCancellationEffective s \<or> at_end s"
    "completed s \<Longrightarrow> (cancelledLocally s \<or> errorRead s) \<and> finalOffset s \<noteq> MaxByteCount"
    "completed s \<Longrightarrow> bytesRead (stream_fc s) = highestReceived (stream_fc s) \<or> uncredited s"
    "length (filter (\<lambda>c. c = onStreamCompleted (rs_streamID s)) (sender_calls s)) = (if completed s then 1 else 0)"
    "cancelledLocally s \<or> cancelledRemotely s \<Longrightarrow> at_end s \<or> cancelErr s \<noteq> None"
    "pred_option is_StreamError (cancelErr s)" "queuedStopSending s \<Longrightarrow> cancelErr s \<noteq> None"
    "currentFrame s = None \<Longrightarrow> \<not> errorRead s \<Longrightarrow> currentFrameDone s = None"
  using assms unfolding life_ok_def by blast+

lemma life_okI:
  assumes "errorRead s \<Longrightarrow> cancelledLocally s \<or> isRemoteCancellationEffective s \<or> at_end s"
    "completed s \<Longrightarrow> (cancelledLocally s \<or> errorRead s) \<and> finalOffset s \<noteq> MaxByteCount"
    "completed s \<Longrightarrow> bytesRead (stream_fc s) = highestReceived (stream_fc s) \<or> uncredited s"
    "length (filter (\<lambda>c. c = onStreamCompleted (rs_streamID s)) (sender_calls s)) = (if completed s then 1 else 0)"
    "cancelledLocally s \<or> cancelledRemotely s \<Longrightarrow> at_end s \<or> cancelErr s \<noteq> None"
    "pred_option is_StreamError (cancelErr s)" "queuedStopSending s \<Longrightarrow> cancelErr s \<noteq> None"
    "currentFrame s = None \<Longrightarrow> \<not> errorRead s \<Longrightarrow> currentFrameDone s = None"
  shows "life_ok s"
  using assms unfolding life_ok_def by blast

lemma life_cong:
  assumes life: "life_ok s" and eq: "errorRead u = errorRead s" "completed u = completed s" "cancelledLocally u = cancelledLocally s"
    "cancelledRemotely u = cancelledRemotely s" "sender_calls u = sender_calls s" "rs_streamID u = rs_streamID s" "cancelErr u = cancelErr s"
    "queuedStopSending u = queuedStopSending s" "currentFrame u = currentFrame s" "currentFrameDone u = currentFrameDone s"
    "isRemoteCancellationEffective u = isRemoteCancellationEffective s" "at_end u = at_end s" "uncredited u = uncredited s"
    and comp: "completed s \<Longrightarrow> finalOffset u = finalOffset s \<and> bytesRead (stream_fc u) = bytesRead (stream_fc s) \<and>
      highestReceived (stream_fc u) = highestReceived (stream_fc s)"
  shows "life_ok u"
proof (cases "completed s")
  case True
  from comp [OF this] have e: "finalOffset u = finalOffset s" "bytesRead (stream_fc u) = bytesRead (stream_fc s)"
    "highestReceived (stream_fc u) = highestReceived (stream_fc s)" by simp_all
  show ?thesis using life unfolding life_ok_def eq e .
next
  case False
  then show ?thesis using life unfolding life_ok_def eq by blast
qed

lemma core_flow:
  assumes "core_ok f fs s" and "bytesRead (fst fc) = bytesRead (stream_fc s)" "highestReceived (fst fc) = highestReceived (stream_fc s)"
    "receivedFinalOffset (fst fc) = receivedFinalOffset (stream_fc s)"
  shows "core_ok f fs (s\<lparr>flowController := fc\<rparr>)"
proof -
  let ?s = "s\<lparr>flowController := fc\<rparr>"
  have eq: "eof_at ?s p = eof_at s p" "isRemoteCancellationEffective ?s = isRemoteCancellationEffective s" "uncredited ?s = uncredited s"
    "at_end ?s = at_end s" for p
    using assms(3) by (simp_all add: eof_at_def isRemoteCancellationEffective_def uncredited_def at_end_def)
  have "flow_inv fs ?s \<longleftrightarrow> flow_inv fs s" unfolding flow_inv_def eq using assms(2-4) by simp
  moreover have "life_ok ?s \<longleftrightarrow> life_ok s" unfolding life_ok_def eq using assms(2-4) by simp
  ultimately show ?thesis using assms(1) data_cong [of ?s s] by (simp add: core_ok_def)
qed

text \<open>What an operation other than reading leaves alone, and that the end of the stream can only become known.\<close>

definition grows :: "ReceiveStream \<Rightarrow> ReceiveStream \<Rightarrow> bool" where
  "grows s s' \<longleftrightarrow> rs_readPos s' = rs_readPos s \<and> currentFrame s' = currentFrame s \<and> currentFrameIsLast s' = currentFrameIsLast s \<and>
     finalOffset s' \<le> finalOffset s \<and> highestReceived (stream_fc s) \<le> highestReceived (stream_fc s')"

lemma grows_refl [simp]: "grows s s"
  by (simp add: grows_def)

lemma grows_trans: "grows s t \<Longrightarrow> grows t u \<Longrightarrow> grows s u"
  by (simp add: grows_def)

lemma grows_eof: "grows s s' \<Longrightarrow> eof_at s p \<Longrightarrow> eof_at s' p"
  by (simp add: grows_def eof_at_def)

text \<open>The controller learns of an offset or of the final size.\<close>

lemma update_core:
  assumes core: "core_ok f fs s" and up: "UpdateHighestReceived offset final now (flowController s) = (Inr (), fc)"
    and "0 \<le> offset" "offset \<le> MaxByteCount" and u: "u = s\<lparr>flowController := fc, finalOffset := (if final then offset else finalOffset s)\<rparr>"
  shows "core_ok f fs u" "grows s u" "offset \<le> highestReceived (stream_fc u)" "final \<Longrightarrow> receivedFinalOffset (stream_fc u)"
    "receivedFinalOffset (stream_fc s) \<Longrightarrow> finalOffset u = finalOffset s \<and> highestReceived (stream_fc u) = highestReceived (stream_fc s)"
proof -
  note U = Update_stream [OF up] and F = flow_invD [OF core_okD(2) [OF core]]
  have fc: "stream_fc u = fst fc" by (simp add: u)
  have final_eq: "finalOffset u = (if receivedFinalOffset (fst fc) then highestReceived (fst fc) else MaxByteCount)"
    using U(3-5) F(4) by (auto simp: u)
  show known: "finalOffset u = finalOffset s \<and> highestReceived (stream_fc u) = highestReceived (stream_fc s)" if "receivedFinalOffset (stream_fc s)"
    using that U(3,5) F(4) final_eq by (simp add: fc)
  have mono: "finalOffset u \<le> finalOffset s" "highestReceived (stream_fc s) \<le> highestReceived (fst fc)" "highestReceived (fst fc) \<le> MaxByteCount"
    using known F(3,4) final_eq U(1) assms(4) by (auto simp: fc split: if_splits)
  show grows: "grows s u" using mono by (simp add: grows_def u)
  show "offset \<le> highestReceived (stream_fc u)" using U(1) by (simp add: fc)
  show "receivedFinalOffset (stream_fc u)" if final using that U(3) by (simp add: fc)
  have "data_ok f fs u" using core_okD(1) [OF core] data_cong [of u s] by (simp add: u)
  moreover have eff: "isRemoteCancellationEffective u \<longleftrightarrow> isRemoteCancellationEffective s" by (simp add: u isRemoteCancellationEffective_def)
  moreover have "flow_inv fs u"
    unfolding flow_inv_def fc final_eq [symmetric] eff using F mono known U(2,3) grows_eof [OF grows]
    by (auto simp: fc isRemoteCancellationEffective_def) (auto simp: u dest: less_le_trans)
  moreover have "life_ok u"
  proof -
    have "finalOffset u = finalOffset s \<and> bytesRead (stream_fc u) = bytesRead (stream_fc s) \<and>
      highestReceived (stream_fc u) = highestReceived (stream_fc s)" if "completed s"
    proof -
      have "finalOffset s \<noteq> MaxByteCount" using core_okD(3) [OF core] that by (simp add: life_ok_def)
      then have "receivedFinalOffset (stream_fc s)" using F(4) by (simp split: if_splits)
      then show ?thesis using known U(2) by (simp add: fc)
    qed
    then show ?thesis by (intro life_cong [OF core_okD(3) [OF core]]) (simp_all add: u at_end_def uncredited_def isRemoteCancellationEffective_def)
  qed
  ultimately show "core_ok f fs u" by (simp add: core_ok_def)
qed

text \<open>A frame is queued.\<close>

lemma push_core:
  assumes core: "core_ok f fs s" and agr: "agrees f a data" "0 \<le> a" "a + int (length data) \<le> MaxByteCount"
    and recv: "a + int (length data) \<le> highestReceived (stream_fc s)" and push: "Push data a (Some cb) (frameQueue s) = (Inr (), q)"
  shows "core_ok f (fs @ [FrameArrives data a (Some cb)]) (s\<lparr>frameQueue := q\<rparr>)"
proof -
  let ?fs = "fs @ [FrameArrives data a (Some cb)]" and ?s = "s\<lparr>frameQueue := q\<rparr>"
  note D = data_okD [OF core_okD(1) [OF core]] and F = flow_invD [OF core_okD(2) [OF core]]
  have q: "sorter_ok f q" "readPos q = readPos (frameQueue s)" "tokens q = tokens (frameQueue s) + cb_set (Some cb)"
    "\<And>p. in_gaps (gaps_of q) p \<longleftrightarrow> in_gaps (gaps_of (frameQueue s)) p \<and> \<not> (a \<le> p \<and> p < a + int (length data))"
    using Push_run [OF D(1) agr, of "Some cb"] push by auto
  have arr: "arrived ?fs p \<longleftrightarrow> arrived fs p \<or> a \<le> p \<and> p < a + int (length data)" for p by (auto simp: arrived_def)
  have same: "rest ?s = rest s" "current_bytes ?s = current_bytes s" "at_end ?s = at_end s" "pending_cb ?s = pending_cb s"
    by (simp_all add: rest_def current_bytes_def at_end_def pending_cb_def)
  have "data_ok f ?fs ?s"
  proof -
    have "tokens q + mset (released s) + pending_cb s = mset (concat (map event_cb ?fs))"
      using D(4) unfolding q(3) by (simp add: cb_set_def ac_simps)
    moreover have "in_gaps (gaps_of q) p \<longleftrightarrow> \<not> arrived ?fs p" if "0 \<le> p" "p < MaxByteCount" for p using D(3) [OF that] q(4) arr by auto
    ultimately show ?thesis unfolding data_ok_def same using D q(1,2) by simp
  qed
  moreover have "flow_inv ?fs ?s"
    using core_okD(2) [OF core] recv q(2) by (auto simp: flow_inv_def arr eof_at_def isRemoteCancellationEffective_def)
  moreover have "life_ok ?s" by (rule life_cong [OF core_okD(3) [OF core]]) (simp_all add: at_end_def uncredited_def isRemoteCancellationEffective_def)
  ultimately show ?thesis by (simp add: core_ok_def)
qed

text \<open>The stream gives back the credit of what was received and not read.\<close>

lemma end_credited:
  assumes core: "core_ok f fs s" and "errorRead s" "\<not> cancelledLocally s" "finalOffset s \<noteq> MaxByteCount"
  shows "bytesRead (stream_fc s) = highestReceived (stream_fc s)"
    "\<not> isRemoteCancellationEffective s \<Longrightarrow> rs_readPos s = highestReceived (stream_fc s)"
proof -
  note F = flow_invD [OF core_okD(2) [OF core]]
  have "isRemoteCancellationEffective s \<or> at_end s" using core_okD(3) [OF core] assms(2,3) by (auto simp: life_ok_def)
  moreover have pos: "rs_readPos s = highestReceived (stream_fc s)" if "at_end s"
  proof -
    have "eof_at s (rs_readPos s)" using at_end_eof [OF core] that by (simp add: at_end_def frame_over_def)
    then show ?thesis using F(4) assms(4) by (simp add: eof_at_def split: if_splits)
  qed
  ultimately show "bytesRead (stream_fc s) = highestReceived (stream_fc s)" 
    using F(7,8) assms(3) by (cases "isRemoteCancellationEffective s") auto
  show "rs_readPos s = highestReceived (stream_fc s)" if "\<not> isRemoteCancellationEffective s"
    using that \<open>isRemoteCancellationEffective s \<or> at_end s\<close> pos by simp
qed

lemma abandon_core:
  assumes core: "core_ok f fs s"
    and "\<not> cancelledLocally s \<Longrightarrow> \<not> isRemoteCancellationEffective s \<Longrightarrow> rs_readPos s = highestReceived (stream_fc s)"
  shows "core_ok f fs (s\<lparr>flowController := Abandon (flowController s)\<rparr>)"
    "bytesRead (fst (Abandon (flowController s))) = highestReceived (fst (Abandon (flowController s)))"
proof -
  let ?s = "s\<lparr>flowController := Abandon (flowController s)\<rparr>"
  show fc: "bytesRead (fst (Abandon (flowController s))) = highestReceived (fst (Abandon (flowController s)))" by (simp add: Abandon_stream)
  have "data_ok f fs ?s" using core_okD(1) [OF core] data_cong [of ?s s] by simp
  moreover have "flow_inv fs ?s"
    using core_okD(2) [OF core] assms(2) by (auto simp: flow_inv_def Abandon_stream eof_at_def isRemoteCancellationEffective_def)
  moreover have "life_ok ?s"
    using core_okD(3) [OF core] by (simp add: life_ok_def Abandon_stream at_end_def uncredited_def isRemoteCancellationEffective_def)
  ultimately show "core_ok f fs ?s" by (simp add: core_ok_def)
qed

text \<open>Completion is noticed, with or without giving back the credit.\<close>

lemma complete_core:
  assumes core: "core_ok f fs s" and new: "isNewlyCompleted s = (newly, t)"
    and credit: "newly \<Longrightarrow> \<not> b \<Longrightarrow> bytesRead (stream_fc s) = highestReceived (stream_fc s) \<or> uncredited s"
    and u: "u = call_sender newly (onStreamCompleted (rs_streamID t)) (abandon_if (newly \<and> b) t)"
  shows "core_ok f fs u" "settled u" "grows s u" "readChan u = readChan s" "cancelledLocally u = cancelledLocally s"
    "cancelledRemotely u = cancelledRemotely s" "closeForShutdownErr u = closeForShutdownErr s" "rs_deadline u = rs_deadline s"
    "frameQueue u = frameQueue s" "finalOffset u = finalOffset s" "readPosInFrame u = readPosInFrame s" "reliableSize u = reliableSize s"
    "errorRead u = errorRead s"
proof -
  show "settled u" using new by (auto simp: isNewlyCompleted_def u settled_def call_sender_def abandon_if_def split: if_splits)
  show "grows s u" "readChan u = readChan s" "cancelledLocally u = cancelledLocally s" "cancelledRemotely u = cancelledRemotely s"
    "closeForShutdownErr u = closeForShutdownErr s" "rs_deadline u = rs_deadline s" "frameQueue u = frameQueue s"
    "finalOffset u = finalOffset s" "readPosInFrame u = readPosInFrame s" "reliableSize u = reliableSize s" "errorRead u = errorRead s"
    using new by (auto simp: isNewlyCompleted_def u call_sender_def abandon_if_def grows_def Abandon_stream split: if_splits)
  show "core_ok f fs u"
  proof (cases newly)
    case False
    then have "u = s" using new by (auto simp: isNewlyCompleted_def u call_sender_def abandon_if_def split: if_splits)
    then show ?thesis using core by simp
  next
    case True
    then have c: "\<not> completed s" "finalOffset s \<noteq> MaxByteCount" "cancelledLocally s \<or> errorRead s" "t = s\<lparr>completed := True\<rparr>"
      using new by (auto simp: isNewlyCompleted_def split: if_splits)
    define v where "v = (if b then s\<lparr>flowController := Abandon (flowController s)\<rparr> else s)"
    have v: "core_ok f fs v" "bytesRead (stream_fc v) = highestReceived (stream_fc v) \<or> uncredited v"
      using abandon_core [OF core] end_credited(2) [OF core _ _ c(2)] c(3) credit [OF True] core by (auto simp: v_def)
    have uv: "u = v\<lparr>completed := True, sender_calls := sender_calls v @ [onStreamCompleted (rs_streamID v)]\<rparr>"
      using True by (simp add: u c(4) v_def call_sender_def abandon_if_def)
    have fin: "\<not> completed v" "finalOffset v \<noteq> MaxByteCount" "cancelledLocally v \<or> errorRead v" using c by (auto simp: v_def)
    have "data_ok f fs u" using core_okD(1) [OF v(1)] data_cong [of u v] by (simp add: uv)
    moreover have "flow_inv fs u" using core_okD(2) [OF v(1)] flow_cong [of u v] by (simp add: uv)
    moreover have "life_ok u"
      using core_okD(3) [OF v(1)] v(2) fin by (simp add: uv life_ok_def at_end_def uncredited_def isRemoteCancellationEffective_def)
    ultimately show ?thesis by (simp add: core_ok_def)
  qed
qed

lemmas complete_core_done = complete_core [where b = True, simplified]

definition frame_ok :: "(int \<Rightarrow> byte) \<Rightarrow> stream_frame \<Rightarrow> bool" where
  "frame_ok f frame \<longleftrightarrow> 0 \<le> sf_Offset frame \<and> sf_Offset frame + int (length (sf_Data frame)) \<le> MaxByteCount \<and> agrees f (sf_Offset frame) (sf_Data frame)"

text \<open>The errors that close the connection are violations by the peer.\<close>

definition peer_error :: "receive_err \<Rightarrow> bool" where
  "peer_error e \<longleftrightarrow> e = FlowFailed FinalSizeError \<or> e = FlowFailed FlowControlError \<or> e = SorterFailed errTooManyGaps"

definition frames_after :: "sorter_event list \<Rightarrow> stream_frame \<Rightarrow> nat \<Rightarrow> ReceiveStream \<Rightarrow> sorter_event list" where
  "frames_after fs frame cb s = (if cancelledLocally s then fs else fs @ [FrameArrives (sf_Data frame) (sf_Offset frame) (Some cb)])"

definition frame_post :: "(int \<Rightarrow> byte) \<Rightarrow> sorter_event list \<Rightarrow> ReceiveStream \<Rightarrow> (receive_err + unit) \<times> ReceiveStream \<Rightarrow> bool" where
  "frame_post f fs s rt \<longleftrightarrow> (case rt of
     (Inl e, t) \<Rightarrow> peer_error e
   | (Inr _, t) \<Rightarrow> core_ok f fs t \<and> grows s t \<and> cancelledLocally t = cancelledLocally s \<and> cancelledRemotely t = cancelledRemotely s \<and>
        (readChan t \<or> cancelledLocally s) \<and> (readChan s \<longrightarrow> readChan t))"

lemma queue_frame_ok:
  assumes core: "core_ok f fs s" and frame: "frame_ok f frame" and "sf_Offset frame + int (length (sf_Data frame)) \<le> highestReceived (stream_fc s)"
  shows "frame_post f (fs @ [FrameArrives (sf_Data frame) (sf_Offset frame) (Some cb)]) s
    (bnd (on_sorter (Push (sf_Data frame) (sf_Offset frame) (Some cb))) (\<lambda>_. modify signalRead) s)"
proof -
  obtain rp q where p: "Push (sf_Data frame) (sf_Offset frame) (Some cb) (frameQueue s) = (rp, q)" by (metis surj_pair)
  note P = Push_run [OF data_okD(1) [OF core_okD(1) [OF core]], of "sf_Offset frame" "sf_Data frame" "Some cb"]
  show ?thesis
  proof (cases rp)
    case (Inl e)
    moreover have "e = errTooManyGaps" using P p Inl frame by (auto simp: frame_ok_def)
    ultimately show ?thesis using p by (simp add: on_sorter_def eff_simps frame_post_def peer_error_def)
  next
    case (Inr y)
    then have "core_ok f (fs @ [FrameArrives (sf_Data frame) (sf_Offset frame) (Some cb)]) (s\<lparr>frameQueue := q\<rparr>)"
      using push_core [OF core] frame assms(3) p by (simp add: frame_ok_def)
    then show ?thesis using p Inr by (simp add: on_sorter_def eff_simps frame_post_def signalRead_def grows_def)
  qed
qed

lemma frame_post_grows:
  "grows s u \<Longrightarrow> cancelledLocally u = cancelledLocally s \<Longrightarrow> cancelledRemotely u = cancelledRemotely s \<Longrightarrow> readChan u = readChan s \<Longrightarrow>
    frame_post f fs u r \<Longrightarrow> frame_post f fs s r"
  by (auto simp: frame_post_def dest: grows_trans split: prod.splits sum.splits)

lemma handleStreamFrameImpl_ok:
  assumes core: "core_ok f fs s" and frame: "frame_ok f frame"
  shows "frame_post f (frames_after fs frame cb s) s (handleStreamFrameImpl frame cb now s)"
proof -
  define off where "off = sf_Offset frame + int (length (sf_Data frame))"
  have off: "0 \<le> off" "off \<le> MaxByteCount" using frame by (simp_all add: frame_ok_def off_def)
  obtain ru fc where up: "UpdateHighestReceived off (sf_Fin frame) now (flowController s) = (ru, fc)" by (metis surj_pair)
  show ?thesis
  proof (cases ru)
    case (Inl e)
    then show ?thesis
      using up Update_errors
      by (auto simp: handleStreamFrameImpl_def off_def [symmetric] Let_def on_flow_def eff_simps frame_post_def peer_error_def)
  next
    case (Inr x)
    then have up: "UpdateHighestReceived off (sf_Fin frame) now (flowController s) = (Inr (), fc)" using up by simp
    define u where "u = s\<lparr>flowController := fc, finalOffset := (if sf_Fin frame then off else finalOffset s)\<rparr>"
    note U = update_core [OF core up off u_def]
    have eq: "handleStreamFrameImpl frame cb now s =
       (if cancelledLocally s then ret () else bnd (on_sorter (Push (sf_Data frame) (sf_Offset frame) (Some cb))) (\<lambda>_. modify signalRead)) u"
      using up by (simp add: handleStreamFrameImpl_def off_def [symmetric] Let_def on_flow_def eff_simps u_def)
    have same: "cancelledLocally u = cancelledLocally s" "cancelledRemotely u = cancelledRemotely s" "readChan u = readChan s" by (simp_all add: u_def)
    show ?thesis
    proof (cases "cancelledLocally s")
      case True
      then show ?thesis using U(1,2) same by (auto simp: eq ret_def frames_after_def frame_post_def)
    next
      case False
      then show ?thesis
        using frame_post_grows [OF U(2) same] queue_frame_ok [OF U(1) frame] U(3) by (simp add: eq frames_after_def off_def)
    qed
  qed
qed

lemma handleStreamFrame_ok:
  assumes "core_ok f fs s" and "frame_ok f frame"
  shows "frame_post f (frames_after fs frame cb s) s (handleStreamFrame frame cb now s)"
    "handleStreamFrame frame cb now s = (Inr (), u) \<Longrightarrow> settled u"
proof -
  obtain r t newly v where eq: "handleStreamFrameImpl frame cb now s = (r, t)" "isNewlyCompleted t = (newly, v)" by (metis surj_pair)
  then have run: "handleStreamFrame frame cb now s = (r, call_sender newly (onStreamCompleted (rs_streamID v)) (abandon_if newly v))"
    by (simp add: handleStreamFrame_def)
  note I = handleStreamFrameImpl_ok [OF assms, of cb now, unfolded eq]
  show "frame_post f (frames_after fs frame cb s) s (handleStreamFrame frame cb now s)"
  proof (cases r)
    case (Inr x)
    then have core: "core_ok f (frames_after fs frame cb s) t" and "grows s t" using I by (simp_all add: frame_post_def)
    then show ?thesis
      using complete_core_done(1,3-6) [OF core eq(2) refl] I Inr grows_trans by (auto simp: run frame_post_def)
  qed (use I in \<open>simp add: run frame_post_def\<close>)
  show "settled u" if "handleStreamFrame frame cb now s = (Inr (), u)"
  proof -
    have "core_ok f (frames_after fs frame cb s) t" using I that by (simp add: run frame_post_def)
    from complete_core_done(2) [OF this eq(2) refl] show ?thesis using that by (simp add: run)
  qed
qed

text \<open>A reset, after the controller has learnt the final size.\<close>

definition reset_effect :: "u64 \<Rightarrow> int \<Rightarrow> ReceiveStream \<Rightarrow> ReceiveStream" where
  "reset_effect code reliable s =
     (let v = s\<lparr>reliableSize := (if (\<not> cancelledRemotely s \<and> reliableSize s = 0) \<or> reliable < reliableSize s then reliable else reliableSize s)\<rparr>;
          w = abandon_if (rs_readPos v \<ge> reliableSize v) v
      in if cancelledRemotely s then w else if cancelledLocally s then w
         else signalRead (w\<lparr>cancelledRemotely := True, cancelErr := Some (StreamError (rs_streamID s) code True)\<rparr>))"

lemma handleResetStreamFrameImpl_eq:
  assumes "closeForShutdownErr s = None" and "UpdateHighestReceived finalSize True now (flowController s) = (Inr (), fc)"
  shows "handleResetStreamFrameImpl code finalSize reliable now s =
    (Inr (), reset_effect code reliable (s\<lparr>flowController := fc, finalOffset := finalSize\<rparr>))"
  using assms by (simp add: handleResetStreamFrameImpl_def on_flow_def eff_simps reset_effect_def abandon_if_def Let_def)

lemma reset_core:
  assumes core: "core_ok f fs s" and "receivedFinalOffset (stream_fc s)" and u: "u = reset_effect code reliable s"
  shows "core_ok f fs u" "grows s u" "finalOffset u = finalOffset s" "cancelledLocally u = cancelledLocally s" "errorRead u = errorRead s" "completed u = completed s"
    "closeForShutdownErr u = closeForShutdownErr s"
    "cancelledRemotely u = (cancelledRemotely s \<or> \<not> cancelledLocally s)" "readChan u = (readChan s \<or> \<not> cancelledRemotely s \<and> \<not> cancelledLocally s)"
    "\<not> cancelledRemotely u \<Longrightarrow> rs_readPos u \<ge> reliableSize u \<Longrightarrow> bytesRead (stream_fc u) = highestReceived (stream_fc u)"
proof -
  note C = core_okD [OF core] and F = flow_invD [OF core_okD(2) [OF core]]
  define r where "r = (if (\<not> cancelledRemotely s \<and> reliableSize s = 0) \<or> reliable < reliableSize s then reliable else reliableSize s)"
  define fc where "fc = (if rs_readPos s \<ge> r then Abandon (flowController s) else flowController s)"
  define go where "go = (\<not> cancelledRemotely s \<and> \<not> cancelledLocally s)"
  have u': "u = s\<lparr>reliableSize := r, flowController := fc, cancelledRemotely := cancelledRemotely s \<or> go, readChan := readChan s \<or> go,
      cancelErr := (if go then Some (StreamError (rs_streamID s) code True) else cancelErr s)\<rparr>"
    by (simp add: u reset_effect_def Let_def abandon_if_def signalRead_def r_def [symmetric] fc_def go_def)
  have fc: "highestReceived (fst fc) = highestReceived (stream_fc s)" "receivedFinalOffset (fst fc) = receivedFinalOffset (stream_fc s)"
    "bytesRead (fst fc) = (if rs_readPos s \<ge> r then highestReceived (stream_fc s) else bytesRead (stream_fc s))"
    by (simp_all add: fc_def Abandon_stream)
  show "grows s u" "finalOffset u = finalOffset s" "cancelledLocally u = cancelledLocally s" "errorRead u = errorRead s" "completed u = completed s"
    "closeForShutdownErr u = closeForShutdownErr s"
    "cancelledRemotely u = (cancelledRemotely s \<or> \<not> cancelledLocally s)" "readChan u = (readChan s \<or> \<not> cancelledRemotely s \<and> \<not> cancelledLocally s)"
    "\<not> cancelledRemotely u \<Longrightarrow> rs_readPos u \<ge> reliableSize u \<Longrightarrow> bytesRead (stream_fc u) = highestReceived (stream_fc u)"
    by (auto simp: u' grows_def fc go_def)
  have "data_ok f fs u" using C(1) data_cong [of u s] by (simp add: u')
  moreover have shrink: "r \<le> reliableSize s" if "cancelledRemotely s" using that by (simp add: r_def)
  have eff: "isRemoteCancellationEffective u \<longleftrightarrow> (cancelledRemotely s \<or> go) \<and> rs_readPos s \<ge> r" by (simp add: u' isRemoteCancellationEffective_def)
  moreover have unread: "bytesRead (stream_fc s) = rs_readPos s" if "\<not> cancelledLocally s" "\<not> rs_readPos s \<ge> r"
  proof (rule F(7) [OF that(1)])
    show "\<not> isRemoteCancellationEffective s" using that(2) shrink by (auto simp: isRemoteCancellationEffective_def)
  qed
  moreover have "flow_inv fs u"
    unfolding flow_inv_def eff using F(1-6,9) assms(2) unread by (auto simp: u' fc eof_at_def go_def)
  moreover have "life_ok u"
  proof (rule life_okI)
    show "errorRead u \<Longrightarrow> cancelledLocally u \<or> isRemoteCancellationEffective u \<or> at_end u"
      using life_okD(1) [OF C(3)] shrink unfolding eff by (auto simp: u' at_end_def isRemoteCancellationEffective_def)
    show "completed u \<Longrightarrow> bytesRead (stream_fc u) = highestReceived (stream_fc u) \<or> uncredited u"
      using life_okD(3) [OF C(3)] by (auto simp: u' fc uncredited_def go_def)
  qed (use life_okD [OF C(3)] in \<open>auto simp: u' at_end_def\<close>)
  ultimately show "core_ok f fs u" by (simp add: core_ok_def)
qed

definition reset_post :: "(int \<Rightarrow> byte) \<Rightarrow> sorter_event list \<Rightarrow> ReceiveStream \<Rightarrow> (receive_err + unit) \<times> ReceiveStream \<Rightarrow> bool" where
  "reset_post f fs s rt \<longleftrightarrow> (case rt of
     (Inl e, t) \<Rightarrow> peer_error e
   | (Inr _, t) \<Rightarrow> core_ok f fs t \<and> settled t \<and> grows s t \<and> cancelledLocally t = cancelledLocally s \<and> (readChan s \<longrightarrow> readChan t) \<and>
        (cancelledRemotely s \<longrightarrow> cancelledRemotely t) \<and> (readChan t \<or> cancelledRemotely s \<or> cancelledLocally s \<or> closeForShutdownErr s \<noteq> None))"

lemma settled_same: "settled s \<Longrightarrow> isNewlyCompleted s = (False, s)"
  by (auto simp: settled_def isNewlyCompleted_def)

lemma handleResetStreamFrame_ok:
  assumes core: "core_ok f fs s" and "settled s" and "0 \<le> finalSize" "finalSize \<le> MaxByteCount"
  shows "reset_post f fs s (handleResetStreamFrame code finalSize reliable now s)"
proof (cases "closeForShutdownErr s = None")
  case False
  then have "handleResetStreamFrame code finalSize reliable now s = (Inr (), s)"
    using settled_same [OF assms(2)] by (simp add: handleResetStreamFrame_def handleResetStreamFrameImpl_def call_sender_def)
  then show ?thesis using core assms(2) False by (simp add: reset_post_def)
next
  case True
  obtain r fc where up: "UpdateHighestReceived finalSize True now (flowController s) = (r, fc)" by (metis surj_pair)
  show ?thesis
  proof (cases r)
    case (Inl e)
    then show ?thesis
      using up True Update_errors [of finalSize True now "flowController s" e fc]
      by (auto simp: handleResetStreamFrame_def handleResetStreamFrameImpl_def on_flow_def eff_simps reset_post_def peer_error_def split: prod.split)
  next
    case (Inr x)
    then have up: "UpdateHighestReceived finalSize True now (flowController s) = (Inr (), fc)" using up by simp
    define u where "u = s\<lparr>flowController := fc, finalOffset := finalSize\<rparr>"
    have u: "u = s\<lparr>flowController := fc, finalOffset := (if True then finalSize else finalOffset s)\<rparr>" by (simp add: u_def)
    note U = update_core [OF core up assms(3,4) u]
    define t where "t = reset_effect code reliable u"
    note R = reset_core [OF U(1) U(4) t_def, simplified]
    obtain newly v where new: "isNewlyCompleted t = (newly, v)" by (metis surj_pair)
    have "bytesRead (stream_fc t) = highestReceived (stream_fc t) \<or> uncredited t" if newly
    proof -
      have n: "\<not> completed t" "finalOffset t \<noteq> MaxByteCount" "cancelledLocally t \<or> errorRead t"
        using new that by (auto simp: isNewlyCompleted_def split: if_splits)
      show ?thesis
      proof (cases "cancelledLocally t")
        case True
        have "\<not> cancelledRemotely s"
          using flow_invD(9) [OF core_okD(2) [OF core]] U(5) R(3,4,6) n(1,2) True assms(2) by (auto simp: settled_def u_def)
        then show ?thesis using R(4,8,10) True by (auto simp: uncredited_def u_def)
      qed (use end_credited(1) [OF R(1)] n in auto)
    qed
    note C = complete_core [OF R(1) new this refl, where b = False]
    have "handleResetStreamFrame code finalSize reliable now s = (Inr (), call_sender newly (onStreamCompleted (rs_streamID v)) v)"
      using handleResetStreamFrameImpl_eq [OF True up, of code reliable] new by (simp add: handleResetStreamFrame_def u_def t_def)
    then show ?thesis
      using C(1-6) R(2,4,8,9) U(2) grows_trans [OF grows_trans [OF U(2) R(2)] C(3)] by (auto simp: reset_post_def abandon_if_def u_def)
  qed
qed

lemma isNewlyCompleted_call:
  "isNewlyCompleted (call_sender q c t) = (fst (isNewlyCompleted t), call_sender q c (snd (isNewlyCompleted t)))"
  by (simp add: isNewlyCompleted_def call_sender_def)

lemma call_sender_same [simp]: "rs_streamID (call_sender q c t) = rs_streamID t"
  by (simp add: call_sender_def)

lemma call_control_core: "core_ok f fs (call_sender q (onHasStreamControlFrame sid) t) \<longleftrightarrow> core_ok f fs t"
proof -
  let ?u = "call_sender q (onHasStreamControlFrame sid) t"
  have "life_ok ?u \<longleftrightarrow> life_ok t"
    by (simp add: call_sender_def life_ok_def at_end_def uncredited_def isRemoteCancellationEffective_def)
  then show ?thesis using data_cong [of ?u t] flow_cong [of ?u t] by (simp add: core_ok_def) (simp add: call_sender_def)
qed

lemma cancel_core:
  assumes core: "core_ok f fs s" and "closeForShutdownErr s = None" and new: "\<not> cancelledLocally s"
    and e: "e = (if errorRead s \<or> cancelledRemotely s then cancelErr s else Some (StreamError (rs_streamID s) code False))"
  shows "core_ok f fs (s\<lparr>cancelledLocally := True, queuedStopSending := queuedStopSending s \<or> \<not> (errorRead s \<or> cancelledRemotely s), cancelErr := e\<rparr>)"
    (is "core_ok f fs ?u")
proof -
  note L = life_okD [OF core_okD(3) [OF core]]
  have "data_ok f fs ?u" using core_okD(1) [OF core] data_cong [of ?u s] by simp
  moreover have "flow_inv fs ?u" using flow_invD [OF core_okD(2) [OF core]] by (simp add: flow_inv_def eof_at_def isRemoteCancellationEffective_def)
  moreover have "life_ok ?u"
  proof (rule life_okI)
    have "at_end s" if "errorRead s" "\<not> cancelledRemotely s" using L(1) that new by (auto simp: isRemoteCancellationEffective_def)
    then show "cancelledLocally ?u \<or> cancelledRemotely ?u \<Longrightarrow> at_end ?u \<or> cancelErr ?u \<noteq> None" using L(5) e by (auto simp: at_end_def)
    show "completed ?u \<Longrightarrow> bytesRead (stream_fc ?u) = highestReceived (stream_fc ?u) \<or> uncredited ?u" using L(3) new by (auto simp: uncredited_def)
  qed (use L e in auto)
  ultimately show ?thesis by (simp add: core_ok_def)
qed

lemma cancelReadImpl_ok:
  assumes core: "core_ok f fs s" and run: "cancelReadImpl code s = (q, t)"
  shows "core_ok f fs t" "grows s t" "cancelledRemotely t = cancelledRemotely s" "readChan s \<Longrightarrow> readChan t" "closeForShutdownErr t = closeForShutdownErr s"
    "readChan t \<or> cancelledLocally t = cancelledLocally s \<or> errorRead s \<or> cancelledRemotely s"
proof -
  have "core_ok f fs t \<and> grows s t \<and> cancelledRemotely t = cancelledRemotely s \<and> (readChan s \<longrightarrow> readChan t) \<and> closeForShutdownErr t = closeForShutdownErr s \<and>
    (readChan t \<or> cancelledLocally t = cancelledLocally s \<or> errorRead s \<or> cancelledRemotely s)"
  proof (cases "cancelledLocally s \<or> closeForShutdownErr s \<noteq> None")
    case True
    then have "t = s" using run by (auto simp: cancelReadImpl_def split: if_splits)
    then show ?thesis using core by simp
  next
    case False
    define d where "d = (errorRead s \<or> cancelledRemotely s)"
    let ?u = "s\<lparr>cancelledLocally := True, queuedStopSending := queuedStopSending s \<or> \<not> d,
      cancelErr := (if d then cancelErr s else Some (StreamError (rs_streamID s) code False))\<rparr>"
    have t: "t = (if d then ?u else signalRead ?u)" using run False by (auto simp: cancelReadImpl_def Let_def d_def split: if_splits)
    have "core_ok f fs ?u" using cancel_core [OF core _ _ refl, of code] False unfolding d_def by blast
    then have "core_ok f fs t" unfolding t by (cases d) (simp_all add: signalRead_def)
    then show ?thesis by (simp add: t signalRead_def grows_def) (simp add: d_def)
  qed
  then show "core_ok f fs t" "grows s t" "cancelledRemotely t = cancelledRemotely s" "readChan s \<Longrightarrow> readChan t" "closeForShutdownErr t = closeForShutdownErr s"
    "readChan t \<or> cancelledLocally t = cancelledLocally s \<or> errorRead s \<or> cancelledRemotely s" by blast+
qed

lemma cancelReadImpl_cancels: "closeForShutdownErr s = None \<Longrightarrow> cancelledLocally (snd (cancelReadImpl code s))"
  by (simp add: cancelReadImpl_def Let_def signalRead_def)

lemma CancelRead_ok:
  assumes core: "core_ok f fs s" and u: "u = CancelRead code s"
  shows "core_ok f fs u" "settled u" "grows s u" "cancelledRemotely u = cancelledRemotely s" "readChan s \<Longrightarrow> readChan u"
    "readChan u \<or> cancelledLocally u = cancelledLocally s \<or> errorRead s \<or> cancelledRemotely s"
    "closeForShutdownErr s = None \<Longrightarrow> cancelledLocally u"
proof -
  obtain q t newly v where c: "cancelReadImpl code s = (q, t)" "isNewlyCompleted t = (newly, v)" by (metis surj_pair)
  define w where "w = call_sender q (onHasStreamControlFrame (rs_streamID t)) t"
  have new: "isNewlyCompleted w = (newly, call_sender q (onHasStreamControlFrame (rs_streamID t)) v)"
    by (simp add: w_def isNewlyCompleted_call c)
  have "rs_streamID v = rs_streamID t" using c(2) by (auto simp: isNewlyCompleted_def split: if_splits)
  then have uw: "u = call_sender newly (onStreamCompleted (rs_streamID (call_sender q (onHasStreamControlFrame (rs_streamID t)) v)))
      (abandon_if newly (call_sender q (onHasStreamControlFrame (rs_streamID t)) v))"
    by (simp add: u CancelRead_def c)
  note T = cancelReadImpl_ok [OF core c(1)]
  have w: "core_ok f fs w" "grows s w" "cancelledRemotely w = cancelledRemotely t" "readChan w = readChan t" "cancelledLocally w = cancelledLocally t"
    "closeForShutdownErr w = closeForShutdownErr t"
    using T(1,2) unfolding w_def call_control_core by (auto simp: call_sender_def grows_def)
  note C = complete_core_done [OF w(1) new uw]
  show "core_ok f fs u" "settled u" "grows s u" "cancelledRemotely u = cancelledRemotely s" "readChan s \<Longrightarrow> readChan u"
    "readChan u \<or> cancelledLocally u = cancelledLocally s \<or> errorRead s \<or> cancelledRemotely s"
    using C w T grows_trans [OF w(2) C(3)] by simp_all
  show "cancelledLocally u" if "closeForShutdownErr s = None" using cancelReadImpl_cancels [OF that, of code] c(1) C(5) w(5) by simp
qed

text \<open>What a waiting call depends on.\<close>

definition same_view :: "ReceiveStream \<Rightarrow> ReceiveStream \<Rightarrow> bool" where
  "same_view s u \<longleftrightarrow> readChan u = readChan s \<and> cancelledLocally u = cancelledLocally s \<and> cancelledRemotely u = cancelledRemotely s \<and>
     closeForShutdownErr u = closeForShutdownErr s \<and> cancelErr u = cancelErr s \<and> frameQueue u = frameQueue s \<and> finalOffset u = finalOffset s \<and>
     rs_readPos u = rs_readPos s \<and> currentFrame u = currentFrame s \<and> currentFrameIsLast u = currentFrameIsLast s \<and>
     readPosInFrame u = readPosInFrame s \<and> reliableSize u = reliableSize s \<and> rs_deadline u = rs_deadline s"

lemma same_view_waits:
  assumes "same_view s u"
  shows "nothing_to_read u = nothing_to_read s" "nothing_to_peek n u = nothing_to_peek n s"
proof -
  have v: "rest u = rest s" "frame_over u = frame_over s" "cancel_error u = cancel_error s" "isRemoteCancellationEffective u = isRemoteCancellationEffective s"
    "\<And>k m. peek_rest k m u = peek_rest k m s"
    using assms by (simp_all add: same_view_def rest_def current_bytes_def frame_over_def cancel_error_def isRemoteCancellationEffective_def peek_rest_def)
  have "peek_upto n u limit e other = peek_upto n s limit e other" for limit e other
    using assms by (simp add: peek_upto_def v same_view_def)
  then have "peek_beyond n u = peek_beyond n s" using assms by (simp add: peek_beyond_eq v same_view_def)
  then show "nothing_to_read u = nothing_to_read s" "nothing_to_peek n u = nothing_to_peek n s"
    using assms v(1,2,4) by (simp_all add: nothing_to_read_def nothing_to_peek_def same_view_def)
qed

text \<open>Control frames never dereference a nil error.\<close>

lemma getControlFrame_ok:
  assumes core: "core_ok f fs s"
  shows "\<exists>r u. getControlFrame (Some allowed) rtt now s = (Inr r, u) \<and> core_ok f fs u \<and> grows s u \<and> settled u = settled s \<and> same_view s u"
proof -
  note L = life_okD [OF core_okD(3) [OF core]]
  consider "\<not> queuedStopSending s" "\<not> queuedMaxStreamData s" | (stop) "queuedStopSending s" | (window) "\<not> queuedStopSending s" "queuedMaxStreamData s" by blast
  then show ?thesis
  proof cases
    case 1
    then show ?thesis using core by (intro exI [of _ "(None, False)"] exI [of _ s]) (simp add: getControlFrame_def same_view_def)
  next
    case stop
    then obtain sid code remote where e: "cancelErr s = Some (StreamError sid code remote)" using L(6,7) by (auto simp: pred_option_iff elim!: is_StreamError.elims(2))
    have "core_ok f fs (s\<lparr>queuedStopSending := False\<rparr>)" (is "core_ok f fs ?u")
    proof -
      have "life_ok ?u" using core_okD(3) [OF core] by (simp add: life_ok_def at_end_def uncredited_def isRemoteCancellationEffective_def)
      then show ?thesis using core data_cong [of ?u s] flow_cong [of ?u s] by (simp add: core_ok_def)
    qed
    then show ?thesis using stop e by (simp add: getControlFrame_def grows_def settled_def same_view_def)
  next
    case window
    obtain offset fc where g: "GetWindowUpdate (Some allowed) rtt now (flowController s) = (Inr offset, fc)"
      "bytesRead (fst fc) = bytesRead (stream_fc s)" "highestReceived (fst fc) = highestReceived (stream_fc s)"
      "receivedFinalOffset (fst fc) = receivedFinalOffset (stream_fc s)"
      using GetWindowUpdate_stream [of allowed rtt now "flowController s"] by auto
    have "core_ok f fs (s\<lparr>queuedMaxStreamData := False, flowController := fc\<rparr>)"
      using core_flow [of f fs "s\<lparr>queuedMaxStreamData := False\<rparr>" fc] core g(2-4) by simp
    then show ?thesis
      using window g
      by (intro exI [of _ "(Some (MaxStreamDataFrame (rs_streamID s) offset), False)"] exI [of _ "s\<lparr>queuedMaxStreamData := False, flowController := fc\<rparr>"])
        (simp add: getControlFrame_def on_flow_def eff_simps grows_def settled_def same_view_def)
  qed
qed

end
