(* ===== verification/Quic_Receiver.thy ===== *)
theory Quic_Receiver
  imports Quic_Streams
begin

text \<open>
  Runs of a receiving stream with its reader: the application reads, peeks, cancels and sets deadlines, frames and resets arrive,
  and waiting calls are woken. The theorems are about every such run.
\<close>

section \<open>The invariant of a run\<close>

fun result_bytes :: "call_result \<Rightarrow> byte list" where
  "result_bytes (Returned d e) = d"
| "result_bytes (Peeked d e) = []"

definition bytes_returned :: "call_result list \<Rightarrow> byte list" where
  "bytes_returned rs = concat (map result_bytes rs)"

text \<open>The result of a call that was made when \<open>pos\<close> bytes had been returned.\<close>

fun result_ok :: "(int \<Rightarrow> byte) \<Rightarrow> ReceiveStream \<Rightarrow> int \<Rightarrow> call_result \<Rightarrow> bool" where
  "result_ok f s pos (Returned d e) \<longleftrightarrow> e \<noteq> Some NilError \<and> e \<noteq> Some ReadBug \<and> (e = Some io_EOF \<longrightarrow> eof_at s (pos + int (length d)))"
| "result_ok f s pos (Peeked d e) \<longleftrightarrow> agrees f pos d \<and> e \<noteq> Some NilError \<and> e \<noteq> Some ReadBug \<and> (e = Some io_EOF \<longrightarrow> eof_at s (pos + int (length d)))"

fun results_ok :: "(int \<Rightarrow> byte) \<Rightarrow> ReceiveStream \<Rightarrow> int \<Rightarrow> call_result list \<Rightarrow> bool" where
  "results_ok f s pos [] \<longleftrightarrow> True"
| "results_ok f s pos (r # rs) \<longleftrightarrow> result_ok f s pos r \<and> results_ok f s (pos + int (length (result_bytes r))) rs"

lemma bytes_returned_append [simp]: "bytes_returned (xs @ ys) = bytes_returned xs @ bytes_returned ys"
  by (simp add: bytes_returned_def)

lemma bytes_returned_simps [simp]: "bytes_returned [] = []" "bytes_returned (r # rs) = result_bytes r @ bytes_returned rs"
  by (simp_all add: bytes_returned_def)

lemma results_ok_append [simp]:
  "results_ok f s pos (xs @ ys) \<longleftrightarrow> results_ok f s pos xs \<and> results_ok f s (pos + int (length (bytes_returned xs))) ys"
  by (induction xs arbitrary: pos) (auto simp: algebra_simps)

lemma result_ok_mono: "(\<And>p. eof_at s p \<Longrightarrow> eof_at t p) \<Longrightarrow> result_ok f s pos r \<Longrightarrow> result_ok f t pos r"
  by (cases r) auto

lemma results_ok_mono: "(\<And>p. eof_at s p \<Longrightarrow> eof_at t p) \<Longrightarrow> results_ok f s pos rs \<Longrightarrow> results_ok f t pos rs"
  by (induction rs arbitrary: pos) (auto intro: result_ok_mono)

text \<open>The shape of a waiting call.\<close>

fun reader_shape :: "reader \<Rightarrow> ReceiveStream \<Rightarrow> bool" where
  "reader_shape Idle s \<longleftrightarrow> True"
| "reader_shape (Reading n (hs, hc, got) d) s \<longleftrightarrow> got = [] \<and> currentFrame s = None \<and> \<not> currentFrameIsLast s"
| "reader_shape (Peeking n d) s \<longleftrightarrow> \<not> currentFrameIsLast s"

text \<open>A call that waits although no signal is pending has nothing to return, unless the peer has reset the stream.\<close>

fun reader_waits :: "reader \<Rightarrow> ReceiveStream \<Rightarrow> bool" where
  "reader_waits Idle s \<longleftrightarrow> True"
| "reader_waits (Reading n sofar d) s \<longleftrightarrow> readChan s \<or> cancelledRemotely s \<or> d = rs_deadline s \<and> nothing_to_read s"
| "reader_waits (Peeking n d) s \<longleftrightarrow> readChan s \<or> cancelledRemotely s \<or> d = rs_deadline s \<and> nothing_to_peek n s"

definition base_ok :: "(int \<Rightarrow> byte) \<Rightarrow> receiver \<Rightarrow> bool" where
  "base_ok f st \<longleftrightarrow> core_ok f (rx_frames st) (rx_stream st) \<and> settled (rx_stream st) \<and>
     bytes_returned (rx_results st) = first_bytes f (rs_readPos (rx_stream st)) \<and> results_ok f (rx_stream st) 0 (rx_results st) \<and>
     reader_shape (rx_reader st) (rx_stream st)"

definition receiver_ok :: "(int \<Rightarrow> byte) \<Rightarrow> receiver \<Rightarrow> bool" where
  "receiver_ok f st \<longleftrightarrow> base_ok f st \<and> reader_waits (rx_reader st) (rx_stream st)"

lemma waiting_facts:
  assumes "reader_waits r s" and "r \<noteq> Idle" and "\<not> readChan s" "\<not> cancelledRemotely s"
  shows "\<not> cancelledLocally s" "closeForShutdownErr s = None" "timer_of r = rs_deadline s"
  using assms by (cases r; simp add: nothing_to_read_def nothing_to_peek_def timer_of_def)+

lemma length_first_bytes: "0 \<le> n \<Longrightarrow> int (length (first_bytes f n)) = n"
  by (simp add: first_bytes_def)

section \<open>Operations other than reading\<close>

lemma base_grows:
  assumes "base_ok f st" and "core_ok f fs t" "settled t" "grows (rx_stream st) t"
  shows "base_ok f (st\<lparr>rx_stream := t, rx_frames := fs\<rparr>)"
proof -
  let ?s = "rx_stream st"
  have "results_ok f t 0 (rx_results st)" using results_ok_mono [of ?s t] grows_eof [OF assms(4)] assms(1) by (simp add: base_ok_def)
  moreover have "reader_shape (rx_reader st) t"
    using assms(1,4) by (cases "(rx_reader st, t)" rule: reader_shape.cases) (auto simp: base_ok_def grows_def)
  ultimately show ?thesis using assms by (simp add: base_ok_def grows_def)
qed

lemma waits_signalled: "readChan s \<Longrightarrow> reader_waits r s"
  by (cases r) simp_all

text \<open>An operation without a signal must not change anything that a waiting call depends on.\<close>

lemma receiver_grows:
  assumes ok: "receiver_ok f st" and t: "core_ok f fs t" "settled t" "grows (rx_stream st) t"
    and mono: "cancelledRemotely (rx_stream st) \<Longrightarrow> cancelledRemotely t"
    and signal: "rx_reader st \<noteq> Idle \<Longrightarrow> \<not> cancelledLocally (rx_stream st) \<Longrightarrow> closeForShutdownErr (rx_stream st) = None \<Longrightarrow>
      \<not> cancelledRemotely (rx_stream st) \<Longrightarrow> readChan t \<or> same_view (rx_stream st) t"
    and keeps: "readChan (rx_stream st) \<Longrightarrow> readChan t"
  shows "receiver_ok f (st\<lparr>rx_stream := t, rx_frames := fs\<rparr>)"
proof -
  let ?s = "rx_stream st" and ?r = "rx_reader st"
  have base: "base_ok f (st\<lparr>rx_stream := t, rx_frames := fs\<rparr>)" using base_grows [OF _ t] ok by (simp add: receiver_ok_def)
  have "reader_waits ?r t"
  proof (cases "?r = Idle \<or> readChan t \<or> cancelledRemotely t")
    case True
    then show ?thesis by (cases ?r) auto
  next
    case False
    have w: "reader_waits ?r ?s" using ok by (simp add: receiver_ok_def)
    have n: "?r \<noteq> Idle" "\<not> readChan ?s" "\<not> cancelledRemotely ?s" using False mono keeps by auto
    have "same_view ?s t" using signal [OF n(1) waiting_facts(1,2) [OF w n] n(3)] False by simp
    then show ?thesis using w same_view_waits [of ?s t] by (cases ?r) (simp_all add: same_view_def)
  qed
  with base show ?thesis by (simp add: receiver_ok_def)
qed

lemma shape_not_last: "reader_shape r s \<Longrightarrow> r \<noteq> Idle \<Longrightarrow> \<not> currentFrameIsLast s"
  by (cases "(r, s)" rule: reader_shape.cases) auto

lemma frame_step_ok:
  assumes ok: "receiver_ok f st" and frame: "frame_ok f frame"
  shows "case stream_step (GotFrame frame cb now) st of Inl e \<Rightarrow> peer_error e | Inr st' \<Rightarrow> receiver_ok f st'"
proof -
  let ?s = "rx_stream st" and ?fs = "frames_after (rx_frames st) frame cb (rx_stream st)"
  have core: "core_ok f (rx_frames st) ?s" using ok by (simp add: receiver_ok_def base_ok_def)
  obtain r t where run: "handleStreamFrame frame cb now ?s = (r, t)" by (metis surj_pair)
  have step: "stream_step (GotFrame frame cb now) st = (case r of Inl e \<Rightarrow> Inl e | Inr _ \<Rightarrow> Inr (st\<lparr>rx_stream := t, rx_frames := ?fs\<rparr>))"
    by (simp add: run run_handler_def frames_after_def split: sum.split)
  note H = handleStreamFrame_ok [OF core frame, of cb now, unfolded run]
  show ?thesis
  proof (cases r)
    case (Inr x)
    then have h: "core_ok f ?fs t" "grows ?s t" "cancelledRemotely t = cancelledRemotely ?s" "readChan t \<or> cancelledLocally ?s" "readChan ?s \<longrightarrow> readChan t" "settled t"
      using H by (simp_all add: frame_post_def)
    then have "receiver_ok f (st\<lparr>rx_stream := t, rx_frames := ?fs\<rparr>)" by (intro receiver_grows [OF ok h(1,6,2)]) auto
    then show ?thesis unfolding step using Inr by simp
  next
    case (Inl e)
    then show ?thesis unfolding step using H by (simp add: frame_post_def)
  qed
qed

lemma receiver_stream: "receiver_ok f (st\<lparr>rx_stream := t, rx_frames := rx_frames st\<rparr>) \<Longrightarrow> receiver_ok f (st\<lparr>rx_stream := t\<rparr>)"
  by (simp add: receiver_ok_def base_ok_def)

lemma reset_step_ok:
  assumes ok: "receiver_ok f st" and "0 \<le> finalSize" "finalSize \<le> MaxByteCount"
  shows "case stream_step (GotReset code finalSize reliable now) st of Inl e \<Rightarrow> peer_error e | Inr st' \<Rightarrow> receiver_ok f st'"
proof -
  let ?s = "rx_stream st"
  have core: "core_ok f (rx_frames st) ?s" "settled ?s" using ok by (simp_all add: receiver_ok_def base_ok_def)
  obtain r t where run: "handleResetStreamFrame code finalSize reliable now ?s = (r, t)" by (metis surj_pair)
  note H = handleResetStreamFrame_ok [OF core assms(2,3), of code reliable now, unfolded run]
  show ?thesis
  proof (cases r)
    case (Inr x)
    then have h: "core_ok f (rx_frames st) t" "settled t" "grows ?s t" "readChan ?s \<longrightarrow> readChan t" "cancelledRemotely ?s \<longrightarrow> cancelledRemotely t"
      "readChan t \<or> cancelledRemotely ?s \<or> cancelledLocally ?s \<or> closeForShutdownErr ?s \<noteq> None"
      using H by (simp_all add: reset_post_def)
    then have "receiver_ok f (st\<lparr>rx_stream := t, rx_frames := rx_frames st\<rparr>)" by (intro receiver_grows [OF ok h(1-3)]) auto
    from receiver_stream [OF this] Inr show ?thesis by (simp add: run run_handler_def)
  qed (use H in \<open>simp add: run run_handler_def reset_post_def\<close>)
qed

lemma cancel_step_ok:
  assumes ok: "receiver_ok f st"
  shows "receiver_ok f (st\<lparr>rx_stream := CancelRead code (rx_stream st)\<rparr>)"
proof -
  let ?s = "rx_stream st"
  have core: "core_ok f (rx_frames st) ?s" and shape: "reader_shape (rx_reader st) ?s" using ok by (simp_all add: receiver_ok_def base_ok_def)
  note C = CancelRead_ok [OF core refl, of code]
  have "readChan (CancelRead code ?s)"
    if "rx_reader st \<noteq> Idle" "\<not> cancelledLocally ?s" "closeForShutdownErr ?s = None" "\<not> cancelledRemotely ?s"
    using C(6,7) that life_okD(1) [OF core_okD(3) [OF core]] shape_not_last [OF shape]
    by (auto simp: isRemoteCancellationEffective_def at_end_def)
  then have "receiver_ok f (st\<lparr>rx_stream := CancelRead code ?s, rx_frames := rx_frames st\<rparr>)"
    using C(4,5) by (intro receiver_grows [OF ok C(1-3)]) auto
  then show ?thesis by (rule receiver_stream)
qed

lemma other_steps_ok:
  assumes ok: "receiver_ok f st"
  shows "receiver_ok f (st\<lparr>rx_stream := SetReadDeadline t (rx_stream st)\<rparr>)"
    "receiver_ok f (st\<lparr>rx_stream := closeForShutdown err (rx_stream st)\<rparr>)"
    "receiver_ok f (st\<lparr>rx_stream := (rx_stream st)\<lparr>flowController := (stream_fc (rx_stream st), conn)\<rparr>\<rparr>)"
    "case stream_step (SendControl allowed rtt now) st of Inl e \<Rightarrow> False | Inr st' \<Rightarrow> receiver_ok f st'"
proof -
  let ?s = "rx_stream st"
  have core: "core_ok f (rx_frames st) ?s" and set: "settled ?s" using ok by (simp_all add: receiver_ok_def base_ok_def)
  have quiet: "receiver_ok f (st\<lparr>rx_stream := u\<rparr>)"
    if "core_ok f (rx_frames st) u" "settled u" "grows ?s u" "cancelledRemotely u = cancelledRemotely ?s" "readChan u \<or> same_view ?s u" for u
    by (rule receiver_stream, rule receiver_grows [OF ok that(1-3)]) (use that in \<open>auto simp: same_view_def\<close>)
  show "receiver_ok f (st\<lparr>rx_stream := SetReadDeadline t ?s\<rparr>)"
    by (rule quiet) (use core set in \<open>auto simp: SetReadDeadline_def signalRead_def settled_def grows_def\<close>)
  show "receiver_ok f (st\<lparr>rx_stream := closeForShutdown err ?s\<rparr>)"
    by (rule quiet) (use core set in \<open>auto simp: closeForShutdown_def signalRead_def settled_def grows_def\<close>)
  show "receiver_ok f (st\<lparr>rx_stream := ?s\<lparr>flowController := (stream_fc ?s, conn)\<rparr>\<rparr>)"
    by (rule quiet) (use core_flow [OF core, of "(stream_fc ?s, conn)"] set in \<open>auto simp: settled_def grows_def same_view_def\<close>)
  obtain r u where "getControlFrame (Some allowed) rtt now ?s = (Inr r, u)" "core_ok f (rx_frames st) u" "grows ?s u" "settled u = settled ?s" "same_view ?s u"
    using getControlFrame_ok [OF core, of allowed rtt now] by blast
  then show "case stream_step (SendControl allowed rtt now) st of Inl e \<Rightarrow> False | Inr st' \<Rightarrow> receiver_ok f st'"
    using quiet [of u] set by (simp add: same_view_def)
qed

section \<open>Reading and peeking\<close>

lemma call_other_core:
  assumes "c \<noteq> onStreamCompleted (rs_streamID t)"
  shows "core_ok f fs (call_sender q c t) \<longleftrightarrow> core_ok f fs t" "settled (call_sender q c t) = settled t" "grows t (call_sender q c t)"
proof -
  let ?u = "call_sender q c t"
  have "life_ok ?u \<longleftrightarrow> life_ok t"
    using assms by (simp add: call_sender_def life_ok_def at_end_def uncredited_def isRemoteCancellationEffective_def)
  then show "core_ok f fs ?u \<longleftrightarrow> core_ok f fs t"
    using data_cong [of ?u t] flow_cong [of ?u t] by (simp add: core_ok_def) (simp add: call_sender_def)
  show "settled ?u = settled t" "grows t ?u" by (simp_all add: call_sender_def settled_def grows_def)
qed

lemma read_ends_ok:
  assumes core: "core_ok f fs t" and "settled s" and "kept s t" and u: "u = read_ends hs hc t"
  shows "core_ok f fs u" "settled u" "grows t u"
proof -
  obtain newly v where new: "isNewlyCompleted t = (newly, v)" by (metis surj_pair)
  define w where "w = call_sender newly (onStreamCompleted (rs_streamID v)) v"
  have "bytesRead (stream_fc t) = highestReceived (stream_fc t) \<or> uncredited t" if newly
  proof -
    have "\<not> completed t" "finalOffset t \<noteq> MaxByteCount" "cancelledLocally t \<or> errorRead t"
      using new that by (auto simp: isNewlyCompleted_def split: if_splits)
    moreover from this have "\<not> cancelledLocally t" using assms(2,3) by (auto simp: settled_def kept_def)
    ultimately show ?thesis using end_credited(1) [OF core] by auto
  qed
  then have w: "core_ok f fs w" "settled w" "grows t w"
    using complete_core [OF core new, of False w] by (simp_all add: w_def abandon_if_def)
  define x where "x = call_sender hs (onHasStreamControlFrame (rs_streamID v)) w"
  have x: "core_ok f fs x" "settled x" "grows w x" using w call_other_core [where c = "onHasStreamControlFrame (rs_streamID v)" and t = w and q = hs] by (simp_all add: x_def)
  have ux: "u = call_sender hc onHasConnectionData x" by (simp add: u read_ends_def new w_def x_def)
  have "core_ok f fs u" "settled u" "grows x u" using x call_other_core [where c = onHasConnectionData and t = x and q = hc] by (simp_all add: ux)
  then show "core_ok f fs u" "settled u" "grows t u" using grows_trans [OF w(3) grows_trans [OF x(3)]] by simp_all
qed

lemma kept_eof: "kept s t \<Longrightarrow> eof_at t p = eof_at s p"
  by (simp add: kept_def eof_at_def)

lemma read_continues_ok:
  assumes "settled s" and bytes: "bytes_returned (rx_results st) = out" and res: "results_ok f s 0 (rx_results st)"
    and post: "read_post f (rx_frames st) out s r"
  shows "receiver_ok f (read_continues n r st)"
proof (cases r)
  case (Pair o' t)
  show ?thesis
  proof (cases o')
    case (ReadDone sofar e)
    obtain hs hc got where sofar: "sofar = (hs, hc, got)" by (cases sofar)
    have p: "core_ok f (rx_frames st) t" "kept s t" "out @ got = first_bytes f (rs_readPos t)" "err_ok e t"
      using post by (simp_all add: Pair ReadDone sofar read_post_def returns_ok_def)
    note E = read_ends_ok [OF p(1) assms(1) p(2) refl, of hs hc]
    have pos: "int (length out) + int (length got) = rs_readPos t"
      using arg_cong [OF p(3), of length] length_first_bytes [of "rs_readPos t" f] data_okD(5) [OF core_okD(1) [OF p(1)]] by simp
    have "result_ok f t (int (length out)) (Returned got e)"
      using p(4) at_end_eof [OF p(1)] pos by (auto simp: err_ok_def at_end_def frame_over_def)
    moreover have "results_ok f t 0 (rx_results st)" using res kept_eof [OF p(2)] results_ok_mono [of s t] by simp
    ultimately have "results_ok f t 0 (rx_results st @ [Returned got e])" using bytes by simp
    then have "results_ok f (read_ends hs hc t) 0 (rx_results st @ [Returned got e])" using results_ok_mono grows_eof [OF E(3)] by blast
    moreover have "rs_readPos (read_ends hs hc t) = rs_readPos t" using E(3) by (simp add: grows_def)
    ultimately show ?thesis
      using E(1,2) p(3) bytes by (simp add: Pair ReadDone sofar read_continues_def receiver_ok_def base_ok_def)
  next
    case (ReadWaits sofar)
    obtain hs hc got where sofar: "sofar = (hs, hc, got)" by (cases sofar)
    have p: "core_ok f (rx_frames st) t" "kept s t" "out = first_bytes f (rs_readPos t)" "got = []" "nothing_to_read t"
      using post by (simp_all add: Pair ReadWaits sofar read_post_def returns_ok_def)
    have "settled t"
      using p(2,5) assms(1) life_okD(1) [OF core_okD(3) [OF p(1)]] by (auto simp: settled_def kept_def nothing_to_read_def at_end_def)
    moreover have "results_ok f t 0 (rx_results st)" using res kept_eof [OF p(2)] results_ok_mono [of s t] by simp
    ultimately show ?thesis
      using p bytes by (simp add: Pair ReadWaits sofar read_continues_def receiver_ok_def base_ok_def nothing_to_read_def)
  qed
qed

lemma peek_continues_ok:
  assumes "settled s" and bytes: "bytes_returned (rx_results st) = first_bytes f (rs_readPos s)" and res: "results_ok f s 0 (rx_results st)"
    and "0 \<le> rs_readPos s" and post: "peek_post f (rx_frames st) n s r"
  shows "case peek_continues n r st of Inl e \<Rightarrow> False | Inr st' \<Rightarrow> receiver_ok f st'"
proof -
  obtain out t where r: "r = Some (out, t)" using post by (auto simp: peek_post_def split: option.splits)
  have p: "core_ok f (rx_frames st) t" "kept s t" "rs_readPos t = rs_readPos s" "errorRead t = errorRead s"
    "case out of PeekDone d e \<Rightarrow> peek_ok f t d e | PeekWaits \<Rightarrow> nothing_to_peek n t"
    using post by (simp_all add: r peek_post_def)
  have set: "settled t" using p(2,4) assms(1) by (simp add: settled_def kept_def)
  have res': "results_ok f t 0 (rx_results st)" using res kept_eof [OF p(2)] results_ok_mono [of s t] by simp
  have len: "int (length (bytes_returned (rx_results st))) = rs_readPos t" using bytes length_first_bytes [OF assms(4)] p(3) by simp
  show ?thesis
  proof (cases out)
    case (PeekDone d e)
    then have "result_ok f t (rs_readPos t) (Peeked d e)" using p(5) by (simp add: peek_ok_def)
    then have "results_ok f t 0 (rx_results st @ [Peeked d e])" using res' len by simp
    then show ?thesis using p(1,3) set bytes by (simp add: r PeekDone peek_continues_def receiver_ok_def base_ok_def)
  next
    case PeekWaits
    then have "\<not> currentFrameIsLast t" "nothing_to_peek n t" using p(5) by (simp_all add: nothing_to_peek_def)
    then show ?thesis using p(1,3) set bytes res' by (simp add: r PeekWaits peek_continues_def receiver_ok_def base_ok_def)
  qed
qed

lemma wake_ok:
  assumes ok: "base_ok f st"
  shows "case wake clock st of Inl e \<Rightarrow> False | Inr st' \<Rightarrow> rx_reader st \<noteq> Idle \<longrightarrow> receiver_ok f st'"
proof -
  let ?s = "rx_stream st"
  have b: "core_ok f (rx_frames st) ?s" "settled ?s" "bytes_returned (rx_results st) = first_bytes f (rs_readPos ?s)" "results_ok f ?s 0 (rx_results st)"
    "reader_shape (rx_reader st) ?s" using ok by (simp_all add: base_ok_def)
  show ?thesis
  proof (cases "rx_reader st")
    case Idle
    then show ?thesis by (simp add: wake_def)
  next
    case (Reading n sofar d)
    obtain hs hc got where "sofar = (hs, hc, got)" by (cases sofar)
    then have "sofar = (hs, hc, [])" "currentFrame ?s = None" "\<not> currentFrameIsLast ?s" using b(5) Reading by simp_all
    then show ?thesis using read_continues_ok [OF b(2,3,4) read_wake_ok [OF b(1) _ _ refl]] Reading by (simp add: wake_def)
  next
    case (Peeking n d)
    then have "\<not> currentFrameIsLast ?s" using b(5) by simp
    from peek_continues_ok [OF b(2,3,4) _ peek_wake_ok [OF b(1) this, of n "clock 0"]] data_okD(5) [OF core_okD(1) [OF b(1)]]
    show ?thesis by (simp add: wake_def Peeking split: sum.splits)
  qed
qed

section \<open>Runs\<close>

text \<open>The frames carry the bytes of the stream \<open>f\<close>, within the limits that the frame parser checks.\<close>

fun stream_event_ok :: "(int \<Rightarrow> byte) \<Rightarrow> stream_event \<Rightarrow> bool" where
  "stream_event_ok f (GotFrame frame cb now) \<longleftrightarrow> frame_ok f frame"
| "stream_event_ok f (GotReset code finalSize reliable now) \<longleftrightarrow> 0 \<le> reliable \<and> reliable \<le> finalSize \<and> finalSize \<le> MaxByteCount"
| "stream_event_ok f _ \<longleftrightarrow> True"

lemma stream_step_ok:
  assumes ok: "receiver_ok f st" and "stream_event_ok f e"
  shows "case stream_step e st of Inl err \<Rightarrow> peer_error err | Inr st' \<Rightarrow> receiver_ok f st'"
proof -
  have base: "base_ok f st" using ok by (simp add: receiver_ok_def)
  then have b: "core_ok f (rx_frames st) (rx_stream st)" "settled (rx_stream st)"
    "bytes_returned (rx_results st) = first_bytes f (rs_readPos (rx_stream st))" "results_ok f (rx_stream st) 0 (rx_results st)"
    by (simp_all add: base_ok_def)
  show ?thesis
  proof (cases e)
    case (CallRead n clock)
    then show ?thesis using ok read_continues_ok [OF b(2-4) readImpl_ok [OF b(1) refl]] by (simp add: Read_def)
  next
    case (CallPeek n now)
    have "receiver_ok f (st\<lparr>rx_results := rx_results st @ [Peeked [] None]\<rparr>)"
      using ok by (simp add: receiver_ok_def base_ok_def agrees_def)
    then show ?thesis
      using ok CallPeek peek_continues_ok [OF b(2-4) _ peek_turn_ok [OF b(1)], of n now] data_okD(5) [OF core_okD(1) [OF b(1)]]
      by (auto simp: stream_Peek_def split: sum.splits)
  next
    case (WakeSignal clock)
    let ?st = "st\<lparr>rx_stream := (rx_stream st)\<lparr>readChan := False\<rparr>\<rparr>"
    have "base_ok f ?st"
      using base_grows [OF base _ _ , of "rx_frames st" "(rx_stream st)\<lparr>readChan := False\<rparr>"] b(1,2)
      by (simp add: grows_def settled_def base_ok_def)
    from wake_ok [OF this, of clock] show ?thesis using ok WakeSignal by (auto split: sum.splits)
  next
    case (WakeTimer clock)
    have "rx_reader st \<noteq> Idle" if "\<not> mono_IsZero (timer_of (rx_reader st))" using that by (auto simp: timer_of_def mono_IsZero_def)
    then show ?thesis using ok WakeTimer wake_ok [OF base, of clock] by (auto split: sum.splits)
  next
    case (GotFrame frame cb now)
    then show ?thesis using frame_step_ok [OF ok] assms(2) by simp
  next
    case (GotReset code finalSize reliable now)
    then show ?thesis using reset_step_ok [OF ok, of finalSize code reliable now] assms(2) by simp
  next
    case (SendControl allowed rtt now)
    then show ?thesis using other_steps_ok(4) [OF ok, of allowed rtt now] by (auto split: sum.splits)
  qed (use ok cancel_step_ok other_steps_ok(1-3) in simp_all)
qed

lemma stream_run_ok:
  assumes "receiver_ok f st" and "list_all (stream_event_ok f) es"
  shows "case stream_run es st of Inl err \<Rightarrow> peer_error err | Inr st' \<Rightarrow> receiver_ok f st'"
  using assms
proof (induction es arbitrary: st)
  case (Cons e es)
  have step: "case stream_step e st of Inl err \<Rightarrow> peer_error err | Inr st' \<Rightarrow> receiver_ok f st'"
    using stream_step_ok [OF Cons.prems(1)] Cons.prems(2) by (simp del: stream_step.simps)
  show ?case
  proof (cases "stream_step e st")
    case (Inl err)
    then show ?thesis using step by simp
  next
    case (Inr st')
    then show ?thesis using step Cons.IH [of st'] Cons.prems(2) by simp
  qed
qed simp

definition new_receiver :: "int \<Rightarrow> stream_and_conn \<Rightarrow> receiver option" where
  "new_receiver sid fc = map_option (\<lambda>s. \<lparr>rx_stream = s, rx_reader = Idle, rx_results = [], rx_frames = []\<rparr>) (newReceiveStream sid fc)"

lemma new_receiver_ok:
  assumes "new_receiver sid (NewStreamFlowController i w m sw, conn) = Some st"
  shows "receiver_ok f st"
proof -
  obtain q where q: "newFrameSorter = Some q" "run_ok f [] (q, [], [])" using new_sorter_ok by blast
  have q': "sorter_ok f q" "readPos q = 0" "tokens q = {#}" "\<And>p. 0 \<le> p \<Longrightarrow> p < MaxByteCount \<Longrightarrow> in_gaps (gaps_of q) p"
    using q(2) sorter_okD(3) [of f q] by (auto simp: run_ok_def first_bytes_def arrived_def)
  define s where "s = rx_stream st"
  have st: "rx_reader st = Idle" "rx_results st = []" "rx_frames st = []" "rs_readPos s = 0"
    and s: "frameQueue s = q" "finalOffset s = MaxByteCount" "currentFrame s = None" "currentFrameDone s = None" "\<not> currentFrameIsLast s"
      "\<not> queuedStopSending s" "\<not> errorRead s" "\<not> completed s" "\<not> cancelledRemotely s" "\<not> cancelledLocally s" "cancelErr s = None"
      "reliableSize s = 0" "released s = []" "sender_calls s = []" "readPosInFrame s = 0" "stream_fc s = NewStreamFlowController i w m sw"
    using assms by (auto simp: new_receiver_def s_def newReceiveStream_def q(1))
  have "data_ok f [] s"
    using q' st(4) s by (simp add: data_ok_def rest_def current_bytes_def at_end_def pending_cb_def cb_set_def agrees_def arrived_def MaxByteCount_def)
  moreover have "flow_inv [] s"
    using st(4) s by (simp add: flow_inv_def isRemoteCancellationEffective_def arrived_def NewStreamFlowController_def MaxByteCount_def)
  moreover have "life_ok s" using s by (simp add: life_ok_def)
  ultimately show ?thesis using st s by (simp add: receiver_ok_def base_ok_def core_ok_def settled_def first_bytes_def flip: s_def)
qed

section \<open>Theorems\<close>

fun result_err :: "call_result \<Rightarrow> stream_err option" where
  "result_err (Returned d e) = e"
| "result_err (Peeked d e) = e"

fun result_data :: "call_result \<Rightarrow> byte list" where
  "result_data (Returned d e) = d"
| "result_data (Peeked d e) = d"

lemma run_receiver_ok:
  assumes "new_receiver sid (NewStreamFlowController i w m sw, conn) = Some st0" and "list_all (stream_event_ok f) es" and "stream_run es st0 = Inr st"
  shows "receiver_ok f st"
  using stream_run_ok [OF new_receiver_ok [OF assms(1)] assms(2)] assms(3) by simp

lemma eof_at_final:
  assumes "flow_inv fs s" and "eof_at s p"
  shows "p = finalOffset s"
  using flow_invD(3,4) [OF assms(1)] assms(2) by (auto simp: eof_at_def split: if_splits)

lemma results_at:
  assumes "receiver_ok f st" and "rx_results st = xs @ r # ys"
  shows "result_ok f (rx_stream st) (int (length (bytes_returned xs))) r"
  using assms by (simp add: receiver_ok_def base_ok_def)

lemma results_facts:
  assumes "receiver_ok f st" and "rx_results st = xs @ r # ys"
  shows "r = Peeked d e \<Longrightarrow> agrees f (int (length (bytes_returned xs))) d"
    "result_err r = Some io_EOF \<Longrightarrow> int (length (bytes_returned xs)) + int (length (result_data r)) = finalOffset (rx_stream st)"
    "result_err r \<noteq> Some NilError \<and> result_err r \<noteq> Some ReadBug"
  using results_at [OF assms] eof_at_final [OF core_okD(2)] assms(1) by (cases r; auto simp: receiver_ok_def base_ok_def)+

text \<open>
  C38. A stream delivers exactly the bytes of the peer. Let the frames that arrive be parts of one stream \<open>f\<close> within the range of
  offsets, and the resets have a reliable size within their final size. Whatever order they arrive in, however the application reads, peeks,
  cancels and sets deadlines, and however waiting calls are woken, the run stops only because the peer violates the final size or the flow
  control or leaves too many gaps, and otherwise the bytes that the calls of \<open>Read\<close> returned are, in order, the beginning of the stream up to the read position, all of which had
  arrived. \<open>Peek\<close> returns the bytes that follow those already read. A call that reports the end of the stream has reached the
  final size. No call returns a nil error or one of the errors that the code marks as a bug. Every buffer is released once, is
  still queued, or is the current frame.
\<close>

theorem stream_read_exact:
  assumes "new_receiver sid (NewStreamFlowController i w m sw, conn) = Some st0" and "list_all (stream_event_ok f) es"
  shows "case stream_run es st0 of Inl e \<Rightarrow> peer_error e
    | Inr st \<Rightarrow> bytes_returned (rx_results st) = first_bytes f (rs_readPos (rx_stream st)) \<and>
        (\<forall>p. 0 \<le> p \<longrightarrow> p < rs_readPos (rx_stream st) \<longrightarrow> arrived (rx_frames st) p) \<and>
        (\<forall>xs d e ys. rx_results st = xs @ Peeked d e # ys \<longrightarrow> agrees f (int (length (bytes_returned xs))) d) \<and>
        (\<forall>xs r ys. rx_results st = xs @ r # ys \<longrightarrow> result_err r = Some io_EOF \<longrightarrow>
           int (length (bytes_returned xs)) + int (length (result_data r)) = finalOffset (rx_stream st)) \<and>
        (\<forall>r \<in> set (rx_results st). result_err r \<noteq> Some NilError \<and> result_err r \<noteq> Some ReadBug) \<and>
        tokens (frameQueue (rx_stream st)) + mset (released (rx_stream st)) + pending_cb (rx_stream st) = mset (concat (map event_cb (rx_frames st)))"
proof (cases "stream_run es st0")
  case (Inl e)
  then show ?thesis using stream_run_ok [OF new_receiver_ok [OF assms(1)] assms(2)] by simp
next
  case (Inr st)
  note ok = run_receiver_ok [OF assms Inr]
  have b: "core_ok f (rx_frames st) (rx_stream st)" "bytes_returned (rx_results st) = first_bytes f (rs_readPos (rx_stream st))"
    using ok by (simp_all add: receiver_ok_def base_ok_def)
  note D = data_okD [OF core_okD(1) [OF b(1)]] and R = results_facts [OF ok]
  have arr: "arrived (rx_frames st) p" if "0 \<le> p" "p < rs_readPos (rx_stream st)" for p
    using queued_arrived [OF core_okD(1) [OF b(1)] that(1)] D(6) that(2) by simp
  have "\<forall>r \<in> set (rx_results st). result_err r \<noteq> Some NilError \<and> result_err r \<noteq> Some ReadBug"
  proof
    fix r assume "r \<in> set (rx_results st)"
    then obtain xs ys where "rx_results st = xs @ r # ys" using split_list by fast
    then show "result_err r \<noteq> Some NilError \<and> result_err r \<noteq> Some ReadBug" by (rule R(3))
  qed
  with Inr b(2) D(4) arr R(1,2) show ?thesis by simp
qed

text \<open>
  C39. In a run that the peer does not end by a violation, a stream is completed once, exactly when its final size is known and
  it was cancelled locally or an end was read, and it then has given back all its credit. The one exception are streams that the
  application cancelled before the peer reset them with a reliable size beyond the read position; the example below shows one that is
  completed although none of its bytes are credited.
\<close>

theorem stream_credited:
  assumes "new_receiver sid (NewStreamFlowController i w m sw, conn) = Some st0" and "list_all (stream_event_ok f) es"
    and "stream_run es st0 = Inr st" and "s = rx_stream st"
  shows "(completed s \<longleftrightarrow> (cancelledLocally s \<or> errorRead s) \<and> finalOffset s \<noteq> MaxByteCount) \<and>
    length (filter (\<lambda>c. c = onStreamCompleted (rs_streamID s)) (sender_calls s)) = (if completed s then 1 else 0) \<and>
    bytesRead (fst (flowController s)) \<le> highestReceived (fst (flowController s)) \<and>
    (completed s \<longrightarrow> \<not> (cancelledLocally s \<and> \<not> cancelledRemotely s \<and> rs_readPos s < reliableSize s) \<longrightarrow>
       bytesRead (fst (flowController s)) = highestReceived (fst (flowController s)))"
proof -
  have b: "core_ok f (rx_frames st) s" "settled s" using run_receiver_ok [OF assms(1-3)] assms(4) by (simp_all add: receiver_ok_def base_ok_def)
  note L = life_okD [OF core_okD(3) [OF b(1)]]
  have "completed s \<longleftrightarrow> (cancelledLocally s \<or> errorRead s) \<and> finalOffset s \<noteq> MaxByteCount" using L(2) b(2) unfolding settled_def by blast
  then show ?thesis using L(3,4) flow_invD(6) [OF core_okD(2) [OF b(1)]] unfolding uncredited_def by blast
qed

lemma next_missing:
  assumes "data_ok f fs s" and "flow_inv fs s" and "map_of (queue (frameQueue s)) (readPos (frameQueue s)) = None"
    and "readPos (frameQueue s) < finalOffset s"
  shows "\<not> arrived fs (readPos (frameQueue s))"
proof -
  note S = data_okD(1) [OF assms(1)]
  have "readPos (frameQueue s) < MaxByteCount" using flow_invD(3,4) [OF assms(2)] assms(4) by (simp split: if_splits)
  moreover from this have "in_gaps (gaps_of (frameQueue s)) (readPos (frameQueue s))"
    using Pop_run [OF S] assms(3) by (simp add: Pop_def)
  ultimately show ?thesis using data_okD(3) [OF assms(1)] sorter_okD(3) [OF S] by simp
qed

text \<open>
  C40. No wake-up is lost. In a run that the peer does not end by a violation, and as long as it has not reset the stream, a call of \<open>Read\<close> or \<open>Peek\<close> that waits while no signal is pending
  has nothing to report: the stream is neither cancelled nor shut down nor at its end, the next byte has not arrived if the call is a \<open>Read\<close>,
  and if it were woken before its deadline it would wait again.
\<close>

theorem no_lost_wakeup:
  assumes "new_receiver sid (NewStreamFlowController i w m sw, conn) = Some st0" and "list_all (stream_event_ok f) es"
    and "stream_run es st0 = Inr st" and "s = rx_stream st" and "rx_reader st \<noteq> Idle" and "\<not> readChan s" and "\<not> cancelledRemotely s"
  shows "\<not> cancelledLocally s \<and> closeForShutdownErr s = None \<and> rs_readPos s < finalOffset s \<and> timer_of (rx_reader st) = rs_deadline s \<and>
    (\<forall>n sofar d. rx_reader st = Reading n sofar d \<longrightarrow> \<not> arrived (rx_frames st) (rs_readPos s)) \<and>
    (\<not> deadline_over (clock 0) s \<longrightarrow>
      (\<exists>st'. wake clock st = Inr st' \<and> rx_reader st' = rx_reader st \<and> rx_results st' = rx_results st))"
proof -
  have ok: "core_ok f (rx_frames st) s" "reader_waits (rx_reader st) s" "reader_shape (rx_reader st) s"
    using run_receiver_ok [OF assms(1-3)] assms(4) by (simp_all add: receiver_ok_def base_ok_def)
  note W = waiting_facts [OF ok(2) assms(5-7)] and D = data_okD [OF core_okD(1) [OF ok(1)]]
  show ?thesis
  proof (cases "rx_reader st")
    case Idle
    then show ?thesis using assms(5) by simp
  next
    case (Reading n sofar d)
    obtain hs hc got where "sofar = (hs, hc, got)" by (cases sofar)
    then have r: "sofar = (hs, hc, [])" "currentFrame s = None" "nothing_to_read s" "d = rs_deadline s"
      using ok(2,3) Reading assms(6,7) by simp_all
    have pos: "readPos (frameQueue s) = rs_readPos s" using D(6) r(2) by (simp add: rest_def current_bytes_def)
    have before: "rs_readPos s < finalOffset s" using r(3) assms(7) pos by (simp add: nothing_to_read_def)
    have "\<not> arrived (rx_frames st) (rs_readPos s)"
      using next_missing [OF core_okD(1,2) [OF ok(1)]] r(3) before by (simp add: nothing_to_read_def pos)
    then show ?thesis
      using W before Reading read_again [OF r(3), of clock n hs hc] r(1,4) assms(4)
      by (simp add: wake_def read_continues_def)
  next
    case (Peeking n d)
    then have p: "nothing_to_peek n s" "d = rs_deadline s" using ok(2) assms(6,7) by simp_all
    have "rs_readPos s < finalOffset s" using p(1) by (simp add: nothing_to_peek_def)
    moreover have "\<exists>st'. wake clock st = Inr st' \<and> rx_reader st' = rx_reader st \<and> rx_results st' = rx_results st" if late: "\<not> deadline_over (clock 0) s"
    proof -
      obtain s' where s': "peek_wake n (clock 0) s = Some (PeekWaits, s')" using peek_again [OF p(1) late] by blast
      have "\<not> currentFrameIsLast s" using p(1) by (simp add: nothing_to_peek_def)
      from peek_wake_ok [OF ok(1) this, of n "clock 0"] have "rs_deadline s' = rs_deadline s" by (simp add: s' peek_post_def kept_def)
      then show ?thesis using s' Peeking p(2) assms(4) by (simp add: wake_def peek_continues_def)
    qed
    ultimately show ?thesis using W Peeking by simp
  qed
qed

section \<open>Cancelling while a call waits for reliable data\<close>

text \<open>The parts of the state that decide whether a call is woken.\<close>

definition signals :: "ReceiveStream \<Rightarrow> bool \<times> bool \<times> bool" where
  "signals s = (readChan s, cancelledLocally s, cancelledRemotely s)"

lemma signals_simps [simp]:
  "signals (call_sender q c s) = signals s" "signals (abandon_if b s) = signals s" "signals (snd (isNewlyCompleted s)) = signals s"
  "signals (s\<lparr>flowController := fc\<rparr>) = signals s" "signals (s\<lparr>finalOffset := x\<rparr>) = signals s" "signals (s\<lparr>reliableSize := x\<rparr>) = signals s"
  "signals (s\<lparr>queuedStopSending := b\<rparr>) = signals s" "signals (s\<lparr>queuedMaxStreamData := b\<rparr>) = signals s"
  by (simp_all add: signals_def call_sender_def abandon_if_def isNewlyCompleted_def)

lemma signals_frame:
  assumes "cancelledLocally s"
  shows "signals (snd (handleStreamFrame frame cb now s)) = signals s"
proof -
  obtain r fc where up: "UpdateHighestReceived (sf_Offset frame + int (length (sf_Data frame))) (sf_Fin frame) now (flowController s) = (r, fc)"
    by (metis surj_pair)
  have "signals (snd (handleStreamFrameImpl frame cb now s)) = signals s"
    using up assms by (cases r) (simp_all add: handleStreamFrameImpl_def Let_def on_flow_def eff_simps)
  then show ?thesis by (simp add: handleStreamFrame_def split: prod.split) (metis signals_simps(3) snd_conv)
qed

lemma signals_reset:
  assumes "cancelledRemotely s"
  shows "signals (snd (handleResetStreamFrame code finalSize reliable now s)) = signals s"
proof -
  obtain r fc where up: "UpdateHighestReceived finalSize True now (flowController s) = (r, fc)" by (metis surj_pair)
  have "signals (snd (handleResetStreamFrameImpl code finalSize reliable now s)) = signals s"
    using up assms by (cases r) (simp_all add: handleResetStreamFrameImpl_def on_flow_def eff_simps abandon_if_def)
  then show ?thesis by (simp add: handleResetStreamFrame_def split: prod.split) (metis signals_simps(3) snd_conv)
qed

lemma signals_cancel: "cancelledLocally s \<Longrightarrow> signals (CancelRead code s) = signals s"
  by (simp add: CancelRead_def cancelReadImpl_def split: prod.split) (metis signals_simps(3) snd_conv)

lemma signals_control: "signals (snd (getControlFrame allow rtt now s)) = signals s"
proof -
  obtain r fc where "GetWindowUpdate allow rtt now (flowController s) = (r, fc)" by (metis surj_pair)
  then show ?thesis
    by (cases r) (simp_all add: getControlFrame_def on_flow_def eff_simps split: option.split stream_err.split)
qed

definition stuck :: "receiver \<Rightarrow> bool" where
  "stuck st \<longleftrightarrow> rx_reader st \<noteq> Idle \<and> mono_IsZero (timer_of (rx_reader st)) \<and> signals (rx_stream st) = (False, True, True)"

fun wakes_up :: "stream_event \<Rightarrow> bool" where
  "wakes_up (CallDeadline t) \<longleftrightarrow> True"
| "wakes_up (Shutdown err) \<longleftrightarrow> True"
| "wakes_up _ \<longleftrightarrow> False"

lemma stuck_step:
  assumes "stuck st" and "\<not> wakes_up e" and "stream_step e st = Inr st'"
  shows "stuck st' \<and> rx_reader st' = rx_reader st \<and> rx_results st' = rx_results st"
proof -
  let ?s = "rx_stream st"
  have s: "\<not> readChan ?s" "cancelledLocally ?s" "cancelledRemotely ?s" using assms(1) by (simp_all add: stuck_def signals_def)
  have move: ?thesis if "st' = st\<lparr>rx_stream := u\<rparr>" "signals u = signals ?s" for u using that assms(1) by (simp add: stuck_def)
  show ?thesis
  proof (cases e)
    case (GotFrame frame cb now)
    obtain r u where u: "handleStreamFrame frame cb now ?s = (r, u)" by (metis surj_pair)
    then have "st' = st\<lparr>rx_stream := u\<rparr>" using assms(3) s(2) GotFrame by (auto simp: run_handler_def split: sum.splits)
    then show ?thesis using move [of u] signals_frame [OF s(2), of frame cb now] u by simp
  next
    case (GotReset code finalSize reliable now)
    obtain r u where u: "handleResetStreamFrame code finalSize reliable now ?s = (r, u)" by (metis surj_pair)
    then have "st' = st\<lparr>rx_stream := u\<rparr>" using assms(3) s(2) GotReset by (auto simp: run_handler_def split: sum.splits)
    then show ?thesis using move [of u] signals_reset [OF s(3), of code finalSize reliable now] u by simp
  next
    case (CallCancel code)
    then have "st' = st\<lparr>rx_stream := CancelRead code ?s\<rparr>" using assms(3) by simp
    then show ?thesis by (rule move) (rule signals_cancel [OF s(2)])
  next
    case (SendControl allowed rtt now)
    obtain r u where u: "getControlFrame (Some allowed) rtt now ?s = (r, u)" by (metis surj_pair)
    then have "st' = st\<lparr>rx_stream := u\<rparr>" using assms(3) s(2) SendControl by (auto simp: run_handler_def split: sum.splits)
    then show ?thesis using move [of u] signals_control [of "Some allowed" rtt now ?s] u by simp
  next
    case (OthersRead conn)
    then have "st' = st\<lparr>rx_stream := ?s\<lparr>flowController := (fst (flowController ?s), conn)\<rparr>\<rparr>" using assms(3) by simp
    then show ?thesis by (rule move) simp
  qed (use assms s in \<open>auto simp: stuck_def\<close>)
qed

lemma stuck_run:
  assumes "stuck st" and "list_all (\<lambda>e. \<not> wakes_up e) es" and "stream_run es st = Inr st'"
  shows "stuck st' \<and> rx_reader st' = rx_reader st \<and> rx_results st' = rx_results st"
  using assms
proof (induction es arbitrary: st)
  case (Cons e es)
  obtain st1 where st1: "stream_step e st = Inr st1" "stream_run es st1 = Inr st'" using Cons.prems(3) by (cases "stream_step e st") auto
  then show ?case using stuck_step [OF Cons.prems(1) _ st1(1)] Cons.IH [OF _ _ st1(2)] Cons.prems(2) by simp
qed simp

text \<open>
  Cancelling does not wake a call that waits for the reliable part of a stream that the peer has reset: \<open>CancelRead\<close> sends no signal then,
  frames and resets that arrive later do not either, and so the call, which has no deadline, never returns unless the
  application sets a deadline or the connection shuts the stream down.
\<close>

theorem cancel_leaves_reader:
  assumes "rx_reader st \<noteq> Idle" and "mono_IsZero (timer_of (rx_reader st))" and "cancelledRemotely (rx_stream st)"
    and "closeForShutdownErr (rx_stream st) = None" and "\<not> readChan (rx_stream st)" and "list_all (\<lambda>e. \<not> wakes_up e) es"
    and "stream_run (CallCancel code # es) st = Inr st'"
  shows "cancelledLocally (rx_stream st') \<and> rx_reader st' = rx_reader st \<and> rx_results st' = rx_results st"
proof -
  let ?st = "st\<lparr>rx_stream := CancelRead code (rx_stream st)\<rparr>"
  have "signals (snd (cancelReadImpl code (rx_stream st))) = (False, True, True)"
    using assms(3-5) by (auto simp: cancelReadImpl_def signals_def Let_def)
  then have "signals (CancelRead code (rx_stream st)) = (False, True, True)"
    by (simp add: CancelRead_def split: prod.split) (metis signals_simps(3) snd_conv)
  then have "stuck ?st" using assms(1,2) by (simp add: stuck_def)
  from stuck_run [OF this assms(6)] assms(7) show ?thesis by (auto simp: stuck_def signals_def)
qed

section \<open>An example\<close>

text \<open>A stream whose end arrives first, while a call of \<open>Read\<close> waits for its beginning.\<close>

definition a_receiver :: receiver where
  "a_receiver = the (new_receiver 4 (NewStreamFlowController 0 100 200 0, fc_conn (flow_start 100 200)))"

definition waiting_events :: "stream_event list" where
  "waiting_events = [GotFrame \<lparr>sf_StreamID = 4, sf_Offset = 2, sf_Data = [3, 4], sf_Fin = True, sf_DataLenPresent = True\<rparr> 7 1,
     CallRead 10 (\<lambda>_. 1), WakeSignal (\<lambda>_. 2)]"

definition arriving_events :: "stream_event list" where
  "arriving_events = waiting_events @
     [GotFrame \<lparr>sf_StreamID = 4, sf_Offset = 0, sf_Data = [1, 2], sf_Fin = False, sf_DataLenPresent = True\<rparr> 8 3, WakeSignal (\<lambda>_. 3)]"

lemma a_receiver_new: "new_receiver 4 (NewStreamFlowController 0 100 200 0, fc_conn (flow_start 100 200)) = Some a_receiver"
proof -
  obtain q where q: "newFrameSorter = Some q" using new_sorter_ok by blast
  show ?thesis unfolding a_receiver_def new_receiver_def newReceiveStream_def q by simp
qed

lemma example_events_ok:
  "list_all (stream_event_ok (\<lambda>p. word_of_int p + 1)) waiting_events" "list_all (stream_event_ok (\<lambda>p. word_of_int p + 1)) arriving_events"
  by (simp_all add: waiting_events_def arriving_events_def frame_ok_def agrees_def MaxByteCount_def less_Suc_eq numeral_2_eq_2)

lemma waiting_run:
  "case stream_run waiting_events a_receiver of Inl e \<Rightarrow> False
   | Inr st \<Rightarrow> rx_reader st = Reading 10 (False, False, []) 0 \<and> \<not> readChan (rx_stream st) \<and> \<not> cancelledRemotely (rx_stream st)"
  by code_simp

lemma arriving_run:
  "case stream_run arriving_events a_receiver of Inl e \<Rightarrow> False
   | Inr st \<Rightarrow> rx_results st = [Returned [1, 2, 3, 4] (Some io_EOF)] \<and> completed (rx_stream st) \<and> \<not> cancelledLocally (rx_stream st)"
  by code_simp

theorem stream_read_exact_witness:
  "case stream_run arriving_events a_receiver of Inl e \<Rightarrow> False
   | Inr st \<Rightarrow> rx_results st = [Returned [1, 2, 3, 4] (Some io_EOF)] \<and> finalOffset (rx_stream st) = 4 \<and>
       [1, 2, 3, 4] = first_bytes (\<lambda>p. word_of_int p + 1) (rs_readPos (rx_stream st))"
proof -
  obtain st where st: "stream_run arriving_events a_receiver = Inr st" "rx_results st = [Returned [1, 2, 3, 4] (Some io_EOF)]"
    using arriving_run by (auto split: sum.splits)
  note run = stream_read_exact [OF a_receiver_new example_events_ok(2), unfolded st(1) sum.case]
  have "int (length (bytes_returned [])) + int (length (result_data (Returned [1, 2, 3, 4] (Some io_EOF)))) = finalOffset (rx_stream st)"
    by (rule run [THEN conjunct2, THEN conjunct2, THEN conjunct2, THEN conjunct1, rule_format, of "[]" _ "[]"]) (simp_all add: st(2))
  moreover have "bytes_returned (rx_results st) = first_bytes (\<lambda>p. word_of_int p + 1) (rs_readPos (rx_stream st))" using run by blast
  ultimately show ?thesis by (simp add: st)
qed

theorem stream_credited_witness:
  "case stream_run arriving_events a_receiver of Inl e \<Rightarrow> False
   | Inr st \<Rightarrow> completed (rx_stream st) \<and> filter (\<lambda>c. c = onStreamCompleted 4) (sender_calls (rx_stream st)) = [onStreamCompleted 4] \<and>
       bytesRead (fst (flowController (rx_stream st))) = highestReceived (fst (flowController (rx_stream st)))"
proof -
  obtain st where st: "stream_run arriving_events a_receiver = Inr st" "completed (rx_stream st)" "\<not> cancelledLocally (rx_stream st)"
    using arriving_run by (auto split: sum.splits)
  have calls: "case stream_run arriving_events a_receiver of Inl e \<Rightarrow> False
    | Inr st \<Rightarrow> filter (\<lambda>c. c = onStreamCompleted 4) (sender_calls (rx_stream st)) = [onStreamCompleted 4]" by code_simp
  from stream_credited [OF a_receiver_new example_events_ok(2) st(1) refl]
  have "bytesRead (fst (flowController (rx_stream st))) = highestReceived (fst (flowController (rx_stream st)))" using st(2,3) by blast
  then show ?thesis using calls st by simp
qed

text \<open>The exception: the stream is cancelled, then reset with two reliable bytes, and completed with no byte credited.\<close>

lemma uncredited_stream:
  "case stream_run [CallCancel 0, GotReset 0 4 2 1] a_receiver of Inl e \<Rightarrow> False
   | Inr st \<Rightarrow> completed (rx_stream st) \<and> bytesRead (fst (flowController (rx_stream st))) = 0 \<and>
       highestReceived (fst (flowController (rx_stream st))) = 4"
  by code_simp

theorem no_lost_wakeup_witness:
  "case stream_run waiting_events a_receiver of Inl e \<Rightarrow> False
   | Inr st \<Rightarrow> rx_reader st \<noteq> Idle \<and> \<not> arrived (rx_frames st) (rs_readPos (rx_stream st)) \<and> rs_readPos (rx_stream st) < finalOffset (rx_stream st)"
proof -
  obtain st where st: "stream_run waiting_events a_receiver = Inr st" "rx_reader st = Reading 10 (False, False, []) 0"
      "\<not> readChan (rx_stream st)" "\<not> cancelledRemotely (rx_stream st)"
    using waiting_run by (auto split: sum.splits)
  have "rx_reader st \<noteq> Idle" by (simp add: st(2))
  from no_lost_wakeup [OF a_receiver_new example_events_ok(1) st(1) refl this st(3,4)] this st(2) show ?thesis unfolding st(1) sum.case by blast
qed

text \<open>The same stream, reset after the call has begun to wait, with two reliable bytes, and then cancelled: the call goes on waiting.\<close>

lemma cancelled_run:
  "case stream_run (waiting_events @ [GotReset 0 4 2 3, WakeSignal (\<lambda>_. 3)]) a_receiver of Inl e \<Rightarrow> False
   | Inr st \<Rightarrow> rx_reader st = Reading 10 (False, False, []) 0 \<and> \<not> readChan (rx_stream st) \<and> cancelledRemotely (rx_stream st) \<and>
       closeForShutdownErr (rx_stream st) = None"
  by code_simp

lemma stream_run_append: "stream_run (xs @ ys) st = sum_bind (stream_run xs st) (stream_run ys)"
  by (induction xs arbitrary: st) (auto simp: sum_bind_def split: sum.split)

theorem cancel_leaves_reader_witness:
  "case stream_run (waiting_events @ [GotReset 0 4 2 3, WakeSignal (\<lambda>_. 3), CallCancel 0, WakeSignal (\<lambda>_. 4)]) a_receiver of Inl e \<Rightarrow> False
   | Inr st \<Rightarrow> cancelledLocally (rx_stream st) \<and> rx_reader st = Reading 10 (False, False, []) 0"
proof -
  obtain st where st: "stream_run (waiting_events @ [GotReset 0 4 2 3, WakeSignal (\<lambda>_. 3)]) a_receiver = Inr st"
      "rx_reader st = Reading 10 (False, False, []) 0" "\<not> readChan (rx_stream st)" "cancelledRemotely (rx_stream st)"
      "closeForShutdownErr (rx_stream st) = None"
    using cancelled_run by (auto split: sum.splits)
  have "case stream_run (waiting_events @ [GotReset 0 4 2 3, WakeSignal (\<lambda>_. 3), CallCancel 0, WakeSignal (\<lambda>_. 4)]) a_receiver of Inl e \<Rightarrow> False
    | Inr st \<Rightarrow> True" by code_simp
  then obtain st' where st': "stream_run (waiting_events @ [GotReset 0 4 2 3, WakeSignal (\<lambda>_. 3), CallCancel 0, WakeSignal (\<lambda>_. 4)]) a_receiver = Inr st'"
    by (auto split: sum.splits)
  have "stream_run [CallCancel 0, WakeSignal (\<lambda>_. 4)] st = Inr st'"
    using st' stream_run_append [of "waiting_events @ [GotReset 0 4 2 3, WakeSignal (\<lambda>_. 3)]" "[CallCancel 0, WakeSignal (\<lambda>_. 4)]" a_receiver] st(1)
    by (simp del: stream_run.simps)
  from cancel_leaves_reader [OF _ _ st(4,5,3) _ this] show ?thesis by (simp add: st' st(2) timer_of_def mono_IsZero_def del: stream_run.simps)
qed

end
