(* ===== verification/Spec2Isabelle.thy ===== *)
theory Spec2Isabelle
  imports Ledger_Theorems Sub_Effects Quic_Receiver
begin

text \<open>
  A verification library for two parts of the repository: the billing core of the panel (\<open>panel/internal\<close>) and the
  QUIC transport of the node agent (\<open>pdnd/internal/realityquic\<close>). Definitions carry the names of the Go functions they
  translate; a suffix or prefix is added where two packages share a name.

  \<^bold>\<open>Conventions.\<close> A Go function that reads and writes state and returns \<open>(T, error)\<close> is an \<open>eff\<close> (Prelude): it takes
  the state and returns an error or a value with the new state, so that an early return keeps what was written before
  it. A function that only computes is a HOL function; a panic is \<open>None\<close> or an error value of its own. Integers of 64
  bits are words where their bits matter and otherwise \<open>int\<close> with \<open>wrap64\<close> (Go_Strings) where an operation can leave the
  range; where it cannot, the theorems have the bound as a hypothesis or an invariant. A loop is a recursive function:
  structural, or with a measure. Where the end of a loop is not evident (\<open>cycleRollWindow\<close> of the billing code, the walks over
  the queue in \<open>Peek\<close> of the frame sorter) not returning is \<open>None\<close>, and it is proved that it returns. No function takes fuel.

  \<^bold>\<open>The panel: foundations.\<close> Prelude has \<open>eff\<close>, its weakest preconditions and the facts on rows of a table. Errs is
  \<open>pkg/errs\<close> (codes and the wrap chain), Money is \<open>pkg/money\<close> (amounts of two decimals; the decimal package is a
  parameter with the laws of a locale), Tx is \<open>pkg/tx\<close>, \<open>pkg/db\<close> and \<open>pkg/authn\<close>: transactions roll back to the tables
  they began with, hooks run after the outermost commit, and a violated constraint is a PostgreSQL error that each
  repository maps to its own. Go_Strings and Go_Time are what the code uses of Go's \<open>strings\<close>, \<open>unicode/utf8\<close> and \<open>time\<close>.
  Machine is the contract of a state machine: an invariant and a monotone relation kept by every step hold over runs.

  \<^bold>\<open>The ledger\<close> (\<open>module/ledger\<close>). Ledger_Types has the account types, kinds and rows; Ledger_Store the statements of
  \<open>repo\<close> on the tables of accounts, transactions, entries and holds with the constraints of the migrations;
  Ledger_Posting the pure part of a posting (validation, legs, new balances); Ledger_Post \<open>Post\<close>; Ledger_Holds holds,
  settlement and release; Ledger_Accounts balances, the wallet, adjustments and the self-checks; Ledger the interface its
  clients use and the step relation of all requests. Ledger_Theorems has the properties: the books stay sound over any
  run, history is final, what each operation moves, when it succeeds, and that a source is posted once.

  \<^bold>\<open>Subscriptions\<close> (\<open>module/subscription\<close>). Sub_Period is the arithmetic of periods, states and quota windows; Sub_Store
  the tables and statements; Sub_Charge the charging of traffic; Sub_Ops renewal, stacking, extension, plan change,
  reset and bonus; Sub_Admin what administrators change and the end of a user's subscriptions; Sub_Jobs the quota roll
  and the expiry scan. Sub_Facts shows what each statement keeps; Sub_Theorems has the step relation of all operations and
  what holds over runs, giving traffic, the choice of the current subscription and the charges of a batch; Sub_Effects has what
  a renewal does to the tables, row by row. The catalog, the audit log and the other modules that are called are parameters (\<open>ports\<close>).

  \<^bold>\<open>QUIC.\<close> Quic_Varint is \<open>quicvarint\<close>; Quic_Packet_Number the packet numbers and the short header; Quic_History the
  interval list of received packets and its meaning as a set; Quic_Ack the ACK frame; Quic_Tracker the trackers that
  decide what is acknowledged and when, and the runs of a connection that receives packets and sends acknowledgements;
  Quic_Frames all other frames, the frame parser and the payload of a packet. The lemmas end in round trips (numbers,
  packet numbers, frames, payloads), in exactness of the optimised searches, and in what a peer is told: only packets
  that were accepted, in time, and never by a frame that cannot be written.

  \<^bold>\<open>QUIC streams.\<close> Quic_Tree is \<open>internal/utils/tree\<close>, the balanced tree with its \<open>int8\<close> heights, shown to be an ascending list;
  Quic_Sorter the frame sorter, which keeps the gaps of a stream in that tree; Quic_Reassembly that it delivers the stream,
  all of it that can be delivered, and calls every callback once. Quic_Flow is \<open>internal/flowcontrol\<close>, with the rounding
  of \<open>float64\<close>, and the runs of a connection with its streams: windows are respected and open again. Quic_Receive is
  \<open>receive_stream.go\<close> on top of both, with a waiting call as part of the state; Quic_Delivery, Quic_Streams and
  Quic_Receiver carry its invariant through reading, peeking and the handlers to the runs of a stream: what is read, when the
  stream is completed and its credit returned, and that no wake-up is lost.

  \<^bold>\<open>Interfaces.\<close> The decimal package (\<open>decimal_laws\<close>) is a parameter with laws; a received-packet
  history is a locale \<open>packet_log\<close>, an ordered set of values with a total comparison the locale \<open>val_order\<close> of Quic_Tree (interpreted
  on byte intervals), a state machine with an invariant one of Machine, the ledger as its clients see it one of
  Ledger; each is interpreted on the definitions of the model.

  \<^bold>\<open>Not modelled.\<close> HTTP handlers, request decoding and the generated protocol code, because they only carry values
  in and out; the frontends, migrations and tools; reads for lists and reports; the rest of the panel's modules
  (orders, payments, promotions, commissions, gift cards, catalog, nodes, identity, notifications, support, settings), which
  reach the modelled ones through the operations above; TLS and REALITY (\<open>internal/reality\<close>) and packet protection, which
  rest on cryptography; congestion control and loss detection; the sending side of streams and the map of streams, connection ids,
  path probing and the event loop of the connection; the node agent's routing, kernel and protocol code. Logging and tracing are left out everywhere.
\<close>

end
